(* ===== verification/Prelude.thy ===== *)
theory Prelude
  imports Complex_Main "HOL-Library.AList" "HOL-Library.Word" "HOL-Library.Multiset"
begin

text \<open>
  Shared vocabulary of the development.

  \<^item> Errors: \<open>cpp_error\<close> lists the ways the C++ code can leave a function other than by
    returning (a standard exception, an index past a protobuf repeated field, a dereference
    of a null pointer or of an end iterator, a division by zero, a read of an uninitialised variable, an insertion into a vector that is
    being iterated over, a \<open>free\<close> of what \<open>malloc\<close> has not given out, a failing \<open>assert\<close>), or not to leave it at all (\<open>NoReturn\<close>). A fallible operation
    returns \<open>cpp_error + 'a\<close> and is sequenced with \<open>bindE\<close>.
  \<^item> Hash containers: \<open>std::unordered_map\<close> is a \<open>table\<close>, the association list of its
    entries in iteration order, with distinct keys (\<open>tbl_ok\<close>); \<open>std::unordered_set\<close> is
    the list of its elements in iteration order, with \<open>List.insert\<close> as its insertion.
    C++ leaves the iteration order open, so the theorems quantify over arbitrary tables and
    their statements never depend on where a new entry is placed.
  \<^item> Strings: \<open>std::string\<close> is \<open>string\<close>, a list of bytes, with the members of the standard
    library the code uses (\<open>find\<close>, \<open>substr\<close>, \<open>std::to_string\<close>, \<open>std::stoi\<close>).
  \<^item> Machine integers: \<open>uint8_t\<close>, \<open>unsigned\<close> and \<open>unsigned long long\<close> are words.
\<close>

named_theorems tbl \<open>lookup and well-formedness of tables\<close>
named_theorems strs \<open>bytes, tokens and decimal numerals\<close>
named_theorems errs \<open>sequencing of fallible operations\<close>

section \<open>Types\<close>

type_synonym u8 = "8 word"
type_synonym u32 = "32 word"
type_synonym u64 = "64 word"
type_synonym ('k, 'v) table = "('k \<times> 'v) list"

text \<open>A point of \<open>std::chrono::system_clock\<close>, in nanoseconds.\<close>

type_synonym time_point = int

text \<open>\<open>rand_r\<close>: from the seed, the pseudo-random value and the next seed.\<close>

type_synonym rand_fn = "u32 \<Rightarrow> nat \<times> u32"

section \<open>Errors\<close>

datatype cpp_error =
    StdOutOfRange
  | StdInvalidArgument
  | RepeatedFieldIndex
  | VectorIndex
  | NullDereference
  | EndDereference
  | DivisionByZero
  | UninitializedRead
  | IteratorInvalidated
  | InvalidFree
  | AssertFailed
  | NoReturn

definition bindE :: "'e + 'a \<Rightarrow> ('a \<Rightarrow> 'e + 'b) \<Rightarrow> 'e + 'b" where
  "bindE m f = (case m of Inl e \<Rightarrow> Inl e | Inr x \<Rightarrow> f x)"

lemma bindE_simps [simp, errs]:
  "bindE (Inl e) f = Inl e"
  "bindE (Inr x) f = f x"
  by (simp_all add: bindE_def)

lemma bindE_Inr_iff [errs]: "bindE m f = Inr y \<longleftrightarrow> (\<exists>x. m = Inr x \<and> f x = Inr y)"
  by (cases m) simp_all

lemma bindE_Inl_iff [errs]:
  "bindE m f = Inl e \<longleftrightarrow> m = Inl e \<or> (\<exists>x. m = Inr x \<and> f x = Inl e)"
  by (cases m) simp_all

text \<open>\<open>repeated.field(i)\<close> of protobuf and \<open>vec[i]\<close>: an index past the end is an error.\<close>

definition nth_or :: "cpp_error \<Rightarrow> 'a list \<Rightarrow> nat \<Rightarrow> cpp_error + 'a" where
  "nth_or e xs i = (if i < length xs then Inr (xs ! i) else Inl e)"

lemma nth_or_Inr_iff [errs]: "nth_or e xs i = Inr x \<longleftrightarrow> i < length xs \<and> xs ! i = x"
  by (simp add: nth_or_def)

lemma nth_or_Inl_iff [errs]: "nth_or e xs i = Inl e' \<longleftrightarrow> length xs \<le> i \<and> e' = e"
  by (auto simp: nth_or_def)

text \<open>Loops whose body may fail: one result per element, and a state threaded through the elements.\<close>

fun mapE :: "('a \<Rightarrow> 'e + 'b) \<Rightarrow> 'a list \<Rightarrow> 'e + 'b list" where
  "mapE f [] = Inr []"
| "mapE f (x # xs) = bindE (f x) (\<lambda>y. bindE (mapE f xs) (\<lambda>ys. Inr (y # ys)))"

fun foldE :: "('a \<Rightarrow> 's \<Rightarrow> 'e + 's) \<Rightarrow> 'a list \<Rightarrow> 's \<Rightarrow> 'e + 's" where
  "foldE f [] s = Inr s"
| "foldE f (x # xs) s = bindE (f x s) (foldE f xs)"

lemma foldE_append [errs]: "foldE f (xs @ ys) s = bindE (foldE f xs s) (foldE f ys)"
  by (induction xs arbitrary: s) (auto simp: bindE_def split: sum.splits)

lemma foldE_inv:
  assumes "\<And>x s s'. x \<in> set xs \<Longrightarrow> P s \<Longrightarrow> f x s = Inr s' \<Longrightarrow> P s'" and "P s" and "foldE f xs s = Inr s'"
  shows "P s'"
  using assms
proof (induction xs arbitrary: s)
  case Nil
  then show ?case by simp
next
  case (Cons x xs)
  then obtain s1 where s1: "f x s = Inr s1" "foldE f xs s1 = Inr s'" by (auto simp: bindE_Inr_iff)
  have "P s1" using Cons.prems(1) [OF _ Cons.prems(2) s1(1)] by simp
  then show ?case using Cons s1(2) by (meson list.set_intros(2))
qed

lemma foldE_Inr:
  assumes "\<And>x s. x \<in> set xs \<Longrightarrow> P s \<Longrightarrow> \<exists>s'. f x s = Inr s' \<and> P s'" and "P s"
  shows "\<exists>s'. foldE f xs s = Inr s' \<and> P s'"
  using assms
proof (induction xs arbitrary: s)
  case Nil
  then show ?case by simp
next
  case (Cons x xs)
  then obtain s1 where "f x s = Inr s1" "P s1" by (meson list.set_intros(1))
  then show ?case using Cons by simp
qed

lemma mapE_length [errs]: "mapE f xs = Inr ys \<Longrightarrow> length ys = length xs"
  by (induction xs arbitrary: ys) (auto simp: bindE_Inr_iff)

section \<open>Tables: \<open>std::unordered_map\<close>\<close>

definition tbl_ok :: "('k, 'v) table \<Rightarrow> bool" where
  "tbl_ok t \<longleftrightarrow> distinct (map fst t)"

text \<open>\<open>t.find(k) != t.end()\<close>, and \<open>t[k]\<close> read with the value-initialised default.\<close>

definition thas :: "('k, 'v) table \<Rightarrow> 'k \<Rightarrow> bool" where
  "thas t k \<longleftrightarrow> map_of t k \<noteq> None"

definition tget :: "'v \<Rightarrow> ('k, 'v) table \<Rightarrow> 'k \<Rightarrow> 'v" where
  "tget d t k = (case map_of t k of Some v \<Rightarrow> v | None \<Rightarrow> d)"

text \<open>\<open>t[k] = v\<close>, \<open>t.erase(k)\<close> and an update of \<open>t[k]\<close> in place.\<close>

abbreviation tput :: "'k \<Rightarrow> 'v \<Rightarrow> ('k, 'v) table \<Rightarrow> ('k, 'v) table" where
  "tput k v t \<equiv> AList.update k v t"

abbreviation terase :: "'k \<Rightarrow> ('k, 'v) table \<Rightarrow> ('k, 'v) table" where
  "terase k t \<equiv> AList.delete k t"

definition tmod :: "'v \<Rightarrow> ('v \<Rightarrow> 'v) \<Rightarrow> 'k \<Rightarrow> ('k, 'v) table \<Rightarrow> ('k, 'v) table" where
  "tmod d f k t = tput k (f (tget d t k)) t"

lemma map_of_tput [simp, tbl]: "map_of (tput k v t) k' = (if k' = k then Some v else map_of t k')"
  by (simp add: update_conv')

lemma map_of_terase [simp, tbl]: "map_of (terase k t) k' = (if k' = k then None else map_of t k')"
  by (simp add: delete_conv')

lemma map_of_tmod [simp, tbl]:
  "map_of (tmod d f k t) k' = (if k' = k then Some (f (tget d t k)) else map_of t k')"
  by (simp add: tmod_def)

lemma thas_tput [simp, tbl]: "thas (tput k v t) k' \<longleftrightarrow> k' = k \<or> thas t k'"
  by (simp add: thas_def)

lemma thas_terase [simp, tbl]: "thas (terase k t) k' \<longleftrightarrow> k' \<noteq> k \<and> thas t k'"
  by (simp add: thas_def)

lemma thas_tmod [simp, tbl]: "thas (tmod d f k t) k' \<longleftrightarrow> k' = k \<or> thas t k'"
  by (simp add: thas_def)

lemma tget_tput [simp, tbl]: "tget d (tput k v t) k' = (if k' = k then v else tget d t k')"
  by (simp add: tget_def)

lemma tget_terase [simp, tbl]: "tget d (terase k t) k' = (if k' = k then d else tget d t k')"
  by (simp add: tget_def)

lemma tget_tmod [simp, tbl]:
  "tget d (tmod d' f k t) k' = (if k' = k then f (tget d' t k) else tget d t k')"
  by (simp add: tget_def)

lemma tget_Nil [simp, tbl]: "tget d [] k = d"
  by (simp add: tget_def)

lemma thas_Nil [simp, tbl]: "\<not> thas [] k"
  by (simp add: thas_def)

lemma tget_not_has: "\<not> thas t k \<Longrightarrow> tget d t k = d"
  by (auto simp: thas_def tget_def)

lemma thas_iff_key: "thas t k \<longleftrightarrow> k \<in> fst ` set t"
  by (simp add: thas_def map_of_eq_None_iff)

lemma tget_in: "thas t k \<Longrightarrow> (k, tget d t k) \<in> set t"
  by (auto simp: thas_def tget_def dest: map_of_SomeD)

lemma tget_eqI: "tbl_ok t \<Longrightarrow> (k, v) \<in> set t \<Longrightarrow> tget d t k = v"
  by (simp add: tbl_ok_def tget_def)

lemma tbl_ok_Nil [simp, tbl]: "tbl_ok []"
  by (simp add: tbl_ok_def)

lemma tbl_ok_tput [simp, tbl]: "tbl_ok t \<Longrightarrow> tbl_ok (tput k v t)"
  by (simp add: tbl_ok_def distinct_update)

lemma tbl_ok_terase [simp, tbl]: "tbl_ok t \<Longrightarrow> tbl_ok (terase k t)"
  by (simp add: tbl_ok_def distinct_delete)

lemma tbl_ok_tmod [simp, tbl]: "tbl_ok t \<Longrightarrow> tbl_ok (tmod d f k t)"
  by (simp add: tmod_def)

lemma tput_same [tbl]: "map_of t k = Some v \<Longrightarrow> tput k v t = t"
  by (induction t) (auto split: if_splits)

lemma tmod_id_present: "thas t k \<Longrightarrow> tmod d id k t = t"
  by (auto simp: tmod_def tget_def thas_def intro: tput_same split: option.splits)

lemma tput_fresh [tbl]: "\<not> thas t k \<Longrightarrow> tput k v t = t @ [(k, v)]"
  by (induction t) (auto simp: thas_def split: if_splits)

lemma keys_tput_present: "thas t k \<Longrightarrow> map fst (tput k v t) = map fst t"
  by (induction t) (auto simp: thas_def split: if_splits)

lemma tbl_ok_update_split:
  "thas t k \<Longrightarrow> tbl_ok t \<Longrightarrow>
     \<exists>t1 v0 t2. t = t1 @ (k, v0) # t2 \<and> tput k v t = t1 @ (k, v) # t2"
proof (induction t)
  case Nil
  then show ?case by simp
next
  case (Cons p t)
  show ?case
  proof (cases "fst p = k")
    case True
    then show ?thesis
      by (metis AList.update.simps(2) append_Nil prod.collapse)
  next
    case False
    with Cons obtain t1 v0 t2 where "t = t1 @ (k, v0) # t2" "tput k v t = t1 @ (k, v) # t2"
      by (auto simp: thas_def tbl_ok_def split: if_splits)
    with False show ?thesis
      by (metis AList.update.simps(2) append_Cons prod.collapse)
  qed
qed

section \<open>Sets: \<open>std::unordered_set\<close>\<close>

abbreviation ins :: "'a \<Rightarrow> 'a list \<Rightarrow> 'a list" where
  "ins x xs \<equiv> List.insert x xs"

lemma ins_neq_Nil [simp, tbl]: "ins x xs \<noteq> []"
  by (cases xs) (simp_all add: List.insert_def)

lemma length_eq_imp_set_eq:
  assumes "distinct xs" and "distinct ys" and "set xs \<subseteq> set ys" and "length xs = length ys"
  shows "set xs = set ys"
proof -
  have "card (set xs) = card (set ys)"
    using assms(1,2,4) by (simp add: distinct_card)
  then show ?thesis
    using assms(3) by (simp add: card_subset_eq)
qed

lemma distinct_same_set_length:
  "distinct xs \<Longrightarrow> distinct ys \<Longrightarrow> set xs = set ys \<Longrightarrow> length xs = length ys"
  by (metis distinct_card)

section \<open>Strings\<close>

text \<open>\<open>s.find(c)\<close> for a one-character pattern; \<open>None\<close> is \<open>std::string::npos\<close>.\<close>

fun str_find :: "char \<Rightarrow> string \<Rightarrow> nat option" where
  "str_find c [] = None"
| "str_find c (x # xs) = (if x = c then Some 0 else map_option Suc (str_find c xs))"

lemma str_find_None [simp, strs]: "str_find c s = None \<longleftrightarrow> c \<notin> set s"
  by (induction s) auto

lemma str_find_append [simp, strs]:
  "c \<notin> set s \<Longrightarrow> str_find c (s @ c # r) = Some (length s)"
  by (induction s) auto

lemma str_find_Some_take: "str_find c s = Some n \<Longrightarrow> take n s = takeWhile (\<lambda>x. x \<noteq> c) s"
  by (induction s arbitrary: n) (auto split: if_splits)

lemma str_find_Some_less: "str_find c s = Some n \<Longrightarrow> n < length s"
  by (induction s arbitrary: n) (auto split: if_splits)

text \<open>\<open>s.substr(pos, n)\<close> raises \<open>std::out_of_range\<close> when \<open>pos > s.size()\<close>.\<close>

definition substr :: "string \<Rightarrow> nat \<Rightarrow> nat \<Rightarrow> cpp_error + string" where
  "substr s pos n = (if pos > length s then Inl StdOutOfRange else Inr (take n (drop pos s)))"

text \<open>A C string read from a buffer stops at the first NUL byte.\<close>

definition c_str :: "string \<Rightarrow> string" where
  "c_str s = takeWhile (\<lambda>c. c \<noteq> CHR 0x00) s"

lemma c_str_id [simp, strs]: "CHR 0x00 \<notin> set s \<Longrightarrow> c_str s = s"
  by (auto simp: c_str_def takeWhile_eq_all_conv)

section \<open>Decimal numerals: \<open>std::to_string\<close> and \<open>std::stoi\<close>\<close>

definition digit :: "nat \<Rightarrow> char" where
  "digit n = char_of (48 + n)"

definition is_digit :: "char \<Rightarrow> bool" where
  "is_digit c \<longleftrightarrow> 48 \<le> (of_char c :: nat) \<and> (of_char c :: nat) \<le> 57"

definition is_space :: "char \<Rightarrow> bool" where
  "is_space c \<longleftrightarrow> (of_char c :: nat) = 32 \<or> 9 \<le> (of_char c :: nat) \<and> (of_char c :: nat) \<le> 13"

fun to_string :: "nat \<Rightarrow> string" where
  "to_string n = (if n < 10 then [digit n] else to_string (n div 10) @ [digit (n mod 10)])"

declare to_string.simps [simp del]

definition digits_val :: "string \<Rightarrow> nat" where
  "digits_val s = foldl (\<lambda>acc c. 10 * acc + (of_char c - 48)) 0 s"

text \<open>
  \<open>std::stoi\<close>: leading white space, an optional sign, then the longest run of digits; no
  digit raises \<open>invalid_argument\<close>, a value outside \<open>int\<close> raises \<open>out_of_range\<close>. What follows
  the digits is ignored.
\<close>

definition stoi :: "string \<Rightarrow> cpp_error + int" where
  "stoi s =
     (let s1 = dropWhile is_space s;
          neg = (s1 \<noteq> [] \<and> hd s1 = CHR ''-'');
          s2 = (if s1 \<noteq> [] \<and> (hd s1 = CHR ''-'' \<or> hd s1 = CHR ''+'') then tl s1 else s1);
          ds = takeWhile is_digit s2;
          v = (if neg then - int (digits_val ds) else int (digits_val ds))
      in if ds = [] then Inl StdInvalidArgument
         else if v < - (2 ^ 31) \<or> 2 ^ 31 \<le> v then Inl StdOutOfRange
         else Inr v)"

lemma of_char_digit [simp, strs]: "n < 10 \<Longrightarrow> (of_char (digit n) :: nat) = 48 + n"
  by (simp add: digit_def)

lemma is_digit_digit [simp, strs]: "n < 10 \<Longrightarrow> is_digit (digit n)"
  by (simp add: is_digit_def)

lemma to_string_digits [strs]: "c \<in> set (to_string n) \<Longrightarrow> is_digit c"
proof (induction n rule: to_string.induct)
  case (1 n)
  show ?case
    using 1 by (cases "n < 10") (auto simp: to_string.simps [of n])
qed

lemma to_string_nonempty [simp, strs]: "to_string n \<noteq> []"
  by (subst to_string.simps) simp

lemma digits_val_snoc [simp, strs]:
  "digits_val (s @ [c]) = 10 * digits_val s + (of_char c - 48)"
  by (simp add: digits_val_def)

lemma digits_val_Nil [simp, strs]: "digits_val [] = 0"
  by (simp add: digits_val_def)

lemma digits_val_to_string [simp, strs]: "digits_val (to_string n) = n"
proof (induction n rule: to_string.induct)
  case (1 n)
  show ?case
  proof (cases "n < 10")
    case True
    then show ?thesis by (simp add: to_string.simps [of n] digits_val_def)
  next
    case False
    with 1 show ?thesis by (simp add: to_string.simps [of n])
  qed
qed

lemma to_string_inj [simp, strs]: "to_string m = to_string n \<longleftrightarrow> m = n"
  by (metis digits_val_to_string)

lemma digit_not_space: "is_digit c \<Longrightarrow> \<not> is_space c"
  by (auto simp: is_digit_def is_space_def)

lemma digit_not_char:
  "is_digit c \<Longrightarrow> c \<noteq> CHR ''-'' \<and> c \<noteq> CHR ''+'' \<and> c \<noteq> CHR ''|'' \<and> c \<noteq> CHR '':''
     \<and> c \<noteq> CHR '','' \<and> c \<noteq> CHR ''_'' \<and> c \<noteq> CHR 0x00"
  by (auto simp: is_digit_def)

lemma to_string_no_sep [simp, strs]:
  "CHR ''|'' \<notin> set (to_string n)" "CHR '':'' \<notin> set (to_string n)"
  "CHR '','' \<notin> set (to_string n)" "CHR ''_'' \<notin> set (to_string n)"
  "CHR 0x00 \<notin> set (to_string n)"
  using to_string_digits digit_not_char by blast+

lemma stoi_to_string [simp, strs]:
  assumes "n < 2 ^ 31"
  shows "stoi (to_string n) = Inr (int n)"
proof -
  obtain c s where cs: "to_string n = c # s"
    by (cases "to_string n") auto
  have dig: "\<forall>x \<in> set (to_string n). is_digit x"
    using to_string_digits by blast
  have c: "is_digit c"
    using dig cs by simp
  have "dropWhile is_space (to_string n) = to_string n"
    using c cs digit_not_space by simp
  moreover have "hd (to_string n) \<noteq> CHR ''-''" "hd (to_string n) \<noteq> CHR ''+''"
    using c cs digit_not_char by simp_all
  moreover have "takeWhile is_digit (to_string n) = to_string n"
    using dig by (simp add: takeWhile_eq_all_conv)
  moreover have "int n < 2 ^ 31"
    using assms by simp
  ultimately show ?thesis
    by (simp add: stoi_def Let_def del: takeWhile_eq_all_conv)
qed

section \<open>Clock arithmetic\<close>

text \<open>\<open>duration_cast\<close> truncates towards zero.\<close>

definition tdiv :: "int \<Rightarrow> int \<Rightarrow> int" where
  "tdiv d q = (if 0 \<le> d then d div q else - ((- d) div q))"

definition millis :: "int \<Rightarrow> int" where
  "millis d = tdiv d 1000000"

definition micros :: "int \<Rightarrow> int" where
  "micros d = tdiv d 1000"

section \<open>Runs of a step function over a list of inputs\<close>

text \<open>\<open>run_out f s xs\<close> feeds the inputs in order and collects the outputs of each step.\<close>

fun run_out :: "('s \<Rightarrow> 'i \<Rightarrow> 's \<times> 'o list) \<Rightarrow> 's \<Rightarrow> 'i list \<Rightarrow> 's \<times> 'o list" where
  "run_out f s [] = (s, [])"
| "run_out f s (x # xs) =
     (let (s1, o1) = f s x; (s2, o2) = run_out f s1 xs in (s2, o1 @ o2))"

lemma run_out_append:
  "run_out f s (xs @ ys) =
     (let (s1, o1) = run_out f s xs; (s2, o2) = run_out f s1 ys in (s2, o1 @ o2))"
  by (induction xs arbitrary: s) (auto simp: Let_def split: prod.splits)

lemma run_out_inv:
  assumes "\<And>s x. P s \<Longrightarrow> P (fst (f s x))" and "P s"
  shows "P (fst (run_out f s xs))"
  using assms(2)
proof (induction xs arbitrary: s)
  case Nil
  then show ?case by simp
next
  case (Cons x xs)
  then have "P (fst (run_out f (fst (f s x)) xs))"
    using assms(1) by blast
  then show ?case
    by (auto simp: Let_def split: prod.splits)
qed

text \<open>The same for steps that may fail: the first error ends the run.\<close>

fun runE :: "('i \<Rightarrow> 's \<Rightarrow> 'e + ('s \<times> 'o list)) \<Rightarrow> 'i list \<Rightarrow> 's \<Rightarrow> 'e + ('s \<times> 'o list)" where
  "runE f [] s = Inr (s, [])"
| "runE f (x # xs) s =
     bindE (f x s) (\<lambda>(s1, o1). bindE (runE f xs s1) (\<lambda>(s2, o2). Inr (s2, o1 @ o2)))"

lemma runE_Cons_Inr:
  "runE f (x # xs) s = Inr (s', out) \<longleftrightarrow>
     (\<exists>s1 o1 o2. f x s = Inr (s1, o1) \<and> runE f xs s1 = Inr (s', o2) \<and> out = o1 @ o2)"
  by (auto simp: bindE_Inr_iff)

lemma runE_inv:
  assumes "\<And>x s s' os. P s \<Longrightarrow> f x s = Inr (s', os) \<Longrightarrow> P s'" and "P s" and "runE f xs s = Inr (s', os)"
  shows "P s'"
  using assms(2,3)
proof (induction xs arbitrary: s os)
  case Nil
  then show ?case by simp
next
  case (Cons x xs)
  then obtain s1 o1 o2 where s1: "f x s = Inr (s1, o1)" "runE f xs s1 = Inr (s', o2)"
    by (auto simp: runE_Cons_Inr simp del: runE.simps(2))
  show ?case
    using Cons.IH [OF assms(1) [OF Cons.prems(1) s1(1)] s1(2)] .
qed

section \<open>Counting\<close>

text \<open>How many elements of a list, such as threads by what they are doing, have a property.\<close>

definition cnt :: "('a \<Rightarrow> bool) \<Rightarrow> 'a list \<Rightarrow> int" where
  "cnt P xs = int (length (filter P xs))"

lemma cnt_nonneg: "0 \<le> cnt P xs"
  by (simp add: cnt_def)

lemma cnt_upd: "t < length xs \<Longrightarrow> cnt P (xs[t := y]) = cnt P xs - of_bool (P (xs ! t)) + of_bool (P y)"
proof (induction xs arbitrary: t)
  case (Cons x xs)
  then show ?case by (cases t) (auto simp: cnt_def)
qed simp

lemma cnt_pos: "t < length xs \<Longrightarrow> P (xs ! t) \<Longrightarrow> 1 \<le> cnt P xs"
proof -
  assume "t < length xs" "P (xs ! t)"
  then have "xs ! t \<in> set (filter P xs)" by simp
  then have "filter P xs \<noteq> []" by (metis list.set(1) empty_iff)
  then show ?thesis by (cases "filter P xs") (simp_all add: cnt_def)
qed

lemma cnt_0: "cnt P xs = 0 \<longleftrightarrow> (\<forall>x \<in> set xs. \<not> P x)"
  by (simp add: cnt_def filter_empty_conv)

end
