(* ===== verification/Common.thy ===== *)
theory Common
  imports Prelude
begin

text \<open>
  The first half of \<^verbatim>\<open>common/include/common.hpp\<close>: the constants, the names under which
  objects live in shared memory, the \<open>BucketKey\<close> structure and its conversions, the
  tokenizer \<open>split\<close>, session identifiers (\<open>gen_random\<close>) and last-writer-wins timestamps
  (\<open>generate_timestamp\<close>). The theorems are the round trips other components rely on: an
  object name can be taken apart again, tokens can be joined and split, a generated session
  identifier has the length and the alphabet the name format needs.
\<close>

section \<open>Constants and object names\<close>

definition kDelimiterChar :: char where
  "kDelimiterChar = CHR ''|''"

definition kDelimiter :: string where
  "kDelimiter = ''|''"

definition msgDataPackingThreshold :: nat where
  "msgDataPackingThreshold = 1024"

definition bucketNameDirectInvoc :: string where
  "bucketNameDirectInvoc = ''direct_invoc''"

definition kvsKeyPrefix :: string where
  "kvsKeyPrefix = ''KVS''"

definition get_key_session_name :: "string \<Rightarrow> string \<Rightarrow> string" where
  "get_key_session_name k s = k @ s"

definition get_local_object_name :: "string \<Rightarrow> string \<Rightarrow> string \<Rightarrow> string" where
  "get_local_object_name b k s = b @ kDelimiter @ get_key_session_name k s"

record bucket_key =
  bk_bucket :: string
  bk_key :: string
  bk_session :: string

definition mk_bk :: "string \<Rightarrow> string \<Rightarrow> string \<Rightarrow> bucket_key" where
  "mk_bk b k s = \<lparr>bk_bucket = b, bk_key = k, bk_session = s\<rparr>"

text \<open>
  The constructor from a bucket and a combined \<open>session_key\<close>: the last 16 bytes are the
  session; a name of at most 16 bytes leaves both the key and the session empty.
\<close>

definition bk_of_session_key :: "string \<Rightarrow> string \<Rightarrow> bucket_key" where
  "bk_of_session_key b sk =
     (if length sk > 16
      then mk_bk b (take (length sk - 16) sk) (drop (length sk - 16) sk)
      else mk_bk b [] [])"

definition shm_key_name :: "bucket_key \<Rightarrow> string" where
  "shm_key_name bk = get_local_object_name (bk_bucket bk) (bk_key bk) (bk_session bk)"

text \<open>
  Without a delimiter \<open>find\<close> is \<open>npos\<close>: the bucket is the whole name, and
  \<open>npos + 1\<close> wraps to 0, so the combined key is the whole name as well.
\<close>

definition get_bucket_key_from_string :: "string \<Rightarrow> bucket_key" where
  "get_bucket_key_from_string nm =
     (case str_find kDelimiterChar nm of
        Some i \<Rightarrow> bk_of_session_key (take i nm) (drop (Suc i) nm)
      | None \<Rightarrow> bk_of_session_key nm nm)"

section \<open>Conversions to and from the wire messages\<close>

record bucket_key_tuple =
  bkt_bucket :: string
  bkt_key :: string
  bkt_session :: string
  bkt_payload :: string

record bucket_key_address =
  bka_bucket :: string
  bka_key :: string
  bka_session :: string
  bka_ips :: "string list"
  bka_payload :: string

definition empty_bka :: bucket_key_address where
  "empty_bka = \<lparr>bka_bucket = [], bka_key = [], bka_session = [], bka_ips = [], bka_payload = []\<rparr>"

definition get_tuple_from_bucket_key :: "bucket_key \<Rightarrow> bucket_key_tuple \<Rightarrow> bucket_key_tuple" where
  "get_tuple_from_bucket_key bk tp =
     tp\<lparr>bkt_bucket := bk_bucket bk, bkt_key := bk_key bk, bkt_session := bk_session bk\<rparr>"

definition get_bucket_key_from_tuple :: "bucket_key_tuple \<Rightarrow> bucket_key" where
  "get_bucket_key_from_tuple tp = mk_bk (bkt_bucket tp) (bkt_key tp) (bkt_session tp)"

definition get_addr_from_bucket_key :: "bucket_key \<Rightarrow> bucket_key_address \<Rightarrow> bucket_key_address" where
  "get_addr_from_bucket_key bk a =
     a\<lparr>bka_bucket := bk_bucket bk, bka_key := bk_key bk, bka_session := bk_session bk\<rparr>"

definition get_bucket_key_from_addr :: "bucket_key_address \<Rightarrow> bucket_key" where
  "get_bucket_key_from_addr a = mk_bk (bka_bucket a) (bka_key a) (bka_session a)"

lemma mk_bk_sel [simp]:
  "bk_bucket (mk_bk b k s) = b" "bk_key (mk_bk b k s) = k" "bk_session (mk_bk b k s) = s"
  by (simp_all add: mk_bk_def)

lemma mk_bk_collapse [simp]: "mk_bk (bk_bucket bk) (bk_key bk) (bk_session bk) = bk"
  by (simp add: mk_bk_def)

lemma bucket_key_from_addr_roundtrip [simp]:
  "get_bucket_key_from_addr (get_addr_from_bucket_key bk a) = bk"
  by (simp add: get_bucket_key_from_addr_def get_addr_from_bucket_key_def)

lemma bucket_key_from_tuple_roundtrip [simp]:
  "get_bucket_key_from_tuple (get_tuple_from_bucket_key bk tp) = bk"
  by (simp add: get_bucket_key_from_tuple_def get_tuple_from_bucket_key_def)

section \<open>\<open>split\<close>: tokens read with \<open>std::getline\<close>\<close>

text \<open>
  A delimiter at the very end does not start another (empty) token, and the empty string has
  no token at all.
\<close>

function split :: "string \<Rightarrow> char \<Rightarrow> string list" where
  "split s d =
     (if s = [] then []
      else takeWhile (\<lambda>c. c \<noteq> d) s #
           (case dropWhile (\<lambda>c. c \<noteq> d) s of [] \<Rightarrow> [] | c # r \<Rightarrow> split r d))"
  by pat_completeness auto
termination
proof (relation "measure (\<lambda>(s, d). length s)", goal_cases)
  case (2 s d c r)
  then have "length (c # r) \<le> length s"
    by (metis length_dropWhile_le)
  then show ?case by simp
qed simp

declare split.simps [simp del]

text \<open>The inverse: tokens joined with the delimiter in between.\<close>

fun join :: "char \<Rightarrow> string list \<Rightarrow> string" where
  "join d [] = []"
| "join d [t] = t"
| "join d (t # ts) = t @ d # join d ts"

lemma split_Nil [simp, strs]: "split [] d = []"
  by (simp add: split.simps)

lemma split_single [strs]: "s \<noteq> [] \<Longrightarrow> d \<notin> set s \<Longrightarrow> split s d = [s]"
proof -
  assume "s \<noteq> []" and d: "d \<notin> set s"
  moreover from d have "dropWhile (\<lambda>c. c \<noteq> d) s = []" and "takeWhile (\<lambda>c. c \<noteq> d) s = s"
    by (auto simp: dropWhile_eq_Nil_conv takeWhile_eq_all_conv)
  ultimately show ?thesis
    by (subst split.simps) (simp del: dropWhile_eq_Nil_conv takeWhile_eq_all_conv)
qed

lemma split_step [strs]: "d \<notin> set t \<Longrightarrow> split (t @ d # r) d = t # split r d"
proof -
  assume d: "d \<notin> set t"
  have tw: "takeWhile (\<lambda>c. c \<noteq> d) (t @ d # r) = t"
    using d by (simp add: takeWhile_append2 takeWhile_tail) (metis (full_types))
  have dw: "dropWhile (\<lambda>c. c \<noteq> d) (t @ d # r) = d # r"
    using d by (subst dropWhile_append2) auto
  show ?thesis
    by (subst split.simps) (simp add: tw dw)
qed

lemma join_Cons: "ts \<noteq> [] \<Longrightarrow> join d (t # ts) = t @ d # join d ts"
  by (cases ts) simp_all

lemma split_join [strs]:
  assumes "ts \<noteq> []" and "last ts \<noteq> []" and "\<And>t. t \<in> set ts \<Longrightarrow> d \<notin> set t"
  shows "split (join d ts) d = ts"
  using assms
proof (induction ts)
  case Nil
  then show ?case by simp
next
  case (Cons t ts)
  show ?case
  proof (cases "ts = []")
    case True
    with Cons.prems show ?thesis by (simp add: split_single)
  next
    case False
    with Cons show ?thesis by (simp add: join_Cons split_step)
  qed
qed

lemma split_tokens_no_delim [strs]: "t \<in> set (split s d) \<Longrightarrow> d \<notin> set t"
proof (induction s d rule: split.induct)
  case (1 s d)
  show ?case
  proof (cases "dropWhile (\<lambda>c. c \<noteq> d) s")
    case Nil
    then have "split s d = (if s = [] then [] else [takeWhile (\<lambda>c. c \<noteq> d) s])"
      by (simp only: split.simps [of s d] list.case)
    with 1(2) show ?thesis
      by (auto dest: set_takeWhileD split: if_splits)
  next
    case (Cons c r)
    with 1 show ?thesis
      by (auto simp: split.simps [of s d] dest: set_takeWhileD split: if_splits)
  qed
qed

section \<open>\<open>gen_random\<close>: session identifiers\<close>

definition alpha_num :: string where
  "alpha_num = ''0123456789ABCDEFGHIJKLMNOPQRSTUVWXYZabcdefghijklmnopqrstuvwxyz''"

fun gen_random :: "rand_fn \<Rightarrow> u32 \<Rightarrow> nat \<Rightarrow> string \<times> u32" where
  "gen_random rnd seed 0 = ([], seed)"
| "gen_random rnd seed (Suc len) =
     (let (v, seed1) = rnd seed; (s, seed2) = gen_random rnd seed1 len
      in (alpha_num ! (v mod 62) # s, seed2))"

lemma length_alpha_num: "length alpha_num = 62"
  by (simp add: alpha_num_def)

lemma alpha_num_no_sep: "CHR ''|'' \<notin> set alpha_num" "CHR 0x00 \<notin> set alpha_num"
  by (simp_all add: alpha_num_def)

lemma gen_random_length [simp]: "length (fst (gen_random rnd seed n)) = n"
  by (induction n arbitrary: seed) (simp_all add: Let_def case_prod_unfold)

lemma gen_random_alphabet: "set (fst (gen_random rnd seed n)) \<subseteq> set alpha_num"
proof (induction n arbitrary: seed)
  case 0
  then show ?case by simp
next
  case (Suc n)
  have "alpha_num ! (v mod 62) \<in> set alpha_num" for v
    by (simp add: length_alpha_num)
  with Suc show ?case
    by (simp add: Let_def case_prod_unfold)
qed

section \<open>\<open>generate_timestamp\<close>\<close>

text \<open>
  \<open>pow\<close> is a 32-bit \<open>unsigned\<close>: \<open>pow *= 10\<close> wraps, and the loop need not end for an
  identifier close to \<open>2^32\<close>; hence the option-valued recursion.
\<close>

partial_function (option) timestamp_pow :: "u32 \<Rightarrow> u32 \<Rightarrow> u32 option" where
  "timestamp_pow i pow = (if i \<ge> pow then timestamp_pow i (pow * 10) else Some pow)"

definition generate_timestamp :: "u64 \<Rightarrow> u32 \<Rightarrow> u64 option" where
  "generate_timestamp time i =
     map_option (\<lambda>pow. time * ucast pow + ucast i) (timestamp_pow i 10)"

lemma timestamp_pow_upto:
  "k < 9 \<Longrightarrow> 10 ^ k \<le> unat i \<or> k = 0 \<Longrightarrow> unat i < 10 ^ 9 \<Longrightarrow>
     \<exists>j. k < j \<and> j \<le> 9 \<and> timestamp_pow i (10 ^ Suc k) = Some (10 ^ j) \<and> unat i < 10 ^ j"
proof (induction "8 - k" arbitrary: k)
  case 0
  then have k: "k = 8" by simp
  with 0 have "\<not> (10 ^ 9 :: u32) \<le> i"
    by (simp add: word_le_nat_alt)
  then have "timestamp_pow i (10 ^ 9) = Some (10 ^ 9)"
    by (subst timestamp_pow.simps) simp
  with 0 k show ?case
    by (intro exI [of _ 9]) simp
next
  case (Suc n)
  have pow: "unat ((10::u32) ^ Suc k) = 10 ^ Suc k"
  proof -
    have "(10::nat) ^ Suc k \<le> 10 ^ 9"
      using Suc.hyps(2) by (intro power_increasing) auto
    then have "(10::nat) ^ Suc k < 2 ^ 32" by (rule order.strict_trans1) simp
    then have "unat (of_nat (10 ^ Suc k) :: u32) = 10 ^ Suc k"
      by (subst unat_of_nat) simp
    then show ?thesis by simp
  qed
  show ?case
  proof (cases "10 ^ Suc k \<le> unat i")
    case True
    then have "timestamp_pow i (10 ^ Suc k) = timestamp_pow i (10 ^ Suc (Suc k))"
      using pow by (subst timestamp_pow.simps) (simp add: word_le_nat_alt mult.commute)
    moreover have "\<exists>j. Suc k < j \<and> j \<le> 9 \<and> timestamp_pow i (10 ^ Suc (Suc k)) = Some (10 ^ j) \<and> unat i < 10 ^ j"
      using Suc True by (intro Suc.hyps(1)) auto
    ultimately show ?thesis by (metis Suc_lessD)
  next
    case False
    then have "timestamp_pow i (10 ^ Suc k) = Some (10 ^ Suc k)"
      using pow by (subst timestamp_pow.simps) (simp add: word_le_nat_alt)
    with False Suc show ?thesis by (intro exI [of _ "Suc k"]) auto
  qed
qed

lemma ucast_pow10: "j \<le> 9 \<Longrightarrow> (ucast ((10::u32) ^ j) :: u64) = 10 ^ j"
proof -
  assume "j \<le> 9"
  then have "j \<in> {0, 1, 2, 3, 4, 5, 6, 7, 8, 9}" by auto
  then show ?thesis by (elim insertE emptyE) simp_all
qed

lemma generate_timestamp_shape:
  assumes "unat i < 10 ^ 9"
  shows "\<exists>j. 1 \<le> j \<and> j \<le> 9 \<and> unat i < 10 ^ j \<and>
           (\<forall>time. generate_timestamp time i = Some (time * 10 ^ j + ucast i))"
proof -
  obtain j where j: "0 < j" "j \<le> 9" "timestamp_pow i (10 ^ Suc 0) = Some (10 ^ j)" "unat i < 10 ^ j"
    using timestamp_pow_upto [of 0 i] assms by auto
  then have "generate_timestamp time i = Some (time * 10 ^ j + ucast i)" for time
    by (simp add: generate_timestamp_def ucast_pow10)
  with j show ?thesis by (intro exI [of _ j]) simp
qed

section \<open>Properties\<close>

text \<open>
  Object names round-trip: the shared-memory name of a bucket key is taken apart into the
  same bucket, key and session, whenever the bucket has no delimiter, the session has the 16
  bytes of a generated identifier and the key is not empty.
\<close>

theorem object_name_roundtrip:
  assumes "CHR ''|'' \<notin> set (bk_bucket bk)" and "length (bk_session bk) = 16" and "bk_key bk \<noteq> []"
  shows "get_bucket_key_from_string (shm_key_name bk) = bk"
proof -
  have "str_find kDelimiterChar (shm_key_name bk) = Some (length (bk_bucket bk))"
    using assms(1)
    by (simp add: shm_key_name_def get_local_object_name_def kDelimiter_def kDelimiterChar_def)
  then show ?thesis
    using assms(2,3)
    by (simp add: get_bucket_key_from_string_def shm_key_name_def get_local_object_name_def
        kDelimiter_def get_key_session_name_def bk_of_session_key_def)
qed

theorem object_name_roundtrip_witness:
  "get_bucket_key_from_string (shm_key_name (mk_bk ''b_count'' ''k_map'' ''0123456789abcdef''))
     = mk_bk ''b_count'' ''k_map'' ''0123456789abcdef''"
  by (rule object_name_roundtrip) simp_all

text \<open>
  Timestamps of one writer: for a thread identifier below \<open>10^9\<close> the loop of
  \<open>generate_timestamp\<close> ends, the identifier can be read back from the timestamp, and a later
  clock reading gives a strictly larger timestamp, as long as the product stays below
  \<open>2^64\<close>.
\<close>

theorem generate_timestamp_orders_writes:
  assumes "unat i < 10 ^ 9" and "unat t2 < 2 ^ 64 div 10 ^ 9 - 1" and "t1 < t2"
  shows "\<exists>ts1 ts2 p. generate_timestamp t1 i = Some ts1 \<and> generate_timestamp t2 i = Some ts2
           \<and> ts1 < ts2 \<and> unat ts2 mod p = unat i \<and> unat ts2 div p = unat t2"
proof -
  obtain j where j: "1 \<le> j" "j \<le> 9" "unat i < 10 ^ j"
    and ts: "\<And>time. generate_timestamp time i = Some (time * 10 ^ j + ucast i)"
    using generate_timestamp_shape [OF assms(1)] by blast
  have le: "(10::nat) ^ j \<le> 10 ^ 9"
    using j by (intro power_increasing) auto
  have val: "unat (t * 10 ^ j + ucast i :: u64) = unat t * 10 ^ j + unat i"
    if "unat t < 2 ^ 64 div 10 ^ 9 - 1" for t
  proof -
    have p: "unat ((10::u64) ^ j) = 10 ^ j"
    proof -
      have "unat (of_nat (10 ^ j) :: u64) = 10 ^ j"
        using le by (subst unat_of_nat) simp
      then show ?thesis by simp
    qed
    have "unat t * 10 ^ j \<le> 18446744071 * 10 ^ 9"
      using that by (intro mult_le_mono le) simp
    also have "\<dots> < 2 ^ 64 - 10 ^ 9" by simp
    finally have "unat t * 10 ^ j + unat i < 2 ^ 64"
      using assms(1) by linarith
    moreover have "unat (ucast i :: u64) = unat i"
      by (simp add: unsigned_ucast_eq take_bit_nat_eq_self unsigned_less [THEN order.strict_trans2])
    ultimately show ?thesis
      by (simp add: unat_word_ariths p)
  qed
  have t12: "unat t1 < unat t2"
    using assms(3) by (simp add: word_less_nat_alt)
  have "unat t1 * 10 ^ j < unat t2 * 10 ^ j"
    using t12 by simp
  then have lt: "t1 * 10 ^ j + ucast i < (t2 * 10 ^ j + ucast i :: u64)"
    using assms(2) t12 by (simp add: word_less_nat_alt val)
  show ?thesis
    using ts lt val [OF assms(2)] j(3)
    by (intro exI [of _ "t1 * 10 ^ j + ucast i"] exI [of _ "t2 * 10 ^ j + ucast i"]
        exI [of _ "10 ^ j"]) simp
qed

theorem generate_timestamp_orders_writes_witness:
  "\<exists>ts1 ts2 p. generate_timestamp 1700000000 3 = Some ts1
     \<and> generate_timestamp 1700000001 3 = Some ts2 \<and> ts1 < ts2
     \<and> unat ts2 mod p = unat (3 :: u32) \<and> unat ts2 div p = unat (1700000001 :: u64)"
  by (rule generate_timestamp_orders_writes) simp_all

text \<open>
  Session identifiers: \<open>gen_random\<close> returns exactly the requested number of bytes, all of
  them letters or digits, so neither the delimiter nor NUL occurs; an object name built with a
  generated session therefore always splits at the bucket.
\<close>

theorem gen_random_session_id:
  "length (fst (gen_random rnd seed n)) = n
     \<and> set (fst (gen_random rnd seed n)) \<subseteq> set alpha_num
     \<and> CHR ''|'' \<notin> set (fst (gen_random rnd seed n))
     \<and> CHR 0x00 \<notin> set (fst (gen_random rnd seed n))"
  using gen_random_alphabet [of rnd seed n] alpha_num_no_sep by auto

end
