(* ===== verification/Trigger.thy ===== *)
theory Trigger
  imports Common
begin

text \<open>
  The trigger primitives of \<^verbatim>\<open>common/include/trigger.hpp\<close>. The abstract class \<open>Trigger\<close> is the
  record \<open>trigger_base\<close>, each subclass extends it with its private fields, and each virtual
  method is one function per subclass; \<open>trigger\<close> is the tagged union a \<open>TriggerPointer\<close>
  points to, with the virtual calls as case distinctions. The locale \<open>trigger_class\<close> is the
  contract that the coordinator and the local scheduler rely on: a trigger never names an
  object that it has not been given. It is interpreted for every subclass and for the union.
\<close>

section \<open>Data\<close>

datatype primitive_type =
    IMMEDIATE | BY_NAME | BY_BATCH_SIZE | BY_SET | DYNAMIC_GROUP | REDUNDANT | BY_TIME
  | UnrecognizedPrimitive int

record trigger_action =
  ta_function :: string
  ta_session_keys :: "(string \<times> string) list"

record trigger_function_metadata =
  tfm_func_name :: string
  tfm_func_args :: "string list"
  tfm_arg_flag :: int

record rerun_metadata =
  rm_source_func :: string
  rm_source_key :: string
  rm_timeout :: u32

type_synonym status_cache = "(string, trigger_function_metadata) table"

record trigger_base =
  tr_function :: string
  tr_name :: string
  tr_type :: primitive_type
  tr_option :: int

record immediate_trigger = trigger_base +
  im_status :: status_cache

record by_name_trigger = trigger_base +
  bn_key_name :: string
  bn_status :: status_cache

record by_batch_size_trigger = trigger_base +
  bb_count :: int
  bb_buffer :: "(string \<times> string) list"
  bb_status :: status_cache

record by_set_trigger = trigger_base +
  bs_key_set :: "string list"
  bs_prepared :: "(string, string list) table"
  bs_func_key :: "(string, string) table"
  bs_status :: status_cache

record dynamic_group_trigger = trigger_base +
  dg_data :: "(string, string list) table"
  dg_control :: "string list"
  dg_cur :: "string list"

record redundant_trigger = trigger_base +
  rd_k :: u32
  rd_n :: u32
  rd_count :: u32
  rd_buffer :: "(string \<times> string) list"

record by_time_trigger = trigger_base +
  bt_window :: u32
  bt_buffer :: "(string \<times> string) list"
  bt_last :: time_point

datatype trigger =
    ImmediateTrigger immediate_trigger
  | ByNameTrigger by_name_trigger
  | ByBatchSizeTrigger by_batch_size_trigger
  | BySetTrigger by_set_trigger
  | DynamicGroupTrigger dynamic_group_trigger
  | RedundantTrigger redundant_trigger
  | ByTimeTrigger by_time_trigger

abbreviation sess_key :: "bucket_key \<Rightarrow> string \<times> string" where
  "sess_key bk \<equiv> (bk_session bk, bk_key bk)"

definition mk_action :: "string \<Rightarrow> (string \<times> string) list \<Rightarrow> trigger_action" where
  "mk_action f sks = \<lparr>ta_function = f, ta_session_keys = sks\<rparr>"

definition mk_tfm :: "string \<Rightarrow> string list \<Rightarrow> int \<Rightarrow> trigger_function_metadata" where
  "mk_tfm f args flag = \<lparr>tfm_func_name = f, tfm_func_args = args, tfm_arg_flag = flag\<rparr>"

lemma mk_action_sel [simp]: "ta_function (mk_action f sks) = f" "ta_session_keys (mk_action f sks) = sks"
  by (simp_all add: mk_action_def)

section \<open>Constructors\<close>

definition immediate_init :: "string \<Rightarrow> string \<Rightarrow> immediate_trigger" where
  "immediate_init f nm = \<lparr>tr_function = f, tr_name = nm, tr_type = IMMEDIATE, tr_option = 0, im_status = []\<rparr>"

definition by_name_init :: "string \<Rightarrow> string \<Rightarrow> string \<Rightarrow> by_name_trigger" where
  "by_name_init f nm k =
     \<lparr>tr_function = f, tr_name = nm, tr_type = BY_NAME, tr_option = 0, bn_key_name = k, bn_status = []\<rparr>"

definition by_batch_size_init :: "string \<Rightarrow> string \<Rightarrow> int \<Rightarrow> by_batch_size_trigger" where
  "by_batch_size_init f nm c =
     \<lparr>tr_function = f, tr_name = nm, tr_type = BY_BATCH_SIZE, tr_option = 0,
      bb_count = c, bb_buffer = [], bb_status = []\<rparr>"

definition by_set_init :: "string \<Rightarrow> string \<Rightarrow> string list \<Rightarrow> by_set_trigger" where
  "by_set_init f nm ks =
     \<lparr>tr_function = f, tr_name = nm, tr_type = BY_SET, tr_option = 0,
      bs_key_set = ks, bs_prepared = [], bs_func_key = [], bs_status = []\<rparr>"

definition dynamic_group_init :: "string \<Rightarrow> string \<Rightarrow> string list \<Rightarrow> dynamic_group_trigger" where
  "dynamic_group_init f nm cg =
     \<lparr>tr_function = f, tr_name = nm, tr_type = DYNAMIC_GROUP, tr_option = 0,
      dg_data = [], dg_control = cg, dg_cur = []\<rparr>"

definition redundant_init :: "string \<Rightarrow> string \<Rightarrow> u32 \<Rightarrow> u32 \<Rightarrow> redundant_trigger" where
  "redundant_init f nm k n =
     \<lparr>tr_function = f, tr_name = nm, tr_type = REDUNDANT, tr_option = 0,
      rd_k = k, rd_n = n, rd_count = 0, rd_buffer = []\<rparr>"

definition by_time_init :: "time_point \<Rightarrow> string \<Rightarrow> string \<Rightarrow> u32 \<Rightarrow> by_time_trigger" where
  "by_time_init now f nm w =
     \<lparr>tr_function = f, tr_name = nm, tr_type = BY_TIME, tr_option = 0,
      bt_window = w, bt_buffer = [], bt_last = now\<rparr>"

section \<open>\<open>action_for_new_object\<close>\<close>

definition immediate_action :: "bucket_key \<Rightarrow> immediate_trigger \<Rightarrow> immediate_trigger \<times> trigger_action list" where
  "immediate_action bk t =
     (t\<lparr>im_status := terase (bk_session bk) (im_status t)\<rparr>, [mk_action (tr_function t) [sess_key bk]])"

definition by_name_action :: "bucket_key \<Rightarrow> by_name_trigger \<Rightarrow> by_name_trigger \<times> trigger_action list" where
  "by_name_action bk t =
     (t\<lparr>bn_status := terase (bk_session bk) (bn_status t)\<rparr>,
      if bk_key bk = bn_key_name t then [mk_action (tr_function t) [sess_key bk]] else [])"

text \<open>\<open>buffer_.size() >= count_\<close> compares a \<open>size_t\<close> with an \<open>int\<close>: the \<open>int\<close> is converted.\<close>

definition size_ge_int :: "nat \<Rightarrow> int \<Rightarrow> bool" where
  "size_ge_int n c \<longleftrightarrow> uint (word_of_int c :: u64) \<le> int n"

definition by_batch_size_action ::
  "bucket_key \<Rightarrow> by_batch_size_trigger \<Rightarrow> by_batch_size_trigger \<times> trigger_action list" where
  "by_batch_size_action bk t =
     (let buf = bb_buffer t @ [sess_key bk];
          t1 = t\<lparr>bb_buffer := buf, bb_status := terase (bk_session bk) (bb_status t)\<rparr>
      in if size_ge_int (length buf) (bb_count t)
         then (t1\<lparr>bb_buffer := []\<rparr>, [mk_action (tr_function t) buf])
         else (t1, []))"

definition by_set_action :: "bucket_key \<Rightarrow> by_set_trigger \<Rightarrow> by_set_trigger \<times> trigger_action list" where
  "by_set_action bk t =
     (if bk_key bk \<in> set (bs_key_set t)
      then (let prep = tmod [] (ins (bk_key bk)) (bk_session bk) (bs_prepared t);
                t1 = t\<lparr>bs_prepared := prep, bs_status := terase (bk_key bk @ bk_session bk) (bs_status t)\<rparr>
            in if length (tget [] prep (bk_session bk)) = length (bs_key_set t)
               then (t1\<lparr>bs_prepared := terase (bk_session bk) prep\<rparr>,
                     [mk_action (tr_function t) (map (\<lambda>k. (bk_session bk, k)) (bs_key_set t))])
               else (t1, []))
      else (t, []))"

definition group_delimiter :: char where
  "group_delimiter = CHR '':''"

definition control_group_prefix :: string where
  "control_group_prefix = ''ctrl''"

text \<open>\<open>key.substr(0, key.find(":"))\<close>: the whole key when there is no delimiter.\<close>

definition group_of_key :: "string \<Rightarrow> string" where
  "group_of_key k = (case str_find group_delimiter k of Some i \<Rightarrow> take i k | None \<Rightarrow> k)"

definition dynamic_group_action ::
  "bucket_key \<Rightarrow> dynamic_group_trigger \<Rightarrow> dynamic_group_trigger \<times> trigger_action list" where
  "dynamic_group_action bk t =
     (let group = group_of_key (bk_key bk)
      in if group = control_group_prefix
         then (let cur = (if bk_key bk \<in> set (dg_control t) then ins (bk_key bk) (dg_cur t) else dg_cur t)
               in if length cur = length (dg_control t)
                  then (t\<lparr>dg_data := [], dg_cur := []\<rparr>,
                        map (\<lambda>(g, ks). mk_action (tr_function t) (map (\<lambda>k. (bk_session bk, k)) ks)) (dg_data t))
                  else (t\<lparr>dg_cur := cur\<rparr>, []))
         else (t\<lparr>dg_data := tmod [] (ins (bk_key bk)) group (dg_data t)\<rparr>, []))"

definition redundant_action ::
  "bucket_key \<Rightarrow> redundant_trigger \<Rightarrow> redundant_trigger \<times> trigger_action list" where
  "redundant_action bk t =
     (let c = rd_count t + 1; t1 = t\<lparr>rd_count := c\<rparr>
      in if c \<le> rd_k t
         then (let buf = rd_buffer t @ [sess_key bk]
               in if c = rd_k t
                  then (t1\<lparr>rd_buffer := []\<rparr>, [mk_action (tr_function t) buf])
                  else (t1\<lparr>rd_buffer := buf\<rparr>, []))
         else if c \<ge> rd_n t then (t1\<lparr>rd_count := 0\<rparr>, [])
         else (t1, []))"

text \<open>The elapsed milliseconds are a signed 64-bit count, the window an \<open>unsigned\<close>.\<close>

definition by_time_action ::
  "time_point \<Rightarrow> bucket_key \<Rightarrow> by_time_trigger \<Rightarrow> by_time_trigger \<times> trigger_action list" where
  "by_time_action now bk t =
     (let buf = bt_buffer t @ [sess_key bk]
      in if millis (now - bt_last t) \<ge> uint (bt_window t)
         then (t\<lparr>bt_buffer := [], bt_last := now\<rparr>, [mk_action (tr_function t) buf])
         else (t\<lparr>bt_buffer := buf\<rparr>, []))"

fun action_for_new_object :: "time_point \<Rightarrow> bucket_key \<Rightarrow> trigger \<Rightarrow> trigger \<times> trigger_action list" where
  "action_for_new_object now bk (ImmediateTrigger t) = apfst ImmediateTrigger (immediate_action bk t)"
| "action_for_new_object now bk (ByNameTrigger t) = apfst ByNameTrigger (by_name_action bk t)"
| "action_for_new_object now bk (ByBatchSizeTrigger t) = apfst ByBatchSizeTrigger (by_batch_size_action bk t)"
| "action_for_new_object now bk (BySetTrigger t) = apfst BySetTrigger (by_set_action bk t)"
| "action_for_new_object now bk (DynamicGroupTrigger t) = apfst DynamicGroupTrigger (dynamic_group_action bk t)"
| "action_for_new_object now bk (RedundantTrigger t) = apfst RedundantTrigger (redundant_action bk t)"
| "action_for_new_object now bk (ByTimeTrigger t) = apfst ByTimeTrigger (by_time_action now bk t)"

section \<open>Re-execution: \<open>notify_source_func\<close>, \<open>action_for_rerun\<close>, \<open>set_rerun_metadata\<close>\<close>

definition cached :: "status_cache \<Rightarrow> string \<Rightarrow> trigger_function_metadata list" where
  "cached c k = (case map_of c k of Some m \<Rightarrow> [m] | None \<Rightarrow> [])"

definition immediate_notify ::
  "string \<Rightarrow> string \<Rightarrow> string list \<Rightarrow> int \<Rightarrow> immediate_trigger \<Rightarrow> immediate_trigger" where
  "immediate_notify f s args flag t = t\<lparr>im_status := tput s (mk_tfm f args flag) (im_status t)\<rparr>"

definition by_name_notify :: "string \<Rightarrow> string \<Rightarrow> string list \<Rightarrow> int \<Rightarrow> by_name_trigger \<Rightarrow> by_name_trigger" where
  "by_name_notify f s args flag t = t\<lparr>bn_status := tput s (mk_tfm f args flag) (bn_status t)\<rparr>"

definition by_batch_size_notify ::
  "string \<Rightarrow> string \<Rightarrow> string list \<Rightarrow> int \<Rightarrow> by_batch_size_trigger \<Rightarrow> by_batch_size_trigger" where
  "by_batch_size_notify f s args flag t = t\<lparr>bb_status := tput s (mk_tfm f args flag) (bb_status t)\<rparr>"

text \<open>\<open>func_key_map_[func_name]\<close> creates an empty key for an unknown function.\<close>

definition by_set_notify :: "string \<Rightarrow> string \<Rightarrow> string list \<Rightarrow> int \<Rightarrow> by_set_trigger \<Rightarrow> by_set_trigger" where
  "by_set_notify f s args flag t =
     (if bs_func_key t \<noteq> []
      then t\<lparr>bs_func_key := tmod [] id f (bs_func_key t),
             bs_status := tput (tget [] (bs_func_key t) f @ s) (mk_tfm f args flag) (bs_status t)\<rparr>
      else t)"

definition by_set_rerun :: "string \<Rightarrow> by_set_trigger \<Rightarrow> trigger_function_metadata list" where
  "by_set_rerun s t =
     (if bs_func_key t \<noteq> [] then concat (map (\<lambda>k. cached (bs_status t) (k @ s)) (bs_key_set t)) else [])"

definition by_set_rerun_metadata :: "rerun_metadata list \<Rightarrow> by_set_trigger \<Rightarrow> by_set_trigger" where
  "by_set_rerun_metadata ms t =
     t\<lparr>bs_func_key := fold (\<lambda>m. tput (rm_source_func m) (rm_source_key m)) ms (bs_func_key t)\<rparr>"

fun notify_source_func :: "string \<Rightarrow> string \<Rightarrow> string list \<Rightarrow> int \<Rightarrow> trigger \<Rightarrow> trigger" where
  "notify_source_func f s args flag (ImmediateTrigger t) = ImmediateTrigger (immediate_notify f s args flag t)"
| "notify_source_func f s args flag (ByNameTrigger t) = ByNameTrigger (by_name_notify f s args flag t)"
| "notify_source_func f s args flag (ByBatchSizeTrigger t) = ByBatchSizeTrigger (by_batch_size_notify f s args flag t)"
| "notify_source_func f s args flag (BySetTrigger t) = BySetTrigger (by_set_notify f s args flag t)"
| "notify_source_func f s args flag t = t"

fun action_for_rerun :: "string \<Rightarrow> trigger \<Rightarrow> trigger_function_metadata list" where
  "action_for_rerun s (ImmediateTrigger t) = cached (im_status t) s"
| "action_for_rerun s (ByNameTrigger t) = cached (bn_status t) s"
| "action_for_rerun s (ByBatchSizeTrigger t) = cached (bb_status t) s"
| "action_for_rerun s (BySetTrigger t) = by_set_rerun s t"
| "action_for_rerun s t = []"

fun set_rerun_metadata :: "rerun_metadata list \<Rightarrow> trigger \<Rightarrow> trigger" where
  "set_rerun_metadata ms (BySetTrigger t) = BySetTrigger (by_set_rerun_metadata ms t)"
| "set_rerun_metadata ms t = t"

section \<open>\<open>clear\<close> and the accessors of the base class\<close>

definition by_batch_size_clear :: "string \<Rightarrow> by_batch_size_trigger \<Rightarrow> by_batch_size_trigger" where
  "by_batch_size_clear s t = t\<lparr>bb_buffer := [], bb_status := []\<rparr>"

definition by_set_clear :: "string \<Rightarrow> by_set_trigger \<Rightarrow> by_set_trigger" where
  "by_set_clear s t = t\<lparr>bs_prepared := terase s (bs_prepared t), bs_status := terase s (bs_status t)\<rparr>"

definition dynamic_group_clear :: "string \<Rightarrow> dynamic_group_trigger \<Rightarrow> dynamic_group_trigger" where
  "dynamic_group_clear s t = t\<lparr>dg_data := [], dg_cur := []\<rparr>"

definition redundant_clear :: "string \<Rightarrow> redundant_trigger \<Rightarrow> redundant_trigger" where
  "redundant_clear s t = t\<lparr>rd_count := rd_count t + rd_k t, rd_buffer := []\<rparr>"

definition by_time_clear :: "string \<Rightarrow> by_time_trigger \<Rightarrow> by_time_trigger" where
  "by_time_clear s t = t\<lparr>bt_buffer := []\<rparr>"

fun clear :: "string \<Rightarrow> trigger \<Rightarrow> trigger" where
  "clear s (ImmediateTrigger t) = ImmediateTrigger t"
| "clear s (ByNameTrigger t) = ByNameTrigger t"
| "clear s (ByBatchSizeTrigger t) = ByBatchSizeTrigger (by_batch_size_clear s t)"
| "clear s (BySetTrigger t) = BySetTrigger (by_set_clear s t)"
| "clear s (DynamicGroupTrigger t) = DynamicGroupTrigger (dynamic_group_clear s t)"
| "clear s (RedundantTrigger t) = RedundantTrigger (redundant_clear s t)"
| "clear s (ByTimeTrigger t) = ByTimeTrigger (by_time_clear s t)"

fun trigger_base_of :: "trigger \<Rightarrow> trigger_base" where
  "trigger_base_of (ImmediateTrigger t) = trigger_base.truncate t"
| "trigger_base_of (ByNameTrigger t) = trigger_base.truncate t"
| "trigger_base_of (ByBatchSizeTrigger t) = trigger_base.truncate t"
| "trigger_base_of (BySetTrigger t) = trigger_base.truncate t"
| "trigger_base_of (DynamicGroupTrigger t) = trigger_base.truncate t"
| "trigger_base_of (RedundantTrigger t) = trigger_base.truncate t"
| "trigger_base_of (ByTimeTrigger t) = trigger_base.truncate t"

definition get_trigger_name :: "trigger \<Rightarrow> string" where
  "get_trigger_name t = tr_name (trigger_base_of t)"

definition get_type :: "trigger \<Rightarrow> primitive_type" where
  "get_type t = tr_type (trigger_base_of t)"

definition get_trigger_option :: "trigger \<Rightarrow> int" where
  "get_trigger_option t = tr_option (trigger_base_of t)"

fun set_trigger_option :: "int \<Rightarrow> trigger \<Rightarrow> trigger" where
  "set_trigger_option n (ImmediateTrigger t) = ImmediateTrigger (t\<lparr>tr_option := n\<rparr>)"
| "set_trigger_option n (ByNameTrigger t) = ByNameTrigger (t\<lparr>tr_option := n\<rparr>)"
| "set_trigger_option n (ByBatchSizeTrigger t) = ByBatchSizeTrigger (t\<lparr>tr_option := n\<rparr>)"
| "set_trigger_option n (BySetTrigger t) = BySetTrigger (t\<lparr>tr_option := n\<rparr>)"
| "set_trigger_option n (DynamicGroupTrigger t) = DynamicGroupTrigger (t\<lparr>tr_option := n\<rparr>)"
| "set_trigger_option n (RedundantTrigger t) = RedundantTrigger (t\<lparr>tr_option := n\<rparr>)"
| "set_trigger_option n (ByTimeTrigger t) = ByTimeTrigger (t\<lparr>tr_option := n\<rparr>)"

end
