(* ===== verification/Trigger_Gen.thy ===== *)
theory Trigger_Gen
  imports Trigger
begin

text \<open>
  Shipping a trigger between nodes (\<^verbatim>\<open>common/include/trigger.hpp\<close>): \<open>dump_pritimive\<close> of each
  subclass writes the primitive message of \<^verbatim>\<open>common/proto/operation.proto\<close>, and
  \<open>gen_trigger_pointer\<close> rebuilds a fresh trigger from it. The generated serializers of the
  seven messages are the parameter \<open>prim_codec\<close>; what is relied on (\<open>codec_ok\<close>) is that
  parsing what was serialized gives the message back, and that no bytes parse as the message
  with default fields.
\<close>

section \<open>The primitive messages\<close>

datatype immediate_primitive = ImmediatePrimitive (ip_function: string)
datatype by_name_primitive = ByNamePrimitive (bnp_function: string) (bnp_key_name: string)
datatype by_batch_size_primitive = ByBatchSizePrimitive (bbp_function: string) (bbp_count: u32)
datatype by_set_primitive = BySetPrimitive (bsp_function: string) (bsp_key_set: "string list")
datatype dynamic_group_primitive =
  DynamicGroupPrimitive (dgp_function: string) (dgp_control_group: "string list")
datatype redundant_primitive = RedundantPrimitive (rdp_function: string) (rdp_k: u32) (rdp_n: u32)
datatype by_time_primitive = ByTimePrimitive (btp_function: string) (btp_time_window: u32)

record 'w prim_codec =
  ser_immediate :: "immediate_primitive \<Rightarrow> 'w"
  par_immediate :: "'w \<Rightarrow> immediate_primitive"
  ser_by_name :: "by_name_primitive \<Rightarrow> 'w"
  par_by_name :: "'w \<Rightarrow> by_name_primitive"
  ser_by_batch_size :: "by_batch_size_primitive \<Rightarrow> 'w"
  par_by_batch_size :: "'w \<Rightarrow> by_batch_size_primitive"
  ser_by_set :: "by_set_primitive \<Rightarrow> 'w"
  par_by_set :: "'w \<Rightarrow> by_set_primitive"
  ser_dynamic_group :: "dynamic_group_primitive \<Rightarrow> 'w"
  par_dynamic_group :: "'w \<Rightarrow> dynamic_group_primitive"
  ser_redundant :: "redundant_primitive \<Rightarrow> 'w"
  par_redundant :: "'w \<Rightarrow> redundant_primitive"
  ser_by_time :: "by_time_primitive \<Rightarrow> 'w"
  par_by_time :: "'w \<Rightarrow> by_time_primitive"
  no_bytes :: "'w"

definition codec_ok :: "'w prim_codec \<Rightarrow> bool" where
  "codec_ok c \<longleftrightarrow>
     (\<forall>m. par_immediate c (ser_immediate c m) = m) \<and> (\<forall>m. par_by_name c (ser_by_name c m) = m)
   \<and> (\<forall>m. par_by_batch_size c (ser_by_batch_size c m) = m) \<and> (\<forall>m. par_by_set c (ser_by_set c m) = m)
   \<and> (\<forall>m. par_dynamic_group c (ser_dynamic_group c m) = m) \<and> (\<forall>m. par_redundant c (ser_redundant c m) = m)
   \<and> (\<forall>m. par_by_time c (ser_by_time c m) = m)
   \<and> par_immediate c (no_bytes c) = ImmediatePrimitive []"

section \<open>\<open>dump_pritimive\<close>\<close>

definition immediate_dump :: "'w prim_codec \<Rightarrow> immediate_trigger \<Rightarrow> 'w" where
  "immediate_dump c t = ser_immediate c (ImmediatePrimitive (tr_function t))"

definition by_name_dump :: "'w prim_codec \<Rightarrow> by_name_trigger \<Rightarrow> 'w" where
  "by_name_dump c t = ser_by_name c (ByNamePrimitive (tr_function t) (bn_key_name t))"

text \<open>\<open>set_count\<close> takes a \<open>uint32\<close>: the \<open>int\<close> is converted.\<close>

definition by_batch_size_dump :: "'w prim_codec \<Rightarrow> by_batch_size_trigger \<Rightarrow> 'w" where
  "by_batch_size_dump c t = ser_by_batch_size c (ByBatchSizePrimitive (tr_function t) (word_of_int (bb_count t)))"

definition by_set_dump :: "'w prim_codec \<Rightarrow> by_set_trigger \<Rightarrow> 'w" where
  "by_set_dump c t = ser_by_set c (BySetPrimitive (tr_function t) (bs_key_set t))"

definition dynamic_group_dump :: "'w prim_codec \<Rightarrow> dynamic_group_trigger \<Rightarrow> 'w" where
  "dynamic_group_dump c t = ser_dynamic_group c (DynamicGroupPrimitive (tr_function t) (dg_control t))"

definition redundant_dump :: "'w prim_codec \<Rightarrow> redundant_trigger \<Rightarrow> 'w" where
  "redundant_dump c t = ser_redundant c (RedundantPrimitive (tr_function t) (rd_k t) (rd_n t))"

definition by_time_dump :: "'w prim_codec \<Rightarrow> by_time_trigger \<Rightarrow> 'w" where
  "by_time_dump c t = ser_by_time c (ByTimePrimitive (tr_function t) (bt_window t))"

fun dump_pritimive :: "'w prim_codec \<Rightarrow> trigger \<Rightarrow> 'w" where
  "dump_pritimive c (ImmediateTrigger t) = immediate_dump c t"
| "dump_pritimive c (ByNameTrigger t) = by_name_dump c t"
| "dump_pritimive c (ByBatchSizeTrigger t) = by_batch_size_dump c t"
| "dump_pritimive c (BySetTrigger t) = by_set_dump c t"
| "dump_pritimive c (DynamicGroupTrigger t) = dynamic_group_dump c t"
| "dump_pritimive c (RedundantTrigger t) = redundant_dump c t"
| "dump_pritimive c (ByTimeTrigger t) = by_time_dump c t"

section \<open>\<open>gen_trigger_pointer\<close>\<close>

text \<open>\<open>None\<close> is \<open>nullptr\<close>; a set is filled by inserting the message's keys in order.\<close>

definition set_of_keys :: "string list \<Rightarrow> string list" where
  "set_of_keys ks = fold ins ks []"

fun gen_trigger_pointer :: "'w prim_codec \<Rightarrow> time_point \<Rightarrow> primitive_type \<Rightarrow> string \<Rightarrow> 'w \<Rightarrow> trigger option" where
  "gen_trigger_pointer c now IMMEDIATE nm w =
     (let p = par_immediate c w in Some (ImmediateTrigger (immediate_init (ip_function p) nm)))"
| "gen_trigger_pointer c now BY_NAME nm w =
     (let p = par_by_name c w in Some (ByNameTrigger (by_name_init (bnp_function p) nm (bnp_key_name p))))"
| "gen_trigger_pointer c now BY_BATCH_SIZE nm w =
     (let p = par_by_batch_size c w
      in Some (ByBatchSizeTrigger (by_batch_size_init (bbp_function p) nm (sint (bbp_count p)))))"
| "gen_trigger_pointer c now BY_SET nm w =
     (let p = par_by_set c w in Some (BySetTrigger (by_set_init (bsp_function p) nm (set_of_keys (bsp_key_set p)))))"
| "gen_trigger_pointer c now DYNAMIC_GROUP nm w =
     (let p = par_dynamic_group c w
      in Some (DynamicGroupTrigger (dynamic_group_init (dgp_function p) nm (set_of_keys (dgp_control_group p)))))"
| "gen_trigger_pointer c now REDUNDANT nm w =
     (let p = par_redundant c w in Some (RedundantTrigger (redundant_init (rdp_function p) nm (rdp_k p) (rdp_n p))))"
| "gen_trigger_pointer c now BY_TIME nm w =
     (let p = par_by_time c w in Some (ByTimeTrigger (by_time_init now (btp_function p) nm (btp_time_window p))))"
| "gen_trigger_pointer c now (UnrecognizedPrimitive n) nm w = None"

section \<open>Freshness\<close>

text \<open>
  The trigger another node builds from a dump: the same configuration with no runtime state,
  option 0, and key sets that are equal as sets.
\<close>

definition same_keys :: "string list \<Rightarrow> string list \<Rightarrow> bool" where
  "same_keys xs ys \<longleftrightarrow> set xs = set ys \<and> distinct xs"

fun fresh_copy :: "time_point \<Rightarrow> trigger \<Rightarrow> trigger \<Rightarrow> bool" where
  "fresh_copy now (ImmediateTrigger t) u = (u = ImmediateTrigger (immediate_init (tr_function t) (tr_name t)))"
| "fresh_copy now (ByNameTrigger t) u =
     (u = ByNameTrigger (by_name_init (tr_function t) (tr_name t) (bn_key_name t)))"
| "fresh_copy now (ByBatchSizeTrigger t) u =
     (u = ByBatchSizeTrigger (by_batch_size_init (tr_function t) (tr_name t) (bb_count t)))"
| "fresh_copy now (BySetTrigger t) u =
     (\<exists>ks. same_keys ks (bs_key_set t) \<and> u = BySetTrigger (by_set_init (tr_function t) (tr_name t) ks))"
| "fresh_copy now (DynamicGroupTrigger t) u =
     (\<exists>ks. same_keys ks (dg_control t) \<and> u = DynamicGroupTrigger (dynamic_group_init (tr_function t) (tr_name t) ks))"
| "fresh_copy now (RedundantTrigger t) u =
     (u = RedundantTrigger (redundant_init (tr_function t) (tr_name t) (rd_k t) (rd_n t)))"
| "fresh_copy now (ByTimeTrigger t) u =
     (u = ByTimeTrigger (by_time_init now (tr_function t) (tr_name t) (bt_window t)))"

text \<open>The type tag of every constructed trigger names its subclass; the batch size is an \<open>int\<close>.\<close>

fun tagged :: "trigger \<Rightarrow> bool" where
  "tagged (ImmediateTrigger t) = (tr_type t = IMMEDIATE)"
| "tagged (ByNameTrigger t) = (tr_type t = BY_NAME)"
| "tagged (ByBatchSizeTrigger t) = (tr_type t = BY_BATCH_SIZE \<and> - (2 ^ 31) \<le> bb_count t \<and> bb_count t < 2 ^ 31)"
| "tagged (BySetTrigger t) = (tr_type t = BY_SET)"
| "tagged (DynamicGroupTrigger t) = (tr_type t = DYNAMIC_GROUP)"
| "tagged (RedundantTrigger t) = (tr_type t = REDUNDANT)"
| "tagged (ByTimeTrigger t) = (tr_type t = BY_TIME)"

lemma set_of_keys_same: "same_keys (set_of_keys ks) ks"
proof -
  have "set (fold ins ks r) = set r \<union> set ks" for r :: "string list"
    by (induction ks arbitrary: r) auto
  moreover have "distinct r \<Longrightarrow> distinct (fold ins ks r)" for r :: "string list"
    by (induction ks arbitrary: r) auto
  ultimately show ?thesis by (simp add: same_keys_def set_of_keys_def)
qed

lemma sint_word_of_int_32: "- (2 ^ 31) \<le> i \<Longrightarrow> i < 2 ^ 31 \<Longrightarrow> sint (word_of_int i :: u32) = i"
  by (simp add: sint_sbintrunc' signed_take_bit_int_eq_self)

lemma sint_u32_range: "- 2147483648 \<le> sint (w :: u32)" "sint (w :: u32) < 2147483648"
  using sint_greater_eq [of w] sint_less [of w] by simp_all

lemmas dump_defs = immediate_dump_def by_name_dump_def by_batch_size_dump_def by_set_dump_def
  dynamic_group_dump_def redundant_dump_def by_time_dump_def

lemmas base_defs = get_trigger_name_def get_type_def get_trigger_option_def trigger_base.truncate_def

lemma gen_trigger_pointer_tagged: "gen_trigger_pointer c now ty nm w = Some t \<Longrightarrow> tagged t"
  by (cases ty) (auto simp: Let_def sint_u32_range immediate_init_def by_name_init_def by_batch_size_init_def by_set_init_def
      dynamic_group_init_def redundant_init_def by_time_init_def)

section \<open>Properties\<close>

text \<open>
  A trigger can be shipped: dumping any trigger and generating one from the bytes, with
  the trigger's own type and name, gives a fresh trigger with the same configuration (a key
  set is the same set).
\<close>

theorem trigger_dump_roundtrip:
  assumes "codec_ok c" and "tagged t"
  shows "\<exists>u. gen_trigger_pointer c now (get_type t) (get_trigger_name t) (dump_pritimive c t) = Some u
          \<and> fresh_copy now t u"
  using assms
  by (cases t) (auto simp: codec_ok_def base_defs dump_defs Let_def sint_word_of_int_32
      intro!: exI [of _ "set_of_keys _"] set_of_keys_same)

text \<open>A concrete codec: the wire carries the message itself, tagged with its class.\<close>

datatype prim_wire =
    WImmediate immediate_primitive | WByName by_name_primitive | WByBatchSize by_batch_size_primitive
  | WBySet by_set_primitive | WDynamicGroup dynamic_group_primitive | WRedundant redundant_primitive
  | WByTime by_time_primitive | WNoBytes

definition wire_codec :: "prim_wire prim_codec" where
  "wire_codec =
     \<lparr>ser_immediate = WImmediate, par_immediate = (\<lambda>w. case w of WImmediate m \<Rightarrow> m | _ \<Rightarrow> ImmediatePrimitive []),
      ser_by_name = WByName, par_by_name = (\<lambda>w. case w of WByName m \<Rightarrow> m | _ \<Rightarrow> ByNamePrimitive [] []),
      ser_by_batch_size = WByBatchSize, par_by_batch_size = (\<lambda>w. case w of WByBatchSize m \<Rightarrow> m | _ \<Rightarrow> ByBatchSizePrimitive [] 0),
      ser_by_set = WBySet, par_by_set = (\<lambda>w. case w of WBySet m \<Rightarrow> m | _ \<Rightarrow> BySetPrimitive [] []),
      ser_dynamic_group = WDynamicGroup, par_dynamic_group = (\<lambda>w. case w of WDynamicGroup m \<Rightarrow> m | _ \<Rightarrow> DynamicGroupPrimitive [] []),
      ser_redundant = WRedundant, par_redundant = (\<lambda>w. case w of WRedundant m \<Rightarrow> m | _ \<Rightarrow> RedundantPrimitive [] 0 0),
      ser_by_time = WByTime, par_by_time = (\<lambda>w. case w of WByTime m \<Rightarrow> m | _ \<Rightarrow> ByTimePrimitive [] 0),
      no_bytes = WNoBytes\<rparr>"

lemma wire_codec_ok: "codec_ok wire_codec"
  by (simp add: codec_ok_def wire_codec_def)

theorem trigger_dump_roundtrip_witness:
  "\<exists>u. gen_trigger_pointer wire_codec 0 (get_type (BySetTrigger (by_set_init ''f'' ''t'' [''a'', ''b''])))
         (get_trigger_name (BySetTrigger (by_set_init ''f'' ''t'' [''a'', ''b''])))
         (dump_pritimive wire_codec (BySetTrigger (by_set_init ''f'' ''t'' [''a'', ''b'']))) = Some u
       \<and> fresh_copy 0 (BySetTrigger (by_set_init ''f'' ''t'' [''a'', ''b''])) u"
  by (rule trigger_dump_roundtrip [OF wire_codec_ok]) (simp add: by_set_init_def)

end
