(* ===== verification/Trigger_Props.thy ===== *)
theory Trigger_Props
  imports Trigger_Gen
begin

text \<open>
  Correctness of the trigger primitives. The locale \<open>trigger_class\<close> states the contract of
  \<open>Trigger\<close> for its callers, every subclass and the union satisfy it, and the properties give
  the behaviour of the individual primitives: batches are FIFO without loss, a key set fires
  exactly when it is complete, k-out-of-n fires once per round, a dynamic group releases the
  partition of its data.
\<close>

section \<open>The contract of a trigger\<close>

text \<open>
  \<open>pending\<close> is the set of keys the trigger remembers and may put into a later action. An
  action only names remembered keys or the key that has just arrived.
\<close>

locale trigger_class =
  fixes inv :: "'t \<Rightarrow> bool"
    and pending :: "'t \<Rightarrow> string set"
    and act :: "time_point \<Rightarrow> bucket_key \<Rightarrow> 't \<Rightarrow> 't \<times> trigger_action list"
    and clr :: "string \<Rightarrow> 't \<Rightarrow> 't"
  assumes inv_act: "inv t \<Longrightarrow> inv (fst (act now bk t))"
    and pending_act: "inv t \<Longrightarrow> pending (fst (act now bk t)) \<subseteq> insert (bk_key bk) (pending t)"
    and action_keys: "inv t \<Longrightarrow> a \<in> set (snd (act now bk t)) \<Longrightarrow>
      snd ` set (ta_session_keys a) \<subseteq> insert (bk_key bk) (pending t)"
    and inv_clr: "inv t \<Longrightarrow> inv (clr s t)"
    and pending_clr: "inv t \<Longrightarrow> pending (clr s t) \<subseteq> pending t"
begin

lemma run_keys:
  "inv t \<Longrightarrow> run_out (\<lambda>t (now, bk). act now bk t) t evs = (t', as) \<Longrightarrow>
     inv t' \<and> pending t' \<subseteq> pending t \<union> (\<lambda>(now, bk). bk_key bk) ` set evs
     \<and> (\<forall>a \<in> set as. snd ` set (ta_session_keys a) \<subseteq> pending t \<union> (\<lambda>(now, bk). bk_key bk) ` set evs)"
proof (induction evs arbitrary: t t' as)
  case Nil
  then show ?case by simp
next
  case (Cons ev evs)
  obtain now bk where ev: "ev = (now, bk)" by (cases ev)
  obtain t1 o1 where a1: "act now bk t = (t1, o1)" by (cases "act now bk t")
  obtain o2 where r: "run_out (\<lambda>t (now, bk). act now bk t) t1 evs = (t', o2)" and as: "as = o1 @ o2"
    using Cons.prems(2) a1 ev by (auto simp: Let_def split: prod.splits)
  have i: "inv t1" "pending t1 \<subseteq> insert (bk_key bk) (pending t)"
    using inv_act [OF Cons.prems(1), of now bk] pending_act [OF Cons.prems(1), of now bk] a1 by auto
  have o: "\<And>a. a \<in> set o1 \<Longrightarrow> snd ` set (ta_session_keys a) \<subseteq> insert (bk_key bk) (pending t)"
    using action_keys [OF Cons.prems(1), of _ now bk] a1 by simp
  let ?K = "pending t \<union> (\<lambda>(now, bk). bk_key bk) ` set (ev # evs)"
  have sub: "insert (bk_key bk) (pending t) \<subseteq> ?K" "pending t1 \<union> (\<lambda>(now, bk). bk_key bk) ` set evs \<subseteq> ?K"
    using i(2) by (auto simp: ev)
  have "snd ` set (ta_session_keys a) \<subseteq> ?K" if "a \<in> set as" for a
  proof (cases "a \<in> set o1")
    case True
    then show ?thesis using o sub(1) by (meson order.trans)
  next
    case False
    with that as have "a \<in> set o2" by simp
    then show ?thesis using Cons.IH [OF i(1) r] sub(2) by (meson order.trans)
  qed
  moreover have "inv t'" "pending t' \<subseteq> ?K"
    using Cons.IH [OF i(1) r] sub(2) by blast+
  ultimately show ?case by blast
qed

end

section \<open>Invariants and pending keys\<close>

definition by_set_inv :: "by_set_trigger \<Rightarrow> bool" where
  "by_set_inv t \<longleftrightarrow> distinct (bs_key_set t)
     \<and> (\<forall>s. distinct (tget [] (bs_prepared t) s) \<and> set (tget [] (bs_prepared t) s) \<subseteq> set (bs_key_set t))"

definition dynamic_group_inv :: "dynamic_group_trigger \<Rightarrow> bool" where
  "dynamic_group_inv t \<longleftrightarrow> tbl_ok (dg_data t) \<and> distinct (dg_control t) \<and> distinct (dg_cur t)
     \<and> set (dg_cur t) \<subseteq> set (dg_control t)
     \<and> (\<forall>g. distinct (tget [] (dg_data t) g) \<and> (\<forall>k \<in> set (tget [] (dg_data t) g). group_of_key k = g))"

definition vals_union :: "(string, string list) table \<Rightarrow> string set" where
  "vals_union t = (\<Union>k. set (tget [] t k))"

fun trigger_inv :: "trigger \<Rightarrow> bool" where
  "trigger_inv (BySetTrigger t) = by_set_inv t"
| "trigger_inv (DynamicGroupTrigger t) = dynamic_group_inv t"
| "trigger_inv t = True"

fun pending_keys :: "trigger \<Rightarrow> string set" where
  "pending_keys (ImmediateTrigger t) = {}"
| "pending_keys (ByNameTrigger t) = {}"
| "pending_keys (ByBatchSizeTrigger t) = snd ` set (bb_buffer t)"
| "pending_keys (BySetTrigger t) = vals_union (bs_prepared t)"
| "pending_keys (DynamicGroupTrigger t) = vals_union (dg_data t)"
| "pending_keys (RedundantTrigger t) = snd ` set (rd_buffer t)"
| "pending_keys (ByTimeTrigger t) = snd ` set (bt_buffer t)"

lemma vals_union_Nil [simp]: "vals_union [] = {}"
  by (simp add: vals_union_def)

lemma tget_vals_union: "set (tget [] t k) \<subseteq> vals_union t"
  by (auto simp: vals_union_def)

lemma vals_union_tmod_ins: "vals_union (tmod [] (ins x) k t) \<subseteq> insert x (vals_union t)"
  by (auto simp: vals_union_def split: if_splits)

lemma vals_union_terase: "vals_union (terase k t) \<subseteq> vals_union t"
  by (auto simp: vals_union_def split: if_splits)

lemma by_set_inv_action: "by_set_inv t \<Longrightarrow> by_set_inv (fst (by_set_action bk t))"
  by (auto simp: by_set_action_def by_set_inv_def Let_def)

text \<open>The prepared keys of the arriving object's session are complete as a set when they are as many.\<close>

lemma by_set_complete:
  assumes "by_set_inv t" and "bk_key bk \<in> set (bs_key_set t)"
  shows "length (ins (bk_key bk) (tget [] (bs_prepared t) s)) = length (bs_key_set t)
     \<longleftrightarrow> insert (bk_key bk) (set (tget [] (bs_prepared t) s)) = set (bs_key_set t)"
proof -
  let ?ks = "ins (bk_key bk) (tget [] (bs_prepared t) s)"
  have "distinct ?ks" "distinct (bs_key_set t)" "set ?ks \<subseteq> set (bs_key_set t)"
    using assms by (auto simp: by_set_inv_def)
  then have "length ?ks = length (bs_key_set t) \<longleftrightarrow> set ?ks = set (bs_key_set t)"
    using length_eq_imp_set_eq distinct_same_set_length by blast
  then show ?thesis by simp
qed

lemma dynamic_group_inv_action: "dynamic_group_inv t \<Longrightarrow> dynamic_group_inv (fst (dynamic_group_action bk t))"
  by (auto simp: dynamic_group_action_def dynamic_group_inv_def Let_def)

section \<open>Every subclass satisfies the contract\<close>

interpretation immediate: trigger_class "\<lambda>_. True" "\<lambda>_. {}" "\<lambda>now. immediate_action" "\<lambda>s t. t"
  by unfold_locales (auto simp: immediate_action_def)

interpretation by_name: trigger_class "\<lambda>_. True" "\<lambda>_. {}" "\<lambda>now. by_name_action" "\<lambda>s t. t"
  by unfold_locales (auto simp: by_name_action_def split: if_splits)

interpretation by_batch_size: trigger_class "\<lambda>_. True" "\<lambda>t. snd ` set (bb_buffer t)"
  "\<lambda>now. by_batch_size_action" by_batch_size_clear
  by unfold_locales (auto simp: by_batch_size_action_def by_batch_size_clear_def Let_def split: if_splits)

interpretation by_set: trigger_class by_set_inv "\<lambda>t. vals_union (bs_prepared t)" "\<lambda>now. by_set_action" by_set_clear
proof (unfold_locales, goal_cases)
  case (1 t now bk)
  then show ?case by (rule by_set_inv_action)
next
  case (2 t now bk)
  show ?case
    by (auto simp: by_set_action_def Let_def vals_union_def split: if_splits)
next
  case (3 t a now bk)
  then show ?case
    using by_set_complete [OF 3(1), of bk "bk_session bk"] tget_vals_union [of "bs_prepared t" "bk_session bk"]
    by (auto simp: by_set_action_def Let_def split: if_splits)
next
  case (4 t s)
  then show ?case by (auto simp: by_set_clear_def by_set_inv_def)
next
  case (5 t s)
  then show ?case by (simp add: by_set_clear_def vals_union_terase)
qed

interpretation dynamic_group: trigger_class dynamic_group_inv "\<lambda>t. vals_union (dg_data t)"
  "\<lambda>now. dynamic_group_action" dynamic_group_clear
proof (unfold_locales, goal_cases)
  case (1 t now bk)
  then show ?case by (rule dynamic_group_inv_action)
next
  case (2 t now bk)
  then show ?case
    using vals_union_tmod_ins by (auto simp: dynamic_group_action_def Let_def)
next
  case (3 t a now bk)
  have "set ks \<subseteq> vals_union (dg_data t)" if "(g, ks) \<in> set (dg_data t)" for g ks
    using that 3(1) tget_eqI [of "dg_data t" g ks "[]"] tget_vals_union [of "dg_data t" g]
    by (simp add: dynamic_group_inv_def)
  with 3(2) show ?case
    by (fastforce simp: dynamic_group_action_def Let_def split: if_splits)
next
  case (4 t s)
  then show ?case by (simp add: dynamic_group_clear_def dynamic_group_inv_def)
next
  case (5 t s)
  then show ?case by (simp add: dynamic_group_clear_def)
qed

interpretation redundant: trigger_class "\<lambda>_. True" "\<lambda>t. snd ` set (rd_buffer t)" "\<lambda>now. redundant_action" redundant_clear
  by unfold_locales (auto simp: redundant_action_def redundant_clear_def Let_def split: if_splits)

interpretation by_time: trigger_class "\<lambda>_. True" "\<lambda>t. snd ` set (bt_buffer t)" by_time_action by_time_clear
  by unfold_locales (auto simp: by_time_action_def by_time_clear_def Let_def split: if_splits)

interpretation any_trigger: trigger_class trigger_inv pending_keys action_for_new_object clear
proof (unfold_locales, goal_cases)
  case (1 t now bk)
  then show ?case by (cases t) (simp_all add: by_set_inv_action dynamic_group_inv_action)
next
  case (2 t now bk)
  then show ?case
    using by_batch_size.pending_act by_set.pending_act dynamic_group.pending_act
      redundant.pending_act by_time.pending_act
    by (cases t) simp_all
next
  case (3 t a now bk)
  then show ?case
    using immediate.action_keys by_name.action_keys by_batch_size.action_keys by_set.action_keys
      dynamic_group.action_keys redundant.action_keys by_time.action_keys
    by (cases t) simp_all
next
  case (4 t s)
  then show ?case by (cases t) (simp_all add: by_set.inv_clr dynamic_group.inv_clr)
next
  case (5 t s)
  then show ?case
    using by_batch_size.pending_clr by_set.pending_clr dynamic_group.pending_clr
      redundant.pending_clr by_time.pending_clr
    by (cases t) simp_all
qed

section \<open>Batches\<close>

lemma size_ge_int_pos: "0 < c \<Longrightarrow> c < 2 ^ 31 \<Longrightarrow> size_ge_int n c \<longleftrightarrow> nat c \<le> n"
  by (auto simp: size_ge_int_def uint_word_of_int)

lemma batch_run:
  assumes "0 < bb_count t" and "bb_count t < 2 ^ 31" and "length (bb_buffer t) < nat (bb_count t)"
    and "run_out (\<lambda>t bk. by_batch_size_action bk t) t bks = (t', as)"
  shows "concat (map ta_session_keys as) @ bb_buffer t' = bb_buffer t @ map sess_key bks
    \<and> (\<forall>a \<in> set as. length (ta_session_keys a) = nat (bb_count t) \<and> ta_function a = tr_function t)
    \<and> length (bb_buffer t') < nat (bb_count t)"
  using assms
proof (induction bks arbitrary: t as)
  case Nil
  then show ?case by simp
next
  case (Cons bk bks)
  obtain t1 o1 where a: "by_batch_size_action bk t = (t1, o1)" by (cases "by_batch_size_action bk t")
  obtain o2 where r: "run_out (\<lambda>t bk. by_batch_size_action bk t) t1 bks = (t', o2)" and as: "as = o1 @ o2"
    using Cons.prems(4) a by (auto simp: Let_def split: prod.splits)
  have same: "bb_count t1 = bb_count t" "tr_function t1 = tr_function t"
    and buf: "concat (map ta_session_keys o1) @ bb_buffer t1 = bb_buffer t @ [sess_key bk]"
    and len: "length (bb_buffer t1) < nat (bb_count t)"
    and o1: "\<forall>a \<in> set o1. length (ta_session_keys a) = nat (bb_count t) \<and> ta_function a = tr_function t"
    using a Cons.prems(1-3)
    by (auto simp: by_batch_size_action_def Let_def size_ge_int_pos split: if_splits)
  have "concat (map ta_session_keys o2) @ bb_buffer t' = bb_buffer t1 @ map sess_key bks
    \<and> (\<forall>a \<in> set o2. length (ta_session_keys a) = nat (bb_count t) \<and> ta_function a = tr_function t)
    \<and> length (bb_buffer t') < nat (bb_count t)"
    using Cons.IH [of t1 o2] Cons.prems(1,2) len r same by simp
  moreover have "concat (map ta_session_keys as) @ bb_buffer t'
      = concat (map ta_session_keys o1) @ concat (map ta_session_keys o2) @ bb_buffer t'"
    by (simp add: as)
  moreover have "concat (map ta_session_keys o1) @ bb_buffer t1 @ map sess_key bks
      = bb_buffer t @ map sess_key (bk # bks)"
    using arg_cong [OF buf, of "\<lambda>x. x @ map sess_key bks"] by simp
  ultimately show ?case using o1 by (auto simp: as)
qed

text \<open>
  C33. A \<open>BY_BATCH_SIZE\<close> trigger with a positive count loses, reorders and duplicates nothing:
  whatever objects arrive, the actions it fires followed by its buffer are exactly the arrived
  objects in order, every action has exactly the configured number of objects, and fewer than
  that many wait.
\<close>

theorem batch_fifo_no_loss:
  assumes "0 < c" and "c < 2 ^ 31"
    and "run_out (\<lambda>t bk. by_batch_size_action bk t) (by_batch_size_init f nm c) bks = (t', as)"
  shows "concat (map ta_session_keys as) @ bb_buffer t' = map sess_key bks
    \<and> (\<forall>a \<in> set as. length (ta_session_keys a) = nat c \<and> ta_function a = f)
    \<and> length (bb_buffer t') < nat c"
  using batch_run [of "by_batch_size_init f nm c" bks t' as] assms
  by (simp add: by_batch_size_init_def)

theorem batch_fifo_no_loss_witness:
  "(let (t', as) = run_out (\<lambda>t bk. by_batch_size_action bk t) (by_batch_size_init ''f'' ''t'' 2)
          [mk_bk ''b'' ''k1'' ''s'', mk_bk ''b'' ''k2'' ''s'', mk_bk ''b'' ''k3'' ''s'']
    in concat (map ta_session_keys as) @ bb_buffer t'
         = [(''s'', ''k1''), (''s'', ''k2''), (''s'', ''k3'')] \<and> length (bb_buffer t') < 2)"
  using batch_fifo_no_loss [of 2 "''f''" "''t''"
      "[mk_bk ''b'' ''k1'' ''s'', mk_bk ''b'' ''k2'' ''s'', mk_bk ''b'' ''k3'' ''s'']", OF _ _ prod.collapse [symmetric]]
  by (simp add: case_prod_unfold Let_def mk_bk_def)

section \<open>Key sets\<close>

text \<open>
  The specification of \<open>BY_SET\<close>: per session the set of keys seen, and one action with the
  whole key set when the set becomes complete.
\<close>

definition set_spec_step ::
  "string list \<Rightarrow> string \<Rightarrow> (string \<Rightarrow> string set) \<Rightarrow> bucket_key \<Rightarrow> (string \<Rightarrow> string set) \<times> trigger_action list" where
  "set_spec_step K f seen bk =
     (if bk_key bk \<notin> set K then (seen, [])
      else if insert (bk_key bk) (seen (bk_session bk)) = set K
      then (seen(bk_session bk := {}), [mk_action f (map (\<lambda>k. (bk_session bk, k)) K)])
      else (seen(bk_session bk := insert (bk_key bk) (seen (bk_session bk))), []))"

definition set_abs :: "by_set_trigger \<Rightarrow> string \<Rightarrow> string set" where
  "set_abs t s = set (tget [] (bs_prepared t) s)"

lemma by_set_step_refines:
  assumes "by_set_inv t"
  shows "apfst set_abs (by_set_action bk t) = set_spec_step (bs_key_set t) (tr_function t) (set_abs t) bk"
  using by_set_complete [OF assms, of bk "bk_session bk"]
  by (auto simp: by_set_action_def set_spec_step_def set_abs_def Let_def fun_eq_iff)

lemma by_set_action_const:
  "bs_key_set (fst (by_set_action bk t)) = bs_key_set t" "tr_function (fst (by_set_action bk t)) = tr_function t"
  by (simp_all add: by_set_action_def Let_def)

lemma by_set_run_refines:
  "by_set_inv t \<Longrightarrow>
     apfst set_abs (run_out (\<lambda>t bk. by_set_action bk t) t bks)
       = run_out (set_spec_step (bs_key_set t) (tr_function t)) (set_abs t) bks"
proof (induction bks arbitrary: t)
  case Nil
  then show ?case by simp
next
  case (Cons bk bks)
  obtain t1 o1 where a: "by_set_action bk t = (t1, o1)" by (cases "by_set_action bk t")
  have "apfst set_abs (run_out (\<lambda>t bk. by_set_action bk t) t1 bks)
      = run_out (set_spec_step (bs_key_set t) (tr_function t)) (set_abs t1) bks"
    using Cons.IH [of t1] by_set_inv_action [OF Cons.prems, of bk] by_set_action_const [of bk t] a by simp
  moreover have "set_spec_step (bs_key_set t) (tr_function t) (set_abs t) bk = (set_abs t1, o1)"
    using by_set_step_refines [OF Cons.prems, of bk] a by simp
  ultimately show ?case
    by (simp add: a Let_def apfst_def map_prod_def case_prod_unfold prod_eq_iff)
qed

text \<open>
  C9. A \<open>BY_SET\<close> trigger refines its specification over every run: its counter comparison
  fires for a session exactly when the set of keys seen for that session becomes the whole key
  set, with one action that lists the key set, and then starts over for that session.
\<close>

theorem by_set_refines_spec:
  assumes "distinct K"
  shows "apfst set_abs (run_out (\<lambda>t bk. by_set_action bk t) (by_set_init f nm K) bks)
       = run_out (set_spec_step K f) (\<lambda>s. {}) bks"
proof -
  have "by_set_inv (by_set_init f nm K)" "set_abs (by_set_init f nm K) = (\<lambda>s. {})"
    using assms by (simp_all add: by_set_inv_def by_set_init_def set_abs_def fun_eq_iff)
  then show ?thesis
    using by_set_run_refines [of "by_set_init f nm K" bks] by (simp add: by_set_init_def)
qed

theorem by_set_refines_spec_witness:
  "snd (run_out (\<lambda>t bk. by_set_action bk t) (by_set_init ''f'' ''t'' [''a'', ''b''])
      [mk_bk ''x'' ''a'' ''s'', mk_bk ''x'' ''a'' ''s'', mk_bk ''x'' ''b'' ''s''])
   = [mk_action ''f'' [(''s'', ''a''), (''s'', ''b'')]]"
  using arg_cong [OF by_set_refines_spec [of "[''a'', ''b'']" "''f''" "''t''"
      "[mk_bk ''x'' ''a'' ''s'', mk_bk ''x'' ''a'' ''s'', mk_bk ''x'' ''b'' ''s'']"], of snd]
  by (auto simp: set_spec_step_def mk_bk_def Let_def)

section \<open>k out of n\<close>

definition rd_at :: "string \<Rightarrow> string \<Rightarrow> u32 \<Rightarrow> u32 \<Rightarrow> nat \<Rightarrow> (string \<times> string) list \<Rightarrow> redundant_trigger" where
  "rd_at f nm k n c buf = (redundant_init f nm k n)\<lparr>rd_count := of_nat c, rd_buffer := buf\<rparr>"

lemma unat_u32_less: "unat (k :: u32) < 2 ^ 32"
  using unsigned_less [of k, where 'a = nat] by simp

lemma of_nat_u32_cmp:
  assumes "c < 2 ^ 32"
  shows "(of_nat c :: u32) \<le> k \<longleftrightarrow> c \<le> unat k" "(of_nat c :: u32) = k \<longleftrightarrow> c = unat k"
    "(k \<le> of_nat c) \<longleftrightarrow> unat k \<le> c"
  using assms by (auto simp: word_le_nat_alt unat_of_nat word_unat_eq_iff)

lemma rd_step:
  assumes "c + 1 < 2 ^ 32"
  shows "redundant_action bk (rd_at f nm k n c buf) =
    (if c + 1 < unat k then (rd_at f nm k n (c + 1) (buf @ [sess_key bk]), [])
     else if c + 1 = unat k then (rd_at f nm k n (c + 1) [], [mk_action f (buf @ [sess_key bk])])
     else if unat n \<le> c + 1 then (rd_at f nm k n 0 buf, [])
     else (rd_at f nm k n (c + 1) buf, []))"
proof -
  have "(of_nat c :: u32) + 1 = of_nat (c + 1)" by simp
  then show ?thesis
    using of_nat_u32_cmp [of "c + 1" k] of_nat_u32_cmp [of "c + 1" n] assms
    by (simp add: redundant_action_def rd_at_def redundant_init_def Let_def del: of_nat_Suc)
qed

lemma rd_fill:
  "c + length bks = unat k \<Longrightarrow> bks \<noteq> [] \<Longrightarrow>
     run_out (\<lambda>t bk. redundant_action bk t) (rd_at f nm k n c buf) bks
       = (rd_at f nm k n (unat k) [], [mk_action f (buf @ map sess_key bks)])"
proof (induction bks arbitrary: c buf)
  case Nil
  then show ?case by simp
next
  case (Cons bk bks)
  have lt: "c + 1 < 2 ^ 32"
    using Cons.prems unat_u32_less [of k] by simp
  show ?case
  proof (cases "bks = []")
    case True
    then show ?thesis using Cons.prems rd_step [OF lt] by simp
  next
    case False
    then have "c + 1 < unat k" using Cons.prems by (cases bks) auto
    then show ?thesis
      using Cons.IH [of "c + 1" "buf @ [sess_key bk]"] Cons.prems False rd_step [OF lt] by simp
  qed
qed

lemma rd_skip:
  "unat k \<le> c \<Longrightarrow> c + length bks = max (unat n) (c + 1) \<Longrightarrow> bks \<noteq> [] \<Longrightarrow> c + 1 < 2 ^ 32 \<Longrightarrow>
     run_out (\<lambda>t bk. redundant_action bk t) (rd_at f nm k n c []) bks = (rd_at f nm k n 0 [], [])"
proof (induction bks arbitrary: c)
  case Nil
  then show ?case by simp
next
  case (Cons bk bks)
  show ?case
  proof (cases "bks = []")
    case True
    then show ?thesis using Cons.prems rd_step [OF Cons.prems(4)] by simp
  next
    case False
    then have "c + 1 < unat n" using Cons.prems by (cases bks) auto
    moreover from this have "c + 2 < 2 ^ 32"
      using unat_u32_less [of n] by simp
    ultimately show ?thesis
      using Cons.IH [of "c + 1"] Cons.prems False rd_step [OF Cons.prems(4)] by simp
  qed
qed

text \<open>
  A \<open>REDUNDANT\<close> trigger (fire on the first k of n replicas) works in rounds: in a round
  exactly one action is fired, with the first k objects of the round in arrival order, the
  remaining objects are swallowed, and the trigger is back in its initial state. A round has n
  objects when k < n; when k = n it has n + 1, because the counter is only reset in the branch
  that is taken after k, so that the object after the n-th is swallowed as well.
\<close>

theorem redundant_rounds:
  assumes "0 < unat k" and "unat k \<le> unat n" and "unat n + 1 < 2 ^ 32"
    and "length bks = max (unat n) (unat k + 1)"
  shows "run_out (\<lambda>t bk. redundant_action bk t) (redundant_init f nm k n) bks
     = (redundant_init f nm k n, [mk_action f (map sess_key (take (unat k) bks))])"
proof -
  have init: "redundant_init f nm k n = rd_at f nm k n 0 []"
    by (simp add: rd_at_def redundant_init_def)
  have "run_out (\<lambda>t bk. redundant_action bk t) (rd_at f nm k n 0 []) (take (unat k) bks)
      = (rd_at f nm k n (unat k) [], [mk_action f (map sess_key (take (unat k) bks))])"
    using rd_fill [of 0 "take (unat k) bks" k f nm n "[]"] assms by (cases bks) auto
  moreover have "run_out (\<lambda>t bk. redundant_action bk t) (rd_at f nm k n (unat k) []) (drop (unat k) bks)
      = (rd_at f nm k n 0 [], [])"
    by (rule rd_skip) (use assms in auto)
  ultimately have "run_out (\<lambda>t bk. redundant_action bk t) (rd_at f nm k n 0 []) (take (unat k) bks @ drop (unat k) bks)
      = (rd_at f nm k n 0 [], [mk_action f (map sess_key (take (unat k) bks))])"
    by (simp only: run_out_append) simp
  then show ?thesis unfolding init by simp
qed

theorem redundant_rounds_witness:
  "run_out (\<lambda>t bk. redundant_action bk t) (redundant_init ''f'' ''t'' 2 2)
     [mk_bk ''b'' ''k1'' ''s'', mk_bk ''b'' ''k2'' ''s'', mk_bk ''b'' ''lost'' ''s'']
   = (redundant_init ''f'' ''t'' 2 2, [mk_action ''f'' [(''s'', ''k1''), (''s'', ''k2'')]])"
  using redundant_rounds [of 2 2 "[mk_bk ''b'' ''k1'' ''s'', mk_bk ''b'' ''k2'' ''s'', mk_bk ''b'' ''lost'' ''s'']"
      "''f''" "''t''"]
  by (simp add: mk_bk_def)

section \<open>Dynamic groups\<close>

text \<open>The keys of the data objects of a group, and what a release must be.\<close>

definition release_of :: "string set \<Rightarrow> string \<Rightarrow> string \<Rightarrow> trigger_action list \<Rightarrow> bool" where
  "release_of D f s as \<longleftrightarrow>
     distinct (concat (map (\<lambda>a. map snd (ta_session_keys a)) as))
     \<and> (\<Union>a \<in> set as. snd ` set (ta_session_keys a)) = D
     \<and> (\<forall>a \<in> set as. ta_function a = f \<and> fst ` set (ta_session_keys a) \<subseteq> {s}
          \<and> (\<exists>g. snd ` set (ta_session_keys a) = {k \<in> D. group_of_key k = g}))"

lemma data_distinct:
  assumes "tbl_ok t" and "\<forall>g. distinct (tget [] t g) \<and> (\<forall>k \<in> set (tget [] t g). group_of_key k = g)"
  shows "distinct (concat (map snd t))"
proof -
  have el: "distinct ks \<and> (\<forall>k \<in> set ks. group_of_key k = g)" if "(g, ks) \<in> set t" for g ks
    using assms(2)[rule_format, of g] tget_eqI [OF assms(1) that, of "[]"] by simp
  show ?thesis using assms(1) el
  proof (induction t)
    case Nil
    then show ?case by simp
  next
    case (Cons p t)
    have "set (snd p) \<inter> set (concat (map snd t)) = {}"
    proof (rule ccontr)
      assume "\<not> ?thesis"
      then obtain k g ks where k: "k \<in> set (snd p)" "(g, ks) \<in> set t" "k \<in> set ks" by force
      then have "g = fst p" using Cons.prems(2) [of "fst p" "snd p"] Cons.prems(2) [of g ks] by force
      then have "fst p \<in> fst ` set t" using k(2) by (metis fst_conv image_eqI)
      then show False using Cons.prems(1) by (simp add: tbl_ok_def)
    qed
    moreover have "distinct (snd p)" using Cons.prems(2) [of "fst p" "snd p"] by simp
    moreover have "distinct (concat (map snd t))"
      by (rule Cons.IH) (use Cons.prems in \<open>auto simp: tbl_ok_def\<close>)
    ultimately show ?case by simp
  qed
qed

lemma vals_union_eq: "tbl_ok t \<Longrightarrow> vals_union t = (\<Union>p \<in> set t. set (snd p))"
  by (auto simp: vals_union_def tget_def tbl_ok_def split: option.splits dest: map_of_SomeD)
     (metis option.discI map_of_is_SomeI option.inject)

lemma release_is_partition:
  assumes "dynamic_group_inv t"
  shows "release_of (vals_union (dg_data t)) f s
    (map (\<lambda>(g, ks). mk_action f (map (\<lambda>k. (s, k)) ks)) (dg_data t))"
proof -
  let ?t = "dg_data t"
  have inv: "tbl_ok ?t" "\<forall>g. distinct (tget [] ?t g) \<and> (\<forall>k \<in> set (tget [] ?t g). group_of_key k = g)"
    using assms by (simp_all add: dynamic_group_inv_def)
  have grp: "set ks = {k \<in> vals_union ?t. group_of_key k = g}" if "(g, ks) \<in> set ?t" for g ks
    using inv(2) tget_eqI [OF inv(1) that, of "[]"] by (auto simp: vals_union_def)
  have c: "map ((\<lambda>a. map snd (ta_session_keys a)) \<circ> (\<lambda>(g, ks). mk_action f (map (\<lambda>k. (s, k)) ks))) ?t = map snd ?t"
    by (auto simp: o_def case_prod_unfold)
  have i: "snd ` (\<lambda>k. (s, k)) ` X = X" for X :: "string set"
    by (auto simp: image_image)
  show ?thesis
    unfolding release_of_def
  proof (intro conjI)
    show "distinct (concat (map (\<lambda>a. map snd (ta_session_keys a))
        (map (\<lambda>(g, ks). mk_action f (map (\<lambda>k. (s, k)) ks)) ?t)))"
      using data_distinct [OF inv] unfolding map_map c .
    show "(\<Union>a \<in> set (map (\<lambda>(g, ks). mk_action f (map (\<lambda>k. (s, k)) ks)) ?t). snd ` set (ta_session_keys a))
        = vals_union ?t"
      by (simp add: vals_union_eq [OF inv(1)] case_prod_unfold i)
    show "\<forall>a \<in> set (map (\<lambda>(g, ks). mk_action f (map (\<lambda>k. (s, k)) ks)) ?t). ta_function a = f
          \<and> fst ` set (ta_session_keys a) \<subseteq> {s}
          \<and> (\<exists>g. snd ` set (ta_session_keys a) = {k \<in> vals_union ?t. group_of_key k = g})"
      using grp by (auto simp: i case_prod_unfold)
  qed
qed

text \<open>
  The specification of \<open>DYNAMIC_GROUP\<close>: the set of data keys that wait and the set of control keys seen. A data
  object joins the keys that wait; a control object that makes the control keys complete releases them.
\<close>

definition group_completes :: "string list \<Rightarrow> string set \<Rightarrow> bucket_key \<Rightarrow> bool" where
  "group_completes cg seen bk \<longleftrightarrow> group_of_key (bk_key bk) = control_group_prefix \<and> seen \<union> ({bk_key bk} \<inter> set cg) = set cg"

definition group_spec_step :: "string list \<Rightarrow> bucket_key \<Rightarrow> string set \<times> string set \<Rightarrow> string set \<times> string set" where
  "group_spec_step cg bk = (\<lambda>(waiting, seen).
     if group_completes cg seen bk then ({}, {})
     else if group_of_key (bk_key bk) = control_group_prefix then (waiting, seen \<union> ({bk_key bk} \<inter> set cg))
     else (insert (bk_key bk) waiting, seen))"

definition group_abs :: "dynamic_group_trigger \<Rightarrow> string set \<times> string set" where
  "group_abs t = (vals_union (dg_data t), set (dg_cur t))"

lemma dynamic_group_complete:
  assumes "dynamic_group_inv t"
  shows "length (if k \<in> set (dg_control t) then ins k (dg_cur t) else dg_cur t) = length (dg_control t)
     \<longleftrightarrow> set (dg_cur t) \<union> ({k} \<inter> set (dg_control t)) = set (dg_control t)"
proof -
  let ?c = "if k \<in> set (dg_control t) then ins k (dg_cur t) else dg_cur t"
  have "distinct ?c" "distinct (dg_control t)" "set ?c \<subseteq> set (dg_control t)"
    using assms by (auto simp: dynamic_group_inv_def)
  then have "length ?c = length (dg_control t) \<longleftrightarrow> set ?c = set (dg_control t)"
    using length_eq_imp_set_eq distinct_same_set_length by blast
  then show ?thesis by auto
qed

lemma dynamic_group_step_refines:
  assumes "dynamic_group_inv t"
  shows "group_abs (fst (dynamic_group_action bk t)) = group_spec_step (dg_control t) bk (group_abs t)"
    and "if group_completes (dg_control t) (set (dg_cur t)) bk
         then release_of (vals_union (dg_data t)) (tr_function t) (bk_session bk) (snd (dynamic_group_action bk t))
         else snd (dynamic_group_action bk t) = []"
proof -
  have u: "vals_union (tmod [] (ins k) g d) = insert k (vals_union d)" for k g and d :: "(string, string list) table"
    by (auto simp: vals_union_def split: if_splits)
  note c = dynamic_group_complete [OF assms, of "bk_key bk"]
  show "group_abs (fst (dynamic_group_action bk t)) = group_spec_step (dg_control t) bk (group_abs t)"
    using c by (auto simp: dynamic_group_action_def group_abs_def group_spec_step_def group_completes_def Let_def u)
  show "if group_completes (dg_control t) (set (dg_cur t)) bk
         then release_of (vals_union (dg_data t)) (tr_function t) (bk_session bk) (snd (dynamic_group_action bk t))
         else snd (dynamic_group_action bk t) = []"
    using c release_is_partition [OF assms, of "tr_function t" "bk_session bk"]
    by (auto simp: dynamic_group_action_def group_completes_def Let_def)
qed

lemma dynamic_group_action_const:
  "dg_control (fst (dynamic_group_action bk t)) = dg_control t" "tr_function (fst (dynamic_group_action bk t)) = tr_function t"
  by (simp_all add: dynamic_group_action_def Let_def)

lemma dynamic_group_run_refines:
  assumes "dynamic_group_inv t" and "run_out (\<lambda>t bk. dynamic_group_action bk t) t bks = (t', as)"
  shows "dynamic_group_inv t' \<and> group_abs t' = fold (group_spec_step (dg_control t)) bks (group_abs t)
    \<and> dg_control t' = dg_control t \<and> tr_function t' = tr_function t"
  using assms
proof (induction bks arbitrary: t as)
  case (Cons bk bks)
  obtain t1 o1 where a: "dynamic_group_action bk t = (t1, o1)" by (cases "dynamic_group_action bk t")
  then obtain o2 where r: "run_out (\<lambda>t bk. dynamic_group_action bk t) t1 bks = (t', o2)"
    using Cons.prems(2) by (auto simp: Let_def split: prod.splits)
  have "dynamic_group_inv t1" using dynamic_group_inv_action [OF Cons.prems(1), of bk] a by simp
  then show ?case
    using Cons.IH [OF _ r] dynamic_group_step_refines(1) [OF Cons.prems(1), of bk] dynamic_group_action_const [of bk t] a by simp
qed simp

text \<open>
  C34. A \<open>DYNAMIC_GROUP\<close> trigger whose control keys are distinct is a shuffle barrier. Whatever data and control objects have arrived, in any
  order and over any number of rounds, the trigger holds exactly the data keys since the last release and the control
  keys seen since; the next object releases something exactly when it is a control object that makes the set of
  control keys complete, and then the data keys are released partitioned by their group, every key in exactly one action
  and every action one whole group, under the session of that object.
\<close>

theorem dynamic_group_releases_partition:
  assumes "distinct cg" and "run_out (\<lambda>t bk. dynamic_group_action bk t) (dynamic_group_init f nm cg) bks = (t, as)"
    and "fold (group_spec_step cg) bks ({}, {}) = (waiting, seen)"
  shows "vals_union (dg_data t) = waiting \<and> set (dg_cur t) = seen
    \<and> (if group_completes cg seen bk then release_of waiting f (bk_session bk) (snd (dynamic_group_action bk t))
       else snd (dynamic_group_action bk t) = [])"
proof -
  let ?i = "dynamic_group_init f nm cg"
  have i: "dynamic_group_inv ?i" "group_abs ?i = ({}, {})" "dg_control ?i = cg" "tr_function ?i = f"
    using assms(1) by (simp_all add: dynamic_group_inv_def dynamic_group_init_def group_abs_def)
  have t: "dynamic_group_inv t" "group_abs t = (waiting, seen)" "dg_control t = cg" "tr_function t = f"
    using dynamic_group_run_refines [OF i(1) assms(2)] assms(3) i(2-4) by simp_all
  show ?thesis
    using dynamic_group_step_refines(2) [OF t(1), of bk] t(2-4) by (auto simp: group_abs_def split: if_splits)
qed

definition two_rounds :: "bucket_key list" where
  "two_rounds = [mk_bk ''b'' ''g1:x'' ''s'', mk_bk ''b'' ''ctrl:1'' ''s'', mk_bk ''b'' ''ctrl:2'' ''s'',
     mk_bk ''b'' ''ctrl:2'' ''s'', mk_bk ''b'' ''g2:y'' ''s'', mk_bk ''b'' ''g1:z'' ''s'']"

theorem dynamic_group_releases_partition_witness:
  "\<exists>t as. run_out (\<lambda>t bk. dynamic_group_action bk t) (dynamic_group_init ''f'' ''t'' [''ctrl:1'', ''ctrl:2'']) two_rounds = (t, as)
     \<and> as = [mk_action ''f'' [(''s'', ''g1:x'')]]
     \<and> release_of {''g2:y'', ''g1:z''} ''f'' ''s2'' (snd (dynamic_group_action (mk_bk ''b'' ''ctrl:1'' ''s2'') t))"
proof -
  let ?cg = "[''ctrl:1'', ''ctrl:2'']"
  obtain t as where r: "run_out (\<lambda>t bk. dynamic_group_action bk t) (dynamic_group_init ''f'' ''t'' ?cg) two_rounds = (t, as)" by fastforce
  have "snd (run_out (\<lambda>t bk. dynamic_group_action bk t) (dynamic_group_init ''f'' ''t'' ?cg) two_rounds) = [mk_action ''f'' [(''s'', ''g1:x'')]]"
    by code_simp
  then have as: "as = [mk_action ''f'' [(''s'', ''g1:x'')]]" using r by simp
  have "fold (group_spec_step ?cg) two_rounds ({}, {}) = ({''g2:y'', ''g1:z''}, {''ctrl:2''})"
    by (simp add: two_rounds_def group_spec_step_def group_completes_def mk_bk_def group_of_key_def control_group_prefix_def
      group_delimiter_def insert_commute)
  from dynamic_group_releases_partition [OF _ r this, of "mk_bk ''b'' ''ctrl:1'' ''s2''"]
  have "release_of {''g2:y'', ''g1:z''} ''f'' ''s2'' (snd (dynamic_group_action (mk_bk ''b'' ''ctrl:1'' ''s2'') t))"
    by (simp add: group_completes_def mk_bk_def group_of_key_def control_group_prefix_def group_delimiter_def insert_commute)
  then show ?thesis using r as by blast
qed

section \<open>Re-execution\<close>

lemma cached_iff [simp]: "m \<in> set (cached c k) \<longleftrightarrow> map_of c k = Some m"
  by (auto simp: cached_def split: option.splits)

text \<open>
  Re-execution of \<open>BY_SET\<close> sources: once a source function is announced for a session, a
  re-execution request for that session names it with the announced arguments; the arrival of
  the key it produces removes exactly that entry, but \<open>clear\<close> does not, since it erases the bare
  session while the cache is keyed by the key followed by the session.
\<close>

theorem by_set_rerun_life_cycle:
  assumes "map_of (bs_func_key t) f = Some k" and "k \<in> set (bs_key_set t)" and "k \<noteq> []"
  shows "mk_tfm f args flag \<in> set (by_set_rerun s (by_set_notify f s args flag t))
    \<and> cached (bs_status (fst (by_set_action (mk_bk b k s) (by_set_notify f s args flag t)))) (k @ s) = []
    \<and> mk_tfm f args flag \<in> set (by_set_rerun s (by_set_clear s (by_set_notify f s args flag t)))"
proof -
  have ne: "bs_func_key t \<noteq> []" and k: "tget [] (bs_func_key t) f = k"
    using assms(1) by (auto simp: tget_def)
  have fk: "tmod [] id f (bs_func_key t) \<noteq> []"
    using ne by (simp add: tmod_def update_nonempty)
  show ?thesis
    using assms ne k fk
    by (auto simp: by_set_rerun_def by_set_notify_def by_set_clear_def by_set_action_def mk_bk_def
        Let_def cached_def)
qed

theorem by_set_rerun_life_cycle_witness:
  "mk_tfm ''src'' [''1''] 0 \<in> set (by_set_rerun ''s'' (by_set_clear ''s'' (by_set_notify ''src'' ''s'' [''1''] 0
      (by_set_rerun_metadata [\<lparr>rm_source_func = ''src'', rm_source_key = ''a'', rm_timeout = 10\<rparr>]
        (by_set_init ''f'' ''t'' [''a'', ''b''])))))"
  using by_set_rerun_life_cycle [of "by_set_rerun_metadata
        [\<lparr>rm_source_func = ''src'', rm_source_key = ''a'', rm_timeout = 10\<rparr>]
        (by_set_init ''f'' ''t'' [''a'', ''b''])" "''src''" "''a''" "[''1'']" 0 "''s''" "''x''"]
  by (simp add: by_set_rerun_metadata_def by_set_init_def)

end
