(* ===== verification/Threads.thy ===== *)
theory Threads
  imports Common
begin

text \<open>
  The endpoint classes of \<^verbatim>\<open>common/include/anna_threads.hpp\<close>, \<^verbatim>\<open>kvs_threads.hpp\<close> and
  \<^verbatim>\<open>op_threads.hpp\<close>: a thread is an IP and a thread identifier, and each of its services
  has an address to bind (\<open>tcp://*:port\<close>) and one to connect to (\<open>tcp://ip:port\<close>), where the
  port is the service's base port plus the thread identifier (32-bit \<open>unsigned\<close>). The
  theorems show that a peer that connects reaches the port that was bound, and how many
  threads of one process can bind their services without a clash.
\<close>

section \<open>Threads and ports\<close>

text \<open>All the endpoint classes have the same three fields, set by the constructor.\<close>

record endpoint =
  ep_ip :: string
  ep_ip_base :: string
  ep_tid :: u32

definition mk_endpoint :: "string \<Rightarrow> u32 \<Rightarrow> endpoint" where
  "mk_endpoint ip tid = \<lparr>ep_ip = ip, ep_ip_base = ''tcp://'' @ ip @ '':'', ep_tid = tid\<rparr>"

definition kBindBase :: string where
  "kBindBase = ''tcp://*:''"

definition bind_addr :: "u32 \<Rightarrow> endpoint \<Rightarrow> string" where
  "bind_addr port t = kBindBase @ to_string (unat (ep_tid t + port))"

definition connect_addr :: "u32 \<Rightarrow> endpoint \<Rightarrow> string" where
  "connect_addr port t = ep_ip_base t @ to_string (unat (ep_tid t + port))"

definition kKeyAddressPort :: u32 where "kKeyAddressPort = 6450"
definition kUserResponsePort :: u32 where "kUserResponsePort = 6800"
definition kUserKeyAddressPort :: u32 where "kUserKeyAddressPort = 6850"
definition kCacheUpdatePort :: u32 where "kCacheUpdatePort = 7150"
definition funcExecPort :: u32 where "funcExecPort = 4300"
definition internalFuncCallPort :: u32 where "internalFuncCallPort = 4350"
definition dataAccessServerPort :: u32 where "dataAccessServerPort = 4400"
definition dataAccessClientPort :: u32 where "dataAccessClientPort = 4450"
definition forwardFuncPort :: u32 where "forwardFuncPort = 4500"
definition kRemoteResponsePort :: u32 where "kRemoteResponsePort = 7500"
definition kRemoteGetPort :: u32 where "kRemoteGetPort = 7550"
definition kNotifyPort :: u32 where "kNotifyPort = 7600"
definition kQueryPort :: u32 where "kQueryPort = 7650"
definition kNotifyHandlerPort :: u32 where "kNotifyHandlerPort = 7350"
definition kQueryHandlerPort :: u32 where "kQueryHandlerPort = 7400"
definition TriggerUpdatePort :: u32 where "TriggerUpdatePort = 7700"
definition updateStatusHandlerPort :: u32 where "updateStatusHandlerPort = 7750"
definition bucketQueryPort :: u32 where "bucketQueryPort = 8150"
definition bucketUpdatePort :: u32 where "bucketUpdatePort = 8250"
definition funcCreatePort :: u32 where "funcCreatePort = 5000"
definition appRegistPort :: u32 where "appRegistPort = 5020"
definition funcCallPort :: u32 where "funcCallPort = 5050"
definition coordSyncPort :: u32 where "coordSyncPort = 6001"
definition coordQueryPort :: u32 where "coordQueryPort = 6002"
definition oBucketPort :: u32 where "oBucketPort = 7800"
definition oTriggerPort :: u32 where "oTriggerPort = 7900"

lemmas port_defs = kKeyAddressPort_def kUserResponsePort_def kUserKeyAddressPort_def kCacheUpdatePort_def funcExecPort_def internalFuncCallPort_def dataAccessServerPort_def dataAccessClientPort_def forwardFuncPort_def kRemoteResponsePort_def kRemoteGetPort_def kNotifyPort_def kQueryPort_def kNotifyHandlerPort_def kQueryHandlerPort_def TriggerUpdatePort_def updateStatusHandlerPort_def bucketQueryPort_def bucketUpdatePort_def funcCreatePort_def appRegistPort_def funcCallPort_def coordSyncPort_def coordQueryPort_def oBucketPort_def oTriggerPort_def

section \<open>\<open>CacheThread\<close>, \<open>UserRoutingThread\<close>, \<open>UserThread\<close> (Anna)\<close>

definition cache_get_bind_address :: "endpoint \<Rightarrow> string" where
  "cache_get_bind_address t = ''ipc:///requests/get''"

definition cache_get_connect_address :: "endpoint \<Rightarrow> string" where
  "cache_get_connect_address t = ''ipc:///requests/get''"

definition cache_put_bind_address :: "endpoint \<Rightarrow> string" where
  "cache_put_bind_address t = ''ipc:///requests/put''"

definition cache_put_connect_address :: "endpoint \<Rightarrow> string" where
  "cache_put_connect_address t = ''ipc:///requests/put''"

definition cache_update_bind_address :: "endpoint \<Rightarrow> string" where
  "cache_update_bind_address = bind_addr kCacheUpdatePort"

definition cache_update_connect_address :: "endpoint \<Rightarrow> string" where
  "cache_update_connect_address = connect_addr kCacheUpdatePort"

definition routing_key_address_connect_address :: "endpoint \<Rightarrow> string" where
  "routing_key_address_connect_address = connect_addr kKeyAddressPort"

definition routing_key_address_bind_address :: "endpoint \<Rightarrow> string" where
  "routing_key_address_bind_address = bind_addr kKeyAddressPort"

definition response_connect_address :: "endpoint \<Rightarrow> string" where
  "response_connect_address = connect_addr kUserResponsePort"

definition response_bind_address :: "endpoint \<Rightarrow> string" where
  "response_bind_address = bind_addr kUserResponsePort"

definition user_key_address_connect_address :: "endpoint \<Rightarrow> string" where
  "user_key_address_connect_address = connect_addr kUserKeyAddressPort"

definition user_key_address_bind_address :: "endpoint \<Rightarrow> string" where
  "user_key_address_bind_address = bind_addr kUserKeyAddressPort"


section \<open>\<open>KVSThread\<close>, \<open>CommHelperThread\<close>, \<open>HandlerThread\<close>, \<open>ManagementServerThread\<close>\<close>

definition local_get_bind_address :: "endpoint \<Rightarrow> string" where
  "local_get_bind_address t = ''ipc:///requests/get''"

definition local_get_connect_address :: "endpoint \<Rightarrow> string" where
  "local_get_connect_address t = ''ipc:///requests/get''"

definition local_put_bind_address :: "endpoint \<Rightarrow> string" where
  "local_put_bind_address t = ''ipc:///requests/put''"

definition local_put_connect_address :: "endpoint \<Rightarrow> string" where
  "local_put_connect_address t = ''ipc:///requests/put''"

definition remote_get_bind_address :: "endpoint \<Rightarrow> string" where
  "remote_get_bind_address = bind_addr kRemoteGetPort"

definition remote_get_connect_address :: "endpoint \<Rightarrow> string" where
  "remote_get_connect_address = connect_addr kRemoteGetPort"

definition remote_response_bind_address :: "endpoint \<Rightarrow> string" where
  "remote_response_bind_address = bind_addr kRemoteResponsePort"

definition remote_response_connect_address :: "endpoint \<Rightarrow> string" where
  "remote_response_connect_address = connect_addr kRemoteResponsePort"

definition key_query_bind_address :: "endpoint \<Rightarrow> string" where
  "key_query_bind_address = bind_addr kQueryPort"

definition key_query_connect_address :: "endpoint \<Rightarrow> string" where
  "key_query_connect_address = connect_addr kQueryPort"

definition notify_put_bind_address :: "endpoint \<Rightarrow> string" where
  "notify_put_bind_address = bind_addr kNotifyPort"

definition notify_put_connect_address :: "endpoint \<Rightarrow> string" where
  "notify_put_connect_address = connect_addr kNotifyPort"

definition trigger_update_bind_address :: "endpoint \<Rightarrow> string" where
  "trigger_update_bind_address = bind_addr TriggerUpdatePort"

definition trigger_update_connect_address :: "endpoint \<Rightarrow> string" where
  "trigger_update_connect_address = connect_addr TriggerUpdatePort"

definition data_access_server_bind_address :: "endpoint \<Rightarrow> string" where
  "data_access_server_bind_address = bind_addr dataAccessServerPort"

definition data_access_server_connect_address :: "endpoint \<Rightarrow> string" where
  "data_access_server_connect_address = connect_addr dataAccessServerPort"

definition data_access_client_bind_address :: "endpoint \<Rightarrow> string" where
  "data_access_client_bind_address = bind_addr dataAccessClientPort"

definition data_access_client_connect_address :: "endpoint \<Rightarrow> string" where
  "data_access_client_connect_address = connect_addr dataAccessClientPort"

definition notify_handler_connect_address :: "endpoint \<Rightarrow> string" where
  "notify_handler_connect_address = connect_addr kNotifyHandlerPort"

definition notify_handler_bind_address :: "endpoint \<Rightarrow> string" where
  "notify_handler_bind_address = bind_addr kNotifyHandlerPort"

definition key_query_handler_connect_address :: "endpoint \<Rightarrow> string" where
  "key_query_handler_connect_address = connect_addr kQueryHandlerPort"

definition key_query_handler_bind_address :: "endpoint \<Rightarrow> string" where
  "key_query_handler_bind_address = bind_addr kQueryHandlerPort"

definition update_handler_connect_address :: "endpoint \<Rightarrow> string" where
  "update_handler_connect_address = connect_addr updateStatusHandlerPort"

definition update_handler_bind_address :: "endpoint \<Rightarrow> string" where
  "update_handler_bind_address = bind_addr updateStatusHandlerPort"

definition forward_func_connect_address :: "endpoint \<Rightarrow> string" where
  "forward_func_connect_address = connect_addr forwardFuncPort"

definition forward_func_bind_address :: "endpoint \<Rightarrow> string" where
  "forward_func_bind_address = bind_addr forwardFuncPort"

definition has_same_ip_tid :: "endpoint \<Rightarrow> string \<Rightarrow> u32 \<Rightarrow> bool" where
  "has_same_ip_tid t ip tid \<longleftrightarrow> ep_ip t = ip \<and> ep_tid t = tid"

definition bucket_query_connect_address :: "endpoint \<Rightarrow> string" where
  "bucket_query_connect_address = connect_addr bucketQueryPort"

definition bucket_query_bind_address :: "endpoint \<Rightarrow> string" where
  "bucket_query_bind_address = bind_addr bucketQueryPort"

definition bucket_update_connect_address :: "endpoint \<Rightarrow> string" where
  "bucket_update_connect_address = connect_addr bucketUpdatePort"

definition bucket_update_bind_address :: "endpoint \<Rightarrow> string" where
  "bucket_update_bind_address = bind_addr bucketUpdatePort"


section \<open>\<open>OperationThread\<close>\<close>

definition bucket_op_bind_address :: "endpoint \<Rightarrow> string" where
  "bucket_op_bind_address = bind_addr oBucketPort"

definition bucket_op_connect_address :: "endpoint \<Rightarrow> string" where
  "bucket_op_connect_address = connect_addr oBucketPort"

definition trigger_op_bind_address :: "endpoint \<Rightarrow> string" where
  "trigger_op_bind_address = bind_addr oTriggerPort"

definition trigger_op_connect_address :: "endpoint \<Rightarrow> string" where
  "trigger_op_connect_address = connect_addr oTriggerPort"

definition func_create_bind_address :: "endpoint \<Rightarrow> string" where
  "func_create_bind_address = bind_addr funcCreatePort"

definition app_regist_bind_address :: "endpoint \<Rightarrow> string" where
  "app_regist_bind_address = bind_addr appRegistPort"

definition func_call_bind_address :: "endpoint \<Rightarrow> string" where
  "func_call_bind_address = bind_addr funcCallPort"

section \<open>What a coordinator thread binds\<close>

text \<open>The nine sockets \<open>run\<close> of the coordinator binds, in its order.\<close>

definition coord_binds :: "string \<Rightarrow> u32 \<Rightarrow> string list" where
  "coord_binds ip tid =
     (let ht = mk_endpoint ip tid; ot = mk_endpoint ip tid in
      [notify_handler_bind_address ht, key_query_handler_bind_address ht,
       bucket_op_bind_address ot, trigger_op_bind_address ot, update_handler_bind_address ht,
       func_create_bind_address ot, app_regist_bind_address ot, func_call_bind_address ot,
       forward_func_bind_address ht])"

definition get_func_exec_address :: "string \<Rightarrow> u32 \<Rightarrow> string" where
  "get_func_exec_address ip io_thread =
     ''tcp://'' @ ip @ '':'' @ to_string (unat (funcExecPort + io_thread))"

lemma mk_endpoint_sel [simp]:
  "ep_ip (mk_endpoint ip tid) = ip" "ep_tid (mk_endpoint ip tid) = tid"
  "ep_ip_base (mk_endpoint ip tid) = ''tcp://'' @ ip @ '':''"
  by (simp_all add: mk_endpoint_def)

lemma bind_addr_eq_iff [simp]:
  "bind_addr p t = bind_addr q u \<longleftrightarrow> ep_tid t + p = ep_tid u + q"
  by (simp add: bind_addr_def word_unat_eq_iff)

text \<open>The port that a \<open>tcp://host:port\<close> address names: what follows the second colon.\<close>

definition addr_port :: "string \<Rightarrow> string" where
  "addr_port a = rev (takeWhile (\<lambda>c. c \<noteq> CHR '':'') (rev a))"

lemma addr_port_append [simp]: "CHR '':'' \<notin> set p \<Longrightarrow> addr_port (a @ '':'' @ p) = p"
proof -
  assume "CHR '':'' \<notin> set p"
  then have "takeWhile (\<lambda>c. c \<noteq> CHR '':'') (rev p) = rev p"
    by (auto simp: takeWhile_eq_all_conv)
  then show ?thesis
    by (simp add: addr_port_def takeWhile_tail del: takeWhile_eq_all_conv)
qed


definition coord_ports :: "nat list" where
  "coord_ports = [7350, 7400, 7800, 7900, 7750, 5000, 5020, 5050, 4500]"

lemmas coord_bind_defs = coord_binds_def coord_ports_def port_defs Let_def
  notify_handler_bind_address_def key_query_handler_bind_address_def bucket_op_bind_address_def
  trigger_op_bind_address_def update_handler_bind_address_def func_create_bind_address_def
  app_regist_bind_address_def func_call_bind_address_def forward_func_bind_address_def

lemma unat_port: "i < 20 \<Longrightarrow> p < 2 ^ 31 \<Longrightarrow> unat (of_nat i + of_nat p :: u32) = i + p"
proof -
  assume "i < 20" "p < 2 ^ 31"
  then have "unat (of_nat (i + p) :: u32) = i + p"
    by (subst unat_of_nat) simp
  then show ?thesis by simp
qed

lemma coord_binds_ports:
  "i < 20 \<Longrightarrow> coord_binds ip (of_nat i) = map (\<lambda>p. kBindBase @ to_string (i + p)) coord_ports"
  using unat_port [of i 7350] unat_port [of i 7400] unat_port [of i 7800] unat_port [of i 7900]
    unat_port [of i 7750] unat_port [of i 5000] unat_port [of i 5020] unat_port [of i 5050]
    unat_port [of i 4500]
  by (simp add: coord_bind_defs bind_addr_def)

lemma coord_ports_apart:
  "p \<in> set coord_ports \<Longrightarrow> q \<in> set coord_ports \<Longrightarrow> i < 20 \<Longrightarrow> j < 20 \<Longrightarrow> i + p = j + q \<Longrightarrow>
     i = j \<and> p = q"
  by (auto simp: coord_ports_def)

lemma coord_binds_distinct: "i < 20 \<Longrightarrow> distinct (coord_binds ip (of_nat i))"
  by (simp add: coord_binds_ports distinct_map inj_on_def) (simp add: coord_ports_def)

lemma coord_binds_disjoint:
  "i < 20 \<Longrightarrow> j < 20 \<Longrightarrow> i \<noteq> j \<Longrightarrow>
     set (coord_binds ip (of_nat i)) \<inter> set (coord_binds ip (of_nat j)) = {}"
proof -
  assume ij: "i < 20" "j < 20" "i \<noteq> j"
  then have "kBindBase @ to_string (i + p) \<noteq> kBindBase @ to_string (j + q)"
    if "p \<in> set coord_ports" "q \<in> set coord_ports" for p q
    using coord_ports_apart [OF that ij(1,2)] by auto
  with ij show ?thesis
    unfolding coord_binds_ports [OF ij(1)] coord_binds_ports [OF ij(2)] by auto
qed

lemma coord_binds_nonempty: "coord_binds ip i \<noteq> []"
  by (simp add: coord_binds_def Let_def)

section \<open>Properties\<close>

text \<open>
  Port layout of the coordinator: \<open>n\<close> coordinator threads of one process bind pairwise
  different endpoints exactly when \<open>n \<le> 20\<close>; the twenty-first thread's function-creation
  socket would take the port of the first thread's application-registration socket.
\<close>

theorem coord_threads_bind_without_clash:
  "distinct (concat (map (\<lambda>i. coord_binds ip (of_nat i)) [0..<n])) \<longleftrightarrow> n \<le> 20"
proof
  assume le: "n \<le> 20"
  show "distinct (concat (map (\<lambda>i. coord_binds ip (of_nat i)) [0..<n]))"
  proof (rule distinct_concat)
    have "inj_on (\<lambda>i. coord_binds ip (of_nat i)) {0..<n}"
    proof (rule inj_onI, rule ccontr)
      fix i j assume "i \<in> {0..<n}" "j \<in> {0..<n}" and eq: "coord_binds ip (of_nat i) = coord_binds ip (of_nat j)"
        and "i \<noteq> j"
      then have "set (coord_binds ip (of_nat i)) = {}"
        using coord_binds_disjoint [of i j ip] le by auto
      then show False using coord_binds_nonempty by simp
    qed
    then show "distinct (map (\<lambda>i. coord_binds ip (of_nat i)) [0..<n])"
      by (simp add: distinct_map)
  next
    fix ys assume "ys \<in> set (map (\<lambda>i. coord_binds ip (of_nat i)) [0..<n])"
    then show "distinct ys" using le coord_binds_distinct by auto
  next
    fix ys zs
    assume "ys \<in> set (map (\<lambda>i. coord_binds ip (of_nat i)) [0..<n])"
      "zs \<in> set (map (\<lambda>i. coord_binds ip (of_nat i)) [0..<n])" "ys \<noteq> zs"
    then obtain i j where "i < n" "j < n" "i \<noteq> j" "ys = coord_binds ip (of_nat i)" "zs = coord_binds ip (of_nat j)"
      by (auto, metis)
    then show "set ys \<inter> set zs = {}" using le coord_binds_disjoint by simp
  qed
next
  assume d: "distinct (concat (map (\<lambda>i. coord_binds ip (of_nat i)) [0..<n]))"
  show "n \<le> 20"
  proof (rule ccontr)
    assume "\<not> n \<le> 20"
    then have n: "[0..<n] = 0 # [1..<20] @ 20 # [21..<n]"
      using upt_add_eq_append [of 0 20 "n - 20"] upt_conv_Cons [of 20 n] upt_conv_Cons [of 0 20] by simp
    have "bind_addr 5020 (mk_endpoint ip 0) \<in> set (coord_binds ip 0)"
      "bind_addr 5020 (mk_endpoint ip 0) \<in> set (coord_binds ip 20)"
      by (simp_all add: coord_bind_defs)
    with d n show False by (auto simp: disjoint_iff)
  qed
qed

end
