(* ===== verification/Messages.thy ===== *)
theory Messages
  imports Trigger_Gen Threads
begin

text \<open>
  The messages of \<^verbatim>\<open>common/proto/kvs.proto\<close>, \<^verbatim>\<open>common.proto\<close> and \<^verbatim>\<open>operation.proto\<close> that the
  components exchange, as records with the fields of the message, and the default instance
  of those that the code fills field by field. The generated serializers are not part of the
  repository: a socket carries the message itself, and only the nested primitive of a trigger
  stays in wire form (type \<open>'w\<close>), since the code dumps and parses it explicitly. An enum field
  of proto3 is open: each enum has a constructor for an unrecognized number.
\<close>

section \<open>Errors and enums\<close>

datatype kvs_error =
    SUCCESS | BUCKET_NE | KEY_NE | SESSION_NE | KVS_ND | TYPE_NM | BUCKET_EXIST | REQ_TIMEOUT

datatype bucket_operation_type = CREATE_BUCKET | DELETE_BUCKET | UnrecognizedBucketOp int

datatype trigger_operation_type = ADD_TRIGGER | DELETE_TRIGGER | UnrecognizedTriggerOp int

datatype dependency_type = DIRECT | MANY_TO_ONE | K_OUT_OF_N | PERIODIC | UnrecognizedDependency int

section \<open>Requests and responses of the coordinator\<close>

record key_query_request =
  kq_response_address :: string
  kq_addresses :: "bucket_key_address list"
  kq_request_id :: string

record key_query_response =
  kr_addresses :: "bucket_key_address list"
  kr_error :: kvs_error
  kr_response_id :: string

record key_notify_request =
  kn_response_address :: string
  kn_addresses :: "bucket_key_address list"
  kn_active_trigger_names :: "string list"
  kn_request_id :: string

record bucket_operation_request =
  bo_operation_type :: bucket_operation_type
  bo_app_name :: string
  bo_bucket_name :: string
  bo_request_id :: string
  bo_response_address :: string

record bucket_operation_response =
  bor_bucket_name :: string
  bor_response_id :: string
  bor_error :: kvs_error

record rerun_hint =
  rh_source_function :: string
  rh_source_key :: string
  rh_timeout :: u32

record 'w trigger_operation_request =
  to_operation_type :: trigger_operation_type
  to_app_name :: string
  to_bucket_name :: string
  to_trigger_name :: string
  to_trigger_option :: u32
  to_primitive_type :: primitive_type
  to_primitive :: 'w
  to_request_id :: string
  to_response_address :: string
  to_hints :: "rerun_hint list"

record trigger_operation_response =
  tor_bucket_name :: string
  tor_trigger_name :: string
  tor_response_id :: string
  tor_error :: kvs_error

record data_dependency =
  dd_type :: dependency_type
  dd_src_functions :: "string list"
  dd_tgt_functions :: "string list"
  dd_description :: string

record app_registration =
  ar_app_name :: string
  ar_functions :: "string list"
  ar_dependencies :: "data_dependency list"

record 'w trigger_entity =
  te_bucket_name :: string
  te_trigger_name :: string
  te_trigger_option :: u32
  te_primitive_type :: primitive_type
  te_primitive :: 'w
  te_session :: string
  te_hints :: "rerun_hint list"

record 'w update_coord_msg =
  uc_ip :: string
  uc_thread_id :: u32
  uc_app_name :: string
  uc_functions :: "string list"
  uc_dependencies :: "data_dependency list"
  uc_triggers :: "'w trigger_entity list"
  uc_msg_type :: u32

record update_status_message =
  us_ip :: string
  us_avail_executors :: u32
  us_functions :: "string list"

section \<open>Function calls\<close>

record argument =
  arg_body :: string
  arg_flag :: u32
  arg_data_address :: string

text \<open>\<open>cpu_cores\<close> is a \<open>double\<close>; doubles are real numbers in the model.\<close>

record function_request =
  fr_name :: string
  fr_arguments :: "argument list"
  fr_cpu_cores :: real
  fr_memory_mb :: u32

record function_call =
  fc_app_name :: string
  fc_requests :: "function_request list"
  fc_source :: string
  fc_request_id :: string
  fc_resp_address :: string
  fc_session_id :: string
  fc_sync_data_status :: bool

record function_call_response =
  fcr_app_name :: string
  fcr_request_id :: string
  fcr_output :: string
  fcr_error_no :: u32

section \<open>Synchronisation with the manager\<close>

record coord_sync =
  sy_public_ip :: string
  sy_private_ip :: string
  sy_thread_id :: u32
  sy_workload :: u32

record coord_query =
  cq_application :: string
  cq_request_id :: string

record coord_response =
  cr_coord_ip :: string
  cr_thread_id :: u32
  cr_request_id :: string

section \<open>Default instances\<close>

definition empty_entity :: "'w prim_codec \<Rightarrow> 'w trigger_entity" where
  "empty_entity c = \<lparr>te_bucket_name = [], te_trigger_name = [], te_trigger_option = 0,
     te_primitive_type = IMMEDIATE, te_primitive = no_bytes c, te_session = [], te_hints = []\<rparr>"

definition empty_coord_msg :: "'w update_coord_msg" where
  "empty_coord_msg = \<lparr>uc_ip = [], uc_thread_id = 0, uc_app_name = [], uc_functions = [],
     uc_dependencies = [], uc_triggers = [], uc_msg_type = 0\<rparr>"

definition empty_request :: function_request where
  "empty_request = \<lparr>fr_name = [], fr_arguments = [], fr_cpu_cores = 0, fr_memory_mb = 0\<rparr>"

definition empty_argument :: argument where
  "empty_argument = \<lparr>arg_body = [], arg_flag = 0, arg_data_address = []\<rparr>"

definition empty_call :: function_call where
  "empty_call = \<lparr>fc_app_name = [], fc_requests = [], fc_source = [], fc_request_id = [],
     fc_resp_address = [], fc_session_id = [], fc_sync_data_status = False\<rparr>"

lemmas empty_msg_defs = empty_entity_def empty_coord_msg_def empty_request_def empty_argument_def empty_call_def

section \<open>Addresses\<close>

text \<open>\<open>"tcp://" + ip + ":" + std::to_string(port)\<close>.\<close>

definition tcp_address :: "string \<Rightarrow> u32 \<Rightarrow> string" where
  "tcp_address ip port = ''tcp://'' @ ip @ '':'' @ to_string (unat port)"

text \<open>
  \<open>a.substr(6, a.find(":", 6) - 6)\<close>: the host of an address. A shorter string raises
  \<open>std::out_of_range\<close>; without a colon the rest of the string is taken.
\<close>

definition host_of_address :: "string \<Rightarrow> cpp_error + string" where
  "host_of_address a =
     (if length a < 6 then Inl StdOutOfRange
      else Inr (case str_find (CHR '':'') (drop 6 a) of Some i \<Rightarrow> take i (drop 6 a) | None \<Rightarrow> drop 6 a))"

lemma host_of_address_Inr: "6 \<le> length a \<Longrightarrow> \<exists>h. host_of_address a = Inr h"
  by (simp add: host_of_address_def)

lemma host_of_address_long: "host_of_address a = Inr h \<Longrightarrow> 6 \<le> length a"
  by (simp add: host_of_address_def split: if_splits)

lemma host_of_tcp_address:
  "CHR '':'' \<notin> set ip \<Longrightarrow> host_of_address (tcp_address ip port) = Inr ip"
  by (simp add: host_of_address_def tcp_address_def)

end
