(* ===== verification/Coord_State.thy ===== *)
theory Coord_State
  imports Messages
begin

text \<open>
  The coordinator (\<^verbatim>\<open>include/coordinator/coord_handlers.hpp\<close>, \<^verbatim>\<open>src/coordinator\<close>): its state, the
  address directory, and the handlers of key queries, bucket operations, trigger operations,
  application registration and status updates. A handler takes the state and the request and
  returns the new state with the messages it pushes, each with the address it is sent to; a
  handler that can leave by an exception or an invalid access returns a sum.
\<close>

section \<open>State\<close>

record node_status =
  ns_tp :: time_point
  ns_avail_executors :: int
  ns_functions :: "string list"

definition empty_node_status :: node_status where
  "empty_node_status = \<lparr>ns_tp = 0, ns_avail_executors = 0, ns_functions = []\<rparr>"

definition update_status :: "time_point \<Rightarrow> int \<Rightarrow> string list \<Rightarrow> node_status \<Rightarrow> node_status" where
  "update_status now avail fs s = s\<lparr>ns_avail_executors := avail, ns_functions := fs, ns_tp := now\<rparr>"

record get_address_result =
  ga_error :: kvs_error
  ga_addr :: "string list"

type_synonym address_map = "(string, (string, string list) table) table"

record coord_state =
  bucket_key_address_map :: address_map
  bucket_key_val_map :: "(string, string) table"
  bucket_node_map :: "(string, string list) table"
  bucket_triggers_map :: "(string, trigger list) table"
  app_buckets_map :: "(string, string list) table"
  bucket_app_map :: "(string, string) table"
  node_status_map :: "(string, node_status) table"
  coord_seed :: u32

definition coord_init :: "u32 \<Rightarrow> coord_state" where
  "coord_init seed = \<lparr>bucket_key_address_map = [], bucket_key_val_map = [], bucket_node_map = [],
     bucket_triggers_map = [], app_buckets_map = [], bucket_app_map = [], node_status_map = [],
     coord_seed = seed\<rparr>"

text \<open>The globals a handler reads: the identity of the thread and the number of I/O threads.\<close>

record coord_config =
  cc_private_ip :: string
  cc_thread_id :: u32
  cc_io_thread_num :: nat

datatype 'w coord_out =
    OutQueryResponse key_query_response
  | OutBucketResponse bucket_operation_response
  | OutTriggerResponse trigger_operation_response
  | OutUpdate "'w update_coord_msg"
  | OutCall function_call
  | OutCallResponse function_call_response

type_synonym 'w pushed = "(string \<times> 'w coord_out) list"

section \<open>The address directory\<close>

definition update_address :: "bucket_key \<Rightarrow> string \<Rightarrow> address_map \<Rightarrow> address_map" where
  "update_address bk addr m = tmod [] (tmod [] (ins addr) (bk_key bk)) (bk_bucket bk) m"

definition get_address :: "bucket_key \<Rightarrow> address_map \<Rightarrow> get_address_result" where
  "get_address bk m =
     (if thas m (bk_bucket bk) \<and> thas (tget [] m (bk_bucket bk)) (bk_key bk)
      then \<lparr>ga_error = SUCCESS, ga_addr = tget [] (tget [] m (bk_bucket bk)) (bk_key bk)\<rparr>
      else \<lparr>ga_error = KEY_NE, ga_addr = []\<rparr>)"

text \<open>The addresses recorded for a key, none when the bucket or the key is unknown.\<close>

definition addrs_of :: "address_map \<Rightarrow> string \<Rightarrow> string \<Rightarrow> string list" where
  "addrs_of m b k = tget [] (tget [] m b) k"

lemma addrs_of_update [simp, tbl]:
  "addrs_of (update_address bk a m) b k =
     (if b = bk_bucket bk \<and> k = bk_key bk then ins a (addrs_of m b k) else addrs_of m b k)"
  by (auto simp: addrs_of_def update_address_def)

lemma addrs_of_Nil [simp]: "addrs_of [] b k = []"
  by (simp add: addrs_of_def)

lemma addrs_of_known: "addrs_of m b k \<noteq> [] \<Longrightarrow> thas m b \<and> thas (tget [] m b) k"
  unfolding addrs_of_def by (metis tget_Nil tget_not_has)

section \<open>Key queries\<close>

text \<open>The loop stops at the first key that has no address; that key is still in the results.\<close>

fun query_loop :: "address_map \<Rightarrow> bucket_key_address list \<Rightarrow> (bucket_key \<times> get_address_result) list \<times> kvs_error" where
  "query_loop m [] = ([], SUCCESS)"
| "query_loop m (a # as) =
     (let bk = get_bucket_key_from_addr a
      in if thas m (bk_bucket bk)
         then (let r = get_address bk m
               in if ga_error r = SUCCESS
                  then (let (rs, e) = query_loop m as in ((bk, r) # rs, e))
                  else ([(bk, r)], ga_error r))
         else ([(bk, \<lparr>ga_error = BUCKET_NE, ga_addr = []\<rparr>)], BUCKET_NE))"

definition query_handler :: "address_map \<Rightarrow> key_query_request \<Rightarrow> 'w pushed" where
  "query_handler m req =
     (let (results, reported_error) = query_loop m (kq_addresses req);
          as = map (\<lambda>(bk, r). (get_addr_from_bucket_key bk empty_bka)
                 \<lparr>bka_ips := (if reported_error = SUCCESS then ga_addr r else [])\<rparr>) results
      in [(kq_response_address req,
           OutQueryResponse \<lparr>kr_addresses = as, kr_error = reported_error, kr_response_id = kq_request_id req\<rparr>)])"

section \<open>Bucket operations\<close>

text \<open>An unset \<open>error\<close> field reads as \<open>SUCCESS\<close>, the default of proto3.\<close>

definition bucket_op_handler :: "bucket_operation_request \<Rightarrow> coord_state \<Rightarrow> coord_state \<times> 'w pushed" where
  "bucket_op_handler req st =
     (let b = bo_bucket_name req; app = bo_app_name req;
          respond = (\<lambda>e. [(bo_response_address req,
             OutBucketResponse \<lparr>bor_bucket_name = b, bor_response_id = bo_request_id req, bor_error = e\<rparr>)])
      in case bo_operation_type req of
           CREATE_BUCKET \<Rightarrow>
             (if thas (bucket_app_map st) b then (st, respond BUCKET_EXIST)
              else (st\<lparr>app_buckets_map := tmod [] (ins b) app (app_buckets_map st),
                       bucket_app_map := tput b app (bucket_app_map st)\<rparr>, respond SUCCESS))
         | DELETE_BUCKET \<Rightarrow>
             (if \<not> thas (bucket_app_map st) b then (st, respond BUCKET_NE)
              else (st\<lparr>app_buckets_map := tmod [] (removeAll b) app (app_buckets_map st),
                       bucket_app_map := terase b (bucket_app_map st),
                       bucket_triggers_map := terase b (bucket_triggers_map st)\<rparr>, respond SUCCESS))
         | UnrecognizedBucketOp n \<Rightarrow> (st, respond SUCCESS))"

section \<open>Trigger operations\<close>

definition broadcast_update :: "coord_state \<Rightarrow> 'w update_coord_msg \<Rightarrow> 'w pushed" where
  "broadcast_update st m = map (\<lambda>(ip, _). (tcp_address ip TriggerUpdatePort, OutUpdate m)) (node_status_map st)"

text \<open>
  The branches of \<open>trigger_op_handler\<close> give the new state, the reported error and the update
  for the nodes. Adding a trigger of an unrecognized type dereferences the null pointer.
\<close>

definition add_trigger ::
  "'w prim_codec \<Rightarrow> time_point \<Rightarrow> 'w trigger_operation_request \<Rightarrow> 'w update_coord_msg \<Rightarrow> coord_state \<Rightarrow>
     cpp_error + (coord_state \<times> kvs_error \<times> 'w update_coord_msg)" where
  "add_trigger c now req m st =
     (let b = to_bucket_name req
      in if thas (bucket_app_map st) b
         then (case gen_trigger_pointer c now (to_primitive_type req) (to_trigger_name req) (to_primitive req) of
                 None \<Rightarrow> Inl NullDereference
               | Some t0 \<Rightarrow>
                   (let t = set_trigger_option (sint (to_trigger_option req)) t0;
                        st1 = st\<lparr>bucket_triggers_map := tmod [] (\<lambda>ts. ts @ [t]) b (bucket_triggers_map st)\<rparr>;
                        e = (empty_entity c)\<lparr>te_bucket_name := b, te_trigger_name := to_trigger_name req,
                              te_trigger_option := to_trigger_option req,
                              te_primitive_type := to_primitive_type req,
                              te_primitive := dump_pritimive c t, te_hints := to_hints req\<rparr>
                    in Inr (st1, SUCCESS,
                         m\<lparr>uc_msg_type := 0,
                           uc_triggers := uc_triggers m @ (if get_type t \<noteq> BY_TIME then [e] else [])\<rparr>)))
         else Inr (st, BUCKET_NE, m))"

definition delete_trigger ::
  "'w prim_codec \<Rightarrow> 'w trigger_operation_request \<Rightarrow> 'w update_coord_msg \<Rightarrow> coord_state \<Rightarrow>
     coord_state \<times> kvs_error \<times> 'w update_coord_msg" where
  "delete_trigger c req m st =
     (let b = to_bucket_name req; nm = to_trigger_name req
      in if thas (bucket_app_map st) b
         then (let ts = tget [] (bucket_triggers_map st) b;
                   st1 = st\<lparr>bucket_triggers_map := tput b (filter (\<lambda>t. get_trigger_name t \<noteq> nm) ts) (bucket_triggers_map st)\<rparr>
               in if \<exists>t \<in> set ts. get_trigger_name t = nm
                  then (st1, SUCCESS,
                        m\<lparr>uc_msg_type := 2,
                          uc_triggers := uc_triggers m @ [(empty_entity c)\<lparr>te_bucket_name := b, te_trigger_name := nm\<rparr>]\<rparr>)
                  else (st1, SUCCESS, m))
         else (st, BUCKET_NE, m))"

definition trigger_op_handler ::
  "'w prim_codec \<Rightarrow> coord_config \<Rightarrow> time_point \<Rightarrow> 'w trigger_operation_request \<Rightarrow> coord_state \<Rightarrow>
     cpp_error + (coord_state \<times> 'w pushed)" where
  "trigger_op_handler c cfg now req st =
     (let m = empty_coord_msg\<lparr>uc_ip := cc_private_ip cfg, uc_thread_id := cc_thread_id cfg, uc_app_name := to_app_name req\<rparr>
      in bindE (case to_operation_type req of
                  ADD_TRIGGER \<Rightarrow> add_trigger c now req m st
                | DELETE_TRIGGER \<Rightarrow> Inr (delete_trigger c req m st)
                | UnrecognizedTriggerOp n \<Rightarrow> Inr (st, SUCCESS, m))
         (\<lambda>(st1, e, m1).
            Inr (st1, (to_response_address req,
                       OutTriggerResponse \<lparr>tor_bucket_name = to_bucket_name req, tor_trigger_name = to_trigger_name req,
                         tor_response_id = to_request_id req, tor_error = e\<rparr>) # broadcast_update st1 m1)))"

section \<open>Application registration\<close>

text \<open>\<open>std::to_string(DependencyType)\<close> of the recognized types.\<close>

fun dependency_number :: "dependency_type \<Rightarrow> nat" where
  "dependency_number DIRECT = 0"
| "dependency_number MANY_TO_ONE = 1"
| "dependency_number K_OUT_OF_N = 2"
| "dependency_number PERIODIC = 3"
| "dependency_number (UnrecognizedDependency n) = nat n"

definition dep_trigger_name :: "dependency_type \<Rightarrow> string \<Rightarrow> string" where
  "dep_trigger_name ty tgt = ''t_'' @ to_string (dependency_number ty) @ ''_'' @ tgt"

text \<open>The names derived from a dependency: its bucket and the keys of its source functions.\<close>

definition target_bucket :: "string \<Rightarrow> string" where
  "target_bucket tgt = ''b_'' @ tgt"

definition source_key :: "string \<Rightarrow> string" where
  "source_key f = ''k_'' @ f"

definition push_trigger :: "string \<Rightarrow> trigger \<Rightarrow> coord_state \<Rightarrow> coord_state" where
  "push_trigger b t st = st\<lparr>bucket_triggers_map := tmod [] (\<lambda>ts. ts @ [t]) b (bucket_triggers_map st)\<rparr>"

definition own_bucket :: "string \<Rightarrow> string \<Rightarrow> coord_state \<Rightarrow> coord_state" where
  "own_bucket app b st = st\<lparr>app_buckets_map := tmod [] (ins b) app (app_buckets_map st),
     bucket_app_map := tput b app (bucket_app_map st)\<rparr>"

text \<open>The entity that announces a constructed trigger to the nodes.\<close>

definition entity_for :: "'w prim_codec \<Rightarrow> primitive_type \<Rightarrow> trigger \<Rightarrow> 'w trigger_entity \<Rightarrow> 'w trigger_entity" where
  "entity_for c ty t e = e\<lparr>te_trigger_name := get_trigger_name t,
     te_trigger_option := word_of_int (get_trigger_option t),
     te_primitive_type := ty, te_primitive := dump_pritimive c t\<rparr>"

definition add_entity :: "'w trigger_entity \<Rightarrow> 'w update_coord_msg \<Rightarrow> 'w update_coord_msg" where
  "add_entity e m = m\<lparr>uc_triggers := uc_triggers m @ [e]\<rparr>"

text \<open>
  One iteration over the dependencies. The entity is added to the message before the type is
  looked at, so the \<open>PERIODIC\<close> branch and an unrecognized type leave it with only its bucket
  name set.
\<close>

definition register_dependency ::
  "'w prim_codec \<Rightarrow> time_point \<Rightarrow> string \<Rightarrow> data_dependency \<Rightarrow> coord_state \<times> 'w update_coord_msg \<Rightarrow>
     cpp_error + (coord_state \<times> 'w update_coord_msg)" where
  "register_dependency c now app d sm =
     (let (st, m) = sm
      in if dd_type d = DIRECT then Inr (st, m\<lparr>uc_dependencies := uc_dependencies m @ [d]\<rparr>)
         else bindE (nth_or RepeatedFieldIndex (dd_tgt_functions d) 0) (\<lambda>tgt.
           let b = target_bucket tgt; nm = dep_trigger_name (dd_type d) tgt;
               st1 = own_bucket app b st;
               e = (empty_entity c)\<lparr>te_bucket_name := b\<rparr>
           in case dd_type d of
                MANY_TO_ONE \<Rightarrow>
                  (let ks = set_of_keys (map source_key (dd_src_functions d));
                       t = BySetTrigger (by_set_init tgt nm ks)
                   in Inr (push_trigger b t st1, add_entity (entity_for c BY_SET t e) m))
              | K_OUT_OF_N \<Rightarrow>
                  (let metadata = split (dd_description d) (CHR '','')
                   in bindE (nth_or VectorIndex metadata 0) (\<lambda>m0. bindE (stoi m0) (\<lambda>k.
                      bindE (nth_or VectorIndex metadata 1) (\<lambda>m1. bindE (stoi m1) (\<lambda>n.
                        let t = RedundantTrigger (redundant_init tgt nm (word_of_int k) (word_of_int n))
                        in Inr (push_trigger b t st1, add_entity (entity_for c REDUNDANT t e) m))))))
              | PERIODIC \<Rightarrow>
                  bindE (stoi (dd_description d)) (\<lambda>w.
                    Inr (push_trigger b (ByTimeTrigger (by_time_init now tgt nm (word_of_int w))) (own_bucket app b st1),
                         add_entity e m))
              | _ \<Rightarrow> Inr (st1, add_entity e m)))"

fun register_dependencies ::
  "'w prim_codec \<Rightarrow> time_point \<Rightarrow> string \<Rightarrow> data_dependency list \<Rightarrow> coord_state \<times> 'w update_coord_msg \<Rightarrow>
     cpp_error + (coord_state \<times> 'w update_coord_msg)" where
  "register_dependencies c now app [] sm = Inr sm"
| "register_dependencies c now app (d # ds) sm =
     bindE (register_dependency c now app d sm) (register_dependencies c now app ds)"

definition app_register_handler ::
  "'w prim_codec \<Rightarrow> coord_config \<Rightarrow> time_point \<Rightarrow> app_registration \<Rightarrow> coord_state \<Rightarrow>
     cpp_error + (coord_state \<times> 'w pushed)" where
  "app_register_handler c cfg now reg st =
     bindE (register_dependencies c now (ar_app_name reg) (ar_dependencies reg)
              (st, empty_coord_msg\<lparr>uc_ip := cc_private_ip cfg, uc_thread_id := cc_thread_id cfg,
                     uc_app_name := ar_app_name reg, uc_msg_type := 0, uc_functions := ar_functions reg\<rparr>))
       (\<lambda>(st1, m). Inr (st1, broadcast_update st1 m))"

section \<open>Status updates\<close>

text \<open>\<open>int avail_executors = msg.avail_executors()\<close> converts the \<open>uint32\<close>.\<close>

definition status_update_handler :: "time_point \<Rightarrow> update_status_message \<Rightarrow> coord_state \<Rightarrow> coord_state" where
  "status_update_handler now msg st =
     (let ip = us_ip msg; avail = sint (us_avail_executors msg); fs = fold ins (us_functions msg) []
      in if thas (node_status_map st) ip
         then st\<lparr>node_status_map := tmod empty_node_status (update_status now avail fs) ip (node_status_map st)\<rparr>
         else st\<lparr>node_status_map := tput ip \<lparr>ns_tp = now, ns_avail_executors = avail, ns_functions = fs\<rparr> (node_status_map st)\<rparr>)"

end
