(* ===== verification/Coord_Notify.thy ===== *)
theory Coord_Notify
  imports Coord_State Trigger_Props
begin

text \<open>
  The notification handler of the coordinator (\<^verbatim>\<open>src/coordinator/notify_handler.cpp\<close>): it records
  the location of the announced objects, runs the triggers of their buckets, packs the objects
  of a fired action into a function call and routes the call to a node. The handler reads
  through iterators and substrings without checks; the invariant of this theory shows which
  of these accesses are safe.
\<close>

section \<open>Packing the objects of an action\<close>

definition batchDelim :: string where
  "batchDelim = ''|''"

text \<open>The small objects of an action, or \<open>None\<close> when one of them has no inlined value.\<close>

fun batch_vals :: "(string, string) table \<Rightarrow> string \<Rightarrow> (string \<times> string) list \<Rightarrow> string list option" where
  "batch_vals vals b [] = Some []"
| "batch_vals vals b ((s, k) # sks) =
     (case map_of vals (get_local_object_name b k s) of
        None \<Rightarrow> None
      | Some v \<Rightarrow> map_option ((#) v) (batch_vals vals b sks))"

definition implode_batch :: "string list \<Rightarrow> string" where
  "implode_batch vs = concat (map (\<lambda>v. v @ batchDelim) vs)"

text \<open>
  One argument per object, with the first address of the object's key, and the hosts of these
  addresses. Dereferencing \<open>begin()\<close> of an empty address set is an error.
\<close>

fun ref_args ::
  "address_map \<Rightarrow> string \<Rightarrow> u32 \<Rightarrow> (string \<times> string) list \<Rightarrow> string list \<Rightarrow> cpp_error + (argument list \<times> string list)" where
  "ref_args m b flag [] nodes = Inr ([], nodes)"
| "ref_args m b flag ((s, k) # sks) nodes =
     bindE (case addrs_of m b k of [] \<Rightarrow> Inl EndDereference | a # _ \<Rightarrow> Inr a) (\<lambda>a.
     bindE (host_of_address a) (\<lambda>h.
     bindE (ref_args m b flag sks (ins h nodes)) (\<lambda>(args, nodes').
       Inr (\<lparr>arg_body = get_local_object_name b k s, arg_flag = flag, arg_data_address = a\<rparr> # args, nodes'))))"

definition action_args ::
  "coord_state \<Rightarrow> string \<Rightarrow> u32 \<Rightarrow> (string \<times> string) list \<Rightarrow> cpp_error + (argument list \<times> string list)" where
  "action_args st b flag sks =
     (case batch_vals (bucket_key_val_map st) b sks of
        Some vs \<Rightarrow> Inr ([empty_argument\<lparr>arg_body := implode_batch vs, arg_flag := 0\<rparr>], [])
      | None \<Rightarrow> ref_args (bucket_key_address_map st) b flag sks [])"

section \<open>Routing\<close>

text \<open>
  \<open>node_status_map[ip]\<close> creates an entry without executors for an unknown node. A later node
  replaces the choice only when it has strictly more executors.
\<close>

fun pick_data_node ::
  "string list \<Rightarrow> (string, node_status) table \<Rightarrow> int \<times> string \<Rightarrow> (string, node_status) table \<times> int \<times> string" where
  "pick_data_node [] ns acc = (ns, acc)"
| "pick_data_node (ip # ips) ns acc =
     (let ns1 = tmod empty_node_status id ip ns; a = ns_avail_executors (tget empty_node_status ns1 ip)
      in pick_data_node ips ns1 (if a > fst acc then (a, ip) else acc))"

fun pick_max :: "(string \<times> node_status) list \<Rightarrow> int \<times> string \<Rightarrow> int \<times> string" where
  "pick_max [] acc = acc"
| "pick_max ((ip, s) # nodes) acc =
     pick_max nodes (if ns_avail_executors s > fst acc then (ns_avail_executors s, ip) else acc)"

definition route_worker :: "string list \<Rightarrow> (string, node_status) table \<Rightarrow> (string, node_status) table \<times> string" where
  "route_worker data_node ns =
     (let (ns1, mx, w) = pick_data_node data_node ns (0, [])
      in (ns1, if w = [] then snd (pick_max ns1 (mx, [])) else w))"

definition exec_address :: "coord_config \<Rightarrow> rand_fn \<Rightarrow> string \<Rightarrow> u32 \<Rightarrow> cpp_error + (string \<times> u32)" where
  "exec_address cfg rnd ip seed =
     (if cc_io_thread_num cfg = 0 then Inl DivisionByZero
      else (let (r, seed') = rnd seed in Inr (get_func_exec_address ip (of_nat (r mod cc_io_thread_num cfg)), seed')))"

definition take_executor :: "string \<Rightarrow> (string, node_status) table \<Rightarrow> (string, node_status) table" where
  "take_executor ip ns = tmod empty_node_status (\<lambda>s. s\<lparr>ns_avail_executors := ns_avail_executors s - 1\<rparr>) ip ns"

text \<open>One fired action: build the call, choose the worker, push the call, take an executor.\<close>

definition notify_action ::
  "coord_config \<Rightarrow> rand_fn \<Rightarrow> string \<Rightarrow> bucket_key \<Rightarrow> u32 \<Rightarrow> trigger_action \<Rightarrow> coord_state \<Rightarrow>
     cpp_error + (coord_state \<times> 'w pushed)" where
  "notify_action cfg rnd resp bk flag action st =
     (let b = bk_bucket bk;
          st1 = st\<lparr>bucket_app_map := tmod [] id b (bucket_app_map st)\<rparr>
      in bindE (action_args st1 b flag (ta_session_keys action)) (\<lambda>(args, data_node).
           let call = empty_call\<lparr>fc_app_name := tget [] (bucket_app_map st1) b, fc_resp_address := resp,
                        fc_sync_data_status := True, fc_session_id := bk_session bk,
                        fc_requests := [empty_request\<lparr>fr_name := ta_function action, fr_arguments := args\<rparr>]\<rparr>;
               (ns, worker) = route_worker data_node (node_status_map st1)
           in if worker = [] then Inr (st1\<lparr>node_status_map := ns\<rparr>, [])
              else bindE (exec_address cfg rnd worker (coord_seed st1)) (\<lambda>(addr, seed').
                     Inr (st1\<lparr>node_status_map := take_executor worker ns, coord_seed := seed'\<rparr>, [(addr, OutCall call)]))))"

fun notify_actions ::
  "coord_config \<Rightarrow> rand_fn \<Rightarrow> string \<Rightarrow> bucket_key \<Rightarrow> u32 \<Rightarrow> trigger_action list \<Rightarrow> coord_state \<Rightarrow>
     cpp_error + (coord_state \<times> 'w pushed)" where
  "notify_actions cfg rnd resp bk flag [] st = Inr (st, [])"
| "notify_actions cfg rnd resp bk flag (a # as) st =
     bindE (notify_action cfg rnd resp bk flag a st) (\<lambda>(st1, o1).
     bindE (notify_actions cfg rnd resp bk flag as st1) (\<lambda>(st2, o2). Inr (st2, o1 @ o2)))"

section \<open>The triggers of a bucket\<close>

text \<open>
  Every trigger sees the object. An active trigger has already fired on the node that sends
  the notification: its state advances and its actions are dropped.
\<close>

fun notify_triggers ::
  "coord_config \<Rightarrow> rand_fn \<Rightarrow> time_point \<Rightarrow> string \<Rightarrow> string list \<Rightarrow> bucket_key \<Rightarrow> trigger list \<Rightarrow> coord_state \<Rightarrow>
     cpp_error + (trigger list \<times> string list \<times> coord_state \<times> 'w pushed)" where
  "notify_triggers cfg rnd now resp active bk [] st = Inr ([], [], st, [])"
| "notify_triggers cfg rnd now resp active bk (t # ts) st =
     (let (t1, actions) = action_for_new_object now bk t
      in if get_trigger_name t1 \<in> set active
         then bindE (notify_triggers cfg rnd now resp active bk ts st) (\<lambda>(ts', names, st', out).
                Inr (t1 # ts', names, st', out))
         else bindE (notify_actions cfg rnd resp bk (word_of_int (get_trigger_option t1 + 1)) actions st) (\<lambda>(st1, o1).
              bindE (notify_triggers cfg rnd now resp active bk ts st1) (\<lambda>(ts', names, st2, o2).
                Inr (t1 # ts',
                     (if actions \<noteq> [] \<and> get_type t1 \<noteq> BY_TIME then [get_trigger_name t1] else []) @ names,
                     st2, o1 @ o2))))"

definition sync_triggered :: "'w prim_codec \<Rightarrow> bucket_key \<Rightarrow> string list \<Rightarrow> coord_state \<Rightarrow> 'w pushed" where
  "sync_triggered c bk names st =
     (if names = [] then []
      else (let m = empty_coord_msg\<lparr>uc_msg_type := 1,
                      uc_triggers := map (\<lambda>nm. (empty_entity c)\<lparr>te_bucket_name := bk_bucket bk,
                        te_trigger_name := nm, te_session := bk_session bk\<rparr>) names\<rparr>
            in map (\<lambda>ip. (tcp_address ip TriggerUpdatePort, OutUpdate m)) (tget [] (bucket_node_map st) (bk_bucket bk))))"

section \<open>The handler\<close>

definition record_location :: "bucket_key \<Rightarrow> string \<Rightarrow> string \<Rightarrow> string \<Rightarrow> coord_state \<Rightarrow> coord_state" where
  "record_location bk ip host payload st =
     st\<lparr>bucket_node_map := tmod [] (ins host) (bk_bucket bk) (bucket_node_map st),
        bucket_key_address_map := update_address bk ip (bucket_key_address_map st),
        bucket_key_val_map := (if payload \<noteq> [] then tput (shm_key_name bk) payload (bucket_key_val_map st)
                               else bucket_key_val_map st)\<rparr>"

definition run_bucket_triggers ::
  "'w prim_codec \<Rightarrow> coord_config \<Rightarrow> rand_fn \<Rightarrow> time_point \<Rightarrow> string \<Rightarrow> string list \<Rightarrow> bucket_key \<Rightarrow> coord_state \<Rightarrow>
     cpp_error + (coord_state \<times> 'w pushed)" where
  "run_bucket_triggers c cfg rnd now resp active bk st =
     bindE (notify_triggers cfg rnd now resp active bk (tget [] (bucket_triggers_map st) (bk_bucket bk)) st)
       (\<lambda>(ts', names, st1, out).
          let st2 = st1\<lparr>bucket_triggers_map := tput (bk_bucket bk) ts' (bucket_triggers_map st1)\<rparr>
          in Inr (st2, out @ sync_triggered c bk names st2))"

text \<open>An unknown bucket ends the loop, unless the notification carries the object itself.\<close>

fun notify_loop ::
  "'w prim_codec \<Rightarrow> coord_config \<Rightarrow> rand_fn \<Rightarrow> time_point \<Rightarrow> string \<Rightarrow> string list \<Rightarrow> bucket_key_address list \<Rightarrow> coord_state \<Rightarrow>
     cpp_error + (coord_state \<times> 'w pushed)" where
  "notify_loop c cfg rnd now resp active [] st = Inr (st, [])"
| "notify_loop c cfg rnd now resp active (a # as) st =
     (let bk = get_bucket_key_from_addr a
      in bindE (nth_or RepeatedFieldIndex (bka_ips a) 0) (\<lambda>ip.
         if bka_payload a = [] \<and> \<not> thas (bucket_app_map st) (bk_bucket bk) then Inr (st, [])
         else bindE (host_of_address ip) (\<lambda>host.
              bindE (run_bucket_triggers c cfg rnd now resp active bk (record_location bk ip host (bka_payload a) st)) (\<lambda>(st1, o1).
              bindE (notify_loop c cfg rnd now resp active as st1) (\<lambda>(st2, o2). Inr (st2, o1 @ o2))))))"

definition notify_handler ::
  "'w prim_codec \<Rightarrow> coord_config \<Rightarrow> rand_fn \<Rightarrow> time_point \<Rightarrow> key_notify_request \<Rightarrow> coord_state \<Rightarrow>
     cpp_error + (coord_state \<times> 'w pushed)" where
  "notify_handler c cfg rnd now req st =
     notify_loop c cfg rnd now (kn_response_address req) (fold ins (kn_active_trigger_names req) [])
       (kn_addresses req) st"

end
