(* ===== verification/Coord_Inv.thy ===== *)
theory Coord_Inv
  imports Coord_Notify
begin

text \<open>
  The invariant of the coordinator's tables, that every handler keeps it, and what follows: a
  well-formed notification never makes the coordinator dereference an empty address set.
\<close>

section \<open>The invariant\<close>

text \<open>Every key that a trigger of a bucket may still name has an address.\<close>

definition trigger_ready :: "address_map \<Rightarrow> string \<Rightarrow> trigger \<Rightarrow> bool" where
  "trigger_ready m b t \<longleftrightarrow> trigger_inv t \<and> (\<forall>k \<in> pending_keys t. addrs_of m b k \<noteq> [])"

definition addrs_long :: "address_map \<Rightarrow> bool" where
  "addrs_long m \<longleftrightarrow> (\<forall>b k. \<forall>a \<in> set (addrs_of m b k). 6 \<le> length a)"

definition coord_inv :: "coord_state \<Rightarrow> bool" where
  "coord_inv st \<longleftrightarrow>
     (\<forall>b. tget [] (bucket_triggers_map st) b \<noteq> [] \<longrightarrow> thas (bucket_app_map st) b)
   \<and> (\<forall>b app. map_of (bucket_app_map st) b = Some app \<longrightarrow> b \<in> set (tget [] (app_buckets_map st) app))
   \<and> (\<forall>b. \<forall>t \<in> set (tget [] (bucket_triggers_map st) b). trigger_ready (bucket_key_address_map st) b t)
   \<and> addrs_long (bucket_key_address_map st)"

lemma coord_inv_init: "coord_inv (coord_init seed)"
  by (simp add: coord_inv_def coord_init_def addrs_long_def)

section \<open>Triggers\<close>

lemma trigger_ready_update: "trigger_ready m b t \<Longrightarrow> trigger_ready (update_address bk a m) b t"
  by (auto simp: trigger_ready_def)

lemma ready_step:
  assumes "trigger_ready m (bk_bucket bk) t" and "addrs_of m (bk_bucket bk) (bk_key bk) \<noteq> []"
    and "action_for_new_object now bk t = (t1, as)"
  shows "trigger_ready m (bk_bucket bk) t1"
    and "a \<in> set as \<Longrightarrow> sk \<in> set (ta_session_keys a) \<Longrightarrow> addrs_of m (bk_bucket bk) (snd sk) \<noteq> []"
proof -
  have i: "trigger_inv t" using assms(1) by (simp add: trigger_ready_def)
  have "pending_keys t1 \<subseteq> insert (bk_key bk) (pending_keys t)" "trigger_inv t1"
    using any_trigger.pending_act [OF i, of now bk] any_trigger.inv_act [OF i, of now bk] assms(3) by simp_all
  then show "trigger_ready m (bk_bucket bk) t1"
    using assms(1,2) by (auto simp: trigger_ready_def)
  assume "a \<in> set as" "sk \<in> set (ta_session_keys a)"
  then have "snd sk \<in> insert (bk_key bk) (pending_keys t)"
    using any_trigger.action_keys [OF i, of a now bk] assms(3) by auto
  then show "addrs_of m (bk_bucket bk) (snd sk) \<noteq> []"
    using assms(1,2) by (auto simp: trigger_ready_def)
qed

lemma fresh_trigger_ready:
  "trigger_ready m b (BySetTrigger (by_set_init f nm (set_of_keys ks)))"
  "trigger_ready m b (RedundantTrigger (redundant_init f nm k n))"
  "trigger_ready m b (ByTimeTrigger (by_time_init now f nm w))"
  using set_of_keys_same [of ks]
  by (simp_all add: trigger_ready_def by_set_inv_def by_set_init_def same_keys_def redundant_init_def by_time_init_def)

lemma gen_trigger_ready:
  assumes "gen_trigger_pointer c now ty nm w = Some t"
  shows "trigger_ready m b (set_trigger_option n t)"
proof -
  have d: "distinct (set_of_keys ks)" for ks
    using set_of_keys_same [of ks] by (simp add: same_keys_def)
  show ?thesis
    using assms d
    by (cases ty) (auto simp: Let_def trigger_ready_def by_set_inv_def dynamic_group_inv_def immediate_init_def
        by_name_init_def by_batch_size_init_def by_set_init_def dynamic_group_init_def redundant_init_def by_time_init_def)
qed

section \<open>Notifications do not fail\<close>

lemma ref_args_ok:
  "\<forall>sk \<in> set sks. addrs_of m b (snd sk) \<noteq> [] \<Longrightarrow> addrs_long m \<Longrightarrow> \<exists>r. ref_args m b flag sks nodes = Inr r"
proof (induction sks arbitrary: nodes)
  case Nil
  then show ?case by simp
next
  case (Cons sk sks)
  obtain s k where sk: "sk = (s, k)" by (cases sk)
  obtain a as where a: "addrs_of m b k = a # as"
    using Cons.prems(1) sk by (cases "addrs_of m b k") auto
  have "a \<in> set (addrs_of m b k)" using a by simp
  then have "6 \<le> length a" using Cons.prems(2) unfolding addrs_long_def by blast
  then obtain h where "host_of_address a = Inr h" using host_of_address_Inr by blast
  moreover obtain r where "ref_args m b flag sks (ins h nodes) = Inr r"
    using Cons.IH [of "ins h nodes"] Cons.prems by auto
  ultimately show ?case by (simp add: sk a case_prod_unfold)
qed

lemma action_args_ok:
  assumes "\<forall>sk \<in> set sks. addrs_of (bucket_key_address_map st) b (snd sk) \<noteq> []"
    and "addrs_long (bucket_key_address_map st)"
  obtains args nodes where "action_args st b flag sks = Inr (args, nodes)"
  using ref_args_ok [OF assms, of flag "[]"]
  by (cases "batch_vals (bucket_key_val_map st) b sks") (auto simp: action_args_def)

definition frame :: "coord_state \<Rightarrow> coord_state \<Rightarrow> bool" where
  "frame st st' \<longleftrightarrow> (\<exists>ns s. st' = st\<lparr>node_status_map := ns, coord_seed := s\<rparr>)"

lemma frame_refl: "frame st st"
  unfolding frame_def by (intro exI [of _ "node_status_map st"] exI [of _ "coord_seed st"]) simp

lemma frame_status: "frame st (st\<lparr>node_status_map := ns\<rparr>)"
  unfolding frame_def by (intro exI [of _ ns] exI [of _ "coord_seed st"]) simp

lemma frame_trans: "frame st st1 \<Longrightarrow> frame st1 st2 \<Longrightarrow> frame st st2"
  unfolding frame_def by fastforce

lemma frame_sel:
  assumes "frame st st'"
  shows "bucket_key_address_map st' = bucket_key_address_map st" "bucket_triggers_map st' = bucket_triggers_map st"
    "bucket_app_map st' = bucket_app_map st" "app_buckets_map st' = app_buckets_map st"
    "bucket_key_val_map st' = bucket_key_val_map st" "bucket_node_map st' = bucket_node_map st"
  using assms by (auto simp: frame_def)

lemma notify_action_ok:
  assumes "thas (bucket_app_map st) (bk_bucket bk)" and "cc_io_thread_num cfg > 0"
    and "\<forall>sk \<in> set (ta_session_keys a). addrs_of (bucket_key_address_map st) (bk_bucket bk) (snd sk) \<noteq> []"
    and "addrs_long (bucket_key_address_map st)"
  shows "\<exists>st' (out :: 'w pushed). notify_action cfg rnd resp bk flag a st = Inr (st', out) \<and> frame st st'"
proof -
  have st1: "st\<lparr>bucket_app_map := tmod [] id (bk_bucket bk) (bucket_app_map st)\<rparr> = st"
    using assms(1) by (simp add: tmod_id_present)
  obtain args nodes where args: "action_args st (bk_bucket bk) flag (ta_session_keys a) = Inr (args, nodes)"
    using action_args_ok [OF assms(3,4)] .
  obtain ns w where rw: "route_worker nodes (node_status_map st) = (ns, w)" by (cases "route_worker nodes (node_status_map st)")
  show ?thesis
  proof (cases "w = []")
    case True
    then show ?thesis
      unfolding notify_action_def Let_def st1 args
      by (simp add: rw frame_status)
  next
    case False
    obtain addr s where "exec_address cfg rnd w (coord_seed st) = Inr (addr, s)"
      using assms(2) by (cases "rnd (coord_seed st)") (simp add: exec_address_def)
    then show ?thesis
      unfolding notify_action_def Let_def st1 args
      using False by (auto simp: rw frame_def)
  qed
qed

lemma notify_actions_ok:
  "thas (bucket_app_map st) (bk_bucket bk) \<Longrightarrow> cc_io_thread_num cfg > 0 \<Longrightarrow>
   \<forall>a \<in> set as. \<forall>sk \<in> set (ta_session_keys a). addrs_of (bucket_key_address_map st) (bk_bucket bk) (snd sk) \<noteq> [] \<Longrightarrow>
   addrs_long (bucket_key_address_map st) \<Longrightarrow>
   \<exists>st' (out :: 'w pushed). notify_actions cfg rnd resp bk flag as st = Inr (st', out) \<and> frame st st'"
proof (induction as arbitrary: st)
  case Nil
  then show ?case by (simp add: frame_refl)
next
  case (Cons a as)
  obtain st1 and o1 :: "'w pushed" where a: "notify_action cfg rnd resp bk flag a st = Inr (st1, o1)" "frame st st1"
    using notify_action_ok [OF Cons.prems(1,2) _ Cons.prems(4), of a rnd resp flag] Cons.prems(3) by auto
  then obtain st2 and o2 :: "'w pushed" where "notify_actions cfg rnd resp bk flag as st1 = Inr (st2, o2)" "frame st1 st2"
    using Cons.IH [of st1] Cons.prems by (auto simp: frame_sel [OF a(2)])
  then show ?case using a frame_trans by auto
qed

lemma notify_triggers_ok:
  "thas (bucket_app_map st) (bk_bucket bk) \<Longrightarrow> cc_io_thread_num cfg > 0 \<Longrightarrow>
   \<forall>t \<in> set ts. trigger_ready (bucket_key_address_map st) (bk_bucket bk) t \<Longrightarrow>
   addrs_of (bucket_key_address_map st) (bk_bucket bk) (bk_key bk) \<noteq> [] \<Longrightarrow> addrs_long (bucket_key_address_map st) \<Longrightarrow>
   \<exists>ts' names st' (out :: 'w pushed). notify_triggers cfg rnd now resp active bk ts st = Inr (ts', names, st', out) \<and> frame st st'
     \<and> (\<forall>t \<in> set ts'. trigger_ready (bucket_key_address_map st) (bk_bucket bk) t) \<and> length ts' = length ts"
proof (induction ts arbitrary: st)
  case Nil
  then show ?case by (simp add: frame_refl)
next
  case (Cons t ts)
  obtain t1 as where act: "action_for_new_object now bk t = (t1, as)" by (cases "action_for_new_object now bk t")
  have t: "trigger_ready (bucket_key_address_map st) (bk_bucket bk) t" using Cons.prems(3) by simp
  note step = ready_step [OF t Cons.prems(4) act]
  show ?case
  proof (cases "get_trigger_name t1 \<in> set active")
    case True
    then show ?thesis
      using Cons.IH [of st] Cons.prems step(1) by (auto simp: act)
  next
    case False
    let ?flag = "word_of_int (get_trigger_option t1 + 1)"
    obtain st1 and o1 :: "'w pushed" where a: "notify_actions cfg rnd resp bk ?flag as st = Inr (st1, o1)" "frame st st1"
      using notify_actions_ok [OF Cons.prems(1,2) _ Cons.prems(5), of as rnd resp ?flag] step(2) by blast
    obtain ts' names st2 and o2 :: "'w pushed" where "notify_triggers cfg rnd now resp active bk ts st1 = Inr (ts', names, st2, o2)"
        "frame st1 st2" "\<forall>t \<in> set ts'. trigger_ready (bucket_key_address_map st) (bk_bucket bk) t" "length ts' = length ts"
      using Cons.IH [of st1] Cons.prems by (auto simp: frame_sel [OF a(2)])
    then show ?thesis
      using a step(1) False frame_trans [OF a(2)] by (simp add: act)
  qed
qed

definition dir_le :: "address_map \<Rightarrow> address_map \<Rightarrow> bool" where
  "dir_le m m' \<longleftrightarrow> (\<forall>b k. set (addrs_of m b k) \<subseteq> set (addrs_of m' b k))"

lemma dir_le_refl [simp]: "dir_le m m"
  by (simp add: dir_le_def)

lemma dir_le_trans: "dir_le m m1 \<Longrightarrow> dir_le m1 m2 \<Longrightarrow> dir_le m m2"
  unfolding dir_le_def by blast

lemma dir_le_update: "dir_le m (update_address bk a m)"
  by (auto simp: dir_le_def)

lemma addrs_long_update: "addrs_long m \<Longrightarrow> 6 \<le> length a \<Longrightarrow> addrs_long (update_address bk a m)"
  by (auto simp: addrs_long_def)

lemma coord_inv_record:
  assumes "coord_inv st" and "host_of_address ip = Inr h"
  shows "coord_inv (record_location bk ip h p st)"
  using assms trigger_ready_update addrs_long_update [OF _ host_of_address_long [OF assms(2)]]
  by (auto simp: coord_inv_def record_location_def)

lemma record_location_sel [simp]:
  "bucket_key_address_map (record_location bk ip h p st) = update_address bk ip (bucket_key_address_map st)"
  "bucket_app_map (record_location bk ip h p st) = bucket_app_map st"
  "bucket_triggers_map (record_location bk ip h p st) = bucket_triggers_map st"
  by (simp_all add: record_location_def)

text \<open>Running the triggers of a bucket whose object has just been recorded.\<close>

lemma run_bucket_triggers_ok:
  assumes inv: "coord_inv st" and io: "cc_io_thread_num cfg > 0"
    and addr: "addrs_of (bucket_key_address_map st) (bk_bucket bk) (bk_key bk) \<noteq> []"
  shows "\<exists>st' (out :: 'w pushed). run_bucket_triggers c cfg rnd now resp active bk st = Inr (st', out) \<and> coord_inv st'
     \<and> bucket_key_address_map st' = bucket_key_address_map st \<and> bucket_app_map st' = bucket_app_map st"
proof -
  let ?b = "bk_bucket bk" and ?ts = "tget [] (bucket_triggers_map st) (bk_bucket bk)"
  have "\<exists>ts' names st1 (out :: 'w pushed). notify_triggers cfg rnd now resp active bk ?ts st = Inr (ts', names, st1, out)
      \<and> frame st st1 \<and> (\<forall>t \<in> set ts'. trigger_ready (bucket_key_address_map st) ?b t) \<and> length ts' = length ?ts"
  proof (cases "?ts = []")
    case True
    then show ?thesis by (simp add: frame_refl)
  next
    case False
    then have "thas (bucket_app_map st) ?b" using inv by (simp add: coord_inv_def)
    then show ?thesis
      using notify_triggers_ok [of st bk cfg ?ts] inv io addr by (simp add: coord_inv_def)
  qed
  then obtain ts' names st1 and out :: "'w pushed" where
    r: "notify_triggers cfg rnd now resp active bk ?ts st = Inr (ts', names, st1, out)" "frame st st1"
       "\<forall>t \<in> set ts'. trigger_ready (bucket_key_address_map st) ?b t" "length ts' = length ?ts"
    by blast
  note sel = frame_sel [OF r(2)]
  have "coord_inv (st1\<lparr>bucket_triggers_map := tput ?b ts' (bucket_triggers_map st1)\<rparr>)"
    using inv r(3) arg_cong [OF r(4), of "\<lambda>n. n = 0"] by (auto simp: coord_inv_def sel)
  then show ?thesis
    by (simp add: run_bucket_triggers_def r(1) Let_def sel)
qed

text \<open>What a node must put into a notification: a first address of at least six characters.\<close>

definition notify_wf :: "key_notify_request \<Rightarrow> bool" where
  "notify_wf req \<longleftrightarrow> (\<forall>a \<in> set (kn_addresses req). bka_ips a \<noteq> [] \<and> 6 \<le> length (hd (bka_ips a)))"

lemma notify_loop_step:
  assumes inv: "coord_inv st" and io: "cc_io_thread_num cfg > 0"
    and ok: "bka_ips a \<noteq> []" "host_of_address (hd (bka_ips a)) = Inr h"
    and known: "bka_payload a \<noteq> [] \<or> thas (bucket_app_map st) (bka_bucket a)"
  shows "\<exists>st1 (o1 :: 'w pushed). coord_inv st1
     \<and> bucket_key_address_map st1 = update_address (get_bucket_key_from_addr a) (hd (bka_ips a)) (bucket_key_address_map st)
     \<and> bucket_app_map st1 = bucket_app_map st
     \<and> notify_loop c cfg rnd now resp active (a # as) st
         = bindE (notify_loop c cfg rnd now resp active as st1) (\<lambda>(st2, o2). Inr (st2, o1 @ o2))"
proof -
  let ?bk = "get_bucket_key_from_addr a" and ?ip = "hd (bka_ips a)"
  let ?st0 = "record_location ?bk ?ip h (bka_payload a) st"
  have "nth_or RepeatedFieldIndex (bka_ips a) 0 = Inr ?ip"
    using ok(1) by (simp add: nth_or_def hd_conv_nth)
  moreover obtain st1 and o1 :: "'w pushed" where
    "run_bucket_triggers c cfg rnd now resp active ?bk ?st0 = Inr (st1, o1)" "coord_inv st1"
    "bucket_key_address_map st1 = bucket_key_address_map ?st0" "bucket_app_map st1 = bucket_app_map ?st0"
    using run_bucket_triggers_ok [OF coord_inv_record [OF inv ok(2), where bk = ?bk and p = "bka_payload a"] io,
        where bk = ?bk and c = c and rnd = rnd and now = now and resp = resp and active = active] by auto
  ultimately show ?thesis
    using ok known by (intro exI [of _ st1] exI [of _ o1]) (auto simp: Let_def get_bucket_key_from_addr_def)
qed

lemma notify_loop_ok:
  "coord_inv st \<Longrightarrow> cc_io_thread_num cfg > 0 \<Longrightarrow>
   \<forall>a \<in> set as. bka_ips a \<noteq> [] \<and> 6 \<le> length (hd (bka_ips a)) \<Longrightarrow>
   \<exists>st' (out :: 'w pushed). notify_loop c cfg rnd now resp active as st = Inr (st', out)"
proof (induction as arbitrary: st)
  case Nil
  then show ?case by simp
next
  case (Cons a as)
  show ?case
  proof (cases "bka_payload a \<noteq> [] \<or> thas (bucket_app_map st) (bka_bucket a)")
    case True
    obtain h where "host_of_address (hd (bka_ips a)) = Inr h"
      using Cons.prems(3) host_of_address_Inr by auto
    then obtain st1 and o1 :: "'w pushed" where s: "coord_inv st1"
      "notify_loop c cfg rnd now resp active (a # as) st
         = bindE (notify_loop c cfg rnd now resp active as st1) (\<lambda>(st2, o2). Inr (st2, o1 @ o2))"
      using notify_loop_step [OF Cons.prems(1,2) _ _ True, of h c rnd now resp active as] Cons.prems(3) by auto
    then show ?thesis using Cons.IH [OF s(1) Cons.prems(2)] Cons.prems(3) by fastforce
  next
    case False
    then show ?thesis
      using Cons.prems(3) by (simp add: Let_def nth_or_def get_bucket_key_from_addr_def)
  qed
qed

lemma notify_loop_inv:
  fixes out :: "'w pushed"
  shows "coord_inv st \<Longrightarrow> cc_io_thread_num cfg > 0 \<Longrightarrow>
    notify_loop c cfg rnd now resp active as st = Inr (st', out) \<Longrightarrow>
    coord_inv st' \<and> dir_le (bucket_key_address_map st) (bucket_key_address_map st')
      \<and> bucket_app_map st' = bucket_app_map st"
proof (induction as arbitrary: st out)
  case Nil
  then show ?case by simp
next
  case (Cons a as)
  show ?case
  proof (cases "bka_payload a \<noteq> [] \<or> thas (bucket_app_map st) (bka_bucket a)")
    case True
    obtain h where h: "bka_ips a \<noteq> []" "host_of_address (hd (bka_ips a)) = Inr h"
      using Cons.prems(3) True
      by (auto simp: Let_def bindE_Inr_iff nth_or_Inr_iff get_bucket_key_from_addr_def hd_conv_nth)
    obtain st1 and o1 :: "'w pushed" where s: "coord_inv st1"
      "bucket_key_address_map st1 = update_address (get_bucket_key_from_addr a) (hd (bka_ips a)) (bucket_key_address_map st)"
      "bucket_app_map st1 = bucket_app_map st"
      "notify_loop c cfg rnd now resp active (a # as) st
         = bindE (notify_loop c cfg rnd now resp active as st1) (\<lambda>(st2, o2). Inr (st2, o1 @ o2))"
      using notify_loop_step [OF Cons.prems(1,2) h True, of c rnd now resp active as] by auto
    obtain o2 where "notify_loop c cfg rnd now resp active as st1 = Inr (st', o2)"
      using Cons.prems(3) unfolding s(4) by (auto simp: bindE_Inr_iff)
    from Cons.IH [OF s(1) Cons.prems(2) this] show ?thesis
      using s(2,3) dir_le_trans [OF dir_le_update] by metis
  next
    case False
    then show ?thesis
      using Cons.prems by (auto simp: Let_def bindE_Inr_iff get_bucket_key_from_addr_def)
  qed
qed

section \<open>The other handlers keep the invariant\<close>

lemma coord_inv_frame: "coord_inv st \<Longrightarrow> frame st st' \<Longrightarrow> coord_inv st'"
  by (simp add: coord_inv_def frame_sel)

lemma bucket_op_inv: "coord_inv st \<Longrightarrow> coord_inv (fst (bucket_op_handler req st))"
  by (auto simp: bucket_op_handler_def coord_inv_def Let_def split: bucket_operation_type.splits)

lemma bucket_op_dir: "bucket_key_address_map (fst (bucket_op_handler req st)) = bucket_key_address_map st"
  by (simp add: bucket_op_handler_def Let_def split: bucket_operation_type.splits)

lemma own_bucket_inv: "coord_inv st \<Longrightarrow> coord_inv (own_bucket app b st)"
  by (auto simp: coord_inv_def own_bucket_def)

lemma push_trigger_inv:
  "coord_inv st \<Longrightarrow> thas (bucket_app_map st) b \<Longrightarrow> trigger_ready (bucket_key_address_map st) b t \<Longrightarrow>
     coord_inv (push_trigger b t st)"
  by (auto simp: coord_inv_def push_trigger_def)

lemma own_push_sel [simp]:
  "bucket_key_address_map (own_bucket app b st) = bucket_key_address_map st"
  "bucket_key_address_map (push_trigger b t st) = bucket_key_address_map st"
  "thas (bucket_app_map (own_bucket app b st)) b"
  by (simp_all add: own_bucket_def push_trigger_def)

lemma add_trigger_inv:
  assumes "coord_inv st" and "add_trigger c now req m st = Inr (st', e, m')"
  shows "coord_inv st' \<and> bucket_key_address_map st' = bucket_key_address_map st"
proof (cases "thas (bucket_app_map st) (to_bucket_name req)")
  case True
  then obtain t where "gen_trigger_pointer c now (to_primitive_type req) (to_trigger_name req) (to_primitive req) = Some t"
      and "st' = push_trigger (to_bucket_name req) (set_trigger_option (sint (to_trigger_option req)) t) st"
    using assms(2) by (auto simp: add_trigger_def push_trigger_def Let_def split: option.splits)
  then show ?thesis
    using push_trigger_inv [OF assms(1) True gen_trigger_ready] by simp
next
  case False
  then show ?thesis using assms by (simp add: add_trigger_def)
qed

lemma delete_trigger_inv:
  assumes "coord_inv st" and "delete_trigger c req m st = (st', e, m')"
  shows "coord_inv st' \<and> bucket_key_address_map st' = bucket_key_address_map st"
  using assms by (auto simp: delete_trigger_def coord_inv_def Let_def split: if_splits)

lemma trigger_op_inv:
  assumes "coord_inv st" and "trigger_op_handler c cfg now req st = Inr (st', out)"
  shows "coord_inv st' \<and> bucket_key_address_map st' = bucket_key_address_map st"
  using assms
  by (auto simp: trigger_op_handler_def Let_def bindE_Inr_iff split: trigger_operation_type.splits
      dest: add_trigger_inv [OF assms(1)] delete_trigger_inv [OF assms(1)])

lemma register_dependency_inv:
  assumes "coord_inv st" and "register_dependency c now app d (st, m) = Inr (st', m')"
  shows "coord_inv st' \<and> bucket_key_address_map st' = bucket_key_address_map st"
  using assms
  by (cases "dd_type d") (auto simp: register_dependency_def Let_def bindE_Inr_iff
      push_trigger_inv own_bucket_inv fresh_trigger_ready)

lemma register_dependencies_inv:
  "coord_inv st \<Longrightarrow> register_dependencies c now app ds (st, m) = Inr (st', m') \<Longrightarrow>
     coord_inv st' \<and> bucket_key_address_map st' = bucket_key_address_map st"
proof (induction ds arbitrary: st m)
  case Nil
  then show ?case by simp
next
  case (Cons d ds)
  obtain st1 m1 where "register_dependency c now app d (st, m) = Inr (st1, m1)"
    "register_dependencies c now app ds (st1, m1) = Inr (st', m')"
    using Cons.prems(2) by (auto simp: bindE_Inr_iff)
  then show ?case
    using register_dependency_inv [OF Cons.prems(1)] Cons.IH by metis
qed

lemma app_register_inv:
  "coord_inv st \<Longrightarrow> app_register_handler c cfg now reg st = Inr (st', out) \<Longrightarrow>
     coord_inv st' \<and> bucket_key_address_map st' = bucket_key_address_map st"
  by (auto simp: app_register_handler_def bindE_Inr_iff dest: register_dependencies_inv)

lemma status_update_frame: "frame st (status_update_handler now msg st)"
  by (simp add: status_update_handler_def Let_def frame_status)

end
