(* ===== verification/Demeter_Sched.thy ===== *)
theory Demeter_Sched
  imports Coord_State
begin

text \<open>
  The Demeter scheduler (\<^verbatim>\<open>include/coordinator/demeter_scheduler.hpp\<close>,
  \<^verbatim>\<open>src/coordinator/demeter_scheduler.cpp\<close>): choosing a resource allocation for a request and
  spreading the requests of a call over the nodes by affinity. A \<open>double\<close> is a real number.
  The YAML library is not part of the repository: the configuration arrives as the optional
  fields that the loader asks the document for.
\<close>

section \<open>Configuration\<close>

record demeter_allocation =
  da_name :: string
  da_cpu_cores :: real
  da_memory_mb :: u32

record demeter_node_profile =
  dp_dc :: string
  dp_warm_weight :: real
  dp_load_weight :: real
  dp_locality_weight :: real

record demeter_config =
  dm_enabled :: bool
  dm_memory_loss_factor :: real
  dm_allocations :: "demeter_allocation list"
  dm_node_profiles :: "(string, demeter_node_profile) table"

definition demeter_config_init :: demeter_config where
  "demeter_config_init = \<lparr>dm_enabled = False, dm_memory_loss_factor = 4 / 5, dm_allocations = [], dm_node_profiles = []\<rparr>"

text \<open>The \<open>demeter\<close> section of the document: a missing key is \<open>None\<close>.\<close>

record yaml_allocation =
  ya_name :: "string option"
  ya_cpu_cores :: "real option"
  ya_memory_mb :: "u32 option"

record yaml_node =
  yn_ip :: "string option"
  yn_dc :: "string option"
  yn_warm_weight :: "real option"
  yn_load_weight :: "real option"
  yn_locality_weight :: "real option"

record yaml_demeter =
  yd_enabled :: "u32 option"
  yd_memory_loss_factor :: "real option"
  yd_allocations :: "yaml_allocation list option"
  yd_nodes :: "yaml_node list option"

definition or_else :: "'a option \<Rightarrow> 'a \<Rightarrow> 'a" where
  "or_else x d = (case x of Some v \<Rightarrow> v | None \<Rightarrow> d)"

definition default_allocations :: "demeter_allocation list" where
  "default_allocations =
     concat (map (\<lambda>c. map (\<lambda>m. \<lparr>da_name = to_string c @ ''c-'' @ to_string m @ ''m'', da_cpu_cores = real c, da_memory_mb = of_nat m\<rparr>)
       [128, 512, 1024, 2048, 4096, 8192, 10240]) [1, 2, 4, 8])"

definition load_node_profile :: "yaml_node \<Rightarrow> (string, demeter_node_profile) table \<Rightarrow> (string, demeter_node_profile) table" where
  "load_node_profile item ps =
     (case yn_ip item of
        None \<Rightarrow> ps
      | Some ip \<Rightarrow> tput ip \<lparr>dp_dc = or_else (yn_dc item) ip, dp_warm_weight = or_else (yn_warm_weight item) (3 / 20),
          dp_load_weight = or_else (yn_load_weight item) (7 / 20),
          dp_locality_weight = or_else (yn_locality_weight item) 1\<rparr> ps)"

definition load_demeter_scheduler_config :: "yaml_demeter option \<Rightarrow> demeter_config" where
  "load_demeter_scheduler_config conf =
     (case conf of
        None \<Rightarrow> demeter_config_init
      | Some d \<Rightarrow>
          (let allocs = map (\<lambda>a. \<lparr>da_name = or_else (ya_name a) ''custom'', da_cpu_cores = or_else (ya_cpu_cores a) 1,
                          da_memory_mb = or_else (ya_memory_mb a) 128\<rparr>) (or_else (yd_allocations d) [])
           in demeter_config_init
                \<lparr>dm_enabled := (case yd_enabled d of Some n \<Rightarrow> n \<noteq> 0 | None \<Rightarrow> False),
                 dm_memory_loss_factor := or_else (yd_memory_loss_factor d) (4 / 5),
                 dm_allocations := (if allocs = [] then default_allocations else allocs),
                 dm_node_profiles := fold load_node_profile (or_else (yd_nodes d) []) []\<rparr>))"

section \<open>Choosing an allocation\<close>

definition clamp_positive :: "real \<Rightarrow> real \<Rightarrow> real" where
  "clamp_positive v fallback = (if v > 0 then v else fallback)"

definition estimate_request_input_mb :: "function_request \<Rightarrow> real" where
  "estimate_request_input_mb req =
     (let total_bytes = fold (\<lambda>a t. if arg_body a \<noteq> [] then t + real (length (arg_body a)) else t) (fr_arguments req) 0
      in max (total_bytes / (1024 * 1024)) 1)"

definition required_mb :: "function_request \<Rightarrow> demeter_config \<Rightarrow> real" where
  "required_mb req config = estimate_request_input_mb req / clamp_positive (dm_memory_loss_factor config) (4 / 5)"

fun best_allocation :: "real \<Rightarrow> demeter_allocation list \<Rightarrow> demeter_allocation \<times> bool \<Rightarrow> demeter_allocation \<times> bool" where
  "best_allocation need [] acc = acc"
| "best_allocation need (a # as) acc =
     (let (best, found) = acc
      in best_allocation need as
           (if real (unat (da_memory_mb a)) \<ge> need
               \<and> (\<not> found \<or> da_memory_mb a < da_memory_mb best
                  \<or> da_memory_mb a = da_memory_mb best \<and> da_cpu_cores a < da_cpu_cores best)
            then (a, True) else acc))"

definition choose_allocation :: "function_request \<Rightarrow> demeter_config \<Rightarrow> demeter_allocation" where
  "choose_allocation req config =
     (if dm_allocations config = [] then \<lparr>da_name = ''default'', da_cpu_cores = 1, da_memory_mb = 128\<rparr>
      else (let (best, found) = best_allocation (required_mb req config) (dm_allocations config)
                                  (hd (dm_allocations config), False)
            in if found then best else last (dm_allocations config)))"

section \<open>Affinity and assignment\<close>

definition node_affinity ::
  "string \<Rightarrow> node_status \<Rightarrow> function_request \<Rightarrow> demeter_allocation \<Rightarrow> demeter_config \<Rightarrow> real" where
  "node_affinity addr status req alloc config =
     (let profile = tget \<lparr>dp_dc = addr, dp_warm_weight = 3 / 20, dp_load_weight = 7 / 20, dp_locality_weight = 1\<rparr>
                      (dm_node_profiles config) addr;
          warm_bonus = (if fr_name req \<in> set (ns_functions status) then dp_warm_weight profile else 0);
          load_score = dp_load_weight profile * of_int (ns_avail_executors status);
          resource_score = da_cpu_cores alloc / 100 + real (unat (da_memory_mb alloc)) / 100000
      in load_score + warm_bonus + resource_score + dp_locality_weight profile)"

definition eligible :: "string \<Rightarrow> string \<times> node_status \<Rightarrow> bool" where
  "eligible source p \<longleftrightarrow> \<not> (source \<noteq> [] \<and> source = fst p) \<and> ns_avail_executors (snd p) > 0"

text \<open>\<open>None\<close> is the initial score, minus infinity.\<close>

fun best_node ::
  "demeter_config \<Rightarrow> function_request \<Rightarrow> demeter_allocation \<Rightarrow> string \<Rightarrow> (string \<times> node_status) list \<Rightarrow>
     real option \<times> string \<Rightarrow> real option \<times> string" where
  "best_node config req alloc source [] acc = acc"
| "best_node config req alloc source (p # ps) acc =
     (let score = node_affinity (fst p) (snd p) req alloc config
      in best_node config req alloc source ps
           (if eligible source p \<and> (case fst acc of None \<Rightarrow> True | Some b \<Rightarrow> score > b)
            then (Some score, fst p) else acc))"

record assign_state =
  as_status :: "(string, node_status) table"
  as_reqs :: "(string, function_request list) table"
  as_seed :: u32

definition random_node :: "rand_fn \<Rightarrow> u32 \<Rightarrow> (string, node_status) table \<Rightarrow> string \<times> u32" where
  "random_node rnd seed ns = (let (r, seed') = rnd seed in (fst (ns ! (r mod length ns)), seed'))"

definition take_slot :: "string \<Rightarrow> (string, node_status) table \<Rightarrow> (string, node_status) table" where
  "take_slot ip ns = tmod empty_node_status
     (\<lambda>s. if ns_avail_executors s > 0 then s\<lparr>ns_avail_executors := ns_avail_executors s - 1\<rparr> else s) ip ns"

definition assign_request ::
  "demeter_config \<Rightarrow> rand_fn \<Rightarrow> string \<Rightarrow> function_request \<Rightarrow> assign_state \<Rightarrow> assign_state" where
  "assign_request config rnd source req s =
     (let alloc = choose_allocation req config;
          node = snd (best_node config req alloc source (as_status s) (None, []));
          (node', seed') = (if node = [] \<and> as_status s \<noteq> [] then random_node rnd (as_seed s) (as_status s) else (node, as_seed s))
      in if node' \<noteq> []
         then s\<lparr>as_reqs := tmod [] (\<lambda>rs. rs @ [req]) node' (as_reqs s), as_status := take_slot node' (as_status s), as_seed := seed'\<rparr>
         else s\<lparr>as_seed := seed'\<rparr>)"

definition with_allocation :: "demeter_config \<Rightarrow> function_request \<Rightarrow> function_request" where
  "with_allocation config req =
     (let alloc = choose_allocation req config in req\<lparr>fr_cpu_cores := da_cpu_cores alloc, fr_memory_mb := da_memory_mb alloc\<rparr>)"

definition routed_call :: "demeter_config \<Rightarrow> function_call \<Rightarrow> function_request list \<Rightarrow> function_call" where
  "routed_call config call reqs =
     empty_call\<lparr>fc_app_name := fc_app_name call, fc_source := fc_source call, fc_request_id := fc_request_id call,
       fc_resp_address := fc_resp_address call, fc_session_id := fc_session_id call, fc_sync_data_status := True,
       fc_requests := map (with_allocation config) reqs\<rparr>"

definition demeter_schedule_function_call ::
  "demeter_config \<Rightarrow> rand_fn \<Rightarrow> function_call \<Rightarrow> string \<Rightarrow> (string, node_status) table \<Rightarrow> u32 \<Rightarrow>
     (string, function_call) table \<times> (string, node_status) table \<times> u32" where
  "demeter_schedule_function_call config rnd call source ns seed =
     (if \<not> dm_enabled config \<or> ns = [] then ([], ns, seed)
      else (let s = fold (assign_request config rnd source) (fc_requests call) \<lparr>as_status = ns, as_reqs = [], as_seed = seed\<rparr>
            in (map (\<lambda>(node, reqs). (node, routed_call config call reqs)) (as_reqs s), as_status s, as_seed s)))"

section \<open>The allocation is the cheapest sufficient one\<close>

definition cheaper_eq :: "demeter_allocation \<Rightarrow> demeter_allocation \<Rightarrow> bool" where
  "cheaper_eq a x \<longleftrightarrow> da_memory_mb a < da_memory_mb x \<or> da_memory_mb a = da_memory_mb x \<and> da_cpu_cores a \<le> da_cpu_cores x"

definition sufficient :: "real \<Rightarrow> demeter_allocation \<Rightarrow> bool" where
  "sufficient need a \<longleftrightarrow> need \<le> real (unat (da_memory_mb a))"

lemma cheaper_eq_trans: "cheaper_eq a b \<Longrightarrow> cheaper_eq b c \<Longrightarrow> cheaper_eq a c"
  by (auto simp: cheaper_eq_def)

lemma not_cheaper_eq:
  "\<not> cheaper_eq b y \<longleftrightarrow> da_memory_mb y < da_memory_mb b \<or> da_memory_mb y = da_memory_mb b \<and> da_cpu_cores y < da_cpu_cores b"
  by (auto simp: cheaper_eq_def not_less not_le)

lemma best_allocation_step:
  "best_allocation need (y # as) (best, True)
     = best_allocation need as (if sufficient need y \<and> \<not> cheaper_eq best y then (y, True) else (best, True))"
  by (simp add: not_cheaper_eq sufficient_def)

lemma best_allocation_found:
  "best_allocation need as (best, True) = (a, found) \<Longrightarrow>
     found \<and> (a = best \<or> a \<in> set as \<and> sufficient need a) \<and> cheaper_eq a best
     \<and> (\<forall>x \<in> set as. sufficient need x \<longrightarrow> cheaper_eq a x)"
proof (induction as arbitrary: best)
  case Nil
  then show ?case by (simp add: cheaper_eq_def)
next
  case (Cons y as)
  show ?case
  proof (cases "sufficient need y \<and> \<not> cheaper_eq best y")
    case True
    then have "best_allocation need as (y, True) = (a, found)"
      using Cons.prems by (simp add: best_allocation_step del: best_allocation.simps)
    moreover have "cheaper_eq y best"
      using True by (auto simp: not_cheaper_eq) (auto simp: cheaper_eq_def)
    ultimately show ?thesis
      using Cons.IH [of y] True by (auto intro: cheaper_eq_trans)
  next
    case False
    then have "best_allocation need as (best, True) = (a, found)"
      using Cons.prems by (simp only: best_allocation_step if_False)
    then show ?thesis
      using Cons.IH [of best] False by (auto intro: cheaper_eq_trans)
  qed
qed

lemma best_allocation_first:
  "best_allocation need as (best, False) = (a, found) \<Longrightarrow>
     (found \<longleftrightarrow> (\<exists>x \<in> set as. sufficient need x))
     \<and> (found \<longrightarrow> a \<in> set as \<and> sufficient need a \<and> (\<forall>x \<in> set as. sufficient need x \<longrightarrow> cheaper_eq a x))"
proof (induction as arbitrary: best)
  case Nil
  then show ?case by simp
next
  case (Cons y as)
  show ?case
  proof (cases "sufficient need y")
    case True
    then have "best_allocation need as (y, True) = (a, found)"
      using Cons.prems by (simp add: sufficient_def)
    from best_allocation_found [OF this] show ?thesis
      using True by auto
  next
    case False
    then have "best_allocation need as (best, False) = (a, found)"
      using Cons.prems by (simp add: sufficient_def)
    then show ?thesis
      using Cons.IH [of best] False by auto
  qed
qed

text \<open>
  The allocation chosen for a request is one of the configured ones; when some of them have
  the memory that the input needs, it is a sufficient one with the least memory and, among
  those, the fewest cores; when none has, it is the last of the list.
\<close>

theorem choose_allocation_optimal:
  assumes "dm_allocations config \<noteq> []"
  shows "choose_allocation req config \<in> set (dm_allocations config)
    \<and> (if \<exists>x \<in> set (dm_allocations config). sufficient (required_mb req config) x
       then sufficient (required_mb req config) (choose_allocation req config)
            \<and> (\<forall>x \<in> set (dm_allocations config). sufficient (required_mb req config) x \<longrightarrow>
                 cheaper_eq (choose_allocation req config) x)
       else choose_allocation req config = last (dm_allocations config))"
proof -
  obtain a found where b: "best_allocation (required_mb req config) (dm_allocations config)
      (hd (dm_allocations config), False) = (a, found)"
    by fastforce
  show ?thesis
    using assms best_allocation_first [OF b] by (simp add: choose_allocation_def b)
qed

definition example_demeter :: demeter_config where
  "example_demeter = (load_demeter_scheduler_config
     (Some \<lparr>yd_enabled = Some 1, yd_memory_loss_factor = None, yd_allocations = None, yd_nodes = None\<rparr>))"

theorem choose_allocation_optimal_witness:
  "choose_allocation (empty_request\<lparr>fr_name := ''f''\<rparr>) example_demeter \<in> set (dm_allocations example_demeter)
    \<and> sufficient (required_mb (empty_request\<lparr>fr_name := ''f''\<rparr>) example_demeter)
        (choose_allocation (empty_request\<lparr>fr_name := ''f''\<rparr>) example_demeter)"
proof -
  let ?r = "empty_request\<lparr>fr_name := ''f''\<rparr>"
  have ne: "dm_allocations example_demeter \<noteq> []"
    by (simp add: example_demeter_def load_demeter_scheduler_config_def default_allocations_def or_else_def Let_def)
  have "required_mb ?r example_demeter = 5 / 4"
    by (simp add: required_mb_def estimate_request_input_mb_def clamp_positive_def example_demeter_def
        load_demeter_scheduler_config_def or_else_def Let_def empty_request_def demeter_config_init_def)
  then have "\<exists>x \<in> set (dm_allocations example_demeter). sufficient (required_mb ?r example_demeter) x"
    by (simp add: sufficient_def example_demeter_def load_demeter_scheduler_config_def default_allocations_def
        or_else_def Let_def)
  then show ?thesis
    using choose_allocation_optimal [OF ne, of ?r] by auto
qed

section \<open>Every request is routed exactly once\<close>

lemma best_node_key: "snd (best_node config req alloc source ps acc) \<in> insert (snd acc) (fst ` set ps)"
proof (induction ps arbitrary: acc)
  case Nil
  then show ?case by simp
next
  case (Cons p ps)
  let ?score = "node_affinity (fst p) (snd p) req alloc config"
  show ?case
    using Cons.IH [of "(Some ?score, fst p)"] Cons.IH [of acc] by (auto simp: Let_def)
qed

lemma map_fst_take_slot: "thas ns ip \<Longrightarrow> map fst (take_slot ip ns) = map fst ns"
  by (simp add: take_slot_def tmod_def keys_tput_present)

lemma concat_tmod_snoc:
  "mset (concat (map snd (tmod [] (\<lambda>rs. rs @ [r]) k t))) = add_mset r (mset (concat (map snd t)))"
  by (induction t) (auto simp: tmod_def tget_def)

text \<open>The node that receives a request is one of the table, as long as no node has the empty name.\<close>

lemma assign_request_node:
  assumes "as_status s \<noteq> []" and "[] \<notin> fst ` set (as_status s)"
  shows "\<exists>node seed'. thas (as_status s) node \<and> assign_request config rnd source req s
     = s\<lparr>as_reqs := tmod [] (\<lambda>rs. rs @ [req]) node (as_reqs s), as_status := take_slot node (as_status s), as_seed := seed'\<rparr>
     \<and> (snd (best_node config req (choose_allocation req config) source (as_status s) (None, [])) \<noteq> [] \<longrightarrow>
        node = snd (best_node config req (choose_allocation req config) source (as_status s) (None, [])))"
proof -
  let ?n = "snd (best_node config req (choose_allocation req config) source (as_status s) (None, []))"
  obtain r seed' where rn: "rnd (as_seed s) = (r, seed')" by fastforce
  let ?m = "fst (as_status s ! (r mod length (as_status s)))"
  have m: "?m \<in> fst ` set (as_status s)" using assms(1) by simp
  then have "?m \<noteq> []" using assms(2) by metis
  moreover have "?n \<noteq> [] \<Longrightarrow> ?n \<in> fst ` set (as_status s)"
    using best_node_key [of config req "choose_allocation req config" source "as_status s" "(None, [])"] by auto
  ultimately show ?thesis
    using assms(1) m
    by (intro exI [of _ "if ?n = [] then ?m else ?n"] exI [of _ "if ?n = [] then seed' else as_seed s"])
       (simp add: assign_request_def Let_def random_node_def rn thas_iff_key)
qed

lemma assign_all:
  "as_status s \<noteq> [] \<Longrightarrow> [] \<notin> fst ` set (as_status s) \<Longrightarrow>
     mset (concat (map snd (as_reqs (fold (assign_request config rnd source) reqs s))))
       = mset (concat (map snd (as_reqs s))) + mset reqs"
proof (induction reqs arbitrary: s)
  case Nil
  then show ?case by simp
next
  case (Cons r reqs)
  obtain node seed' where n: "thas (as_status s) node" "assign_request config rnd source r s
     = s\<lparr>as_reqs := tmod [] (\<lambda>rs. rs @ [r]) node (as_reqs s), as_status := take_slot node (as_status s), as_seed := seed'\<rparr>"
    using assign_request_node [OF Cons.prems] by blast
  have k: "fst ` set (take_slot node (as_status s)) = fst ` set (as_status s)"
    using arg_cong [OF map_fst_take_slot [OF n(1)], of set] by simp
  moreover have "take_slot node (as_status s) \<noteq> []"
    using k Cons.prems(1) by auto
  ultimately show ?case
    using Cons.IH [of "assign_request config rnd source r s"] Cons.prems(2) n(2)
    by (simp add: concat_tmod_snoc)
qed

text \<open>
  The Demeter scheduler routes every request of a call exactly once: the requests of the
  calls it produces are, as a multiset, the requests of the incoming call with their resource
  hints filled in, and every produced call carries the application, the source, the request
  identifier, the response address and the session of the incoming one.
\<close>

theorem demeter_routes_each_request_once:
  assumes "dm_enabled config" and "ns \<noteq> []" and "[] \<notin> fst ` set ns"
  shows "mset (concat (map (\<lambda>p. fc_requests (snd p)) (fst (demeter_schedule_function_call config rnd call source ns seed))))
       = mset (map (with_allocation config) (fc_requests call))
    \<and> (\<forall>p \<in> set (fst (demeter_schedule_function_call config rnd call source ns seed)).
         fc_app_name (snd p) = fc_app_name call \<and> fc_source (snd p) = fc_source call
         \<and> fc_request_id (snd p) = fc_request_id call \<and> fc_resp_address (snd p) = fc_resp_address call
         \<and> fc_session_id (snd p) = fc_session_id call)"
proof -
  let ?s = "fold (assign_request config rnd source) (fc_requests call) \<lparr>as_status = ns, as_reqs = [], as_seed = seed\<rparr>"
  have "mset (concat (map snd (as_reqs ?s))) = mset (fc_requests call)"
    using assign_all [of "\<lparr>as_status = ns, as_reqs = [], as_seed = seed\<rparr>"] assms(2,3) by simp
  then have "mset (map (with_allocation config) (concat (map snd (as_reqs ?s)))) = mset (map (with_allocation config) (fc_requests call))"
    by (metis mset_map)
  moreover have "concat (map (\<lambda>p. fc_requests (snd p)) (map (\<lambda>(node, reqs). (node, routed_call config call reqs)) rs))
      = map (with_allocation config) (concat (map snd rs))" for rs
    by (induction rs) (auto simp: routed_call_def)
  moreover have out: "fst (demeter_schedule_function_call config rnd call source ns seed)
      = map (\<lambda>(node, reqs). (node, routed_call config call reqs)) (as_reqs ?s)"
    using assms(1,2) by (simp add: demeter_schedule_function_call_def Let_def)
  ultimately have "mset (concat (map (\<lambda>p. fc_requests (snd p)) (fst (demeter_schedule_function_call config rnd call source ns seed))))
      = mset (map (with_allocation config) (fc_requests call))"
    by metis
  then show ?thesis
    unfolding out by (auto simp: routed_call_def)
qed

theorem demeter_routes_each_request_once_witness:
  "mset (concat (map (\<lambda>p. fc_requests (snd p)) (fst (demeter_schedule_function_call example_demeter (\<lambda>s. (0, s))
       (empty_call\<lparr>fc_requests := [empty_request\<lparr>fr_name := ''f''\<rparr>, empty_request\<lparr>fr_name := ''g''\<rparr>]\<rparr>)
       [] [(''10.0.0.1'', empty_node_status), (''10.0.0.2'', empty_node_status)] 0))))
   = mset (map (with_allocation example_demeter) [empty_request\<lparr>fr_name := ''f''\<rparr>, empty_request\<lparr>fr_name := ''g''\<rparr>])"
proof -
  have "dm_enabled example_demeter"
    by (simp add: example_demeter_def load_demeter_scheduler_config_def demeter_config_init_def Let_def)
  then show ?thesis
    using demeter_routes_each_request_once [of example_demeter "[(''10.0.0.1'', empty_node_status), (''10.0.0.2'', empty_node_status)]"
      "\<lambda>s. (0, s)" "empty_call\<lparr>fc_requests := [empty_request\<lparr>fr_name := ''f''\<rparr>, empty_request\<lparr>fr_name := ''g''\<rparr>]\<rparr>" "[]" 0]
    by simp
qed

section \<open>Affinity and capacity\<close>

lemma best_node_some:
  "best_node config req alloc source ps (Some b, n) = (sc, m) \<Longrightarrow>
     \<exists>v. sc = Some v \<and> b \<le> v
       \<and> ((v = b \<and> m = n) \<or> (\<exists>p \<in> set ps. eligible source p \<and> m = fst p \<and> v = node_affinity (fst p) (snd p) req alloc config))
       \<and> (\<forall>q \<in> set ps. eligible source q \<longrightarrow> node_affinity (fst q) (snd q) req alloc config \<le> v)"
proof (induction ps arbitrary: b n)
  case Nil
  then show ?case by simp
next
  case (Cons p ps)
  let ?s = "node_affinity (fst p) (snd p) req alloc config"
  show ?case
  proof (cases "eligible source p \<and> b < ?s")
    case True
    then have "best_node config req alloc source ps (Some ?s, fst p) = (sc, m)"
      using Cons.prems by (simp add: Let_def)
    from Cons.IH [OF this] True show ?thesis by fastforce
  next
    case False
    then have "best_node config req alloc source ps (Some b, n) = (sc, m)"
      using Cons.prems by (auto simp: Let_def)
    from Cons.IH [OF this] False show ?thesis by fastforce
  qed
qed

lemma best_node_none:
  "best_node config req alloc source ps (None, []) = (sc, m) \<Longrightarrow> \<exists>p \<in> set ps. eligible source p \<Longrightarrow>
     \<exists>p \<in> set ps. eligible source p \<and> m = fst p
       \<and> (\<forall>q \<in> set ps. eligible source q \<longrightarrow>
            node_affinity (fst q) (snd q) req alloc config \<le> node_affinity (fst p) (snd p) req alloc config)"
proof (induction ps)
  case Nil
  then show ?case by simp
next
  case (Cons p ps)
  let ?s = "node_affinity (fst p) (snd p) req alloc config"
  show ?case
  proof (cases "eligible source p")
    case True
    then have "best_node config req alloc source ps (Some ?s, fst p) = (sc, m)"
      using Cons.prems by (simp add: Let_def)
    from best_node_some [OF this] True show ?thesis by fastforce
  next
    case False
    then show ?thesis using Cons by (auto simp: Let_def)
  qed
qed

text \<open>The executors of the nodes that a call from \<open>source\<close> may use.\<close>

definition capacity :: "string \<Rightarrow> (string, node_status) table \<Rightarrow> nat" where
  "capacity source ns = sum_list (map (\<lambda>p. if eligible source p then nat (ns_avail_executors (snd p)) else 0) ns)"

definition avail_of :: "(string, node_status) table \<Rightarrow> string \<Rightarrow> int" where
  "avail_of ns ip = ns_avail_executors (tget empty_node_status ns ip)"

lemma avail_of_take_slot:
  "avail_of (take_slot ip ns) ip' = (if ip' = ip \<and> avail_of ns ip > 0 then avail_of ns ip - 1 else avail_of ns ip')"
  by (simp add: avail_of_def take_slot_def)

lemma avail_of_entry: "tbl_ok ns \<Longrightarrow> p \<in> set ns \<Longrightarrow> avail_of ns (fst p) = ns_avail_executors (snd p)"
  by (metis avail_of_def prod.collapse tget_eqI)

lemma capacity_take_slot:
  assumes "tbl_ok ns" and "p \<in> set ns" and "eligible source p"
  shows "capacity source (take_slot (fst p) ns) = capacity source ns - 1"
proof -
  have h: "thas ns (fst p)" using assms(2) by (simp add: thas_iff_key)
  have v: "tget empty_node_status ns (fst p) = snd p"
    using assms(1,2) tget_eqI [of ns "fst p" "snd p"] by simp
  let ?s = "(snd p)\<lparr>ns_avail_executors := ns_avail_executors (snd p) - 1\<rparr>"
  obtain t1 v0 t2 where t: "ns = t1 @ (fst p, v0) # t2" "tput (fst p) ?s ns = t1 @ (fst p, ?s) # t2"
    using tbl_ok_update_split [OF h assms(1)] by blast
  have "v0 = snd p"
    using tget_eqI [OF assms(1), of "fst p" v0 empty_node_status] v t(1) by simp
  then have "capacity source ns = capacity source t1 + nat (ns_avail_executors (snd p)) + capacity source t2"
    using assms(3) t(1) by (simp add: capacity_def eligible_def)
  moreover have "capacity source (t1 @ (fst p, ?s) # t2)
      = capacity source t1 + (nat (ns_avail_executors (snd p)) - 1) + capacity source t2"
    using assms(3) by (auto simp: capacity_def eligible_def nat_diff_distrib)
  moreover have "take_slot (fst p) ns = t1 @ (fst p, ?s) # t2"
    using assms(3) t(2) v by (simp add: take_slot_def tmod_def eligible_def)
  moreover have "0 < nat (ns_avail_executors (snd p))"
    using assms(3) by (simp add: eligible_def)
  ultimately show ?thesis
    by simp
qed

lemma capacity_pos: "0 < capacity source ns \<Longrightarrow> \<exists>p \<in> set ns. eligible source p"
  by (induction ns) (auto simp: capacity_def split: if_splits)

lemma tbl_ok_take_slot: "tbl_ok ns \<Longrightarrow> tbl_ok (take_slot ip ns)"
  by (simp add: take_slot_def)

definition load_of :: "(string, function_request list) table \<Rightarrow> string \<Rightarrow> int" where
  "load_of reqs ip = int (length (tget [] reqs ip))"

text \<open>With enough executors, an assignment moves one slot of an eligible node into its load.\<close>

lemma assign_request_slot:
  assumes "tbl_ok (as_status s)" and "[] \<notin> fst ` set (as_status s)" and "0 < capacity source (as_status s)"
  shows "let s' = assign_request config rnd source req s
    in tbl_ok (as_status s') \<and> fst ` set (as_status s') = fst ` set (as_status s)
       \<and> capacity source (as_status s') = capacity source (as_status s) - 1
       \<and> (\<exists>ip. \<not> (source \<noteq> [] \<and> source = ip) \<and> avail_of (as_status s) ip > 0
            \<and> (\<forall>i. load_of (as_reqs s') i = load_of (as_reqs s) i + (if i = ip then 1 else 0)
                  \<and> avail_of (as_status s') i = avail_of (as_status s) i - (if i = ip then 1 else 0)))"
proof -
  let ?b = "best_node config req (choose_allocation req config) source (as_status s) (None, [])"
  have ne: "as_status s \<noteq> []" using assms(3) by (auto simp: capacity_def)
  obtain p where p: "p \<in> set (as_status s)" "eligible source p" "snd ?b = fst p"
    using best_node_none [of config req "choose_allocation req config" source "as_status s" "fst ?b" "snd ?b"]
      capacity_pos [OF assms(3)] by auto
  then have "snd ?b \<noteq> []" using assms(2) by force
  then obtain seed' where a: "thas (as_status s) (fst p)" "assign_request config rnd source req s
     = s\<lparr>as_reqs := tmod [] (\<lambda>rs. rs @ [req]) (fst p) (as_reqs s), as_status := take_slot (fst p) (as_status s), as_seed := seed'\<rparr>"
    using assign_request_node [OF ne assms(2), of config rnd source req] p(3) by auto
  have "avail_of (as_status s) (fst p) > 0" "\<not> (source \<noteq> [] \<and> source = fst p)"
    using p avail_of_entry [OF assms(1) p(1)] by (simp_all add: eligible_def)
  then show ?thesis
    using capacity_take_slot [OF assms(1) p(1,2)] tbl_ok_take_slot [OF assms(1)]
      arg_cong [OF map_fst_take_slot [OF a(1)], of set]
    by (auto simp: a(2) Let_def load_of_def avail_of_take_slot intro!: exI [of _ "fst p"])
qed

lemma assign_all_slots:
  "tbl_ok (as_status s) \<Longrightarrow> [] \<notin> fst ` set (as_status s) \<Longrightarrow> length reqs \<le> capacity source (as_status s) \<Longrightarrow>
   let s' = fold (assign_request config rnd source) reqs s
   in \<forall>i. load_of (as_reqs s') i + avail_of (as_status s') i = load_of (as_reqs s) i + avail_of (as_status s) i
        \<and> min 0 (avail_of (as_status s) i) \<le> avail_of (as_status s') i \<and> avail_of (as_status s') i \<le> avail_of (as_status s) i
        \<and> (source \<noteq> [] \<and> i = source \<longrightarrow> load_of (as_reqs s') i = load_of (as_reqs s) i)"
proof (induction reqs arbitrary: s)
  case Nil
  then show ?case by simp
next
  case (Cons r reqs)
  let ?s1 = "assign_request config rnd source r s"
  have pos: "0 < capacity source (as_status s)" using Cons.prems(3) by simp
  note st = assign_request_slot [OF Cons.prems(1,2) pos, of config rnd r, unfolded Let_def]
  have IH: "\<forall>i. load_of (as_reqs (fold (assign_request config rnd source) reqs ?s1)) i
        + avail_of (as_status (fold (assign_request config rnd source) reqs ?s1)) i
        = load_of (as_reqs ?s1) i + avail_of (as_status ?s1) i
        \<and> min 0 (avail_of (as_status ?s1) i) \<le> avail_of (as_status (fold (assign_request config rnd source) reqs ?s1)) i
        \<and> avail_of (as_status (fold (assign_request config rnd source) reqs ?s1)) i \<le> avail_of (as_status ?s1) i
        \<and> (source \<noteq> [] \<and> i = source \<longrightarrow>
            load_of (as_reqs (fold (assign_request config rnd source) reqs ?s1)) i = load_of (as_reqs ?s1) i)"
    using Cons.IH [of ?s1] st Cons.prems by (simp add: Let_def)
  obtain ip where ip: "\<not> (source \<noteq> [] \<and> source = ip)" "avail_of (as_status s) ip > 0"
      "\<And>i. load_of (as_reqs ?s1) i = load_of (as_reqs s) i + (if i = ip then 1 else 0)"
      "\<And>i. avail_of (as_status ?s1) i = avail_of (as_status s) i - (if i = ip then 1 else 0)"
    using st by blast
  show ?case
    unfolding Let_def fold_simps(2)
  proof (intro allI)
    fix i
    show "load_of (as_reqs (fold (assign_request config rnd source) reqs ?s1)) i
        + avail_of (as_status (fold (assign_request config rnd source) reqs ?s1)) i
        = load_of (as_reqs s) i + avail_of (as_status s) i
        \<and> min 0 (avail_of (as_status s) i) \<le> avail_of (as_status (fold (assign_request config rnd source) reqs ?s1)) i
        \<and> avail_of (as_status (fold (assign_request config rnd source) reqs ?s1)) i \<le> avail_of (as_status s) i
        \<and> (source \<noteq> [] \<and> i = source \<longrightarrow>
            load_of (as_reqs (fold (assign_request config rnd source) reqs ?s1)) i = load_of (as_reqs s) i)"
      using IH[rule_format, of i] ip(1,2) ip(3,4)[of i] by (auto split: if_splits)
  qed
qed

lemma assign_all_tbl_ok: "tbl_ok (as_reqs (fold (assign_request config rnd source) reqs \<lparr>as_status = ns, as_reqs = [], as_seed = seed\<rparr>))"
proof -
  have "tbl_ok (as_reqs s) \<Longrightarrow> tbl_ok (as_reqs (fold (assign_request config rnd source) reqs s))" for s
    by (induction reqs arbitrary: s) (simp_all add: assign_request_def Let_def case_prod_unfold)
  then show ?thesis by simp
qed

text \<open>
  C12. The Demeter scheduler does not overcommit: when the nodes other than the caller have at
  least as many free executors as the call has requests, no node is given more requests than it
  has free executors, and the caller itself is given none.
\<close>

theorem demeter_within_capacity:
  assumes "dm_enabled config" and "tbl_ok ns" and "[] \<notin> fst ` set ns"
    and "length (fc_requests call) \<le> capacity source ns"
    and "(ip, c) \<in> set (fst (demeter_schedule_function_call config rnd call source ns seed))"
  shows "int (length (fc_requests c)) \<le> max 0 (avail_of ns ip) \<and> (source \<noteq> [] \<and> ip = source \<longrightarrow> fc_requests c = [])"
proof -
  let ?init = "\<lparr>as_status = ns, as_reqs = [], as_seed = seed\<rparr>"
  let ?s = "fold (assign_request config rnd source) (fc_requests call) ?init"
  have out: "fst (demeter_schedule_function_call config rnd call source ns seed)
      = map (\<lambda>(node, reqs). (node, routed_call config call reqs)) (as_reqs ?s)"
    using assms(1,5) by (auto simp: demeter_schedule_function_call_def Let_def)
  obtain reqs where r: "(ip, reqs) \<in> set (as_reqs ?s)" "c = routed_call config call reqs"
    using assms(5) unfolding out by auto
  have len: "int (length (fc_requests c)) = load_of (as_reqs ?s) ip"
    using tget_eqI [OF assign_all_tbl_ok r(1), of "[]"] r(2) by (simp add: load_of_def routed_call_def)
  have "load_of (as_reqs ?s) ip + avail_of (as_status ?s) ip = avail_of ns ip
      \<and> min 0 (avail_of ns ip) \<le> avail_of (as_status ?s) ip
      \<and> (source \<noteq> [] \<and> ip = source \<longrightarrow> load_of (as_reqs ?s) ip = 0)"
    using assign_all_slots [of ?init "fc_requests call" source config rnd, unfolded Let_def, THEN spec, of ip] assms(2-4)
    by (simp add: load_of_def)
  then show ?thesis
    using len by auto
qed

theorem demeter_within_capacity_witness:
  "\<exists>c. (''10.0.0.2'', c) \<in> set (fst (demeter_schedule_function_call example_demeter (\<lambda>s. (0, s))
       (empty_call\<lparr>fc_requests := [empty_request\<lparr>fr_name := ''f''\<rparr>]\<rparr>) ''10.0.0.1''
       [(''10.0.0.1'', empty_node_status\<lparr>ns_avail_executors := 9\<rparr>), (''10.0.0.2'', empty_node_status\<lparr>ns_avail_executors := 1\<rparr>)] 0))
     \<and> int (length (fc_requests c)) \<le> 1"
proof -
  let ?ns = "[(''10.0.0.1'', empty_node_status\<lparr>ns_avail_executors := 9\<rparr>), (''10.0.0.2'', empty_node_status\<lparr>ns_avail_executors := 1\<rparr>)]"
  let ?call = "empty_call\<lparr>fc_requests := [empty_request\<lparr>fr_name := ''f''\<rparr>]\<rparr>"
  let ?out = "fst (demeter_schedule_function_call example_demeter (\<lambda>s. (0, s)) ?call ''10.0.0.1'' ?ns 0)"
  have en: "dm_enabled example_demeter"
    by (simp add: example_demeter_def load_demeter_scheduler_config_def demeter_config_init_def Let_def)
  have "?out = [(''10.0.0.2'', routed_call example_demeter ?call [empty_request\<lparr>fr_name := ''f''\<rparr>])]"
    using en by (simp add: demeter_schedule_function_call_def assign_request_def eligible_def Let_def tmod_def)
  then have mem: "(''10.0.0.2'', routed_call example_demeter ?call [empty_request\<lparr>fr_name := ''f''\<rparr>]) \<in> set ?out"
    by simp
  have "int (length (fc_requests (routed_call example_demeter ?call [empty_request\<lparr>fr_name := ''f''\<rparr>])))
      \<le> max 0 (avail_of ?ns ''10.0.0.2'')"
    using demeter_within_capacity [OF en _ _ _ mem]
    by (simp add: tbl_ok_def capacity_def eligible_def)
  then show ?thesis
    using mem by (auto simp: avail_of_def tget_def)
qed

end
