(* ===== verification/Coord_Call.thy ===== *)
theory Coord_Call
  imports Coord_Notify Demeter_Sched
begin

text \<open>
  The function-call handler of the coordinator (\<^verbatim>\<open>src/coordinator/func_call_handler.cpp\<close>): the
  Demeter scheduler when it is enabled, otherwise the batch scheduler for a call with several
  requests and the single-request scheduler. The round-robin loop of the batch scheduler has
  no bound of its own: it is a partial function, \<open>None\<close> standing for a loop that does not end,
  and the theorems show that it ends.
\<close>

section \<open>Batch scheduling\<close>

definition other_nodes :: "string \<Rightarrow> (string, node_status) table \<Rightarrow> (string, node_status) table" where
  "other_nodes source ns = filter (\<lambda>p. \<not> (source \<noteq> [] \<and> source = fst p)) ns"

definition avail_nodes :: "string \<Rightarrow> (string, node_status) table \<Rightarrow> (string \<times> int) list" where
  "avail_nodes source ns =
     map (\<lambda>p. (fst p, ns_avail_executors (snd p))) (filter (\<lambda>p. ns_avail_executors (snd p) > 0) (other_nodes source ns))"

text \<open>\<open>while (avail_nodes[node_idx].second <= 0) node_idx = (node_idx + 1) % avail_nodes.size()\<close>.\<close>

partial_function (option) skip_full :: "int list \<Rightarrow> nat \<Rightarrow> nat option" where
  "skip_full avail idx =
     (if avail ! idx \<le> 0 then skip_full avail ((idx + 1) mod length avail) else Some idx)"

declare skip_full.simps [code]

fun place_requests :: "nat \<Rightarrow> int list \<Rightarrow> nat list \<Rightarrow> nat \<Rightarrow> nat list option" where
  "place_requests 0 avail loads idx = Some loads"
| "place_requests (Suc k) avail loads idx =
     (case skip_full avail idx of
        None \<Rightarrow> None
      | Some i \<Rightarrow> place_requests k (avail[i := avail ! i - 1]) (loads[i := loads ! i + 1]) ((i + 1) mod length avail))"

text \<open>
  Cutting the requests into one call per node: the current part is sent to the current node
  when it has as many requests as the node's load.
\<close>

fun split_batch ::
  "function_call \<Rightarrow> string list \<Rightarrow> nat list \<Rightarrow> function_request list \<Rightarrow> nat \<Rightarrow> function_request list \<Rightarrow>
     (string, function_call) table \<Rightarrow> cpp_error + (string, function_call) table" where
  "split_batch tmpl names loads [] idx part out = Inr out"
| "split_batch tmpl names loads (r # rs) idx part out =
     bindE (nth_or VectorIndex loads idx) (\<lambda>l.
       if length part + 1 = l
       then split_batch tmpl names loads rs (idx + 1) [] (tput (names ! idx) (tmpl\<lparr>fc_requests := part @ [r]\<rparr>) out)
       else split_batch tmpl names loads rs idx (part @ [r]) out)"

text \<open>The calls routed by the batch scheduler; an empty table when no executors are left.\<close>

definition batch_schedule ::
  "function_call \<Rightarrow> (string, node_status) table \<Rightarrow> (cpp_error + (string, function_call) table) option" where
  "batch_schedule call ns =
     (let source = fc_source call; reqs = fc_requests call; req_num = length reqs;
          nodes = avail_nodes source ns; total = sum_list (map snd nodes);
          (mx, node) = pick_max (other_nodes source ns) (0, [])
      in if mx \<ge> int req_num then Some (Inr [(node, call)])
         else if total \<ge> int req_num
         then (case place_requests req_num (map snd nodes) (replicate (length nodes) 0) 0 of
                 None \<Rightarrow> None
               | Some loads \<Rightarrow>
                   Some (split_batch (empty_call\<lparr>fc_app_name := fc_app_name call,
                            fc_resp_address := fc_resp_address call, fc_sync_data_status := True\<rparr>)
                          (map fst nodes) loads reqs 0 [] []))
         else Some (Inr []))"

section \<open>Single requests\<close>

text \<open>Without a free executor the call goes to a random node, the caller included.\<close>

definition single_schedule ::
  "rand_fn \<Rightarrow> function_call \<Rightarrow> (string, node_status) table \<Rightarrow> u32 \<Rightarrow> (string, function_call) table \<times> u32" where
  "single_schedule rnd call ns seed =
     (let (mx, node) = pick_max (other_nodes (fc_source call) ns) (0, [])
      in if mx > 0 then ([(node, call)], seed)
         else if ns \<noteq> [] then (let (n, seed') = random_node rnd seed ns in ([(n, call)], seed'))
         else ([], seed))"

section \<open>The handler\<close>

fun push_calls ::
  "coord_config \<Rightarrow> rand_fn \<Rightarrow> (string, function_call) table \<Rightarrow> u32 \<Rightarrow> cpp_error + ('w pushed \<times> u32)" where
  "push_calls cfg rnd [] seed = Inr ([], seed)"
| "push_calls cfg rnd ((node, call) # rest) seed =
     bindE (exec_address cfg rnd node seed) (\<lambda>(addr, seed1).
     bindE (push_calls cfg rnd rest seed1) (\<lambda>(out, seed2). Inr ((addr, OutCall call) # out, seed2)))"

definition reply_no_worker :: "function_call \<Rightarrow> 'w pushed" where
  "reply_no_worker call =
     (if fc_resp_address call \<noteq> []
      then [(fc_resp_address call, OutCallResponse \<lparr>fcr_app_name = fc_app_name call, fcr_request_id = fc_request_id call,
                                     fcr_output = [], fcr_error_no = 1\<rparr>)]
      else [])"

definition with_session :: "rand_fn \<Rightarrow> function_call \<Rightarrow> u32 \<Rightarrow> function_call \<times> u32" where
  "with_session rnd call seed =
     (if fc_session_id call = [] then (let (s, seed') = gen_random rnd seed 16 in (call\<lparr>fc_session_id := s\<rparr>, seed'))
      else (call, seed))"

definition func_call_handler ::
  "coord_config \<Rightarrow> demeter_config \<Rightarrow> rand_fn \<Rightarrow> function_call \<Rightarrow> coord_state \<Rightarrow>
     (cpp_error + (coord_state \<times> 'w pushed)) option" where
  "func_call_handler cfg demeter rnd call0 st =
     (let (call, seed1) = with_session rnd call0 (coord_seed st);
          (routed, ns, seed2) = (if dm_enabled demeter
             then demeter_schedule_function_call demeter rnd call (fc_source call) (node_status_map st) seed1
             else ([], node_status_map st, seed1));
          finish = (\<lambda>routed seed.
             if routed = [] then Inr (st\<lparr>node_status_map := ns, coord_seed := seed\<rparr>, reply_no_worker call)
             else bindE (push_calls cfg rnd routed seed) (\<lambda>(out, seed'). Inr (st\<lparr>node_status_map := ns, coord_seed := seed'\<rparr>, out)))
      in if routed \<noteq> [] then Some (finish routed seed2)
         else if length (fc_requests call) > 1
         then map_option (\<lambda>res. bindE res (\<lambda>routed. finish routed seed2)) (batch_schedule call ns)
         else (let (routed, seed3) = single_schedule rnd call ns seed2 in Some (finish routed seed3)))"

section \<open>The round-robin placement\<close>

lemma skip_full_ends:
  assumes "length avail = n" and "0 < n" and "idx < n" and "0 < avail ! ((idx + d) mod n)"
  shows "\<exists>i < n. skip_full avail idx = Some i \<and> 0 < avail ! i"
  using assms(3,4)
proof (induction d arbitrary: idx)
  case 0
  then show ?case by (subst skip_full.simps) (auto intro: exI [of _ idx])
next
  case (Suc d)
  show ?case
  proof (cases "avail ! idx \<le> 0")
    case True
    have "((idx + 1) mod n + d) mod n = (idx + Suc d) mod n"
      by (simp add: mod_add_left_eq)
    then show ?thesis
      using Suc.IH [of "(idx + 1) mod n"] Suc.prems(2) assms(1,2) True by (subst skip_full.simps) auto
  next
    case False
    then show ?thesis using Suc.prems(1) by (subst skip_full.simps) auto
  qed
qed

lemma skip_full_here: "0 < avail ! idx \<Longrightarrow> skip_full avail idx = Some idx"
  by (subst skip_full.simps) simp

lemma skip_full_any:
  assumes "length avail = n" and "idx < n" and "\<exists>j < n. 0 < avail ! j"
  shows "\<exists>i < n. skip_full avail idx = Some i \<and> 0 < avail ! i"
proof -
  obtain j where j: "j < n" "0 < avail ! j" using assms(3) by blast
  have "(idx + (j + n - idx)) mod n = j"
    using j(1) assms(2) by simp
  then show ?thesis
    using skip_full_ends [of avail n idx "j + n - idx"] assms(1,2) j by simp
qed

lemma sum_list_pos_elem: "0 < sum_list (xs :: int list) \<Longrightarrow> \<exists>j < length xs. 0 < xs ! j"
  by (metis in_set_conv_nth leD leI sum_list_nonpos)

lemma sum_list_update_int: "i < length xs \<Longrightarrow> sum_list (xs[i := v]) = sum_list xs + v - (xs ! i :: int)"
  by (induction xs arbitrary: i) (auto split: nat.splits)

text \<open>Loads are filled from the front: no node without load precedes a node with load.\<close>

definition front_filled :: "nat list \<Rightarrow> bool" where
  "front_filled loads \<longleftrightarrow> (\<forall>i j. i < j \<and> j < length loads \<and> 0 < loads ! j \<longrightarrow> 0 < loads ! i)"

text \<open>
  During the first pass the loads are ones followed by zeros and the nodes ahead are untouched;
  afterwards every load is positive.
\<close>

definition rr_inv :: "int list \<Rightarrow> nat list \<Rightarrow> nat \<Rightarrow> bool" where
  "rr_inv avail loads idx \<longleftrightarrow>
     (\<forall>i < length loads. 0 < loads ! i)
     \<or> (\<forall>i < length loads. (0 < loads ! i) = (i < idx)) \<and> (\<forall>i. idx \<le> i \<and> i < length loads \<longrightarrow> 0 < avail ! i)"

lemma rr_inv_front: "rr_inv avail loads idx \<Longrightarrow> front_filled loads"
  by (force simp: rr_inv_def front_filled_def)

lemma rr_inv_step:
  assumes "rr_inv avail loads idx" and "length avail = length loads" and "idx < length loads"
    and "skip_full avail idx = Some i" and "i < length loads"
  shows "rr_inv (avail[i := avail ! i - 1]) (loads[i := loads ! i + 1]) ((i + 1) mod length avail)"
proof (cases "\<forall>i < length loads. 0 < loads ! i")
  case True
  then show ?thesis using assms(5) by (simp add: rr_inv_def nth_list_update)
next
  case False
  then have a: "\<forall>i < length loads. (0 < loads ! i) = (i < idx)" "\<forall>i. idx \<le> i \<and> i < length loads \<longrightarrow> 0 < avail ! i"
    using assms(1) unfolding rr_inv_def by blast+
  then have i: "i = idx" using skip_full_here [of avail idx] assms(3,4) by simp
  show ?thesis
  proof (cases "idx + 1 < length loads")
    case True
    then show ?thesis using a assms(2) i by (auto simp: rr_inv_def nth_list_update)
  next
    case False
    then show ?thesis using a assms(2,3) i by (auto simp: rr_inv_def nth_list_update)
  qed
qed

lemma place_requests_ok:
  "length avail = length loads \<Longrightarrow> idx < length loads \<Longrightarrow> \<forall>i < length avail. 0 \<le> avail ! i \<Longrightarrow> rr_inv avail loads idx \<Longrightarrow>
   int k \<le> sum_list avail \<Longrightarrow>
   \<exists>loads'. place_requests k avail loads idx = Some loads' \<and> length loads' = length loads \<and> front_filled loads'
     \<and> sum_list loads' = sum_list loads + k
     \<and> (\<forall>i < length loads. int (loads' ! i) \<le> int (loads ! i) + avail ! i)"
proof (induction k arbitrary: avail loads idx)
  case 0
  then show ?case using rr_inv_front by auto
next
  case (Suc k)
  obtain i where i: "i < length loads" "skip_full avail idx = Some i" "0 < avail ! i"
    using skip_full_any [of avail "length loads" idx] sum_list_pos_elem [of avail] Suc.prems by auto
  let ?a = "avail[i := avail ! i - 1]" and ?l = "loads[i := loads ! i + 1]"
  have "\<exists>loads'. place_requests k ?a ?l ((i + 1) mod length avail) = Some loads' \<and> length loads' = length ?l
     \<and> front_filled loads' \<and> sum_list loads' = sum_list ?l + k \<and> (\<forall>j < length ?l. int (loads' ! j) \<le> int (?l ! j) + ?a ! j)"
  proof (rule Suc.IH)
    show "length ?a = length ?l" using Suc.prems(1) by simp
    show "(i + 1) mod length avail < length ?l"
      using Suc.prems(1) mod_less_divisor [of "length avail" "i + 1"] i(1) by (metis gr_implies_not0 length_list_update neq0_conv)
    show "\<forall>j < length ?a. 0 \<le> ?a ! j" using Suc.prems(1,3) i by (simp add: nth_list_update)
    show "rr_inv ?a ?l ((i + 1) mod length avail)" by (rule rr_inv_step [OF Suc.prems(4,1,2) i(2,1)])
    show "int k \<le> sum_list ?a" using Suc.prems(1,5) i(1) by (simp add: sum_list_update_int)
  qed
  moreover have "sum_list ?l = sum_list loads + 1"
    using i(1) by (simp add: sum_list_update)
  moreover have "int (?l ! j) + ?a ! j = int (loads ! j) + avail ! j" if "j < length loads" for j
    using i(1) that Suc.prems(1) by (simp add: nth_list_update)
  ultimately show ?case using i(2) by fastforce
qed

section \<open>Cutting the batch\<close>

lemma split_batch_chunk:
  assumes "idx < length loads" and "length part + length chunk = loads ! idx" and "chunk \<noteq> []"
  shows "split_batch tmpl names loads (chunk @ rest) idx part out
       = split_batch tmpl names loads rest (idx + 1) [] (tput (names ! idx) (tmpl\<lparr>fc_requests := part @ chunk\<rparr>) out)"
  using assms(2,3)
proof (induction chunk arbitrary: part)
  case Nil
  then show ?case by simp
next
  case (Cons r chunk)
  show ?case
  proof (cases "chunk = []")
    case True
    then show ?thesis using Cons.prems assms(1) by (simp add: nth_or_def)
  next
    case False
    then have "length part + 1 \<noteq> loads ! idx" using Cons.prems by (cases chunk) auto
    then show ?thesis using Cons.IH [of "part @ [r]"] Cons.prems False assms(1) by (simp add: nth_or_def)
  qed
qed

lemma front_filled_drop: "front_filled loads \<Longrightarrow> idx < length loads \<Longrightarrow> loads ! idx = 0 \<Longrightarrow> sum_list (drop idx loads) = 0"
  by (auto simp: front_filled_def sum_list_eq_0_iff in_set_conv_nth) (metis add.commute le_add2 le_neq_implies_less less_diff_conv neq0_conv)

lemma split_batch_ok:
  assumes "length names = length loads" and "distinct names" and "front_filled loads"
  shows "idx \<le> length loads \<Longrightarrow> sum_list (drop idx loads) = length reqs \<Longrightarrow>
    \<forall>i < length loads. idx \<le> i \<longrightarrow> \<not> thas out (names ! i) \<Longrightarrow>
    \<exists>new. split_batch tmpl names loads reqs idx [] out = Inr (out @ new)
      \<and> concat (map (\<lambda>p. fc_requests (snd p)) new) = reqs
      \<and> (\<forall>p \<in> set new. \<exists>i < length loads. fst p = names ! i \<and> length (fc_requests (snd p)) = loads ! i
            \<and> snd p = tmpl\<lparr>fc_requests := fc_requests (snd p)\<rparr>)"
proof (induction "length loads - idx" arbitrary: idx reqs out)
  case 0
  then show ?case by simp
next
  case (Suc d)
  then have lt: "idx < length loads" by simp
  show ?case
  proof (cases "loads ! idx = 0")
    case True
    then have "reqs = []" using front_filled_drop [OF assms(3) lt] Suc.prems(2) by simp
    then show ?thesis by simp
  next
    case False
    let ?l = "loads ! idx"
    let ?chunk = "take ?l reqs" and ?rest = "drop ?l reqs" and ?n = "names ! idx"
    have dr: "drop idx loads = ?l # drop (Suc idx) loads" using lt by (simp add: Cons_nth_drop_Suc)
    then have len: "?l \<le> length reqs" "sum_list (drop (Suc idx) loads) = length ?rest"
      using Suc.prems(2) by simp_all
    then have ch: "length ?chunk = ?l" "?chunk \<noteq> []" using False by auto
    let ?c = "tmpl\<lparr>fc_requests := ?chunk\<rparr>"
    have step: "split_batch tmpl names loads reqs idx [] out
        = split_batch tmpl names loads ?rest (Suc idx) [] (out @ [(?n, ?c)])"
      using split_batch_chunk [OF lt, of "[]" ?chunk tmpl names ?rest out] ch Suc.prems(3) lt
      by (simp add: tput_fresh)
    have fresh: "\<forall>i < length loads. Suc idx \<le> i \<longrightarrow> \<not> thas (out @ [(?n, ?c)]) (names ! i)"
      using Suc.prems(3) assms(1,2) lt by (auto simp: thas_iff_key nth_eq_iff_index_eq)
    obtain new where new: "split_batch tmpl names loads ?rest (Suc idx) [] (out @ [(?n, ?c)]) = Inr ((out @ [(?n, ?c)]) @ new)"
      "concat (map (\<lambda>p. fc_requests (snd p)) new) = ?rest"
      "\<forall>p \<in> set new. \<exists>i < length loads. fst p = names ! i \<and> length (fc_requests (snd p)) = loads ! i
            \<and> snd p = tmpl\<lparr>fc_requests := fc_requests (snd p)\<rparr>"
      using Suc.hyps(1) [OF _ _ len(2) fresh] Suc_diff_Suc [OF lt] Suc.hyps(2) lt by (metis Suc_inject Suc_leI)
    show ?thesis
    proof (intro exI [of _ "(?n, ?c) # new"] conjI)
      show "split_batch tmpl names loads reqs idx [] out = Inr (out @ (?n, ?c) # new)"
        using step new(1) by simp
      show "concat (map (\<lambda>p. fc_requests (snd p)) ((?n, ?c) # new)) = reqs"
        using new(2) by simp
      show "\<forall>p \<in> set ((?n, ?c) # new). \<exists>i < length loads. fst p = names ! i \<and> length (fc_requests (snd p)) = loads ! i
            \<and> snd p = tmpl\<lparr>fc_requests := fc_requests (snd p)\<rparr>"
        using new(3) lt len(1) by auto
    qed
  qed
qed

section \<open>Properties of the batch scheduler\<close>

lemma pick_max_bound:
  "pick_max ps acc = (mx, n) \<Longrightarrow> fst acc \<le> mx \<and> (\<forall>p \<in> set ps. ns_avail_executors (snd p) \<le> mx)
     \<and> ((mx, n) = acc \<or> (\<exists>p \<in> set ps. n = fst p \<and> mx = ns_avail_executors (snd p) \<and> fst acc < mx))"
proof (induction ps arbitrary: acc)
  case Nil
  then show ?case by auto
next
  case (Cons p ps)
  obtain ip s where p: "p = (ip, s)" by (cases p)
  show ?case
  proof (cases "ns_avail_executors s > fst acc")
    case True
    then have "pick_max ps (ns_avail_executors s, ip) = (mx, n)" using Cons.prems p by simp
    from Cons.IH [OF this] True show ?thesis by (auto simp: p)
  next
    case False
    then have "pick_max ps acc = (mx, n)" using Cons.prems p by simp
    from Cons.IH [OF this] False show ?thesis by (auto simp: p)
  qed
qed

lemma avail_nodes_facts:
  assumes "tbl_ok ns"
  shows "distinct (map fst (avail_nodes source ns))"
    and "p \<in> set (avail_nodes source ns) \<Longrightarrow> 0 < snd p \<and> avail_of ns (fst p) = snd p \<and> \<not> (source \<noteq> [] \<and> fst p = source)"
proof -
  have "distinct (map fst (filter P ns))" for P
    using assms by (simp add: tbl_ok_def distinct_map_filter)
  then show "distinct (map fst (avail_nodes source ns))"
    by (simp add: avail_nodes_def other_nodes_def comp_def)
  assume "p \<in> set (avail_nodes source ns)"
  then show "0 < snd p \<and> avail_of ns (fst p) = snd p \<and> \<not> (source \<noteq> [] \<and> fst p = source)"
    using assms avail_of_entry [OF assms] by (fastforce simp: avail_nodes_def other_nodes_def)
qed

text \<open>A routed call that the batch scheduler may produce for a node.\<close>

definition batch_route_ok :: "function_call \<Rightarrow> (string, node_status) table \<Rightarrow> string \<times> function_call \<Rightarrow> bool" where
  "batch_route_ok call ns p \<longleftrightarrow>
     \<not> (fc_source call \<noteq> [] \<and> fst p = fc_source call) \<and> int (length (fc_requests (snd p))) \<le> avail_of ns (fst p)
     \<and> fc_app_name (snd p) = fc_app_name call \<and> fc_resp_address (snd p) = fc_resp_address call"

lemma batch_split_ok:
  assumes "tbl_ok ns" and "fc_requests call \<noteq> []"
    and "int (length (fc_requests call)) \<le> sum_list (map snd (avail_nodes (fc_source call) ns))"
  shows "\<exists>loads out. place_requests (length (fc_requests call)) (map snd (avail_nodes (fc_source call) ns))
        (replicate (length (avail_nodes (fc_source call) ns)) 0) 0 = Some loads
     \<and> split_batch (empty_call\<lparr>fc_app_name := fc_app_name call, fc_resp_address := fc_resp_address call, fc_sync_data_status := True\<rparr>)
          (map fst (avail_nodes (fc_source call) ns)) loads (fc_requests call) 0 [] [] = Inr out
     \<and> concat (map (\<lambda>p. fc_requests (snd p)) out) = fc_requests call \<and> (\<forall>p \<in> set out. batch_route_ok call ns p)"
proof -
  let ?nodes = "avail_nodes (fc_source call) ns" and ?reqs = "fc_requests call"
  let ?tmpl = "empty_call\<lparr>fc_app_name := fc_app_name call, fc_resp_address := fc_resp_address call, fc_sync_data_status := True\<rparr>"
  have nz: "?nodes \<noteq> []" using assms(2,3) by auto
  have pos: "0 < map snd ?nodes ! i" if "i < length ?nodes" for i
    using avail_nodes_facts(2) [OF assms(1) nth_mem [OF that]] that by simp
  obtain loads where l: "place_requests (length ?reqs) (map snd ?nodes) (replicate (length ?nodes) 0) 0 = Some loads"
      "length loads = length ?nodes" "front_filled loads" "sum_list loads = length ?reqs"
      "\<And>i. i < length ?nodes \<Longrightarrow> int (loads ! i) \<le> snd (?nodes ! i)"
    using place_requests_ok [of "map snd ?nodes" "replicate (length ?nodes) 0" 0 "length ?reqs"] nz pos assms(3)
    by (auto simp: rr_inv_def less_imp_le)
  obtain out where out: "split_batch ?tmpl (map fst ?nodes) loads ?reqs 0 [] [] = Inr out"
      "concat (map (\<lambda>p. fc_requests (snd p)) out) = ?reqs"
      "\<forall>p \<in> set out. \<exists>i < length loads. fst p = map fst ?nodes ! i \<and> length (fc_requests (snd p)) = loads ! i
            \<and> snd p = ?tmpl\<lparr>fc_requests := fc_requests (snd p)\<rparr>"
    using split_batch_ok [of "map fst ?nodes" loads 0 ?reqs "[]" ?tmpl] l(2-4) avail_nodes_facts(1) [OF assms(1)] by auto
  have "batch_route_ok call ns p" if p: "p \<in> set out" for p
  proof -
    obtain i where i: "i < length ?nodes" "fst p = fst (?nodes ! i)" "length (fc_requests (snd p)) = loads ! i"
        "snd p = ?tmpl\<lparr>fc_requests := fc_requests (snd p)\<rparr>"
      using out(3) p l(2) by fastforce
    have "fc_app_name (snd p) = fc_app_name call" "fc_resp_address (snd p) = fc_resp_address call"
      using arg_cong [OF i(4), of fc_app_name] arg_cong [OF i(4), of fc_resp_address] by simp_all
    then show ?thesis
      using avail_nodes_facts(2) [OF assms(1) nth_mem [OF i(1)]] i(1-3) l(5) [OF i(1)] by (simp add: batch_route_ok_def)
  qed
  then show ?thesis using l(1) out(1,2) by blast
qed

text \<open>
  C26. The batch scheduler always ends, and when the nodes other than the caller have enough free
  executors for the whole batch it distributes the batch completely: the requests of the routed
  calls, concatenated, are the requests of the call in their order; no node is given more than
  its free executors, and the caller is given none. With too few executors nothing is routed.
\<close>

theorem batch_distributes_all:
  assumes "tbl_ok ns" and "1 < length (fc_requests call)"
  shows "\<exists>out. batch_schedule call ns = Some (Inr out)
     \<and> (if capacity (fc_source call) ns \<ge> length (fc_requests call)
        then concat (map (\<lambda>p. fc_requests (snd p)) out) = fc_requests call \<and> (\<forall>p \<in> set out. batch_route_ok call ns p)
        else out = [])"
proof -
  let ?src = "fc_source call" and ?reqs = "fc_requests call"
  have cap: "int (capacity ?src ns) = sum_list (map snd (avail_nodes ?src ns))"
    by (induction ns) (auto simp: capacity_def avail_nodes_def other_nodes_def eligible_def)
  obtain mx node where pm: "pick_max (other_nodes ?src ns) (0, []) = (mx, node)" by fastforce
  note pmf = pick_max_bound [OF pm]
  show ?thesis
  proof (cases "mx \<ge> int (length ?reqs)")
    case True
    then obtain p where p: "p \<in> set (other_nodes ?src ns)" "node = fst p" "mx = ns_avail_executors (snd p)"
      using pmf assms(2) by force
    then have e: "p \<in> set ns" "eligible ?src p" "mx = avail_of ns node"
      using True assms avail_of_entry [OF assms(1), of p] by (auto simp: other_nodes_def eligible_def)
    have "ns_avail_executors (snd p) \<le> int (capacity ?src ns)"
      using member_le_sum_list [of "nat (ns_avail_executors (snd p))"
          "map (\<lambda>p. if eligible ?src p then nat (ns_avail_executors (snd p)) else 0) ns"] e(1,2)
      by (force simp: capacity_def)
    then show ?thesis
      using True p e by (auto simp: batch_schedule_def pm batch_route_ok_def eligible_def)
  next
    case False
    show ?thesis
    proof (cases "int (length ?reqs) \<le> sum_list (map snd (avail_nodes ?src ns))")
      case True
      have "?reqs \<noteq> []" using assms(2) by auto
      from batch_split_ok [OF assms(1) this True] False True cap show ?thesis
        by (auto simp: batch_schedule_def pm)
    next
      case False
      then show ?thesis using \<open>\<not> mx \<ge> int (length ?reqs)\<close> cap by (auto simp: batch_schedule_def pm)
    qed
  qed
qed

theorem batch_distributes_all_witness:
  "\<exists>out. batch_schedule (empty_call\<lparr>fc_requests := [empty_request, empty_request, empty_request]\<rparr>)
       [(''10.0.0.1'', empty_node_status\<lparr>ns_avail_executors := 1\<rparr>), (''10.0.0.2'', empty_node_status\<lparr>ns_avail_executors := 2\<rparr>)]
     = Some (Inr out) \<and> concat (map (\<lambda>p. fc_requests (snd p)) out) = [empty_request, empty_request, empty_request]"
  using batch_distributes_all [of "[(''10.0.0.1'', empty_node_status\<lparr>ns_avail_executors := 1\<rparr>),
      (''10.0.0.2'', empty_node_status\<lparr>ns_avail_executors := 2\<rparr>)]" "empty_call\<lparr>fc_requests := [empty_request, empty_request, empty_request]\<rparr>"]
  by (auto simp: tbl_ok_def capacity_def eligible_def empty_call_def)

section \<open>The handler returns\<close>

lemma push_calls_ok:
  "cc_io_thread_num cfg > 0 \<Longrightarrow>
     \<exists>(out :: 'w pushed) seed'. push_calls cfg rnd routed seed = Inr (out, seed')
       \<and> map snd out = map (\<lambda>p. OutCall (snd p)) routed"
proof (induction routed arbitrary: seed)
  case Nil
  then show ?case by simp
next
  case (Cons p routed)
  obtain node call where p: "p = (node, call)" by (cases p)
  obtain addr seed1 where a: "exec_address cfg rnd node seed = Inr (addr, seed1)"
    using Cons.prems by (cases "rnd seed") (simp add: exec_address_def)
  obtain out :: "'w pushed" and seed2 where "push_calls cfg rnd routed seed1 = Inr (out, seed2)"
      "map snd out = map (\<lambda>p. OutCall (snd p)) routed"
    using Cons.IH [OF Cons.prems, of seed1] by blast
  then show ?case by (simp add: p a)
qed

lemma with_session_sel:
  "fc_requests (fst (with_session rnd call seed)) = fc_requests call" "fc_source (fst (with_session rnd call seed)) = fc_source call"
  "fc_resp_address (fst (with_session rnd call seed)) = fc_resp_address call"
  by (simp_all add: with_session_def case_prod_unfold Let_def)

lemma take_slot_tbl: "tbl_ok ns \<Longrightarrow> tbl_ok (fst (snd (demeter_schedule_function_call config rnd call source ns seed)))"
proof -
  have "tbl_ok (as_status s) \<Longrightarrow> tbl_ok (as_status (fold (assign_request config rnd source) reqs s))" for s reqs
    by (induction reqs arbitrary: s) (simp_all add: assign_request_def Let_def case_prod_unfold tbl_ok_take_slot)
  then show "tbl_ok ns \<Longrightarrow> ?thesis"
    by (simp add: demeter_schedule_function_call_def Let_def)
qed

text \<open>What happens once the calls are routed: the state keeps everything but the node table and the seed.\<close>

lemma finish_ok:
  assumes "cc_io_thread_num cfg > 0"
  shows "\<exists>seed' (out :: 'w pushed). (if routed = [] then Inr (st\<lparr>node_status_map := ns, coord_seed := seed\<rparr>, reply_no_worker call)
     else bindE (push_calls cfg rnd routed seed) (\<lambda>(out, seed'). Inr (st\<lparr>node_status_map := ns, coord_seed := seed'\<rparr>, out)))
     = Inr (st\<lparr>node_status_map := ns, coord_seed := seed'\<rparr>, out)
     \<and> (if routed = [] then out = reply_no_worker call else map snd out = map (\<lambda>p. OutCall (snd p)) routed)"
proof -
  obtain seed' and out :: "'w pushed" where "push_calls cfg rnd routed seed = Inr (out, seed')"
      "map snd out = map (\<lambda>p. OutCall (snd p)) routed"
    using push_calls_ok [OF assms] by blast
  then show ?thesis by (cases "routed = []") auto
qed

lemma func_call_result:
  fixes st :: coord_state
  assumes "cc_io_thread_num cfg > 0" and "tbl_ok (node_status_map st)"
  shows "\<exists>ns seed (out :: 'w pushed).
     func_call_handler cfg demeter rnd call st = Some (Inr (st\<lparr>node_status_map := ns, coord_seed := seed\<rparr>, out))
     \<and> tbl_ok ns
     \<and> (\<exists>routed :: (string, function_call) table. if routed = [] then out = reply_no_worker (fst (with_session rnd call (coord_seed st)))
           else map snd out = map (\<lambda>p. OutCall (snd p)) routed)"
proof -
  obtain call1 seed1 where c: "with_session rnd call (coord_seed st) = (call1, seed1)" by fastforce
  obtain routed ns seed2 where d: "(if dm_enabled demeter
      then demeter_schedule_function_call demeter rnd call1 (fc_source call1) (node_status_map st) seed1
      else ([], node_status_map st, seed1)) = (routed, ns, seed2)"
    by (metis prod_cases3)
  have ns: "tbl_ok ns"
    using take_slot_tbl [OF assms(2), of demeter rnd call1 "fc_source call1" seed1] d assms(2) by (auto split: if_splits)
  let ?fin = "\<lambda>routed seed. if routed = [] then Inr (st\<lparr>node_status_map := ns, coord_seed := seed\<rparr>, reply_no_worker call1)
     else bindE (push_calls cfg rnd routed seed) (\<lambda>(out :: 'w pushed, seed'). Inr (st\<lparr>node_status_map := ns, coord_seed := seed'\<rparr>, out))"
  have "\<exists>routed' seed3. func_call_handler cfg demeter rnd call st = Some (?fin routed' seed3)"
  proof (cases "routed = [] \<and> 1 < length (fc_requests call1)")
    case True
    obtain out where "batch_schedule call1 ns = Some (Inr out)"
      using batch_distributes_all [OF ns] True by blast
    then show ?thesis
      unfolding func_call_handler_def using True by (auto simp: c d Let_def)
  next
    case False
    obtain r s where "single_schedule rnd call1 ns seed2 = (r, s)" by fastforce
    then show ?thesis
      unfolding func_call_handler_def using False by (cases "routed = []") (auto simp: c d Let_def)
  qed
  then obtain routed' seed3 where r: "func_call_handler cfg demeter rnd call st = Some (?fin routed' seed3)" by blast
  obtain seed' and out :: "'w pushed" where f: "?fin routed' seed3 = Inr (st\<lparr>node_status_map := ns, coord_seed := seed'\<rparr>, out)"
      "if routed' = [] then out = reply_no_worker call1 else map snd out = map (\<lambda>p. OutCall (snd p)) routed'"
    using finish_ok [OF assms(1), where routed = routed' and st = st and ns = ns and seed = seed3 and call = call1 and rnd = rnd]
    by blast
  have "func_call_handler cfg demeter rnd call st = Some (Inr (st\<lparr>node_status_map := ns, coord_seed := seed'\<rparr>, out))"
    using r f(1) by simp
  moreover have "if routed' = [] then out = reply_no_worker (fst (with_session rnd call (coord_seed st)))
      else map snd out = map (\<lambda>p. OutCall (snd p)) routed'"
    using f(2) c by simp
  ultimately show ?thesis using ns by blast
qed

text \<open>
  C32. The function-call handler always returns: its loops end, it raises nothing when there is at
  least one I/O thread, it changes nothing but the node table and the seed, and it sends something
  when the caller gave a response address: a call is either routed or refused to the client.
\<close>

theorem func_call_handler_returns:
  fixes st :: coord_state
  assumes "cc_io_thread_num cfg > 0" and "tbl_ok (node_status_map st)"
  shows "\<exists>ns seed (out :: 'w pushed).
     func_call_handler cfg demeter rnd call st = Some (Inr (st\<lparr>node_status_map := ns, coord_seed := seed\<rparr>, out))
     \<and> (fc_resp_address call \<noteq> [] \<longrightarrow> out \<noteq> [])"
proof -
  obtain ns seed and routed :: "(string, function_call) table" and out :: "'w pushed" where
    r: "func_call_handler cfg demeter rnd call st = Some (Inr (st\<lparr>node_status_map := ns, coord_seed := seed\<rparr>, out))"
       "if routed = [] then out = reply_no_worker (fst (with_session rnd call (coord_seed st)))
        else map snd out = map (\<lambda>p. OutCall (snd p)) routed"
    using func_call_result [OF assms] by blast
  then have "fc_resp_address call \<noteq> [] \<longrightarrow> out \<noteq> []"
    using with_session_sel(3) [of rnd call "coord_seed st"] by (auto simp: reply_no_worker_def split: if_splits)
  then show ?thesis using r(1) by blast
qed

theorem func_call_handler_returns_witness:
  "\<exists>ns seed (out :: prim_wire pushed).
     func_call_handler \<lparr>cc_private_ip = ''10.0.0.9'', cc_thread_id = 0, cc_io_thread_num = 1\<rparr> example_demeter (\<lambda>s. (0, s))
       (empty_call\<lparr>fc_resp_address := ''tcp://c:1''\<rparr>) (coord_init 0)
     = Some (Inr ((coord_init 0)\<lparr>node_status_map := ns, coord_seed := seed\<rparr>, out)) \<and> out \<noteq> []"
  using func_call_handler_returns [of "\<lparr>cc_private_ip = ''10.0.0.9'', cc_thread_id = 0, cc_io_thread_num = 1\<rparr>" "coord_init 0"
      example_demeter "\<lambda>s. (0, s)" "empty_call\<lparr>fc_resp_address := ''tcp://c:1''\<rparr>"]
  by (auto simp: coord_init_def)

end
