(* ===== verification/Coord_Server.thy ===== *)
theory Coord_Server
  imports Coord_Inv Coord_Call
begin

text \<open>
  The event loop of a coordinator thread (\<^verbatim>\<open>src/coordinator/coordinator.cpp\<close>, \<open>run\<close>): one round
  handles at most one message of each socket, in the order of the poll items. The handlers
  form the step relation whose reachable states satisfy the invariant of \<open>Coord_Inv\<close>; the
  properties at the end are about whole runs.
\<close>

section \<open>Events and rounds\<close>

datatype 'w coord_event =
    EvNotify key_notify_request
  | EvQuery key_query_request
  | EvBucketOp bucket_operation_request
  | EvTriggerOp "'w trigger_operation_request"
  | EvStatus update_status_message
  | EvFuncCreate string
  | EvAppRegister app_registration
  | EvFuncCall function_call
  | EvForward function_call

record 'w coord_poll =
  po_notify :: "key_notify_request option"
  po_query :: "key_query_request option"
  po_bucket_op :: "bucket_operation_request option"
  po_trigger_op :: "'w trigger_operation_request option"
  po_status :: "update_status_message option"
  po_func_create :: "string option"
  po_app_register :: "app_registration option"
  po_func_call :: "function_call option"
  po_forward :: "function_call option"

definition opt_event :: "('a \<Rightarrow> 'e) \<Rightarrow> 'a option \<Rightarrow> 'e list" where
  "opt_event f x = (case x of Some v \<Rightarrow> [f v] | None \<Rightarrow> [])"

definition poll_events :: "'w coord_poll \<Rightarrow> 'w coord_event list" where
  "poll_events p =
     opt_event EvNotify (po_notify p) @ opt_event EvQuery (po_query p) @ opt_event EvBucketOp (po_bucket_op p)
     @ opt_event EvTriggerOp (po_trigger_op p) @ opt_event EvStatus (po_status p) @ opt_event EvFuncCreate (po_func_create p)
     @ opt_event EvAppRegister (po_app_register p) @ opt_event EvFuncCall (po_func_call p) @ opt_event EvForward (po_forward p)"

text \<open>The configuration of a thread: its identity, the Demeter settings, the codec and \<open>rand_r\<close>.\<close>

record 'w coord_env =
  ce_codec :: "'w prim_codec"
  ce_config :: coord_config
  ce_demeter :: demeter_config
  ce_rand :: rand_fn

fun coord_handle ::
  "'w coord_env \<Rightarrow> time_point \<Rightarrow> 'w coord_event \<Rightarrow> coord_state \<Rightarrow> (cpp_error + (coord_state \<times> 'w pushed)) option" where
  "coord_handle env now (EvNotify req) st = Some (notify_handler (ce_codec env) (ce_config env) (ce_rand env) now req st)"
| "coord_handle env now (EvQuery req) st = Some (Inr (st, query_handler (bucket_key_address_map st) req))"
| "coord_handle env now (EvBucketOp req) st = Some (Inr (bucket_op_handler req st))"
| "coord_handle env now (EvTriggerOp req) st = Some (trigger_op_handler (ce_codec env) (ce_config env) now req st)"
| "coord_handle env now (EvStatus msg) st = Some (Inr (status_update_handler now msg st, []))"
| "coord_handle env now (EvFuncCreate s) st = Some (Inr (st, []))"
| "coord_handle env now (EvAppRegister reg) st = Some (app_register_handler (ce_codec env) (ce_config env) now reg st)"
| "coord_handle env now (EvFuncCall call) st = func_call_handler (ce_config env) (ce_demeter env) (ce_rand env) call st"
| "coord_handle env now (EvForward call) st = func_call_handler (ce_config env) (ce_demeter env) (ce_rand env) call st"

fun coord_events ::
  "'w coord_env \<Rightarrow> time_point \<Rightarrow> 'w coord_event list \<Rightarrow> coord_state \<Rightarrow> (cpp_error + (coord_state \<times> 'w pushed)) option" where
  "coord_events env now [] st = Some (Inr (st, []))"
| "coord_events env now (ev # evs) st =
     (case coord_handle env now ev st of
        None \<Rightarrow> None
      | Some (Inl e) \<Rightarrow> Some (Inl e)
      | Some (Inr (st1, o1)) \<Rightarrow>
          map_option (\<lambda>res. bindE res (\<lambda>(st2, o2). Inr (st2, o1 @ o2))) (coord_events env now evs st1))"

definition coord_round :: "'w coord_env \<Rightarrow> time_point \<Rightarrow> 'w coord_poll \<Rightarrow> coord_state \<Rightarrow> (cpp_error + (coord_state \<times> 'w pushed)) option" where
  "coord_round env now p st = coord_events env now (poll_events p) st"

text \<open>Before the loop the thread announces itself to the manager.\<close>

definition coord_hello :: "string \<Rightarrow> string \<Rightarrow> u32 \<Rightarrow> coord_sync" where
  "coord_hello public_ip private_ip thread_id =
     \<lparr>sy_public_ip = public_ip, sy_private_ip = private_ip, sy_thread_id = thread_id, sy_workload = 0\<rparr>"

section \<open>Reachable states\<close>

inductive coord_step :: "'w coord_env \<Rightarrow> coord_state \<Rightarrow> coord_state \<Rightarrow> bool" for env where
  handled: "coord_handle env now ev st = Some (Inr (st', out)) \<Longrightarrow> coord_step env st st'"

inductive coord_reachable :: "'w coord_env \<Rightarrow> coord_state \<Rightarrow> bool" for env where
  start: "coord_reachable env (coord_init seed)"
| step: "coord_reachable env st \<Longrightarrow> coord_step env st st' \<Longrightarrow> coord_reachable env st'"

inductive_cases coord_stepE: "coord_step env st st'"

definition full_inv :: "coord_state \<Rightarrow> bool" where
  "full_inv st \<longleftrightarrow> coord_inv st \<and> tbl_ok (node_status_map st)"

lemma pick_data_node_tbl: "tbl_ok ns \<Longrightarrow> tbl_ok (fst (pick_data_node ips ns acc))"
  by (induction ips arbitrary: ns acc) (simp_all add: Let_def)

lemma route_worker_tbl: "tbl_ok ns \<Longrightarrow> tbl_ok (fst (route_worker ips ns))"
  using pick_data_node_tbl [of ns ips "(0, [])"] by (simp add: route_worker_def case_prod_unfold Let_def)

lemma notify_action_tbl:
  "tbl_ok (node_status_map st) \<Longrightarrow> notify_action cfg rnd resp bk flag a st = Inr (st', out) \<Longrightarrow> tbl_ok (node_status_map st')"
  using route_worker_tbl
  by (auto simp: notify_action_def Let_def bindE_Inr_iff take_executor_def case_prod_unfold split: if_splits)

lemma notify_actions_tbl:
  "tbl_ok (node_status_map st) \<Longrightarrow> notify_actions cfg rnd resp bk flag as st = Inr (st', out) \<Longrightarrow> tbl_ok (node_status_map st')"
  by (induction as arbitrary: st out) (auto simp: bindE_Inr_iff dest: notify_action_tbl)

lemma notify_triggers_tbl:
  "tbl_ok (node_status_map st) \<Longrightarrow> notify_triggers cfg rnd now resp active bk ts st = Inr (ts', names, st', out) \<Longrightarrow>
     tbl_ok (node_status_map st')"
proof (induction ts arbitrary: st ts' names out)
  case Nil
  then show ?case by simp
next
  case (Cons t ts)
  obtain t1 as where "action_for_new_object now bk t = (t1, as)" by fastforce
  then show ?case
    using Cons.prems by (auto simp: bindE_Inr_iff split: if_splits intro: Cons.IH dest: notify_actions_tbl)
qed

lemma run_bucket_triggers_tbl:
  "tbl_ok (node_status_map st) \<Longrightarrow> run_bucket_triggers c cfg rnd now resp active bk st = Inr (st', out) \<Longrightarrow>
     tbl_ok (node_status_map st')"
  by (auto simp: run_bucket_triggers_def Let_def bindE_Inr_iff dest: notify_triggers_tbl)

lemma notify_loop_tbl:
  "tbl_ok (node_status_map st) \<Longrightarrow> notify_loop c cfg rnd now resp active as st = Inr (st', out) \<Longrightarrow> tbl_ok (node_status_map st')"
proof (induction as arbitrary: st out)
  case Nil
  then show ?case by simp
next
  case (Cons a as)
  have "tbl_ok (node_status_map (record_location bk ip h p st))" for bk ip h p
    using Cons.prems(1) by (simp add: record_location_def)
  then show ?case
    using Cons.prems
    by (auto simp: bindE_Inr_iff Let_def split: if_splits) (metis Cons.IH run_bucket_triggers_tbl)+
qed

lemma register_dependencies_nodes:
  "register_dependencies c now app ds (st, m) = Inr (st', m') \<Longrightarrow> node_status_map st' = node_status_map st"
proof (induction ds arbitrary: st m)
  case Nil
  then show ?case by simp
next
  case (Cons d ds)
  obtain st1 m1 where "register_dependency c now app d (st, m) = Inr (st1, m1)"
    "register_dependencies c now app ds (st1, m1) = Inr (st', m')"
    using Cons.prems by (auto simp: bindE_Inr_iff)
  moreover from this(1) have "node_status_map st1 = node_status_map st"
    by (cases "dd_type d")
       (auto simp: register_dependency_def Let_def bindE_Inr_iff push_trigger_def own_bucket_def)
  ultimately show ?case using Cons.IH by simp
qed

lemma trigger_op_nodes:
  "trigger_op_handler c cfg now req st = Inr (st', out) \<Longrightarrow> node_status_map st' = node_status_map st"
  by (auto simp: trigger_op_handler_def add_trigger_def delete_trigger_def Let_def bindE_Inr_iff
      split: trigger_operation_type.splits option.splits if_splits)

lemma status_update_tbl: "tbl_ok (node_status_map st) \<Longrightarrow> tbl_ok (node_status_map (status_update_handler now msg st))"
  by (simp add: status_update_handler_def Let_def)

lemma func_call_frame:
  fixes out :: "'w pushed"
  assumes "cc_io_thread_num cfg > 0" and "tbl_ok (node_status_map st)"
    and "func_call_handler cfg demeter rnd call st = Some (Inr (st', out))"
  shows "frame st st' \<and> tbl_ok (node_status_map st')"
proof -
  obtain ns seed and out' :: "'w pushed" where
    "func_call_handler cfg demeter rnd call st = Some (Inr (st\<lparr>node_status_map := ns, coord_seed := seed\<rparr>, out'))" "tbl_ok ns"
    using func_call_result [OF assms(1,2), of demeter rnd call] by blast
  then show ?thesis using assms(3) unfolding frame_def by auto
qed

text \<open>Every handler keeps the invariant and never forgets an address.\<close>

lemma coord_handle_inv:
  assumes inv: "full_inv st" and io: "cc_io_thread_num (ce_config env) > 0"
    and h: "coord_handle env now ev st = Some (Inr (st', out))"
  shows "full_inv st' \<and> dir_le (bucket_key_address_map st) (bucket_key_address_map st')"
proof (cases ev)
  case (EvNotify req)
  then have n: "notify_handler (ce_codec env) (ce_config env) (ce_rand env) now req st = Inr (st', out)"
    using h by simp
  show ?thesis
    using notify_loop_inv [OF _ io n [unfolded notify_handler_def]] notify_loop_tbl [OF _ n [unfolded notify_handler_def]] inv
    by (simp add: full_inv_def)
next
  case (EvQuery req)
  then show ?thesis using inv h by simp
next
  case (EvBucketOp req)
  then have b: "bucket_op_handler req st = (st', out)" using h by simp
  then have "node_status_map st' = node_status_map st"
    by (auto simp: bucket_op_handler_def Let_def split: bucket_operation_type.splits if_splits)
  moreover have "coord_inv st'" "bucket_key_address_map st' = bucket_key_address_map st"
    using arg_cong [OF b, of fst] bucket_op_inv bucket_op_dir inv by (metis fst_conv full_inv_def)+
  ultimately show ?thesis using inv by (simp add: full_inv_def)
next
  case (EvTriggerOp req)
  then have r: "trigger_op_handler (ce_codec env) (ce_config env) now req st = Inr (st', out)"
    using h by simp
  then show ?thesis
    using trigger_op_inv [OF _ r] trigger_op_nodes [OF r] inv by (simp add: full_inv_def)
next
  case (EvStatus msg)
  then show ?thesis
    using status_update_tbl coord_inv_frame [OF _ status_update_frame] frame_sel [OF status_update_frame] inv h
    by (auto simp: full_inv_def)
next
  case (EvFuncCreate s)
  then show ?thesis using inv h by simp
next
  case (EvAppRegister reg)
  then have r: "app_register_handler (ce_codec env) (ce_config env) now reg st = Inr (st', out)"
    using h by simp
  then have "node_status_map st' = node_status_map st"
    by (auto simp: app_register_handler_def bindE_Inr_iff dest: register_dependencies_nodes)
  then show ?thesis
    using app_register_inv [OF _ r] inv by (simp add: full_inv_def)
next
  case (EvFuncCall call)
  then have r: "func_call_handler (ce_config env) (ce_demeter env) (ce_rand env) call st = Some (Inr (st', out))"
    using h by simp
  then show ?thesis
    using func_call_frame [OF io _ r] inv coord_inv_frame [of st st'] frame_sel(1) [of st st'] by (simp add: full_inv_def)
next
  case (EvForward call)
  then have r: "func_call_handler (ce_config env) (ce_demeter env) (ce_rand env) call st = Some (Inr (st', out))"
    using h by simp
  then show ?thesis
    using func_call_frame [OF io _ r] inv coord_inv_frame [of st st'] frame_sel(1) [of st st'] by (simp add: full_inv_def)
qed

lemma reachable_full_inv:
  "coord_reachable env st \<Longrightarrow> cc_io_thread_num (ce_config env) > 0 \<Longrightarrow> full_inv st"
proof (induction rule: coord_reachable.induct)
  case (start seed)
  then show ?case by (simp add: full_inv_def coord_inv_init) (simp add: coord_init_def)
next
  case (step st st')
  from step.hyps(2) obtain now ev out where "coord_handle env now ev st = Some (Inr (st', out))"
    by (cases rule: coord_step.cases)
  then show ?case using coord_handle_inv step by blast
qed

lemma steps_dir:
  "(coord_step env)\<^sup>*\<^sup>* st st' \<Longrightarrow> full_inv st \<Longrightarrow> cc_io_thread_num (ce_config env) > 0 \<Longrightarrow>
     full_inv st' \<and> dir_le (bucket_key_address_map st) (bucket_key_address_map st')"
proof (induction rule: rtranclp_induct)
  case base
  then show ?case by simp
next
  case (step y z)
  from step.hyps(2) obtain now ev out where "coord_handle env now ev y = Some (Inr (z, out))"
    by (cases rule: coord_step.cases)
  then show ?case using coord_handle_inv step dir_le_trans by blast
qed

section \<open>Properties of runs\<close>

definition example_env :: "prim_wire coord_env" where
  "example_env = \<lparr>ce_codec = wire_codec, ce_config = \<lparr>cc_private_ip = ''10.0.0.9'', cc_thread_id = 0, cc_io_thread_num = 1\<rparr>,
     ce_demeter = demeter_config_init, ce_rand = (\<lambda>s. (0, s))\<rparr>"

text \<open>
  C4. In every reachable state of the coordinator triggers exist only on existing buckets, every
  bucket is listed by the application that owns it, and every key that a trigger still waits with
  has a known address.
\<close>

theorem coord_reachable_invariant:
  assumes "coord_reachable env st" and "cc_io_thread_num (ce_config env) > 0"
  shows "(t \<in> set (tget [] (bucket_triggers_map st) b) \<longrightarrow>
            thas (bucket_app_map st) b \<and> (\<forall>k \<in> pending_keys t. addrs_of (bucket_key_address_map st) b k \<noteq> []))
    \<and> (map_of (bucket_app_map st) b = Some app \<longrightarrow> b \<in> set (tget [] (app_buckets_map st) app))"
proof -
  have inv: "coord_inv st" using reachable_full_inv [OF assms] by (simp add: full_inv_def)
  have "thas (bucket_app_map st) b \<and> (\<forall>k \<in> pending_keys t. addrs_of (bucket_key_address_map st) b k \<noteq> [])"
    if t: "t \<in> set (tget [] (bucket_triggers_map st) b)"
  proof
    have "tget [] (bucket_triggers_map st) b \<noteq> []" using t by auto
    then show "thas (bucket_app_map st) b" using inv by (simp add: coord_inv_def)
    have "trigger_ready (bucket_key_address_map st) b t" using inv t by (simp add: coord_inv_def)
    then show "\<forall>k \<in> pending_keys t. addrs_of (bucket_key_address_map st) b k \<noteq> []" by (simp add: trigger_ready_def)
  qed
  then show ?thesis using inv by (simp add: coord_inv_def)
qed

text \<open>A run that creates a bucket, used by the witnesses.\<close>

definition create_request :: bucket_operation_request where
  "create_request = \<lparr>bo_operation_type = CREATE_BUCKET, bo_app_name = ''app'', bo_bucket_name = ''b'',
     bo_request_id = ''r'', bo_response_address = ''tcp://c:1''\<rparr>"

definition example_state :: coord_state where
  "example_state = (coord_init 0)\<lparr>app_buckets_map := [(''app'', [''b''])], bucket_app_map := [(''b'', ''app'')]\<rparr>"

lemma example_reachable: "coord_reachable example_env example_state"
proof -
  have "coord_handle example_env 0 (EvBucketOp create_request) (coord_init 0)
      = Some (Inr (example_state, [(''tcp://c:1'', OutBucketResponse \<lparr>bor_bucket_name = ''b'', bor_response_id = ''r'', bor_error = SUCCESS\<rparr>)]))"
    by (simp add: bucket_op_handler_def create_request_def example_state_def coord_init_def Let_def tmod_def)
  then show ?thesis
    using coord_reachable.intros coord_step.intros by metis
qed

lemma example_io: "cc_io_thread_num (ce_config example_env) > 0"
  by (simp add: example_env_def)

theorem coord_reachable_invariant_witness:
  "''b'' \<in> set (tget [] (app_buckets_map example_state) ''app'')"
  using coord_reachable_invariant [OF example_reachable example_io, of undefined "''b''" "''app''"]
  by (simp add: example_state_def)

text \<open>
  The coordinator survives every well-formed notification: in a reachable state the handler
  returns, whatever triggers fire, so the unchecked dereference of the first address of a key and
  the unchecked substring of that address never fail.
\<close>

theorem notify_never_crashes:
  assumes "coord_reachable env st" and "cc_io_thread_num (ce_config env) > 0" and "notify_wf req"
  shows "\<exists>st' out. notify_handler (ce_codec env) (ce_config env) (ce_rand env) now req st = Inr (st', out)"
proof -
  have "coord_inv st" using reachable_full_inv [OF assms(1,2)] by (simp add: full_inv_def)
  moreover have "\<forall>a \<in> set (kn_addresses req). bka_ips a \<noteq> [] \<and> 6 \<le> length (hd (bka_ips a))"
    using assms(3) by (simp add: notify_wf_def)
  ultimately show ?thesis
    using notify_loop_ok [OF _ assms(2)] unfolding notify_handler_def by blast
qed

definition example_notification :: key_notify_request where
  "example_notification = \<lparr>kn_response_address = [], kn_addresses =
     [\<lparr>bka_bucket = ''b'', bka_key = ''k'', bka_session = ''0123456789abcdef'', bka_ips = [''tcp://10.0.0.1:7550''], bka_payload = []\<rparr>],
     kn_active_trigger_names = [], kn_request_id = ''r''\<rparr>"

theorem notify_never_crashes_witness:
  "\<exists>st' out. notify_handler (ce_codec example_env) (ce_config example_env) (ce_rand example_env) 0 example_notification example_state
     = Inr (st', out)"
  by (rule notify_never_crashes [OF example_reachable example_io]) (simp add: notify_wf_def example_notification_def)

lemma notify_records_first:
  assumes inv: "coord_inv st" and io: "cc_io_thread_num cfg > 0" and req: "kn_addresses req = a # as"
    and known: "bka_payload a \<noteq> [] \<or> thas (bucket_app_map st) (bka_bucket a)"
    and h: "notify_handler c cfg rnd now req st = Inr (st1, out)"
  shows "bka_ips a \<noteq> [] \<and> hd (bka_ips a) \<in> set (addrs_of (bucket_key_address_map st1) (bka_bucket a) (bka_key a))"
proof -
  let ?act = "fold ins (kn_active_trigger_names req) []" and ?resp = "kn_response_address req"
  have l: "notify_loop c cfg rnd now ?resp ?act (a # as) st = Inr (st1, out)"
    using h req by (simp add: notify_handler_def)
  obtain hst where ip: "bka_ips a \<noteq> []" "host_of_address (hd (bka_ips a)) = Inr hst"
    using l known by (auto simp: Let_def bindE_Inr_iff nth_or_Inr_iff get_bucket_key_from_addr_def hd_conv_nth)
  obtain st0 o1 where s: "coord_inv st0"
      "bucket_key_address_map st0 = update_address (get_bucket_key_from_addr a) (hd (bka_ips a)) (bucket_key_address_map st)"
      "notify_loop c cfg rnd now ?resp ?act (a # as) st
         = bindE (notify_loop c cfg rnd now ?resp ?act as st0) (\<lambda>(st2, o2). Inr (st2, o1 @ o2))"
    using notify_loop_step [OF inv io ip known, of c rnd now ?resp ?act as] by blast
  obtain o2 where rest: "notify_loop c cfg rnd now ?resp ?act as st0 = Inr (st1, o2)"
    using l unfolding s(3) by (auto simp: bindE_Inr_iff)
  have "hd (bka_ips a) \<in> set (addrs_of (bucket_key_address_map st0) (bka_bucket a) (bka_key a))"
    by (simp add: s(2) get_bucket_key_from_addr_def)
  then show ?thesis
    using notify_loop_inv [OF s(1) io rest] ip(1) unfolding dir_le_def by blast
qed

lemma query_known_key:
  assumes "kq_addresses q = [x]" and "addrs_of m (bka_bucket x) (bka_key x) \<noteq> []"
  shows "query_handler m q = [(kq_response_address q, OutQueryResponse \<lparr>kr_addresses =
      [empty_bka\<lparr>bka_bucket := bka_bucket x, bka_key := bka_key x, bka_session := bka_session x,
         bka_ips := addrs_of m (bka_bucket x) (bka_key x)\<rparr>], kr_error = SUCCESS, kr_response_id = kq_request_id q\<rparr>)]"
  using addrs_of_known [OF assms(2)] assms(1)
  by (simp add: query_handler_def get_address_def get_bucket_key_from_addr_def get_addr_from_bucket_key_def addrs_of_def Let_def)

text \<open>
  What a node has announced can be found from then on: after a notification for an object (of
  an existing bucket, or one that carries its value) the coordinator answers every later query for
  that key, whatever happened in between, with success and with the announced address among the
  addresses.
\<close>

theorem announced_objects_stay_known:
  assumes "coord_reachable env st" and "cc_io_thread_num (ce_config env) > 0" and "kn_addresses req = a # as"
    and "bka_payload a \<noteq> [] \<or> thas (bucket_app_map st) (bka_bucket a)"
    and "notify_handler (ce_codec env) (ce_config env) (ce_rand env) now req st = Inr (st1, out)"
    and "(coord_step env)\<^sup>*\<^sup>* st1 st2"
    and "kq_addresses q = [x]" and "bka_bucket x = bka_bucket a" and "bka_key x = bka_key a"
  shows "\<exists>r y. query_handler (bucket_key_address_map st2) q = [(kq_response_address q, OutQueryResponse r)]
     \<and> kr_error r = SUCCESS \<and> kr_addresses r = [y] \<and> hd (bka_ips a) \<in> set (bka_ips y)"
proof -
  have inv: "full_inv st" using reachable_full_inv [OF assms(1,2)] .
  then have ci: "coord_inv st" by (simp add: full_inv_def)
  have "coord_handle env now (EvNotify req) st = Some (Inr (st1, out))" using assms(5) by simp
  then have "full_inv st1" using coord_handle_inv [OF inv assms(2)] by blast
  then have "dir_le (bucket_key_address_map st1) (bucket_key_address_map st2)"
    using steps_dir [OF assms(6) _ assms(2)] by blast
  then have mem: "hd (bka_ips a) \<in> set (addrs_of (bucket_key_address_map st2) (bka_bucket x) (bka_key x))"
    using notify_records_first [OF ci assms(2-5)] assms(8,9) unfolding dir_le_def by auto
  then have ne: "addrs_of (bucket_key_address_map st2) (bka_bucket x) (bka_key x) \<noteq> []" by auto
  show ?thesis
    unfolding query_known_key [OF assms(7) ne] using mem by simp
qed

theorem announced_objects_stay_known_witness:
  "\<exists>st1 out r y. notify_handler (ce_codec example_env) (ce_config example_env) (ce_rand example_env) 0 example_notification example_state
       = Inr (st1, out)
     \<and> query_handler (bucket_key_address_map st1) \<lparr>kq_response_address = ''tcp://c:1'',
         kq_addresses = [empty_bka\<lparr>bka_bucket := ''b'', bka_key := ''k''\<rparr>], kq_request_id = ''q''\<rparr>
       = [(''tcp://c:1'', OutQueryResponse r)]
     \<and> kr_error r = SUCCESS \<and> kr_addresses r = [y] \<and> ''tcp://10.0.0.1:7550'' \<in> set (bka_ips y)"
proof -
  let ?a = "hd (kn_addresses example_notification)"
  have a: "kn_addresses example_notification = [?a]" by (simp add: example_notification_def)
  have k: "bka_payload ?a \<noteq> [] \<or> thas (bucket_app_map example_state) (bka_bucket ?a)"
    by (simp add: example_notification_def example_state_def thas_def)
  obtain st1 out where n: "notify_handler (ce_codec example_env) (ce_config example_env) (ce_rand example_env) 0
      example_notification example_state = Inr (st1, out)"
    by (simp add: notify_handler_def example_notification_def example_state_def example_env_def coord_init_def
        Let_def nth_or_def thas_def get_bucket_key_from_addr_def run_bucket_triggers_def record_location_def
        host_of_address_def tget_def sync_triggered_def)
  show ?thesis
    using announced_objects_stay_known [OF example_reachable example_io a k n rtranclp.rtrancl_refl,
        of "\<lparr>kq_response_address = ''tcp://c:1'', kq_addresses = [empty_bka\<lparr>bka_bucket := ''b'', bka_key := ''k''\<rparr>], kq_request_id = ''q''\<rparr>"
           "empty_bka\<lparr>bka_bucket := ''b'', bka_key := ''k''\<rparr>"] n
    by (auto simp: example_notification_def)
qed

text \<open>
  Deleting a bucket disarms it: after a successful deletion the bucket has no owner and no
  trigger, a notification without value for it changes nothing and sends nothing, and adding a
  trigger to it is refused with \<open>BUCKET_NE\<close>.
\<close>

theorem delete_bucket_disarms:
  assumes "bo_operation_type req = DELETE_BUCKET" and "bucket_op_handler req st = (st1, out)"
    and "thas (bucket_app_map st) (bo_bucket_name req)"
    and "bka_bucket a = bo_bucket_name req" and "bka_payload a = []" and "bka_ips a \<noteq> []"
    and "to_operation_type treq = ADD_TRIGGER" and "to_bucket_name treq = bo_bucket_name req"
  shows "\<not> thas (bucket_app_map st1) (bo_bucket_name req) \<and> tget [] (bucket_triggers_map st1) (bo_bucket_name req) = []
     \<and> notify_loop c cfg rnd now resp active (a # as) st1 = Inr (st1, [])
     \<and> (\<exists>sent. trigger_op_handler c cfg now treq st1 = Inr (st1, sent)
          \<and> hd sent = (to_response_address treq, OutTriggerResponse \<lparr>tor_bucket_name = bo_bucket_name req,
               tor_trigger_name = to_trigger_name treq, tor_response_id = to_request_id treq, tor_error = BUCKET_NE\<rparr>))"
proof -
  have "st1 = st\<lparr>app_buckets_map := tmod [] (removeAll (bo_bucket_name req)) (bo_app_name req) (app_buckets_map st),
      bucket_app_map := terase (bo_bucket_name req) (bucket_app_map st),
      bucket_triggers_map := terase (bo_bucket_name req) (bucket_triggers_map st)\<rparr>"
    using assms(1-3) by (simp add: bucket_op_handler_def Let_def)
  then have b: "\<not> thas (bucket_app_map st1) (bo_bucket_name req)" "tget [] (bucket_triggers_map st1) (bo_bucket_name req) = []"
    by simp_all
  have "add_trigger c now treq m st1 = Inr (st1, BUCKET_NE, m)" for m
    using b(1) assms(8) by (simp add: add_trigger_def)
  moreover have "notify_loop c cfg rnd now resp active (a # as) st1 = Inr (st1, [])"
    using b(1) assms(4-6) by (simp add: Let_def nth_or_def get_bucket_key_from_addr_def)
  ultimately show ?thesis
    using b assms(7,8) by (simp add: trigger_op_handler_def Let_def)
qed

theorem delete_bucket_disarms_witness:
  "\<exists>st1 (out :: prim_wire pushed).
     bucket_op_handler (create_request\<lparr>bo_operation_type := DELETE_BUCKET\<rparr>) example_state = (st1, out)
     \<and> notify_loop wire_codec (ce_config example_env) (\<lambda>s. (0, s)) 0 [] [] [hd (kn_addresses example_notification)] st1 = Inr (st1, [])"
proof -
  let ?req = "create_request\<lparr>bo_operation_type := DELETE_BUCKET\<rparr>" and ?a = "hd (kn_addresses example_notification)"
  let ?treq = "\<lparr>to_operation_type = ADD_TRIGGER, to_app_name = ''app'', to_bucket_name = ''b'', to_trigger_name = ''t'',
    to_trigger_option = 0, to_primitive_type = IMMEDIATE, to_primitive = WNoBytes, to_request_id = [], to_response_address = [],
    to_hints = []\<rparr>"
  obtain st1 and out :: "prim_wire pushed" where r: "bucket_op_handler ?req example_state = (st1, out)" by fastforce
  have "notify_loop wire_codec (ce_config example_env) (\<lambda>s. (0, s)) 0 [] [] [?a] st1 = Inr (st1, [])"
    using delete_bucket_disarms [OF _ r, of ?a ?treq wire_codec "ce_config example_env" "\<lambda>s. (0, s)" 0 "[]" "[]" "[]"]
    by (simp add: create_request_def example_state_def example_notification_def thas_def del: notify_loop.simps)
  then show ?thesis using r by blast
qed

section \<open>Registration\<close>

text \<open>
  Registering a many-to-one dependency installs the join on both sides: the coordinator's
  bucket \<open>b_<target>\<close>, owned by the application, gets a key-set trigger over the keys \<open>k_<source>\<close>,
  and every known node is sent an entity from which it builds a trigger with the same function and
  the same set of keys.
\<close>

theorem many_to_one_registration:
  assumes "codec_ok c" and "dd_type d = MANY_TO_ONE" and "dd_tgt_functions d = tgt # tgts"
    and "ar_dependencies reg = [d]" and "app_register_handler c cfg now reg st = Inr (st1, out)"
  shows "map_of (bucket_app_map st1) (target_bucket tgt) = Some (ar_app_name reg)
     \<and> (\<exists>t. tget [] (bucket_triggers_map st1) (target_bucket tgt) = tget [] (bucket_triggers_map st) (target_bucket tgt) @ [BySetTrigger t]
          \<and> tr_function t = tgt \<and> set (bs_key_set t) = source_key ` set (dd_src_functions d))
     \<and> (\<exists>m e t'. out = map (\<lambda>p. (tcp_address (fst p) TriggerUpdatePort, OutUpdate m)) (node_status_map st)
          \<and> uc_triggers m = [e] \<and> te_bucket_name e = target_bucket tgt
          \<and> gen_trigger_pointer c now' (te_primitive_type e) (te_trigger_name e) (te_primitive e) = Some (BySetTrigger t')
          \<and> tr_function t' = tgt \<and> set (bs_key_set t') = source_key ` set (dd_src_functions d))"
proof -
  let ?ks = "set_of_keys (map source_key (dd_src_functions d))"
  have ks: "set ?ks = source_key ` set (dd_src_functions d)" "set (set_of_keys ?ks) = set ?ks"
    using set_of_keys_same [of "map source_key (dd_src_functions d)"] set_of_keys_same [of ?ks] by (auto simp: same_keys_def)
  let ?t = "BySetTrigger (by_set_init tgt (dep_trigger_name MANY_TO_ONE tgt) ?ks)"
  let ?e = "entity_for c BY_SET ?t ((empty_entity c)\<lparr>te_bucket_name := target_bucket tgt\<rparr>)"
  let ?m0 = "empty_coord_msg\<lparr>uc_ip := cc_private_ip cfg, uc_thread_id := cc_thread_id cfg,
                     uc_app_name := ar_app_name reg, uc_msg_type := 0, uc_functions := ar_functions reg\<rparr>"
  have st1: "st1 = push_trigger (target_bucket tgt) ?t (own_bucket (ar_app_name reg) (target_bucket tgt) st)"
    and out: "out = broadcast_update st1 (add_entity ?e ?m0)"
    using assms(2-5) by (auto simp: app_register_handler_def register_dependency_def Let_def nth_or_def)
  have nodes: "node_status_map st1 = node_status_map st"
    by (simp add: st1 push_trigger_def own_bucket_def)
  show ?thesis
  proof (intro conjI)
    show "map_of (bucket_app_map st1) (target_bucket tgt) = Some (ar_app_name reg)"
      by (simp add: st1 push_trigger_def own_bucket_def)
    show "\<exists>t. tget [] (bucket_triggers_map st1) (target_bucket tgt) = tget [] (bucket_triggers_map st) (target_bucket tgt) @ [BySetTrigger t]
          \<and> tr_function t = tgt \<and> set (bs_key_set t) = source_key ` set (dd_src_functions d)"
      by (intro exI [of _ "by_set_init tgt (dep_trigger_name MANY_TO_ONE tgt) ?ks"])
         (simp add: st1 push_trigger_def own_bucket_def by_set_init_def ks(1))
    have "gen_trigger_pointer c now' (te_primitive_type ?e) (te_trigger_name ?e) (te_primitive ?e)
        = Some (BySetTrigger (by_set_init tgt (dep_trigger_name MANY_TO_ONE tgt) (set_of_keys ?ks)))"
      using assms(1) by (simp add: entity_for_def codec_ok_def by_set_dump_def by_set_init_def base_defs)
    moreover have "out = map (\<lambda>p. (tcp_address (fst p) TriggerUpdatePort, OutUpdate (add_entity ?e ?m0))) (node_status_map st)"
      by (simp add: out broadcast_update_def nodes case_prod_unfold)
    ultimately show "\<exists>m e t'. out = map (\<lambda>p. (tcp_address (fst p) TriggerUpdatePort, OutUpdate m)) (node_status_map st)
          \<and> uc_triggers m = [e] \<and> te_bucket_name e = target_bucket tgt
          \<and> gen_trigger_pointer c now' (te_primitive_type e) (te_trigger_name e) (te_primitive e) = Some (BySetTrigger t')
          \<and> tr_function t' = tgt \<and> set (bs_key_set t') = source_key ` set (dd_src_functions d)"
      by (intro exI [of _ "add_entity ?e ?m0"] exI [of _ ?e]
            exI [of _ "by_set_init tgt (dep_trigger_name MANY_TO_ONE tgt) (set_of_keys ?ks)"])
         (simp add: add_entity_def empty_coord_msg_def entity_for_def by_set_init_def ks)
  qed
qed

definition join_app :: app_registration where
  "join_app = \<lparr>ar_app_name = ''app'', ar_functions = [''map1'', ''map2'', ''reduce''],
     ar_dependencies = [\<lparr>dd_type = MANY_TO_ONE, dd_src_functions = [''map1'', ''map2''], dd_tgt_functions = [''reduce''], dd_description = []\<rparr>]\<rparr>"

theorem many_to_one_registration_witness:
  "\<exists>st1 out t. app_register_handler wire_codec (ce_config example_env) 0 join_app (coord_init 0) = Inr (st1, out)
     \<and> tget [] (bucket_triggers_map st1) ''b_reduce'' = [BySetTrigger t] \<and> set (bs_key_set t) = {''k_map1'', ''k_map2''}"
proof -
  let ?d = "hd (ar_dependencies join_app)"
  obtain st1 out where r: "app_register_handler wire_codec (ce_config example_env) 0 join_app (coord_init 0) = Inr (st1, out)"
    by (simp add: app_register_handler_def join_app_def register_dependency_def nth_or_def Let_def)
  show ?thesis
    using many_to_one_registration [OF wire_codec_ok _ _ _ r, of ?d "''reduce''" "[]" 0] r
    by (auto simp: join_app_def coord_init_def target_bucket_def source_key_def)
qed

text \<open>
  Registering a periodic dependency keeps the timer at the coordinator: it owns the target's
  bucket and gains one time-window trigger for it, with the window of the description (as
  \<open>unsigned\<close>), while the entity sent to the nodes names the bucket but no trigger, so that a node
  only learns who coordinates the bucket. A description that is no number raises the exception of
  \<open>stoi\<close>, and a dependency without a target function is an index past the repeated field.
\<close>

theorem periodic_registration_timer_at_coordinator:
  assumes "dd_type d = PERIODIC"
  shows "case dd_tgt_functions d of
       [] \<Rightarrow> register_dependency c now app d (st, m) = Inl RepeatedFieldIndex
     | tgt # _ \<Rightarrow>
         (case stoi (dd_description d) of
            Inl e \<Rightarrow> register_dependency c now app d (st, m) = Inl e
          | Inr w \<Rightarrow>
              (\<exists>st1 m1 e. register_dependency c now app d (st, m) = Inr (st1, m1)
                 \<and> tget [] (bucket_triggers_map st1) (target_bucket tgt) =
                     tget [] (bucket_triggers_map st) (target_bucket tgt)
                     @ [ByTimeTrigger (by_time_init now tgt (dep_trigger_name PERIODIC tgt) (word_of_int w))]
                 \<and> map_of (bucket_app_map st1) (target_bucket tgt) = Some app
                 \<and> target_bucket tgt \<in> set (tget [] (app_buckets_map st1) app)
                 \<and> uc_triggers m1 = uc_triggers m @ [e]
                 \<and> te_bucket_name e = target_bucket tgt \<and> te_trigger_name e = []))"
  using assms
  by (auto simp: register_dependency_def Let_def nth_or_def add_entity_def empty_entity_def push_trigger_def
      own_bucket_def split: list.splits sum.splits)

theorem periodic_registration_timer_at_coordinator_witness:
  "\<exists>st1 m1 e. register_dependency wire_codec 0 ''app''
       \<lparr>dd_type = PERIODIC, dd_src_functions = [], dd_tgt_functions = [''tick''], dd_description = ''5''\<rparr>
       (coord_init 0, empty_coord_msg) = Inr (st1, m1)
     \<and> tget [] (bucket_triggers_map st1) ''b_tick'' = [ByTimeTrigger (by_time_init 0 ''tick'' (dep_trigger_name PERIODIC ''tick'') 5)]
     \<and> uc_triggers m1 = [e] \<and> te_trigger_name e = []"
  using periodic_registration_timer_at_coordinator [of "\<lparr>dd_type = PERIODIC, dd_src_functions = [],
        dd_tgt_functions = [''tick''], dd_description = ''5''\<rparr>" wire_codec 0 "''app''" "coord_init 0" empty_coord_msg]
  by (auto simp: stoi_def is_space_def is_digit_def digits_val_def Let_def target_bucket_def coord_init_def
      empty_coord_msg_def)

text \<open>
  The error paths of the trigger handler: on an existing bucket a request with an unrecognized
  primitive type dereferences the null trigger pointer instead of being refused, while deleting a
  trigger that does not exist answers \<open>SUCCESS\<close>, leaves every trigger in place and still sends
  the nodes an update, of type 0 and without triggers.
\<close>

theorem trigger_op_error_paths:
  assumes "thas (bucket_app_map st) (to_bucket_name req)"
  shows "(to_operation_type req = ADD_TRIGGER \<and> to_primitive_type req = UnrecognizedPrimitive n \<longrightarrow>
           trigger_op_handler c cfg now req st = Inl NullDereference)
    \<and> (to_operation_type req = DELETE_TRIGGER
         \<and> (\<forall>t \<in> set (tget [] (bucket_triggers_map st) (to_bucket_name req)). get_trigger_name t \<noteq> to_trigger_name req) \<longrightarrow>
       (\<exists>st1 m. trigger_op_handler c cfg now req st =
            Inr (st1, (to_response_address req, OutTriggerResponse \<lparr>tor_bucket_name = to_bucket_name req,
                 tor_trigger_name = to_trigger_name req, tor_response_id = to_request_id req, tor_error = SUCCESS\<rparr>)
               # map (\<lambda>p. (tcp_address (fst p) TriggerUpdatePort, OutUpdate m)) (node_status_map st))
          \<and> (\<forall>b. tget [] (bucket_triggers_map st1) b = tget [] (bucket_triggers_map st) b)
          \<and> uc_msg_type m = 0 \<and> uc_triggers m = []))"
  using assms
  by (auto simp: trigger_op_handler_def add_trigger_def delete_trigger_def broadcast_update_def Let_def
      case_prod_unfold empty_coord_msg_def filter_id_conv)

theorem trigger_op_error_paths_witness:
  "trigger_op_handler wire_codec (ce_config example_env) 0
     \<lparr>to_operation_type = ADD_TRIGGER, to_app_name = ''app'', to_bucket_name = ''b'', to_trigger_name = ''t'',
      to_trigger_option = 0, to_primitive_type = UnrecognizedPrimitive 7, to_primitive = WNoBytes, to_request_id = [],
      to_response_address = [], to_hints = []\<rparr> example_state = Inl NullDereference"
  using trigger_op_error_paths [of example_state
     "\<lparr>to_operation_type = ADD_TRIGGER, to_app_name = ''app'', to_bucket_name = ''b'', to_trigger_name = ''t'',
      to_trigger_option = 0, to_primitive_type = UnrecognizedPrimitive 7, to_primitive = WNoBytes, to_request_id = [],
      to_response_address = [], to_hints = []\<rparr>" 7 wire_codec "ce_config example_env" 0]
  by (simp add: example_state_def thas_def)

end
