(* ===== verification/Manager.thy ===== *)
theory Manager
  imports Messages
begin

text \<open>
  The manager (\<^verbatim>\<open>src/manager/manager_server.cpp\<close>): coordinators announce themselves, clients ask
  for the coordinator of an application, and an application keeps the coordinator it was given
  first. The set of coordinators is a list in iteration order.
\<close>

section \<open>State and handlers\<close>

record coord_ip =
  ci_public_ip :: string
  ci_private_ip :: string
  ci_thread_id :: u32

record manager_state =
  app_coord_map :: "(string, string \<times> u32) table"
  coord_ips :: "coord_ip list"
  manager_seed :: u32

definition manager_init :: "u32 \<Rightarrow> manager_state" where
  "manager_init seed = \<lparr>app_coord_map = [], coord_ips = [], manager_seed = seed\<rparr>"

definition manager_sync :: "coord_sync \<Rightarrow> manager_state \<Rightarrow> manager_state" where
  "manager_sync msg st =
     st\<lparr>coord_ips := ins \<lparr>ci_public_ip = sy_public_ip msg, ci_private_ip = sy_private_ip msg, ci_thread_id = sy_thread_id msg\<rparr> (coord_ips st)\<rparr>"

text \<open>\<open>rand_r(&seed) % coord_ips.size()\<close> divides by zero while no coordinator is known.\<close>

definition pick_coordinator :: "bool \<Rightarrow> rand_fn \<Rightarrow> manager_state \<Rightarrow> cpp_error + ((string \<times> u32) \<times> u32)" where
  "pick_coordinator external rnd st =
     (if coord_ips st = [] then Inl DivisionByZero
      else (let (r, seed') = rnd (manager_seed st); c = coord_ips st ! (r mod length (coord_ips st))
            in Inr ((if external then ci_public_ip c else ci_private_ip c, ci_thread_id c), seed')))"

definition manager_query ::
  "bool \<Rightarrow> rand_fn \<Rightarrow> coord_query \<Rightarrow> manager_state \<Rightarrow> cpp_error + (manager_state \<times> coord_response)" where
  "manager_query external rnd q st =
     bindE (if thas (app_coord_map st) (cq_application q) then Inr st
            else bindE (pick_coordinator external rnd st) (\<lambda>(coord, seed').
                   Inr (st\<lparr>app_coord_map := tput (cq_application q) coord (app_coord_map st), manager_seed := seed'\<rparr>)))
       (\<lambda>st1. let (ip, tid) = tget ([], 0) (app_coord_map st1) (cq_application q)
              in Inr (st1, \<lparr>cr_coord_ip = ip, cr_thread_id = tid, cr_request_id = cq_request_id q\<rparr>))"

text \<open>One round of the loop serves at most one message of each socket, synchronisations first.\<close>

definition manager_round ::
  "bool \<Rightarrow> rand_fn \<Rightarrow> coord_sync option \<Rightarrow> coord_query option \<Rightarrow> manager_state \<Rightarrow>
     cpp_error + (manager_state \<times> coord_response option)" where
  "manager_round external rnd sync query st =
     (let st1 = (case sync of Some m \<Rightarrow> manager_sync m st | None \<Rightarrow> st)
      in case query of
           None \<Rightarrow> Inr (st1, None)
         | Some q \<Rightarrow> bindE (manager_query external rnd q st1) (\<lambda>(st2, r). Inr (st2, Some r)))"

fun manager_rounds ::
  "bool \<Rightarrow> rand_fn \<Rightarrow> (coord_sync option \<times> coord_query option) list \<Rightarrow> manager_state \<Rightarrow>
     cpp_error + (manager_state \<times> coord_response option list)" where
  "manager_rounds external rnd [] st = Inr (st, [])"
| "manager_rounds external rnd ((s, q) # evs) st =
     bindE (manager_round external rnd s q st) (\<lambda>(st1, r).
     bindE (manager_rounds external rnd evs st1) (\<lambda>(st2, rs). Inr (st2, r # rs)))"

section \<open>Applications keep their coordinator\<close>

lemma manager_sync_apps [simp]: "app_coord_map (manager_sync m st) = app_coord_map st"
  by (simp add: manager_sync_def)

lemma manager_query_keeps:
  "manager_query external rnd q st = Inr (st1, r) \<Longrightarrow> map_of (app_coord_map st) app = Some c \<Longrightarrow>
     map_of (app_coord_map st1) app = Some c"
  by (cases c, cases "app = cq_application q")
     (auto simp: manager_query_def bindE_Inr_iff thas_def case_prod_unfold Let_def split: if_splits)

lemma manager_round_keeps:
  "manager_round external rnd s q st = Inr (st1, r) \<Longrightarrow> map_of (app_coord_map st) app = Some c \<Longrightarrow>
     map_of (app_coord_map st1) app = Some c"
  by (auto simp: manager_round_def bindE_Inr_iff Let_def split: option.splits elim!: manager_query_keeps)

lemma manager_rounds_keep:
  "manager_rounds external rnd evs st = Inr (st1, rs) \<Longrightarrow> map_of (app_coord_map st) app = Some c \<Longrightarrow>
     map_of (app_coord_map st1) app = Some c"
proof (induction evs arbitrary: st rs)
  case Nil
  then show ?case by simp
next
  case (Cons ev evs)
  obtain s q where "ev = (s, q)" by (cases ev)
  then show ?case using Cons by (auto simp: bindE_Inr_iff dest: manager_round_keeps)
qed

lemma manager_query_answer:
  "manager_query external rnd q st = Inr (st1, r) \<Longrightarrow>
     map_of (app_coord_map st1) (cq_application q) = Some (cr_coord_ip r, cr_thread_id r) \<and> cr_request_id r = cq_request_id q"
  by (auto simp: manager_query_def bindE_Inr_iff thas_def tget_def case_prod_unfold Let_def split: if_splits)

text \<open>
  The manager is sticky: once it has answered a client with a coordinator for an application,
  every later answer for that application names the same coordinator and thread, whatever
  coordinators join and whatever else is asked in between.
\<close>

theorem manager_is_sticky:
  assumes "manager_query external rnd q st = Inr (st1, r1)" and "manager_rounds external rnd evs st1 = Inr (st2, rs)"
    and "cq_application q' = cq_application q"
  shows "\<exists>r2. manager_query external rnd q' st2 = Inr (st2, r2) \<and> cr_coord_ip r2 = cr_coord_ip r1
     \<and> cr_thread_id r2 = cr_thread_id r1 \<and> cr_request_id r2 = cq_request_id q'"
  using manager_rounds_keep [OF assms(2)] manager_query_answer [OF assms(1)] assms(3)
  by (auto simp: manager_query_def thas_def tget_def)

theorem manager_is_sticky_witness:
  "\<exists>st1 r1 st2 rs r2. manager_query True (\<lambda>s. (1, s)) \<lparr>cq_application = ''app'', cq_request_id = ''1''\<rparr>
       ((manager_init 0)\<lparr>coord_ips := [\<lparr>ci_public_ip = ''p'', ci_private_ip = ''i'', ci_thread_id = 0\<rparr>]\<rparr>) = Inr (st1, r1)
     \<and> manager_rounds True (\<lambda>s. (1, s)) [(Some \<lparr>sy_public_ip = ''q'', sy_private_ip = ''j'', sy_thread_id = 0, sy_workload = 0\<rparr>, None)] st1
         = Inr (st2, rs)
     \<and> manager_query True (\<lambda>s. (1, s)) \<lparr>cq_application = ''app'', cq_request_id = ''2''\<rparr> st2 = Inr (st2, r2)
     \<and> cr_coord_ip r2 = cr_coord_ip r1"
proof -
  let ?st = "(manager_init 0)\<lparr>coord_ips := [\<lparr>ci_public_ip = ''p'', ci_private_ip = ''i'', ci_thread_id = 0\<rparr>]\<rparr>"
  obtain st1 r1 where q: "manager_query True (\<lambda>s. (1, s)) \<lparr>cq_application = ''app'', cq_request_id = ''1''\<rparr> ?st = Inr (st1, r1)"
    by (simp add: manager_query_def pick_coordinator_def manager_init_def Let_def case_prod_unfold)
  obtain st2 rs where s: "manager_rounds True (\<lambda>s. (1, s))
      [(Some \<lparr>sy_public_ip = ''q'', sy_private_ip = ''j'', sy_thread_id = 0, sy_workload = 0\<rparr>, None)] st1 = Inr (st2, rs)"
    by (simp add: manager_round_def)
  show ?thesis
    using manager_is_sticky [OF q s, of "\<lparr>cq_application = ''app'', cq_request_id = ''2''\<rparr>"] q s by auto
qed

text \<open>
  A query for an application without a coordinator fails exactly while no coordinator has
  announced itself; afterwards it is answered with an announced one.
\<close>

theorem manager_answers_with_announced:
  assumes "\<not> thas (app_coord_map st) (cq_application q)"
  shows "(coord_ips st = [] \<longrightarrow> manager_query external rnd q st = Inl DivisionByZero)
    \<and> (coord_ips st \<noteq> [] \<longrightarrow> (\<exists>st1 r. \<exists>c \<in> set (coord_ips st). manager_query external rnd q st = Inr (st1, r)
         \<and> cr_coord_ip r = (if external then ci_public_ip c else ci_private_ip c) \<and> cr_thread_id r = ci_thread_id c))"
proof -
  let ?c = "coord_ips st ! (fst (rnd (manager_seed st)) mod length (coord_ips st))"
  have "?c \<in> set (coord_ips st)" if "coord_ips st \<noteq> []"
    using that by simp
  then show ?thesis
    using assms by (auto simp: manager_query_def pick_coordinator_def Let_def case_prod_unfold intro!: bexI [of _ ?c])
qed

theorem manager_answers_with_announced_witness:
  "manager_query True (\<lambda>s. (1, s)) \<lparr>cq_application = ''app'', cq_request_id = ''1''\<rparr> (manager_init 0) = Inl DivisionByZero"
  using manager_answers_with_announced [of "manager_init 0" "\<lparr>cq_application = ''app'', cq_request_id = ''1''\<rparr>" True "\<lambda>s. (1, s)"]
  by (simp add: manager_init_def)

end
