(* ===== verification/Anna_Lattices.thy ===== *)
theory Anna_Lattices
  imports Common
begin

text \<open>
  The Anna lattices of \<^verbatim>\<open>common/include/lattices/\<close>. \<open>Lattice<T>\<close> wraps an element; \<open>reveal\<close> is
  the element itself and \<open>merge\<close> is the subclass's \<open>do_merge\<close>, which is modelled as a function
  from the current element and the incoming one to the new element. The locale
  \<open>merge_lattice\<close> is the contract the key-value store relies on: through an abstraction
  function, \<open>merge\<close> is an associative, commutative and idempotent join, so replicas that
  have seen the same updates agree, whatever the order and the number of deliveries. It is
  interpreted for the Boolean, maximum, set, ordered-set and vector-clock lattices. The
  last-writer-wins, priority and causal lattices satisfy the contract only up to ties, which
  the last section makes precise.
\<close>

named_theorems lat \<open>definitions of the lattice operations\<close>

section \<open>The contract\<close>

locale merge_lattice =
  fixes ok :: "'a \<Rightarrow> bool"
    and abs :: "'a \<Rightarrow> 'b"
    and merge :: "'a \<Rightarrow> 'a \<Rightarrow> 'a"
    and join :: "'b \<Rightarrow> 'b \<Rightarrow> 'b"
  assumes ok_merge: "ok x \<Longrightarrow> ok y \<Longrightarrow> ok (merge x y)"
    and abs_merge: "ok x \<Longrightarrow> ok y \<Longrightarrow> abs (merge x y) = join (abs x) (abs y)"
    and join_assoc: "join (join a b) c = join a (join b c)"
    and join_comm: "join a b = join b a"
    and join_idem: "join a a = a"

sublocale merge_lattice \<subseteq> j: semilattice join
  by unfold_locales (rule join_assoc, rule join_comm, rule join_idem)

context merge_lattice
begin

lemma merge_commutes: "ok x \<Longrightarrow> ok y \<Longrightarrow> abs (merge x y) = abs (merge y x)"
  by (simp add: abs_merge join_comm)

lemma merge_idempotent: "ok x \<Longrightarrow> ok y \<Longrightarrow> abs (merge (merge x y) y) = abs (merge x y)"
  by (simp add: abs_merge ok_merge join_assoc join_idem)

lemma foldl_merge:
  "ok x \<Longrightarrow> (\<And>y. y \<in> set ys \<Longrightarrow> ok y) \<Longrightarrow>
     ok (foldl merge x ys) \<and> abs (foldl merge x ys) = fold (\<lambda>y a. join a (abs y)) ys (abs x)"
  by (induction ys arbitrary: x) (simp_all add: ok_merge abs_merge)

lemma join_fold_idem: "comp_fun_idem (\<lambda>y a. join a (abs y))"
  by (unfold comp_fun_idem_def', unfold_locales) (auto simp: fun_eq_iff j.left_commute j.commute j.left_idem)

lemma replicas_converge:
  assumes "ok x" and "\<And>y. y \<in> set ys \<Longrightarrow> ok y" and "set ys = set zs"
  shows "abs (foldl merge x ys) = abs (foldl merge x zs)"
proof -
  have f: "abs (foldl merge x us) = Finite_Set.fold (\<lambda>y a. join a (abs y)) (abs x) (set us)"
    if "\<And>y. y \<in> set us \<Longrightarrow> ok y" for us
    using foldl_merge [of x us] that assms(1) 
      comp_fun_idem_on.fold_set_fold [OF join_fold_idem [unfolded comp_fun_idem_def']] by simp
  have "abs (foldl merge x ys) = Finite_Set.fold (\<lambda>y a. join a (abs y)) (abs x) (set zs)"
    using f [of ys] assms(2,3) by simp
  also have "\<dots> = abs (foldl merge x zs)"
    using f [of zs] assms(2,3) by simp
  finally show ?thesis .
qed

end

section \<open>\<open>BoolLattice\<close> and \<open>MaxLattice\<close>\<close>

definition bool_do_merge :: "bool \<Rightarrow> bool \<Rightarrow> bool" where
  "bool_do_merge element e = (element \<or> e)"

text \<open>
  \<open>MaxLattice<unsigned>\<close>: the current element is read into an \<open>int\<close>, which the comparison
  with the \<open>unsigned\<close> argument converts back.
\<close>

definition max_do_merge :: "u32 \<Rightarrow> u32 \<Rightarrow> u32" where
  "max_do_merge element e = (let current = sint element in if word_of_int current < e then e else element)"

definition max_add :: "u32 \<Rightarrow> u32 \<Rightarrow> u32" where
  "max_add element n = element + n"

definition max_subtract :: "u32 \<Rightarrow> u32 \<Rightarrow> u32" where
  "max_subtract element n = element - n"

lemma max_do_merge_eq [simp]: "max_do_merge a b = max a b"
  by (auto simp: max_do_merge_def max_def)

section \<open>\<open>SetLattice\<close> and \<open>OrderedSetLattice\<close>\<close>

definition set_do_merge :: "'a list \<Rightarrow> 'a list \<Rightarrow> 'a list" where
  "set_do_merge element e = fold ins e element"

definition set_intersect :: "'a list \<Rightarrow> 'a list \<Rightarrow> 'a list" where
  "set_intersect element s =
     fold (\<lambda>that_elem res. fold (\<lambda>this_elem res. if this_elem = that_elem then ins this_elem res else res)
        element res) s []"

definition set_project :: "('a \<Rightarrow> bool) \<Rightarrow> 'a list \<Rightarrow> 'a list" where
  "set_project f element = fold (\<lambda>elem res. if f elem then ins elem res else res) element []"

definition ordered_set_do_merge :: "'a::linorder list \<Rightarrow> 'a list \<Rightarrow> 'a list" where
  "ordered_set_do_merge element e = fold insort_insert e element"

definition ordered_set_intersect :: "'a::linorder list \<Rightarrow> 'a list \<Rightarrow> 'a list" where
  "ordered_set_intersect element s =
     fold (\<lambda>that_elem res. fold (\<lambda>this_elem res. if this_elem = that_elem then insort_insert this_elem res else res)
        element res) s []"

definition ordered_set_project :: "('a::linorder \<Rightarrow> bool) \<Rightarrow> 'a list \<Rightarrow> 'a list" where
  "ordered_set_project f element = fold (\<lambda>elem res. if f elem then insort_insert elem res else res) element []"

lemma set_do_merge_set [simp]: "set (set_do_merge xs ys) = set xs \<union> set ys"
  by (induction ys arbitrary: xs) (auto simp: set_do_merge_def)

lemma set_do_merge_distinct [simp]: "distinct xs \<Longrightarrow> distinct (set_do_merge xs ys)"
  by (induction ys arbitrary: xs) (auto simp: set_do_merge_def)

lemma ordered_set_do_merge_set [simp]: "set (ordered_set_do_merge xs ys) = set xs \<union> set ys"
  by (induction ys arbitrary: xs) (auto simp: ordered_set_do_merge_def set_insort_insert)

lemma ordered_set_do_merge_sorted [simp]:
  "sorted xs \<and> distinct xs \<Longrightarrow> sorted (ordered_set_do_merge xs ys) \<and> distinct (ordered_set_do_merge xs ys)"
  by (induction ys arbitrary: xs)
     (auto simp: ordered_set_do_merge_def sorted_insort_insert distinct_insort_insert)

lemma fold_cond_ins_set: "set (fold (\<lambda>x r. if P x then ins x r else r) xs r) = set r \<union> {x \<in> set xs. P x}"
  by (induction xs arbitrary: r) auto

lemma set_intersect_set [simp]: "set (set_intersect xs ys) = set xs \<inter> set ys"
proof -
  have "set (fold (\<lambda>y res. fold (\<lambda>x res. if x = y then ins x res else res) xs res) ys r)
          = set r \<union> (set xs \<inter> set ys)" for r
    by (induction ys arbitrary: r) (auto simp: fold_cond_ins_set)
  then show ?thesis by (simp add: set_intersect_def)
qed

lemma set_project_set [simp]: "set (set_project f xs) = {x \<in> set xs. f x}"
  by (simp add: set_project_def fold_cond_ins_set)

section \<open>\<open>MapLattice\<close>\<close>

definition insert_pair :: "('v \<Rightarrow> 'v \<Rightarrow> 'v) \<Rightarrow> 'k \<Rightarrow> 'v \<Rightarrow> ('k, 'v) table \<Rightarrow> ('k, 'v) table" where
  "insert_pair merge k v t =
     (case map_of t k of Some old \<Rightarrow> tput k (merge old v) t | None \<Rightarrow> tput k v t)"

definition map_do_merge :: "('v \<Rightarrow> 'v \<Rightarrow> 'v) \<Rightarrow> ('k, 'v) table \<Rightarrow> ('k, 'v) table \<Rightarrow> ('k, 'v) table" where
  "map_do_merge merge t m = fold (\<lambda>(k, v). insert_pair merge k v) m t"

definition map_project :: "('v \<Rightarrow> bool) \<Rightarrow> ('k, 'v) table \<Rightarrow> ('k, 'v) table" where
  "map_project f t = fold (\<lambda>(k, v) res. if f v \<and> \<not> thas res k then tput k v res else res) t []"

definition map_contains :: "('k, 'v) table \<Rightarrow> 'k \<Rightarrow> bool" where
  "map_contains t k = thas t k"

definition map_key_set :: "('k, 'v) table \<Rightarrow> 'k list" where
  "map_key_set t = fold (\<lambda>(k, v). ins k) t []"

definition map_remove :: "'k \<Rightarrow> ('k, 'v) table \<Rightarrow> ('k, 'v) table" where
  "map_remove k t = (if thas t k then terase k t else t)"

text \<open>\<open>at(k)\<close> default-constructs a missing value; the abstract lookup is \<open>map_of\<close>.\<close>

definition map_at :: "'v \<Rightarrow> 'k \<Rightarrow> ('k, 'v) table \<Rightarrow> 'v \<times> ('k, 'v) table" where
  "map_at d k t = (tget d t k, tmod d id k t)"

lemma map_of_insert_pair [simp]:
  "map_of (insert_pair mrg k v t) k' =
     (if k' = k then Some (case map_of t k of Some old \<Rightarrow> mrg old v | None \<Rightarrow> v) else map_of t k')"
  by (simp add: insert_pair_def split: option.splits)

lemma tbl_ok_insert_pair [simp]: "tbl_ok t \<Longrightarrow> tbl_ok (insert_pair mrg k v t)"
  by (simp add: insert_pair_def split: option.splits)

lemma tbl_ok_map_do_merge [simp]: "tbl_ok t \<Longrightarrow> tbl_ok (map_do_merge mrg t m)"
  by (induction m arbitrary: t) (auto simp: map_do_merge_def)

definition join_opt :: "('b \<Rightarrow> 'b \<Rightarrow> 'b) \<Rightarrow> 'b option \<Rightarrow> 'b option \<Rightarrow> 'b option" where
  "join_opt j x y =
     (case x of None \<Rightarrow> y | Some a \<Rightarrow> (case y of None \<Rightarrow> x | Some b \<Rightarrow> Some (j a b)))"

lemma map_of_map_do_merge:
  "tbl_ok m \<Longrightarrow> map_of (map_do_merge mrg t m) k = join_opt mrg (map_of t k) (map_of m k)"
proof (induction m arbitrary: t)
  case Nil
  then show ?case by (simp add: map_do_merge_def join_opt_def split: option.splits)
next
  case (Cons p m)
  obtain k1 v1 where p: "p = (k1, v1)" by (cases p)
  have m: "tbl_ok m" and k1: "map_of m k1 = None"
    using Cons.prems p by (auto simp: tbl_ok_def map_of_eq_None_iff image_iff)
  have "map_do_merge mrg t (p # m) = map_do_merge mrg (insert_pair mrg k1 v1 t) m"
    by (simp add: map_do_merge_def p)
  then have "map_of (map_do_merge mrg t (p # m)) k
      = join_opt mrg (map_of (insert_pair mrg k1 v1 t) k) (map_of m k)"
    using Cons.IH [OF m] by simp
  then show ?case
    using k1 by (auto simp: p join_opt_def split: option.splits)
qed

text \<open>A map lattice over a value lattice is again a merge lattice, pointwise.\<close>

definition tbl_ok_vals :: "('v \<Rightarrow> bool) \<Rightarrow> ('k, 'v) table \<Rightarrow> bool" where
  "tbl_ok_vals okv t \<longleftrightarrow> tbl_ok t \<and> (\<forall>(k, v) \<in> set t. okv v)"

lemma tbl_ok_vals_iff: "tbl_ok_vals okv t \<longleftrightarrow> tbl_ok t \<and> (\<forall>k v. map_of t k = Some v \<longrightarrow> okv v)"
  by (auto simp: tbl_ok_vals_def tbl_ok_def dest: map_of_SomeD)

locale map_lattice = merge_lattice

sublocale map_lattice \<subseteq> m: merge_lattice "tbl_ok_vals ok" "\<lambda>t k. map_option abs (map_of t k)"
  "map_do_merge merge" "\<lambda>f g k. join_opt join (f k) (g k)"
proof (unfold_locales, goal_cases)
  case (1 x y)
  then show ?case
    by (auto simp: tbl_ok_vals_iff map_of_map_do_merge join_opt_def ok_merge split: option.splits)
next
  case (2 x y)
  then show ?case
    by (auto simp: tbl_ok_vals_iff map_of_map_do_merge join_opt_def abs_merge fun_eq_iff split: option.splits)
next
  case (3 a b c)
  then show ?case by (simp add: fun_eq_iff join_opt_def join_assoc split: option.splits)
next
  case (4 a b)
  then show ?case by (simp add: fun_eq_iff join_opt_def join_comm split: option.splits)
next
  case (5 a)
  then show ?case by (simp add: fun_eq_iff join_opt_def join_idem split: option.splits)
qed

interpretation bool_lattice: merge_lattice "\<lambda>_. True" id bool_do_merge "(\<or>)"
  by unfold_locales (auto simp: bool_do_merge_def)

interpretation set_lattice: merge_lattice distinct set set_do_merge "(\<union>)"
  by unfold_locales auto

interpretation ordered_set_lattice: merge_lattice "\<lambda>xs. sorted xs \<and> distinct xs" set ordered_set_do_merge "(\<union>)"
  by unfold_locales auto

interpretation max_lattice: map_lattice "\<lambda>_. True" id max_do_merge max
  by unfold_locales (auto simp: max_def)

section \<open>\<open>LWWPairLattice\<close> and \<open>PriorityLattice\<close>\<close>

record 'v timestamp_value_pair =
  tvp_timestamp :: u64
  tvp_value :: 'v

definition lww_do_merge :: "'v timestamp_value_pair \<Rightarrow> 'v timestamp_value_pair \<Rightarrow> 'v timestamp_value_pair" where
  "lww_do_merge element p =
     (if tvp_timestamp p \<ge> tvp_timestamp element
      then element\<lparr>tvp_timestamp := tvp_timestamp p, tvp_value := tvp_value p\<rparr>
      else element)"

definition lww_size :: "string timestamp_value_pair \<Rightarrow> u32" where
  "lww_size p = of_nat (length (tvp_value p) + 8)"

record ('p, 'v) priority_value_pair =
  pvp_priority :: 'p
  pvp_value :: 'v

definition priority_do_merge ::
  "('p::linorder, 'v) priority_value_pair \<Rightarrow> ('p, 'v) priority_value_pair \<Rightarrow> ('p, 'v) priority_value_pair" where
  "priority_do_merge element p = (if pvp_priority p < pvp_priority element then p else element)"

section \<open>The causal lattices\<close>

type_synonym vector_clock = "(string, u32) table"

definition vc_merge :: "vector_clock \<Rightarrow> vector_clock \<Rightarrow> vector_clock" where
  "vc_merge = map_do_merge max_do_merge"

text \<open>\<open>operator==\<close> of \<open>std::unordered_map\<close>: as many entries, and each found with an equal value.\<close>

definition tbl_eq :: "('k, 'v) table \<Rightarrow> ('k, 'v) table \<Rightarrow> bool" where
  "tbl_eq t u \<longleftrightarrow> length t = length u \<and> (\<forall>(k, v) \<in> set t. map_of u k = Some v)"

record vector_clock_value_pair =
  vcp_vector_clock :: vector_clock
  vcp_value :: "string list"

definition vcp_size :: "vector_clock_value_pair \<Rightarrow> u32" where
  "vcp_size p = of_nat (length (vcp_vector_clock p)) * 2 * 4 + of_nat (length (vcp_value p))"

definition single_key_causal_do_merge ::
  "vector_clock_value_pair \<Rightarrow> vector_clock_value_pair \<Rightarrow> vector_clock_value_pair" where
  "single_key_causal_do_merge element p =
     (let prev = vcp_vector_clock element;
          vc = vc_merge prev (vcp_vector_clock p)
      in if tbl_eq vc (vcp_vector_clock p)
         then element\<lparr>vcp_vector_clock := vc, vcp_value := vcp_value p\<rparr>
         else if \<not> tbl_eq vc prev
         then element\<lparr>vcp_vector_clock := vc, vcp_value := set_do_merge (vcp_value element) (vcp_value p)\<rparr>
         else element\<lparr>vcp_vector_clock := vc\<rparr>)"

record multi_key_causal_payload =
  mkp_vector_clock :: vector_clock
  mkp_dependencies :: "(string, vector_clock) table"
  mkp_value :: "string list"

definition mkp_size :: "multi_key_causal_payload \<Rightarrow> u32" where
  "mkp_size p =
     (let dep_size = fold (\<lambda>(k, vc) n. n + of_nat (length k) + of_nat (length vc) * 2 * 4) (mkp_dependencies p) 0
      in of_nat (length (mkp_vector_clock p)) * 2 * 4 + dep_size + of_nat (length (mkp_value p)))"

definition multi_key_causal_do_merge ::
  "multi_key_causal_payload \<Rightarrow> multi_key_causal_payload \<Rightarrow> multi_key_causal_payload" where
  "multi_key_causal_do_merge element p =
     (let prev = mkp_vector_clock element;
          vc = vc_merge prev (mkp_vector_clock p)
      in if tbl_eq vc (mkp_vector_clock p)
         then element\<lparr>mkp_vector_clock := vc, mkp_dependencies := mkp_dependencies p, mkp_value := mkp_value p\<rparr>
         else if \<not> tbl_eq vc prev
         then element\<lparr>mkp_vector_clock := vc,
                mkp_dependencies := map_do_merge vc_merge (mkp_dependencies element) (mkp_dependencies p),
                mkp_value := set_do_merge (mkp_value element) (mkp_value p)\<rparr>
         else element\<lparr>mkp_vector_clock := vc\<rparr>)"

section \<open>Clock order\<close>

text \<open>\<open>vc_le a b\<close>: every component of \<open>a\<close> is present in \<open>b\<close> with at least its value.\<close>

definition vc_le :: "vector_clock \<Rightarrow> vector_clock \<Rightarrow> bool" where
  "vc_le a b \<longleftrightarrow> (\<forall>k v. map_of a k = Some v \<longrightarrow> (\<exists>w. map_of b k = Some w \<and> v \<le> w))"

lemma map_of_vc_merge: "tbl_ok b \<Longrightarrow> map_of (vc_merge a b) k = join_opt max (map_of a k) (map_of b k)"
  by (simp add: vc_merge_def map_of_map_do_merge join_opt_def split: option.splits)

lemma tbl_ok_vc_merge [simp]: "tbl_ok a \<Longrightarrow> tbl_ok (vc_merge a b)"
  by (simp add: vc_merge_def)

lemma tbl_eq_iff:
  assumes "tbl_ok t" and "tbl_ok u"
  shows "tbl_eq t u \<longleftrightarrow> map_of t = map_of u"
proof
  assume eq: "tbl_eq t u"
  then have "set t \<subseteq> set u"
    using map_of_SomeD by (fastforce simp: tbl_eq_def)
  moreover have "distinct t" "distinct u"
    using assms by (simp_all add: tbl_ok_def distinct_map)
  ultimately have "set t = set u"
    using eq by (intro length_eq_imp_set_eq) (simp_all add: tbl_eq_def)
  then show "map_of t = map_of u"
    using assms by (intro map_of_inject_set [THEN iffD2]) (simp_all add: tbl_ok_def)
next
  assume eq: "map_of t = map_of u"
  then have st: "set t = set u"
    using assms by (intro map_of_inject_set [THEN iffD1]) (simp_all add: tbl_ok_def)
  moreover have "length t = length u"
    using assms st by (intro distinct_same_set_length) (simp_all add: tbl_ok_def distinct_map)
  ultimately show "tbl_eq t u"
    using assms by (auto simp: tbl_eq_def tbl_ok_def)
qed

lemma join_opt_max_right:
  "join_opt max x y = y \<longleftrightarrow> (\<forall>v. x = Some v \<longrightarrow> (\<exists>w. y = Some w \<and> (v::u32) \<le> w))"
  by (cases x; cases y) (auto simp: join_opt_def max_def)

lemma join_opt_max_left:
  "join_opt max x y = x \<longleftrightarrow> (\<forall>v. y = Some v \<longrightarrow> (\<exists>w. x = Some w \<and> (v::u32) \<le> w))"
  by (cases x; cases y) (auto simp: join_opt_def max_def)

lemma vc_merge_eq_right: "tbl_ok a \<Longrightarrow> tbl_ok b \<Longrightarrow> tbl_eq (vc_merge a b) b \<longleftrightarrow> vc_le a b"
  by (simp add: tbl_eq_iff fun_eq_iff map_of_vc_merge join_opt_max_right vc_le_def)

lemma vc_merge_eq_left: "tbl_ok a \<Longrightarrow> tbl_ok b \<Longrightarrow> tbl_eq (vc_merge a b) a \<longleftrightarrow> vc_le b a"
  by (simp add: tbl_eq_iff fun_eq_iff map_of_vc_merge join_opt_max_left vc_le_def)

lemma vc_merge_comm: "tbl_ok a \<Longrightarrow> tbl_ok b \<Longrightarrow> map_of (vc_merge a b) = map_of (vc_merge b a)"
  by (simp add: fun_eq_iff map_of_vc_merge join_opt_def max.commute split: option.splits)

lemma vc_le_antisym: "vc_le a b \<Longrightarrow> vc_le b a \<Longrightarrow> map_of a = map_of b"
proof (rule ext)
  fix k assume "vc_le a b" "vc_le b a"
  then show "map_of a k = map_of b k"
    unfolding vc_le_def by (cases "map_of a k"; cases "map_of b k") fastforce+
qed

section \<open>Properties\<close>

text \<open>
  C37. Vector clocks converge: however often and in whatever order two replicas merge the same
  set of clocks into the same start clock, every component of the results is equal, and it is
  the largest value seen for that component.
\<close>

theorem vector_clock_replicas_converge:
  assumes "tbl_ok vc" and "\<forall>u \<in> set us. tbl_ok u" and "set us = set ws"
  shows "map_of (foldl vc_merge vc us) = map_of (foldl vc_merge vc ws)
     \<and> (\<forall>u \<in> set us. vc_le u (foldl vc_merge vc us))"
proof
  have "(\<lambda>k. map_option id (map_of (foldl (map_do_merge max_do_merge) vc us) k))
      = (\<lambda>k. map_option id (map_of (foldl (map_do_merge max_do_merge) vc ws) k))"
    using assms by (intro max_lattice.m.replicas_converge) (auto simp: tbl_ok_vals_def)
  then show "map_of (foldl vc_merge vc us) = map_of (foldl vc_merge vc ws)"
    by (simp add: vc_merge_def option.map_id)
next
  have mono: "vc_le u (foldl vc_merge v xs)" if "vc_le u v" "\<forall>x \<in> set xs. tbl_ok x" for u v xs
    using that
  proof (induction xs arbitrary: v)
    case (Cons x xs)
    have "vc_le u (vc_merge v x)"
      using Cons.prems by (fastforce simp: vc_le_def map_of_vc_merge join_opt_def max_def split: option.splits)
    with Cons show ?case by simp
  qed simp
  have "vc_le u (foldl vc_merge v xs)" if "u \<in> set xs" "\<forall>x \<in> set xs. tbl_ok x" for u v xs
    using that
  proof (induction xs arbitrary: v)
    case (Cons x xs)
    have "vc_le x (vc_merge v x)"
      using Cons.prems by (auto simp: vc_le_def map_of_vc_merge join_opt_def split: option.splits)
    with Cons mono show ?case by auto
  qed simp
  then show "\<forall>u \<in> set us. vc_le u (foldl vc_merge vc us)"
    using assms(2) by blast
qed

theorem vector_clock_replicas_converge_witness:
  "map_of (foldl vc_merge [] [ [(''a'', 1)], [(''b'', 2), (''a'', 3)] ])
     = map_of (foldl vc_merge [] [ [(''b'', 2), (''a'', 3)], [(''a'', 1)], [(''a'', 1)] ])
   \<and> vc_le [(''a'', 1)] (foldl vc_merge [] [ [(''a'', 1)], [(''b'', 2), (''a'', 3)] ])"
  using vector_clock_replicas_converge [of "[]" "[ [(''a'', 1)], [(''b'', 2), (''a'', 3)] ]"
      "[ [(''b'', 2), (''a'', 3)], [(''a'', 1)], [(''a'', 1)] ]"]
  by (auto simp: tbl_ok_def)

text \<open>
  The causal merge keeps what causality says: an incoming version whose clock dominates
  replaces the value, one that is dominated leaves it, and concurrent versions are kept
  together; in every case the clock becomes the join of the two.
\<close>

theorem single_key_causal_merge_cases:
  assumes "tbl_ok (vcp_vector_clock e)" and "tbl_ok (vcp_vector_clock p)"
  shows "map_of (vcp_vector_clock (single_key_causal_do_merge e p))
           = (\<lambda>k. join_opt max (map_of (vcp_vector_clock e) k) (map_of (vcp_vector_clock p) k))
     \<and> set (vcp_value (single_key_causal_do_merge e p)) =
           (if vc_le (vcp_vector_clock e) (vcp_vector_clock p) then set (vcp_value p)
            else if vc_le (vcp_vector_clock p) (vcp_vector_clock e) then set (vcp_value e)
            else set (vcp_value e) \<union> set (vcp_value p))"
  using assms
  by (simp add: single_key_causal_do_merge_def Let_def vc_merge_eq_right vc_merge_eq_left
      map_of_vc_merge fun_eq_iff)

theorem single_key_causal_merge_cases_witness:
  "set (vcp_value (single_key_causal_do_merge
      \<lparr>vcp_vector_clock = [(''a'', 1)], vcp_value = [''x'']\<rparr>
      \<lparr>vcp_vector_clock = [(''b'', 1)], vcp_value = [''y'']\<rparr>)) = {''x'', ''y''}"
  using single_key_causal_merge_cases
    [of "\<lparr>vcp_vector_clock = [(''a'', 1)], vcp_value = [''x'']\<rparr>"
        "\<lparr>vcp_vector_clock = [(''b'', 1)], vcp_value = [''y'']\<rparr>"]
  by (simp add: vc_le_def tbl_ok_def insert_commute)

text \<open>
  Merging multi-key causal payloads commutes unless the two carry the same clock: the two
  orders of delivery give the same clock, the same values and the same dependencies whenever
  the clocks differ.
\<close>

theorem multi_key_causal_merge_commutes:
  assumes "tbl_ok (mkp_vector_clock x)" and "tbl_ok (mkp_vector_clock y)"
    and "tbl_ok_vals tbl_ok (mkp_dependencies x)" and "tbl_ok_vals tbl_ok (mkp_dependencies y)"
    and "map_of (mkp_vector_clock x) \<noteq> map_of (mkp_vector_clock y)"
  shows "map_of (mkp_vector_clock (multi_key_causal_do_merge x y))
           = map_of (mkp_vector_clock (multi_key_causal_do_merge y x))
     \<and> set (mkp_value (multi_key_causal_do_merge x y)) = set (mkp_value (multi_key_causal_do_merge y x))
     \<and> (\<forall>k. map_option map_of (map_of (mkp_dependencies (multi_key_causal_do_merge x y)) k)
            = map_option map_of (map_of (mkp_dependencies (multi_key_causal_do_merge y x)) k))"
proof -
  let ?vx = "mkp_vector_clock x" and ?vy = "mkp_vector_clock y"
  let ?dx = "mkp_dependencies x" and ?dy = "mkp_dependencies y"
  have ex: "\<not> (vc_le ?vx ?vy \<and> vc_le ?vy ?vx)"
    using vc_le_antisym assms(5) by blast
  have dep: "map_option map_of (map_of (map_do_merge vc_merge ?dx ?dy) k)
      = map_option map_of (map_of (map_do_merge vc_merge ?dy ?dx) k)" for k
    using assms(3,4)
    by (auto simp: tbl_ok_vals_iff map_of_map_do_merge join_opt_def vc_merge_comm split: option.splits)
  show ?thesis
    using ex assms(1,2)
    by (auto simp: multi_key_causal_do_merge_def Let_def vc_merge_eq_right vc_merge_eq_left
        vc_merge_comm dep)
qed

theorem multi_key_causal_merge_commutes_witness:
  "set (mkp_value (multi_key_causal_do_merge
      \<lparr>mkp_vector_clock = [(''a'', 1)], mkp_dependencies = [], mkp_value = [''x'']\<rparr>
      \<lparr>mkp_vector_clock = [(''a'', 2)], mkp_dependencies = [], mkp_value = [''y'']\<rparr>))
   = set (mkp_value (multi_key_causal_do_merge
      \<lparr>mkp_vector_clock = [(''a'', 2)], mkp_dependencies = [], mkp_value = [''y'']\<rparr>
      \<lparr>mkp_vector_clock = [(''a'', 1)], mkp_dependencies = [], mkp_value = [''x'']\<rparr>))"
  using multi_key_causal_merge_commutes
    [of "\<lparr>mkp_vector_clock = [(''a'', 1)], mkp_dependencies = [], mkp_value = [''x'']\<rparr>"
        "\<lparr>mkp_vector_clock = [(''a'', 2)], mkp_dependencies = [], mkp_value = [''y'']\<rparr>"]
  by (simp add: tbl_ok_def tbl_ok_vals_def fun_eq_iff)

text \<open>
  Last writer wins: after any sequence of merges the register holds the pair with the
  largest timestamp, and among pairs with that timestamp the one merged last (so the result
  depends on the delivery order exactly when timestamps tie).
\<close>

theorem lww_keeps_last_of_largest:
  fixes x :: "'v timestamp_value_pair"
  shows "\<exists>xs1 xs2 w. x # xs = xs1 @ w # xs2 \<and> foldl lww_do_merge x xs = w
     \<and> (\<forall>u \<in> set xs1. tvp_timestamp u \<le> tvp_timestamp w)
     \<and> (\<forall>u \<in> set xs2. tvp_timestamp u < tvp_timestamp w)"
proof (induction xs rule: rev_induct)
  case Nil
  show ?case by (intro exI [of _ "[]"]) simp
next
  case (snoc y xs)
  then obtain xs1 xs2 w where w: "x # xs = xs1 @ w # xs2" "foldl lww_do_merge x xs = w"
    "\<forall>u \<in> set xs1. tvp_timestamp u \<le> tvp_timestamp w" "\<forall>u \<in> set xs2. tvp_timestamp u < tvp_timestamp w"
    by blast
  show ?case
  proof (cases "tvp_timestamp w \<le> tvp_timestamp y")
    case True
    have eq: "w\<lparr>tvp_timestamp := tvp_timestamp y, tvp_value := tvp_value y\<rparr> = y" by simp
    have "\<forall>u \<in> set (xs1 @ w # xs2). tvp_timestamp u \<le> tvp_timestamp y"
      using w(3,4) True by fastforce
    moreover have "foldl lww_do_merge x (xs @ [y]) = y"
      using w(2) True eq by (simp add: lww_do_merge_def)
    ultimately show ?thesis
      using w(1) by (intro exI [of _ "x # xs"] exI [of _ "[]"] exI [of _ y]) simp
  next
    case False
    then have "foldl lww_do_merge x (xs @ [y]) = w"
      using w(2) by (simp add: lww_do_merge_def)
    with False w show ?thesis
      by (intro exI [of _ xs1] exI [of _ "xs2 @ [y]"] exI [of _ w]) auto
  qed
qed

theorem lww_keeps_last_of_largest_witness:
  "\<exists>xs1 xs2 w. [\<lparr>tvp_timestamp = 5, tvp_value = ''a''\<rparr>, \<lparr>tvp_timestamp = 7, tvp_value = ''b''\<rparr>,
        \<lparr>tvp_timestamp = 7, tvp_value = ''c''\<rparr>] = xs1 @ w # xs2
     \<and> foldl lww_do_merge \<lparr>tvp_timestamp = 5, tvp_value = ''a''\<rparr>
         [\<lparr>tvp_timestamp = 7, tvp_value = ''b''\<rparr>, \<lparr>tvp_timestamp = 7, tvp_value = ''c''\<rparr>] = w
     \<and> list_all (\<lambda>u. tvp_timestamp u \<le> tvp_timestamp w) xs1
     \<and> list_all (\<lambda>u. tvp_timestamp u < tvp_timestamp w) xs2"
  unfolding list_all_iff by (rule lww_keeps_last_of_largest)

end
