(* ===== verification/Lattice_Codec.thy ===== *)
theory Lattice_Codec
  imports Anna_Lattices "HOL-Library.List_Lexorder" "HOL-Library.Char_ord"
begin

text \<open>
  The second half of \<^verbatim>\<open>common/include/common.hpp\<close>: the lattice values the key-value store
  exchanges, as protobuf messages. The message classes are generated from
  \<^verbatim>\<open>common/proto/anna.proto\<close>; their fields are records here, and the generated
  \<open>SerializeToString\<close> and \<open>ParseFromString\<close> are parameters (\<open>ser\<close>, \<open>par\<close>), and so is the
  type \<open>'w\<close> of the bytes on the wire. What is relied on
  is that parsing a serialized message gives back its fields; for map fields, whose order on
  the wire is undefined, it gives back the same mapping.
\<close>

section \<open>Messages\<close>

record lww_value =
  lwwv_timestamp :: u64
  lwwv_value :: string

record set_value =
  setv_values :: "string list"

record single_key_causal_value =
  skcv_vector_clock :: vector_clock
  skcv_values :: "string list"

record key_version =
  kv_key :: string
  kv_vector_clock :: vector_clock

record multi_key_causal_value =
  mkcv_vector_clock :: vector_clock
  mkcv_dependencies :: "key_version list"
  mkcv_values :: "string list"

record priority_value =
  prv_priority :: real
  prv_value :: string

section \<open>\<open>serialize\<close>\<close>

definition serialize_lww :: "(lww_value \<Rightarrow> 'w) \<Rightarrow> string timestamp_value_pair \<Rightarrow> 'w" where
  "serialize_lww ser l = ser \<lparr>lwwv_timestamp = tvp_timestamp l, lwwv_value = tvp_value l\<rparr>"

definition serialize_timestamped :: "(lww_value \<Rightarrow> 'w) \<Rightarrow> u64 \<Rightarrow> string \<Rightarrow> 'w" where
  "serialize_timestamped ser ts v = ser \<lparr>lwwv_timestamp = ts, lwwv_value = v\<rparr>"

definition set_values_of :: "string list \<Rightarrow> set_value" where
  "set_values_of xs = fold (\<lambda>v m. m\<lparr>setv_values := setv_values m @ [v]\<rparr>) xs \<lparr>setv_values = []\<rparr>"

definition serialize_set_lattice :: "(set_value \<Rightarrow> 'w) \<Rightarrow> string list \<Rightarrow> 'w" where
  "serialize_set_lattice ser l = ser (set_values_of l)"

definition serialize_ordered_set_lattice :: "(set_value \<Rightarrow> 'w) \<Rightarrow> string list \<Rightarrow> 'w" where
  "serialize_ordered_set_lattice ser l = ser (set_values_of l)"

definition serialize_set :: "(set_value \<Rightarrow> 'w) \<Rightarrow> string list \<Rightarrow> 'w" where
  "serialize_set ser s = ser (set_values_of s)"

definition put_clock :: "vector_clock \<Rightarrow> vector_clock" where
  "put_clock vc = fold (\<lambda>(k, v) m. tput k v m) vc []"

definition serialize_single_causal ::
  "(single_key_causal_value \<Rightarrow> 'w) \<Rightarrow> vector_clock_value_pair \<Rightarrow> 'w" where
  "serialize_single_causal ser l =
     ser \<lparr>skcv_vector_clock = put_clock (vcp_vector_clock l), skcv_values = vcp_value l\<rparr>"

definition serialize_multi_causal ::
  "(multi_key_causal_value \<Rightarrow> 'w) \<Rightarrow> multi_key_causal_payload \<Rightarrow> 'w" where
  "serialize_multi_causal ser l =
     ser \<lparr>mkcv_vector_clock = put_clock (mkp_vector_clock l),
          mkcv_dependencies =
            map (\<lambda>(k, vc). \<lparr>kv_key = k, kv_vector_clock = put_clock vc\<rparr>) (mkp_dependencies l),
          mkcv_values = mkp_value l\<rparr>"

definition serialize_priority ::
  "(priority_value \<Rightarrow> 'w) \<Rightarrow> (real, string) priority_value_pair \<Rightarrow> 'w" where
  "serialize_priority ser l = ser \<lparr>prv_priority = pvp_priority l, prv_value = pvp_value l\<rparr>"

section \<open>\<open>deserialize\<close>\<close>

definition deserialize_lww :: "('w \<Rightarrow> lww_value) \<Rightarrow> 'w \<Rightarrow> string timestamp_value_pair" where
  "deserialize_lww par s =
     (let m = par s in \<lparr>tvp_timestamp = lwwv_timestamp m, tvp_value = lwwv_value m\<rparr>)"

definition deserialize_set :: "('w \<Rightarrow> set_value) \<Rightarrow> 'w \<Rightarrow> string list" where
  "deserialize_set par s = fold ins (setv_values (par s)) []"

definition deserialize_ordered_set :: "('w \<Rightarrow> set_value) \<Rightarrow> 'w \<Rightarrow> string list" where
  "deserialize_ordered_set par s = fold insort_insert (setv_values (par s)) []"

definition deserialize_causal ::
  "('w \<Rightarrow> single_key_causal_value) \<Rightarrow> 'w \<Rightarrow> single_key_causal_value" where
  "deserialize_causal par s = par s"

definition deserialize_multi_key_causal ::
  "('w \<Rightarrow> multi_key_causal_value) \<Rightarrow> 'w \<Rightarrow> multi_key_causal_value" where
  "deserialize_multi_key_causal par s = par s"

definition deserialize_priority ::
  "('w \<Rightarrow> priority_value) \<Rightarrow> 'w \<Rightarrow> (real, string) priority_value_pair" where
  "deserialize_priority par s =
     (let m = par s in \<lparr>pvp_priority = prv_priority m, pvp_value = prv_value m\<rparr>)"

definition insert_clock :: "vector_clock \<Rightarrow> vector_clock" where
  "insert_clock m = fold (\<lambda>(k, v). insert_pair max_do_merge k v) m []"

definition to_vector_clock_value_pair :: "single_key_causal_value \<Rightarrow> vector_clock_value_pair" where
  "to_vector_clock_value_pair cv =
     \<lparr>vcp_vector_clock = insert_clock (skcv_vector_clock cv), vcp_value = fold ins (skcv_values cv) []\<rparr>"

definition to_multi_key_causal_payload :: "multi_key_causal_value \<Rightarrow> multi_key_causal_payload" where
  "to_multi_key_causal_payload m =
     \<lparr>mkp_vector_clock = insert_clock (mkcv_vector_clock m),
      mkp_dependencies =
        fold (\<lambda>dep. insert_pair vc_merge (kv_key dep) (insert_clock (kv_vector_clock dep)))
          (mkcv_dependencies m) [],
      mkp_value = fold ins (mkcv_values m) []\<rparr>"

section \<open>What protobuf promises for map fields\<close>

definition clock_equiv :: "vector_clock \<Rightarrow> vector_clock \<Rightarrow> bool" where
  "clock_equiv a b \<longleftrightarrow> tbl_ok a \<and> map_of a = map_of b"

definition mkcv_equiv :: "multi_key_causal_value \<Rightarrow> multi_key_causal_value \<Rightarrow> bool" where
  "mkcv_equiv a b \<longleftrightarrow>
     clock_equiv (mkcv_vector_clock a) (mkcv_vector_clock b)
     \<and> list_all2 (\<lambda>x y. kv_key x = kv_key y \<and> clock_equiv (kv_vector_clock x) (kv_vector_clock y))
         (mkcv_dependencies a) (mkcv_dependencies b)
     \<and> mkcv_values a = mkcv_values b"

definition mkcv_codec :: "(multi_key_causal_value \<Rightarrow> 'w) \<Rightarrow> ('w \<Rightarrow> multi_key_causal_value) \<Rightarrow> bool" where
  "mkcv_codec ser par \<longleftrightarrow>
     (\<forall>m. tbl_ok (mkcv_vector_clock m) \<and> (\<forall>d \<in> set (mkcv_dependencies m). tbl_ok (kv_vector_clock d))
        \<longrightarrow> mkcv_equiv (par (ser m)) m)"

section \<open>Lemmas\<close>

lemma fold_tput_clock: "tbl_ok vc \<Longrightarrow> map_of (fold (\<lambda>(k, v) m. tput k v m) vc acc) k =
    (case map_of vc k of Some v \<Rightarrow> Some v | None \<Rightarrow> map_of acc k)"
proof (induction vc arbitrary: acc)
  case (Cons p vc)
  then have "tbl_ok vc" and "map_of vc (fst p) = None"
    by (auto simp: tbl_ok_def map_of_eq_None_iff)
  with Cons.IH show ?case by (cases p) (auto split: option.splits)
qed simp

lemma tbl_ok_fold_tput: "tbl_ok acc \<Longrightarrow> tbl_ok (fold (\<lambda>(k, v) m. tput k v m) vc acc)"
  by (induction vc arbitrary: acc) (auto simp: case_prod_unfold)

lemma map_of_put_clock [simp]: "tbl_ok vc \<Longrightarrow> map_of (put_clock vc) = map_of vc"
  by (rule ext) (simp add: put_clock_def fold_tput_clock split: option.splits)

lemma tbl_ok_put_clock [simp]: "tbl_ok (put_clock vc)"
  by (simp add: put_clock_def tbl_ok_fold_tput)

lemma insert_clock_merge: "insert_clock m = vc_merge [] m"
  by (simp add: insert_clock_def vc_merge_def map_do_merge_def)

lemma map_of_insert_clock [simp]: "tbl_ok m \<Longrightarrow> map_of (insert_clock m) = map_of m"
  by (rule ext) (simp add: insert_clock_merge map_of_vc_merge join_opt_def)

lemma tbl_ok_insert_clock [simp]: "tbl_ok (insert_clock m)"
  by (simp add: insert_clock_merge)

lemma set_fold_ins [simp]: "set (fold ins xs r) = set r \<union> set xs"
  by (induction xs arbitrary: r) auto

lemma set_values_of_values [simp]: "setv_values (set_values_of xs) = xs"
proof -
  have "setv_values (fold (\<lambda>v m. m\<lparr>setv_values := setv_values m @ [v]\<rparr>) xs m) = setv_values m @ xs" for m :: set_value
    by (induction xs arbitrary: m) auto
  then show ?thesis by (simp add: set_values_of_def)
qed

lemma insert_deps:
  assumes "distinct (map kv_key ds)"
  shows "map_of (fold (\<lambda>dep. insert_pair vc_merge (kv_key dep) (insert_clock (kv_vector_clock dep))) ds acc) k
     = (case find (\<lambda>d. kv_key d = k) ds of
          Some d \<Rightarrow> Some (case map_of acc k of Some old \<Rightarrow> vc_merge old (insert_clock (kv_vector_clock d))
                                           | None \<Rightarrow> insert_clock (kv_vector_clock d))
        | None \<Rightarrow> map_of acc k)"
  using assms
proof (induction ds arbitrary: acc)
  case (Cons d ds)
  have "find (\<lambda>d'. kv_key d' = kv_key d) ds = None"
    using Cons.prems by (auto simp: find_None_iff) (metis imageI)
  with Cons show ?case by (auto split: option.splits)
qed simp

lemma find_deps:
  assumes "list_all2 (\<lambda>x y. kv_key x = kv_key y \<and> clock_equiv (kv_vector_clock x) (kv_vector_clock y)) xs
     (map (\<lambda>(k, vc). \<lparr>kv_key = k, kv_vector_clock = put_clock vc\<rparr>) t)"
    and "\<forall>(k, vc) \<in> set t. tbl_ok vc"
  shows "map kv_key xs = map fst t \<and>
    map_option (\<lambda>d. map_of (insert_clock (kv_vector_clock d))) (find (\<lambda>d. kv_key d = k) xs)
      = map_option map_of (map_of t k)"
  using assms
proof (induction xs arbitrary: t)
  case Nil
  then show ?case by simp
next
  case (Cons x xs)
  then obtain k1 vc1 t1 where t: "t = (k1, vc1) # t1" by (cases t) auto
  with Cons show ?case by (auto simp: clock_equiv_def)
qed

section \<open>Properties\<close>

text \<open>
  A multi-key causal value survives the wire: serializing a payload, parsing it and
  rebuilding the lattice gives the same vector clock, the same set of values and, for every
  key, the same dependency clock, whatever order the map entries arrive in.
\<close>

theorem multi_causal_roundtrip:
  assumes "mkcv_codec ser par"
    and "tbl_ok (mkp_vector_clock l)" and "tbl_ok_vals tbl_ok (mkp_dependencies l)"
  shows "let r = to_multi_key_causal_payload (deserialize_multi_key_causal par (serialize_multi_causal ser l))
     in map_of (mkp_vector_clock r) = map_of (mkp_vector_clock l)
        \<and> set (mkp_value r) = set (mkp_value l)
        \<and> (\<forall>k. map_option map_of (map_of (mkp_dependencies r) k)
               = map_option map_of (map_of (mkp_dependencies l) k))"
proof -
  define deps where
    "deps = map (\<lambda>(k, vc). \<lparr>kv_key = k, kv_vector_clock = put_clock vc\<rparr>) (mkp_dependencies l)"
  define m where "m = \<lparr>mkcv_vector_clock = put_clock (mkp_vector_clock l),
    mkcv_dependencies = deps, mkcv_values = mkp_value l\<rparr>"
  have ok: "tbl_ok (mkcv_vector_clock m) \<and> (\<forall>d \<in> set (mkcv_dependencies m). tbl_ok (kv_vector_clock d))"
    by (auto simp: m_def deps_def)
  have eqv: "mkcv_equiv (par (ser m)) m"
    using assms(1) ok unfolding mkcv_codec_def by blast
  have vals: "\<forall>(k, vc) \<in> set (mkp_dependencies l). tbl_ok vc"
    and keys: "distinct (map fst (mkp_dependencies l))"
    using assms(3) by (auto simp: tbl_ok_vals_def tbl_ok_def)
  have f: "map kv_key (mkcv_dependencies (par (ser m))) = map fst (mkp_dependencies l) \<and>
      map_option (\<lambda>d. map_of (insert_clock (kv_vector_clock d))) (find (\<lambda>d. kv_key d = k) (mkcv_dependencies (par (ser m))))
        = map_option map_of (map_of (mkp_dependencies l) k)" for k
    using eqv vals by (intro find_deps) (simp_all add: mkcv_equiv_def m_def deps_def)
  have deps_eq: "map_option map_of (map_of (fold (\<lambda>dep. insert_pair vc_merge (kv_key dep) (insert_clock (kv_vector_clock dep)))
       (mkcv_dependencies (par (ser m))) []) k) = map_option map_of (map_of (mkp_dependencies l) k)" for k
  proof -
    have "distinct (map kv_key (mkcv_dependencies (par (ser m))))"
      using f keys by metis
    then show ?thesis
      using conjunct2 [OF f, of k]
      by (cases "find (\<lambda>d. kv_key d = k) (mkcv_dependencies (par (ser m)))") (simp_all add: insert_deps)
  qed
  have "ser m = serialize_multi_causal ser l"
    by (simp add: serialize_multi_causal_def m_def deps_def)
  then show ?thesis
    using eqv assms(2) deps_eq
    by (simp add: Let_def to_multi_key_causal_payload_def deserialize_multi_key_causal_def
        mkcv_equiv_def clock_equiv_def m_def)
qed

theorem multi_causal_roundtrip_witness:
  "let l = \<lparr>mkp_vector_clock = [(''n1'', 4)], mkp_dependencies = [(''k'', [(''n2'', 1)])], mkp_value = [''v'']\<rparr>;
       r = to_multi_key_causal_payload (deserialize_multi_key_causal id (serialize_multi_causal id l))
   in map_of (mkp_vector_clock r) = map_of (mkp_vector_clock l) \<and> set (mkp_value r) = set (mkp_value l)
      \<and> (\<forall>k. map_option map_of (map_of (mkp_dependencies r) k)
             = map_option map_of (map_of (mkp_dependencies l) k))"
proof -
  have "mkcv_codec id id"
    by (auto simp: mkcv_codec_def mkcv_equiv_def clock_equiv_def list_all2_same)
  then show ?thesis
    using multi_causal_roundtrip [of id id
        "\<lparr>mkp_vector_clock = [(''n1'', 4)], mkp_dependencies = [(''k'', [(''n2'', 1)])], mkp_value = [''v'']\<rparr>"]
    by (simp add: Let_def tbl_ok_def tbl_ok_vals_def)
qed

end
