(* ===== verification/Kvs_Client.thy ===== *)
theory Kvs_Client
  imports Messages Lattice_Codec
begin

text \<open>
  The asynchronous client of the durable key-value store
  (\<^verbatim>\<open>common/include/anna_client/kvs_client.hpp\<close>). A request whose worker address is not cached
  waits in \<open>pending_request_map_\<close> for the routing tier; a request that was sent waits in
  \<open>pending_get_response_map_\<close> (by key) or \<open>pending_put_response_map_\<close> (by key and request
  identifier); \<open>receive_async\<close> takes at most one address response and one data response, then
  reports the requests that waited longer than the timeout. One call reads the clock once
  (\<open>now\<close>). The locale \<open>async_requests\<close> is the contract the communication helper relies on: a
  request is never forgotten, it stays pending until it is reported.
\<close>

section \<open>Messages of the store\<close>

datatype request_type = RT_UNSPECIFIED | GET | PUT | UnrecognizedRequest int

datatype lattice_type =
    LATTICE_NONE | LWW | LATTICE_SET | SINGLE_CAUSAL | MULTI_CAUSAL | ORDERED_SET | PRIORITY | UnrecognizedLattice int

datatype anna_error =
    NO_ERROR | KEY_DNE | WRONG_THREAD | ANNA_TIMEOUT | LATTICE_ERROR | NO_SERVERS | UnrecognizedAnnaError int

record key_tuple =
  kt_key :: string
  kt_lattice_type :: lattice_type
  kt_error :: anna_error
  kt_payload :: string
  kt_address_cache_size :: u32
  kt_invalidate :: bool

record key_request =
  kreq_type :: request_type
  kreq_tuples :: "key_tuple list"
  kreq_response_address :: string
  kreq_request_id :: string

record key_response =
  kresp_type :: request_type
  kresp_tuples :: "key_tuple list"
  kresp_response_id :: string
  kresp_error :: anna_error

record key_address_request =
  kar_response_address :: string
  kar_keys :: "string list"
  kar_request_id :: string

record key_address_response =
  kas_addresses :: "(string \<times> string list) list"
  kas_error :: anna_error

definition empty_key_tuple :: key_tuple where
  "empty_key_tuple = \<lparr>kt_key = [], kt_lattice_type = LATTICE_NONE, kt_error = NO_ERROR, kt_payload = [],
     kt_address_cache_size = 0, kt_invalidate = False\<rparr>"

section \<open>State\<close>

record pending_request =
  pr_tp :: time_point
  pr_worker_addr :: string
  pr_request :: key_request

record kvs_client =
  kv_routing_threads :: "endpoint list"
  kv_rid :: u32
  kv_seed :: u32
  kv_ut :: endpoint
  kv_key_address_cache :: "(string, string list) table"
  kv_timeout :: u32
  kv_pending_request :: "(string, time_point \<times> key_request list) table"
  kv_pending_get :: "(string, pending_request) table"
  kv_pending_put :: "(string, (string, pending_request) table) table"

datatype kvs_out = OutKeyRequest key_request | OutAddressRequest key_address_request

type_synonym kvs_sent = "(string \<times> kvs_out) list"

definition kvs_client_init :: "endpoint list \<Rightarrow> string \<Rightarrow> u32 \<Rightarrow> u32 \<Rightarrow> u32 \<Rightarrow> kvs_client" where
  "kvs_client_init routing ip tid timeout seed =
     \<lparr>kv_routing_threads = routing, kv_rid = 0, kv_seed = seed + tid, kv_ut = mk_endpoint ip tid,
      kv_key_address_cache = [], kv_timeout = timeout, kv_pending_request = [], kv_pending_get = [],
      kv_pending_put = []\<rparr>"

definition clear_cache :: "kvs_client \<Rightarrow> kvs_client" where
  "clear_cache st = st\<lparr>kv_key_address_cache := []\<rparr>"

abbreviation queued :: "kvs_client \<Rightarrow> string \<Rightarrow> key_request list" where
  "queued st k \<equiv> snd (tget (0, []) (kv_pending_request st) k)"

section \<open>Request identifiers and the routing tier\<close>

text \<open>
  \<open>if (++rid_ % 10000 == 0) rid_ = 0; ... rid_++\<close>: the number used, and the counter afterwards.
\<close>

definition next_rid :: "u32 \<Rightarrow> u32 \<times> u32" where
  "next_rid rid = (let r = rid + 1; r' = (if r mod 10000 = 0 then 0 else r) in (r', r' + 1))"

definition request_id_string :: "endpoint \<Rightarrow> u32 \<Rightarrow> string" where
  "request_id_string ut r = ep_ip ut @ '':'' @ to_string (unat (ep_tid ut)) @ ''_'' @ to_string (unat r)"

definition kvs_get_request_id :: "kvs_client \<Rightarrow> string \<times> kvs_client" where
  "kvs_get_request_id st =
     (let (r, rid) = next_rid (kv_rid st) in (request_id_string (kv_ut st) r, st\<lparr>kv_rid := rid\<rparr>))"

definition get_routing_thread :: "rand_fn \<Rightarrow> kvs_client \<Rightarrow> cpp_error + (string \<times> kvs_client)" where
  "get_routing_thread rnd st =
     (let (v, seed) = rnd (kv_seed st); n = length (kv_routing_threads st)
      in if n = 0 then Inl DivisionByZero
         else Inr (routing_key_address_connect_address (kv_routing_threads st ! (v mod n)), st\<lparr>kv_seed := seed\<rparr>))"

definition query_routing_async :: "rand_fn \<Rightarrow> string \<Rightarrow> kvs_client \<Rightarrow> cpp_error + (kvs_client \<times> kvs_sent)" where
  "query_routing_async rnd key st =
     (let (rid, st1) = kvs_get_request_id st;
          req = \<lparr>kar_response_address = user_key_address_connect_address (kv_ut st), kar_keys = [key], kar_request_id = rid\<rparr>
      in bindE (get_routing_thread rnd st1) (\<lambda>(addr, st2). Inr (st2, [(addr, OutAddressRequest req)])))"

section \<open>Worker addresses\<close>

definition get_all_worker_threads :: "rand_fn \<Rightarrow> string \<Rightarrow> kvs_client \<Rightarrow> cpp_error + (string list \<times> kvs_client \<times> kvs_sent)" where
  "get_all_worker_threads rnd key st =
     (if tget [] (kv_key_address_cache st) key = []
      then (if thas (kv_pending_request st) key then Inr ([], st, [])
            else bindE (query_routing_async rnd key st) (\<lambda>(st1, sent). Inr ([], st1, sent)))
      else Inr (tget [] (kv_key_address_cache st) key, st, []))"

definition get_worker_thread :: "rand_fn \<Rightarrow> string \<Rightarrow> kvs_client \<Rightarrow> cpp_error + (string \<times> kvs_client \<times> kvs_sent)" where
  "get_worker_thread rnd key st =
     bindE (get_all_worker_threads rnd key st) (\<lambda>(ws, st1, sent).
       if ws = [] then Inr ([], st1, sent)
       else let (v, seed) = rnd (kv_seed st1) in Inr (ws ! (v mod length ws), st1\<lparr>kv_seed := seed\<rparr>, sent))"

section \<open>Issuing requests\<close>

definition queue_request :: "time_point \<Rightarrow> string \<Rightarrow> key_request \<Rightarrow> kvs_client \<Rightarrow> kvs_client" where
  "queue_request now key req st =
     st\<lparr>kv_pending_request := tmod (now, []) (\<lambda>(tp, rs). (tp, rs @ [req])) key (kv_pending_request st)\<rparr>"

text \<open>An entry that exists keeps its time and request and only learns the new worker.\<close>

definition wait_response :: "time_point \<Rightarrow> string \<Rightarrow> key_request \<Rightarrow> pending_request option \<Rightarrow> pending_request" where
  "wait_response now worker req p =
     (case p of
        None \<Rightarrow> \<lparr>pr_tp = now, pr_worker_addr = worker, pr_request = req\<rparr>
      | Some q \<Rightarrow> q\<lparr>pr_worker_addr := worker\<rparr>)"

definition await_get :: "time_point \<Rightarrow> string \<Rightarrow> string \<Rightarrow> key_request \<Rightarrow> kvs_client \<Rightarrow> kvs_client" where
  "await_get now key worker req st =
     st\<lparr>kv_pending_get := tput key (wait_response now worker req (map_of (kv_pending_get st) key)) (kv_pending_get st)\<rparr>"

definition await_put :: "time_point \<Rightarrow> string \<Rightarrow> string \<Rightarrow> key_request \<Rightarrow> kvs_client \<Rightarrow> kvs_client" where
  "await_put now key worker req st =
     st\<lparr>kv_pending_put := tmod [] (\<lambda>m. tput (kreq_request_id req)
          (wait_response now worker req (map_of m (kreq_request_id req))) m) key (kv_pending_put st)\<rparr>"

definition with_cache_size :: "nat \<Rightarrow> key_request \<Rightarrow> key_request" where
  "with_cache_size n req =
     (case kreq_tuples req of
        [] \<Rightarrow> req
      | t # ts \<Rightarrow> req\<lparr>kreq_tuples := t\<lparr>kt_address_cache_size := of_nat n\<rparr> # ts\<rparr>)"

text \<open>The first component is the request as it was changed through the reference.\<close>

definition try_request :: "rand_fn \<Rightarrow> time_point \<Rightarrow> key_request \<Rightarrow> kvs_client \<Rightarrow> cpp_error + (key_request \<times> kvs_client \<times> kvs_sent)" where
  "try_request rnd now req st =
     bindE (nth_or RepeatedFieldIndex (kreq_tuples req) 0) (\<lambda>tp.
       let key = kt_key tp
       in bindE (get_worker_thread rnd key st) (\<lambda>(worker, st1, sent).
            if worker = [] then Inr (req, queue_request now key req st1, sent)
            else (let req1 = with_cache_size (length (tget [] (kv_key_address_cache st1) key)) req
                  in Inr (req1, (if kreq_type req = GET then await_get now key worker req1 st1
                                 else await_put now key worker req1 st1),
                          sent @ [(worker, OutKeyRequest req1)]))))"

definition prepare_data_request :: "string \<Rightarrow> kvs_client \<Rightarrow> key_request \<times> kvs_client" where
  "prepare_data_request key st =
     (let (rid, st1) = kvs_get_request_id st
      in (\<lparr>kreq_type = RT_UNSPECIFIED, kreq_tuples = [empty_key_tuple\<lparr>kt_key := key\<rparr>],
           kreq_response_address = response_connect_address (kv_ut st), kreq_request_id = rid\<rparr>, st1))"

definition put_async :: "rand_fn \<Rightarrow> time_point \<Rightarrow> string \<Rightarrow> string \<Rightarrow> lattice_type \<Rightarrow> kvs_client \<Rightarrow>
    cpp_error + (string \<times> kvs_client \<times> kvs_sent)" where
  "put_async rnd now key payload ty st =
     (let (req, st1) = prepare_data_request key st;
          req1 = req\<lparr>kreq_type := PUT,
            kreq_tuples := [(hd (kreq_tuples req))\<lparr>kt_lattice_type := ty, kt_payload := payload\<rparr>]\<rparr>
      in bindE (try_request rnd now req1 st1) (\<lambda>(req2, st2, sent). Inr (kreq_request_id req2, st2, sent)))"

definition get_async :: "rand_fn \<Rightarrow> time_point \<Rightarrow> string \<Rightarrow> kvs_client \<Rightarrow> cpp_error + (kvs_client \<times> kvs_sent)" where
  "get_async rnd now key st =
     (if thas (kv_pending_get st) key then Inr (st, [])
      else (let (req, st1) = prepare_data_request key st
            in bindE (try_request rnd now (req\<lparr>kreq_type := GET\<rparr>) st1) (\<lambda>(req2, st2, sent). Inr (st2, sent))))"

section \<open>Responses\<close>

definition invalidate_cache_for_key :: "string \<Rightarrow> kvs_client \<Rightarrow> kvs_client" where
  "invalidate_cache_for_key key st = st\<lparr>kv_key_address_cache := terase key (kv_key_address_cache st)\<rparr>"

definition check_tuple :: "key_tuple \<Rightarrow> kvs_client \<Rightarrow> bool \<times> kvs_client" where
  "check_tuple tp st =
     (if kt_error tp = WRONG_THREAD then (True, invalidate_cache_for_key (kt_key tp) st)
      else if kt_invalidate tp then (False, invalidate_cache_for_key (kt_key tp) st)
      else (False, st))"

text \<open>
  \<open>for (auto& req : pending_request_map_[key].second) try_request(req)\<close>: a request that finds no
  worker appends to the vector that the loop walks over.
\<close>

fun retry_queued :: "rand_fn \<Rightarrow> time_point \<Rightarrow> string \<Rightarrow> key_request list \<Rightarrow> kvs_client \<Rightarrow> cpp_error + (kvs_client \<times> kvs_sent)" where
  "retry_queued rnd now key [] st = Inr (st, [])"
| "retry_queued rnd now key (r # rs) st =
     bindE (try_request rnd now r st) (\<lambda>(r1, st1, sent1).
       if queued st1 key \<noteq> queued st key then Inl IteratorInvalidated
       else bindE (retry_queued rnd now key rs st1) (\<lambda>(st2, sent2). Inr (st2, sent1 @ sent2)))"

definition handle_address_response ::
  "rand_fn \<Rightarrow> time_point \<Rightarrow> key_address_response \<Rightarrow> kvs_client \<Rightarrow> cpp_error + (kvs_client \<times> kvs_sent)" where
  "handle_address_response rnd now resp st =
     bindE (nth_or RepeatedFieldIndex (kas_addresses resp) 0) (\<lambda>(key, ips).
       if \<not> thas (kv_pending_request st) key then Inr (st, [])
       else if kas_error resp = NO_SERVERS
       then query_routing_async rnd key
              (st\<lparr>kv_pending_request := tput key (now, queued st key) (kv_pending_request st)\<rparr>)
       else (let st1 = st\<lparr>kv_key_address_cache :=
                            fold (\<lambda>ip c. tmod [] (ins ip) key c) ips (kv_key_address_cache st)\<rparr>
             in bindE (retry_queued rnd now key (queued st1 key) st1) (\<lambda>(st2, sent).
                  Inr (st2\<lparr>kv_pending_request := terase key (kv_pending_request st2)\<rparr>, sent))))"

definition handle_get_response ::
  "rand_fn \<Rightarrow> time_point \<Rightarrow> key_tuple \<Rightarrow> key_response \<Rightarrow> kvs_client \<Rightarrow>
     cpp_error + (kvs_client \<times> key_response list \<times> kvs_sent)" where
  "handle_get_response rnd now tp resp st =
     (let key = kt_key tp
      in case map_of (kv_pending_get st) key of
           None \<Rightarrow> Inr (st, [], [])
         | Some p \<Rightarrow>
             (let (again, st1) = check_tuple tp st
              in if again
                 then bindE (try_request rnd now (pr_request p)
                               (st1\<lparr>kv_pending_get := tput key (p\<lparr>pr_tp := now\<rparr>) (kv_pending_get st1)\<rparr>))
                        (\<lambda>(req, st2, sent).
                           Inr (st2\<lparr>kv_pending_get := tmod p (\<lambda>q. q\<lparr>pr_request := req\<rparr>) key (kv_pending_get st2)\<rparr>, [], sent))
                 else Inr (st1\<lparr>kv_pending_get := terase key (kv_pending_get st1)\<rparr>, [resp], [])))"

definition handle_put_response ::
  "rand_fn \<Rightarrow> time_point \<Rightarrow> key_tuple \<Rightarrow> key_response \<Rightarrow> kvs_client \<Rightarrow>
     cpp_error + (kvs_client \<times> key_response list \<times> kvs_sent)" where
  "handle_put_response rnd now tp resp st =
     (let key = kt_key tp; i = kresp_response_id resp
      in case map_of (tget [] (kv_pending_put st) key) i of
           None \<Rightarrow> Inr (st, [], [])
         | Some p \<Rightarrow>
             (let (again, st1) = check_tuple tp st
              in if again
                 then bindE (try_request rnd now (pr_request p)
                               (st1\<lparr>kv_pending_put := tmod [] (tput i (p\<lparr>pr_tp := now\<rparr>)) key (kv_pending_put st1)\<rparr>))
                        (\<lambda>(req, st2, sent).
                           Inr (st2\<lparr>kv_pending_put := tmod [] (tmod p (\<lambda>q. q\<lparr>pr_request := req\<rparr>) i) key (kv_pending_put st2)\<rparr>, [], sent))
                 else (let m = terase i (tget [] (kv_pending_put st1) key)
                       in Inr (st1\<lparr>kv_pending_put := (if m = [] then terase key (kv_pending_put st1)
                                                     else tput key m (kv_pending_put st1))\<rparr>, [resp], []))))"

definition handle_key_response ::
  "rand_fn \<Rightarrow> time_point \<Rightarrow> key_response \<Rightarrow> kvs_client \<Rightarrow> cpp_error + (kvs_client \<times> key_response list \<times> kvs_sent)" where
  "handle_key_response rnd now resp st =
     bindE (nth_or RepeatedFieldIndex (kresp_tuples resp) 0) (\<lambda>tp.
       if kresp_type resp = GET then handle_get_response rnd now tp resp st
       else handle_put_response rnd now tp resp st)"

section \<open>Timeouts\<close>

definition generate_bad_response :: "key_request \<Rightarrow> cpp_error + key_response" where
  "generate_bad_response req =
     bindE (nth_or RepeatedFieldIndex (kreq_tuples req) 0) (\<lambda>tp.
       let t = empty_key_tuple\<lparr>kt_key := kt_key tp\<rparr>
       in Inr \<lparr>kresp_type = kreq_type req,
               kresp_tuples = [if kreq_type req = PUT
                               then t\<lparr>kt_lattice_type := kt_lattice_type tp, kt_payload := kt_payload tp\<rparr> else t],
               kresp_response_id = kreq_request_id req, kresp_error = ANNA_TIMEOUT\<rparr>)"

text \<open>The second token of an address split at colons, \<open>//host\<close> in \<open>tcp://host:port\<close>.\<close>

definition host_signature :: "string \<Rightarrow> cpp_error + string" where
  "host_signature a = nth_or VectorIndex (split a (CHR '':'')) 1"

definition invalidate_cache_for_worker :: "string \<Rightarrow> kvs_client \<Rightarrow> cpp_error + kvs_client" where
  "invalidate_cache_for_worker worker st =
     bindE (host_signature worker) (\<lambda>sig.
     bindE (mapE (\<lambda>(k, as). mapE host_signature as) (kv_key_address_cache st)) (\<lambda>sigs.
       Inr (st\<lparr>kv_key_address_cache :=
              map fst (filter (\<lambda>(e, ss). sig \<notin> set ss) (zip (kv_key_address_cache st) sigs))\<rparr>)))"

definition expired :: "time_point \<Rightarrow> u32 \<Rightarrow> time_point \<Rightarrow> bool" where
  "expired now timeout tp \<longleftrightarrow> millis (now - tp) > uint timeout"

definition gc_requests :: "time_point \<Rightarrow> kvs_client \<Rightarrow> cpp_error + (kvs_client \<times> key_response list)" where
  "gc_requests now st =
     (let old = (\<lambda>(k, tp, rs). expired now (kv_timeout st) tp)
      in bindE (mapE generate_bad_response (concat (map (\<lambda>(k, tp, rs). rs) (filter old (kv_pending_request st))))) (\<lambda>bad.
           Inr (st\<lparr>kv_pending_request := filter (\<lambda>e. \<not> old e) (kv_pending_request st)\<rparr>, bad)))"

text \<open>One timed-out entry of the response maps: a bad response, and its worker is distrusted.\<close>

definition give_up :: "pending_request \<Rightarrow> kvs_client \<times> key_response list \<Rightarrow> cpp_error + (kvs_client \<times> key_response list)" where
  "give_up p s =
     bindE (generate_bad_response (pr_request p)) (\<lambda>bad.
     bindE (invalidate_cache_for_worker (pr_worker_addr p) (fst s)) (\<lambda>st. Inr (st, snd s @ [bad])))"

definition gc_gets :: "time_point \<Rightarrow> kvs_client \<Rightarrow> cpp_error + (kvs_client \<times> key_response list)" where
  "gc_gets now st =
     (let old = (\<lambda>(k, p). expired now (kv_timeout st) (pr_tp p))
      in bindE (foldE give_up (map snd (filter old (kv_pending_get st))) (st, [])) (\<lambda>(st1, bad).
           Inr (st1\<lparr>kv_pending_get := filter (\<lambda>e. \<not> old e) (kv_pending_get st1)\<rparr>, bad)))"

definition gc_puts :: "time_point \<Rightarrow> kvs_client \<Rightarrow> cpp_error + (kvs_client \<times> key_response list)" where
  "gc_puts now st =
     (let old = (\<lambda>(i, p). expired now (kv_timeout st) (pr_tp p))
      in bindE (foldE give_up (map snd (filter old (concat (map snd (kv_pending_put st))))) (st, [])) (\<lambda>(st1, bad).
           Inr (st1\<lparr>kv_pending_put := map (\<lambda>(k, m). (k, filter (\<lambda>e. \<not> old e) m)) (kv_pending_put st1)\<rparr>, bad)))"

definition receive_async ::
  "rand_fn \<Rightarrow> time_point \<Rightarrow> key_address_response option \<Rightarrow> key_response option \<Rightarrow> kvs_client \<Rightarrow>
     cpp_error + (kvs_client \<times> key_response list \<times> kvs_sent)" where
  "receive_async rnd now addr resp st =
     bindE (case addr of None \<Rightarrow> Inr (st, []) | Some a \<Rightarrow> handle_address_response rnd now a st) (\<lambda>(st1, sent1).
     bindE (case resp of None \<Rightarrow> Inr (st1, [], []) | Some r \<Rightarrow> handle_key_response rnd now r st1) (\<lambda>(st2, res, sent2).
     bindE (gc_requests now st2) (\<lambda>(st3, bad1).
     bindE (gc_gets now st3) (\<lambda>(st4, bad2).
     bindE (gc_puts now st4) (\<lambda>(st5, bad3).
       Inr (st5, res @ bad1 @ bad2 @ bad3, sent1 @ sent2))))))"

end
