(* ===== verification/Kvs_Props.thy ===== *)
theory Kvs_Props
  imports Kvs_Client
begin

text \<open>
  What the key-value store client promises: its invariant, that no request is forgotten by any
  sequence of operations, that a request which outlives the timeout is reported, and that the
  request identifiers are fresh. The locale \<open>async_requests\<close> states the contract of an
  asynchronous client and derives its consequence for whole runs; it is interpreted on
  \<open>kvs_op\<close>, the operations of the client.
\<close>

section \<open>The contract of an asynchronous client\<close>

locale async_requests =
  fixes inv :: "'s \<Rightarrow> bool"
    and waits :: "'s \<Rightarrow> 'q \<Rightarrow> bool"
    and answers :: "'r \<Rightarrow> 'q \<Rightarrow> bool"
    and step :: "'i \<Rightarrow> 's \<Rightarrow> cpp_error + ('s \<times> 'r list)"
  assumes step_inv: "inv s \<Longrightarrow> step i s = Inr (s', rs) \<Longrightarrow> inv s'"
    and step_keeps: "inv s \<Longrightarrow> step i s = Inr (s', rs) \<Longrightarrow> waits s q \<Longrightarrow> waits s' q \<or> (\<exists>r \<in> set rs. answers r q)"
begin

lemma run_inv: "inv s \<Longrightarrow> runE step is s = Inr (s', rs) \<Longrightarrow> inv s'"
  by (rule runE_inv [where P = inv and f = step]) (auto intro: step_inv)

lemma run_keeps:
  "inv s \<Longrightarrow> runE step is s = Inr (s', rs) \<Longrightarrow> waits s q \<Longrightarrow> waits s' q \<or> (\<exists>r \<in> set rs. answers r q)"
proof (induction "is" arbitrary: s rs)
  case Nil
  then show ?case by simp
next
  case (Cons i "is")
  then obtain s1 o1 o2 where s1: "step i s = Inr (s1, o1)" "runE step is s1 = Inr (s', o2)" "rs = o1 @ o2"
    by (auto simp: runE_Cons_Inr simp del: runE.simps(2))
  show ?case
    using step_keeps [OF Cons.prems(1) s1(1) Cons.prems(3)]
  proof
    assume "waits s1 q"
    then show ?thesis
      using Cons.IH [OF step_inv [OF Cons.prems(1) s1(1)] s1(2)] s1(3) by auto
  next
    assume "\<exists>r \<in> set o1. answers r q"
    then show ?thesis using s1(3) by auto
  qed
qed

end

section \<open>What a request waits for\<close>

datatype kvs_wait = WaitGet string | WaitPut string string

definition is_for :: "string \<Rightarrow> key_request \<Rightarrow> bool" where
  "is_for k r \<longleftrightarrow> (\<exists>tp. kreq_tuples r = [tp] \<and> kt_key tp = k)"

definition wait_of :: "string \<Rightarrow> key_request \<Rightarrow> kvs_wait" where
  "wait_of k r = (if kreq_type r = GET then WaitGet k else WaitPut k (kreq_request_id r))"

definition resp_wait :: "key_response \<Rightarrow> kvs_wait option" where
  "resp_wait r =
     (case kresp_tuples r of
        [] \<Rightarrow> None
      | tp # _ \<Rightarrow> Some (if kresp_type r = GET then WaitGet (kt_key tp) else WaitPut (kt_key tp) (kresp_response_id r)))"

definition kvs_answers :: "key_response \<Rightarrow> kvs_wait \<Rightarrow> bool" where
  "kvs_answers r w \<longleftrightarrow> resp_wait r = Some w"

fun sent_waits :: "kvs_client \<Rightarrow> kvs_wait \<Rightarrow> bool" where
  "sent_waits st (WaitGet k) \<longleftrightarrow> thas (kv_pending_get st) k"
| "sent_waits st (WaitPut k i) \<longleftrightarrow> thas (tget [] (kv_pending_put st) k) i"

fun wait_key :: "kvs_wait \<Rightarrow> string" where
  "wait_key (WaitGet k) = k"
| "wait_key (WaitPut k i) = k"

definition queue_waits :: "kvs_client \<Rightarrow> kvs_wait \<Rightarrow> bool" where
  "queue_waits st w \<longleftrightarrow> (\<exists>r \<in> set (queued st (wait_key w)). wait_of (wait_key w) r = w)"

definition kvs_waits :: "kvs_client \<Rightarrow> kvs_wait \<Rightarrow> bool" where
  "kvs_waits st w \<longleftrightarrow> sent_waits st w \<or> queue_waits st w"

section \<open>The invariant\<close>

definition kvs_inv :: "kvs_client \<Rightarrow> bool" where
  "kvs_inv st \<longleftrightarrow>
     tbl_ok (kv_pending_request st) \<and> tbl_ok (kv_pending_get st) \<and> tbl_ok (kv_pending_put st)
   \<and> (\<forall>k. tbl_ok (tget [] (kv_pending_put st) k))
   \<and> (\<forall>k. \<forall>r \<in> set (queued st k). is_for k r)
   \<and> (\<forall>k p. map_of (kv_pending_get st) k = Some p \<longrightarrow> is_for k (pr_request p) \<and> wait_of k (pr_request p) = WaitGet k)
   \<and> (\<forall>k i p. map_of (tget [] (kv_pending_put st) k) i = Some p \<longrightarrow>
        is_for k (pr_request p) \<and> wait_of k (pr_request p) = WaitPut k i)"

text \<open>A step that changes neither the pending tables nor the settings.\<close>

definition same_pending :: "kvs_client \<Rightarrow> kvs_client \<Rightarrow> bool" where
  "same_pending st st' \<longleftrightarrow>
     kv_pending_request st' = kv_pending_request st \<and> kv_pending_get st' = kv_pending_get st
   \<and> kv_pending_put st' = kv_pending_put st \<and> kv_timeout st' = kv_timeout st
   \<and> kv_routing_threads st' = kv_routing_threads st"

lemma same_pending_refl [simp]: "same_pending st st"
  by (simp add: same_pending_def)

lemma same_pending_trans: "same_pending a b \<Longrightarrow> same_pending b c \<Longrightarrow> same_pending a c"
  by (simp add: same_pending_def)

lemma same_pending_inv: "same_pending st st' \<Longrightarrow> kvs_inv st' = kvs_inv st"
  by (simp add: same_pending_def kvs_inv_def)

lemma same_pending_sent: "same_pending st st' \<Longrightarrow> sent_waits st' w = sent_waits st w"
  by (cases w) (simp_all add: same_pending_def)

lemma same_pending_waits: "same_pending st st' \<Longrightarrow> kvs_waits st' w = kvs_waits st w"
  using same_pending_sent [of st st' w] by (simp add: kvs_waits_def queue_waits_def same_pending_def)

lemma request_id_same: "kvs_get_request_id st = (i, st') \<Longrightarrow> same_pending st st'"
  by (auto simp: kvs_get_request_id_def Let_def case_prod_unfold same_pending_def)

lemma query_routing_same: "query_routing_async rnd key st = Inr (st', sent) \<Longrightarrow> same_pending st st'"
  by (auto simp: query_routing_async_def get_routing_thread_def Let_def case_prod_unfold bindE_Inr_iff
      kvs_get_request_id_def same_pending_def split: if_splits)

lemma get_worker_same: "get_worker_thread rnd key st = Inr (w, st', sent) \<Longrightarrow> same_pending st st'"
  by (auto simp: get_worker_thread_def get_all_worker_threads_def Let_def case_prod_unfold bindE_Inr_iff
      same_pending_def dest!: query_routing_same [unfolded same_pending_def] split: if_splits)

lemma prepare_same: "prepare_data_request key st = (req, st') \<Longrightarrow> same_pending st st' \<and> is_for key req"
  by (auto simp: prepare_data_request_def Let_def case_prod_unfold kvs_get_request_id_def same_pending_def
      is_for_def empty_key_tuple_def)

lemma with_cache_size_sel [simp]:
  "kreq_type (with_cache_size n r) = kreq_type r" "kreq_request_id (with_cache_size n r) = kreq_request_id r"
  "is_for k (with_cache_size n r) = is_for k r" "wait_of k (with_cache_size n r) = wait_of k r"
  by (auto simp: with_cache_size_def is_for_def wait_of_def split: list.splits)

section \<open>Issuing keeps every pending request\<close>

definition keeps :: "kvs_client \<Rightarrow> kvs_client \<Rightarrow> bool" where
  "keeps st st' \<longleftrightarrow> (\<forall>w. kvs_waits st w \<longrightarrow> kvs_waits st' w)"

lemma keepsI: "(\<And>w. sent_waits st w \<Longrightarrow> sent_waits st' w) \<Longrightarrow> (\<And>k. set (queued st k) \<subseteq> set (queued st' k)) \<Longrightarrow> keeps st st'"
  by (auto simp: keeps_def kvs_waits_def queue_waits_def)

lemma keeps_trans: "keeps a b \<Longrightarrow> keeps b c \<Longrightarrow> keeps a c"
  by (simp add: keeps_def)

lemma same_pending_keeps: "same_pending st st' \<Longrightarrow> keeps st st'"
  using same_pending_waits [of st st'] by (simp add: keeps_def)

lemma is_for_tuples: "is_for k r \<Longrightarrow> \<exists>tp. kreq_tuples r = [tp] \<and> kt_key tp = k"
  by (simp add: is_for_def)

lemma queued_queue_request [simp]:
  "queued (queue_request now k r st) k' = (if k' = k then queued st k @ [r] else queued st k')"
  by (auto simp: queue_request_def tget_def split: option.splits prod.splits)

lemma sent_queue_request [simp]: "sent_waits (queue_request now k r st) w = sent_waits st w"
  by (cases w) (simp_all add: queue_request_def)

lemma kvs_inv_queue_request: "kvs_inv st \<Longrightarrow> is_for k r \<Longrightarrow> kvs_inv (queue_request now k r st)"
proof -
  assume i: "kvs_inv st" and f: "is_for k r"
  have "\<forall>k'. \<forall>x \<in> set (queued (queue_request now k r st) k'). is_for k' x"
    using i f by (auto simp: kvs_inv_def)
  then show ?thesis
    using i by (simp add: kvs_inv_def queue_request_def)
qed

lemma wait_response_request:
  "pr_request (wait_response now worker r p) = (case p of None \<Rightarrow> r | Some q \<Rightarrow> pr_request q)"
  by (simp add: wait_response_def split: option.splits)

lemma kvs_inv_await_get:
  "kvs_inv st \<Longrightarrow> is_for k r \<Longrightarrow> wait_of k r = WaitGet k \<Longrightarrow> kvs_inv (await_get now k worker r st)"
  by (auto simp: kvs_inv_def await_get_def wait_response_request split: option.splits)

lemma kvs_inv_await_put:
  "kvs_inv st \<Longrightarrow> is_for k r \<Longrightarrow> wait_of k r = WaitPut k (kreq_request_id r) \<Longrightarrow> kvs_inv (await_put now k worker r st)"
  by (auto simp: kvs_inv_def await_put_def wait_response_request split: option.splits)

lemma sent_await_get [simp]: "sent_waits (await_get now k worker r st) w \<longleftrightarrow> w = WaitGet k \<or> sent_waits st w"
  by (cases w) (auto simp: await_get_def)

lemma sent_await_put [simp]:
  "sent_waits (await_put now k worker r st) w \<longleftrightarrow> w = WaitPut k (kreq_request_id r) \<or> sent_waits st w"
  by (cases w) (auto simp: await_put_def)

lemma queued_await [simp]:
  "queued (await_get now k worker r st) k' = queued st k'" "queued (await_put now k worker r st) k' = queued st k'"
  by (simp_all add: await_get_def await_put_def)

lemma try_request_cases:
  assumes "try_request rnd now req st = Inr (req', st', sent)" and "is_for k req"
  obtains (queue) st1 where "same_pending st st1" and "req' = req" and "st' = queue_request now k req st1"
  | (send) st1 worker n where "same_pending st st1" and "req' = with_cache_size n req"
      and "st' = (if kreq_type req = GET then await_get now k worker req' st1 else await_put now k worker req' st1)"
proof -
  obtain tp where tp: "kreq_tuples req = [tp]" "kt_key tp = k"
    using assms(2) by (auto simp: is_for_def)
  obtain worker st1 s1 where w: "get_worker_thread rnd k st = Inr (worker, st1, s1)"
      and e: "(if worker = [] then Inr (req, queue_request now k req st1, s1)
            else (let req1 = with_cache_size (length (tget [] (kv_key_address_cache st1) k)) req
                  in Inr (req1, (if kreq_type req = GET then await_get now k worker req1 st1
                                 else await_put now k worker req1 st1),
                          s1 @ [(worker, OutKeyRequest req1)]))) = (Inr (req', st', sent) :: cpp_error + _)"
    using assms(1) tp by (auto simp: try_request_def nth_or_def Let_def bindE_Inr_iff)
  show ?thesis
    using e get_worker_same [OF w] that
    by (cases "worker = []") (auto simp: Let_def)
qed

lemma try_request_ok:
  assumes "try_request rnd now req st = Inr (req', st', sent)" and "is_for k req" and "kvs_inv st"
  shows "kvs_inv st' \<and> keeps st st' \<and> kvs_waits st' (wait_of k req) \<and> is_for k req' \<and> wait_of k req' = wait_of k req
    \<and> kreq_request_id req' = kreq_request_id req
    \<and> (\<forall>w. sent_waits st w \<longrightarrow> sent_waits st' w)
    \<and> (queued st' k = queued st k \<longrightarrow> sent_waits st' (wait_of k req) \<and> (\<forall>k'. queued st' k' = queued st k'))"
  using assms(1,2)
proof (cases rule: try_request_cases)
  case (queue st1)
  have i: "kvs_inv st1" using same_pending_inv [OF queue(1)] assms(3) by simp
  have q: "queued st1 k' = queued st k'" for k' using queue(1) by (simp add: same_pending_def)
  have s: "sent_waits st1 w = sent_waits st w" for w using same_pending_sent [OF queue(1)] .
  show ?thesis
    using queue(2,3) kvs_inv_queue_request [OF i assms(2)] assms(2) q s
    by (auto simp: kvs_waits_def queue_waits_def wait_of_def intro!: keepsI)
next
  case (send st1 worker n)
  have i: "kvs_inv st1" using same_pending_inv [OF send(1)] assms(3) by simp
  have q: "queued st1 k' = queued st k'" for k' using send(1) by (simp add: same_pending_def)
  have s: "sent_waits st1 w = sent_waits st w" for w using same_pending_sent [OF send(1)] .
  have "kvs_inv st'"
    using send(2,3) i assms(2) kvs_inv_await_get [of st1 k req'] kvs_inv_await_put [of st1 k req']
    by (simp add: wait_of_def)
  moreover have "sent_waits st' w \<longleftrightarrow> w = wait_of k req \<or> sent_waits st w" for w
    using send(2,3) s by (simp add: wait_of_def)
  moreover have "queued st' k' = queued st k'" for k'
    using send(3) q by simp
  ultimately show ?thesis
    using send(2) assms(2) by (auto simp: kvs_waits_def intro!: keepsI)
qed

section \<open>Polling loses nothing\<close>

lemma retry_queued_ok:
  "retry_queued rnd now key rs st = Inr (st', sent) \<Longrightarrow> kvs_inv st \<Longrightarrow> \<forall>r \<in> set rs. is_for key r \<Longrightarrow>
     kvs_inv st' \<and> (\<forall>w. sent_waits st w \<longrightarrow> sent_waits st' w) \<and> (\<forall>k. queued st' k = queued st k)
   \<and> (\<forall>r \<in> set rs. sent_waits st' (wait_of key r))"
proof (induction rs arbitrary: st sent)
  case Nil
  then show ?case by simp
next
  case (Cons r rs)
  then obtain r1 st1 s1 s2 where t: "try_request rnd now r st = Inr (r1, st1, s1)" "queued st1 key = queued st key"
      "retry_queued rnd now key rs st1 = Inr (st', s2)"
    by (auto simp: bindE_Inr_iff split: if_splits)
  have "is_for key r" using Cons.prems(3) by simp
  note o = try_request_ok [OF t(1) this Cons.prems(2)]
  show ?case
    using Cons.IH [OF t(3)] Cons.prems(3) o t(2) by auto
qed

lemma kvs_inv_cache [simp]: "kvs_inv (st\<lparr>kv_key_address_cache := c\<rparr>) = kvs_inv st"
  by (simp add: kvs_inv_def)

lemma sent_waits_cache [simp]: "sent_waits (st\<lparr>kv_key_address_cache := c\<rparr>) w = sent_waits st w"
  by (cases w) simp_all

lemma sent_waits_request [simp]: "sent_waits (st\<lparr>kv_pending_request := c\<rparr>) w = sent_waits st w"
  by (cases w) simp_all

lemma handle_address_response_ok:
  assumes "handle_address_response rnd now resp st = Inr (st', sent)" and "kvs_inv st"
  shows "kvs_inv st' \<and> keeps st st'"
proof -
  obtain key ips where k: "nth_or RepeatedFieldIndex (kas_addresses resp) 0 = Inr (key, ips)"
    using assms(1) by (cases "nth_or RepeatedFieldIndex (kas_addresses resp) 0") (auto simp: handle_address_response_def)
  note e = assms(1) [unfolded handle_address_response_def k, simplified]
  have isf: "\<forall>r \<in> set (queued st key). is_for key r" using assms(2) by (simp add: kvs_inv_def)
  consider (no) "st' = st"
    | (retry) "query_routing_async rnd key (st\<lparr>kv_pending_request := tput key (now, queued st key) (kv_pending_request st)\<rparr>) = Inr (st', sent)"
    | (go) st1 st2 where "st1 = st\<lparr>kv_key_address_cache := fold (\<lambda>ip c. tmod [] (ins ip) key c) ips (kv_key_address_cache st)\<rparr>"
        "retry_queued rnd now key (queued st1 key) st1 = Inr (st2, sent)"
        "st' = st2\<lparr>kv_pending_request := terase key (kv_pending_request st2)\<rparr>"
    using e by (auto simp: Let_def bindE_Inr_iff split: if_splits)
  then show ?thesis
  proof cases
    case no
    then show ?thesis using assms(2) by (simp add: keeps_def)
  next
    case retry
    let ?s = "st\<lparr>kv_pending_request := tput key (now, queued st key) (kv_pending_request st)\<rparr>"
    have q: "queued ?s k = queued st k" for k by simp
    have "kvs_inv ?s" using assms(2) by (simp add: kvs_inv_def)
    moreover have "keeps st ?s" using q by (intro keepsI) simp_all
    ultimately show ?thesis
      using query_routing_same [OF retry] same_pending_inv same_pending_keeps keeps_trans by blast
  next
    case go
    have "kvs_inv st1" "\<forall>r \<in> set (queued st1 key). is_for key r" using assms(2) isf go(1) by simp_all
    note o = retry_queued_ok [OF go(2) this]
    have q: "queued st2 k = queued st k" for k using o go(1) by simp
    have s: "sent_waits st w \<Longrightarrow> sent_waits st2 w" for w using o go(1) by simp
    have "kvs_inv st'"
      using o go(3) by (auto simp: kvs_inv_def)
    moreover have "kvs_waits st' w" if w: "kvs_waits st w" for w
    proof (cases "wait_key w = key \<and> queue_waits st w")
      case True
      then show ?thesis using o go(1,3) by (auto simp: kvs_waits_def queue_waits_def)
    next
      case False
      then show ?thesis
        using w s q go(3) by (auto simp: kvs_waits_def queue_waits_def)
    qed
    ultimately show ?thesis by (simp add: keeps_def)
  qed
qed

lemma kvs_inv_get_tput:
  "kvs_inv st \<Longrightarrow> is_for k (pr_request q) \<Longrightarrow> wait_of k (pr_request q) = WaitGet k \<Longrightarrow>
     kvs_inv (st\<lparr>kv_pending_get := tput k q (kv_pending_get st)\<rparr>)"
  by (auto simp: kvs_inv_def)

lemma kvs_inv_put_tput:
  "kvs_inv st \<Longrightarrow> is_for k (pr_request q) \<Longrightarrow> wait_of k (pr_request q) = WaitPut k i \<Longrightarrow>
     kvs_inv (st\<lparr>kv_pending_put := tput k (tput i q (tget [] (kv_pending_put st) k)) (kv_pending_put st)\<rparr>)"
  by (auto simp: kvs_inv_def)

lemma kvs_inv_get_terase: "kvs_inv st \<Longrightarrow> kvs_inv (st\<lparr>kv_pending_get := terase k (kv_pending_get st)\<rparr>)"
  by (auto simp: kvs_inv_def)

lemma kvs_inv_put_terase:
  "kvs_inv st \<Longrightarrow> kvs_inv (st\<lparr>kv_pending_put := terase k (kv_pending_put st)\<rparr>)"
  "kvs_inv st \<Longrightarrow> kvs_inv (st\<lparr>kv_pending_put := tput k (terase i (tget [] (kv_pending_put st) k)) (kv_pending_put st)\<rparr>)"
  by (auto simp: kvs_inv_def)

lemma check_tuple_same: "check_tuple tp st = (again, st') \<Longrightarrow> same_pending st st'"
  by (auto simp: check_tuple_def invalidate_cache_for_key_def same_pending_def split: if_splits)

text \<open>Every pending request is kept, except one that the response answers.\<close>

definition keeps_but :: "key_response list \<Rightarrow> kvs_client \<Rightarrow> kvs_client \<Rightarrow> bool" where
  "keeps_but rs st st' \<longleftrightarrow> (\<forall>w. kvs_waits st w \<longrightarrow> kvs_waits st' w \<or> (\<exists>r \<in> set rs. kvs_answers r w))"

lemma keeps_but_Nil [simp]: "keeps_but [] st st' = keeps st st'"
  by (simp add: keeps_but_def keeps_def)

lemma keeps_but_refl [simp]: "keeps_but rs st st"
  by (simp add: keeps_but_def)

lemma keeps_but_trans: "keeps_but rs a b \<Longrightarrow> keeps_but rs' b c \<Longrightarrow> keeps_but (rs @ rs') a c"
  by (auto simp: keeps_but_def)

lemma handle_get_response_ok:
  assumes "handle_get_response rnd now tp resp st = Inr (st', rs, sent)" and "kvs_inv st"
    and "kresp_type resp = GET" and "kresp_tuples resp = tp # tps"
  shows "kvs_inv st' \<and> keeps_but rs st st'"
proof (cases "map_of (kv_pending_get st) (kt_key tp)")
  case None
  then show ?thesis using assms(1,2) by (simp add: handle_get_response_def)
next
  case (Some p)
  let ?k = "kt_key tp"
  obtain again st1 where c: "check_tuple tp st = (again, st1)" by fastforce
  note same = check_tuple_same [OF c]
  have i1: "kvs_inv st1" using same_pending_inv [OF same] assms(2) by simp
  have p: "is_for ?k (pr_request p)" "wait_of ?k (pr_request p) = WaitGet ?k"
    using assms(2) Some by (auto simp: kvs_inv_def)
  show ?thesis
  proof (cases again)
    case True
    let ?s = "st1\<lparr>kv_pending_get := tput ?k (p\<lparr>pr_tp := now\<rparr>) (kv_pending_get st1)\<rparr>"
    have iq: "kvs_inv ?s" using kvs_inv_get_tput [OF i1] p by simp
    have ks: "keeps st1 ?s"
    proof (rule keepsI)
      show "sent_waits st1 w \<Longrightarrow> sent_waits ?s w" for w by (cases w) auto
    qed simp
    obtain req st2 where t: "try_request rnd now (pr_request p) ?s = Inr (req, st2, sent)"
        and st': "st' = st2\<lparr>kv_pending_get := tmod p (\<lambda>q. q\<lparr>pr_request := req\<rparr>) ?k (kv_pending_get st2)\<rparr>" "rs = []"
      using assms(1) Some c True by (auto simp: handle_get_response_def Let_def bindE_Inr_iff)
    note o = try_request_ok [OF t p(1) iq]
    have "kvs_inv st'" using kvs_inv_get_tput [of st2 ?k] o p st'(1) by (simp add: tmod_def)
    moreover have k2: "keeps st2 st'"
    proof (rule keepsI)
      show "sent_waits st2 w \<Longrightarrow> sent_waits st' w" for w using st'(1) by (cases w) auto
    qed (simp add: st'(1))
    ultimately show ?thesis
      using keeps_trans [OF keeps_trans [OF keeps_trans [OF same_pending_keeps [OF same] ks] _] k2] o st'(2) by simp
  next
    case False
    then have st': "st' = st1\<lparr>kv_pending_get := terase ?k (kv_pending_get st1)\<rparr>" "rs = [resp]"
      using assms(1) Some c by (auto simp: handle_get_response_def Let_def)
    have "kvs_inv st'" using kvs_inv_get_terase [OF i1] st'(1) by simp
    moreover have "kvs_waits st' w \<or> w = WaitGet ?k" if "kvs_waits st w" for w
    proof (cases w)
      case (WaitGet k)
      then show ?thesis using that same st'(1) by (auto simp: kvs_waits_def queue_waits_def same_pending_def)
    next
      case (WaitPut k i)
      then show ?thesis using that same st'(1) by (auto simp: kvs_waits_def queue_waits_def same_pending_def)
    qed
    ultimately show ?thesis
      using st'(2) assms(3,4) by (auto simp: keeps_but_def kvs_answers_def resp_wait_def)
  qed
qed

lemma handle_put_response_ok:
  assumes "handle_put_response rnd now tp resp st = Inr (st', rs, sent)" and "kvs_inv st"
    and "kresp_type resp \<noteq> GET" and "kresp_tuples resp = tp # tps"
  shows "kvs_inv st' \<and> keeps_but rs st st'"
proof (cases "map_of (tget [] (kv_pending_put st) (kt_key tp)) (kresp_response_id resp)")
  case None
  then show ?thesis using assms(1,2) by (simp add: handle_put_response_def)
next
  case (Some p)
  let ?k = "kt_key tp" and ?i = "kresp_response_id resp"
  obtain again st1 where c: "check_tuple tp st = (again, st1)" by fastforce
  note same = check_tuple_same [OF c]
  have i1: "kvs_inv st1" using same_pending_inv [OF same] assms(2) by simp
  have p: "is_for ?k (pr_request p)" "wait_of ?k (pr_request p) = WaitPut ?k ?i"
    using assms(2) Some by (auto simp: kvs_inv_def)
  show ?thesis
  proof (cases again)
    case True
    let ?s = "st1\<lparr>kv_pending_put := tmod [] (tput ?i (p\<lparr>pr_tp := now\<rparr>)) ?k (kv_pending_put st1)\<rparr>"
    have iq: "kvs_inv ?s" using kvs_inv_put_tput [OF i1] p by (simp add: tmod_def)
    have ks: "keeps st1 ?s"
    proof (rule keepsI)
      show "sent_waits st1 w \<Longrightarrow> sent_waits ?s w" for w by (cases w) auto
    qed simp
    obtain req st2 where t: "try_request rnd now (pr_request p) ?s = Inr (req, st2, sent)"
        and st': "st' = st2\<lparr>kv_pending_put := tmod [] (tmod p (\<lambda>q. q\<lparr>pr_request := req\<rparr>) ?i) ?k (kv_pending_put st2)\<rparr>" "rs = []"
      using assms(1) Some c True by (auto simp: handle_put_response_def Let_def bindE_Inr_iff)
    note o = try_request_ok [OF t p(1) iq]
    have "kvs_inv st'" using kvs_inv_put_tput [of st2 ?k] o p st'(1) by (simp add: tmod_def)
    moreover have k2: "keeps st2 st'"
    proof (rule keepsI)
      show "sent_waits st2 w \<Longrightarrow> sent_waits st' w" for w using st'(1) by (cases w) auto
    qed (simp add: st'(1))
    ultimately show ?thesis
      using keeps_trans [OF keeps_trans [OF keeps_trans [OF same_pending_keeps [OF same] ks] _] k2] o st'(2) by simp
  next
    case False
    let ?m = "terase ?i (tget [] (kv_pending_put st1) ?k)"
    have st': "st' = st1\<lparr>kv_pending_put := (if ?m = [] then terase ?k (kv_pending_put st1) else tput ?k ?m (kv_pending_put st1))\<rparr>"
        "rs = [resp]"
      using assms(1) Some c False by (auto simp: handle_put_response_def Let_def)
    have m: "tget [] (kv_pending_put st') k = (if k = ?k then ?m else tget [] (kv_pending_put st1) k)" for k
      using st'(1) by auto
    have "kvs_inv st'" using kvs_inv_put_terase [OF i1] st'(1) by simp
    moreover have "kvs_waits st' w \<or> w = WaitPut ?k ?i" if "kvs_waits st w" for w
    proof (cases w)
      case (WaitGet k)
      then show ?thesis using that same st'(1) by (auto simp: kvs_waits_def queue_waits_def same_pending_def)
    next
      case (WaitPut k i)
      then show ?thesis using that same st'(1) m by (auto simp: kvs_waits_def queue_waits_def same_pending_def)
    qed
    ultimately show ?thesis
      using st'(2) assms(3,4) by (auto simp: keeps_but_def kvs_answers_def resp_wait_def)
  qed
qed

lemma handle_key_response_ok:
  assumes "handle_key_response rnd now resp st = Inr (st', rs, sent)" and "kvs_inv st"
  shows "kvs_inv st' \<and> keeps_but rs st st'"
proof -
  obtain tp tps where t: "kresp_tuples resp = tp # tps"
    using assms(1) by (cases "kresp_tuples resp") (auto simp: handle_key_response_def nth_or_def)
  show ?thesis
    using assms(1) t handle_get_response_ok [OF _ assms(2) _ t] handle_put_response_ok [OF _ assms(2) _ t]
    by (auto simp: handle_key_response_def nth_or_def split: if_splits)
qed

section \<open>Timeouts are reported\<close>

lemma bad_response_answers:
  "is_for k r \<Longrightarrow> \<exists>b. generate_bad_response r = Inr b \<and> kvs_answers b (wait_of k r) \<and> kresp_error b = ANNA_TIMEOUT"
  by (auto simp: is_for_def generate_bad_response_def nth_or_def kvs_answers_def resp_wait_def wait_of_def
      empty_key_tuple_def Let_def)

lemma mapE_bad_responses:
  assumes "mapE generate_bad_response rs = Inr bad" and "r \<in> set rs" and "is_for k r"
  shows "\<exists>b \<in> set bad. kvs_answers b (wait_of k r)"
  using assms(1,2)
proof (induction rs arbitrary: bad)
  case Nil
  then show ?case by simp
next
  case (Cons x rs)
  then obtain b bs where "generate_bad_response x = Inr b" "mapE generate_bad_response rs = Inr bs" "bad = b # bs"
    by (auto simp: bindE_Inr_iff)
  then show ?case
    using Cons bad_response_answers [OF assms(3)] by auto
qed

lemma give_up_fold:
  "foldE give_up ps (st, bad) = Inr (st', bad') \<Longrightarrow>
     same_pending st st' \<and> set bad \<subseteq> set bad'
   \<and> (\<forall>p \<in> set ps. \<forall>k. is_for k (pr_request p) \<longrightarrow> (\<exists>b \<in> set bad'. kvs_answers b (wait_of k (pr_request p))))"
proof (induction ps arbitrary: st bad)
  case Nil
  then show ?case by simp
next
  case (Cons p ps)
  then obtain b st1 where g: "generate_bad_response (pr_request p) = Inr b"
      "invalidate_cache_for_worker (pr_worker_addr p) st = Inr st1" "foldE give_up ps (st1, bad @ [b]) = Inr (st', bad')"
    by (auto simp: give_up_def [of p "(st, bad)"] bindE_Inr_iff)
  have s: "same_pending st st1"
    using g(2) by (auto simp: invalidate_cache_for_worker_def bindE_Inr_iff same_pending_def)
  have a: "kvs_answers b (wait_of k (pr_request p))" if "is_for k (pr_request p)" for k
    using bad_response_answers [OF that] g(1) by auto
  show ?case
    using Cons.IH [OF g(3)] same_pending_trans [OF s] a by auto
qed

lemma map_of_filter_tbl: "tbl_ok t \<Longrightarrow> map_of (filter P t) k = (case map_of t k of Some v \<Rightarrow> if P (k, v) then Some v else None | None \<Rightarrow> None)"
  by (induction t) (auto simp: tbl_ok_def map_of_eq_None_iff image_iff split: option.splits)

lemma tbl_ok_filter: "tbl_ok t \<Longrightarrow> tbl_ok (filter P t)"
  by (simp add: tbl_ok_def distinct_map_filter)

lemma queued_filter:
  assumes "tbl_ok (kv_pending_request st)"
  shows "queued (st\<lparr>kv_pending_request := filter (\<lambda>e. \<not> (\<lambda>(k, tp, rs). P tp) e) (kv_pending_request st)\<rparr>) k =
    (if thas (kv_pending_request st) k \<and> P (fst (tget (0, []) (kv_pending_request st) k)) then [] else queued st k)"
  using map_of_filter_tbl [OF assms] by (auto simp: tget_def thas_def split: option.splits)

lemma gc_requests_ok:
  assumes "gc_requests now st = Inr (st', bad)" and "kvs_inv st"
  shows "kvs_inv st' \<and> keeps_but bad st st'"
proof -
  let ?P = "expired now (kv_timeout st)"
  have b: "mapE generate_bad_response (concat (map (\<lambda>(k, tp, rs). rs) (filter (\<lambda>(k, tp, rs). ?P tp) (kv_pending_request st)))) = Inr bad"
    and st': "st' = st\<lparr>kv_pending_request := filter (\<lambda>e. \<not> (\<lambda>(k, tp, rs). ?P tp) e) (kv_pending_request st)\<rparr>"
    using assms(1) by (auto simp: gc_requests_def Let_def bindE_Inr_iff)
  have ok: "tbl_ok (kv_pending_request st)" using assms(2) by (simp add: kvs_inv_def)
  note q = queued_filter [OF ok, of ?P, folded st']
  have "kvs_inv st'"
  proof -
    have "\<forall>k. \<forall>r \<in> set (queued st' k). is_for k r"
      using q assms(2) by (auto simp: kvs_inv_def)
    then show ?thesis
      using assms(2) tbl_ok_filter [OF ok] by (simp add: kvs_inv_def st')
  qed
  moreover have "kvs_waits st' w \<or> (\<exists>b \<in> set bad. kvs_answers b w)" if w: "kvs_waits st w" for w
  proof (cases "queue_waits st w \<and> queued st' (wait_key w) \<noteq> queued st (wait_key w)")
    case True
    let ?k = "wait_key w"
    obtain r where r: "r \<in> set (queued st ?k)" "wait_of ?k r = w" using True by (auto simp: queue_waits_def)
    have h: "thas (kv_pending_request st) ?k" "?P (fst (tget (0, []) (kv_pending_request st) ?k))"
      using True q by (auto split: if_splits)
    then have "r \<in> set (concat (map (\<lambda>(k, tp, rs). rs) (filter (\<lambda>(k, tp, rs). ?P tp) (kv_pending_request st))))"
      using r(1) tget_in [OF h(1), of "(0, [])"] by (force simp: case_prod_unfold)
    moreover have "is_for ?k r" using r(1) assms(2) by (auto simp: kvs_inv_def)
    ultimately have "\<exists>x \<in> set bad. kvs_answers x (wait_of ?k r)" by (rule mapE_bad_responses [OF b])
    then show ?thesis using r(2) by simp
  next
    case False
    then show ?thesis using w st' by (auto simp: kvs_waits_def queue_waits_def)
  qed
  ultimately show ?thesis by (simp add: keeps_but_def)
qed

lemma gc_gets_ok:
  assumes "gc_gets now st = Inr (st', bad)" and "kvs_inv st"
  shows "kvs_inv st' \<and> keeps_but bad st st'"
proof -
  let ?old = "\<lambda>(k :: string, p). expired now (kv_timeout st) (pr_tp p)"
  obtain st1 where f: "foldE give_up (map snd (filter ?old (kv_pending_get st))) (st, []) = Inr (st1, bad)"
      and st': "st' = st1\<lparr>kv_pending_get := filter (\<lambda>e. \<not> ?old e) (kv_pending_get st1)\<rparr>"
    using assms(1) by (auto simp: gc_gets_def Let_def bindE_Inr_iff)
  note g = give_up_fold [OF f]
  have i1: "kvs_inv st1" using g same_pending_inv assms(2) by blast
  have eq: "kv_pending_get st1 = kv_pending_get st" using g by (simp add: same_pending_def)
  have ok: "tbl_ok (kv_pending_get st)" using assms(2) by (simp add: kvs_inv_def)
  note mf = map_of_filter_tbl [OF ok, of "\<lambda>e. \<not> ?old e"]
  have "kvs_inv st'"
    using i1 mf tbl_ok_filter [OF ok] eq st' by (auto simp: kvs_inv_def split: option.splits if_splits)
  moreover have "kvs_waits st' w \<or> (\<exists>b \<in> set bad. kvs_answers b w)" if "kvs_waits st w" for w
  proof (cases "\<exists>k p. w = WaitGet k \<and> map_of (kv_pending_get st) k = Some p \<and> expired now (kv_timeout st) (pr_tp p)")
    case True
    then obtain k p where p: "w = WaitGet k" "map_of (kv_pending_get st) k = Some p" "expired now (kv_timeout st) (pr_tp p)" by blast
    have "p \<in> set (map snd (filter ?old (kv_pending_get st)))"
      using map_of_SomeD [OF p(2)] p(3) by force
    moreover have "is_for k (pr_request p)" "wait_of k (pr_request p) = w"
      using assms(2) p(1,2) by (auto simp: kvs_inv_def)
    ultimately show ?thesis using g by metis
  next
    case False
    have "sent_waits st w \<Longrightarrow> sent_waits st' w"
      using False mf eq st' g by (cases w) (auto simp: thas_def same_pending_def split: option.splits)
    moreover have "queue_waits st' w = queue_waits st w"
      using st' g by (simp add: queue_waits_def same_pending_def)
    ultimately show ?thesis using that by (auto simp: kvs_waits_def)
  qed
  ultimately show ?thesis by (simp add: keeps_but_def)
qed

lemma gc_puts_ok:
  assumes "gc_puts now st = Inr (st', bad)" and "kvs_inv st"
  shows "kvs_inv st' \<and> keeps_but bad st st'"
proof -
  let ?old = "\<lambda>(i :: string, p). expired now (kv_timeout st) (pr_tp p)"
  obtain st1 where f: "foldE give_up (map snd (filter ?old (concat (map snd (kv_pending_put st))))) (st, []) = Inr (st1, bad)"
      and st': "st' = st1\<lparr>kv_pending_put := map (\<lambda>(k, m). (k, filter (\<lambda>e. \<not> ?old e) m)) (kv_pending_put st1)\<rparr>"
    using assms(1) by (auto simp: gc_puts_def Let_def bindE_Inr_iff)
  note g = give_up_fold [OF f]
  have i1: "kvs_inv st1" using g same_pending_inv assms(2) by blast
  have eq: "kv_pending_put st1 = kv_pending_put st" using g by (simp add: same_pending_def)
  have ok: "tbl_ok (tget [] (kv_pending_put st) k)" for k using assms(2) by (simp add: kvs_inv_def)
  have tg: "tget [] (kv_pending_put st') k = filter (\<lambda>e. \<not> ?old e) (tget [] (kv_pending_put st) k)" for k
    by (simp add: st' eq tget_def map_of_map split: option.splits)
  note mf = map_of_filter_tbl [OF ok, of "\<lambda>e. \<not> ?old e"]
  have "tbl_ok (kv_pending_put st')"
    using i1 st' by (simp add: kvs_inv_def tbl_ok_def case_prod_unfold comp_def)
  then have "kvs_inv st'"
    using i1 mf tbl_ok_filter [OF ok] eq tg st' by (auto simp: kvs_inv_def split: option.splits if_splits)
  moreover have "kvs_waits st' w \<or> (\<exists>b \<in> set bad. kvs_answers b w)" if "kvs_waits st w" for w
  proof (cases "\<exists>k i p. w = WaitPut k i \<and> map_of (tget [] (kv_pending_put st) k) i = Some p \<and> expired now (kv_timeout st) (pr_tp p)")
    case True
    then obtain k i p where p: "w = WaitPut k i" "map_of (tget [] (kv_pending_put st) k) i = Some p"
        "expired now (kv_timeout st) (pr_tp p)" by blast
    have t: "thas (kv_pending_put st) k" using p(2) by (auto simp: thas_def tget_def split: option.splits)
    have "(i, p) \<in> set (concat (map snd (kv_pending_put st)))"
      using map_of_SomeD [OF p(2)] tget_in [OF t, of "[]"] by force
    then have "p \<in> set (map snd (filter ?old (concat (map snd (kv_pending_put st)))))"
      using p(3) by force
    moreover have "is_for k (pr_request p)" "wait_of k (pr_request p) = w"
      using assms(2) p(1,2) by (auto simp: kvs_inv_def)
    ultimately show ?thesis using g by metis
  next
    case False
    have "sent_waits st w \<Longrightarrow> sent_waits st' w"
      using False mf tg st' g by (cases w) (auto simp: thas_def same_pending_def split: option.splits)
    moreover have "queue_waits st' w = queue_waits st w"
      using st' g by (simp add: queue_waits_def same_pending_def)
    ultimately show ?thesis using that by (auto simp: kvs_waits_def)
  qed
  ultimately show ?thesis by (simp add: keeps_but_def)
qed

lemma receive_async_ok:
  assumes "receive_async rnd now addr resp st = Inr (st', rs, sent)" and "kvs_inv st"
  shows "kvs_inv st' \<and> keeps_but rs st st'"
proof -
  obtain st1 s1 st2 r2 s2 st3 b3 st4 b4 b5 where
      a: "(case addr of None \<Rightarrow> Inr (st, []) | Some a \<Rightarrow> handle_address_response rnd now a st) = Inr (st1, s1)"
    and r: "(case resp of None \<Rightarrow> Inr (st1, [], []) | Some r \<Rightarrow> handle_key_response rnd now r st1) = Inr (st2, r2, s2)"
    and g: "gc_requests now st2 = Inr (st3, b3)" "gc_gets now st3 = Inr (st4, b4)" "gc_puts now st4 = Inr (st', b5)"
    and rs: "rs = r2 @ b3 @ b4 @ b5"
    using assms(1) by (auto simp: receive_async_def bindE_Inr_iff)
  have 1: "kvs_inv st1 \<and> keeps_but [] st st1"
    using a assms(2) handle_address_response_ok by (auto split: option.splits simp: keeps_def)
  have 2: "kvs_inv st2 \<and> keeps_but r2 st1 st2"
    using r 1 handle_key_response_ok by (auto split: option.splits simp: keeps_def)
  have 3: "kvs_inv st3 \<and> keeps_but b3 st2 st3" using gc_requests_ok [OF g(1)] 2 by simp
  have 4: "kvs_inv st4 \<and> keeps_but b4 st3 st4" using gc_gets_ok [OF g(2)] 3 by simp
  have 5: "kvs_inv st' \<and> keeps_but b5 st4 st'" using gc_puts_ok [OF g(3)] 4 by simp
  have "keeps_but ([] @ r2 @ b3 @ b4 @ b5) st st'"
    using 1 2 3 4 5 by (intro keeps_but_trans) auto
  then show ?thesis using 5 rs by simp
qed

section \<open>Runs of the client\<close>

datatype kvs_op =
    KvsPut time_point string string lattice_type
  | KvsGet time_point string
  | KvsPoll time_point "key_address_response option" "key_response option"

fun kvs_op_step :: "rand_fn \<Rightarrow> kvs_op \<Rightarrow> kvs_client \<Rightarrow> cpp_error + (kvs_client \<times> key_response list)" where
  "kvs_op_step rnd (KvsPut now key payload ty) st = bindE (put_async rnd now key payload ty st) (\<lambda>(i, st1, sent). Inr (st1, []))"
| "kvs_op_step rnd (KvsGet now key) st = bindE (get_async rnd now key st) (\<lambda>(st1, sent). Inr (st1, []))"
| "kvs_op_step rnd (KvsPoll now addr resp) st = bindE (receive_async rnd now addr resp st) (\<lambda>(st1, rs, sent). Inr (st1, rs))"

lemma put_async_ok:
  assumes "put_async rnd now key payload ty st = Inr (i, st', sent)" and "kvs_inv st"
  shows "kvs_inv st' \<and> keeps st st' \<and> kvs_waits st' (WaitPut key i)"
proof -
  obtain req st1 where p: "prepare_data_request key st = (req, st1)" by fastforce
  let ?r = "req\<lparr>kreq_type := PUT, kreq_tuples := [(hd (kreq_tuples req))\<lparr>kt_lattice_type := ty, kt_payload := payload\<rparr>]\<rparr>"
  obtain req2 where t: "try_request rnd now ?r st1 = Inr (req2, st', sent)" and i: "i = kreq_request_id req2"
    using assms(1) p by (auto simp: put_async_def Let_def bindE_Inr_iff)
  have same: "same_pending st st1" and f: "is_for key ?r"
    using prepare_same [OF p] by (auto simp: is_for_def)
  have i1: "kvs_inv st1" using same_pending_inv [OF same] assms(2) by simp
  note o = try_request_ok [OF t f i1]
  show ?thesis
    using o i keeps_trans [OF same_pending_keeps [OF same]] by (simp add: wait_of_def)
qed

lemma get_async_ok:
  assumes "get_async rnd now key st = Inr (st', sent)" and "kvs_inv st"
  shows "kvs_inv st' \<and> keeps st st' \<and> kvs_waits st' (WaitGet key)"
proof (cases "thas (kv_pending_get st) key")
  case True
  then show ?thesis using assms by (simp add: get_async_def keeps_def kvs_waits_def)
next
  case False
  obtain req st1 where p: "prepare_data_request key st = (req, st1)" by fastforce
  let ?r = "req\<lparr>kreq_type := GET\<rparr>"
  obtain req2 where t: "try_request rnd now ?r st1 = Inr (req2, st', sent)"
    using assms(1) p False by (auto simp: get_async_def Let_def bindE_Inr_iff)
  have same: "same_pending st st1" and f: "is_for key ?r"
    using prepare_same [OF p] by (auto simp: is_for_def)
  have i1: "kvs_inv st1" using same_pending_inv [OF same] assms(2) by simp
  note o = try_request_ok [OF t f i1]
  show ?thesis
    using o keeps_trans [OF same_pending_keeps [OF same]] by (simp add: wait_of_def)
qed

lemma kvs_op_step_ok:
  assumes "kvs_op_step rnd op st = Inr (st', rs)" and "kvs_inv st"
  shows "kvs_inv st' \<and> keeps_but rs st st'"
proof (cases op)
  case (KvsPut now key payload ty)
  then show ?thesis using assms put_async_ok by (auto simp: bindE_Inr_iff)
next
  case (KvsGet now key)
  then show ?thesis using assms get_async_ok by (auto simp: bindE_Inr_iff)
next
  case (KvsPoll now addr resp)
  then show ?thesis using assms receive_async_ok by (auto simp: bindE_Inr_iff)
qed

interpretation kvs: async_requests kvs_inv kvs_waits kvs_answers "kvs_op_step rnd" for rnd
  by unfold_locales (use kvs_op_step_ok in \<open>auto simp: keeps_but_def\<close>)

lemma kvs_inv_init: "kvs_inv (kvs_client_init routing ip tid timeout seed)"
  by (simp add: kvs_inv_def kvs_client_init_def)

text \<open>
  C11. The client of the key-value store forgets no request: take any sequence of operations from
  the initial state, then issue a PUT (or a GET), then any further operations and polls, with
  arbitrary answers of the routing tier and of the servers (wrong-thread errors and cache
  invalidations included). As long as no operation fails, the request is still pending at the
  end, or one of the polls has reported a response for its key and identifier (for its key, for
  a GET).
\<close>

theorem kvs_requests_never_forgotten:
  assumes "runE (kvs_op_step rnd) ops0 (kvs_client_init routing ip tid timeout seed) = Inr (st, rs0)"
  shows "(put_async rnd now key payload ty st = Inr (i, st1, sent) \<and> runE (kvs_op_step rnd) ops st1 = Inr (st2, rs) \<longrightarrow>
            kvs_waits st2 (WaitPut key i) \<or> (\<exists>r \<in> set rs. kvs_answers r (WaitPut key i)))
       \<and> (get_async rnd now key st = Inr (st1, sent) \<and> runE (kvs_op_step rnd) ops st1 = Inr (st2, rs) \<longrightarrow>
            kvs_waits st2 (WaitGet key) \<or> (\<exists>r \<in> set rs. kvs_answers r (WaitGet key)))"
proof -
  have i: "kvs_inv st" using kvs.run_inv [OF kvs_inv_init assms] .
  show ?thesis
    using put_async_ok [OF _ i] get_async_ok [OF _ i] kvs.run_keeps by blast
qed

definition zero_rand :: rand_fn where
  "zero_rand s = (0, s)"

definition example_kvs :: kvs_client where
  "example_kvs = kvs_client_init [mk_endpoint ''10.0.0.9'' 0] ''10.0.0.1'' 0 30000 0"

theorem kvs_requests_never_forgotten_witness:
  "\<exists>i st1 sent st2 rs. put_async zero_rand 0 ''k'' ''v'' LWW example_kvs = Inr (i, st1, sent)
     \<and> runE (kvs_op_step zero_rand) [KvsPoll 1 None None] st1 = Inr (st2, rs)
     \<and> (kvs_waits st2 (WaitPut ''k'' i) \<or> (\<exists>r. r \<in> set rs \<and> kvs_answers r (WaitPut ''k'' i)))"
proof -
  obtain i st1 sent q0 where p: "put_async zero_rand 0 ''k'' ''v'' LWW example_kvs = Inr (i, st1, sent)"
      and q: "kv_pending_request st1 = [(''k'', 0, q0)]" "kv_pending_get st1 = []" "kv_pending_put st1 = []"
        "kv_timeout st1 = 30000"
    by (simp add: put_async_def prepare_data_request_def kvs_get_request_id_def next_rid_def example_kvs_def
        kvs_client_init_def try_request_def get_worker_thread_def get_all_worker_threads_def query_routing_async_def
        get_routing_thread_def zero_rand_def nth_or_def Let_def case_prod_unfold queue_request_def empty_key_tuple_def tmod_def tget_def)
  have r: "runE (kvs_op_step zero_rand) [KvsPoll 1 None None] st1 = Inr (st1, [])"
    using q by (simp add: receive_async_def gc_requests_def gc_gets_def gc_puts_def expired_def millis_def tdiv_def Let_def)
  show ?thesis
    using kvs_requests_never_forgotten [of zero_rand "[]" "[mk_endpoint ''10.0.0.9'' 0]" "''10.0.0.1''" 0 30000 0 example_kvs "[]"
        0 "''k''" "''v''" LWW i st1 sent "[KvsPoll 1 None None]" st1 "[]"] p r
    by (auto simp: example_kvs_def)
qed

section \<open>Timeouts\<close>

definition good_addr :: "string \<Rightarrow> bool" where
  "good_addr a \<longleftrightarrow> 1 < length (split a (CHR '':''))"

definition kvs_addrs_ok :: "kvs_client \<Rightarrow> bool" where
  "kvs_addrs_ok st \<longleftrightarrow>
     (\<forall>(k, as) \<in> set (kv_key_address_cache st). \<forall>a \<in> set as. good_addr a)
   \<and> (\<forall>(k, p) \<in> set (kv_pending_get st). good_addr (pr_worker_addr p))
   \<and> (\<forall>(k, m) \<in> set (kv_pending_put st). \<forall>(i, p) \<in> set m. good_addr (pr_worker_addr p))"

definition all_expired :: "time_point \<Rightarrow> kvs_client \<Rightarrow> bool" where
  "all_expired now st \<longleftrightarrow>
     (\<forall>(k, tp, rs) \<in> set (kv_pending_request st). expired now (kv_timeout st) tp)
   \<and> (\<forall>(k, p) \<in> set (kv_pending_get st). expired now (kv_timeout st) (pr_tp p))
   \<and> (\<forall>(k, m) \<in> set (kv_pending_put st). \<forall>(i, p) \<in> set m. expired now (kv_timeout st) (pr_tp p))"

lemma mapE_Inr: "(\<And>x. x \<in> set xs \<Longrightarrow> \<exists>y. f x = Inr y) \<Longrightarrow> \<exists>ys. mapE f xs = Inr ys"
  by (induction xs) (auto, metis bindE_simps(2) list.set_intros)

lemma invalidate_returns:
  assumes "good_addr a" and "\<forall>(k, as) \<in> set (kv_key_address_cache st). \<forall>a \<in> set as. good_addr a"
  shows "\<exists>st'. invalidate_cache_for_worker a st = Inr st' \<and> same_pending st st'
    \<and> (\<forall>(k, as) \<in> set (kv_key_address_cache st'). \<forall>a \<in> set as. good_addr a)"
proof -
  have h: "\<exists>s. host_signature x = Inr s" if "good_addr x" for x
    using that by (simp add: host_signature_def nth_or_def good_addr_def)
  obtain sig where s: "host_signature a = Inr sig" using h assms(1) by blast
  obtain sigs where ss: "mapE (\<lambda>(k, as). mapE host_signature as) (kv_key_address_cache st) = Inr sigs"
    using mapE_Inr [of "kv_key_address_cache st" "\<lambda>(k, as). mapE host_signature as"]
      mapE_Inr [of _ host_signature] assms(2) h by (auto simp: case_prod_unfold)
  show ?thesis
    using s ss assms(2) by (auto simp: invalidate_cache_for_worker_def same_pending_def dest: set_zip_leftD)
qed

lemma give_up_returns:
  assumes "\<forall>p \<in> set ps. good_addr (pr_worker_addr p) \<and> (\<exists>k. is_for k (pr_request p))"
    and "\<forall>(k, as) \<in> set (kv_key_address_cache st). \<forall>a \<in> set as. good_addr a"
  shows "\<exists>st' bad. foldE give_up ps (st, []) = Inr (st', bad)
    \<and> (\<forall>(k, as) \<in> set (kv_key_address_cache st'). \<forall>a \<in> set as. good_addr a)"
proof -
  have "\<exists>s'. foldE give_up ps (st, []) = Inr s' \<and> (\<forall>(k, as) \<in> set (kv_key_address_cache (fst s')). \<forall>a \<in> set as. good_addr a)"
  proof (rule foldE_Inr [where P = "\<lambda>s. \<forall>(k, as) \<in> set (kv_key_address_cache (fst s)). \<forall>a \<in> set as. good_addr a"])
    fix p and s :: "kvs_client \<times> key_response list"
    assume p: "p \<in> set ps" and s: "\<forall>(k, as) \<in> set (kv_key_address_cache (fst s)). \<forall>a \<in> set as. good_addr a"
    obtain b where "generate_bad_response (pr_request p) = Inr b"
      using assms(1) p bad_response_answers by blast
    then show "\<exists>s'. give_up p s = Inr s' \<and> (\<forall>(k, as) \<in> set (kv_key_address_cache (fst s')). \<forall>a \<in> set as. good_addr a)"
      using invalidate_returns [OF _ s, of "pr_worker_addr p"] assms(1) p by (auto simp: give_up_def)
  qed (use assms(2) in simp)
  then show ?thesis by auto
qed

lemma gc_requests_all:
  assumes "kvs_inv st" and "\<forall>(k, tp, rs) \<in> set (kv_pending_request st). expired now (kv_timeout st) tp"
  shows "\<exists>bad. gc_requests now st = Inr (st\<lparr>kv_pending_request := []\<rparr>, bad)"
proof -
  have "\<exists>y. generate_bad_response r = Inr y" if "e \<in> set (kv_pending_request st)" "r \<in> set (snd (snd e))" for e r
  proof -
    have "tget (0, []) (kv_pending_request st) (fst e) = snd e"
      using that(1) assms(1) tget_eqI [of "kv_pending_request st" "fst e" "snd e"] by (simp add: kvs_inv_def)
    then have "is_for (fst e) r" using that(2) assms(1) by (force simp: kvs_inv_def)
    then show ?thesis using bad_response_answers by blast
  qed
  then have "\<exists>bad. mapE generate_bad_response (concat (map (\<lambda>(k, tp, rs). rs)
      (filter (\<lambda>(k, tp, rs). expired now (kv_timeout st) tp) (kv_pending_request st)))) = Inr bad"
    by (intro mapE_Inr) (auto simp: case_prod_unfold)
  moreover have "filter (\<lambda>e. \<not> (\<lambda>(k, tp, rs). expired now (kv_timeout st) tp) e) (kv_pending_request st) = []"
    using assms(2) by (auto simp: filter_empty_conv)
  ultimately show ?thesis by (auto simp: gc_requests_def Let_def)
qed

lemma gc_gets_all:
  assumes "kvs_inv st" and "kvs_addrs_ok st" and "\<forall>(k, p) \<in> set (kv_pending_get st). expired now (kv_timeout st) (pr_tp p)"
  shows "\<exists>st' bad. gc_gets now st = Inr (st', bad) \<and> kv_pending_get st' = []
    \<and> kv_pending_request st' = kv_pending_request st \<and> kv_pending_put st' = kv_pending_put st
    \<and> kv_timeout st' = kv_timeout st \<and> (\<forall>(k, as) \<in> set (kv_key_address_cache st'). \<forall>a \<in> set as. good_addr a)"
proof -
  let ?ps = "map snd (filter (\<lambda>(k, p). expired now (kv_timeout st) (pr_tp p)) (kv_pending_get st))"
  have "is_for k (pr_request p)" if "(k, p) \<in> set (kv_pending_get st)" for k p
  proof -
    have "map_of (kv_pending_get st) k = Some p" using that assms(1) by (simp add: kvs_inv_def tbl_ok_def)
    then show ?thesis using assms(1) by (simp add: kvs_inv_def)
  qed
  then have "\<forall>p \<in> set ?ps. good_addr (pr_worker_addr p) \<and> (\<exists>k. is_for k (pr_request p))"
    using assms(2) by (fastforce simp: kvs_addrs_ok_def)
  then obtain st1 bad where f: "foldE give_up ?ps (st, []) = Inr (st1, bad)"
      "\<forall>(k, as) \<in> set (kv_key_address_cache st1). \<forall>a \<in> set as. good_addr a"
    using give_up_returns [of ?ps st] assms(2) by (auto simp: kvs_addrs_ok_def)
  have "same_pending st st1" using give_up_fold [OF f(1)] by simp
  moreover have "filter (\<lambda>e. \<not> (\<lambda>(k, p). expired now (kv_timeout st) (pr_tp p)) e) (kv_pending_get st) = []"
    using assms(3) by (auto simp: filter_empty_conv)
  ultimately show ?thesis
    using f by (simp add: gc_gets_def Let_def same_pending_def)
qed

lemma gc_puts_all:
  assumes "kvs_inv st" and "\<forall>(k, as) \<in> set (kv_key_address_cache st). \<forall>a \<in> set as. good_addr a"
    and "\<forall>(k, m) \<in> set (kv_pending_put st). \<forall>(i, p) \<in> set m. good_addr (pr_worker_addr p) \<and> expired now (kv_timeout st) (pr_tp p)"
  shows "\<exists>st' bad. gc_puts now st = Inr (st', bad) \<and> (\<forall>k. tget [] (kv_pending_put st') k = [])
    \<and> kv_pending_request st' = kv_pending_request st \<and> kv_pending_get st' = kv_pending_get st"
proof -
  let ?old = "\<lambda>(i :: string, p). expired now (kv_timeout st) (pr_tp p)"
  let ?ps = "map snd (filter ?old (concat (map snd (kv_pending_put st))))"
  have "is_for k (pr_request p)" if "(k, m) \<in> set (kv_pending_put st)" "(i, p) \<in> set m" for k m i p
  proof -
    have "tget [] (kv_pending_put st) k = m" using that(1) assms(1) tget_eqI by (auto simp: kvs_inv_def)
    then have "map_of (tget [] (kv_pending_put st) k) i = Some p"
      using that(2) assms(1) by (metis kvs_inv_def map_of_is_SomeI tbl_ok_def)
    then show ?thesis using assms(1) by (auto simp: kvs_inv_def)
  qed
  then have "\<forall>p \<in> set ?ps. good_addr (pr_worker_addr p) \<and> (\<exists>k. is_for k (pr_request p))"
    using assms(3) by fastforce
  then obtain st1 bad where f: "foldE give_up ?ps (st, []) = Inr (st1, bad)"
    using give_up_returns [of ?ps st] assms(2) by auto
  have s: "same_pending st st1" using give_up_fold [OF f] by simp
  have "filter (\<lambda>e. \<not> ?old e) m = []" if "(k, m) \<in> set (kv_pending_put st)" for k m
    using assms(3) that by (fastforce simp: filter_empty_conv)
  then have "filter (\<lambda>e. \<not> ?old e) m = []" if "map_of (kv_pending_put st) k = Some m" for k m
    using map_of_SomeD [OF that] by blast
  then have "tget [] (map (\<lambda>(k, m). (k, filter (\<lambda>e. \<not> ?old e) m)) (kv_pending_put st)) k = []" for k
    by (auto simp: tget_def map_of_map split: option.splits)
  then show ?thesis
    using f s by (simp add: gc_puts_def Let_def same_pending_def)
qed

text \<open>
  A poll reports every request that outlived the timeout: when all pending requests are
  older than the timeout and the cached and contacted addresses have the form \<open>scheme:...\<close> (the
  code indexes the second token of each), a poll without incoming messages returns, sends
  nothing, leaves nothing pending, and its result has a response for every request that was
  pending.
\<close>

theorem kvs_timeout_reports_everything:
  assumes "kvs_inv st" and "kvs_addrs_ok st" and "all_expired now st"
  shows "\<exists>st' rs. receive_async rnd now None None st = Inr (st', rs, [])
     \<and> (\<forall>w. \<not> kvs_waits st' w) \<and> (\<forall>w. kvs_waits st w \<longrightarrow> (\<exists>r \<in> set rs. kvs_answers r w))"
proof -
  let ?st1 = "st\<lparr>kv_pending_request := []\<rparr>"
  obtain b1 where 1: "gc_requests now st = Inr (?st1, b1)"
    using gc_requests_all [OF assms(1), of now] assms(3) by (auto simp: all_expired_def)
  have i1: "kvs_inv ?st1" "kvs_addrs_ok ?st1"
    using gc_requests_ok [OF 1 assms(1)] assms(2) by (auto simp: kvs_addrs_ok_def)
  obtain st2 b2 where 2: "gc_gets now ?st1 = Inr (st2, b2)" "kv_pending_get st2 = []" "kv_pending_request st2 = []"
      "kv_pending_put st2 = kv_pending_put st" "kv_timeout st2 = kv_timeout st"
      "\<forall>(k, as) \<in> set (kv_key_address_cache st2). \<forall>a \<in> set as. good_addr a"
    using gc_gets_all [OF i1, of now] assms(3) by (auto simp: all_expired_def)
  have i2: "kvs_inv st2" using gc_gets_ok [OF 2(1) i1(1)] by simp
  have "\<forall>(k, m) \<in> set (kv_pending_put st2). \<forall>(i, p) \<in> set m. good_addr (pr_worker_addr p) \<and> expired now (kv_timeout st2) (pr_tp p)"
    using assms(2,3) 2(4,5) by (fastforce simp: all_expired_def kvs_addrs_ok_def)
  then obtain st3 b3 where 3: "gc_puts now st2 = Inr (st3, b3)" "\<forall>k. tget [] (kv_pending_put st3) k = []"
      "kv_pending_request st3 = []" "kv_pending_get st3 = []"
    using gc_puts_all [OF i2 2(6), of now] 2(2,3) by auto
  have r: "receive_async rnd now None None st = Inr (st3, b1 @ b2 @ b3, [])"
    using 1 2(1) 3(1) by (simp add: receive_async_def)
  have none: "\<not> kvs_waits st3 w" for w
    using 3(2,3,4) by (cases w) (simp_all add: kvs_waits_def queue_waits_def)
  show ?thesis
    using r none receive_async_ok [OF r assms(1)] unfolding keeps_but_def by blast
qed

definition waiting_kvs :: kvs_client where
  "waiting_kvs = await_put 0 ''k'' ''tcp://10.0.0.7:6200''
     \<lparr>kreq_type = PUT, kreq_tuples = [empty_key_tuple\<lparr>kt_key := ''k''\<rparr>], kreq_response_address = [], kreq_request_id = ''r''\<rparr> example_kvs"

theorem kvs_timeout_reports_everything_witness:
  "\<exists>st' rs r. receive_async zero_rand 40000000000 None None waiting_kvs = Inr (st', rs, [])
     \<and> \<not> kvs_waits st' (WaitPut ''k'' ''r'') \<and> r \<in> set rs \<and> kvs_answers r (WaitPut ''k'' ''r'')"
proof -
  have "kvs_inv waiting_kvs"
    unfolding waiting_kvs_def
    by (rule kvs_inv_await_put) (simp_all add: example_kvs_def kvs_inv_init is_for_def wait_of_def empty_key_tuple_def)
  moreover have "kvs_addrs_ok waiting_kvs" "all_expired 40000000000 waiting_kvs" "kvs_waits waiting_kvs (WaitPut ''k'' ''r'')"
    by (simp_all add: waiting_kvs_def example_kvs_def kvs_client_init_def await_put_def wait_response_def tmod_def
        kvs_addrs_ok_def all_expired_def good_addr_def split.simps expired_def millis_def tdiv_def kvs_waits_def
        tget_def thas_def)
  ultimately show ?thesis
    using kvs_timeout_reports_everything [of waiting_kvs 40000000000 zero_rand] by blast
qed

section \<open>Request identifiers\<close>

text \<open>The numbers of \<open>n\<close> consecutive requests from a given counter.\<close>

fun rid_sequence :: "nat \<Rightarrow> u32 \<Rightarrow> u32 list" where
  "rid_sequence 0 rid = []"
| "rid_sequence (Suc n) rid = (let (r, rid1) = next_rid rid in r # rid_sequence n rid1)"

lemma next_rid_even:
  assumes "even (unat rid)"
  shows "next_rid rid = (rid + 1, rid + 2)"
proof -
  have e: "even (unat rid)" and lt: "unat rid < 2 ^ 32" using assms unsigned_less [of rid] by simp_all
  have "unat rid \<noteq> 2 ^ 32 - 1" using e by auto
  then have "unat rid + 1 < 2 ^ 32" using lt by simp
  then have u: "unat (rid + 1) = unat rid + 1" by (intro unat_add_lem [THEN iffD1, THEN trans]) simp_all
  have "unat ((rid + 1) mod 10000) = (unat rid + 1) mod 10000" by (simp add: unat_mod u)
  moreover have "odd ((unat rid + 1) mod 10000)" using e by (simp add: dvd_mod_iff)
  ultimately have "(rid + 1) mod 10000 \<noteq> 0" by (metis even_zero unat_0)
  then show ?thesis by (simp add: next_rid_def Let_def add.assoc)
qed

lemma even_word_add_2: "even (unat (r :: u32)) \<Longrightarrow> even (unat (r + 2))"
  by (simp add: unat_word_ariths(1) dvd_mod_iff)

lemma rid_sequence_nth: "even (unat rid) \<Longrightarrow> i < n \<Longrightarrow> rid_sequence n rid ! i = rid + 1 + of_nat (2 * i)"
proof (induction n arbitrary: rid i)
  case 0
  then show ?case by simp
next
  case (Suc n)
  then show ?case
    using even_word_add_2 [OF Suc.prems(1)] Suc.IH [of "rid + 2"]
    by (cases i) (simp_all add: next_rid_even algebra_simps)
qed

text \<open>
  The request counters of the key-value client and of the communication helper never
  repeat a number within \<open>2^31\<close> consecutive requests: the counter is incremented twice per request,
  so the numbers are the odd ones in order, and the reset to zero at multiples of ten thousand
  is never reached.
\<close>

theorem request_numbers_distinct:
  assumes "i < j" and "j < n" and "n \<le> 2 ^ 31"
  shows "rid_sequence n 0 ! i \<noteq> rid_sequence n 0 ! j \<and> unat (rid_sequence n 0 ! i) = 2 * i + 1"
proof -
  have u: "unat (rid_sequence n 0 ! k) = 2 * k + 1" if "k < n" for k
  proof -
    have "rid_sequence n 0 ! k = of_nat (2 * k + 1)" using rid_sequence_nth [of 0 k n] that by simp
    moreover have "2 * k + 1 < 2 ^ 32" using that assms(3) by simp
    ultimately show ?thesis by (simp only: unat_of_nat) (simp add: take_bit_nat_eq_self)
  qed
  have "unat (rid_sequence n 0 ! i) = 2 * i + 1" "unat (rid_sequence n 0 ! j) = 2 * j + 1"
    using u assms(1,2) by simp_all
  then show ?thesis using assms(1) by auto
qed

theorem request_numbers_distinct_witness:
  "rid_sequence 3 0 ! 0 \<noteq> rid_sequence 3 0 ! 2 \<and> unat (rid_sequence 3 0 ! 0) = 1"
  using request_numbers_distinct [of 0 2 3] by simp

end
