(* ===== verification/Exec_Lib.thy ===== *)
theory Exec_Lib
  imports Threads
begin

text \<open>
  The library that user functions are linked with (\<^verbatim>\<open>include/executor/function_lib.hpp\<close>): the
  objects they create and the requests that \<open>send_object\<close> and \<open>get_object\<close> put on the channel to
  the local scheduler, byte by byte. The shared-memory segments of the vendored \<open>libipc\<close> are a
  table from segment names to their bytes.
\<close>

section \<open>Bytes\<close>

definition byte :: "u8 \<Rightarrow> char" where
  "byte w = char_of (unat w)"

definition unbyte :: "char \<Rightarrow> u8" where
  "unbyte c = of_nat (of_char c)"

lemma unbyte_byte [simp, strs]: "unbyte (byte w) = w"
  using unsigned_less [of w, where 'a = nat] by (simp add: unbyte_def byte_def)

lemma byte_inj [simp, strs]: "byte v = byte w \<longleftrightarrow> v = w"
  by (metis unbyte_byte)

text \<open>The channel delivers the bytes of a string and its terminating NUL; reads past it are errors.\<close>

definition raw :: "string \<Rightarrow> string" where
  "raw msg = msg @ [CHR 0x00]"

definition byte_at :: "string \<Rightarrow> nat \<Rightarrow> cpp_error + u8" where
  "byte_at msg i = bindE (nth_or VectorIndex (raw msg) i) (\<lambda>c. Inr (unbyte c))"

text \<open>\<open>string(str + i)\<close> and \<open>string(str + i, n)\<close>.\<close>

definition c_string_from :: "string \<Rightarrow> nat \<Rightarrow> cpp_error + string" where
  "c_string_from msg i = (if i \<le> length msg then Inr (c_str (drop i (raw msg))) else Inl VectorIndex)"

definition bytes_from :: "string \<Rightarrow> nat \<Rightarrow> nat \<Rightarrow> cpp_error + string" where
  "bytes_from msg i n = (if i + n \<le> length (raw msg) then Inr (take n (drop i (raw msg))) else Inl VectorIndex)"

lemma byte_at_nth [simp, strs]: "i < length msg \<Longrightarrow> byte_at msg i = Inr (unbyte (msg ! i))"
  by (simp add: byte_at_def nth_or_def raw_def nth_append)

lemma c_string_from_append [strs]:
  "CHR 0x00 \<notin> set s \<Longrightarrow> c_string_from (p @ s) (length p) = Inr s"
  by (simp add: c_string_from_def raw_def c_str_def takeWhile_append)

section \<open>Objects\<close>

record ephe_object =
  eo_obj_name :: string
  eo_size :: nat
  eo_target_func :: string

type_synonym shm = "(string, string) table"

text \<open>
  A new segment has the requested size and is zero-filled. Acquiring an existing one with a size
  changes its size to it (\<open>ftruncate\<close>); the bytes that are gained are zero here and in the library
  the old padding and reference count, see \<open>Shm_Segments\<close>. Size 0 maps it as it is. Opening a segment
  that does not exist gives the null pointer.
\<close>

definition shm_resize :: "nat \<Rightarrow> string \<Rightarrow> string" where
  "shm_resize n d = take n d @ replicate (n - length d) (CHR 0x00)"

definition shm_acquire :: "string \<Rightarrow> nat \<Rightarrow> shm \<Rightarrow> shm" where
  "shm_acquire nm n m =
     (case map_of m nm of
        None \<Rightarrow> tput nm (replicate n (CHR 0x00)) m
      | Some d \<Rightarrow> if n = 0 then m else tput nm (shm_resize n d) m)"

lemma length_shm_resize [simp]: "length (shm_resize n d) = n" "shm_resize (length d) d = d"
  by (auto simp: shm_resize_def)

definition shm_open :: "string \<Rightarrow> shm \<Rightarrow> string option" where
  "shm_open nm m = map_of m nm"

definition ephe_object_init :: "string \<Rightarrow> nat \<Rightarrow> bool \<Rightarrow> shm \<Rightarrow> ephe_object \<times> shm" where
  "ephe_object_init nm n create m =
     (\<lparr>eo_obj_name = nm, eo_size = n, eo_target_func = []\<rparr>, if create then shm_acquire nm n m else m)"

definition ephe_object_in_bucket :: "string \<Rightarrow> string \<Rightarrow> string \<Rightarrow> nat \<Rightarrow> bool \<Rightarrow> shm \<Rightarrow> ephe_object \<times> shm" where
  "ephe_object_in_bucket b k s n create m = ephe_object_init (get_local_object_name b k s) n create m"

definition ephe_object_for_target :: "string \<Rightarrow> string \<Rightarrow> string \<Rightarrow> nat \<Rightarrow> shm \<Rightarrow> ephe_object \<times> shm" where
  "ephe_object_for_target src tgt s n m =
     (let (e, m1) = ephe_object_in_bucket (''b_'' @ tgt) (''k_'' @ src) s n True m in (e\<lparr>eo_target_func := tgt\<rparr>, m1))"

text \<open>\<open>memcpy(value_, value, val_size)\<close> past the end of the segment is an invalid access.\<close>

definition ephe_set_value :: "ephe_object \<Rightarrow> string \<Rightarrow> shm \<Rightarrow> cpp_error + shm" where
  "ephe_set_value e v m =
     (case map_of m (eo_obj_name e) of
        None \<Rightarrow> Inl NullDereference
      | Some mem \<Rightarrow> if length v \<le> length mem then Inr (tput (eo_obj_name e) (v @ drop (length v) mem) m) else Inl VectorIndex)"

definition update_size :: "nat \<Rightarrow> ephe_object \<Rightarrow> ephe_object" where
  "update_size n e = e\<lparr>eo_size := n\<rparr>"

definition get_value :: "ephe_object \<Rightarrow> shm \<Rightarrow> string option" where
  "get_value e m = map_of m (eo_obj_name e)"

section \<open>\<open>UserLibrary\<close>\<close>

record user_library =
  ul_ip_number :: string
  ul_chan_id :: u8
  ul_rid :: u8
  ul_object_id :: u32
  ul_function :: string
  ul_session_id :: string
  ul_persist_flag :: u8
  ul_size_of_args :: "u64 list"

definition user_library_init :: "string \<Rightarrow> u32 \<Rightarrow> user_library" where
  "user_library_init ip tid =
     \<lparr>ul_ip_number = filter (\<lambda>c. c \<noteq> CHR ''.'') ip, ul_chan_id = ucast (tid + 1), ul_rid = 0, ul_object_id = 0,
      ul_function = [], ul_session_id = [], ul_persist_flag = 0, ul_size_of_args = []\<rparr>"

definition set_function_name :: "string \<Rightarrow> user_library \<Rightarrow> user_library" where
  "set_function_name f u = u\<lparr>ul_function := f\<rparr>"

definition set_session_id :: "string \<Rightarrow> user_library \<Rightarrow> user_library" where
  "set_session_id s u = u\<lparr>ul_session_id := s\<rparr>"

definition set_persist_flag :: "u8 \<Rightarrow> user_library \<Rightarrow> user_library" where
  "set_persist_flag p u = u\<lparr>ul_persist_flag := p\<rparr>"

definition clear_session :: "user_library \<Rightarrow> user_library" where
  "clear_session u = u\<lparr>ul_function := [], ul_session_id := [], ul_persist_flag := 0, ul_size_of_args := []\<rparr>"

definition add_arg_size :: "u64 \<Rightarrow> user_library \<Rightarrow> user_library" where
  "add_arg_size n u = u\<lparr>ul_size_of_args := ul_size_of_args u @ [n]\<rparr>"

text \<open>\<open>size_of_args_.size() <= arg_idx\<close> compares a \<open>size_t\<close> with a converted \<open>int\<close>; -1 is the largest \<open>size_t\<close>.\<close>

definition get_size_of_arg :: "int \<Rightarrow> user_library \<Rightarrow> u64" where
  "get_size_of_arg i u =
     (if int (length (ul_size_of_args u)) \<le> uint (word_of_int i :: u64) then -1 else ul_size_of_args u ! nat i)"

definition get_request_id :: "user_library \<Rightarrow> u8 \<times> user_library" where
  "get_request_id u =
     (let r = ul_rid u + 1; r' = (if r mod 100 = 0 then 0 else r) in (r', u\<lparr>ul_rid := r'\<rparr>))"

definition get_object_id :: "user_library \<Rightarrow> u32 \<times> user_library" where
  "get_object_id u = (ul_object_id u, u\<lparr>ul_object_id := ul_object_id u + 1\<rparr>)"

definition gen_unique_key :: "user_library \<Rightarrow> string \<times> user_library" where
  "gen_unique_key u =
     (let (oid, u1) = get_object_id u
      in (ul_ip_number u @ ''_'' @ to_string (unat (ul_chan_id u)) @ ''_'' @ to_string (unat oid), u1))"

definition create_object :: "string \<Rightarrow> string \<Rightarrow> nat \<Rightarrow> user_library \<Rightarrow> shm \<Rightarrow> ephe_object \<times> shm" where
  "create_object b k n u m = ephe_object_in_bucket b k (ul_session_id u) n True m"

definition create_direct_object :: "nat \<Rightarrow> user_library \<Rightarrow> shm \<Rightarrow> ephe_object \<times> user_library \<times> shm" where
  "create_direct_object n u m =
     (let (oid, u1) = get_object_id u;
          (e, m1) = create_object bucketNameDirectInvoc (to_string (unat (ul_chan_id u)) @ ''_'' @ to_string (unat oid)) n u1 m
      in (e, u1, m1))"

definition create_target_object :: "string \<Rightarrow> bool \<Rightarrow> nat \<Rightarrow> user_library \<Rightarrow> shm \<Rightarrow> ephe_object \<times> user_library \<times> shm" where
  "create_target_object tgt many_to_one n u m =
     (if many_to_one
      then (let (e, m1) = ephe_object_for_target (ul_function u) tgt (ul_session_id u) n m in (e, u, m1))
      else (let (k, u1) = gen_unique_key u; (e, m1) = create_object (''b_'' @ tgt) k n u1 m in (e, u1, m1)))"

section \<open>Requests to the local scheduler\<close>

text \<open>The request bytes of \<open>send_object\<close> and whether a reply is awaited.\<close>

definition send_object_request :: "ephe_object \<Rightarrow> bool \<Rightarrow> user_library \<Rightarrow> shm \<Rightarrow> cpp_error + (string \<times> bool \<times> u8 \<times> user_library)" where
  "send_object_request e out u m =
     (let (rid, u1) = get_request_id u;
          ty = (if out then (if ul_persist_flag u = 1 then 3 else 4) else 2 :: u8);
          packing = (eo_size e \<le> msgDataPackingThreshold);
          head = [byte (ul_chan_id u), byte ty, byte rid, byte (if packing then 1 else 2)]
                 @ ul_session_id u @ ''|'' @ ul_function u @ ''|'' @ eo_target_func e @ ''|'' @ eo_obj_name e @ ''|''
      in bindE (if packing
                then (case get_value e m of
                        None \<Rightarrow> Inl NullDereference
                      | Some mem \<Rightarrow> if eo_size e \<le> length mem then Inr (take (eo_size e) mem) else Inl VectorIndex)
                else Inr (to_string (eo_size e)))
           (\<lambda>body. Inr (head @ body, out \<and> ul_persist_flag u = 1, rid, u1)))"

text \<open>
  The reply to a persisting \<open>send_object\<close>: every mismatch is only printed. A timeout prints a
  message and then still dereferences the null pointer.
\<close>

definition put_reply :: "string option \<Rightarrow> u8 \<Rightarrow> cpp_error + bool" where
  "put_reply reply rid =
     (case reply of
        None \<Rightarrow> Inl NullDereference
      | Some r \<Rightarrow> bindE (byte_at r 0) (\<lambda>b0. bindE (byte_at r 1) (\<lambda>b1. bindE (byte_at r 2) (\<lambda>b2.
                    Inr (b0 = 3 \<and> b1 = rid \<and> b2 = 1)))))"

definition get_object_request :: "string \<Rightarrow> string \<Rightarrow> bool \<Rightarrow> user_library \<Rightarrow> string \<times> string \<times> u8 \<times> user_library" where
  "get_object_request b k from_ephe u =
     (let nm = (if from_ephe then get_local_object_name b k (ul_session_id u) else kvsKeyPrefix @ kDelimiter @ k);
          (rid, u1) = get_request_id u
      in ([byte (ul_chan_id u), byte 1, byte (if from_ephe then 1 else 2), byte rid, byte (of_nat (length nm))] @ nm,
          nm, rid, u1))"

text \<open>\<open>None\<close> inside the result is the null object of the error returns.\<close>

definition get_object_reply :: "string \<Rightarrow> u8 \<Rightarrow> string option \<Rightarrow> cpp_error + ephe_object option" where
  "get_object_reply nm rid reply =
     (case reply of
        None \<Rightarrow> Inr None
      | Some r \<Rightarrow>
          bindE (byte_at r 0) (\<lambda>b0. if b0 \<noteq> 3 then Inr None else
          bindE (byte_at r 1) (\<lambda>b1. if b1 \<noteq> rid then Inr None else
          bindE (byte_at r 2) (\<lambda>b2. if b2 \<noteq> 1 then Inr None else
          bindE (c_string_from r 3) (\<lambda>s.
          bindE (stoi s) (\<lambda>n. Inr (Some \<lparr>eo_obj_name = nm, eo_size = nat (n mod 2 ^ 64), eo_target_func = []\<rparr>)))))))"

section \<open>Request identifiers\<close>

fun request_ids :: "nat \<Rightarrow> user_library \<Rightarrow> u8 list" where
  "request_ids 0 u = []"
| "request_ids (Suc n) u = (let (r, u1) = get_request_id u in r # request_ids n u1)"

lemma get_request_id_mod:
  assumes "unat (ul_rid u) < 100"
  shows "unat (fst (get_request_id u)) = (unat (ul_rid u) + 1) mod 100"
    and "ul_rid (snd (get_request_id u)) = fst (get_request_id u)"
proof -
  have s: "unat (ul_rid u + 1) = unat (ul_rid u) + 1"
    using assms by (intro unat_add_lem [THEN iffD1, THEN trans]) simp_all
  have "unat ((ul_rid u + 1) mod 100) = (unat (ul_rid u) + 1) mod 100"
    by (simp add: unat_mod s)
  then have "(ul_rid u + 1) mod 100 = 0 \<longleftrightarrow> (unat (ul_rid u) + 1) mod 100 = 0"
    by (metis unat_0 unat_eq_zero)
  then show "unat (fst (get_request_id u)) = (unat (ul_rid u) + 1) mod 100"
    using assms s by (cases "unat (ul_rid u) = 99") (auto simp: get_request_id_def Let_def)
  show "ul_rid (snd (get_request_id u)) = fst (get_request_id u)"
    by (simp add: get_request_id_def Let_def)
qed

lemma request_ids_nth:
  "unat (ul_rid u) < 100 \<Longrightarrow> i < n \<Longrightarrow> unat (request_ids n u ! i) = (unat (ul_rid u) + 1 + i) mod 100"
proof (induction n arbitrary: u i)
  case 0
  then show ?case by simp
next
  case (Suc n)
  obtain r u1 where r: "get_request_id u = (r, u1)" by fastforce
  note m = get_request_id_mod [OF Suc.prems(1), unfolded r, simplified]
  show ?case
  proof (cases i)
    case 0
    then show ?thesis using r m(1) by simp
  next
    case (Suc j)
    have "unat (ul_rid u1) < 100" using m by simp
    then have "unat (request_ids n u1 ! j) = (unat (ul_rid u1) + 1 + j) mod 100"
      using Suc.IH [of u1 j] Suc Suc.prems(2) by simp
    also have "\<dots> = (unat (ul_rid u) + 1 + i) mod 100"
      using m Suc by (simp add: mod_add_left_eq) (metis (no_types, lifting) add.commute add_Suc mod_Suc_eq mod_add_left_eq)
    finally show ?thesis using r Suc by simp
  qed
qed

lemma length_request_ids [simp]: "length (request_ids n u) = n"
  by (induction n arbitrary: u) (simp_all add: case_prod_unfold Let_def)

text \<open>
  The 8-bit request identifiers of an executor match replies to requests: starting from the
  initial counter, any hundred consecutive requests carry pairwise different identifiers, all
  below 100.
\<close>

theorem request_ids_distinct_window:
  assumes "i + j < n" and "0 < j" and "j < 100"
  shows "request_ids n (user_library_init ip tid) ! i \<noteq> request_ids n (user_library_init ip tid) ! (i + j)
     \<and> unat (request_ids n (user_library_init ip tid) ! i) < 100"
proof -
  have u: "unat (ul_rid (user_library_init ip tid)) = 0" by (simp add: user_library_init_def)
  have a: "unat (request_ids n (user_library_init ip tid) ! i) = (1 + i) mod 100"
    "unat (request_ids n (user_library_init ip tid) ! (i + j)) = (1 + (i + j)) mod 100"
    using request_ids_nth [of "user_library_init ip tid"] u assms(1) by simp_all
  have "(1 + i) mod 100 \<noteq> (1 + (i + j)) mod 100"
    using assms(2,3) mod_eq_dvd_iff_nat [of "1 + i" "1 + (i + j)" 100] nat_dvd_not_less [of j 100]
    by (metis add.assoc add_diff_cancel_left' le_add1)
  then show ?thesis using a by auto
qed

theorem request_ids_distinct_window_witness:
  "request_ids 101 (user_library_init ''10.0.0.1'' 0) ! 0 \<noteq> request_ids 101 (user_library_init ''10.0.0.1'' 0) ! (0 + 99)"
  using request_ids_distinct_window [of 0 99 101 "''10.0.0.1''" 0] by simp

section \<open>Unique keys\<close>

lemma sep_split_eq:
  "CHR ''_'' \<notin> set a \<Longrightarrow> CHR ''_'' \<notin> set a' \<Longrightarrow> a @ CHR ''_'' # x = a' @ CHR ''_'' # x' \<longleftrightarrow> a = a' \<and> x = x'"
proof (induction a arbitrary: a')
  case Nil
  then show ?case by (cases a') auto
next
  case (Cons c a)
  then show ?case by (cases a') auto
qed

text \<open>
  The keys that \<open>gen_unique_key\<close> makes are unique on a node: two keys made under the same IP
  are equal only when they come from the same channel and the same object number. Across nodes
  they are not: the dots of the IP are removed, so nodes whose IPs differ only in where the dots
  stand make the same keys.
\<close>

theorem unique_keys:
  assumes "CHR ''_'' \<notin> set (ul_ip_number u)"
  shows "(ul_ip_number u = ul_ip_number v \<longrightarrow>
           (fst (gen_unique_key u) = fst (gen_unique_key v)) = (ul_chan_id u = ul_chan_id v \<and> ul_object_id u = ul_object_id v))
    \<and> fst (gen_unique_key (user_library_init ''10.0.1.11'' tid)) = fst (gen_unique_key (user_library_init ''10.0.11.1'' tid))"
proof -
  have "fst (gen_unique_key w) = ul_ip_number w @ CHR ''_'' # to_string (unat (ul_chan_id w)) @ CHR ''_'' # to_string (unat (ul_object_id w))" for w
    by (simp add: gen_unique_key_def get_object_id_def Let_def)
  then show ?thesis
    using assms by (auto simp: sep_split_eq user_library_init_def word_unat_eq_iff)
qed

theorem unique_keys_witness:
  "fst (gen_unique_key (user_library_init ''10.0.1.11'' 0)) = fst (gen_unique_key (user_library_init ''10.0.11.1'' 0))"
  using unique_keys [of "user_library_init ''10.0.0.1'' 0" "user_library_init ''10.0.0.1'' 0" 0]
  by (simp add: user_library_init_def)

end
