(* ===== verification/Object_Store.thy ===== *)
theory Object_Store
  imports Exec_Lib
begin

text \<open>
  The objects of a node as its local scheduler sees them: the sizes (\<open>key_len_map\<close>) and the
  packed values (\<open>key_val_map\<close>) of \<^verbatim>\<open>src/scheduler/scheduler_server.cpp\<close>, the shared-memory
  segments, and the two functions of \<^verbatim>\<open>src/scheduler/object_handlers.cpp\<close> that the communication
  helper is given to read and write them. The data plane messages between nodes are built and
  taken apart here as well: one length byte, the key, and an address or the bytes of the object.
\<close>

section \<open>The store\<close>

record obj_store =
  os_key_len :: "(string, u32) table"
  os_key_val :: "(string, string) table"
  os_shm :: shm

definition empty_store :: obj_store where
  "empty_store = \<lparr>os_key_len = [], os_key_val = [], os_shm = []\<rparr>"

text \<open>\<open>memcpy\<close> into the acquired segment; writing past its end would be an invalid access.\<close>

definition copy_to_shm_obj :: "string \<Rightarrow> string \<Rightarrow> obj_store \<Rightarrow> cpp_error + obj_store" where
  "copy_to_shm_obj key dat st =
     (let m = shm_acquire key (length dat) (os_shm st); mem = tget [] m key
      in if length dat \<le> length mem
         then Inr (st\<lparr>os_shm := tput key (dat @ drop (length dat) mem) m\<rparr>)
         else Inl VectorIndex)"

text \<open>The pointer (\<open>None\<close> is null) and the size; an unknown key gives the null pointer and 0.\<close>

definition get_shm_obj :: "string \<Rightarrow> obj_store \<Rightarrow> string option \<times> u32" where
  "get_shm_obj key st =
     (if thas (os_key_len st) key then (shm_open key (os_shm st), tget 0 (os_key_len st) key) else (None, 0))"

text \<open>\<open>string(shm_ptr, n)\<close> for a segment opened by name; no byte is read from a null pointer when \<open>n = 0\<close>.\<close>

definition read_shm :: "string \<Rightarrow> nat \<Rightarrow> obj_store \<Rightarrow> cpp_error + string" where
  "read_shm key n st =
     (case shm_open key (os_shm st) of
        None \<Rightarrow> if n = 0 then Inr [] else Inl NullDereference
      | Some mem \<Rightarrow> if n \<le> length mem then Inr (take n mem) else Inl VectorIndex)"

section \<open>Messages of the data plane\<close>

definition keyed_message :: "string \<Rightarrow> string \<Rightarrow> string" where
  "keyed_message key rest = byte (of_nat (length key)) # key @ rest"

definition parse_keyed :: "string \<Rightarrow> cpp_error + (string \<times> string)" where
  "parse_keyed msg =
     (case msg of
        [] \<Rightarrow> Inl VectorIndex
      | c # rest \<Rightarrow>
          (let n = unat (unbyte c)
           in if n \<le> length rest then Inr (take n rest, drop n rest) else Inl VectorIndex))"

lemma parse_keyed_message [simp, strs]:
  "length key < 256 \<Longrightarrow> parse_keyed (keyed_message key rest) = Inr (key, rest)"
  by (simp add: parse_keyed_def keyed_message_def unat_of_nat take_bit_nat_eq_self)

lemma copy_then_read:
  assumes "copy_to_shm_obj key dat st = Inr st'"
  shows "read_shm key (length dat) st' = Inr dat" and "os_key_len st' = os_key_len st" and "os_key_val st' = os_key_val st"
  using assms by (auto simp: copy_to_shm_obj_def Let_def read_shm_def shm_open_def split: if_splits)

lemma copy_returns: "\<exists>st'. copy_to_shm_obj key dat st = Inr st'"
  by (cases "map_of (os_shm st) key") (auto simp: copy_to_shm_obj_def shm_acquire_def tget_def Let_def)

lemma copy_keeps_others:
  "copy_to_shm_obj key dat st = Inr st' \<Longrightarrow> k \<noteq> key \<Longrightarrow> map_of (os_shm st') k = map_of (os_shm st) k"
  by (auto simp: copy_to_shm_obj_def shm_acquire_def Let_def split: if_splits option.splits)

end
