(* ===== verification/Comm_Helper.thy ===== *)
theory Comm_Helper
  imports Object_Store Kvs_Client
begin

text \<open>
  The communication helper of the local scheduler (\<^verbatim>\<open>include/scheduler/comm_helper.hpp\<close>), first
  part: its state, and every operation by which the scheduler sends something: status updates,
  forwarded calls, data requests, notifications to the coordinator, responses to clients and
  requests to the key-value store, either directly or through the queue of a secondary I/O
  thread. What is received is in \<open>Comm_Recv\<close>. The logger and the sockets are left out: an
  operation returns the messages it sends with their addresses.
\<close>

section \<open>State\<close>

datatype recv_msg_type = NullMsg | Call | DataResp | KvsGetResp | KvsPutResp

record recv_msg =
  rv_msg_type :: recv_msg_type
  rv_app_name :: string
  rv_resp_address :: string
  rv_func_name :: "string list"
  rv_func_args :: "string list list"
  rv_is_func_arg_keys :: "int list"
  rv_cpu_cores :: "real list"
  rv_memory_mb :: "u32 list"
  rv_session_id :: string
  rv_sync_data_status :: bool
  rv_data_key :: string
  rv_data_size :: u32

definition empty_recv_msg :: recv_msg where
  "empty_recv_msg = \<lparr>rv_msg_type = NullMsg, rv_app_name = [], rv_resp_address = [], rv_func_name = [], rv_func_args = [],
     rv_is_func_arg_keys = [], rv_cpu_cores = [], rv_memory_mb = [], rv_session_id = [], rv_sync_data_status = False,
     rv_data_key = [], rv_data_size = 0\<rparr>"

text \<open>A \<open>char*\<close> into private memory of the scheduler, or into a shared-memory segment.\<close>

datatype data_ptr = OwnBytes string | ShmBytes string

datatype secondary_thread_msg = SendReq string | GetKvs string | PutKvs string data_ptr nat

datatype comm_out =
    OutStatus update_status_message
  | OutForward function_call
  | OutClient function_call_response
  | OutNotify key_notify_request
  | OutQuery key_query_request
  | OutData string
  | OutKvs kvs_out

type_synonym comm_sent = "(string \<times> comm_out) list"

record comm_helper =
  ch_ip :: string
  ch_ut :: endpoint
  ch_routing_threads :: "endpoint list"
  ch_app_coord :: "(string, endpoint) table"
  ch_bucket_coord :: "(string, endpoint) table"
  ch_key_address :: "(string, string) table"
  ch_rid :: u32
  ch_io_thread_count :: u32
  ch_io_thread_id :: u32
  ch_kvs :: "kvs_client list"
  ch_thread_queues :: "secondary_thread_msg list list"
  ch_resp_queues :: "recv_msg list list"

text \<open>What the helper is compiled against: the random function and the codec of the LWW message.\<close>

record comm_env =
  cn_rand :: rand_fn
  cn_ser_lww :: "lww_value \<Rightarrow> string"
  cn_par_lww :: "string \<Rightarrow> lww_value"

definition comm_helper_init :: "endpoint list \<Rightarrow> string \<Rightarrow> u32 \<Rightarrow> kvs_client list \<Rightarrow> comm_helper" where
  "comm_helper_init routing ip io_threads kvs =
     \<lparr>ch_ip = ip, ch_ut = mk_endpoint ip 0, ch_routing_threads = routing, ch_app_coord = [], ch_bucket_coord = [],
      ch_key_address = [], ch_rid = 0, ch_io_thread_count = io_threads, ch_io_thread_id = 0, ch_kvs = kvs,
      ch_thread_queues = replicate (unat io_threads - 1) [], ch_resp_queues = replicate (unat io_threads - 1) []\<rparr>"



section \<open>Assistant methods\<close>

definition helper_get_request_id :: "comm_helper \<Rightarrow> string \<times> comm_helper" where
  "helper_get_request_id h =
     (let (r, rid) = next_rid (ch_rid h) in (request_id_string (ch_ut h) r, h\<lparr>ch_rid := rid\<rparr>))"

definition get_io_thread_id :: "bool \<Rightarrow> comm_helper \<Rightarrow> cpp_error + (u32 \<times> comm_helper)" where
  "get_io_thread_id exclude_main h =
     (let i = ch_io_thread_id h + 1
      in if ch_io_thread_count h = 0 then Inl DivisionByZero
         else (let j = (if i mod ch_io_thread_count h = 0 then (if exclude_main then 1 else 0) else i)
               in Inr (j, h\<lparr>ch_io_thread_id := j\<rparr>)))"

definition get_data_server_addr :: "bool \<Rightarrow> comm_helper \<Rightarrow> cpp_error + (string \<times> comm_helper)" where
  "get_data_server_addr exclude_main h =
     bindE (get_io_thread_id exclude_main h) (\<lambda>(tid, h1). Inr (tcp_address (ch_ip h) (tid + dataAccessServerPort), h1))"

definition get_key_address :: "string \<Rightarrow> comm_helper \<Rightarrow> string" where
  "get_key_address key h = tget [] (ch_key_address h) key"

definition get_querying_thread :: "string \<Rightarrow> comm_helper \<Rightarrow> string" where
  "get_querying_thread b h =
     (case map_of (ch_bucket_coord h) b of None \<Rightarrow> [] | Some t \<Rightarrow> key_query_handler_connect_address t)"

definition get_notifying_thread :: "string \<Rightarrow> comm_helper \<Rightarrow> string" where
  "get_notifying_thread b h =
     (case map_of (ch_bucket_coord h) b of None \<Rightarrow> [] | Some t \<Rightarrow> notify_handler_connect_address t)"

definition clear_key_cache :: "comm_helper \<Rightarrow> comm_helper" where
  "clear_key_cache h = h\<lparr>ch_key_address := []\<rparr>"

section \<open>Messages to clients and coordinators\<close>

definition client_response :: "string \<Rightarrow> string \<Rightarrow> string \<Rightarrow> comm_sent" where
  "client_response resp_address app output_data =
     [(resp_address, OutClient \<lparr>fcr_app_name = app, fcr_request_id = [], fcr_output = output_data, fcr_error_no = 0\<rparr>)]"

definition helper_update_status :: "int \<Rightarrow> string list \<Rightarrow> comm_helper \<Rightarrow> comm_sent" where
  "helper_update_status avail cache h =
     map (\<lambda>ht. (update_handler_connect_address ht,
        OutStatus \<lparr>us_ip = ch_ip h, us_avail_executors = word_of_int avail, us_functions = cache\<rparr>)) (ch_routing_threads h)"

text \<open>
  The arguments of a forwarded request: three entries (bucket, session key, size) per object when
  they are references, each giving one argument with the address of a data server thread.
\<close>

fun forward_refs :: "int \<Rightarrow> string list \<Rightarrow> comm_helper \<Rightarrow> cpp_error + (argument list \<times> comm_helper)" where
  "forward_refs flag [] h = Inr ([], h)"
| "forward_refs flag (b # k # rest) h =
     bindE (get_data_server_addr False h) (\<lambda>(addr, h1).
     bindE (forward_refs flag (drop 1 rest) h1) (\<lambda>(args, h2).
       Inr (\<lparr>arg_body = b @ kDelimiter @ k, arg_flag = word_of_int flag, arg_data_address = addr\<rparr> # args, h2)))"
| "forward_refs flag [b] h = Inl VectorIndex"

definition forward_vals :: "int \<Rightarrow> string list \<Rightarrow> argument list" where
  "forward_vals flag args = map (\<lambda>a. empty_argument\<lparr>arg_body := a, arg_flag := word_of_int flag\<rparr>) args"

fun forward_requests :: "int \<Rightarrow> string list \<Rightarrow> string list list \<Rightarrow> comm_helper \<Rightarrow>
    cpp_error + (function_request list \<times> comm_helper)" where
  "forward_requests flag [] argss h = Inr ([], h)"
| "forward_requests flag (f # fs) [] h = Inl VectorIndex"
| "forward_requests flag (f # fs) (args # argss) h =
     bindE (if flag > 0 then forward_refs flag args h else Inr (forward_vals flag args, h)) (\<lambda>(as, h1).
     bindE (forward_requests flag fs argss h1) (\<lambda>(reqs, h2).
       Inr (empty_request\<lparr>fr_name := f, fr_arguments := as\<rparr> # reqs, h2)))"

text \<open>
  For an application without a coordinator, \<open>operator[]\<close> inserts a \<open>HandlerThread\<close> whose default
  constructor leaves the thread number uninitialised, and the address is made from it.
\<close>

definition forward_func_call ::
  "string \<Rightarrow> string \<Rightarrow> string list \<Rightarrow> string list list \<Rightarrow> int \<Rightarrow> string \<Rightarrow> comm_helper \<Rightarrow> cpp_error + (comm_helper \<times> comm_sent)" where
  "forward_func_call resp_address app fs argss flag session h =
     bindE (forward_requests flag fs argss h) (\<lambda>(reqs, h1).
       case map_of (ch_app_coord h) app of
         None \<Rightarrow> Inl UninitializedRead
       | Some coord \<Rightarrow>
           Inr (h1, [(forward_func_connect_address coord,
                  OutForward (empty_call\<lparr>fc_app_name := app, fc_resp_address := resp_address, fc_source := ch_ip h,
                    fc_session_id := session, fc_sync_data_status := True, fc_requests := reqs\<rparr>))]))"

definition notify_put :: "bucket_key \<Rightarrow> string list \<Rightarrow> string \<Rightarrow> string \<Rightarrow> comm_helper \<Rightarrow> cpp_error + (comm_helper \<times> comm_sent)" where
  "notify_put bk active resp_address payload h =
     (let thr = get_notifying_thread (bk_bucket bk) h
      in if thr = [] then Inr (h, [])
         else (let (rid, h1) = helper_get_request_id h
               in bindE (get_data_server_addr True h1) (\<lambda>(addr, h2).
                    Inr (h2, [(thr, OutNotify \<lparr>kn_response_address = resp_address,
                         kn_addresses = [(get_addr_from_bucket_key bk empty_bka)\<lparr>bka_ips := [addr], bka_payload := payload\<rparr>],
                         kn_active_trigger_names = active, kn_request_id = rid\<rparr>)]))))"

definition key_query_async :: "bucket_key \<Rightarrow> comm_helper \<Rightarrow> comm_helper \<times> comm_sent" where
  "key_query_async bk h =
     (let (rid, h1) = helper_get_request_id h
      in (h1, [(get_querying_thread (bk_bucket bk) h, OutQuery \<lparr>kq_response_address = key_query_connect_address (ch_ut h),
           kq_addresses = [get_addr_from_bucket_key bk empty_bka], kq_request_id = rid\<rparr>)]))"

section \<open>Data requests and the key-value store\<close>

definition send_data_req_base :: "u32 \<Rightarrow> string \<Rightarrow> comm_helper \<Rightarrow> comm_sent" where
  "send_data_req_base tid key h =
     (let addr = get_key_address key h
      in if addr = [] then []
         else [(addr, OutData (keyed_message key (tcp_address (ch_ip h) (tid + dataAccessClientPort))))])"

definition on_kvs :: "u32 \<Rightarrow> (kvs_client \<Rightarrow> cpp_error + (kvs_client \<times> kvs_sent)) \<Rightarrow> comm_helper \<Rightarrow> cpp_error + (comm_helper \<times> comm_sent)" where
  "on_kvs tid f h =
     bindE (nth_or VectorIndex (ch_kvs h) (unat tid)) (\<lambda>kc. bindE (f kc) (\<lambda>(kc1, sent).
       Inr (h\<lparr>ch_kvs := (ch_kvs h)[unat tid := kc1]\<rparr>, map (apsnd OutKvs) sent)))"

definition get_kvs_async_base :: "comm_env \<Rightarrow> time_point \<Rightarrow> u32 \<Rightarrow> string \<Rightarrow> comm_helper \<Rightarrow> cpp_error + (comm_helper \<times> comm_sent)" where
  "get_kvs_async_base env now tid key h = on_kvs tid (get_async (cn_rand env) now key) h"

definition put_kvs_async_base ::
  "comm_env \<Rightarrow> time_point \<Rightarrow> u32 \<Rightarrow> string \<Rightarrow> string \<Rightarrow> comm_helper \<Rightarrow> cpp_error + (comm_helper \<times> comm_sent)" where
  "put_kvs_async_base env now tid key val h =
     (case generate_timestamp (word_of_int (millis now)) tid of
        None \<Rightarrow> Inl NoReturn
      | Some ts \<Rightarrow> on_kvs tid (\<lambda>kc. bindE (put_async (cn_rand env) now key (serialize_timestamped (cn_ser_lww env) ts val) LWW kc)
                     (\<lambda>(i, kc1, sent). Inr (kc1, sent))) h)"

text \<open>\<open>string{val_ptr, val_size}\<close>.\<close>

definition deref_data :: "data_ptr \<Rightarrow> nat \<Rightarrow> obj_store \<Rightarrow> cpp_error + string" where
  "deref_data p n os =
     (case p of
        OwnBytes s \<Rightarrow> if n \<le> length s then Inr (take n s) else Inl VectorIndex
      | ShmBytes nm \<Rightarrow> read_shm nm n os)"

text \<open>Handing a message to a secondary I/O thread.\<close>

definition push_thread_msg :: "u32 \<Rightarrow> secondary_thread_msg \<Rightarrow> comm_helper \<Rightarrow> cpp_error + comm_helper" where
  "push_thread_msg tid msg h =
     (let i = unat (tid - 1)
      in bindE (nth_or VectorIndex (ch_thread_queues h) i) (\<lambda>q. Inr (h\<lparr>ch_thread_queues := (ch_thread_queues h)[i := q @ [msg]]\<rparr>)))"

text \<open>
  The common shape of \<open>get_kvs_async\<close>, \<open>put_kvs_async\<close> and \<open>send_data_req\<close>: with one I/O thread, or
  when the round robin gives the main thread, the request is issued at once, otherwise it is
  queued for the chosen thread.
\<close>

definition dispatch_io ::
  "(comm_helper \<Rightarrow> cpp_error + (comm_helper \<times> comm_sent)) \<Rightarrow> secondary_thread_msg \<Rightarrow> comm_helper \<Rightarrow> cpp_error + (comm_helper \<times> comm_sent)" where
  "dispatch_io base msg h =
     (if ch_io_thread_count h > 1
      then bindE (get_io_thread_id True h) (\<lambda>(tid, h1).
             if tid = 0 then base h1 else bindE (push_thread_msg tid msg h1) (\<lambda>h2. Inr (h2, [])))
      else base h)"

definition get_kvs_async :: "comm_env \<Rightarrow> time_point \<Rightarrow> string \<Rightarrow> comm_helper \<Rightarrow> cpp_error + (comm_helper \<times> comm_sent)" where
  "get_kvs_async env now key = dispatch_io (get_kvs_async_base env now 0 key) (GetKvs key)"

definition put_kvs_async ::
  "comm_env \<Rightarrow> time_point \<Rightarrow> obj_store \<Rightarrow> string \<Rightarrow> data_ptr \<Rightarrow> nat \<Rightarrow> comm_helper \<Rightarrow> cpp_error + (comm_helper \<times> comm_sent)" where
  "put_kvs_async env now os key p n =
     dispatch_io (\<lambda>h. bindE (deref_data p n os) (\<lambda>val. put_kvs_async_base env now 0 key val h)) (PutKvs key p n)"

definition send_data_req :: "string \<Rightarrow> comm_helper \<Rightarrow> cpp_error + (comm_helper \<times> comm_sent)" where
  "send_data_req key = dispatch_io (\<lambda>h. Inr (h, send_data_req_base 0 key h)) (SendReq key)"

end
