(* ===== verification/Comm_Recv.thy ===== *)
theory Comm_Recv
  imports Comm_Helper
begin

text \<open>
  The communication helper (\<^verbatim>\<open>include/scheduler/comm_helper.hpp\<close>), second part: what a node
  receives. \<open>try_recv_msg\<close> applies the coordinator's updates to the node's view of applications,
  buckets and triggers, and turns calls, data responses and store responses into \<open>RecvMsg\<close>
  values for the scheduler; \<open>io_thread_round\<close> is one iteration of a secondary I/O thread.
  Triggers live in a heap (\<open>nv_heap\<close>, indexed by \<open>trigger_ref\<close>), because one \<open>TriggerPointer\<close> is
  shared by the bucket's list, the re-execution table and the check queue.
\<close>

section \<open>The view of a node\<close>

type_synonym trigger_ref = nat

record app_info =
  ai_functions :: "string list"
  ai_direct_deps :: "(string, string list) table"
  ai_buckets :: "string list"

definition empty_app_info :: app_info where
  "empty_app_info = \<lparr>ai_functions = [], ai_direct_deps = [], ai_buckets = []\<rparr>"

record rerun_trigger_timeout =
  rt_trigger :: trigger_ref
  rt_timeout :: u32

record node_view =
  nv_heap :: "trigger list"
  nv_bucket_triggers :: "(string, trigger_ref list) table"
  nv_app_info :: "(string, app_info) table"
  nv_func_app :: "(string, string) table"
  nv_bucket_app :: "(string, string) table"
  nv_func_timeout :: "(string, rerun_trigger_timeout list) table"

definition empty_view :: node_view where
  "empty_view = \<lparr>nv_heap = [], nv_bucket_triggers = [], nv_app_info = [], nv_func_app = [], nv_bucket_app = [],
     nv_func_timeout = []\<rparr>"

abbreviation bucket_refs :: "node_view \<Rightarrow> string \<Rightarrow> trigger_ref list" where
  "bucket_refs v b \<equiv> tget [] (nv_bucket_triggers v) b"

definition bucket_trigger_list :: "node_view \<Rightarrow> string \<Rightarrow> trigger list" where
  "bucket_trigger_list v b = map (\<lambda>r. nv_heap v ! r) (bucket_refs v b)"

section \<open>Updates from the coordinator\<close>

definition add_function :: "string \<Rightarrow> string \<Rightarrow> node_view \<Rightarrow> node_view" where
  "add_function app f v =
     v\<lparr>nv_app_info := tmod empty_app_info (\<lambda>a. a\<lparr>ai_functions := ins f (ai_functions a)\<rparr>) app (nv_app_info v),
       nv_func_app := tput f app (nv_func_app v)\<rparr>"

text \<open>A dependency that is not direct is skipped; a direct one needs a source function.\<close>

definition add_direct_dep :: "string \<Rightarrow> data_dependency \<Rightarrow> node_view \<Rightarrow> cpp_error + node_view" where
  "add_direct_dep app d v =
     (if dd_type d \<noteq> DIRECT then Inr v
      else bindE (nth_or RepeatedFieldIndex (dd_src_functions d) 0) (\<lambda>src.
        Inr (fold (\<lambda>tgt v. v\<lparr>nv_app_info := tmod empty_app_info
               (\<lambda>a. a\<lparr>ai_direct_deps := tmod [] (ins tgt) src (ai_direct_deps a)\<rparr>) app (nv_app_info v)\<rparr>)
             (dd_tgt_functions d) v)))"

definition rerun_of_hint :: "rerun_hint \<Rightarrow> rerun_metadata" where
  "rerun_of_hint h = \<lparr>rm_source_func = rh_source_function h, rm_source_key = rh_source_key h, rm_timeout = rh_timeout h\<rparr>"

definition add_timeout :: "trigger_ref \<Rightarrow> rerun_hint \<Rightarrow> node_view \<Rightarrow> node_view" where
  "add_timeout r h v = v\<lparr>nv_func_timeout :=
     tmod [] (\<lambda>ts. ts @ [\<lparr>rt_trigger = r, rt_timeout = rh_timeout h\<rparr>]) (rh_source_function h) (nv_func_timeout v)\<rparr>"

text \<open>The unnamed entity of a periodic dependency only tells who coordinates the bucket.\<close>

definition build_trigger :: "'w prim_codec \<Rightarrow> time_point \<Rightarrow> 'w trigger_entity \<Rightarrow> node_view \<Rightarrow> node_view" where
  "build_trigger c now e v =
     (if te_trigger_name e = [] then v
      else case gen_trigger_pointer c now (te_primitive_type e) (te_trigger_name e) (te_primitive e) of
             None \<Rightarrow> v
           | Some t \<Rightarrow>
               (let r = length (nv_heap v);
                    t1 = set_rerun_metadata (map rerun_of_hint (te_hints e)) (set_trigger_option (sint (te_trigger_option e)) t)
                in fold (add_timeout r) (te_hints e)
                     (v\<lparr>nv_heap := nv_heap v @ [t1],
                        nv_bucket_triggers := tmod [] (\<lambda>rs. rs @ [r]) (te_bucket_name e) (nv_bucket_triggers v)\<rparr>)))"

definition add_bucket :: "string \<Rightarrow> string \<Rightarrow> node_view \<Rightarrow> node_view" where
  "add_bucket app b v =
     v\<lparr>nv_app_info := tmod empty_app_info (\<lambda>a. a\<lparr>ai_buckets := ai_buckets a @ [b]\<rparr>) app (nv_app_info v),
       nv_bucket_app := tput b app (nv_bucket_app v)\<rparr>"

definition install_entity ::
  "'w prim_codec \<Rightarrow> time_point \<Rightarrow> endpoint \<Rightarrow> string \<Rightarrow> 'w trigger_entity \<Rightarrow> comm_helper \<times> node_view \<Rightarrow> comm_helper \<times> node_view" where
  "install_entity c now coord app e s =
     (let (h, v) = s; b = te_bucket_name e
      in (h\<lparr>ch_bucket_coord := tput b coord (ch_bucket_coord h)\<rparr>, build_trigger c now e (add_bucket app b v)))"

definition apply_registration ::
  "'w prim_codec \<Rightarrow> time_point \<Rightarrow> 'w update_coord_msg \<Rightarrow> comm_helper \<times> node_view \<Rightarrow> cpp_error + (comm_helper \<times> node_view)" where
  "apply_registration c now m s =
     (let (h, v) = s; coord = mk_endpoint (uc_ip m) (uc_thread_id m); app = uc_app_name m;
          h1 = h\<lparr>ch_app_coord := tput app coord (ch_app_coord h)\<rparr>;
          v1 = fold (add_function app) (uc_functions m) v
      in bindE (foldE (add_direct_dep app) (uc_dependencies m) v1) (\<lambda>v2.
           Inr (fold (install_entity c now coord app) (uc_triggers m) (h1, v2))))"

text \<open>Every trigger of the bucket with the given name is cleared, through its pointer.\<close>

definition clear_entity :: "'w trigger_entity \<Rightarrow> node_view \<Rightarrow> node_view" where
  "clear_entity e v =
     fold (\<lambda>r v. if get_trigger_name (nv_heap v ! r) = te_trigger_name e
                then v\<lparr>nv_heap := (nv_heap v)[r := clear (te_session e) (nv_heap v ! r)]\<rparr> else v)
       (bucket_refs v (te_bucket_name e)) v"

text \<open>
  \<open>while((*iter)->get_trigger_name() != trigger_name) iter++\<close> has no test for the end: a trigger
  that is not there is searched past the end of the vector.
\<close>

fun find_ref :: "trigger list \<Rightarrow> string \<Rightarrow> trigger_ref list \<Rightarrow> cpp_error + nat" where
  "find_ref hp nm [] = Inl EndDereference"
| "find_ref hp nm (r # rs) =
     (if get_trigger_name (hp ! r) = nm then Inr 0 else bindE (find_ref hp nm rs) (\<lambda>i. Inr (Suc i)))"

definition delete_entity :: "'w trigger_entity \<Rightarrow> node_view \<Rightarrow> cpp_error + node_view" where
  "delete_entity e v =
     (let rs = bucket_refs v (te_bucket_name e)
      in bindE (find_ref (nv_heap v) (te_trigger_name e) rs) (\<lambda>i.
           Inr (v\<lparr>nv_bucket_triggers := tput (te_bucket_name e) (take i rs @ drop (Suc i) rs) (nv_bucket_triggers v)\<rparr>)))"

definition apply_update ::
  "'w prim_codec \<Rightarrow> time_point \<Rightarrow> 'w update_coord_msg \<Rightarrow> comm_helper \<times> node_view \<Rightarrow> cpp_error + (comm_helper \<times> node_view)" where
  "apply_update c now m s =
     (if uc_msg_type m = 0 then apply_registration c now m s
      else if uc_msg_type m = 1 then Inr (fst s, fold clear_entity (uc_triggers m) (snd s))
      else if uc_msg_type m = 2 then bindE (foldE delete_entity (uc_triggers m) (snd s)) (\<lambda>v. Inr (fst s, v))
      else Inr s)"

section \<open>Calls and data\<close>

text \<open>\<open>emplace\<close> keeps an address that is already cached.\<close>

definition emplace_address :: "argument \<Rightarrow> comm_helper \<Rightarrow> comm_helper" where
  "emplace_address a h =
     (if arg_flag a > 0 \<and> \<not> thas (ch_key_address h) (arg_body a)
      then h\<lparr>ch_key_address := tput (arg_body a) (arg_data_address a) (ch_key_address h)\<rparr> else h)"

text \<open>The flag of a request is the flag of its last argument that has one.\<close>

definition request_flag :: "function_request \<Rightarrow> int" where
  "request_flag r = fold (\<lambda>a flag. if arg_flag a > 0 then sint (arg_flag a) else flag) (fr_arguments r) 0"

definition handle_function_call :: "function_call \<Rightarrow> comm_helper \<Rightarrow> recv_msg \<times> comm_helper" where
  "handle_function_call call h =
     (empty_recv_msg\<lparr>rv_msg_type := Call, rv_app_name := fc_app_name call, rv_resp_address := fc_resp_address call,
        rv_session_id := fc_session_id call, rv_sync_data_status := fc_sync_data_status call,
        rv_func_name := map fr_name (fc_requests call),
        rv_cpu_cores := map fr_cpu_cores (fc_requests call), rv_memory_mb := map fr_memory_mb (fc_requests call),
        rv_is_func_arg_keys := map request_flag (fc_requests call),
        rv_func_args := map (\<lambda>r. map arg_body (fr_arguments r)) (fc_requests call)\<rparr>,
      fold emplace_address (concat (map fr_arguments (fc_requests call))) h)"

definition handle_data_request :: "string \<Rightarrow> obj_store \<Rightarrow> cpp_error + comm_sent" where
  "handle_data_request msg os =
     bindE (parse_keyed msg) (\<lambda>(key, resp_address).
       let (ptr, size) = get_shm_obj key os
       in if size > 0
          then (case ptr of
                  None \<Rightarrow> Inl NullDereference
                | Some mem \<Rightarrow> if unat size \<le> length mem
                              then Inr [(resp_address, OutData (keyed_message key (take (unat size) mem)))]
                              else Inl VectorIndex)
          else Inr [])"

definition handle_data_response :: "string \<Rightarrow> obj_store \<Rightarrow> cpp_error + (recv_msg \<times> obj_store)" where
  "handle_data_response msg os =
     bindE (parse_keyed msg) (\<lambda>(key, dat).
     bindE (copy_to_shm_obj key dat os) (\<lambda>os1.
       Inr (empty_recv_msg\<lparr>rv_msg_type := DataResp, rv_data_key := key, rv_data_size := of_nat (length dat)\<rparr>, os1)))"

section \<open>Responses of the key-value store\<close>

type_synonym recv_state = "comm_helper \<times> obj_store \<times> recv_msg list \<times> comm_sent"

definition handle_kvs_response ::
  "comm_env \<Rightarrow> time_point \<Rightarrow> u32 \<Rightarrow> key_response \<Rightarrow> recv_state \<Rightarrow> cpp_error + recv_state" where
  "handle_kvs_response env now tid resp s =
     (let (h, os, msgs, sent) = s
      in bindE (nth_or RepeatedFieldIndex (kresp_tuples resp) 0) (\<lambda>tp.
           let key = kt_key tp
           in if kresp_error resp = ANNA_TIMEOUT
              then (if kresp_type resp = GET
                    then bindE (get_kvs_async_base env now tid key h) (\<lambda>(h1, sent1). Inr (h1, os, msgs, sent @ sent1))
                    else Inr s)
              else if kresp_type resp = GET \<and> kt_error tp \<noteq> KEY_DNE
              then (let val = tvp_value (deserialize_lww (cn_par_lww env) (kt_payload tp))
                    in bindE (copy_to_shm_obj (kvsKeyPrefix @ kDelimiter @ key) val os) (\<lambda>os1.
                         Inr (h, os1, msgs @ [empty_recv_msg\<lparr>rv_msg_type := KvsGetResp, rv_data_key := key,
                                rv_data_size := of_nat (length val)\<rparr>], sent)))
              else if kresp_type resp = PUT
              then Inr (h, os, msgs @ [empty_recv_msg\<lparr>rv_msg_type := KvsPutResp, rv_data_key := key\<rparr>], sent)
              else Inr s))"

definition get_kvs_responses ::
  "comm_env \<Rightarrow> time_point \<Rightarrow> u32 \<Rightarrow> key_address_response option \<Rightarrow> key_response option \<Rightarrow> comm_helper \<times> obj_store \<Rightarrow>
     cpp_error + recv_state" where
  "get_kvs_responses env now tid addr resp s =
     (let (h, os) = s
      in bindE (nth_or VectorIndex (ch_kvs h) (unat tid)) (\<lambda>kc.
         bindE (receive_async (cn_rand env) now addr resp kc) (\<lambda>(kc1, responses, sent).
           foldE (handle_kvs_response env now tid) responses
             (h\<lparr>ch_kvs := (ch_kvs h)[unat tid := kc1]\<rparr>, os, [], map (apsnd OutKvs) sent))))"

section \<open>\<open>try_recv_msg\<close>\<close>

text \<open>What the sockets hold when they are polled.\<close>

record 'w comm_poll =
  cp_update :: "'w update_coord_msg option"
  cp_call :: "function_call option"
  cp_data_request :: "string option"
  cp_data_response :: "string option"
  cp_kvs_address :: "key_address_response option"
  cp_kvs_response :: "key_response option"

definition recv_opt :: "('m \<Rightarrow> recv_state \<Rightarrow> cpp_error + recv_state) \<Rightarrow> 'm option \<Rightarrow> recv_state \<Rightarrow> cpp_error + recv_state" where
  "recv_opt f m s = (case m of None \<Rightarrow> Inr s | Some x \<Rightarrow> f x s)"

definition recv_call :: "function_call \<Rightarrow> recv_state \<Rightarrow> cpp_error + recv_state" where
  "recv_call call s =
     (let (h, os, msgs, sent) = s; (r, h1) = handle_function_call call h in Inr (h1, os, msgs @ [r], sent))"

definition recv_data_request :: "string \<Rightarrow> recv_state \<Rightarrow> cpp_error + recv_state" where
  "recv_data_request msg s =
     (let (h, os, msgs, sent) = s in bindE (handle_data_request msg os) (\<lambda>sent1. Inr (h, os, msgs, sent @ sent1)))"

definition recv_data_response :: "string \<Rightarrow> recv_state \<Rightarrow> cpp_error + recv_state" where
  "recv_data_response msg s =
     (let (h, os, msgs, sent) = s in bindE (handle_data_response msg os) (\<lambda>(r, os1). Inr (h, os1, msgs @ [r], sent)))"

definition recv_kvs ::
  "comm_env \<Rightarrow> time_point \<Rightarrow> u32 \<Rightarrow> key_address_response option \<Rightarrow> key_response option \<Rightarrow> recv_state \<Rightarrow> cpp_error + recv_state" where
  "recv_kvs env now tid addr resp s =
     (let (h, os, msgs, sent) = s
      in bindE (get_kvs_responses env now tid addr resp (h, os)) (\<lambda>(h1, os1, msgs1, sent1).
           Inr (h1, os1, msgs @ msgs1, sent @ sent1)))"

definition drain_resp_queues :: "recv_state \<Rightarrow> recv_state" where
  "drain_resp_queues s =
     (let (h, os, msgs, sent) = s
      in (h\<lparr>ch_resp_queues := map (\<lambda>_. []) (ch_resp_queues h)\<rparr>, os, msgs @ concat (ch_resp_queues h), sent))"

definition try_recv_msg ::
  "'w prim_codec \<Rightarrow> comm_env \<Rightarrow> time_point \<Rightarrow> 'w comm_poll \<Rightarrow> comm_helper \<Rightarrow> node_view \<Rightarrow> obj_store \<Rightarrow>
     cpp_error + (node_view \<times> recv_state)" where
  "try_recv_msg c env now p h v os =
     bindE (case cp_update p of None \<Rightarrow> Inr (h, v) | Some m \<Rightarrow> apply_update c now m (h, v)) (\<lambda>(h1, v1).
     bindE (recv_opt recv_call (cp_call p) (h1, os, [], [])) (\<lambda>s1.
     bindE (recv_opt recv_data_request (cp_data_request p) s1) (\<lambda>s2.
     bindE (recv_opt recv_data_response (cp_data_response p) s2) (\<lambda>s3.
     bindE (recv_kvs env now 0 (cp_kvs_address p) (cp_kvs_response p) s3) (\<lambda>s4.
       Inr (v1, drain_resp_queues s4))))))"

section \<open>A secondary I/O thread\<close>

definition msg_process_batch :: nat where
  "msg_process_batch = 10"

definition process_thread_msg :: "comm_env \<Rightarrow> time_point \<Rightarrow> u32 \<Rightarrow> secondary_thread_msg \<Rightarrow> recv_state \<Rightarrow> cpp_error + recv_state" where
  "process_thread_msg env now tid msg s =
     (let (h, os, msgs, sent) = s
      in case msg of
           SendReq key \<Rightarrow> Inr (h, os, msgs, sent @ send_data_req_base tid key h)
         | GetKvs key \<Rightarrow> bindE (get_kvs_async_base env now tid key h) (\<lambda>(h1, sent1). Inr (h1, os, msgs, sent @ sent1))
         | PutKvs key p n \<Rightarrow>
             bindE (deref_data p n os) (\<lambda>val.
             bindE (put_kvs_async_base env now tid key val h) (\<lambda>(h1, sent1). Inr (h1, os, msgs, sent @ sent1))))"

text \<open>
  One iteration of \<open>run_io_thread_loop\<close> for thread \<open>tid\<close>: its own sockets, at most ten queued
  messages, the responses of its store client; what it received goes to its response queue.
\<close>

definition io_thread_round ::
  "comm_env \<Rightarrow> time_point \<Rightarrow> u32 \<Rightarrow> 'w comm_poll \<Rightarrow> comm_helper \<Rightarrow> obj_store \<Rightarrow> cpp_error + (comm_helper \<times> obj_store \<times> comm_sent)" where
  "io_thread_round env now tid p h os =
     (let i = unat (tid - 1)
      in bindE (recv_opt recv_call (cp_call p) (h, os, [], [])) (\<lambda>s1.
         bindE (recv_opt recv_data_request (cp_data_request p) s1) (\<lambda>s2.
         bindE (recv_opt recv_data_response (cp_data_response p) s2) (\<lambda>s3.
         bindE (nth_or VectorIndex (ch_thread_queues h) i) (\<lambda>q.
         bindE (foldE (process_thread_msg env now tid) (take msg_process_batch q) s3) (\<lambda>s4.
         bindE (recv_kvs env now tid (cp_kvs_address p) (cp_kvs_response p) s4) (\<lambda>(h5, os5, msgs, sent).
         bindE (nth_or VectorIndex (ch_resp_queues h5) i) (\<lambda>rq.
           Inr (h5\<lparr>ch_thread_queues := (ch_thread_queues h5)[i := drop msg_process_batch q],
                   ch_resp_queues := (ch_resp_queues h5)[i := rq @ msgs]\<rparr>, os5, sent)))))))))"

end
