(* ===== verification/Executor.thy ===== *)
theory Executor
  imports Exec_Lib
begin

text \<open>
  The executor process (\<^verbatim>\<open>src/executor/executor_server.cpp\<close>): it receives a call message from the
  local scheduler, decodes it, runs the user function and reports its status. The user functions
  and the dynamic loader are not part of the repository: \<open>loadable\<close> says whether a library can
  be opened, and \<open>user_fn\<close> gives, for a function name, the library state and the arguments, the
  new library state, the messages the function puts on the channel and its exit value (\<open>None\<close>
  when it throws).
\<close>

section \<open>State\<close>

record executor_state =
  ex_lib :: user_library
  ex_loaded :: "string list"
  ex_env :: "(string, string) table"

type_synonym user_fn = "string \<Rightarrow> user_library \<Rightarrow> string option list \<Rightarrow> user_library \<times> string list \<times> int option"

definition executor_init :: "string \<Rightarrow> u32 \<Rightarrow> executor_state" where
  "executor_init ip tid = \<lparr>ex_lib = user_library_init ip tid, ex_loaded = [], ex_env = []\<rparr>"

section \<open>Status and decoding\<close>

definition status_request :: "u32 \<Rightarrow> bool \<Rightarrow> string" where
  "status_request tid busy = [byte (ucast (tid + 1)), byte (if busy then 6 else 7)]"

definition load_function :: "(string \<Rightarrow> bool) \<Rightarrow> string \<Rightarrow> string list \<Rightarrow> bool \<times> string list" where
  "load_function loadable f loaded = (if loadable f then (True, ins f loaded) else (False, loaded))"

definition set_resource_env :: "string \<Rightarrow> (string, string) table \<Rightarrow> (string, string) table" where
  "set_resource_env meta env =
     (let parts = split meta (CHR '','')
      in if length parts = 2
         then tput ''DEMETER_MEMORY_MB'' (c_str (parts ! 1)) (tput ''DEMETER_CPU_CORES'' (c_str (parts ! 0)) env)
         else env)"

text \<open>Argument flag, persist flag, resource metadata and the tokens of the call.\<close>

definition parse_call :: "string \<Rightarrow> cpp_error + (u8 \<times> u8 \<times> string \<times> string list)" where
  "parse_call msg =
     bindE (byte_at msg 1) (\<lambda>b1. bindE (byte_at msg 2) (\<lambda>persist. bindE (byte_at msg 3) (\<lambda>len.
     bindE (bytes_from msg 4 (unat len)) (\<lambda>meta.
     bindE (c_string_from msg (4 + unat len)) (\<lambda>body.
       Inr (b1 - 1, persist, meta, split body (CHR ''|'')))))))"

text \<open>Arguments that are objects: bucket, key and size; a missing segment is a null pointer.\<close>

fun key_args :: "u8 \<Rightarrow> shm \<Rightarrow> string list \<Rightarrow> cpp_error + (string option list \<times> u64 list)" where
  "key_args flag m (b # k # n # rest) =
     bindE (stoi n) (\<lambda>size.
       let ptr = shm_open (b @ kDelimiter @ k) m
       in bindE (key_args flag m rest) (\<lambda>(vals, sizes).
            if flag = 1 then Inr (ptr # vals, word_of_int size # sizes)
            else Inr (Some k # ptr # vals, of_nat (length k) # word_of_int size # sizes)))"
| "key_args flag m [] = Inr ([], [])"
| "key_args flag m _ = Inl VectorIndex"

definition plain_args :: "string list \<Rightarrow> string option list \<times> u64 list" where
  "plain_args args = (map Some args, map (\<lambda>a. of_nat (length a)) args)"

text \<open>
  \<open>None\<close> is the branch that logs an error and gives the call up. An argument flag other than
  0, 1 and 2 leaves the argument count uninitialised.
\<close>

definition decode_args :: "u8 \<Rightarrow> shm \<Rightarrow> string list \<Rightarrow> cpp_error + (string option list \<times> u64 list) option" where
  "decode_args flag m args =
     (if flag = 0 then Inr (Some (plain_args args))
      else if (length args + 1) mod 3 = 1
      then (if flag = 1 \<or> flag = 2 then bindE (key_args flag m args) (\<lambda>r. Inr (Some r)) else Inl UninitializedRead)
      else Inr None)"

section \<open>One call\<close>

text \<open>The last component of the result is false on the branches that \<open>continue\<close> the loop early.\<close>

definition run_function :: "user_fn \<Rightarrow> string \<Rightarrow> string option list \<times> u64 list \<Rightarrow> executor_state \<Rightarrow> executor_state \<times> string list" where
  "run_function user_fn f args st =
     (let (u, sent, ec) = user_fn f (fold add_arg_size (snd args) (ex_lib st)) (fst args)
      in (st\<lparr>ex_lib := clear_session u\<rparr>, sent))"

definition exec_call ::
  "(string \<Rightarrow> bool) \<Rightarrow> user_fn \<Rightarrow> shm \<Rightarrow> u32 \<Rightarrow> string \<Rightarrow> executor_state \<Rightarrow>
     cpp_error + (executor_state \<times> string list \<times> bool)" where
  "exec_call loadable user_fn m tid msg st =
     bindE (parse_call msg) (\<lambda>(flag, persist, meta, parts).
     bindE (nth_or VectorIndex parts 0) (\<lambda>session. bindE (nth_or VectorIndex parts 1) (\<lambda>f.
       let u = set_persist_flag persist (set_session_id session (set_function_name f (ex_lib st)));
           st1 = st\<lparr>ex_env := set_resource_env meta (ex_env st), ex_lib := u\<rparr>;
           busy = status_request tid True; avail = status_request tid False;
           (ok, loaded) = (if f \<in> set (ex_loaded st) then (True, ex_loaded st) else load_function loadable f (ex_loaded st));
           st2 = st1\<lparr>ex_loaded := loaded\<rparr>
       in if \<not> ok then Inr (st2, [busy, avail], False)
          else bindE (decode_args flag m (drop 2 parts)) (\<lambda>res.
                 case res of
                   None \<Rightarrow> Inr (st2, [busy, avail], False)
                 | Some args \<Rightarrow>
                     (let (st3, sent) = run_function user_fn f args st2 in Inr (st3, busy # sent @ [avail], True))))))"

section \<open>The loop\<close>

definition ExecutorTimerThreshold :: int where
  "ExecutorTimerThreshold = 1000"

text \<open>
  One iteration: a received message (if any) is handled when its first byte is 1, then the
  timer may report the executor as available; the early branches skip the timer.
\<close>

definition executor_iteration ::
  "(string \<Rightarrow> bool) \<Rightarrow> user_fn \<Rightarrow> shm \<Rightarrow> u32 \<Rightarrow> time_point \<Rightarrow> string option \<Rightarrow> executor_state \<times> time_point \<Rightarrow>
     cpp_error + ((executor_state \<times> time_point) \<times> string list)" where
  "executor_iteration loadable user_fn m tid now msg s =
     (let (st, report_start) = s;
          timer = (\<lambda>st sent. if millis (now - report_start) \<ge> ExecutorTimerThreshold
                     then Inr ((st, now), sent @ [status_request tid False]) else Inr ((st, report_start), sent))
      in case msg of
           None \<Rightarrow> timer st []
         | Some str \<Rightarrow>
             bindE (byte_at str 0) (\<lambda>b0.
               if b0 = 1 then bindE (exec_call loadable user_fn m tid str st) (\<lambda>(st1, sent, finished).
                 if finished then timer st1 sent else Inr ((st1, report_start), sent))
               else timer st []))"

section \<open>The executor reports every call\<close>

lemma run_function_cleared:
  "ul_session_id (ex_lib (fst (run_function user_fn f args st))) = []"
  "ul_size_of_args (ex_lib (fst (run_function user_fn f args st))) = []"
  by (simp_all add: run_function_def clear_session_def case_prod_unfold Let_def)

text \<open>
  The executor brackets every call it survives: it reports busy before and available after,
  exactly in this order and on every path (a library that cannot be loaded, arguments that cannot
  be parsed, a function that fails or throws), so the scheduler gets the executor back; and a
  function that ran leaves no argument sizes behind.
\<close>

theorem executor_brackets_call:
  assumes "exec_call loadable user_fn m tid msg st = Inr (st', sent, finished)"
  shows "\<exists>inner. sent = status_request tid True # inner @ [status_request tid False]
     \<and> (if finished then ul_session_id (ex_lib st') = [] \<and> ul_size_of_args (ex_lib st') = []
        else inner = [] \<and> ul_size_of_args (ex_lib st') = ul_size_of_args (ex_lib st))"
proof -
  obtain flag persist meta parts session f where p: "parse_call msg = Inr (flag, persist, meta, parts)"
      "nth_or VectorIndex parts 0 = Inr session" "nth_or VectorIndex parts 1 = Inr f"
    using assms by (auto simp: exec_call_def bindE_Inr_iff)
  let ?u = "set_persist_flag persist (set_session_id session (set_function_name f (ex_lib st)))"
  obtain ok loaded where l: "(if f \<in> set (ex_loaded st) then (True, ex_loaded st)
      else load_function loadable f (ex_loaded st)) = (ok, loaded)" by fastforce
  let ?st = "st\<lparr>ex_env := set_resource_env meta (ex_env st), ex_lib := ?u, ex_loaded := loaded\<rparr>"
  have sizes: "ul_size_of_args ?u = ul_size_of_args (ex_lib st)"
    by (simp add: set_persist_flag_def set_session_id_def set_function_name_def)
  note e = assms [unfolded exec_call_def, simplified p l bindE_simps Let_def prod.case]
  show ?thesis
  proof (cases "ok \<and> (\<exists>args. decode_args flag m (drop 2 parts) = Inr (Some args))")
    case True
    then obtain args where "decode_args flag m (drop 2 parts) = Inr (Some args)" by blast
    then have "st' = fst (run_function user_fn f args ?st)" "finished"
        "sent = status_request tid True # snd (run_function user_fn f args ?st) @ [status_request tid False]"
      using e True by (auto simp: case_prod_unfold)
    then show ?thesis using run_function_cleared by simp
  next
    case False
    then have "sent = [status_request tid True, status_request tid False] \<and> \<not> finished \<and> ex_lib st' = ?u"
      using e by (auto simp: bindE_Inr_iff split: if_splits option.splits)
    then show ?thesis using sizes by simp
  qed
qed

lemma split_three: "split ''s|f|x'' (CHR ''|'') = [''s'', ''f'', ''x'']"
  by (simp add: split.simps)

theorem executor_brackets_call_witness:
  "\<exists>st' inner. exec_call (\<lambda>f. True) (\<lambda>f u args. (u, [''out''], Some 0)) [] 0
       ([byte 1, byte 1, byte 2, byte 3] @ ''0,0'' @ ''s|f|x'') (executor_init ''10.0.0.1'' 0)
     = Inr (st', status_request 0 True # inner @ [status_request 0 False], True)"
proof -
  let ?msg = "[byte 1, byte 1, byte 2, byte 3] @ ''0,0'' @ ''s|f|x''"
  have "parse_call ?msg = Inr (0, 2, ''0,0'', split ''s|f|x'' (CHR ''|''))"
    by (simp add: parse_call_def byte_at_def nth_or_def raw_def bytes_from_def c_string_from_def c_str_def)
  then obtain st' sent where e: "exec_call (\<lambda>f. True) (\<lambda>f u args. (u, [''out''], Some 0)) [] 0 ?msg
      (executor_init ''10.0.0.1'' 0) = Inr (st', sent, True)"
    by (simp add: exec_call_def nth_or_def decode_args_def load_function_def executor_init_def run_function_def Let_def split_three)
  show ?thesis using executor_brackets_call [OF e] e by auto
qed

end
