(* ===== verification/Local_Sched.thy ===== *)
theory Local_Sched
  imports Comm_Recv Executor
begin

text \<open>
  The local scheduler of a node (\<^verbatim>\<open>src/scheduler/scheduler_server.cpp\<close>), first part: its state and
  the operations that every handler uses. \<open>schedule_func_call\<close> hands a call to an idle executor,
  delays it, or forwards it to the coordinator; \<open>check_object_arrival\<close>
  (\<^verbatim>\<open>src/scheduler/object_handlers.cpp\<close>) runs the triggers of a bucket. Executor states are the
  numbers of the code: 0 empty, 1 available, 2 await, 3 busy. Every operation returns the new state
  and the messages it sends, to an executor channel or to the network.
\<close>

section \<open>State\<close>

record inflight_io =
  io_executor_id :: u8
  io_req_id :: u8
  io_recv_time :: time_point

record delay_call =
  dc_session :: string
  dc_app :: string
  dc_func :: string
  dc_args :: "string list"
  dc_flag :: int
  dc_cpu :: real
  dc_mem :: u32
  dc_time :: time_point

record rerun_item =
  ri_check_time :: time_point
  ri_session :: string
  ri_trigger :: trigger_ref

record inflight_args =
  ia_func_name :: string
  ia_session :: string
  ia_key_args :: "string list"
  ia_inflight :: "string list"
  ia_flag :: int
  ia_cpu :: real
  ia_mem :: u32

definition empty_inflight :: inflight_args where
  "empty_inflight = \<lparr>ia_func_name = [], ia_session = [], ia_key_args = [], ia_inflight = [], ia_flag = 0, ia_cpu = 0, ia_mem = 0\<rparr>"

record sched_state =
  ls_helper :: comm_helper
  ls_view :: node_view
  ls_store :: obj_store
  ls_session_addr :: "(string, string) table"
  ls_delay_queue :: "delay_call list"
  ls_rerun_queue :: "rerun_item list"
  ls_channels :: "u8 list"
  ls_status :: "(u8, u8) table"
  ls_func_executors :: "(string, u8 list) table"
  ls_call_id :: u32
  ls_inflight :: "(u32, inflight_args) table"
  ls_key_calls :: "(string, u32 list) table"
  ls_remote_gets :: "(string, inflight_io list) table"
  ls_kvs_puts :: "(string, inflight_io list) table"
  ls_function_cache :: "string list"
  ls_seed :: u32
  ls_report_start :: time_point

record 'w sched_config =
  lc_delay :: u32
  lc_shared :: bool
  lc_reject :: bool
  lc_codec :: "'w prim_codec"
  lc_env :: comm_env

datatype sched_out = ToExecutor u8 string | ToNet string comm_out

type_synonym sched_result = "cpp_error + (sched_state \<times> sched_out list)"

text \<open>
  The executors start in state 2 (await), one channel each. The loop of \<open>run\<close> counts them in a \<open>uint8_t\<close> and
  ends for up to 255 of them; the definition is meant for such numbers.
\<close>

definition sched_init :: "nat \<Rightarrow> comm_helper \<Rightarrow> u32 \<Rightarrow> time_point \<Rightarrow> sched_state" where
  "sched_init executors h seed now =
     (let es = map of_nat [0..<executors]
      in \<lparr>ls_helper = h, ls_view = empty_view, ls_store = empty_store, ls_session_addr = [], ls_delay_queue = [],
          ls_rerun_queue = [], ls_channels = es, ls_status = map (\<lambda>e. (e, 2)) es, ls_func_executors = [], ls_call_id = 0,
          ls_inflight = [], ls_key_calls = [], ls_remote_gets = [], ls_kvs_puts = [], ls_function_cache = [],
          ls_seed = seed, ls_report_start = now\<rparr>)"

section \<open>Sending\<close>

text \<open>\<open>executor_chans_map[id]\<close> is a null pointer for an executor without a channel.\<close>

definition send_to_executer :: "u8 \<Rightarrow> string \<Rightarrow> sched_state \<Rightarrow> sched_result" where
  "send_to_executer e msg st = (if e \<in> set (ls_channels st) then Inr (st, [ToExecutor e msg]) else Inl NullDereference)"

definition with_helper :: "(comm_helper \<Rightarrow> cpp_error + (comm_helper \<times> comm_sent)) \<Rightarrow> sched_state \<Rightarrow> sched_result" where
  "with_helper f st =
     bindE (f (ls_helper st)) (\<lambda>(h, sent). Inr (st\<lparr>ls_helper := h\<rparr>, map (\<lambda>(a, m). ToNet a m) sent))"

definition thenE :: "(sched_state \<Rightarrow> sched_result) \<Rightarrow> (sched_state \<Rightarrow> sched_result) \<Rightarrow> sched_state \<Rightarrow> sched_result" where
  "thenE f g st = bindE (f st) (\<lambda>(st1, out1). bindE (g st1) (\<lambda>(st2, out2). Inr (st2, out1 @ out2)))"

definition get_avail_executor_num :: "(u8, u8) table \<Rightarrow> nat" where
  "get_avail_executor_num status = length (filter (\<lambda>(e, s). s = 0 \<or> s = 1) status)"

section \<open>Forwarding to the coordinator\<close>

text \<open>The declared sizes: every third entry of the arguments of each function.\<close>

fun declared_size :: "string list \<Rightarrow> cpp_error + int" where
  "declared_size [] = Inr 0"
| "declared_size (b # k # n # rest) = bindE (stoi n) (\<lambda>i. bindE (declared_size rest) (\<lambda>j. Inr (i + j)))"
| "declared_size _ = Inl VectorIndex"

definition forwardDataPackingThreshold :: nat where
  "forwardDataPackingThreshold = 10240"

text \<open>\<open>key_len_map[key]\<close> inserts the size 0 for an unknown key.\<close>

definition touch_len :: "string \<Rightarrow> obj_store \<Rightarrow> obj_store" where
  "touch_len key os = os\<lparr>os_key_len := tmod 0 id key (os_key_len os)\<rparr>"

abbreviation len_of :: "obj_store \<Rightarrow> string \<Rightarrow> u32" where
  "len_of os key \<equiv> tget 0 (os_key_len os) key"

fun pack_args :: "int \<Rightarrow> string list \<Rightarrow> obj_store \<Rightarrow> cpp_error + (string list \<times> obj_store)" where
  "pack_args flag [] os = Inr ([], os)"
| "pack_args flag (b # k # n # rest) os =
     (let key = b @ kDelimiter @ k; os1 = touch_len key os
      in bindE (read_shm key (unat (len_of os1 key)) os1) (\<lambda>dat.
         bindE (pack_args flag rest os1) (\<lambda>(args, os2).
           Inr ((if flag = 1 then [dat] else if flag = 2 then [k, dat] else []) @ args, os2))))"
| "pack_args flag _ os = Inl VectorIndex"

fun pack_all :: "int \<Rightarrow> string list list \<Rightarrow> obj_store \<Rightarrow> cpp_error + (string list list \<times> obj_store)" where
  "pack_all flag [] os = Inr ([], os)"
| "pack_all flag (args # argss) os =
     bindE (pack_args flag args os) (\<lambda>(x, os1). bindE (pack_all flag argss os1) (\<lambda>(xs, os2). Inr (x # xs, os2)))"

text \<open>The comparison with the threshold converts the \<open>int\<close> total to \<open>unsigned\<close>.\<close>

definition forward_call_via_helper :: "string \<Rightarrow> string \<Rightarrow> string list \<Rightarrow> string list list \<Rightarrow> int \<Rightarrow> sched_state \<Rightarrow> sched_result" where
  "forward_call_via_helper session app fs argss flag st =
     (let addr = tget [] (ls_session_addr st) session
      in if flag > 0
         then bindE (mapE declared_size argss) (\<lambda>sizes.
                if unat (word_of_int (sum_list sizes) :: u32) < forwardDataPackingThreshold
                then bindE (pack_all flag argss (ls_store st)) (\<lambda>(packed, os).
                       with_helper (forward_func_call addr app fs packed 0 session) (st\<lparr>ls_store := os\<rparr>))
                else with_helper (forward_func_call addr app fs argss flag session) st)
         else with_helper (forward_func_call addr app fs argss flag session) st)"

section \<open>The call message\<close>

text \<open>
  \<open>std::to_string(double)\<close> prints six decimals; a tie is rounded to the even last digit.
\<close>

definition round_even :: "real \<Rightarrow> int" where
  "round_even y =
     (let f = \<lfloor>y\<rfloor>; d = y - of_int f
      in if d < 1 / 2 then f else if d > 1 / 2 then f + 1 else if even f then f else f + 1)"

definition pad6 :: "nat \<Rightarrow> string" where
  "pad6 n = replicate (6 - length (to_string n)) (digit 0) @ to_string n"

definition to_string_double :: "real \<Rightarrow> string" where
  "to_string_double x =
     (let n = nat (round_even (\<bar>x\<bar> * 1000000))
      in (if x < 0 then ''-'' else []) @ to_string (n div 1000000) @ ''.'' @ pad6 (n mod 1000000))"

definition resource_meta :: "real \<Rightarrow> u32 \<Rightarrow> string" where
  "resource_meta cpu mem =
     (let m = to_string_double cpu @ '','' @ to_string (unat mem) in if length m > 255 then ''0,0'' else m)"

definition func_args_string :: "string \<Rightarrow> string list \<Rightarrow> string" where
  "func_args_string f args = f @ concat (map (\<lambda>a. ''|'' @ a) args)"

definition call_message :: "int \<Rightarrow> bool \<Rightarrow> real \<Rightarrow> u32 \<Rightarrow> string \<Rightarrow> string \<Rightarrow> string list \<Rightarrow> string" where
  "call_message flag persist cpu mem session f args =
     (let meta = resource_meta cpu mem
      in [byte 1, byte (word_of_int (flag + 1)), byte (if persist then 1 else 2), byte (of_nat (length meta))]
         @ meta @ session @ ''|'' @ func_args_string f args)"

section \<open>\<open>schedule_func_call\<close>\<close>

text \<open>The first available executor that has run the function ends the search.\<close>

fun scan_executors :: "bool \<Rightarrow> u8 list \<Rightarrow> (u8, u8) table \<Rightarrow> u8 option \<times> u8 list" where
  "scan_executors shared warm [] = (None, [])"
| "scan_executors shared warm ((e, s) # rest) =
     (if s = 1 \<and> e \<in> set warm then (Some e, [])
      else (let (w, cold) = scan_executors shared warm rest
            in (w, if s = 0 \<or> shared \<and> s = 1 then e # cold else cold)))"

definition pick_executor :: "'w sched_config \<Rightarrow> string \<Rightarrow> sched_state \<Rightarrow> (u8 \<times> sched_state) option" where
  "pick_executor cfg f st =
     (let (warm, cold) = scan_executors (lc_shared cfg) (tget [] (ls_func_executors st) f) (ls_status st);
          (v, seed) = cn_rand (lc_env cfg) (ls_seed st)
      in case warm of
           Some e \<Rightarrow> Some (e, st\<lparr>ls_seed := seed\<rparr>)
         | None \<Rightarrow> if cold = [] then None
                   else (let e = cold ! (v mod length cold)
                         in Some (e, st\<lparr>ls_seed := seed,
                                       ls_func_executors := tmod [] (ins e) f (ls_func_executors st)\<rparr>)))"

text \<open>The queue of re-execution checks, ordered by check time.\<close>

fun rerun_push :: "rerun_item \<Rightarrow> rerun_item list \<Rightarrow> rerun_item list" where
  "rerun_push x [] = [x]"
| "rerun_push x (y # ys) = (if ri_check_time x < ri_check_time y then x # y # ys else y # rerun_push x ys)"

definition note_rerun :: "time_point \<Rightarrow> string \<Rightarrow> string \<Rightarrow> string list \<Rightarrow> int \<Rightarrow> rerun_trigger_timeout \<Rightarrow> sched_state \<Rightarrow> sched_state" where
  "note_rerun now f session args flag m st =
     (let r = rt_trigger m; v = ls_view st
      in st\<lparr>ls_view := v\<lparr>nv_heap := (nv_heap v)[r := notify_source_func f session args flag (nv_heap v ! r)]\<rparr>,
            ls_rerun_queue := rerun_push \<lparr>ri_check_time = now + uint (rt_timeout m) * 1000000, ri_session = session, ri_trigger = r\<rparr>
              (ls_rerun_queue st)\<rparr>)"

definition run_on_executor ::
  "time_point \<Rightarrow> string \<Rightarrow> string \<Rightarrow> string list \<Rightarrow> int \<Rightarrow> real \<Rightarrow> u32 \<Rightarrow> u8 \<Rightarrow> sched_state \<Rightarrow> sched_result" where
  "run_on_executor now session f args flag cpu mem e st =
     bindE (send_to_executer e (call_message flag (tget [] (ls_session_addr st) session = []) cpu mem session f args) st)
       (\<lambda>(st1, out). Inr (fold (note_rerun now f session args flag) (tget [] (nv_func_timeout (ls_view st1)) f)
          (st1\<lparr>ls_status := tput e 2 (ls_status st1)\<rparr>), out))"

text \<open>Arguments that name an object as \<open>bucket|key\<close> are taken apart for the forwarded call.\<close>

definition flatten_args :: "string list \<Rightarrow> string list" where
  "flatten_args args =
     concat (map (\<lambda>a. if kDelimiterChar \<in> set a then split a kDelimiterChar else [a]) args)"

definition forward_args :: "string list \<Rightarrow> int \<Rightarrow> cpp_error + string list" where
  "forward_args args flag =
     (if flag > 0
      then bindE (nth_or VectorIndex args 0) (\<lambda>a. Inr (if kDelimiterChar \<in> set a then flatten_args args else args))
      else Inr args)"

definition schedule_func_call ::
  "'w sched_config \<Rightarrow> time_point \<Rightarrow> string \<Rightarrow> string \<Rightarrow> string \<Rightarrow> string list \<Rightarrow> int \<Rightarrow> real \<Rightarrow> u32 \<Rightarrow> sched_state \<Rightarrow> sched_result" where
  "schedule_func_call cfg now session app f args flag cpu mem st =
     (case pick_executor cfg f st of
        Some (e, st1) \<Rightarrow> run_on_executor now session f args flag cpu mem e st1
      | None \<Rightarrow>
          if lc_delay cfg > 0
          then Inr (st\<lparr>ls_delay_queue := ls_delay_queue st @ [\<lparr>dc_session = session, dc_app = app, dc_func = f, dc_args = args,
                      dc_flag = flag, dc_cpu = cpu, dc_mem = mem, dc_time = now\<rparr>]\<rparr>, [])
          else if lc_reject cfg then Inr (st, [])
          else bindE (forward_args args flag) (\<lambda>fargs. forward_call_via_helper session app [f] [fargs] flag st))"

section \<open>Triggers of an arriving object\<close>

text \<open>
  The arguments of one action: the packed values when all are cached, else names and sizes. The
  argument flag is a variable of the enclosing loop over the actions, so the 0 set for one action
  stays for the next ones of the same trigger.
\<close>

definition action_metadata ::
  "string \<Rightarrow> trigger_action \<Rightarrow> int \<times> obj_store \<Rightarrow> trigger_function_metadata \<times> int \<times> obj_store" where
  "action_metadata b a s =
     (let (flag, os) = s; names = map (\<lambda>(sess, k). get_local_object_name b k sess) (ta_session_keys a)
      in if \<forall>nm \<in> set names. thas (os_key_val os) nm
         then (mk_tfm (ta_function a) (map (tget [] (os_key_val os)) names) 0, 0, os)
         else (let os1 = fold touch_len names os
               in (mk_tfm (ta_function a) (concat (map (\<lambda>nm. [nm, to_string (unat (len_of os1 nm))]) names)) flag, flag, os1)))"

fun actions_metadata ::
  "string \<Rightarrow> trigger_action list \<Rightarrow> int \<times> obj_store \<Rightarrow> trigger_function_metadata list \<times> obj_store" where
  "actions_metadata b [] s = ([], snd s)"
| "actions_metadata b (a # as) s =
     (let (m, s1) = action_metadata b a s; (ms, os) = actions_metadata b as s1 in (m # ms, os))"

fun check_object_arrival ::
  "time_point \<Rightarrow> bucket_key \<Rightarrow> trigger_ref list \<Rightarrow> sched_state \<Rightarrow> sched_state \<times> string list \<times> trigger_function_metadata list" where
  "check_object_arrival now bk [] st = (st, [], [])"
| "check_object_arrival now bk (r # rs) st =
     (let v = ls_view st; t = nv_heap v ! r; (t1, actions) = action_for_new_object now bk t;
          st1 = st\<lparr>ls_view := v\<lparr>nv_heap := (nv_heap v)[r := t1]\<rparr>\<rparr>;
          (ms, os) = actions_metadata (bk_bucket bk) actions (get_trigger_option t + 1, ls_store st1);
          (st2, names, metas) = check_object_arrival now bk rs (st1\<lparr>ls_store := os\<rparr>)
      in (st2, (if actions = [] then [] else [get_trigger_name t]) @ names, ms @ metas))"

definition check_trigger :: "'w sched_config \<Rightarrow> time_point \<Rightarrow> bucket_key \<Rightarrow> string \<Rightarrow> sched_state \<Rightarrow>
    cpp_error + (sched_state \<times> string list \<times> sched_out list)" where
  "check_trigger cfg now bk session st =
     (let (st1, names, metas) = check_object_arrival now bk (bucket_refs (ls_view st) (bk_bucket bk)) st;
          app = tget [] (nv_bucket_app (ls_view st1)) (bk_bucket bk)
      in bindE (runE (\<lambda>m. schedule_func_call cfg now session app (tfm_func_name m) (tfm_func_args m) (tfm_arg_flag m) 0 0) metas st1)
           (\<lambda>(st2, out). Inr (st2, names, out)))"

end
