(* ===== verification/Sched_Loop.thy ===== *)
theory Sched_Loop
  imports Local_Sched
begin

text \<open>
  The local scheduler (\<^verbatim>\<open>src/scheduler/scheduler_server.cpp\<close>), second part: the main loop. An
  iteration handles at most one message of an executor (a get request, an object, a status
  flag), the messages of the communication helper, the delayed calls, and every ten
  milliseconds the re-execution checks and the status report. One iteration takes one clock
  reading for all its handlers and two more (\<open>ck_report_end\<close>, \<open>ck_rerun\<close>) for the periodic part.
\<close>

section \<open>Requests of the executors\<close>

definition generic_response :: "u8 \<Rightarrow> string \<Rightarrow> string" where
  "generic_response req_id body = [byte 3, byte req_id, byte 1] @ body"

definition handle_get_request :: "'w sched_config \<Rightarrow> time_point \<Rightarrow> u8 \<Rightarrow> string \<Rightarrow> sched_state \<Rightarrow> sched_result" where
  "handle_get_request cfg now e str st =
     bindE (byte_at str 2) (\<lambda>b2. bindE (byte_at str 3) (\<lambda>req_id. bindE (byte_at str 4) (\<lambda>len.
     bindE (bytes_from str 5 (unat len)) (\<lambda>key.
       let wait = (\<lambda>st. st\<lparr>ls_remote_gets := tmod [] (\<lambda>rs. rs @ [\<lparr>io_executor_id = e, io_req_id = req_id, io_recv_time = now\<rparr>])
                            key (ls_remote_gets st)\<rparr>)
       in if b2 = 1
          then (if thas (os_key_len (ls_store st)) key
                then send_to_executer e (generic_response req_id (to_string (unat (len_of (ls_store st) key)))) st
                else bindE (with_helper (send_data_req key) st) (\<lambda>(st1, out). Inr (wait st1, out)))
          else bindE (nth_or VectorIndex (split key (CHR ''|'')) 1) (\<lambda>k.
               bindE (with_helper (get_kvs_async (lc_env cfg) now k) st) (\<lambda>(st1, out). Inr (wait st1, out)))))))"

text \<open>The direct dependencies of a source function; \<open>None\<close> when it has none.\<close>

definition direct_targets :: "string \<Rightarrow> string \<Rightarrow> node_view \<Rightarrow> string list option" where
  "direct_targets app src v = map_of (ai_direct_deps (tget empty_app_info (nv_app_info v) app)) src"

definition schedule_all ::
  "'w sched_config \<Rightarrow> time_point \<Rightarrow> string \<Rightarrow> string \<Rightarrow> string list \<Rightarrow> string list \<Rightarrow> int \<Rightarrow> sched_state \<Rightarrow> sched_result" where
  "schedule_all cfg now session app fs args flag = runE (\<lambda>f. schedule_func_call cfg now session app f args flag 0 0) fs"

definition invoke_direct ::
  "'w sched_config \<Rightarrow> time_point \<Rightarrow> string \<Rightarrow> string \<Rightarrow> string list \<Rightarrow> string \<Rightarrow> string list \<Rightarrow> int \<Rightarrow> sched_state \<Rightarrow> sched_result" where
  "invoke_direct cfg now session app targets tgt args flag st =
     (if tgt = []
      then (let n = get_avail_executor_num (ls_status st)
            in if length targets > n
               then thenE (schedule_all cfg now session app (take n targets) args flag)
                      (\<lambda>st1. if lc_reject cfg then Inr (st1, [])
                             else forward_call_via_helper session app (drop n targets)
                                    (map (\<lambda>_. args) (drop n targets)) flag st1) st
               else schedule_all cfg now session app targets args flag st)
      else if tgt \<in> set targets then schedule_func_call cfg now session app tgt args flag 0 0 st
      else Inr (st, []))"

definition notify_object ::
  "'w sched_config \<Rightarrow> time_point \<Rightarrow> string \<Rightarrow> string \<Rightarrow> string \<Rightarrow> u8 \<Rightarrow> string \<Rightarrow> sched_state \<Rightarrow> sched_result" where
  "notify_object cfg now session b sk packing obj st =
     (let bk = bk_of_session_key b sk
      in bindE (check_trigger cfg now bk session st) (\<lambda>(st1, names, out1).
         bindE (if packing = 1 \<or> packing = 2
                then with_helper (notify_put bk names (tget [] (ls_session_addr st1) session)
                       (if packing = 1 then tget [] (os_key_val (ls_store st1)) obj else [])) st1
                else Inr (st1, []))
           (\<lambda>(st2, out2). Inr (st2\<lparr>ls_call_id := ls_call_id st2 + of_nat (length names)\<rparr>, out1 @ out2))))"

definition store_object :: "u8 \<Rightarrow> string \<Rightarrow> string \<Rightarrow> sched_state \<Rightarrow> cpp_error + sched_state" where
  "store_object packing obj body st =
     (let os = ls_store st
      in if packing = 1
         then Inr (st\<lparr>ls_store := os\<lparr>os_key_val := tput obj body (os_key_val os),
                                    os_key_len := tput obj (of_nat (length body)) (os_key_len os)\<rparr>\<rparr>)
         else if packing = 2
         then bindE (stoi body) (\<lambda>n. Inr (st\<lparr>ls_store := os\<lparr>os_key_len := tput obj (word_of_int n) (os_key_len os)\<rparr>\<rparr>))
         else Inr st)"

definition ephemeral_object ::
  "'w sched_config \<Rightarrow> time_point \<Rightarrow> u8 \<Rightarrow> string \<Rightarrow> string \<Rightarrow> string \<Rightarrow> string \<Rightarrow> string \<Rightarrow> string \<Rightarrow> sched_state \<Rightarrow> sched_result" where
  "ephemeral_object cfg now packing session src tgt b sk body st =
     (let obj = b @ kDelimiter @ sk; app = tget [] (nv_func_app (ls_view st)) src
      in bindE (store_object packing obj body st) (\<lambda>st1.
           case direct_targets app src (ls_view st1) of
             Some targets \<Rightarrow>
               invoke_direct cfg now session app targets tgt
                 (if packing = 1 then [body] else if packing = 2 then [obj, body] else []) (if packing = 1 then 0 else 1) st1
           | None \<Rightarrow>
               if b \<noteq> bucketNameDirectInvoc then notify_object cfg now session b sk packing obj st1 else Inr (st1, [])))"

text \<open>
  Output for the durable store. The private copy of a packed value is one byte too short for the
  terminating NUL that \<open>strcpy\<close> adds; the copied value itself is right.
\<close>

definition persist_object ::
  "'w sched_config \<Rightarrow> time_point \<Rightarrow> u8 \<Rightarrow> u8 \<Rightarrow> u8 \<Rightarrow> string \<Rightarrow> string \<Rightarrow> string \<Rightarrow> sched_state \<Rightarrow> sched_result" where
  "persist_object cfg now e req_id packing b sk body st =
     bindE (if packing = 1
            then with_helper (put_kvs_async (lc_env cfg) now (ls_store st) sk (OwnBytes body) (length body)) st
            else if packing = 2
            then bindE (stoi body) (\<lambda>n. with_helper (put_kvs_async (lc_env cfg) now (ls_store st) sk
                   (ShmBytes (b @ kDelimiter @ sk)) (nat (uint (word_of_int n :: u32)))) st)
            else Inr (st, []))
       (\<lambda>(st1, out). Inr (st1\<lparr>ls_kvs_puts := tmod [] (\<lambda>rs. rs @ [\<lparr>io_executor_id = e, io_req_id = req_id, io_recv_time = now\<rparr>])
                            sk (ls_kvs_puts st1)\<rparr>, out))"

definition respond_to_client :: "u8 \<Rightarrow> string \<Rightarrow> string \<Rightarrow> string \<Rightarrow> string \<Rightarrow> string \<Rightarrow> sched_state \<Rightarrow> sched_result" where
  "respond_to_client packing session src b sk body st =
     bindE (if packing = 1 then Inr body
            else if packing = 2 then bindE (stoi body) (\<lambda>n. read_shm (b @ kDelimiter @ sk) (nat (n mod 2 ^ 64)) (ls_store st))
            else Inr [])
       (\<lambda>output_data. Inr (st, map (\<lambda>(a, m). ToNet a m)
          (client_response (tget [] (ls_session_addr st) session) (tget [] (nv_func_app (ls_view st)) src) output_data)))"

text \<open>Fewer than six tokens are only reported in the log.\<close>

definition handle_send_object :: "'w sched_config \<Rightarrow> time_point \<Rightarrow> u8 \<Rightarrow> u8 \<Rightarrow> string \<Rightarrow> sched_state \<Rightarrow> sched_result" where
  "handle_send_object cfg now e ty str st =
     bindE (byte_at str 2) (\<lambda>req_id. bindE (byte_at str 3) (\<lambda>packing. bindE (c_string_from str 4) (\<lambda>params.
       let infos = split params (CHR ''|'');
           session = infos ! 0; src = infos ! 1; tgt = infos ! 2; b = infos ! 3; sk = infos ! 4; body = infos ! 5
       in if length infos < 6 then Inr (st, [])
          else if ty = 2 then ephemeral_object cfg now packing session src tgt b sk body st
          else if ty = 3 then persist_object cfg now e req_id packing b sk body st
          else respond_to_client packing session src b sk body st)))"

definition executor_available :: "u8 \<Rightarrow> sched_state \<Rightarrow> sched_state" where
  "executor_available e st =
     (let s = tget 0 (ls_status st) e
      in st\<lparr>ls_status := tput e (if s = 0 \<or> s = 2 then 0 else 1) (ls_status st)\<rparr>)"

definition executor_busy :: "u8 \<Rightarrow> sched_state \<Rightarrow> sched_state" where
  "executor_busy e st = st\<lparr>ls_status := tput e 3 (ls_status st)\<rparr>"

definition handle_executor_msg :: "'w sched_config \<Rightarrow> time_point \<Rightarrow> string \<Rightarrow> sched_state \<Rightarrow> sched_result" where
  "handle_executor_msg cfg now str st =
     bindE (byte_at str 0) (\<lambda>addr. bindE (byte_at str 1) (\<lambda>ty.
       let e = addr - 1
       in if ty = 1 then handle_get_request cfg now e str st
          else if 2 \<le> ty \<and> ty \<le> 4 then handle_send_object cfg now e ty str st
          else if ty = 6 then Inr (executor_busy e st, [])
          else if ty = 7 then Inr (executor_available e st, [])
          else Inr (st, [])))"

section \<open>Messages of the communication helper\<close>

text \<open>The arguments of a call that are not here yet, and a data request for each that nobody asked for.\<close>

fun fetch_args :: "string list \<Rightarrow> sched_state \<Rightarrow> cpp_error + (string list \<times> sched_state \<times> sched_out list)" where
  "fetch_args [] st = Inr ([], st, [])"
| "fetch_args (a # as) st =
     (if thas (os_key_len (ls_store st)) a then fetch_args as st
      else bindE (if thas (ls_key_calls st) a then Inr (st, []) else with_helper (send_data_req a) st) (\<lambda>(st1, out1).
           bindE (fetch_args as (st1\<lparr>ls_key_calls := tmod [] (ins (ls_call_id st1)) a (ls_key_calls st1)\<rparr>)) (\<lambda>(missing, st2, out2).
             Inr (ins a missing, st2, out1 @ out2))))"

definition sized_args :: "obj_store \<Rightarrow> string list \<Rightarrow> string list" where
  "sized_args os keys = concat (map (\<lambda>k. [k, to_string (unat (len_of os k))]) keys)"

definition handle_call_item ::
  "'w sched_config \<Rightarrow> time_point \<Rightarrow> recv_msg \<Rightarrow> nat \<Rightarrow> sched_state \<Rightarrow> sched_result" where
  "handle_call_item cfg now msg i st =
     bindE (nth_or VectorIndex (rv_func_name msg) i) (\<lambda>f.
     bindE (nth_or VectorIndex (rv_func_args msg) i) (\<lambda>args.
     bindE (nth_or VectorIndex (rv_is_func_arg_keys msg) i) (\<lambda>flag.
       let cpu = (if i < length (rv_cpu_cores msg) then rv_cpu_cores msg ! i else 0);
           mem = (if i < length (rv_memory_mb msg) then rv_memory_mb msg ! i else 0);
           session = rv_session_id msg; app = rv_app_name msg;
           next_id = (\<lambda>(st, out). Inr (st\<lparr>ls_call_id := ls_call_id st + 1\<rparr>, out))
       in if flag > 0
          then bindE (fetch_args args st) (\<lambda>(missing, st1, out1).
                 if missing = []
                 then bindE (schedule_func_call cfg now session app f (sized_args (ls_store st1) args) flag cpu mem st1)
                        (\<lambda>(st2, out2). next_id (st2, out1 @ out2))
                 else next_id (st1\<lparr>ls_inflight := tput (ls_call_id st1) \<lparr>ia_func_name = f, ia_session = session,
                        ia_key_args = args, ia_inflight = missing, ia_flag = flag, ia_cpu = cpu, ia_mem = mem\<rparr> (ls_inflight st1)\<rparr>, out1))
          else bindE (schedule_func_call cfg now session app f args 0 cpu mem st) next_id)))"

definition handle_call :: "'w sched_config \<Rightarrow> time_point \<Rightarrow> recv_msg \<Rightarrow> sched_state \<Rightarrow> sched_result" where
  "handle_call cfg now msg st =
     runE (handle_call_item cfg now msg) [0..<length (rv_func_name msg)]
       (st\<lparr>ls_session_addr := tput (rv_session_id msg) (rv_resp_address msg) (ls_session_addr st)\<rparr>)"

definition answer_waiting :: "string \<Rightarrow> inflight_io list \<Rightarrow> sched_state \<Rightarrow> sched_result" where
  "answer_waiting body = runE (\<lambda>r. send_to_executer (io_executor_id r) (generic_response (io_req_id r) body))"

text \<open>One call that waits for the object: it starts when nothing else is missing.\<close>

definition wake_call :: "'w sched_config \<Rightarrow> time_point \<Rightarrow> string \<Rightarrow> u32 \<Rightarrow> sched_state \<Rightarrow> sched_result" where
  "wake_call cfg now key cid st =
     (let ia = tget empty_inflight (ls_inflight st) cid; ia1 = ia\<lparr>ia_inflight := removeAll key (ia_inflight ia)\<rparr>;
          st1 = st\<lparr>ls_inflight := tput cid ia1 (ls_inflight st)\<rparr>
      in if ia_inflight ia1 = []
         then (let os = fold touch_len (ia_key_args ia1) (ls_store st1); st2 = st1\<lparr>ls_store := os\<rparr>
               in bindE (schedule_func_call cfg now (ia_session ia1) (tget [] (nv_func_app (ls_view st2)) (ia_func_name ia1))
                           (ia_func_name ia1) (sized_args os (ia_key_args ia1)) (ia_flag ia1) (ia_cpu ia1) (ia_mem ia1) st2)
                    (\<lambda>(st3, out). Inr (st3\<lparr>ls_inflight := terase cid (ls_inflight st3)\<rparr>, out)))
         else Inr (st1, []))"

text \<open>
  \<open>resp += comm_resp.data_size_\<close> appends the size as one character, where the other replies append
  its decimal digits.
\<close>

definition handle_data_resp :: "'w sched_config \<Rightarrow> time_point \<Rightarrow> recv_msg \<Rightarrow> sched_state \<Rightarrow> sched_result" where
  "handle_data_resp cfg now msg st =
     (let key = rv_data_key msg; os = ls_store st;
          st1 = st\<lparr>ls_store := os\<lparr>os_key_len := tput key (rv_data_size msg) (os_key_len os)\<rparr>\<rparr>
      in thenE (\<lambda>st. bindE (answer_waiting [byte (ucast (rv_data_size msg))] (tget [] (ls_remote_gets st) key) st)
                       (\<lambda>(st2, out). Inr (st2\<lparr>ls_remote_gets := terase key (ls_remote_gets st2)\<rparr>, out)))
           (\<lambda>st. bindE (runE (wake_call cfg now key) (tget [] (ls_key_calls st) key) st)
                       (\<lambda>(st2, out). Inr (st2\<lparr>ls_key_calls := terase key (ls_key_calls st2)\<rparr>, out))) st1)"

definition handle_kvs_get_resp :: "recv_msg \<Rightarrow> sched_state \<Rightarrow> sched_result" where
  "handle_kvs_get_resp msg st =
     (let key = kvsKeyPrefix @ ''|'' @ rv_data_key msg; os = ls_store st;
          st1 = st\<lparr>ls_store := os\<lparr>os_key_len := tput key (rv_data_size msg) (os_key_len os)\<rparr>\<rparr>
      in bindE (answer_waiting (to_string (unat (rv_data_size msg))) (tget [] (ls_remote_gets st1) key) st1)
           (\<lambda>(st2, out). Inr (st2\<lparr>ls_remote_gets := terase key (ls_remote_gets st2)\<rparr>, out)))"

definition handle_kvs_put_resp :: "recv_msg \<Rightarrow> sched_state \<Rightarrow> sched_result" where
  "handle_kvs_put_resp msg st =
     (let key = rv_data_key msg
      in bindE (answer_waiting [] (tget [] (ls_kvs_puts st) key) st)
           (\<lambda>(st2, out). Inr (st2\<lparr>ls_kvs_puts := terase key (ls_kvs_puts st2)\<rparr>, out)))"

definition handle_recv_msg :: "'w sched_config \<Rightarrow> time_point \<Rightarrow> recv_msg \<Rightarrow> sched_state \<Rightarrow> sched_result" where
  "handle_recv_msg cfg now msg st =
     (case rv_msg_type msg of
        Call \<Rightarrow> handle_call cfg now msg st
      | DataResp \<Rightarrow> handle_data_resp cfg now msg st
      | KvsGetResp \<Rightarrow> handle_kvs_get_resp msg st
      | KvsPutResp \<Rightarrow> handle_kvs_put_resp msg st
      | NullMsg \<Rightarrow> Inr (st, []))"

section \<open>Delayed calls and re-execution\<close>

definition schedule_delayed :: "'w sched_config \<Rightarrow> time_point \<Rightarrow> delay_call \<Rightarrow> sched_state \<Rightarrow> sched_result" where
  "schedule_delayed cfg now c =
     schedule_func_call cfg now (dc_session c) (dc_app c) (dc_func c) (dc_args c) (dc_flag c) (dc_cpu c) (dc_mem c)"

text \<open>As many delayed calls as executors were idle at the start; a call that finds none goes to the back.\<close>

fun drain_delayed :: "'w sched_config \<Rightarrow> time_point \<Rightarrow> nat \<Rightarrow> sched_state \<Rightarrow> sched_result" where
  "drain_delayed cfg now 0 st = Inr (st, [])"
| "drain_delayed cfg now (Suc n) st =
     (case ls_delay_queue st of
        [] \<Rightarrow> Inr (st, [])
      | c # _ \<Rightarrow>
          bindE (schedule_delayed cfg now c st) (\<lambda>(st1, out1).
          bindE (drain_delayed cfg now n (st1\<lparr>ls_delay_queue := tl (ls_delay_queue st1)\<rparr>)) (\<lambda>(st2, out2).
            Inr (st2, out1 @ out2))))"

fun expire_delayed :: "'w sched_config \<Rightarrow> time_point \<Rightarrow> delay_call list \<Rightarrow> sched_state \<Rightarrow> sched_result" where
  "expire_delayed cfg now [] st = Inr (st\<lparr>ls_delay_queue := []\<rparr>, [])"
| "expire_delayed cfg now (c # cs) st =
     (if micros (now - dc_time c) > uint (lc_delay cfg)
      then bindE (if lc_reject cfg then Inr (st, [])
                  else forward_call_via_helper (dc_session c) (dc_app c) [dc_func c] [dc_args c] (dc_flag c) st) (\<lambda>(st1, out1).
           bindE (expire_delayed cfg now cs st1) (\<lambda>(st2, out2). Inr (st2, out1 @ out2)))
      else Inr (st\<lparr>ls_delay_queue := c # cs\<rparr>, []))"

definition handle_delayed :: "'w sched_config \<Rightarrow> time_point \<Rightarrow> sched_state \<Rightarrow> sched_result" where
  "handle_delayed cfg now st =
     (if ls_delay_queue st = [] then Inr (st, [])
      else thenE (drain_delayed cfg now (get_avail_executor_num (ls_status st)))
             (\<lambda>st1. expire_delayed cfg now (ls_delay_queue st1) st1) st)"

definition rerun_one :: "'w sched_config \<Rightarrow> time_point \<Rightarrow> rerun_item \<Rightarrow> sched_state \<Rightarrow> sched_result" where
  "rerun_one cfg now item st =
     bindE (runE (\<lambda>m st. schedule_func_call cfg now (ri_session item) (tget [] (nv_func_app (ls_view st)) (tfm_func_name m))
                   (tfm_func_name m) (tfm_func_args m) (tfm_arg_flag m) 0 0 st)
              (action_for_rerun (ri_session item) (nv_heap (ls_view st) ! ri_trigger item)) st)
       (\<lambda>(st1, out). Inr (st1\<lparr>ls_rerun_queue := tl (ls_rerun_queue st1)\<rparr>, out))"

text \<open>
  The loop over the due checks. A check that starts a function again queues a new check, so the
  loop ends only because the new check lies after \<open>report_end\<close>.
\<close>

partial_function (option) rerun_loop ::
  "'w sched_config \<Rightarrow> time_point \<Rightarrow> time_point \<Rightarrow> sched_state \<Rightarrow> sched_result option" where
  "rerun_loop cfg report_end now st =
     (case ls_rerun_queue st of
        [] \<Rightarrow> Some (Inr (st, []))
      | item # _ \<Rightarrow>
          if ri_check_time item > report_end then Some (Inr (st, []))
          else (case rerun_one cfg now item st of
                  Inl e \<Rightarrow> Some (Inl e)
                | Inr (st1, out1) \<Rightarrow>
                    Option.bind (rerun_loop cfg report_end now st1)
                      (\<lambda>r. Some (bindE r (\<lambda>(st2, out2). Inr (st2, out1 @ out2))))))"

definition rerun_check :: "'w sched_config \<Rightarrow> time_point \<Rightarrow> time_point \<Rightarrow> sched_state \<Rightarrow> sched_result" where
  "rerun_check cfg report_end now st = (case rerun_loop cfg report_end now st of None \<Rightarrow> Inl NoReturn | Some r \<Rightarrow> r)"

section \<open>One iteration\<close>

record clock =
  ck_now :: time_point
  ck_report_end :: time_point
  ck_rerun :: time_point

definition schedTimerThreshold :: int where
  "schedTimerThreshold = 10"

definition periodic_part :: "'w sched_config \<Rightarrow> clock \<Rightarrow> sched_state \<Rightarrow> sched_result" where
  "periodic_part cfg ck st =
     (if millis (ck_report_end ck - ls_report_start st) \<ge> schedTimerThreshold
      then bindE (rerun_check cfg (ck_report_end ck) (ck_rerun ck) st) (\<lambda>(st1, out).
             Inr (st1\<lparr>ls_report_start := ck_rerun ck\<rparr>,
                  out @ map (\<lambda>(a, m). ToNet a m)
                    (helper_update_status (int (get_avail_executor_num (ls_status st1))) (ls_function_cache st1) (ls_helper st1))))
      else Inr (st, []))"

definition receive_part :: "'w sched_config \<Rightarrow> clock \<Rightarrow> 'w comm_poll \<Rightarrow> sched_state \<Rightarrow> sched_result" where
  "receive_part cfg ck p st =
     bindE (try_recv_msg (lc_codec cfg) (lc_env cfg) (ck_now ck) p (ls_helper st) (ls_view st) (ls_store st))
       (\<lambda>(v, h, os, msgs, sent).
          bindE (runE (handle_recv_msg cfg (ck_now ck)) msgs (st\<lparr>ls_helper := h, ls_view := v, ls_store := os\<rparr>))
            (\<lambda>(st1, out). Inr (st1, map (\<lambda>(a, m). ToNet a m) sent @ out)))"

definition sched_round :: "'w sched_config \<Rightarrow> clock \<Rightarrow> string option \<Rightarrow> 'w comm_poll \<Rightarrow> sched_state \<Rightarrow> sched_result" where
  "sched_round cfg ck msg p =
     thenE (case msg of None \<Rightarrow> (\<lambda>st. Inr (st, [])) | Some str \<Rightarrow> handle_executor_msg cfg (ck_now ck) str)
       (thenE (receive_part cfg ck p) (thenE (handle_delayed cfg (ck_now ck)) (periodic_part cfg ck)))"

end
