(* ===== verification/Sched_Props.thy ===== *)
theory Sched_Props
  imports Sched_Loop
begin

text \<open>
  The local scheduler's use of its executors. The locale \<open>step_effect\<close> composes an effect over the
  sequencing operations of the scheduler; it is interpreted for \<open>booking\<close> (an executor gets at
  most one call, only while it is idle, and then awaits) and for \<open>sched_frame\<close> (the tables that
  scheduling a call leaves alone).
\<close>

section \<open>Effects of scheduler operations\<close>

locale step_effect =
  fixes R :: "sched_state \<Rightarrow> sched_state \<Rightarrow> sched_out list \<Rightarrow> bool"
  assumes refl: "R st st []"
    and trans: "R st st1 out1 \<Longrightarrow> R st1 st2 out2 \<Longrightarrow> R st st2 (out1 @ out2)"
begin

lemma thenE_effect:
  assumes "thenE f g st = Inr (st', out)"
    and "\<And>st st1 out1. f st = Inr (st1, out1) \<Longrightarrow> R st st1 out1"
    and "\<And>st st1 out1. g st = Inr (st1, out1) \<Longrightarrow> R st st1 out1"
  shows "R st st' out"
proof -
  obtain st1 out1 out2 where s: "f st = Inr (st1, out1)" "g st1 = Inr (st', out2)" "out = out1 @ out2"
    using assms(1) by (auto simp: thenE_def bindE_Inr_iff)
  show ?thesis
    unfolding s(3) by (rule trans [OF assms(2) [OF s(1)] assms(3) [OF s(2)]])
qed

lemma runE_effect:
  "runE f xs st = Inr (st', out) \<Longrightarrow> (\<And>x st st1 out1. x \<in> set xs \<Longrightarrow> f x st = Inr (st1, out1) \<Longrightarrow> R st st1 out1) \<Longrightarrow> R st st' out"
proof (induction xs arbitrary: st out)
  case Nil
  then show ?case using refl by simp
next
  case (Cons x xs)
  then obtain st1 out1 out2 where s: "f x st = Inr (st1, out1)" "runE f xs st1 = Inr (st', out2)" "out = out1 @ out2"
    by (auto simp: runE_Cons_Inr simp del: runE.simps(2))
  show ?case
    unfolding s(3)
    by (rule trans [OF Cons.prems(2) [OF _ s(1)] Cons.IH [OF s(2) Cons.prems(2)]]) auto
qed

end

section \<open>Booking an executor\<close>

definition is_call :: "string \<Rightarrow> bool" where
  "is_call msg \<longleftrightarrow> msg \<noteq> [] \<and> hd msg = byte 1"

fun call_to :: "u8 \<Rightarrow> sched_out \<Rightarrow> bool" where
  "call_to e (ToExecutor e' msg) \<longleftrightarrow> e' = e \<and> is_call msg"
| "call_to e (ToNet a m) \<longleftrightarrow> False"

definition calls_to :: "u8 \<Rightarrow> sched_out list \<Rightarrow> nat" where
  "calls_to e out = length (filter (call_to e) out)"

abbreviation exec_status :: "sched_state \<Rightarrow> u8 \<Rightarrow> u8 option" where
  "exec_status st e \<equiv> map_of (ls_status st) e"

definition idle :: "u8 option \<Rightarrow> bool" where
  "idle s \<longleftrightarrow> s = Some 0 \<or> s = Some 1"

definition booking :: "u8 \<Rightarrow> sched_state \<Rightarrow> sched_state \<Rightarrow> sched_out list \<Rightarrow> bool" where
  "booking e st st' out \<longleftrightarrow>
     (tbl_ok (ls_status st) \<longrightarrow>
        tbl_ok (ls_status st')
      \<and> (calls_to e out = 0 \<and> exec_status st' e = exec_status st e
       \<or> calls_to e out = 1 \<and> idle (exec_status st e) \<and> exec_status st' e = Some 2))"

lemma calls_to_simps [simp]:
  "calls_to e [] = 0" "calls_to e (xs @ ys) = calls_to e xs + calls_to e ys"
  "calls_to e (map (\<lambda>(a, m). ToNet a m) sent) = 0"
  by (auto simp: calls_to_def filter_empty_conv)

lemma not_idle_2 [simp]: "\<not> idle (Some 2)" "\<not> idle (Some 3)"
  by (simp_all add: idle_def)

interpretation booking: step_effect "booking e" for e
proof
  show "booking e st st []" for st
    by (simp add: booking_def)
  show "booking e st st2 (out1 @ out2)" if "booking e st st1 out1" "booking e st1 st2 out2" for st st1 st2 out1 out2
    using that by (auto simp: booking_def)
qed

text \<open>What leaves the executors' states alone and sends no call.\<close>

lemma booking_quiet: "ls_status st' = ls_status st \<Longrightarrow> calls_to e out = 0 \<Longrightarrow> booking e st st' out"
  by (simp add: booking_def)

definition sched_frame :: "sched_state \<Rightarrow> sched_state \<Rightarrow> sched_out list \<Rightarrow> bool" where
  "sched_frame st st' out \<longleftrightarrow>
     ls_inflight st' = ls_inflight st \<and> ls_key_calls st' = ls_key_calls st \<and> ls_remote_gets st' = ls_remote_gets st
   \<and> ls_kvs_puts st' = ls_kvs_puts st \<and> ls_channels st' = ls_channels st \<and> ls_call_id st' = ls_call_id st
   \<and> ls_session_addr st' = ls_session_addr st \<and> ls_report_start st' = ls_report_start st"

interpretation frame: step_effect sched_frame
  by unfold_locales (auto simp: sched_frame_def)

section \<open>Scheduling one call\<close>

lemma with_helper_frame:
  assumes "with_helper f st = Inr (st', out)"
  shows "booking e st st' out \<and> sched_frame st st' out \<and> ls_rerun_queue st' = ls_rerun_queue st \<and> ls_delay_queue st' = ls_delay_queue st"
  using assms by (auto simp: with_helper_def bindE_Inr_iff sched_frame_def intro!: booking_quiet)

lemma forward_frame:
  assumes "forward_call_via_helper session app fs argss flag st = Inr (st', out)"
  shows "booking e st st' out \<and> sched_frame st st' out \<and> ls_rerun_queue st' = ls_rerun_queue st \<and> ls_delay_queue st' = ls_delay_queue st"
proof -
  consider g where "with_helper g st = Inr (st', out)" | os g where "with_helper g (st\<lparr>ls_store := os\<rparr>) = Inr (st', out)"
    using assms by (auto simp: forward_call_via_helper_def Let_def bindE_Inr_iff split: if_splits)
  then show ?thesis
  proof cases
    case 1
    then show ?thesis by (rule with_helper_frame)
  next
    case 2
    then show ?thesis using with_helper_frame [OF 2, of e] by (simp add: booking_def sched_frame_def)
  qed
qed

lemma note_rerun_frame [simp]:
  "ls_status (note_rerun now f s args flag m st) = ls_status st"
  "sched_frame st (note_rerun now f s args flag m st) out"
  by (simp_all add: note_rerun_def Let_def sched_frame_def)

lemma fold_note_rerun_frame [simp]:
  "ls_status (fold (note_rerun now f s args flag) ms st) = ls_status st"
  "sched_frame st (fold (note_rerun now f s args flag) ms st) out"
proof (induction ms arbitrary: st)
  case Nil
  {
    case 1
    then show ?case by simp
  next
    case 2
    then show ?case by (simp add: sched_frame_def)
  }
next
  case (Cons m ms)
  {
    case 1
    then show ?case using Cons by simp
  next
    case 2
    then show ?case using Cons(2) [of "note_rerun now f s args flag m st"]
      by (simp add: sched_frame_def note_rerun_def Let_def)
  }
qed

lemma scan_warm: "scan_executors shared warm tbl = (Some e, cold) \<Longrightarrow> (e, 1) \<in> set tbl"
  by (induction tbl arbitrary: cold) (auto split: if_splits prod.splits simp: Let_def)

lemma scan_cold: "scan_executors shared warm tbl = (w, cold) \<Longrightarrow> e \<in> set cold \<Longrightarrow> (e, 0) \<in> set tbl \<or> (e, 1) \<in> set tbl"
  by (induction tbl arbitrary: cold w) (auto split: if_splits prod.splits simp: Let_def)

lemma pick_executor_idle:
  assumes "pick_executor cfg f st = Some (e, st1)" and "tbl_ok (ls_status st)"
  shows "idle (exec_status st e)" and "ls_status st1 = ls_status st" and "sched_frame st st1 out"
proof -
  obtain w cold where s: "scan_executors (lc_shared cfg) (tget [] (ls_func_executors st) f) (ls_status st) = (w, cold)"
    by fastforce
  have "(e, 0) \<in> set (ls_status st) \<or> (e, 1) \<in> set (ls_status st)"
  proof (cases w)
    case None
    then have "e \<in> set cold"
      using assms(1) s by (auto simp: pick_executor_def Let_def case_prod_unfold split: if_splits)
    then show ?thesis using scan_cold [OF s] by blast
  next
    case (Some a)
    then have "a = e" using assms(1) s by (auto simp: pick_executor_def Let_def case_prod_unfold)
    then show ?thesis using scan_warm s Some by blast
  qed
  then show "idle (exec_status st e)" using assms(2) by (auto simp: idle_def tbl_ok_def)
  show "ls_status st1 = ls_status st" "sched_frame st st1 out"
    using assms(1) s by (auto simp: pick_executor_def Let_def case_prod_unfold sched_frame_def split: option.splits if_splits)
qed

lemma is_call_message [simp]: "is_call (call_message flag persist cpu mem session f args)"
  by (simp add: is_call_def call_message_def Let_def)

lemma not_call_response [simp]: "\<not> is_call (generic_response i body)"
  by (simp add: is_call_def generic_response_def)

lemma run_on_executor_effect:
  assumes "run_on_executor now session f args flag cpu mem x st = Inr (st', out)"
  shows "idle (exec_status st x) \<Longrightarrow> booking e st st' out" and "sched_frame st st' out"
proof -
  let ?msg = "call_message flag (tget [] (ls_session_addr st) session = []) cpu mem session f args"
  have o: "out = [ToExecutor x ?msg]" and st': "st' = fold (note_rerun now f session args flag)
      (tget [] (nv_func_timeout (ls_view st)) f) (st\<lparr>ls_status := tput x 2 (ls_status st)\<rparr>)"
    using assms(1) by (auto simp: run_on_executor_def send_to_executer_def bindE_Inr_iff split: if_splits)
  show "booking e st st' out" if "idle (exec_status st x)"
    using that o st' by (auto simp: booking_def calls_to_def)
  have "sched_frame (st\<lparr>ls_status := tput x 2 (ls_status st)\<rparr>) st' out"
    unfolding st' by simp
  then show "sched_frame st st' out" by (simp add: sched_frame_def)
qed

lemma schedule_cases:
  assumes "schedule_func_call cfg now session app f args flag cpu mem st = Inr (st', out)"
  obtains (run) x st1 where "pick_executor cfg f st = Some (x, st1)"
      and "run_on_executor now session f args flag cpu mem x st1 = Inr (st', out)"
  | (delay) q where "st' = st\<lparr>ls_delay_queue := q\<rparr>" and "out = []"
  | (reject) "st' = st" and "out = []"
  | (forward) fargs where "forward_call_via_helper session app [f] [fargs] flag st = Inr (st', out)"
proof (cases "pick_executor cfg f st")
  case (Some p)
  then show ?thesis using assms run by (cases p) (simp add: schedule_func_call_def)
next
  case None
  note e = assms [unfolded schedule_func_call_def None, simplified]
  show ?thesis
  proof (cases "lc_delay cfg > 0 \<or> lc_reject cfg")
    case True
    then show ?thesis using e delay reject by (auto split: if_splits)
  next
    case False
    then obtain fargs where "forward_call_via_helper session app [f] [fargs] flag st = Inr (st', out)"
      using e by (auto simp: bindE_Inr_iff)
    then show ?thesis by (rule forward)
  qed
qed

lemma schedule_effect:
  assumes "schedule_func_call cfg now session app f args flag cpu mem st = Inr (st', out)"
  shows "booking e st st' out" and "sched_frame st st' out"
proof -
  have "booking e st st' out \<and> sched_frame st st' out"
    using assms
  proof (cases rule: schedule_cases)
    case (run x st1)
    have f1: "sched_frame st st1 []" "ls_status st1 = ls_status st"
      using run(1) by (auto simp: pick_executor_def Let_def case_prod_unfold sched_frame_def split: option.splits if_splits)
    have "booking e st st' out"
      using run_on_executor_effect(1) [OF run(2), of e] pick_executor_idle [OF run(1)] f1(2) by (simp add: booking_def)
    then show ?thesis using frame.trans [OF f1(1) run_on_executor_effect(2) [OF run(2)]] by simp
  next
    case forward
    then show ?thesis using forward_frame by blast
  qed (auto simp: sched_frame_def intro!: booking_quiet)
  then show "booking e st st' out" "sched_frame st st' out" by blast+
qed

section \<open>Every handler books properly\<close>

lemmas schedule_booking = schedule_effect(1)

lemma with_helper_booking: "with_helper f st = Inr (st', out) \<Longrightarrow> booking e st st' out"
  using with_helper_frame by blast

lemma forward_booking: "forward_call_via_helper session app fs argss flag st = Inr (st', out) \<Longrightarrow> booking e st st' out"
  using forward_frame by blast

lemma booking_state_cong:
  "booking e st st' out \<Longrightarrow> ls_status st1 = ls_status st' \<Longrightarrow> booking e st st1 out"
  "booking e st st' out \<Longrightarrow> ls_status st0 = ls_status st \<Longrightarrow> booking e st0 st' out"
  by (simp_all add: booking_def)

lemma send_response_booking: "send_to_executer x (generic_response i body) st = Inr (st', out) \<Longrightarrow> booking e st st' out"
  by (auto simp: send_to_executer_def calls_to_def intro!: booking_quiet split: if_splits)

lemma schedule_all_booking: "schedule_all cfg now session app fs args flag st = Inr (st', out) \<Longrightarrow> booking e st st' out"
  unfolding schedule_all_def by (erule booking.runE_effect) (rule schedule_booking)

lemma invoke_direct_booking:
  assumes "invoke_direct cfg now session app targets tgt args flag st = Inr (st', out)"
  shows "booking e st st' out"
proof -
  have fw: "booking e st1 st2 out1" if "(if lc_reject cfg then Inr (st1, [])
      else forward_call_via_helper session app fs argss flag st1) = Inr (st2, out1)" for st1 st2 out1 fs argss
    using that booking.refl forward_booking by (auto split: if_splits)
  show ?thesis
  proof (cases "tgt = [] \<and> length targets > get_avail_executor_num (ls_status st)")
    case True
    then have "thenE (schedule_all cfg now session app (take (get_avail_executor_num (ls_status st)) targets) args flag)
        (\<lambda>st1. if lc_reject cfg then Inr (st1, [])
               else forward_call_via_helper session app (drop (get_avail_executor_num (ls_status st)) targets)
                      (map (\<lambda>_. args) (drop (get_avail_executor_num (ls_status st)) targets)) flag st1) st = Inr (st', out)"
      using assms by (simp add: invoke_direct_def Let_def)
    then show ?thesis by (rule booking.thenE_effect) (auto intro: schedule_all_booking fw)
  next
    case False
    then show ?thesis
      using assms schedule_all_booking schedule_booking booking.refl
      by (auto simp: invoke_direct_def Let_def split: if_splits)
  qed
qed

lemma check_object_arrival_status: "ls_status (fst (check_object_arrival now bk rs st)) = ls_status st"
  by (induction rs arbitrary: st) (simp_all add: Let_def case_prod_unfold)

lemma check_trigger_booking:
  assumes "check_trigger cfg now bk session st = Inr (st', names, out)"
  shows "booking e st st' out"
proof -
  obtain st1 nm ms where c: "check_object_arrival now bk (bucket_refs (ls_view st) (bk_bucket bk)) st = (st1, nm, ms)"
    by (metis surj_pair)
  obtain app where r: "runE (\<lambda>m. schedule_func_call cfg now session app (tfm_func_name m) (tfm_func_args m) (tfm_arg_flag m) 0 0) ms st1 = Inr (st', out)"
    using assms c by (auto simp: check_trigger_def Let_def bindE_Inr_iff)
  have "booking e st1 st' out"
    using r by (rule booking.runE_effect) (rule schedule_booking)
  moreover have "ls_status st1 = ls_status st"
    using check_object_arrival_status [of now bk "bucket_refs (ls_view st) (bk_bucket bk)" st] c by simp
  ultimately show ?thesis by (simp add: booking_state_cong(2))
qed

lemma notify_object_booking:
  assumes "notify_object cfg now session b sk packing obj st = Inr (st', out)"
  shows "booking e st st' out"
proof -
  obtain st1 names out1 st2 out2 where
      1: "check_trigger cfg now (bk_of_session_key b sk) session st = Inr (st1, names, out1)"
    and 2: "(if packing = 1 \<or> packing = 2 then with_helper (notify_put (bk_of_session_key b sk) names (tget [] (ls_session_addr st1) session)
               (if packing = 1 then tget [] (os_key_val (ls_store st1)) obj else [])) st1 else Inr (st1, [])) = Inr (st2, out2)"
    and 3: "st' = st2\<lparr>ls_call_id := ls_call_id st2 + of_nat (length names)\<rparr>" "out = out1 @ out2"
    using assms by (auto simp: notify_object_def Let_def bindE_Inr_iff)
  have "booking e st1 st2 out2"
    using 2 with_helper_booking booking.refl by (auto split: if_splits)
  then show ?thesis
    using booking.trans [OF check_trigger_booking [OF 1]] 3 by (simp add: booking_state_cong(1))
qed

lemma store_object_status: "store_object packing obj body st = Inr st' \<Longrightarrow> ls_status st' = ls_status st"
  by (auto simp: store_object_def Let_def bindE_Inr_iff split: if_splits)

lemma ephemeral_object_booking:
  assumes "ephemeral_object cfg now packing session src tgt b sk body st = Inr (st', out)"
  shows "booking e st st' out"
proof -
  obtain st1 where s: "store_object packing (b @ kDelimiter @ sk) body st = Inr st1"
    using assms by (auto simp: ephemeral_object_def Let_def bindE_Inr_iff)
  have "booking e st1 st' out"
    using assms s invoke_direct_booking notify_object_booking booking.refl
    by (auto simp: ephemeral_object_def Let_def split: option.splits if_splits)
  then show ?thesis using store_object_status [OF s] by (simp add: booking_state_cong(2))
qed

lemma persist_object_booking:
  assumes "persist_object cfg now x i packing b sk body st = Inr (st', out)"
  shows "booking e st st' out"
proof -
  consider g st1 where "with_helper g st = Inr (st1, out)" "ls_status st' = ls_status st1"
    | "ls_status st' = ls_status st" "out = []"
    using assms by (auto simp: persist_object_def bindE_Inr_iff split: if_splits)
  then show ?thesis
  proof cases
    case 1
    then show ?thesis using booking_state_cong(1) [OF with_helper_booking] by blast
  qed (auto intro: booking_quiet)
qed

lemma respond_to_client_booking:
  "respond_to_client packing session src b sk body st = Inr (st', out) \<Longrightarrow> booking e st st' out"
  by (auto simp: respond_to_client_def bindE_Inr_iff intro!: booking_quiet)

lemma handle_send_object_booking:
  assumes "handle_send_object cfg now x ty str st = Inr (st', out)"
  shows "booking e st st' out"
  using assms ephemeral_object_booking persist_object_booking respond_to_client_booking booking.refl
  by (auto simp: handle_send_object_def Let_def bindE_Inr_iff split: if_splits)

lemma handle_get_request_booking:
  assumes "handle_get_request cfg now x str st = Inr (st', out)"
  shows "booking e st st' out"
proof -
  obtain b2 i len key where h: "byte_at str 2 = Inr b2" "byte_at str 3 = Inr i" "byte_at str 4 = Inr len"
      "bytes_from str 5 (unat len) = Inr key"
    using assms by (auto simp: handle_get_request_def bindE_Inr_iff)
  consider g st1 where "with_helper g st = Inr (st1, out)" "ls_status st' = ls_status st1"
    | body where "send_to_executer x (generic_response i body) st = Inr (st', out)"
    using assms h by (auto simp: handle_get_request_def Let_def bindE_Inr_iff split: if_splits)
  then show ?thesis
  proof cases
    case 1
    then show ?thesis using booking_state_cong(1) [OF with_helper_booking] by blast
  next
    case 2
    then show ?thesis by (rule send_response_booking)
  qed
qed

lemma fetch_args_booking: "fetch_args as st = Inr (missing, st', out) \<Longrightarrow> booking e st st' out"
proof (induction as arbitrary: st missing out)
  case Nil
  then show ?case by (simp add: booking.refl)
next
  case (Cons a as)
  show ?case
  proof (cases "thas (os_key_len (ls_store st)) a")
    case True
    then show ?thesis using Cons by simp
  next
    case False
    then obtain st1 o1 m2 o2 where
        1: "(if thas (ls_key_calls st) a then Inr (st, []) else with_helper (send_data_req a) st) = Inr (st1, o1)"
      and 2: "fetch_args as (st1\<lparr>ls_key_calls := tmod [] (ins (ls_call_id st1)) a (ls_key_calls st1)\<rparr>) = Inr (m2, st', o2)"
      and 3: "out = o1 @ o2"
      using Cons.prems by (auto simp: bindE_Inr_iff)
    have b1: "booking e st st1 o1"
      using 1 with_helper_booking booking.refl by (auto split: if_splits)
    have "booking e st1 st' o2"
      using Cons.IH [OF 2] by (rule booking_state_cong(2)) simp
    then show ?thesis using booking.trans [OF b1] 3 by simp
  qed
qed

lemma handle_call_item_booking:
  assumes "handle_call_item cfg now msg i st = Inr (st', out)"
  shows "booking e st st' out"
proof -
  obtain f args flag where h: "nth_or VectorIndex (rv_func_name msg) i = Inr f" "nth_or VectorIndex (rv_func_args msg) i = Inr args"
      "nth_or VectorIndex (rv_is_func_arg_keys msg) i = Inr flag"
    using assms by (auto simp: handle_call_item_def bindE_Inr_iff)
  note e = assms [unfolded handle_call_item_def h, simplified, unfolded Let_def]
  show ?thesis
  proof (cases "flag > 0")
    case False
    then obtain st1 app cpu mem where
        "schedule_func_call cfg now (rv_session_id msg) app f args 0 cpu mem st = Inr (st1, out)" "ls_status st' = ls_status st1"
      using e by (auto simp: bindE_Inr_iff)
    then show ?thesis using booking_state_cong(1) [OF schedule_booking] by metis
  next
    case True
    obtain missing st1 o1 where 1: "fetch_args args st = Inr (missing, st1, o1)"
      using e True by (auto simp: bindE_Inr_iff)
    note b1 = fetch_args_booking [OF 1]
    show ?thesis
    proof (cases "missing = []")
      case False
      then have "ls_status st' = ls_status st1" "out = o1" using e True 1 by auto
      then show ?thesis using booking_state_cong(1) [OF b1] by simp
    next
      case m: True
      obtain st2 o2 app fa cpu mem where
          2: "schedule_func_call cfg now (rv_session_id msg) app f fa flag cpu mem st1 = Inr (st2, o2)"
          "ls_status st' = ls_status st2" "out = o1 @ o2"
        using e True 1 m by (auto simp: bindE_Inr_iff)
      show ?thesis
        using booking_state_cong(1) [OF booking.trans [OF b1 schedule_booking [OF 2(1)]] 2(2)] 2(3) by simp
    qed
  qed
qed

lemma handle_call_booking:
  assumes "handle_call cfg now msg st = Inr (st', out)"
  shows "booking e st st' out"
proof -
  have "booking e (st\<lparr>ls_session_addr := tput (rv_session_id msg) (rv_resp_address msg) (ls_session_addr st)\<rparr>) st' out"
    using assms unfolding handle_call_def by (rule booking.runE_effect) (rule handle_call_item_booking)
  then show ?thesis by (rule booking_state_cong(2)) simp
qed

lemma answer_waiting_booking: "answer_waiting body rs st = Inr (st', out) \<Longrightarrow> booking e st st' out"
  unfolding answer_waiting_def by (erule booking.runE_effect) (rule send_response_booking)

lemma answer_waiting_frame: "answer_waiting body rs st = Inr (st', out) \<Longrightarrow> st' = st"
  unfolding answer_waiting_def
  by (induction rs arbitrary: out)
     (auto simp: runE_Cons_Inr send_to_executer_def simp del: runE.simps(2) split: if_splits)

lemma wake_call_booking:
  assumes "wake_call cfg now key cid st = Inr (st', out)"
  shows "booking e st st' out"
proof -
  consider st0 st1 s app f args flag cpu mem where
      "schedule_func_call cfg now s app f args flag cpu mem st0 = Inr (st1, out)"
      "ls_status st0 = ls_status st" "ls_status st' = ls_status st1"
    | "ls_status st' = ls_status st" "out = []"
    using assms by (fastforce simp: wake_call_def Let_def bindE_Inr_iff split: if_splits)
  then show ?thesis
  proof cases
    case 1
    then show ?thesis
      using booking_state_cong(1) [OF booking_state_cong(2) [OF schedule_booking [OF 1(1)]]] by simp
  qed (auto intro: booking_quiet)
qed

lemma handle_data_resp_booking:
  assumes "handle_data_resp cfg now msg st = Inr (st', out)"
  shows "booking e st st' out"
proof -
  let ?key = "rv_data_key msg" and ?os = "ls_store st"
  let ?st = "st\<lparr>ls_store := ?os\<lparr>os_key_len := tput ?key (rv_data_size msg) (os_key_len ?os)\<rparr>\<rparr>"
  have "booking e ?st st' out"
    using assms unfolding handle_data_resp_def Let_def
  proof (rule booking.thenE_effect, goal_cases)
    case (1 st st1 out1)
    then obtain st2 where "answer_waiting [byte (ucast (rv_data_size msg))] (tget [] (ls_remote_gets st) ?key) st = Inr (st2, out1)"
        "ls_status st1 = ls_status st2"
      by (auto simp: bindE_Inr_iff)
    then show ?case using booking_state_cong(1) [OF answer_waiting_booking] by blast
  next
    case (2 st st1 out1)
    then obtain st2 where r: "runE (wake_call cfg now ?key) (tget [] (ls_key_calls st) ?key) st = Inr (st2, out1)"
        and s: "ls_status st1 = ls_status st2"
      by (auto simp: bindE_Inr_iff)
    have "booking e st st2 out1" using r by (rule booking.runE_effect) (rule wake_call_booking)
    then show ?case using s by (rule booking_state_cong(1))
  qed
  then show ?thesis by (rule booking_state_cong(2)) simp
qed

lemma handle_kvs_resp_booking:
  "handle_kvs_get_resp msg st = Inr (st', out) \<Longrightarrow> booking e st st' out"
  "handle_kvs_put_resp msg st = Inr (st', out) \<Longrightarrow> booking e st st' out"
proof -
  show "booking e st st' out" if h: "handle_kvs_get_resp msg st = Inr (st', out)"
  proof -
    obtain body rs st1 st2 where a: "answer_waiting body rs st1 = Inr (st2, out)" "ls_status st1 = ls_status st"
        "ls_status st' = ls_status st2"
      using h by (auto simp: handle_kvs_get_resp_def Let_def bindE_Inr_iff)
    then show ?thesis
      using booking_state_cong(1) [OF booking_state_cong(2) [OF answer_waiting_booking [OF a(1)]]] by simp
  qed
  show "booking e st st' out" if h: "handle_kvs_put_resp msg st = Inr (st', out)"
  proof -
    obtain rs st2 where a: "answer_waiting [] rs st = Inr (st2, out)" "ls_status st' = ls_status st2"
      using h by (auto simp: handle_kvs_put_resp_def Let_def bindE_Inr_iff)
    then show ?thesis using booking_state_cong(1) [OF answer_waiting_booking [OF a(1)]] by simp
  qed
qed

lemma handle_recv_msg_booking: "handle_recv_msg cfg now msg st = Inr (st', out) \<Longrightarrow> booking e st st' out"
  using handle_call_booking handle_data_resp_booking handle_kvs_resp_booking booking.refl
  by (auto simp: handle_recv_msg_def split: recv_msg_type.splits)

lemma receive_part_booking:
  assumes "receive_part cfg ck p st = Inr (st', out)"
  shows "booking e st st' out"
proof -
  obtain v h os msgs sent out1 where
      r: "runE (handle_recv_msg cfg (ck_now ck)) msgs (st\<lparr>ls_helper := h, ls_view := v, ls_store := os\<rparr>) = Inr (st', out1)"
    and o: "out = map (\<lambda>(a, m). ToNet a m) sent @ out1"
    using assms by (auto simp: receive_part_def bindE_Inr_iff)
  have b: "booking e (st\<lparr>ls_helper := h, ls_view := v, ls_store := os\<rparr>) st' out1"
    using r by (rule booking.runE_effect) (rule handle_recv_msg_booking)
  then show ?thesis using o by (simp add: booking_def)
qed

lemma drain_delayed_booking: "drain_delayed cfg now n st = Inr (st', out) \<Longrightarrow> booking e st st' out"
proof (induction n arbitrary: st out)
  case 0
  then show ?case by (simp add: booking.refl)
next
  case (Suc n)
  show ?case
  proof (cases "ls_delay_queue st")
    case Nil
    then show ?thesis using Suc.prems by (simp add: booking.refl)
  next
    case (Cons c cs)
    then obtain st1 o1 o2 where 1: "schedule_delayed cfg now c st = Inr (st1, o1)"
        and 2: "drain_delayed cfg now n (st1\<lparr>ls_delay_queue := tl (ls_delay_queue st1)\<rparr>) = Inr (st', o2)" "out = o1 @ o2"
      using Suc.prems by (auto simp: bindE_Inr_iff)
    have "booking e st1 st' o2" using Suc.IH [OF 2(1)] by (rule booking_state_cong(2)) simp
    then show ?thesis
      using booking.trans [OF schedule_booking [OF 1 [unfolded schedule_delayed_def]]] 2(2) by simp
  qed
qed

lemma expire_delayed_booking: "expire_delayed cfg now cs st = Inr (st', out) \<Longrightarrow> booking e st st' out"
proof (induction cs arbitrary: st out)
  case Nil
  then show ?case by (auto intro: booking_quiet)
next
  case (Cons c cs)
  show ?case
  proof (cases "micros (now - dc_time c) > uint (lc_delay cfg)")
    case True
    then obtain st1 o1 o2 where 1: "(if lc_reject cfg then Inr (st, [])
            else forward_call_via_helper (dc_session c) (dc_app c) [dc_func c] [dc_args c] (dc_flag c) st) = Inr (st1, o1)"
        and 2: "expire_delayed cfg now cs st1 = Inr (st', o2)" "out = o1 @ o2"
      using Cons.prems by (auto simp: bindE_Inr_iff)
    have "booking e st st1 o1" using 1 forward_booking booking.refl by (auto split: if_splits)
    then show ?thesis using booking.trans Cons.IH [OF 2(1)] 2(2) by simp
  next
    case False
    then show ?thesis using Cons.prems by (auto intro: booking_quiet)
  qed
qed

lemma handle_delayed_booking:
  assumes "handle_delayed cfg now st = Inr (st', out)"
  shows "booking e st st' out"
proof (cases "ls_delay_queue st = []")
  case True
  then show ?thesis using assms by (simp add: handle_delayed_def booking.refl)
next
  case False
  then have "thenE (drain_delayed cfg now (get_avail_executor_num (ls_status st)))
      (\<lambda>st1. expire_delayed cfg now (ls_delay_queue st1) st1) st = Inr (st', out)"
    using assms by (simp add: handle_delayed_def)
  then show ?thesis by (rule booking.thenE_effect) (auto intro: drain_delayed_booking expire_delayed_booking)
qed

lemma rerun_one_booking:
  assumes "rerun_one cfg now item st = Inr (st', out)"
  shows "booking e st st' out"
proof -
  obtain st1 where r: "runE (\<lambda>m st. schedule_func_call cfg now (ri_session item) (tget [] (nv_func_app (ls_view st)) (tfm_func_name m))
        (tfm_func_name m) (tfm_func_args m) (tfm_arg_flag m) 0 0 st)
        (action_for_rerun (ri_session item) (nv_heap (ls_view st) ! ri_trigger item)) st = Inr (st1, out)"
      and s: "ls_status st' = ls_status st1"
    using assms by (auto simp: rerun_one_def bindE_Inr_iff)
  have "booking e st st1 out" using r by (rule booking.runE_effect) (rule schedule_booking)
  then show ?thesis using s by (rule booking_state_cong(1))
qed

lemma rerun_loop_booking:
  assumes "rerun_loop cfg report_end now st = Some r"
  shows "\<forall>st' out. r = Inr (st', out) \<longrightarrow> booking e st st' out"
proof (rule rerun_loop.raw_induct [OF _ assms,
    where P = "\<lambda>cfg report_end now st r. \<forall>st' out. r = Inr (st', out) \<longrightarrow> booking e st st' out"], intro allI impI)
  fix loop :: "'a sched_config \<Rightarrow> time_point \<Rightarrow> time_point \<Rightarrow> sched_state \<Rightarrow> sched_result option"
    and cfg report_end now st r st' out
  assume ih: "\<And>cfg report_end now st r. loop cfg report_end now st = Some r \<Longrightarrow>
      (\<forall>st' out. r = Inr (st', out) \<longrightarrow> booking e st st' out)"
    and body: "(case ls_rerun_queue st of
        [] \<Rightarrow> Some (Inr (st, []))
      | item # _ \<Rightarrow>
          if ri_check_time item > report_end then Some (Inr (st, []))
          else (case rerun_one cfg now item st of
                  Inl e \<Rightarrow> Some (Inl e)
                | Inr (st1, out1) \<Rightarrow>
                    Option.bind (loop cfg report_end now st1)
                      (\<lambda>r. Some (bindE r (\<lambda>(st2, out2). Inr (st2, out1 @ out2)))))) = Some r"
    and r: "r = Inr (st', out)"
  show "booking e st st' out"
  proof (cases "\<exists>item q. ls_rerun_queue st = item # q \<and> ri_check_time item \<le> report_end")
    case False
    then have "st' = st" "out = []"
      using body r by (auto split: list.splits if_splits)
    then show ?thesis by (simp add: booking.refl)
  next
    case True
    then obtain item st1 o1 r1 o2 where a: "rerun_one cfg now item st = Inr (st1, o1)" "loop cfg report_end now st1 = Some r1"
        "r1 = Inr (st', o2)" "out = o1 @ o2"
      using body r by (auto split: sum.splits simp: bind_eq_Some_conv bindE_Inr_iff)
    have "booking e st1 st' o2" using ih [OF a(2)] a(3) by blast
    then show ?thesis
      using booking.trans [OF rerun_one_booking [OF a(1)]] a(4) by simp
  qed
qed

lemma periodic_part_booking:
  assumes "periodic_part cfg ck st = Inr (st', out)"
  shows "booking e st st' out"
proof (cases "millis (ck_report_end ck - ls_report_start st) \<ge> schedTimerThreshold")
  case True
  then obtain st1 o1 sent where 1: "rerun_check cfg (ck_report_end ck) (ck_rerun ck) st = Inr (st1, o1)"
      and 2: "ls_status st' = ls_status st1" "out = o1 @ map (\<lambda>(a, m). ToNet a m) sent"
    using assms by (auto simp: periodic_part_def bindE_Inr_iff)
  have "booking e st st1 o1"
    using 1 rerun_loop_booking [of cfg "ck_report_end ck" "ck_rerun ck" st]
    by (auto simp: rerun_check_def split: option.splits)
  then show ?thesis using 2 by (simp add: booking_def)
next
  case False
  then show ?thesis using assms by (simp add: periodic_part_def booking.refl)
qed

section \<open>Rounds\<close>

definition says :: "u8 \<Rightarrow> u8 \<Rightarrow> string option \<Rightarrow> bool" where
  "says ty e msg \<longleftrightarrow> (\<exists>str. msg = Some str \<and> byte_at str 0 = Inr (e + 1) \<and> byte_at str 1 = Inr ty)"

lemma handle_executor_msg_booking:
  assumes "handle_executor_msg cfg now str st = Inr (st', out)" and "\<not> says 6 e (Some str)" and "\<not> says 7 e (Some str)"
  shows "booking e st st' out"
proof -
  obtain a ty where h: "byte_at str 0 = Inr a" "byte_at str 1 = Inr ty"
    using assms(1) by (auto simp: handle_executor_msg_def bindE_Inr_iff)
  have ne: "e \<noteq> a - 1" if "ty = 6 \<or> ty = 7"
    using assms(2,3) h that by (auto simp: says_def)
  have st: "booking e st (executor_busy x st) []" "booking e st (executor_available x st) []" if "e \<noteq> x" for x
    using that by (auto simp: booking_def executor_busy_def executor_available_def Let_def)
  show ?thesis
    using assms(1) h ne st handle_get_request_booking handle_send_object_booking booking.refl
    by (auto simp: handle_executor_msg_def Let_def split: if_splits)
qed

lemma rest_of_round_booking:
  "thenE (receive_part cfg ck p) (thenE (handle_delayed cfg (ck_now ck)) (periodic_part cfg ck)) st = Inr (st', out) \<Longrightarrow> booking e st st' out"
  by (erule booking.thenE_effect)
     (auto intro: receive_part_booking handle_delayed_booking periodic_part_booking elim!: booking.thenE_effect)

lemma sched_round_split:
  assumes "sched_round cfg ck msg p st = Inr (st', out)"
  obtains st1 o1 o2 where "(case msg of None \<Rightarrow> Inr (st, []) | Some str \<Rightarrow> handle_executor_msg cfg (ck_now ck) str st) = Inr (st1, o1)"
    and "booking e st1 st' o2" and "out = o1 @ o2"
proof -
  let ?f = "case msg of None \<Rightarrow> (\<lambda>st. Inr (st, [])) | Some str \<Rightarrow> handle_executor_msg cfg (ck_now ck) str"
  obtain st1 o1 o2 where s: "?f st = Inr (st1, o1)" "out = o1 @ o2"
      "thenE (receive_part cfg ck p) (thenE (handle_delayed cfg (ck_now ck)) (periodic_part cfg ck)) st1 = Inr (st', o2)"
    using assms unfolding sched_round_def thenE_def [of ?f] by (auto simp: bindE_Inr_iff)
  show thesis
    using that [OF _ rest_of_round_booking [OF s(3)] s(2)] s(1) by (cases msg) simp_all
qed

text \<open>A round without an availability message of \<open>e\<close> never makes it idle, and calls it only when it is.\<close>

lemma round_without_available:
  assumes "sched_round cfg ck msg p st = Inr (st', out)" and "\<not> says 7 e msg" and "tbl_ok (ls_status st)"
  shows "tbl_ok (ls_status st') \<and> calls_to e out \<le> 1 \<and> (calls_to e out = 1 \<longrightarrow> idle (exec_status st e))
    \<and> (calls_to e out = 1 \<or> \<not> idle (exec_status st e) \<longrightarrow> \<not> idle (exec_status st' e))"
proof -
  obtain st1 o1 o2 where m: "(case msg of None \<Rightarrow> Inr (st, []) | Some str \<Rightarrow> handle_executor_msg cfg (ck_now ck) str st) = Inr (st1, o1)"
      and b2: "booking e st1 st' o2" and o: "out = o1 @ o2"
    using sched_round_split [OF assms(1)] by blast
  show ?thesis
  proof (cases "says 6 e msg")
    case True
    then have "st1 = executor_busy e st" "o1 = []"
      using m by (auto simp: says_def handle_executor_msg_def Let_def)
    then show ?thesis
      using b2 o assms(3) by (auto simp: booking_def executor_busy_def)
  next
    case False
    have "booking e st st1 o1"
      using m False assms(2) handle_executor_msg_booking booking.refl by (auto split: option.splits)
    then have "booking e st st' out" using booking.trans [OF _ b2] o by simp
    then show ?thesis using assms(3) by (auto simp: booking_def)
  qed
qed

lemma round_with_available:
  assumes "sched_round cfg ck msg p st = Inr (st', out)" and "says 7 e msg" and "tbl_ok (ls_status st)"
  shows "tbl_ok (ls_status st') \<and> calls_to e out \<le> 1 \<and> (calls_to e out = 1 \<longrightarrow> \<not> idle (exec_status st' e))"
proof -
  obtain st1 o1 o2 where m: "(case msg of None \<Rightarrow> Inr (st, []) | Some str \<Rightarrow> handle_executor_msg cfg (ck_now ck) str st) = Inr (st1, o1)"
      and b2: "booking e st1 st' o2" and o: "out = o1 @ o2"
    using sched_round_split [OF assms(1)] by blast
  have "st1 = executor_available e st" "o1 = []"
    using m assms(2) by (auto simp: says_def handle_executor_msg_def Let_def)
  then show ?thesis
    using b2 o assms(3) by (auto simp: booking_def executor_available_def Let_def)
qed

end
