(* ===== verification/Sched_Trace.thy ===== *)
theory Sched_Trace
  imports Sched_Props
begin

text \<open>
  Runs of the local scheduler: sequences of iterations of its main loop, each with its clock
  readings, the message of an executor and the contents of the sockets. An executor receives at
  most one call per iteration, and between two calls it has announced that it is available.
\<close>

section \<open>Runs\<close>

type_synonym 'w round_input = "clock \<times> string option \<times> 'w comm_poll"

fun sched_rounds :: "'w sched_config \<Rightarrow> 'w round_input list \<Rightarrow> sched_state \<Rightarrow> cpp_error + (sched_state \<times> sched_out list list)" where
  "sched_rounds cfg [] st = Inr (st, [])"
| "sched_rounds cfg ((ck, msg, p) # inputs) st =
     bindE (sched_round cfg ck msg p st) (\<lambda>(st1, out).
     bindE (sched_rounds cfg inputs st1) (\<lambda>(st2, outs). Inr (st2, out # outs)))"

abbreviation msg_of :: "'w round_input \<Rightarrow> string option" where
  "msg_of i \<equiv> fst (snd i)"

lemma sched_rounds_Cons:
  assumes "sched_rounds cfg (i # inputs) st = Inr (st', outs)"
  obtains st1 out rest where "sched_round cfg (fst i) (msg_of i) (snd (snd i)) st = Inr (st1, out)"
    and "sched_rounds cfg inputs st1 = Inr (st', rest)" and "outs = out # rest"
  using assms by (cases i) (auto simp: bindE_Inr_iff)

lemma sched_rounds_length: "sched_rounds cfg inputs st = Inr (st', outs) \<Longrightarrow> length outs = length inputs"
  by (induction inputs arbitrary: st outs) (auto elim!: sched_rounds_Cons)

text \<open>One iteration, whatever the executor said.\<close>

lemma round_calls:
  assumes "sched_round cfg ck msg p st = Inr (st', out)" and "tbl_ok (ls_status st)"
  shows "tbl_ok (ls_status st')" and "calls_to e out \<le> 1" and "calls_to e out > 0 \<Longrightarrow> \<not> idle (exec_status st' e)"
  using round_without_available [OF assms(1) _ assms(2), of e] round_with_available [OF assms(1) _ assms(2), of e]
  by (cases "says 7 e msg"; force)+

lemma rounds_from_not_idle:
  "sched_rounds cfg inputs st = Inr (st', outs) \<Longrightarrow> tbl_ok (ls_status st) \<Longrightarrow> \<not> idle (exec_status st e)
   \<Longrightarrow> j < length outs \<Longrightarrow> calls_to e (outs ! j) > 0 \<Longrightarrow> \<exists>k \<le> j. says 7 e (msg_of (inputs ! k))"
proof (induction inputs arbitrary: st outs j)
  case Nil
  then show ?case by simp
next
  case (Cons i inputs)
  obtain st1 out rest where s: "sched_round cfg (fst i) (msg_of i) (snd (snd i)) st = Inr (st1, out)"
      "sched_rounds cfg inputs st1 = Inr (st', rest)" "outs = out # rest"
    using sched_rounds_Cons [OF Cons.prems(1)] by blast
  show ?case
  proof (cases "says 7 e (msg_of i)")
    case True
    then show ?thesis by (intro exI [of _ 0]) simp
  next
    case False
    note r = round_without_available [OF s(1) False Cons.prems(2)]
    then have "j \<noteq> 0" using Cons.prems s(3) by (cases j) auto
    then obtain k where "k \<le> j - 1" "says 7 e (msg_of (inputs ! k))"
      using Cons.IH [OF s(2), of "j - 1"] r Cons.prems s(3) by (cases j) auto
    then show ?thesis using \<open>j \<noteq> 0\<close> by (intro exI [of _ "Suc k"]) simp
  qed
qed

lemma rounds_between_calls:
  "sched_rounds cfg inputs st = Inr (st', outs) \<Longrightarrow> tbl_ok (ls_status st)
   \<Longrightarrow> i < j \<Longrightarrow> j < length outs \<Longrightarrow> calls_to e (outs ! i) > 0 \<Longrightarrow> calls_to e (outs ! j) > 0
   \<Longrightarrow> \<exists>k > i. k \<le> j \<and> says 7 e (msg_of (inputs ! k))"
proof (induction inputs arbitrary: st outs i j)
  case Nil
  then show ?case by simp
next
  case (Cons x inputs)
  obtain st1 out rest where s: "sched_round cfg (fst x) (msg_of x) (snd (snd x)) st = Inr (st1, out)"
      "sched_rounds cfg inputs st1 = Inr (st', rest)" "outs = out # rest"
    using sched_rounds_Cons [OF Cons.prems(1)] by blast
  note r = round_calls [OF s(1) Cons.prems(2)]
  obtain j' where j: "j = Suc j'" using Cons.prems(3) by (cases j) auto
  have "\<exists>k \<ge> i. k \<le> j' \<and> says 7 e (msg_of (inputs ! k))"
  proof (cases i)
    case 0
    then show ?thesis
      using rounds_from_not_idle [OF s(2) r(1), of e j'] r(3) Cons.prems s(3) j by simp
  next
    case (Suc i')
    then show ?thesis
      using Cons.IH [OF s(2) r(1), of i' j'] Cons.prems s(3) j by (auto intro: Suc_leI)
  qed
  then obtain k where "k \<ge> i" "k \<le> j'" "says 7 e (msg_of (inputs ! k))" by blast
  then show ?case using j by (intro exI [of _ "Suc k"]) simp
qed

lemma rounds_at_most_one:
  "sched_rounds cfg inputs st = Inr (st', outs) \<Longrightarrow> tbl_ok (ls_status st) \<Longrightarrow> j < length outs \<Longrightarrow> calls_to e (outs ! j) \<le> 1"
proof (induction inputs arbitrary: st outs j)
  case Nil
  then show ?case by simp
next
  case (Cons i inputs)
  obtain st1 out rest where s: "sched_round cfg (fst i) (msg_of i) (snd (snd i)) st = Inr (st1, out)"
      "sched_rounds cfg inputs st1 = Inr (st', rest)" "outs = out # rest"
    using sched_rounds_Cons [OF Cons.prems(1)] by blast
  note r = round_calls [OF s(1) Cons.prems(2)]
  show ?case using Cons.IH [OF s(2) r(1)] Cons.prems(3) r(2) s(3) by (cases j) auto
qed

section \<open>The discipline of the executors\<close>

lemma init_status:
  assumes "n \<le> 256"
  shows "tbl_ok (ls_status (sched_init n h seed now))" and "\<not> idle (exec_status (sched_init n h seed now) e)"
proof -
  have "inj_on (of_nat :: nat \<Rightarrow> u8) (set [0..<n])"
    using assms by (intro inj_onI) (simp add: word_unat_eq_iff unat_of_nat take_bit_nat_eq_self)
  then show "tbl_ok (ls_status (sched_init n h seed now))"
    by (simp add: sched_init_def tbl_ok_def Let_def comp_def distinct_map)
  have "exec_status (sched_init n h seed now) e = Some 2 \<or> exec_status (sched_init n h seed now) e = None"
    by (cases "exec_status (sched_init n h seed now) e") (auto simp: sched_init_def Let_def dest!: map_of_SomeD)
  then show "\<not> idle (exec_status (sched_init n h seed now) e)"
    by (auto simp: idle_def)
qed

text \<open>
  C1. The local scheduler calls an executor only after it has announced itself. In every run
  from its initial state, with up to 256 executors, an iteration sends an executor at most one
  call; before the first call and between any two calls the executor has announced that it is
  available, in an iteration after the earlier call and not after the later one.
\<close>

theorem calls_separated_by_available:
  assumes "sched_rounds cfg inputs (sched_init n h seed now) = Inr (st', outs)" and "n \<le> 256"
    and "j < length outs" and "calls_to e (outs ! j) > 0"
  shows "calls_to e (outs ! j) = 1
    \<and> (\<exists>k \<le> j. says 7 e (msg_of (inputs ! k)))
    \<and> (\<forall>i < j. calls_to e (outs ! i) > 0 \<longrightarrow> (\<exists>k > i. k \<le> j \<and> says 7 e (msg_of (inputs ! k))))"
proof -
  note st = init_status [OF assms(2)]
  have "calls_to e (outs ! j) = 1"
    using rounds_at_most_one [OF assms(1) st(1) assms(3), of e] assms(4) by simp
  moreover have "\<exists>k \<le> j. says 7 e (msg_of (inputs ! k))"
    by (rule rounds_from_not_idle [OF assms(1) st(1) st(2) assms(3,4)])
  ultimately show ?thesis
    using rounds_between_calls [OF assms(1) st(1) _ assms(3) _ assms(4)] by blast
qed

text \<open>Two calls of the same function for the only executor, which announces itself before each.\<close>

definition node_env :: comm_env where
  "node_env = \<lparr>cn_rand = (\<lambda>s. (unat s, s + 1)), cn_ser_lww = lwwv_value,
     cn_par_lww = (\<lambda>s. \<lparr>lwwv_timestamp = 0, lwwv_value = s\<rparr>)\<rparr>"

definition node_config :: "prim_wire sched_config" where
  "node_config = \<lparr>lc_delay = 0, lc_shared = True, lc_reject = False, lc_codec = wire_codec, lc_env = node_env\<rparr>"

definition node_helper :: comm_helper where
  "node_helper = comm_helper_init [] ''10.0.0.2'' 1 [kvs_client_init [] ''10.0.0.2'' 0 10000 1]"

definition quiet_poll :: "'w comm_poll" where
  "quiet_poll = \<lparr>cp_update = None, cp_call = None, cp_data_request = None, cp_data_response = None,
     cp_kvs_address = None, cp_kvs_response = None\<rparr>"

definition call_poll :: "'w comm_poll" where
  "call_poll = quiet_poll\<lparr>cp_call := Some (empty_call\<lparr>fc_app_name := ''app'', fc_session_id := ''s1'',
     fc_requests := [empty_request\<lparr>fr_name := ''f''\<rparr>]\<rparr>)\<rparr>"

definition early :: clock where
  "early = \<lparr>ck_now = 0, ck_report_end = 0, ck_rerun = 0\<rparr>"

lemmas node_defs = node_env_def node_config_def node_helper_def quiet_poll_def call_poll_def early_def
  comm_helper_init_def kvs_client_init_def empty_msg_defs

definition ready_node :: "sched_state \<Rightarrow> bool" where
  "ready_node st \<longleftrightarrow> ch_kvs (ls_helper st) = [kvs_client_init [] ''10.0.0.2'' 0 10000 1] \<and> ch_resp_queues (ls_helper st) = []
     \<and> ls_channels st = [0] \<and> ls_status st = [(0, 2)] \<and> ls_delay_queue st = [] \<and> ls_report_start st = 0
     \<and> ls_view st = empty_view"

lemma ready_node_init: "ready_node (sched_init 1 node_helper 0 0)"
  by (simp add: ready_node_def sched_init_def node_defs Let_def)

lemma ready_receive:
  assumes "ready_node (st\<lparr>ls_status := [(0, 2)]\<rparr>)"
  obtains h where "try_recv_msg wire_codec node_env 0 call_poll (ls_helper st) (ls_view st) (ls_store st)
      = Inr (empty_view, h, ls_store st, [empty_recv_msg\<lparr>rv_msg_type := Call, rv_app_name := ''app'', rv_session_id := ''s1'',
          rv_func_name := [''f''], rv_func_args := [[]], rv_is_func_arg_keys := [0], rv_cpu_cores := [0], rv_memory_mb := [0]\<rparr>], [])"
    and "ch_kvs h = ch_kvs (ls_helper st)" and "ch_resp_queues h = []"
proof -
  have "receive_async (cn_rand node_env) 0 None None (kvs_client_init [] ''10.0.0.2'' 0 10000 1)
      = Inr (kvs_client_init [] ''10.0.0.2'' 0 10000 1, [], [])"
    by (simp add: receive_async_def gc_requests_def gc_gets_def gc_puts_def kvs_client_init_def Let_def)
  then show thesis
    using assms that
    by (simp add: try_recv_msg_def recv_opt_def recv_call_def handle_function_call_def recv_kvs_def get_kvs_responses_def
      drain_resp_queues_def ready_node_def request_flag_def nth_or_def node_defs Let_def empty_recv_msg_def)
qed

lemma ready_round:
  assumes "ready_node st"
  obtains st' out where "sched_round node_config early (Some [byte 1, byte 7]) call_poll st = Inr (st', out)"
    and "calls_to 0 out = 1" and "ready_node st'"
proof -
  let ?st1 = "st\<lparr>ls_status := [(0, 0)]\<rparr>"
  have 1: "handle_executor_msg node_config 0 [byte 1, byte 7] st = Inr (?st1, [])"
    using assms by (simp add: handle_executor_msg_def executor_available_def ready_node_def tget_def Let_def)
  obtain h where r: "try_recv_msg wire_codec node_env 0 call_poll (ls_helper ?st1) (ls_view ?st1) (ls_store ?st1)
      = Inr (empty_view, h, ls_store ?st1, [empty_recv_msg\<lparr>rv_msg_type := Call, rv_app_name := ''app'', rv_session_id := ''s1'',
          rv_func_name := [''f''], rv_func_args := [[]], rv_is_func_arg_keys := [0], rv_cpu_cores := [0], rv_memory_mb := [0]\<rparr>], [])"
      "ch_kvs h = ch_kvs (ls_helper ?st1)" "ch_resp_queues h = []"
    using ready_receive [of ?st1] assms by (auto simp: ready_node_def)
  obtain st2 out where 2: "receive_part node_config early call_poll ?st1 = Inr (st2, out)" "calls_to 0 out = 1" "ready_node st2"
    using assms r that
    by (simp add: receive_part_def node_config_def early_def handle_recv_msg_def handle_call_def handle_call_item_def
      nth_or_def empty_recv_msg_def schedule_func_call_def pick_executor_def node_env_def ready_node_def run_on_executor_def
      send_to_executer_def Let_def empty_view_def calls_to_def is_call_def call_message_def)
  then have "sched_round node_config early (Some [byte 1, byte 7]) call_poll st = Inr (st2, out)"
    using 1 by (simp add: sched_round_def thenE_def handle_delayed_def periodic_part_def ready_node_def early_def
      millis_def tdiv_def schedTimerThreshold_def)
  then show thesis using 2 that by blast
qed

theorem calls_separated_by_available_witness:
  "\<exists>st' outs. sched_rounds node_config
       [(early, Some [byte 1, byte 7], call_poll), (early, Some [byte 1, byte 7], call_poll)]
       (sched_init 1 node_helper 0 0) = Inr (st', outs)
     \<and> calls_to 0 (outs ! 0) = 1 \<and> calls_to 0 (outs ! 1) = 1
     \<and> (\<exists>k > 0. k \<le> 1 \<and> says 7 0 (msg_of
          ([(early, Some [byte 1, byte 7], call_poll), (early, Some [byte 1, byte 7], call_poll :: prim_wire comm_poll)] ! k)))"
proof -
  obtain st1 o1 where 1: "sched_round node_config early (Some [byte 1, byte 7]) call_poll (sched_init 1 node_helper 0 0) = Inr (st1, o1)"
      "calls_to 0 o1 = 1" "ready_node st1"
    using ready_round [OF ready_node_init] by blast
  obtain st2 o2 where 2: "sched_round node_config early (Some [byte 1, byte 7]) call_poll st1 = Inr (st2, o2)" "calls_to 0 o2 = 1"
    using ready_round [OF 1(3)] by blast
  have r: "sched_rounds node_config [(early, Some [byte 1, byte 7], call_poll), (early, Some [byte 1, byte 7], call_poll)]
      (sched_init 1 node_helper 0 0) = Inr (st2, [o1, o2])"
    using 1 2 by simp
  show ?thesis
    using calls_separated_by_available [OF r, of 1 0] 1(2) 2(2) r by auto
qed

section \<open>The table of executors\<close>

text \<open>The table lists the executors of the node, each in one of the four states of the code.\<close>

definition entry_typed :: "nat \<Rightarrow> u8 \<Rightarrow> u8 option \<Rightarrow> bool" where
  "entry_typed n e s0 = (case s0 of None \<Rightarrow> n \<le> unat e | Some s \<Rightarrow> unat e < n \<and> s \<in> {0, 1, 2, 3})"

definition status_typed :: "nat \<Rightarrow> sched_state \<Rightarrow> bool" where
  "status_typed n st \<longleftrightarrow> tbl_ok (ls_status st) \<and> (\<forall>e. entry_typed n e (exec_status st e))"

definition known_sender :: "nat \<Rightarrow> string option \<Rightarrow> bool" where
  "known_sender n msg \<longleftrightarrow> (\<forall>str a. msg = Some str \<longrightarrow> byte_at str 0 = Inr a \<longrightarrow> unat (a - 1) < n)"

lemma booking_typed:
  assumes "booking e st st' out" and "tbl_ok (ls_status st)" and "entry_typed n e (exec_status st e)"
  shows "entry_typed n e (exec_status st' e)" and "0 < calls_to e out \<Longrightarrow> unat e < n"
  using assms by (auto simp: booking_def entry_typed_def idle_def split: option.splits)

lemma executor_msg_typed:
  assumes "handle_executor_msg cfg now str st = Inr (st', out)" and "known_sender n (Some str)"
    and "tbl_ok (ls_status st)" and "entry_typed n e (exec_status st e)"
  shows "entry_typed n e (exec_status st' e) \<and> tbl_ok (ls_status st') \<and> (0 < calls_to e out \<longrightarrow> unat e < n)"
proof (cases "says 6 e (Some str) \<or> says 7 e (Some str)")
  case True
  then have "unat e < n" using assms(2) by (auto simp: known_sender_def says_def)
  moreover have "st' = executor_busy e st \<or> st' = executor_available e st" "out = []"
    using True assms(1) by (auto simp: says_def handle_executor_msg_def Let_def)
  ultimately show ?thesis
    using assms(3) by (auto simp: executor_busy_def executor_available_def entry_typed_def Let_def)
next
  case False
  then have b: "booking e st st' out" using handle_executor_msg_booking [OF assms(1)] by blast
  then show ?thesis using booking_typed [OF b assms(3,4)] assms(3) by (auto simp: booking_def)
qed

lemma round_typed:
  assumes "sched_round cfg ck msg p st = Inr (st', out)" and "known_sender n msg" and "status_typed n st"
  shows "status_typed n st' \<and> (0 < calls_to e out \<longrightarrow> unat e < n)"
proof -
  have ok: "tbl_ok (ls_status st)" and ty: "entry_typed n e (exec_status st e)" for e
    using assms(3) by (auto simp: status_typed_def)
  have "entry_typed n e (exec_status st' e) \<and> tbl_ok (ls_status st') \<and> (0 < calls_to e out \<longrightarrow> unat e < n)" for e
  proof -
    obtain st1 o1 o2 where m: "(case msg of None \<Rightarrow> Inr (st, []) | Some str \<Rightarrow> handle_executor_msg cfg (ck_now ck) str st) = Inr (st1, o1)"
        and b: "booking e st1 st' o2" and o: "out = o1 @ o2"
      using sched_round_split [OF assms(1)] by blast
    have "entry_typed n e (exec_status st1 e) \<and> tbl_ok (ls_status st1) \<and> (0 < calls_to e o1 \<longrightarrow> unat e < n)"
      using m ok ty [of e] assms(2) executor_msg_typed [of cfg "ck_now ck" _ st st1 o1 n e] by (cases msg) auto
    then show ?thesis using booking_typed [OF b] b o by (auto simp: booking_def)
  qed
  then show ?thesis by (auto simp: status_typed_def)
qed

lemma rounds_typed:
  "sched_rounds cfg inputs st = Inr (st', outs) \<Longrightarrow> status_typed n st \<Longrightarrow> list_all (\<lambda>i. known_sender n (msg_of i)) inputs
   \<Longrightarrow> status_typed n st' \<and> (\<forall>out \<in> set outs. 0 < calls_to e out \<longrightarrow> unat e < n)"
proof (induction inputs arbitrary: st outs)
  case (Cons i inputs)
  obtain st1 out rest where s: "sched_round cfg (fst i) (msg_of i) (snd (snd i)) st = Inr (st1, out)"
      "sched_rounds cfg inputs st1 = Inr (st', rest)" "outs = out # rest"
    using sched_rounds_Cons [OF Cons.prems(1)] by blast
  have "status_typed n st1 \<and> (0 < calls_to e out \<longrightarrow> unat e < n)" using round_typed [OF s(1) _ Cons.prems(2)] Cons.prems(3) by simp
  then show ?case using Cons.IH [OF s(2)] Cons.prems(3) s(3) by auto
qed simp

lemma init_typed: "n \<le> 256 \<Longrightarrow> status_typed n (sched_init n h seed now)"
proof -
  assume n: "n \<le> 256"
  have "exec_status (sched_init n h seed now) e = (if unat e < n then Some 2 else None)" for e
  proof -
    have "e \<in> of_nat ` {0..<n} \<longleftrightarrow> unat e < n"
    proof
      assume "e \<in> of_nat ` {0..<n}"
      then show "unat e < n" using n by (auto simp: unat_of_nat take_bit_nat_eq_self)
    next
      assume "unat e < n"
      then show "e \<in> of_nat ` {0..<n}" by (intro image_eqI [of _ _ "unat e"]) simp_all
    qed
    moreover have m: "map_of (map (\<lambda>e. (e, 2 :: u8)) es) e = (if e \<in> set es then Some 2 else None)" for es
      by (induction es) auto
    have "exec_status (sched_init n h seed now) e = (if e \<in> set (map of_nat [0..<n]) then Some 2 else None)"
      by (simp only: sched_init_def Let_def sched_state.select_convs m)
    ultimately show ?thesis by simp
  qed
  then show ?thesis using init_status(1) [OF n] by (simp add: status_typed_def entry_typed_def)
qed

text \<open>
  C23. The scheduler's table of executors is well typed. In every run from the initial state with up to
  256 executors, in which messages come from executors of the node only, the table lists exactly the
  executors of the node, each once and in one of the four states empty, available, await and busy;
  and every call goes to one of them, so its channel exists.
\<close>

theorem executor_table_typed:
  assumes "sched_rounds cfg inputs (sched_init n h seed now) = Inr (st', outs)" and "n \<le> 256"
    and "list_all (\<lambda>i. known_sender n (msg_of i)) inputs"
  shows "distinct (map fst (ls_status st')) \<and> unat ` fst ` set (ls_status st') = {..<n} \<and> snd ` set (ls_status st') \<subseteq> {0, 1, 2, 3}
    \<and> (\<forall>out \<in> set outs. \<forall>e. 0 < calls_to e out \<longrightarrow> unat e < n)"
proof -
  have t: "status_typed n st'" and c: "\<forall>out \<in> set outs. 0 < calls_to e out \<longrightarrow> unat e < n" for e
    using rounds_typed [OF assms(1) init_typed [OF assms(2)] assms(3)] by auto
  have d: "distinct (map fst (ls_status st'))" using t by (simp add: status_typed_def tbl_ok_def)
  have e: "unat e < n \<and> s \<in> {0, 1, 2, 3}" if "(e, s) \<in> set (ls_status st')" for e s
    using t map_of_is_SomeI [OF d that] by (fastforce simp: status_typed_def entry_typed_def dest: spec [of _ e])
  have "i \<in> unat ` fst ` set (ls_status st')" if "i < n" for i
  proof -
    have u: "unat (of_nat i :: u8) = i" using that assms(2) by (simp add: unat_of_nat take_bit_nat_eq_self)
    have "entry_typed n (of_nat i) (exec_status st' (of_nat i))" using t by (simp add: status_typed_def)
    then have "exec_status st' (of_nat i) \<noteq> None" using u that by (cases "exec_status st' (of_nat i)") (simp_all add: entry_typed_def)
    then show ?thesis using u by (metis image_eqI map_of_eq_None_iff)
  qed
  then show ?thesis using d e c by fastforce
qed

theorem executor_table_typed_witness:
  "\<exists>st' outs. sched_rounds node_config [(early, Some [byte 1, byte 7], call_poll)] (sched_init 1 node_helper 0 0) = Inr (st', outs)
     \<and> unat ` fst ` set (ls_status st') = {..<1} \<and> snd ` set (ls_status st') \<subseteq> {0, 1, 2, 3}"
proof -
  obtain st1 o1 where 1: "sched_round node_config early (Some [byte 1, byte 7]) call_poll (sched_init 1 node_helper 0 0) = Inr (st1, o1)"
    using ready_round [OF ready_node_init] by blast
  then have r: "sched_rounds node_config [(early, Some [byte 1, byte 7], call_poll)] (sched_init 1 node_helper 0 0) = Inr (st1, [o1])" by simp
  show ?thesis using executor_table_typed [OF r] r by (auto simp: known_sender_def)
qed

end
