(* ===== verification/Sched_Rerun.thy ===== *)
theory Sched_Rerun
  imports Sched_Trace
begin

text \<open>
  The re-execution checks of the local scheduler end. A check that is due may start functions
  again, and each start queues new checks, but these lie after the end of the reporting period, so
  every iteration of the loop has one due check less.
\<close>

definition due :: "time_point \<Rightarrow> rerun_item \<Rightarrow> bool" where
  "due report_end x \<longleftrightarrow> ri_check_time x \<le> report_end"

text \<open>Due checks stay where they are: a due head stays the head, and no due check is added.\<close>

definition keeps_due :: "time_point \<Rightarrow> sched_state \<Rightarrow> sched_state \<Rightarrow> sched_out list \<Rightarrow> bool" where
  "keeps_due report_end st st' out \<longleftrightarrow>
     (\<forall>item q. ls_rerun_queue st = item # q \<longrightarrow> due report_end item \<longrightarrow>
        (\<exists>q'. ls_rerun_queue st' = item # q' \<and> filter (due report_end) q' = filter (due report_end) q))"

interpretation dues: step_effect "keeps_due report_end" for report_end
proof
  show "keeps_due report_end st st []" for st
    by (simp add: keeps_due_def)
  show "keeps_due report_end st st2 (out1 @ out2)"
    if "keeps_due report_end st st1 out1" "keeps_due report_end st1 st2 out2" for st st1 st2 out1 out2
    using that unfolding keeps_due_def by metis
qed

lemma keeps_due_same: "ls_rerun_queue st' = ls_rerun_queue st \<Longrightarrow> keeps_due report_end st st' out"
  by (simp add: keeps_due_def)

lemma filter_rerun_push: "\<not> due re x \<Longrightarrow> filter (due re) (rerun_push x q) = filter (due re) q"
  by (induction q) auto

lemma keeps_due_note:
  assumes "report_end < now"
  shows "keeps_due report_end st (note_rerun now f session args flag m st) out"
proof -
  let ?x = "\<lparr>ri_check_time = now + uint (rt_timeout m) * 1000000, ri_session = session, ri_trigger = rt_trigger m\<rparr>"
  have nd: "\<not> due report_end ?x" "report_end < ri_check_time ?x"
    using assms add_strict_increasing2 [of "uint (rt_timeout m) * 1000000" report_end now] by (auto simp: due_def add.commute)
  then have "rerun_push ?x (item # q) = item # rerun_push ?x q" if "due report_end item" for item q
    using that by (simp add: due_def)
  then show ?thesis
    using filter_rerun_push [OF nd(1)] by (simp add: keeps_due_def note_rerun_def Let_def)
qed

lemma keeps_due_notes:
  assumes "report_end < now"
  shows "keeps_due report_end st (fold (note_rerun now f session args flag) ms st) []"
proof (induction ms arbitrary: st)
  case Nil
  then show ?case by (simp add: dues.refl)
next
  case (Cons m ms)
  then show ?case using dues.trans [OF keeps_due_note [OF assms, of st f session args flag m "[]"]] by force
qed

lemma schedule_keeps_due:
  assumes "schedule_func_call cfg now session app f args flag cpu mem st = Inr (st', out)" and "report_end < now"
  shows "keeps_due report_end st st' out"
  using assms(1)
proof (cases rule: schedule_cases)
  case (run x st1)
  have q: "ls_rerun_queue st1 = ls_rerun_queue st"
    using run(1) by (auto simp: pick_executor_def Let_def case_prod_unfold split: option.splits if_splits)
  have st': "st' = fold (note_rerun now f session args flag) (tget [] (nv_func_timeout (ls_view st1)) f)
      (st1\<lparr>ls_status := tput x 2 (ls_status st1)\<rparr>)"
    using run(2) by (auto simp: run_on_executor_def send_to_executer_def bindE_Inr_iff split: if_splits)
  show ?thesis
    using keeps_due_notes [OF assms(2), of "st1\<lparr>ls_status := tput x 2 (ls_status st1)\<rparr>"] q
    unfolding st' by (simp add: keeps_due_def)
next
  case (forward fargs)
  then show ?thesis using forward_frame [OF forward] by (simp add: keeps_due_same)
qed (simp_all add: keeps_due_same)

lemma rerun_one_removes:
  assumes "rerun_one cfg now item st = Inr (st', out)" and "ls_rerun_queue st = item # q" and "due report_end item"
    and "report_end < now"
  shows "filter (due report_end) (ls_rerun_queue st') = filter (due report_end) q"
proof -
  obtain st1 where r: "runE (\<lambda>m st. schedule_func_call cfg now (ri_session item) (tget [] (nv_func_app (ls_view st)) (tfm_func_name m))
        (tfm_func_name m) (tfm_func_args m) (tfm_arg_flag m) 0 0 st)
        (action_for_rerun (ri_session item) (nv_heap (ls_view st) ! ri_trigger item)) st = Inr (st1, out)"
      and s: "ls_rerun_queue st' = tl (ls_rerun_queue st1)"
    using assms(1) by (auto simp: rerun_one_def bindE_Inr_iff)
  have "keeps_due report_end st st1 out"
    using r by (rule dues.runE_effect) (rule schedule_keeps_due [OF _ assms(4)])
  then show ?thesis using assms(2,3) s unfolding keeps_due_def by force
qed

definition no_due_head :: "time_point \<Rightarrow> sched_result \<Rightarrow> bool" where
  "no_due_head report_end r = (case r of Inl e \<Rightarrow> True | Inr (st, out) \<Rightarrow> ls_rerun_queue st = [] \<or> \<not> due report_end (hd (ls_rerun_queue st)))"

lemma rerun_loop_ends:
  assumes "report_end < now"
  shows "\<exists>r. rerun_loop cfg report_end now st = Some r \<and> no_due_head report_end r"
proof (induction "length (filter (due report_end) (ls_rerun_queue st))" arbitrary: st rule: less_induct)
  case less
  show ?case
  proof (cases "\<exists>item q. ls_rerun_queue st = item # q \<and> due report_end item")
    case False
    then have "rerun_loop cfg report_end now st = Some (Inr (st, []))"
      by (subst rerun_loop.simps) (auto simp: due_def split: list.splits)
    then show ?thesis using False by (cases "ls_rerun_queue st") (auto simp: no_due_head_def)
  next
    case True
    then obtain item q where q: "ls_rerun_queue st = item # q" "due report_end item" by blast
    have step: "rerun_loop cfg report_end now st = (case rerun_one cfg now item st of
        Inl e \<Rightarrow> Some (Inl e)
      | Inr (st1, out1) \<Rightarrow> Option.bind (rerun_loop cfg report_end now st1)
          (\<lambda>r. Some (bindE r (\<lambda>(st2, out2). Inr (st2, out1 @ out2)))))"
      using q by (subst rerun_loop.simps) (simp add: due_def)
    show ?thesis
    proof (cases "rerun_one cfg now item st")
      case (Inl e)
      then show ?thesis by (simp add: step no_due_head_def)
    next
      case (Inr p)
      obtain st1 out1 where p: "p = (st1, out1)" by fastforce
      have "filter (due report_end) (ls_rerun_queue st1) = filter (due report_end) q"
        by (rule rerun_one_removes [OF Inr [unfolded p] q assms])
      then obtain r where "rerun_loop cfg report_end now st1 = Some r" "no_due_head report_end r"
        using less [of st1] q by auto
      then show ?thesis
        by (cases r) (auto simp: step Inr p no_due_head_def)
    qed
  qed
qed

text \<open>
  C30. The periodic re-execution check ends. Whatever checks are queued and however often functions
  are started again by them, the loop returns as soon as the clock has moved past the end of the
  reporting period, and when it ends without an error the earliest queued check is not due.
\<close>

theorem rerun_check_returns:
  assumes "report_end < now"
  shows "\<exists>r. rerun_loop cfg report_end now st = Some r \<and> rerun_check cfg report_end now st = r
    \<and> (\<forall>st' out. r = Inr (st', out) \<longrightarrow> ls_rerun_queue st' \<noteq> [] \<longrightarrow> report_end < ri_check_time (hd (ls_rerun_queue st')))"
  using rerun_loop_ends [OF assms, of cfg st]
  by (auto simp: rerun_check_def no_due_head_def due_def)

theorem rerun_check_returns_witness:
  "\<exists>r. rerun_loop node_config 10 11
      ((sched_init 1 node_helper 0 0)\<lparr>ls_view := empty_view\<lparr>nv_heap := [BySetTrigger (by_set_init ''t'' ''g'' [''k''])]\<rparr>,
         ls_rerun_queue := [\<lparr>ri_check_time = 5, ri_session = ''s1'', ri_trigger = 0\<rparr>]\<rparr>) = Some r"
  using rerun_check_returns [of 10 11 node_config] by auto

end
