(* ===== verification/Node_Protocol.thy ===== *)
theory Node_Protocol
  imports Sched_Trace
begin

text \<open>
  The byte protocol between the local scheduler and its executors, in both directions: a call
  message built by \<open>schedule_func_call\<close> is taken apart by the executor into the session, the
  function and the arguments it was made of, and the objects that a function sends reach the
  scheduler's handler with the fields the function gave them.
\<close>

section \<open>The call message\<close>

definition token_ok :: "string \<Rightarrow> bool" where
  "token_ok s \<longleftrightarrow> CHR ''|'' \<notin> set s \<and> CHR 0x00 \<notin> set s"

lemma resource_meta_short: "length (resource_meta cpu mem) < 256"
  by (simp add: resource_meta_def Let_def)

lemma call_body_join: "session @ ''|'' @ func_args_string f args = join (CHR ''|'') (session # f # args)"
proof -
  have "func_args_string x (a # xs) = x @ CHR ''|'' # func_args_string a xs" for x a and xs :: "string list"
    by (simp add: func_args_string_def)
  then have "func_args_string x xs = join (CHR ''|'') (x # xs)" for x and xs :: "string list"
    by (induction xs arbitrary: x) (simp_all add: func_args_string_def [of _ "[]"])
  then show ?thesis by (simp add: join_Cons)
qed

lemma join_sets: "t \<in> set ts \<Longrightarrow> set t \<subseteq> set (join d ts)"
  by (induction ts rule: join.induct) auto

lemma split_inverse:
  "(split s d \<noteq> [] \<longrightarrow> last (split s d) \<noteq> []) \<and> s = join d (split s d) \<or> s = join d (split s d) @ [d]"
proof (induction s d rule: split.induct)
  case (1 s d)
  show ?case
  proof (cases "d \<in> set s")
    case True
    then obtain t r where s: "s = t @ d # r" "d \<notin> set t" by (meson split_list_first)
    have "dropWhile (\<lambda>c. c \<noteq> d) s = d # r"
      using s(2) unfolding s(1) by (subst dropWhile_append2) auto
    moreover have "split r d = [] \<longleftrightarrow> r = []" by (subst split.simps) simp
    ultimately show ?thesis
      using 1 by (cases "r = []") (auto simp: s(1) split_step [OF s(2)] join_Cons)
  next
    case False
    then show ?thesis by (cases "s = []") (simp_all add: split_single)
  qed
qed

lemma join_no_nul: "\<forall>t \<in> set ts. CHR 0x00 \<notin> set t \<Longrightarrow> d \<noteq> CHR 0x00 \<Longrightarrow> CHR 0x00 \<notin> set (join d ts)"
  by (induction ts rule: join.induct) auto

text \<open>The tokens that come out of a joined string are those that went in exactly when these are intact.\<close>

definition tokens_ok :: "string list \<Rightarrow> bool" where
  "tokens_ok ts \<longleftrightarrow> (\<forall>t \<in> set ts. token_ok t) \<and> last ts \<noteq> []"

lemma c_str_fixed: "c_str s = s \<longleftrightarrow> CHR 0x00 \<notin> set s"
  by (auto simp: c_str_def takeWhile_eq_all_conv)

lemma c_str_length: "length (c_str s) \<le> length s"
  by (simp add: c_str_def length_takeWhile_le)

lemma split_c_str_join:
  assumes "ts \<noteq> []"
  shows "split (c_str (join (CHR ''|'') ts)) (CHR ''|'') = ts \<longleftrightarrow> tokens_ok ts"
proof
  let ?j = "join (CHR ''|'') ts"
  assume ts: "split (c_str ?j) (CHR ''|'') = ts"
  have len: "length (c_str ?j) \<le> length ?j" by (rule c_str_length)
  have "c_str ?j = ?j" and l: "last ts \<noteq> []"
    using split_inverse [of "c_str ?j" "CHR ''|''"] assms len unfolding ts by auto
  then have "CHR 0x00 \<notin> set ?j" by (simp only: c_str_fixed simp_thms)
  moreover have "CHR ''|'' \<notin> set t" if "t \<in> set ts" for t
    using split_tokens_no_delim [of t "c_str ?j" "CHR ''|''"] that ts by simp
  ultimately show "tokens_ok ts"
    using l join_sets [of _ ts "CHR ''|''"] by (auto simp: tokens_ok_def token_ok_def)
next
  assume ok: "tokens_ok ts"
  have "CHR 0x00 \<notin> set (join (CHR ''|'') ts)"
    using ok by (intro join_no_nul) (auto simp: tokens_ok_def token_ok_def)
  then have "c_str (join (CHR ''|'') ts) = join (CHR ''|'') ts" by (simp only: c_str_fixed simp_thms)
  then show "split (c_str (join (CHR ''|'') ts)) (CHR ''|'') = ts"
    using ok assms by (simp add: tokens_ok_def token_ok_def split_join)
qed

lemma bytes_from_append: "i = length p \<Longrightarrow> n = length q \<Longrightarrow> bytes_from (p @ q @ r) i n = Inr q"
  by (simp add: bytes_from_def raw_def)

lemma c_string_from_at: "n = length p \<Longrightarrow> c_string_from (p @ s) n = Inr (c_str s)"
  using takeWhile_eq_all_conv [of "\<lambda>c. c \<noteq> CHR 0x00" s]
  by (simp add: c_string_from_def raw_def c_str_def takeWhile_append del: takeWhile_eq_all_conv) metis

lemma parse_call_message:
  "parse_call (call_message flag persist cpu mem session f args) = Inr (word_of_int flag, if persist then 1 else 2,
     resource_meta cpu mem, split (c_str (join (CHR ''|'') (session # f # args))) (CHR ''|''))"
proof -
  let ?meta = "resource_meta cpu mem" and ?body = "join (CHR ''|'') (session # f # args)"
  let ?head = "[byte 1, byte (word_of_int (flag + 1)), byte (if persist then 1 else 2), byte (of_nat (length ?meta))]"
  have len: "unat (of_nat (length ?meta) :: u8) = length ?meta"
    using resource_meta_short [of cpu mem] by (simp add: unat_of_nat take_bit_nat_eq_self)
  have m: "call_message flag persist cpu mem session f args = ?head @ ?meta @ ?body"
    by (simp only: call_message_def Let_def call_body_join append_assoc)
  have body: "c_string_from (?head @ ?meta @ ?body) (4 + length ?meta) = Inr (c_str ?body)"
    using c_string_from_at [of "4 + length ?meta" "?head @ ?meta" ?body] by simp
  have meta: "bytes_from (?head @ ?meta @ ?body) 4 (length ?meta) = Inr ?meta"
    by (rule bytes_from_append) simp_all
  have b: "byte_at (?head @ ?meta @ ?body) 1 = Inr (word_of_int flag + 1)"
      "byte_at (?head @ ?meta @ ?body) 2 = Inr (if persist then 1 else 2)"
      "byte_at (?head @ ?meta @ ?body) 3 = Inr (of_nat (length ?meta))"
    by simp_all
  show ?thesis
    unfolding m parse_call_def by (simp only: b bindE_simps len meta body) simp
qed

text \<open>What \<open>schedule_func_call\<close> puts on a channel is the call message, for an executor that has one.\<close>

lemma schedule_sends_call_message:
  assumes "schedule_func_call cfg now session app f args flag cpu mem st = Inr (st', out)" and "ToExecutor e msg \<in> set out"
  shows "msg = call_message flag (tget [] (ls_session_addr st) session = []) cpu mem session f args \<and> e \<in> set (ls_channels st)"
proof (cases "pick_executor cfg f st")
  case None
  have net: "ToExecutor e msg \<notin> set out'" if "with_helper g s = Inr (s', out')" for g s s' out'
    using that by (auto simp: with_helper_def bindE_Inr_iff)
  have "ToExecutor e msg \<notin> set out'" if "forward_call_via_helper session app fs argss flag s = Inr (s', out')" for fs argss s s' out'
    using that net by (auto simp: forward_call_via_helper_def Let_def bindE_Inr_iff split: if_splits)
  then show ?thesis
    using assms None by (auto simp: schedule_func_call_def bindE_Inr_iff split: if_splits)
next
  case (Some p)
  then have "ls_session_addr (snd p) = ls_session_addr st" "ls_channels (snd p) = ls_channels st"
    by (auto simp: pick_executor_def Let_def split: prod.splits option.splits if_splits)
  then show ?thesis
    using assms Some
    by (cases p) (auto simp: schedule_func_call_def run_on_executor_def send_to_executer_def bindE_Inr_iff split: if_splits)
qed

lemma to_string_double_chars: "c \<in> set (to_string_double x) \<Longrightarrow> is_digit c \<or> c = CHR ''.'' \<or> c = CHR ''-''"
  by (auto simp: to_string_double_def pad6_def Let_def split: if_splits dest: to_string_digits)

lemma resource_env_of_meta:
  "set_resource_env (resource_meta cpu mem) env
    = (let fits = length (to_string_double cpu @ '','' @ to_string (unat mem)) \<le> 255
       in tput ''DEMETER_MEMORY_MB'' (if fits then to_string (unat mem) else ''0'')
         (tput ''DEMETER_CPU_CORES'' (if fits then to_string_double cpu else ''0'') env))"
proof -
  have two: "set_resource_env (x @ CHR '','' # y) env = tput ''DEMETER_MEMORY_MB'' y (tput ''DEMETER_CPU_CORES'' x env)"
    if "CHR '','' \<notin> set x" "CHR '','' \<notin> set y" "CHR 0x00 \<notin> set x" "CHR 0x00 \<notin> set y" "y \<noteq> []" for x y
    using that by (simp add: set_resource_env_def split_step split_single)
  have "\<not> is_digit (CHR '','')" "\<not> is_digit (CHR 0x00)" by (simp_all add: is_digit_def)
  then have c: "CHR '','' \<notin> set (to_string_double cpu)" "CHR '','' \<notin> set (to_string (unat mem))"
      "CHR 0x00 \<notin> set (to_string_double cpu)" "CHR 0x00 \<notin> set (to_string (unat mem))"
    using to_string_double_chars to_string_digits by fastforce+
  have "set_resource_env ''0,0'' env = tput ''DEMETER_MEMORY_MB'' ''0'' (tput ''DEMETER_CPU_CORES'' ''0'' env)"
    using two [of "''0''" "''0''"] by simp
  then show ?thesis
    using two [OF c] by (simp add: resource_meta_def Let_def not_le)
qed

lemma exec_call_runs:
  assumes "parse_call msg = Inr (flag, persist, meta, session # f # args)"
    and "decode_args flag m args = Inr (Some (vals, sizes))" and "f \<in> set (ex_loaded ex) \<or> loadable f"
  shows "\<exists>ex' u. exec_call loadable user_fn m tid msg ex
        = Inr (ex', status_request tid True # fst (snd (user_fn f u vals)) @ [status_request tid False], True)
      \<and> ul_function u = f \<and> ul_session_id u = session \<and> ul_persist_flag u = persist
      \<and> ul_size_of_args u = ul_size_of_args (ex_lib ex) @ sizes
      \<and> ex_env ex' = set_resource_env meta (ex_env ex)"
proof -
  let ?u0 = "set_persist_flag persist (set_session_id session (set_function_name f (ex_lib ex)))"
  have fold: "fold add_arg_size ns u = u\<lparr>ul_size_of_args := ul_size_of_args u @ ns\<rparr>" for ns u
    by (induction ns arbitrary: u) (simp_all add: add_arg_size_def)
  obtain loaded where l: "(if f \<in> set (ex_loaded ex) then (True, ex_loaded ex) else load_function loadable f (ex_loaded ex)) = (True, loaded)"
    using assms(3) by (cases "f \<in> set (ex_loaded ex)") (auto simp: load_function_def)
  let ?ex = "ex\<lparr>ex_env := set_resource_env meta (ex_env ex), ex_lib := ?u0, ex_loaded := loaded\<rparr>"
  let ?r = "run_function user_fn f (vals, sizes) ?ex" and ?u = "fold add_arg_size sizes ?u0"
  have run: "exec_call loadable user_fn m tid msg ex = Inr (fst ?r, status_request tid True # snd ?r @ [status_request tid False], True)"
    using assms(1,2) by (simp add: exec_call_def nth_or_def l case_prod_unfold Let_def)
  have "snd ?r = fst (snd (user_fn f ?u vals))" "ex_env (fst ?r) = ex_env ?ex"
    by (simp_all add: run_function_def case_prod_unfold Let_def)
  then show ?thesis
    using run by (intro exI [of _ "fst ?r"] exI [of _ ?u])
      (simp add: fold set_persist_flag_def set_session_id_def set_function_name_def)
qed

text \<open>
  C2. What the executor reads of a scheduled call, for every call. Of the message with which
  \<open>schedule_func_call\<close> hands a call to an executor, the executor reads the argument flag, the
  persist flag (1 exactly when the session has no client address), the resources, and as tokens
  what is between the separators up to the first NUL. These tokens are the session, the function and
  the arguments of the call if, and only if, none of them contains the separator or NUL and the last
  one is not empty: other values are split, cut off or lost. For a call whose tokens are intact,
  whatever its flag, and a function that is loaded or can be, the executor runs exactly this function
  on the values and sizes that the arguments decode to (the arguments themselves for flag 0), for
  the same session, with the CPU and memory of the call in its environment, or zeros when they
  take more than 255 characters.
\<close>

theorem scheduled_call_reaches_function:
  assumes "schedule_func_call cfg now session app f args flag cpu mem st = Inr (st', out)"
    and "ToExecutor e msg \<in> set out"
  shows "let ts = session # f # args; got = split (c_str (join (CHR ''|'') ts)) (CHR ''|'');
             persist = (if tget [] (ls_session_addr st) session = [] then 1 else 2);
             fits = length (to_string_double cpu @ '','' @ to_string (unat mem)) \<le> 255
         in parse_call msg = Inr (word_of_int flag, persist, resource_meta cpu mem, got)
          \<and> (got = ts \<longleftrightarrow> (\<forall>t \<in> set ts. token_ok t) \<and> last ts \<noteq> [])
          \<and> (got = ts \<and> decode_args (word_of_int flag) m args = Inr (Some (vals, sizes))
               \<and> (f \<in> set (ex_loaded ex) \<or> loadable f) \<longrightarrow>
              (\<exists>ex' u. exec_call loadable user_fn m tid msg ex
                   = Inr (ex', status_request tid True # fst (snd (user_fn f u vals)) @ [status_request tid False], True)
                 \<and> ul_function u = f \<and> ul_session_id u = session \<and> ul_persist_flag u = persist
                 \<and> ul_size_of_args u = ul_size_of_args (ex_lib ex) @ sizes
                 \<and> tget [] (ex_env ex') ''DEMETER_CPU_CORES'' = (if fits then to_string_double cpu else ''0'')
                 \<and> tget [] (ex_env ex') ''DEMETER_MEMORY_MB'' = (if fits then to_string (unat mem) else ''0'')))
          \<and> decode_args 0 m args = Inr (Some (map Some args, map (\<lambda>a. of_nat (length a)) args))"
proof -
  let ?ts = "session # f # args" and ?p = "if tget [] (ls_session_addr st) session = [] then 1 else 2 :: u8"
  let ?got = "split (c_str (join (CHR ''|'') ?ts)) (CHR ''|'')" and ?fits = "length (to_string_double cpu @ '','' @ to_string (unat mem)) \<le> 255"
  have parse: "parse_call msg = Inr (word_of_int flag, ?p, resource_meta cpu mem, ?got)"
    using schedule_sends_call_message [OF assms] parse_call_message by simp
  have iff: "?got = ?ts \<longleftrightarrow> tokens_ok ?ts" by (rule split_c_str_join) simp
  have run: "\<exists>ex' u. exec_call loadable user_fn m tid msg ex
        = Inr (ex', status_request tid True # fst (snd (user_fn f u vals)) @ [status_request tid False], True)
      \<and> ul_function u = f \<and> ul_session_id u = session \<and> ul_persist_flag u = ?p
      \<and> ul_size_of_args u = ul_size_of_args (ex_lib ex) @ sizes
      \<and> ex_env ex' = set_resource_env (resource_meta cpu mem) (ex_env ex)"
    if "?got = ?ts" "decode_args (word_of_int flag) m args = Inr (Some (vals, sizes))" "f \<in> set (ex_loaded ex) \<or> loadable f"
    using that(1) by (intro exec_call_runs [where loadable = loadable, OF _ that(2,3)]) (simp only: parse)
  have plain: "decode_args 0 m args = Inr (Some (map Some args, map (\<lambda>a. of_nat (length a)) args))"
    by (simp add: decode_args_def plain_args_def)
  show ?thesis
    unfolding Let_def
  proof (intro conjI impI parse plain)
    show "?got = ?ts \<longleftrightarrow> (\<forall>t \<in> set ?ts. token_ok t) \<and> last ?ts \<noteq> []"
      using iff by (simp only: tokens_ok_def)
  next
    assume "?got = ?ts \<and> decode_args (word_of_int flag) m args = Inr (Some (vals, sizes)) \<and> (f \<in> set (ex_loaded ex) \<or> loadable f)"
    then obtain ex' u where "exec_call loadable user_fn m tid msg ex
        = Inr (ex', status_request tid True # fst (snd (user_fn f u vals)) @ [status_request tid False], True)"
        "ul_function u = f" "ul_session_id u = session" "ul_persist_flag u = ?p" "ul_size_of_args u = ul_size_of_args (ex_lib ex) @ sizes"
        "ex_env ex' = set_resource_env (resource_meta cpu mem) (ex_env ex)"
      using run by blast
    then show "\<exists>ex' u. exec_call loadable user_fn m tid msg ex
        = Inr (ex', status_request tid True # fst (snd (user_fn f u vals)) @ [status_request tid False], True)
        \<and> ul_function u = f \<and> ul_session_id u = session \<and> ul_persist_flag u = ?p \<and> ul_size_of_args u = ul_size_of_args (ex_lib ex) @ sizes
        \<and> tget [] (ex_env ex') ''DEMETER_CPU_CORES'' = (if ?fits then to_string_double cpu else ''0'')
        \<and> tget [] (ex_env ex') ''DEMETER_MEMORY_MB'' = (if ?fits then to_string (unat mem) else ''0'')"
      by (intro exI [of _ ex'] exI [of _ u]) (simp add: resource_env_of_meta Let_def del: length_append)
  qed
qed

definition idle_node :: sched_state where
  "idle_node = (sched_init 1 node_helper 0 0)\<lparr>ls_status := [(0, 0)]\<rparr>"

lemma idle_node_schedules:
  "\<exists>st'. schedule_func_call node_config 0 session app f args flag cpu mem idle_node
     = Inr (st', [ToExecutor 0 (call_message flag True cpu mem session f args)])"
  by (simp add: idle_node_def sched_init_def schedule_func_call_def pick_executor_def run_on_executor_def
    send_to_executer_def node_defs Let_def empty_view_def)

lemma some_numerals: "to_string 0 = ''0''" "to_string 128 = ''128''" "pad6 0 = ''000000''"
  by code_simp+

lemma double_zero: "to_string_double 0 = ''0.000000''"
  by (simp add: to_string_double_def round_even_def some_numerals)

theorem scheduled_call_reaches_function_witness:
  "\<exists>ex'. exec_call (\<lambda>f. True) (\<lambda>f u args. (u, [f, ul_session_id u, the (hd args)], Some 0)) [] 0
       (call_message 0 True 0 128 ''s1'' ''resize'' [''cat.png'']) (executor_init ''10.0.0.2'' 0)
     = Inr (ex', [status_request 0 True, ''resize'', ''s1'', ''cat.png'', status_request 0 False], True)
     \<and> tget [] (ex_env ex') ''DEMETER_MEMORY_MB'' = ''128''"
proof -
  obtain st' where s: "schedule_func_call node_config 0 ''s1'' ''app'' ''resize'' [''cat.png''] 0 0 128 idle_node
     = Inr (st', [ToExecutor 0 (call_message 0 True 0 128 ''s1'' ''resize'' [''cat.png''])])"
    using idle_node_schedules by blast
  show ?thesis
    using scheduled_call_reaches_function [OF s, of 0 _ "[]" "[Some ''cat.png'']" "[7]" "executor_init ''10.0.0.2'' 0" "\<lambda>f. True"
        "\<lambda>f u args. (u, [f, ul_session_id u, the (hd args)], Some 0)" 0]
    by (auto simp: token_ok_def double_zero some_numerals Let_def)
qed

section \<open>Arguments that are objects\<close>

abbreviation obj_key :: "string \<times> string \<Rightarrow> string" where
  "obj_key bk \<equiv> fst bk @ kDelimiter @ snd bk"

definition obj_tokens :: "obj_store \<Rightarrow> (string \<times> string) list \<Rightarrow> string list" where
  "obj_tokens os objs = concat (map (\<lambda>bk. [fst bk, snd bk, to_string (unat (len_of os (obj_key bk)))]) objs)"

lemma obj_tokens_last: "objs \<noteq> [] \<Longrightarrow> obj_tokens os objs \<noteq> [] \<and> last (obj_tokens os objs) \<noteq> []"
proof (induction objs)
  case (Cons bk objs)
  then show ?case by (cases "objs = []") (simp_all add: obj_tokens_def)
qed simp

lemma call_message_objects:
  "call_message flag persist cpu mem session f (sized_args os (map obj_key objs))
   = call_message flag persist cpu mem session f (obj_tokens os objs)"
proof -
  have "concat (map (\<lambda>a. ''|'' @ a) (sized_args os (map obj_key objs))) = concat (map (\<lambda>a. ''|'' @ a) (obj_tokens os objs))"
    by (induction objs) (simp_all add: sized_args_def obj_tokens_def kDelimiter_def)
  then show ?thesis by (simp add: call_message_def func_args_string_def)
qed

lemma key_args_objects:
  assumes "\<forall>bk \<in> set objs. unat (len_of os (obj_key bk)) < 2 ^ 31"
  shows "key_args flag m (obj_tokens os objs) = Inr
    (if flag = 1 then map (\<lambda>bk. shm_open (obj_key bk) m) objs
     else concat (map (\<lambda>bk. [Some (snd bk), shm_open (obj_key bk) m]) objs),
     if flag = 1 then map (\<lambda>bk. ucast (len_of os (obj_key bk))) objs
     else concat (map (\<lambda>bk. [of_nat (length (snd bk)), ucast (len_of os (obj_key bk))]) objs))"
  using assms
proof (induction objs)
  case Nil
  then show ?case by (simp add: obj_tokens_def)
next
  case (Cons bk objs)
  have ball_subset: "\<forall>bk \<in> set objs. unat (len_of os (obj_key bk)) < 2 ^ 31" using Cons.prems by simp
  have "obj_tokens os (bk # objs) = fst bk # snd bk # to_string (unat (len_of os (obj_key bk))) # obj_tokens os objs"
    by (simp add: obj_tokens_def)
  moreover obtain w where w: "len_of os (obj_key bk) = w" by blast
  moreover have "stoi (to_string (unat w)) = Inr (int (unat w))"
    using Cons.prems w by (intro stoi_to_string) simp
  moreover have "(word_of_int (int (unat w)) :: u64) = ucast w"
    by (simp only: uint_nat [symmetric] ucast_eq)
  moreover note Cons.IH [OF ball_subset]
  ultimately show ?case
    by (cases "flag = 1") (simp_all only: key_args.simps bindE_simps Let_def simp_thms if_True if_False prod.case list.map concat.simps append.simps)
qed

text \<open>
  Arguments passed by reference reach the function as the objects they name. For a call
  scheduled with argument flag 1 or 2 on objects \<open>bucket|key\<close> and the sizes the node knows for
  them (below 2 to the 31, the range of \<open>stoi\<close>), the executor runs the function on exactly the
  shared-memory segments of these objects, in order, with exactly these sizes; with flag 2 each
  one is preceded by its key.
\<close>

theorem object_arguments_reach_function:
  assumes "schedule_func_call cfg now session app f (sized_args os (map obj_key objs)) flag cpu mem st = Inr (st', out)"
    and "ToExecutor e msg \<in> set out"
    and "flag = 1 \<or> flag = 2" and "objs \<noteq> []"
    and "token_ok session" and "token_ok f" and "\<forall>(b, k) \<in> set objs. token_ok b \<and> token_ok k"
    and "\<forall>bk \<in> set objs. unat (len_of os (obj_key bk)) < 2 ^ 31"
    and "loadable f"
  shows "\<exists>ex' u. exec_call loadable user_fn m tid msg ex
        = Inr (ex', status_request tid True # fst (snd (user_fn f u
            (if flag = 1 then map (\<lambda>bk. shm_open (obj_key bk) m) objs
             else concat (map (\<lambda>bk. [Some (snd bk), shm_open (obj_key bk) m]) objs)))) @ [status_request tid False], True)
      \<and> ul_function u = f \<and> ul_session_id u = session
      \<and> ul_size_of_args u = ul_size_of_args (ex_lib ex) @
          (if flag = 1 then map (\<lambda>bk. ucast (len_of os (obj_key bk))) objs
           else concat (map (\<lambda>bk. [of_nat (length (snd bk)), ucast (len_of os (obj_key bk))]) objs))"
proof -
  let ?p = "tget [] (ls_session_addr st) session = []" and ?toks = "obj_tokens os objs"
  have toks: "\<forall>t \<in> set (session # f # ?toks). token_ok t" "length ?toks = 3 * length objs" "last (f # ?toks) \<noteq> []"
    using assms(5-7) obj_tokens_last [OF assms(4), of os]
    by (auto simp: obj_tokens_def token_ok_def length_concat comp_def sum_list_triv)
  have parse: "parse_call msg = Inr (word_of_int flag, if ?p then 1 else 2, resource_meta cpu mem, session # f # ?toks)"
    using schedule_sends_call_message [OF assms(1,2)] parse_call_message split_c_str_join [of "session # f # ?toks"] toks(1,3)
    by (simp add: call_message_objects tokens_ok_def)
  have dec: "decode_args (word_of_int flag) m ?toks = Inr (Some
      (if flag = 1 then map (\<lambda>bk. shm_open (obj_key bk) m) objs
       else concat (map (\<lambda>bk. [Some (snd bk), shm_open (obj_key bk) m]) objs),
       if flag = 1 then map (\<lambda>bk. ucast (len_of os (obj_key bk))) objs
       else concat (map (\<lambda>bk. [of_nat (length (snd bk)), ucast (len_of os (obj_key bk))]) objs)))"
    using assms(3) toks(2) key_args_objects [OF assms(8), of _ m] by (auto simp: decode_args_def)
  show ?thesis
    using exec_call_runs [where loadable = loadable, OF parse dec disjI2 [OF assms(9)], of user_fn tid ex] by blast
qed

theorem object_arguments_reach_function_witness:
  "\<exists>ex'. exec_call (\<lambda>f. True) (\<lambda>f u args. (u, [f, the (args ! 0), the (args ! 1)], Some 0)) [(''b|k_s1'', ''xyz'')] 0
       (call_message 2 True 0 0 ''s1'' ''f'' (sized_args (empty_store\<lparr>os_key_len := [(''b|k_s1'', 3)]\<rparr>) [''b|k_s1'']))
       (executor_init ''10.0.0.2'' 0)
     = Inr (ex', [status_request 0 True, ''f'', ''k_s1'', ''xyz'', status_request 0 False], True)"
proof -
  let ?os = "empty_store\<lparr>os_key_len := [(''b|k_s1'', 3 :: u32)]\<rparr>" and ?objs = "[(''b'', ''k_s1'')]"
  obtain st' where s: "schedule_func_call node_config 0 ''s1'' ''app'' ''f'' (sized_args ?os (map obj_key ?objs)) 2 0 0 idle_node
     = Inr (st', [ToExecutor 0 (call_message 2 True 0 0 ''s1'' ''f'' (sized_args ?os (map obj_key ?objs)))])"
    using idle_node_schedules by blast
  show ?thesis
    using object_arguments_reach_function [OF s, of 0 _ "\<lambda>f. True" "\<lambda>f u args. (u, [f, the (args ! 0), the (args ! 1)], Some 0)"
        "[(''b|k_s1'', ''xyz'')]" 0 "executor_init ''10.0.0.2'' 0"]
    by (auto simp: token_ok_def tget_def shm_open_def kDelimiter_def)
qed

section \<open>Objects sent by a function\<close>

lemma send_message_shape:
  assumes "send_object_request e out u m = Inr (msg, waits, rid, u')"
  obtains body where "msg = [byte (ul_chan_id u), byte (if out then (if ul_persist_flag u = 1 then 3 else 4) else 2), byte rid,
        byte (if eo_size e \<le> msgDataPackingThreshold then 1 else 2)]
      @ ul_session_id u @ ''|'' @ ul_function u @ ''|'' @ eo_target_func e @ ''|'' @ eo_obj_name e @ ''|'' @ body"
    and "if eo_size e \<le> msgDataPackingThreshold
         then \<exists>mem. get_value e m = Some mem \<and> eo_size e \<le> length mem \<and> body = take (eo_size e) mem else body = to_string (eo_size e)"
  using assms
  by (auto simp: send_object_request_def Let_def bindE_Inr_iff case_prod_unfold split: if_splits option.splits)

lemma c_str_append: "CHR 0x00 \<notin> set p \<Longrightarrow> c_str (p @ q) = p @ c_str q"
  by (auto simp: c_str_def takeWhile_append)

lemma split_hd: "s \<noteq> [] \<Longrightarrow> split s d = takeWhile (\<lambda>c. c \<noteq> d) s # tl (split s d)"
  by (subst (1 2) split.simps) simp

lemma token_cut: "takeWhile (\<lambda>c. c \<noteq> CHR ''|'') (c_str s) = s \<longleftrightarrow> token_ok s"
  by (induction s) (auto simp: token_ok_def c_str_def)

lemma split_names:
  assumes "\<forall>t \<in> set [a, b, c, d, e]. token_ok t"
  shows "split (c_str (a @ ''|'' @ b @ ''|'' @ c @ ''|'' @ d @ ''|'' @ e @ ''|'' @ body)) (CHR ''|'')
    = a # b # c # d # e # split (c_str body) (CHR ''|'')"
proof -
  let ?p = "a @ ''|'' @ b @ ''|'' @ c @ ''|'' @ d @ ''|'' @ e @ ''|''"
  have "CHR 0x00 \<notin> set ?p" using assms by (auto simp: token_ok_def)
  from c_str_append [OF this, of body] show ?thesis
    using assms by (simp add: token_ok_def split_step)
qed

text \<open>The handler on a request whose names are intact, for any bytes behind them.\<close>

lemma sent_message_handled:
  assumes "\<forall>t \<in> set [session, f, tgt, b, sk]. token_ok t"
  shows "handle_executor_msg cfg now ([byte ch, byte (if out then (if pers then 3 else 4) else 2), byte rid, byte (if packed then 1 else 2)]
        @ session @ ''|'' @ f @ ''|'' @ tgt @ ''|'' @ b @ ''|'' @ sk @ ''|'' @ body) st =
     (let packing = (if packed then 1 else 2); body' = takeWhile (\<lambda>c. c \<noteq> CHR ''|'') (c_str body)
      in if c_str body = [] then Inr (st, [])
         else if \<not> out then ephemeral_object cfg now packing session f tgt b sk body' st
         else if pers then persist_object cfg now (ch - 1) rid packing b sk body' st
         else respond_to_client packing session f b sk body' st)" (is "handle_executor_msg cfg now ?msg st = ?res")
proof -
  let ?params = "session @ ''|'' @ f @ ''|'' @ tgt @ ''|'' @ b @ ''|'' @ sk @ ''|'' @ body"
  have p: "c_string_from ?msg 4 = Inr (c_str ?params)"
    by (rule c_string_from_at) simp
  have hd4: "byte_at ?msg 0 = Inr ch" "byte_at ?msg 2 = Inr rid" "byte_at ?msg 1 = Inr (if out then (if pers then 3 else 4) else 2)"
      "byte_at ?msg 3 = Inr (if packed then 1 else 2)"
    by simp_all
  show ?thesis
  proof (cases "c_str body = []")
    case True
    have sp: "split (c_str ?params) (CHR ''|'') = [session, f, tgt, b, sk]"
      by (simp only: split_names [OF assms] True split_Nil)
    show ?thesis
      unfolding handle_executor_msg_def handle_send_object_def hd4 p sp bindE_simps Let_def True by (simp split: if_splits)
  next
    case False
    obtain x rest where x: "x = takeWhile (\<lambda>c. c \<noteq> CHR ''|'') (c_str body)"
        "split (c_str ?params) (CHR ''|'') = session # f # tgt # b # sk # x # rest"
      using split_hd [OF False] unfolding split_names [OF assms] by metis
    show ?thesis
      using False unfolding handle_executor_msg_def handle_send_object_def hd4 p x(2) x(1) [symmetric] bindE_simps Let_def
      by (cases out; cases pers) simp_all
  qed
qed

text \<open>
  C29. What the scheduler handles of an object that a function sends. For an object \<open>bucket|key\<close>
  whose session, function, target, bucket and key contain neither the separator nor NUL, the request
  that \<open>send_object\<close> puts on the channel makes the scheduler store and propagate the object (or
  persist it, or answer the client) with exactly these names. Of an object that is too large to be
  packed the size of its segment arrives, whatever its bytes are. Of a packed object the bytes
  before the first separator or NUL arrive, which is all of them exactly when they contain neither;
  when there is no byte before the first NUL, as for an empty object, the request is dropped.
\<close>

theorem sent_object_reaches_handler:
  assumes "send_object_request e out u m = Inr (msg, waits, rid, u')"
    and "eo_obj_name e = b @ kDelimiter @ sk"
    and "\<forall>t \<in> set [ul_session_id u, ul_function u, eo_target_func e, b, sk]. token_ok t"
  shows "let packed = eo_size e \<le> msgDataPackingThreshold; packing = (if packed then 1 else 2);
             bytes = take (eo_size e) (the (get_value e m)); got = takeWhile (\<lambda>c. c \<noteq> CHR ''|'') (c_str bytes);
             body = (if packed then got else to_string (eo_size e))
         in handle_executor_msg cfg now msg st =
              (if packed \<and> c_str bytes = [] then Inr (st, [])
               else if \<not> out then ephemeral_object cfg now packing (ul_session_id u) (ul_function u) (eo_target_func e) b sk body st
               else if ul_persist_flag u = 1 then persist_object cfg now (ul_chan_id u - 1) rid packing b sk body st
               else respond_to_client packing (ul_session_id u) (ul_function u) b sk body st)
          \<and> (got = bytes \<longleftrightarrow> token_ok bytes)"
proof -
  let ?packed = "eo_size e \<le> msgDataPackingThreshold" and ?bytes = "take (eo_size e) (the (get_value e m))"
  obtain body where m0: "msg = [byte (ul_chan_id u), byte (if out then (if ul_persist_flag u = 1 then 3 else 4) else 2), byte rid,
        byte (if ?packed then 1 else 2)]
      @ ul_session_id u @ ''|'' @ ul_function u @ ''|'' @ eo_target_func e @ ''|'' @ eo_obj_name e @ ''|'' @ body"
      and b0: "if ?packed then \<exists>mem. get_value e m = Some mem \<and> eo_size e \<le> length mem \<and> body = take (eo_size e) mem
         else body = to_string (eo_size e)"
    by (rule send_message_shape [OF assms(1)])
  have b: "body = (if ?packed then ?bytes else to_string (eo_size e))"
    using b0 by (auto split: if_splits)
  let ?params = "ul_session_id u @ ''|'' @ ul_function u @ ''|'' @ eo_target_func e @ ''|'' @ b @ ''|'' @ sk @ ''|'' @ body"
  have m: "msg = [byte (ul_chan_id u), byte (if out then (if ul_persist_flag u = 1 then 3 else 4) else 2), byte rid,
        byte (if ?packed then 1 else 2)] @ ?params"
    unfolding m0 assms(2) kDelimiter_def by (simp only: append_assoc)
  have large: "c_str (to_string n) = to_string n" "takeWhile (\<lambda>c. c \<noteq> CHR ''|'') (to_string n) = to_string n" for n
    by (auto simp: takeWhile_eq_all_conv)
  note run = sent_message_handled [OF assms(3), of cfg now "ul_chan_id u" out "ul_persist_flag u = 1" rid ?packed body st, folded m]
  show ?thesis
    using run token_cut by (simp add: Let_def b large)
qed

definition running_lib :: user_library where
  "running_lib = set_session_id ''s1'' (set_function_name ''f'' (user_library_init ''10.0.0.2'' 0))"

lemmas running_defs = running_lib_def set_session_id_def set_function_name_def user_library_init_def

theorem sent_object_reaches_handler_witness:
  "\<exists>msg rid u'. send_object_request \<lparr>eo_obj_name = ''b|k_s1'', eo_size = 2, eo_target_func = ''g''\<rparr> False running_lib [(''b|k_s1'', ''hi'')]
       = Inr (msg, False, rid, u')
     \<and> handle_executor_msg node_config 0 msg idle_node
       = ephemeral_object node_config 0 1 ''s1'' ''f'' ''g'' ''b'' ''k_s1'' ''hi'' idle_node"
proof -
  let ?e = "\<lparr>eo_obj_name = ''b|k_s1'', eo_size = 2, eo_target_func = ''g''\<rparr>" and ?m = "[(''b|k_s1'', ''hi'')]"
  obtain msg rid u' where s: "send_object_request ?e False running_lib ?m = Inr (msg, False, rid, u')"
    by (cases "get_request_id running_lib") (simp add: send_object_request_def get_value_def msgDataPackingThreshold_def Let_def)
  then show ?thesis
    using sent_object_reaches_handler [OF s, of "''b''" "''k_s1''" node_config 0 idle_node]
    by (simp add: kDelimiter_def get_value_def token_ok_def running_defs msgDataPackingThreshold_def c_str_def)
qed

section \<open>Objects fetched by a function\<close>

lemma get_request_handled:
  assumes "get_object_request b k True u = (msg, nm, rid, u')" and "length nm < 256"
  shows "handle_executor_msg cfg now msg st = handle_get_request cfg now (ul_chan_id u - 1) msg st"
    and "byte_at msg 2 = Inr 1" and "byte_at msg 3 = Inr rid" and "bindE (byte_at msg 4) (\<lambda>n. bytes_from msg 5 (unat n)) = Inr nm"
proof -
  have m: "msg = [byte (ul_chan_id u), byte 1, byte 1, byte rid, byte (of_nat (length nm))] @ nm"
    using assms(1) by (auto simp: get_object_request_def Let_def case_prod_unfold)
  show "handle_executor_msg cfg now msg st = handle_get_request cfg now (ul_chan_id u - 1) msg st"
    unfolding m by (simp add: handle_executor_msg_def)
  show "byte_at msg 2 = Inr 1" "byte_at msg 3 = Inr rid"
    unfolding m by simp_all
  have "unat (of_nat (length nm) :: u8) = length nm"
    using assms(2) by (simp add: unat_of_nat take_bit_nat_eq_self)
  moreover have "byte_at msg 4 = Inr (of_nat (length nm))" unfolding m by simp
  moreover have "bytes_from msg 5 (length nm) = Inr nm"
    unfolding m using bytes_from_append [of 5 "[byte (ul_chan_id u), byte 1, byte 1, byte rid, byte (of_nat (length nm))]" _ nm "[]"] by simp
  ultimately show "bindE (byte_at msg 4) (\<lambda>n. bytes_from msg 5 (unat n)) = Inr nm" by simp
qed

lemma generic_response_decoded:
  "stoi body = Inr n \<Longrightarrow> CHR 0x00 \<notin> set body \<Longrightarrow>
     get_object_reply nm rid (Some (generic_response rid body)) = Inr (Some \<lparr>eo_obj_name = nm, eo_size = nat (n mod 2 ^ 64), eo_target_func = []\<rparr>)"
  using c_string_from_at [of 3 "[byte 3, byte rid, byte 1]" body]
  by (simp add: get_object_reply_def generic_response_def)

text \<open>
  Fetching a local object gives the function its size. The request that \<open>get_object\<close> makes for
  an object of the node (a name of at most 255 bytes, a size below 2 to the 31) is answered at once,
  to the executor that asked, and the library decodes the answer into the object with the size
  that the node has recorded.
\<close>

theorem local_get_roundtrip:
  assumes "get_object_request b k True u = (msg, nm, rid, u')" and "length nm < 256"
    and "thas (os_key_len (ls_store st)) nm" and "unat (len_of (ls_store st) nm) < 2 ^ 31"
    and "ul_chan_id u - 1 \<in> set (ls_channels st)"
  shows "\<exists>reply. handle_executor_msg cfg now msg st = Inr (st, [ToExecutor (ul_chan_id u - 1) reply])
    \<and> get_object_reply nm rid (Some reply)
        = Inr (Some \<lparr>eo_obj_name = nm, eo_size = unat (len_of (ls_store st) nm), eo_target_func = []\<rparr>)"
proof -
  let ?n = "unat (len_of (ls_store st) nm)" and ?reply = "generic_response rid (to_string (unat (len_of (ls_store st) nm)))"
  note h = get_request_handled [OF assms(1,2)]
  obtain len where len: "byte_at msg 4 = Inr len" "bytes_from msg 5 (unat len) = Inr nm"
    using h(4) by (auto simp: bindE_Inr_iff)
  have mod_id: "nat (int n mod 2 ^ 64) = n" if "n < 2 ^ 31" for n
    using that by simp
  have "handle_executor_msg cfg now msg st = Inr (st, [ToExecutor (ul_chan_id u - 1) ?reply])"
    using assms(3,5) by (simp add: h(1) handle_get_request_def h(2,3) len send_to_executer_def)
  moreover have "get_object_reply nm rid (Some ?reply) = Inr (Some \<lparr>eo_obj_name = nm, eo_size = ?n, eo_target_func = []\<rparr>)"
    using generic_response_decoded [OF stoi_to_string [OF assms(4)], of nm rid] mod_id [OF assms(4)] by (simp only: to_string_no_sep simp_thms)
  ultimately show ?thesis by blast
qed

theorem local_get_roundtrip_witness:
  "\<exists>msg rid u' reply. get_object_request ''b'' ''k'' True running_lib = (msg, get_local_object_name ''b'' ''k'' ''s1'', rid, u')
     \<and> handle_executor_msg node_config 0 msg
         (idle_node\<lparr>ls_store := empty_store\<lparr>os_key_len := [(get_local_object_name ''b'' ''k'' ''s1'', 5)]\<rparr>\<rparr>)
       = Inr (idle_node\<lparr>ls_store := empty_store\<lparr>os_key_len := [(get_local_object_name ''b'' ''k'' ''s1'', 5)]\<rparr>\<rparr>, [ToExecutor 0 reply])
     \<and> get_object_reply (get_local_object_name ''b'' ''k'' ''s1'') rid (Some reply)
       = Inr (Some \<lparr>eo_obj_name = get_local_object_name ''b'' ''k'' ''s1'', eo_size = 5, eo_target_func = []\<rparr>)"
proof -
  let ?nm = "get_local_object_name ''b'' ''k'' ''s1''"
  obtain msg rid u' where r: "get_object_request ''b'' ''k'' True running_lib = (msg, ?nm, rid, u')"
    by (cases "get_request_id running_lib") (simp add: get_object_request_def running_defs Let_def)
  show ?thesis
    using local_get_roundtrip [OF r, of "idle_node\<lparr>ls_store := empty_store\<lparr>os_key_len := [(?nm, 5)]\<rparr>\<rparr>" node_config 0] r
    by (simp add: get_local_object_name_def get_key_session_name_def kDelimiter_def thas_def tget_def idle_node_def
      sched_init_def running_defs Let_def)
qed

text \<open>The effect of only putting messages with a given property on the channels.\<close>

definition only_sends :: "(string \<Rightarrow> bool) \<Rightarrow> sched_state \<Rightarrow> sched_state \<Rightarrow> sched_out list \<Rightarrow> bool" where
  "only_sends P st st' out \<longleftrightarrow> (\<forall>e msg. ToExecutor e msg \<in> set out \<longrightarrow> P msg)"

interpretation sends: step_effect "only_sends P" for P
  by unfold_locales (auto simp: only_sends_def)

lemma only_sends_cong: "only_sends P st st' out \<Longrightarrow> only_sends P s s' out"
  by (simp add: only_sends_def)

lemma wake_call_sends:
  assumes "wake_call cfg now key cid st = Inr (st', out)" and "ToExecutor e msg \<in> set out"
  shows "is_call msg"
proof -
  obtain s app f args flag cpu mem st1 st2 where "schedule_func_call cfg now s app f args flag cpu mem st1 = Inr (st2, out)"
    using assms by (auto simp: wake_call_def Let_def bindE_Inr_iff split: if_splits)
  from schedule_sends_call_message [OF this assms(2)] show ?thesis
    by (simp add: is_call_def call_message_def Let_def)
qed

lemma data_resp_sends:
  assumes "handle_data_resp cfg now msg st = Inr (st', out)" and "ToExecutor e m \<in> set out"
  shows "is_call m \<or> (\<exists>rid. m = generic_response rid [byte (ucast (rv_data_size msg))])"
proof -
  let ?P = "\<lambda>m. is_call m \<or> (\<exists>rid. m = generic_response rid [byte (ucast (rv_data_size msg))])"
  have a: "only_sends ?P st st' out" if "answer_waiting [byte (ucast (rv_data_size msg))] rs st = Inr (st', out)" for rs st st' out
    using that unfolding answer_waiting_def
    by (rule sends.runE_effect) (auto simp: only_sends_def send_to_executer_def split: if_splits)
  have w: "only_sends ?P st st' out" if "runE (wake_call cfg now key) cids st = Inr (st', out)" for key cids st st' out
    using that by (rule sends.runE_effect) (auto simp: only_sends_def dest: wake_call_sends)
  have "only_sends ?P (st\<lparr>ls_store := (ls_store st)\<lparr>os_key_len := tput (rv_data_key msg) (rv_data_size msg) (os_key_len (ls_store st))\<rparr>\<rparr>) st' out"
    using assms(1) unfolding handle_data_resp_def Let_def
    by (rule sends.thenE_effect) (auto simp: bindE_Inr_iff intro: only_sends_cong [OF a] only_sends_cong [OF w])
  then show ?thesis using assms(2) by (auto simp: only_sends_def)
qed

lemma stoi_single: "stoi [c] = Inr n \<Longrightarrow> n = int (of_char c) - 48 \<and> 48 \<le> (of_char c :: nat)"
  by (auto simp: stoi_def is_digit_def digits_val_def Let_def split: if_splits)

lemma reply_one_char:
  assumes "get_object_reply nm rid (Some (generic_response rid' [c])) = Inr (Some ob)"
  shows "48 \<le> (of_char c :: nat) \<and> eo_size ob = of_char c - 48"
proof -
  have b: "byte_at (generic_response rid' [c]) 0 = Inr 3" "byte_at (generic_response rid' [c]) 1 = Inr rid'"
      "byte_at (generic_response rid' [c]) 2 = Inr 1" "c_string_from (generic_response rid' [c]) 3 = Inr (c_str [c, CHR 0x00])"
    by (simp_all add: generic_response_def c_string_from_def raw_def)
  obtain n where n: "stoi (c_str [c, CHR 0x00]) = Inr n" "eo_size ob = nat (n mod 2 ^ 64)"
    using assms by (auto simp: get_object_reply_def b bindE_Inr_iff simp del: byte_at_nth split: if_splits)
  have "c \<noteq> CHR 0x00" using n(1) by (auto simp: c_str_def stoi_def)
  then have "c_str [c, CHR 0x00] = [c]" by (simp add: c_str_def)
  then have s: "n = int (of_char c) - 48" "48 \<le> (of_char c :: nat)" using stoi_single n(1) by auto
  have "(of_char c :: nat) < 256" by simp
  then have "0 \<le> n \<and> n < 256" using s by linarith
  then have "n mod 2 ^ 64 = n" by simp
  then show ?thesis using n(2) s by simp
qed

text \<open>
  C36. A function that fetches a remote object is never told its size. Whatever the scheduler puts
  on the channels when the data of an object arrives, no executor decodes it into the object with
  the size that arrived: the handler appends the size as one character where the other replies
  append its decimal digits, so the library fails to parse it or reads a smaller number.
\<close>

theorem remote_get_size_lost:
  assumes "handle_data_resp cfg now msg st = Inr (st', out)" and "ToExecutor e reply \<in> set out"
  shows "get_object_reply nm rid (Some reply)
    \<noteq> Inr (Some \<lparr>eo_obj_name = nm, eo_size = unat (rv_data_size msg), eo_target_func = []\<rparr>)"
proof
  let ?ob = "\<lparr>eo_obj_name = nm, eo_size = unat (rv_data_size msg), eo_target_func = []\<rparr>"
  assume dec: "get_object_reply nm rid (Some reply) = Inr (Some ?ob)"
  consider "is_call reply" | rid' where "reply = generic_response rid' [byte (ucast (rv_data_size msg))]"
    using data_resp_sends [OF assms] by blast
  then show False
  proof cases
    case 1
    then have "byte_at reply 0 = Inr 1" by (cases reply) (auto simp: is_call_def)
    then show ?thesis using dec by (simp add: get_object_reply_def)
  next
    case 2
    have "(of_char (byte (ucast (rv_data_size msg))) :: nat) = unat (rv_data_size msg) mod 256"
      by (simp add: byte_def unsigned_ucast_eq take_bit_eq_mod)
    moreover have "unat (rv_data_size msg) mod 256 \<le> unat (rv_data_size msg)" by (rule mod_less_eq_dividend)
    moreover note reply_one_char [OF dec [unfolded 2], unfolded ephe_object.simps]
    ultimately show ?thesis by linarith
  qed
qed

theorem remote_get_size_lost_witness:
  "\<exists>st' reply. handle_data_resp node_config 0 (empty_recv_msg\<lparr>rv_msg_type := DataResp, rv_data_key := ''b|k_s1'', rv_data_size := 53\<rparr>)
       (idle_node\<lparr>ls_remote_gets := [(''b|k_s1'', [\<lparr>io_executor_id = 0, io_req_id = 7, io_recv_time = 0\<rparr>])]\<rparr>)
     = Inr (st', [ToExecutor 0 reply])
   \<and> get_object_reply ''b|k_s1'' 7 (Some reply) \<noteq> Inr (Some \<lparr>eo_obj_name = ''b|k_s1'', eo_size = 53, eo_target_func = []\<rparr>)"
proof -
  let ?msg = "empty_recv_msg\<lparr>rv_msg_type := DataResp, rv_data_key := ''b|k_s1'', rv_data_size := 53\<rparr>"
  obtain st' reply where r: "handle_data_resp node_config 0 ?msg
       (idle_node\<lparr>ls_remote_gets := [(''b|k_s1'', [\<lparr>io_executor_id = 0, io_req_id = 7, io_recv_time = 0\<rparr>])]\<rparr>)
     = Inr (st', [ToExecutor 0 reply])"
    by (simp add: handle_data_resp_def thenE_def answer_waiting_def send_to_executer_def idle_node_def sched_init_def
      empty_recv_msg_def tget_def Let_def)
  show ?thesis
    using remote_get_size_lost [OF r, of 0 reply "''b|k_s1''" 7] r by auto
qed

end
