(* ===== verification/Data_Plane.thy ===== *)
theory Data_Plane
  imports Node_Protocol
begin

text \<open>
  Objects between nodes. A data request that one node sends is answered by the node that has the
  object, and the answer leaves the same bytes in the shared memory of the requester. A call whose
  arguments are not all on the node waits in \<open>call_id_inflight_args_map\<close>, registered in
  \<open>key_call_id_map\<close> for each object it needs; the arrival of an object starts exactly the calls that
  wait for nothing else.
\<close>

section \<open>Fetching an object\<close>

text \<open>
  C28. An object of another node arrives byte for byte. For a key of at most 255 bytes whose
  location is cached, the request of the communication helper goes to that location, the node that
  has the object answers to the data port of the requesting thread, and handling the answer makes
  the bytes of the object readable under its key on the requesting node and reports its size to
  the scheduler.
\<close>

theorem data_fetch_roundtrip:
  assumes "length key < 256" and "get_key_address key h \<noteq> []"
    and "map_of (os_key_len remote) key = Some (of_nat (length dat))" and "map_of (os_shm remote) key = Some (dat @ rest)"
    and "dat \<noteq> []" and "length dat < 2 ^ 32"
  shows "\<exists>req resp here'. send_data_req_base tid key h = [(get_key_address key h, OutData req)]
    \<and> handle_data_request req remote = Inr [(tcp_address (ch_ip h) (tid + dataAccessClientPort), OutData resp)]
    \<and> handle_data_response resp here = Inr (empty_recv_msg\<lparr>rv_msg_type := DataResp, rv_data_key := key,
         rv_data_size := of_nat (length dat)\<rparr>, here')
    \<and> read_shm key (length dat) here' = Inr dat \<and> (\<forall>k. k \<noteq> key \<longrightarrow> map_of (os_shm here') k = map_of (os_shm here) k)"
proof -
  let ?addr = "tcp_address (ch_ip h) (tid + dataAccessClientPort)"
  have n: "unat (of_nat (length dat) :: u32) = length dat"
    using assms(6) by (simp only: unat_of_nat) (simp add: take_bit_nat_eq_self)
  have pos: "(0 :: u32) < of_nat (length dat)"
    using n assms(5) by (cases "of_nat (length dat) = (0 :: u32)") (auto simp: word_gt_0)
  have req: "send_data_req_base tid key h = [(get_key_address key h, OutData (keyed_message key ?addr))]"
    using assms(2) by (simp add: send_data_req_base_def Let_def)
  have resp: "handle_data_request (keyed_message key ?addr) remote = Inr [(?addr, OutData (keyed_message key dat))]"
    using assms(1,3,4) pos by (simp add: handle_data_request_def get_shm_obj_def thas_def tget_def shm_open_def n)
  obtain here' where c: "copy_to_shm_obj key dat here = Inr here'"
    using copy_returns by blast
  then have "handle_data_response (keyed_message key dat) here = Inr (empty_recv_msg\<lparr>rv_msg_type := DataResp,
      rv_data_key := key, rv_data_size := of_nat (length dat)\<rparr>, here')"
    using assms(1) by (simp add: handle_data_response_def)
  then show ?thesis
    using req resp copy_then_read(1) [OF c] copy_keeps_others [OF c] by blast
qed

definition remote_store :: obj_store where
  "remote_store = \<lparr>os_key_len = [(''b|k_s1'', 2)], os_key_val = [], os_shm = [(''b|k_s1'', ''hi'')]\<rparr>"

theorem data_fetch_roundtrip_witness:
  "\<exists>req resp here'. send_data_req_base 0 ''b|k_s1'' (node_helper\<lparr>ch_key_address := [(''b|k_s1'', ''tcp://10.0.0.3:7000'')]\<rparr>)
       = [(''tcp://10.0.0.3:7000'', OutData req)]
     \<and> handle_data_request req remote_store = Inr [(tcp_address ''10.0.0.2'' dataAccessClientPort, OutData resp)]
     \<and> handle_data_response resp empty_store
         = Inr (empty_recv_msg\<lparr>rv_msg_type := DataResp, rv_data_key := ''b|k_s1'', rv_data_size := 2\<rparr>, here')
     \<and> read_shm ''b|k_s1'' (length ''hi'') here' = Inr ''hi''"
  using data_fetch_roundtrip [of "''b|k_s1''" "node_helper\<lparr>ch_key_address := [(''b|k_s1'', ''tcp://10.0.0.3:7000'')]\<rparr>" remote_store "''hi''" "[]"
      0 empty_store]
  by (auto simp: get_key_address_def tget_def remote_store_def empty_store_def node_helper_def comm_helper_init_def)

section \<open>Calls that wait for objects\<close>

definition waiting_inv :: "sched_state \<Rightarrow> bool" where
  "waiting_inv st \<longleftrightarrow>
     (\<forall>cid k. cid \<in> set (tget [] (ls_key_calls st) k) \<longleftrightarrow>
        (\<exists>ia. map_of (ls_inflight st) cid = Some ia \<and> k \<in> set (ia_inflight ia)))
   \<and> (\<forall>cid ia. map_of (ls_inflight st) cid = Some ia \<longrightarrow> ia_inflight ia \<noteq> [])
   \<and> (\<forall>k. distinct (tget [] (ls_key_calls st) k))"

text \<open>Scheduling changes neither the sizes that the node has recorded nor the owners of its functions.\<close>

definition same_reads :: "sched_state \<Rightarrow> sched_state \<Rightarrow> sched_out list \<Rightarrow> bool" where
  "same_reads st st' out \<longleftrightarrow> (\<forall>k. len_of (ls_store st') k = len_of (ls_store st) k) \<and> nv_func_app (ls_view st') = nv_func_app (ls_view st)"

interpretation reads: step_effect same_reads
  by unfold_locales (auto simp: same_reads_def)

lemma touch_len_of [simp]: "len_of (touch_len key os) k = len_of os k"
  by (simp add: touch_len_def)

lemma fold_touch_len_of [simp]: "len_of (fold touch_len keys os) k = len_of os k"
  by (induction keys arbitrary: os) simp_all

lemma pack_args_len: "pack_args flag args os = Inr (xs, os') \<Longrightarrow> len_of os' k = len_of os k"
  by (induction flag args os arbitrary: xs os' rule: pack_args.induct) (auto simp: Let_def bindE_Inr_iff)

lemma pack_all_len: "pack_all flag argss os = Inr (xs, os') \<Longrightarrow> len_of os' k = len_of os k"
  by (induction flag argss os arbitrary: xs os' rule: pack_all.induct) (auto simp: bindE_Inr_iff pack_args_len)

lemma with_helper_store: "with_helper f st = Inr (st', out) \<Longrightarrow> ls_store st' = ls_store st \<and> ls_view st' = ls_view st"
  by (auto simp: with_helper_def bindE_Inr_iff)

lemma forward_reads:
  assumes "forward_call_via_helper session app fs argss flag st = Inr (st', out)"
  shows "same_reads st st' out"
proof -
  consider g where "with_helper g st = Inr (st', out)"
    | packed os g where "pack_all flag argss (ls_store st) = Inr (packed, os)" "with_helper g (st\<lparr>ls_store := os\<rparr>) = Inr (st', out)"
    using assms by (auto simp: forward_call_via_helper_def Let_def bindE_Inr_iff split: if_splits)
  then show ?thesis
  proof cases
    case 1
    then show ?thesis using with_helper_store by (simp add: same_reads_def)
  next
    case 2
    then show ?thesis using with_helper_store [OF 2(2)] pack_all_len [OF 2(1)] by (simp add: same_reads_def)
  qed
qed

lemma fold_note_rerun_store:
  "ls_store (fold (note_rerun now f s args flag) ms st) = ls_store st
   \<and> nv_func_app (ls_view (fold (note_rerun now f s args flag) ms st)) = nv_func_app (ls_view st)"
  by (induction ms arbitrary: st) (simp_all add: note_rerun_def Let_def)

lemma schedule_reads:
  assumes "schedule_func_call cfg now session app f args flag cpu mem st = Inr (st', out)"
  shows "same_reads st st' out"
  using assms
proof (cases rule: schedule_cases)
  case (run x st1)
  have "ls_store st1 = ls_store st" "ls_view st1 = ls_view st"
    using run(1) by (auto simp: pick_executor_def Let_def case_prod_unfold split: option.splits if_splits)
  then show ?thesis
    using run(2) by (auto simp: run_on_executor_def send_to_executer_def bindE_Inr_iff same_reads_def fold_note_rerun_store split: if_splits)
next
  case (forward fargs)
  then show ?thesis by (rule forward_reads)
qed (simp_all add: same_reads_def)

lemma sized_args_cong: "(\<And>k. len_of os k = len_of os' k) \<Longrightarrow> sized_args os keys = sized_args os' keys"
  by (simp add: sized_args_def)

definition woken :: "string \<Rightarrow> inflight_args \<Rightarrow> inflight_args" where
  "woken key ia = ia\<lparr>ia_inflight := removeAll key (ia_inflight ia)\<rparr>"

definition still_waiting :: "string \<Rightarrow> inflight_args \<Rightarrow> inflight_args option" where
  "still_waiting key ia = (if set (ia_inflight ia) \<subseteq> {key} then None else Some (woken key ia))"

text \<open>The waiting call was scheduled with its arguments and their sizes, and what it sent is in \<open>out\<close>.\<close>

definition started :: "'w sched_config \<Rightarrow> time_point \<Rightarrow> sched_state \<Rightarrow> inflight_args \<Rightarrow> sched_out list \<Rightarrow> bool" where
  "started cfg now st ia out \<longleftrightarrow>
     (\<exists>st1 st2 o1. schedule_func_call cfg now (ia_session ia) (tget [] (nv_func_app (ls_view st)) (ia_func_name ia)) (ia_func_name ia)
        (sized_args (ls_store st) (ia_key_args ia)) (ia_flag ia) (ia_cpu ia) (ia_mem ia) st1 = Inr (st2, o1) \<and> set o1 \<subseteq> set out)"

lemma started_cong: "same_reads st st' o1 \<Longrightarrow> started cfg now st' ia out \<longleftrightarrow> started cfg now st ia out"
  using sized_args_cong [of "ls_store st'" "ls_store st"] by (simp add: same_reads_def started_def)

lemma started_mono: "started cfg now st ia out \<Longrightarrow> set out \<subseteq> set out' \<Longrightarrow> started cfg now st ia out'"
  unfolding started_def by blast

lemma wake_call_effect:
  assumes "wake_call cfg now key cid st = Inr (st', out)" and "map_of (ls_inflight st) cid = Some ia"
  shows "ls_key_calls st' = ls_key_calls st" and "same_reads st st' out"
    and "map_of (ls_inflight st') = (map_of (ls_inflight st))(cid := still_waiting key ia)"
    and "still_waiting key ia = None \<Longrightarrow> started cfg now st ia out"
proof -
  have ia: "tget empty_inflight (ls_inflight st) cid = ia" using assms(2) by (simp add: tget_def)
  let ?st1 = "st\<lparr>ls_inflight := tput cid (woken key ia) (ls_inflight st)\<rparr>"
  have e: "ia_inflight (woken key ia) = [] \<longleftrightarrow> still_waiting key ia = None"
    by (auto simp: woken_def still_waiting_def removeAll_filter_not_eq filter_empty_conv)
  have "ls_key_calls st' = ls_key_calls st \<and> same_reads st st' out
    \<and> map_of (ls_inflight st') = (map_of (ls_inflight st))(cid := still_waiting key ia)
    \<and> (still_waiting key ia = None \<longrightarrow> started cfg now st ia out)"
  proof (cases "still_waiting key ia = None")
    case False
    then have "st' = ?st1"
      using assms(1) e by (auto simp: wake_call_def Let_def ia woken_def)
    then show ?thesis using False by (auto simp: same_reads_def still_waiting_def)
  next
    case True
    let ?st2 = "?st1\<lparr>ls_store := fold touch_len (ia_key_args ia) (ls_store st)\<rparr>"
    obtain st3 where s: "schedule_func_call cfg now (ia_session ia) (tget [] (nv_func_app (ls_view st)) (ia_func_name ia)) (ia_func_name ia)
        (sized_args (fold touch_len (ia_key_args ia) (ls_store st)) (ia_key_args ia)) (ia_flag ia) (ia_cpu ia) (ia_mem ia) ?st2 = Inr (st3, out)"
        and st': "st' = st3\<lparr>ls_inflight := terase cid (ls_inflight st3)\<rparr>"
      using assms(1) True e by (auto simp: wake_call_def Let_def ia woken_def bindE_Inr_iff)
    have "sized_args (fold touch_len (ia_key_args ia) (ls_store st)) (ia_key_args ia) = sized_args (ls_store st) (ia_key_args ia)"
      by (rule sized_args_cong) simp
    then have "started cfg now st ia out" using s unfolding started_def by auto
    then show ?thesis
      using True st' schedule_effect(2) [OF s] schedule_reads [OF s] by (auto simp: sched_frame_def same_reads_def)
  qed
  then show "ls_key_calls st' = ls_key_calls st" "same_reads st st' out"
    "map_of (ls_inflight st') = (map_of (ls_inflight st))(cid := still_waiting key ia)"
    "still_waiting key ia = None \<Longrightarrow> started cfg now st ia out"
    by blast+
qed

lemma wake_calls_effect:
  assumes "runE (wake_call cfg now key) cids st = Inr (st', out)" and "distinct cids"
    and "\<forall>cid \<in> set cids. map_of (ls_inflight st) cid \<noteq> None"
  shows "ls_key_calls st' = ls_key_calls st \<and> same_reads st st' out
    \<and> (\<forall>cid. map_of (ls_inflight st') cid =
        (if cid \<in> set cids then still_waiting key (the (map_of (ls_inflight st) cid)) else map_of (ls_inflight st) cid))
    \<and> (\<forall>cid \<in> set cids. still_waiting key (the (map_of (ls_inflight st) cid)) = None \<longrightarrow>
         started cfg now st (the (map_of (ls_inflight st) cid)) out)"
  using assms
proof (induction cids arbitrary: st out)
  case Nil
  then show ?case by (simp add: reads.refl)
next
  case (Cons cid cids)
  obtain st1 o1 o2 where s: "wake_call cfg now key cid st = Inr (st1, o1)" "runE (wake_call cfg now key) cids st1 = Inr (st', o2)" "out = o1 @ o2"
    using Cons.prems(1) by (auto simp: runE_Cons_Inr simp del: runE.simps(2))
  obtain ia where ia: "map_of (ls_inflight st) cid = Some ia" using Cons.prems(3) by auto
  note w = wake_call_effect [OF s(1) ia]
  have same: "map_of (ls_inflight st1) c = map_of (ls_inflight st) c" if "c \<noteq> cid" for c
    using w(3) that by simp
  have "\<forall>c \<in> set cids. map_of (ls_inflight st1) c \<noteq> None"
    using Cons.prems(2,3) same by (metis distinct.simps(2) list.set_intros(2))
  note ih = Cons.IH [OF s(2) _ this]
  have "started cfg now st (the (map_of (ls_inflight st) c)) out"
    if "c \<in> set (cid # cids)" "still_waiting key (the (map_of (ls_inflight st) c)) = None" for c
  proof (cases "c = cid")
    case True
    then show ?thesis using w(4) that ia s(3) started_mono [of cfg now st ia o1 out] by simp
  next
    case False
    then have "started cfg now st1 (the (map_of (ls_inflight st1) c)) o2"
      using ih Cons.prems(2) that same by auto
    then have "started cfg now st (the (map_of (ls_inflight st) c)) o2"
      using started_cong [OF w(2), of cfg now] same [OF False] by metis
    then show ?thesis by (rule started_mono) (simp add: s(3))
  qed
  moreover have "map_of (ls_inflight st') c = (if c \<in> set (cid # cids) then still_waiting key (the (map_of (ls_inflight st) c))
      else map_of (ls_inflight st) c)" for c
    using ih Cons.prems(2) w(3) ia same by (cases "c = cid") auto
  moreover have "ls_key_calls st' = ls_key_calls st" "same_reads st st' out"
    using ih Cons.prems(2) w(1) reads.trans [OF w(2), of st' o2] s(3) by auto
  ultimately show ?case by blast
qed

lemma still_waiting_other: "key \<notin> set (ia_inflight ia) \<Longrightarrow> ia_inflight ia \<noteq> [] \<Longrightarrow> still_waiting key ia = Some ia"
  by (cases "ia_inflight ia") (auto simp: still_waiting_def woken_def)

lemma waiting_inv_arrival:
  assumes "waiting_inv st" and "ls_key_calls st' = terase key (ls_key_calls st)"
    and "\<And>cid. map_of (ls_inflight st') cid = (case map_of (ls_inflight st) cid of None \<Rightarrow> None | Some ia \<Rightarrow> still_waiting key ia)"
  shows "waiting_inv st'"
proof -
  have inv: "cid \<in> set (tget [] (ls_key_calls st) k) \<longleftrightarrow> (\<exists>ia. map_of (ls_inflight st) cid = Some ia \<and> k \<in> set (ia_inflight ia))" for cid k
    using assms(1) unfolding waiting_inv_def by blast
  have "cid \<in> set (tget [] (ls_key_calls st') k) \<longleftrightarrow> (\<exists>ia. map_of (ls_inflight st') cid = Some ia \<and> k \<in> set (ia_inflight ia))" for cid k
    unfolding assms(2,3) using inv [of cid k] by (auto simp: still_waiting_def woken_def split: option.splits if_splits)
  moreover have "ia_inflight ia \<noteq> []" if "map_of (ls_inflight st') cid = Some ia" for cid ia
    using that by (auto simp: assms(3) still_waiting_def woken_def removeAll_filter_not_eq filter_empty_conv split: option.splits if_splits)
  moreover have "distinct (tget [] (ls_key_calls st') k)" for k
    using assms(1,2) by (simp add: waiting_inv_def)
  ultimately show ?thesis by (simp add: waiting_inv_def)
qed

lemma answer_waiting_state: "answer_waiting body rs st = Inr (st', out) \<Longrightarrow> st' = st"
proof (induction rs arbitrary: st out)
  case (Cons r rs)
  then obtain st1 o1 o2 where "send_to_executer (io_executor_id r) (generic_response (io_req_id r) body) st = Inr (st1, o1)"
      "answer_waiting body rs st1 = Inr (st', o2)"
    by (auto simp: answer_waiting_def runE_Cons_Inr simp del: runE.simps(2))
  then show ?case using Cons.IH by (auto simp: send_to_executer_def split: if_splits)
qed (simp add: answer_waiting_def)

text \<open>
  C3. The arrival of an object starts exactly the calls that wait for nothing else. From a state
  in which the two tables of waiting calls agree (\<open>waiting_inv\<close>), handling a data response keeps
  them in agreement and records the size of the object; afterwards nobody waits for it, a call that
  waited only for it has left the tables and was scheduled, with its session, function, arguments
  and their sizes, and every other call still waits for exactly the rest of its objects.
\<close>

theorem data_arrival_starts_complete_calls:
  assumes "handle_data_resp cfg now msg st = Inr (st', out)" and "waiting_inv st"
  shows "waiting_inv st' \<and> len_of (ls_store st') (rv_data_key msg) = rv_data_size msg
    \<and> (\<forall>cid. map_of (ls_inflight st') cid =
         (case map_of (ls_inflight st) cid of None \<Rightarrow> None | Some ia \<Rightarrow> still_waiting (rv_data_key msg) ia))
    \<and> (\<forall>cid ia. map_of (ls_inflight st) cid = Some ia \<longrightarrow> set (ia_inflight ia) = {rv_data_key msg} \<longrightarrow>
         started cfg now (st\<lparr>ls_store := (ls_store st)\<lparr>os_key_len := tput (rv_data_key msg) (rv_data_size msg) (os_key_len (ls_store st))\<rparr>\<rparr>) ia out)"
proof -
  let ?key = "rv_data_key msg"
  let ?st1 = "st\<lparr>ls_store := (ls_store st)\<lparr>os_key_len := tput ?key (rv_data_size msg) (os_key_len (ls_store st))\<rparr>\<rparr>"
  let ?st2 = "?st1\<lparr>ls_remote_gets := terase ?key (ls_remote_gets st)\<rparr>" and ?cids = "tget [] (ls_key_calls st) ?key"
  obtain st3 o1 o2 where 1: "runE (wake_call cfg now ?key) ?cids ?st2 = Inr (st3, o2)"
      and 2: "st' = st3\<lparr>ls_key_calls := terase ?key (ls_key_calls st3)\<rparr>" "out = o1 @ o2"
    using assms(1) by (auto simp: handle_data_resp_def Let_def thenE_def bindE_Inr_iff dest!: answer_waiting_state)
  have inv: "cid \<in> set (tget [] (ls_key_calls st) k) \<longleftrightarrow> (\<exists>ia. map_of (ls_inflight st) cid = Some ia \<and> k \<in> set (ia_inflight ia))" for cid k
    using assms(2) unfolding waiting_inv_def by blast
  have d: "distinct (tget [] (ls_key_calls st) k)" for k using assms(2) unfolding waiting_inv_def by blast
  have ne: "ia_inflight ia \<noteq> []" if "map_of (ls_inflight st) cid = Some ia" for cid ia
    using assms(2) that unfolding waiting_inv_def by blast
  have pr: "\<forall>cid \<in> set ?cids. map_of (ls_inflight ?st2) cid \<noteq> None"
    using inv [of _ ?key] by auto
  have w: "ls_key_calls st3 = ls_key_calls st" "same_reads ?st2 st3 o2"
      "\<And>cid. map_of (ls_inflight st3) cid = (if cid \<in> set ?cids then still_waiting ?key (the (map_of (ls_inflight st) cid)) else map_of (ls_inflight st) cid)"
      "\<And>cid. cid \<in> set ?cids \<Longrightarrow> still_waiting ?key (the (map_of (ls_inflight st) cid)) = None \<Longrightarrow> started cfg now ?st2 (the (map_of (ls_inflight st) cid)) o2"
    using wake_calls_effect [OF 1 d pr] by simp_all
  have other: "still_waiting ?key ia = Some ia" if "map_of (ls_inflight st) cid = Some ia" "cid \<notin> set ?cids" for cid ia
    using that inv [of cid ?key] ne [OF that(1)] by (intro still_waiting_other) auto
  have fl: "map_of (ls_inflight st') cid = (case map_of (ls_inflight st) cid of None \<Rightarrow> None | Some ia \<Rightarrow> still_waiting ?key ia)" for cid
    using w(3) [of cid] 2(1) inv [of cid ?key] other [of cid] by (cases "map_of (ls_inflight st) cid") auto
  have st: "started cfg now ?st1 ia out" if "map_of (ls_inflight st) cid = Some ia" "set (ia_inflight ia) = {?key}" for cid ia
  proof -
    have "started cfg now ?st2 ia o2" using w(4) [of cid] that inv [of cid ?key] by (simp add: still_waiting_def)
    then have "started cfg now ?st1 ia o2" by (simp add: started_def)
    then show ?thesis by (rule started_mono) (simp add: 2(2))
  qed
  have "waiting_inv st'"
    by (rule waiting_inv_arrival [OF assms(2) _ fl]) (simp add: 2(1) w(1))
  then show ?thesis using fl st 2(1) w(2) by (simp add: same_reads_def)
qed

definition waiting_node :: sched_state where
  "waiting_node = idle_node\<lparr>ls_inflight := [(4, \<lparr>ia_func_name = ''f'', ia_session = ''s1'', ia_key_args = [''b|k_s1''],
       ia_inflight = [''b|k_s1''], ia_flag = 1, ia_cpu = 0, ia_mem = 0\<rparr>)], ls_key_calls := [(''b|k_s1'', [4])]\<rparr>"

theorem data_arrival_starts_complete_calls_witness:
  "\<exists>st' out. handle_data_resp node_config 0 (empty_recv_msg\<lparr>rv_msg_type := DataResp, rv_data_key := ''b|k_s1'', rv_data_size := 2\<rparr>) waiting_node
      = Inr (st', out) \<and> waiting_inv st' \<and> map_of (ls_inflight st') 4 = None \<and> len_of (ls_store st') ''b|k_s1'' = 2"
proof -
  let ?msg = "empty_recv_msg\<lparr>rv_msg_type := DataResp, rv_data_key := ''b|k_s1'', rv_data_size := 2\<rparr>"
  have inv: "waiting_inv waiting_node"
    by (auto simp: waiting_inv_def waiting_node_def tget_def idle_node_def sched_init_def Let_def)
  obtain st' out where r: "handle_data_resp node_config 0 ?msg waiting_node = Inr (st', out)"
    by (simp add: handle_data_resp_def thenE_def answer_waiting_def waiting_node_def wake_call_def touch_len_def tmod_def
      schedule_func_call_def pick_executor_def run_on_executor_def send_to_executer_def idle_node_def sched_init_def
      node_defs empty_recv_msg_def empty_view_def empty_store_def tget_def Let_def)
  show ?thesis
    using data_arrival_starts_complete_calls [OF r inv] r
    by (auto simp: waiting_node_def idle_node_def sched_init_def empty_recv_msg_def still_waiting_def Let_def)
qed

section \<open>Starting to wait\<close>

definition missing_args :: "obj_store \<Rightarrow> string list \<Rightarrow> string set" where
  "missing_args os args = {a \<in> set args. \<not> thas (os_key_len os) a}"

lemma fetch_args_effect:
  assumes "fetch_args args st = Inr (missing, st', out)"
  shows "set missing = missing_args (ls_store st) args \<and> ls_store st' = ls_store st \<and> ls_inflight st' = ls_inflight st
    \<and> ls_call_id st' = ls_call_id st
    \<and> (\<forall>k. tget [] (ls_key_calls st') k = (if k \<in> set missing then ins (ls_call_id st) (tget [] (ls_key_calls st) k) else tget [] (ls_key_calls st) k))"
  using assms
proof (induction args arbitrary: st missing out)
  case Nil
  then show ?case by (simp add: missing_args_def)
next
  case (Cons a as)
  show ?case
  proof (cases "thas (os_key_len (ls_store st)) a")
    case True
    have "missing_args (ls_store st) (a # as) = missing_args (ls_store st) as" using True by (auto simp: missing_args_def)
    moreover have "fetch_args as st = Inr (missing, st', out)" using Cons.prems True by simp
    ultimately show ?thesis using Cons.IH [of st missing out] by simp
  next
    case False
    obtain st1 out1 missing1 out2 where s: "(if thas (ls_key_calls st) a then Inr (st, []) else with_helper (send_data_req a) st) = Inr (st1, out1)"
        "fetch_args as (st1\<lparr>ls_key_calls := tmod [] (ins (ls_call_id st1)) a (ls_key_calls st1)\<rparr>) = Inr (missing1, st', out2)"
        "missing = ins a missing1"
      using Cons.prems False by (auto simp: bindE_Inr_iff)
    have f: "ls_store st1 = ls_store st" "ls_inflight st1 = ls_inflight st" "ls_call_id st1 = ls_call_id st" "ls_key_calls st1 = ls_key_calls st"
      using s(1) with_helper_store [of "send_data_req a" st st1 out1] with_helper_frame [of "send_data_req a" st st1 out1]
      by (auto simp: sched_frame_def split: if_splits)
    have ih: "set missing1 = missing_args (ls_store st) as \<and> ls_store st' = ls_store st \<and> ls_inflight st' = ls_inflight st
      \<and> ls_call_id st' = ls_call_id st
      \<and> (\<forall>k. tget [] (ls_key_calls st') k = (if k \<in> set missing1 then ins (ls_call_id st) (tget [] (tmod [] (ins (ls_call_id st)) a (ls_key_calls st)) k)
             else tget [] (tmod [] (ins (ls_call_id st)) a (ls_key_calls st)) k))"
      using Cons.IH [OF s(2)] f by simp
    have m: "set missing = missing_args (ls_store st) (a # as)"
      using ih s(3) False by (auto simp: missing_args_def)
    have "tget [] (ls_key_calls st') k = (if k \<in> set missing then ins (ls_call_id st) (tget [] (ls_key_calls st) k) else tget [] (ls_key_calls st) k)" for k
      using ih s(3) by (cases "k = a") (simp_all add: List.insert_def)
    then show ?thesis using ih m by blast
  qed
qed

lemma waiting_inv_new_call:
  assumes "waiting_inv st" and "\<not> thas (ls_inflight st) cid" and "missing \<noteq> []" and "ia_inflight ia = missing"
    and "\<And>k. tget [] (ls_key_calls st') k = (if k \<in> set missing then ins cid (tget [] (ls_key_calls st) k) else tget [] (ls_key_calls st) k)"
    and "map_of (ls_inflight st') = (map_of (ls_inflight st))(cid \<mapsto> ia)"
  shows "waiting_inv st'"
proof -
  have inv: "c \<in> set (tget [] (ls_key_calls st) k) \<longleftrightarrow> (\<exists>ia. map_of (ls_inflight st) c = Some ia \<and> k \<in> set (ia_inflight ia))" for c k
    using assms(1) unfolding waiting_inv_def by blast
  have fresh: "map_of (ls_inflight st) cid = None" using assms(2) by (simp add: thas_def)
  have "c \<in> set (tget [] (ls_key_calls st') k) \<longleftrightarrow> (\<exists>ia. map_of (ls_inflight st') c = Some ia \<and> k \<in> set (ia_inflight ia))" for c k
    unfolding assms(5,6) using inv [of c k] fresh assms(4) by (cases "c = cid") auto
  then show ?thesis
    using assms(1,3,4) by (auto simp: waiting_inv_def assms(5,6))
qed

text \<open>
  C31. A call on objects starts when they are all here, and otherwise waits for exactly those that
  are not. For an item of a received call whose arguments are references, with a call number that no
  waiting call has, the tables of waiting calls stay in agreement; if the node knows every object the
  call is scheduled at once with their sizes and nobody starts to wait, otherwise the call is
  entered with its function, session, arguments, flag and resources, waiting for the missing
  objects only.
\<close>

theorem call_waits_for_missing_objects:
  assumes "handle_call_item cfg now msg i st = Inr (st', out)" and "waiting_inv st"
    and "\<not> thas (ls_inflight st) (ls_call_id st)" and "rv_is_func_arg_keys msg ! i > 0"
  shows "waiting_inv st' \<and> ls_call_id st' = ls_call_id st + 1 \<and>
    (if missing_args (ls_store st) (rv_func_args msg ! i) = {}
     then map_of (ls_inflight st') = map_of (ls_inflight st)
        \<and> (\<exists>cpu mem st1 st2 o1. schedule_func_call cfg now (rv_session_id msg) (rv_app_name msg) (rv_func_name msg ! i)
             (sized_args (ls_store st) (rv_func_args msg ! i)) (rv_is_func_arg_keys msg ! i) cpu mem st1 = Inr (st2, o1) \<and> set o1 \<subseteq> set out)
     else \<exists>ia. map_of (ls_inflight st') = (map_of (ls_inflight st))(ls_call_id st \<mapsto> ia)
        \<and> ia_func_name ia = rv_func_name msg ! i \<and> ia_session ia = rv_session_id msg \<and> ia_key_args ia = rv_func_args msg ! i
        \<and> ia_flag ia = rv_is_func_arg_keys msg ! i \<and> set (ia_inflight ia) = missing_args (ls_store st) (rv_func_args msg ! i))"
proof -
  let ?f = "rv_func_name msg ! i" and ?args = "rv_func_args msg ! i" and ?flag = "rv_is_func_arg_keys msg ! i"
  let ?cpu = "if i < length (rv_cpu_cores msg) then rv_cpu_cores msg ! i else 0"
  let ?mem = "if i < length (rv_memory_mb msg) then rv_memory_mb msg ! i else 0"
  obtain missing st1 out1 where fa: "fetch_args ?args st = Inr (missing, st1, out1)"
      and r: "(if missing = []
                 then bindE (schedule_func_call cfg now (rv_session_id msg) (rv_app_name msg) ?f (sized_args (ls_store st1) ?args) ?flag ?cpu ?mem st1)
                        (\<lambda>(st2, out2). Inr (st2\<lparr>ls_call_id := ls_call_id st2 + 1\<rparr>, out1 @ out2))
                 else Inr (st1\<lparr>ls_inflight := tput (ls_call_id st1) \<lparr>ia_func_name = ?f, ia_session = rv_session_id msg,
                        ia_key_args = ?args, ia_inflight = missing, ia_flag = ?flag, ia_cpu = ?cpu, ia_mem = ?mem\<rparr> (ls_inflight st1),
                        ls_call_id := ls_call_id st1 + 1\<rparr>, out1)) = Inr (st', out)"
    using assms(1,4) by (auto simp: handle_call_item_def Let_def bindE_Inr_iff nth_or_Inr_iff split: if_splits)
  note e = fetch_args_effect [OF fa]
  show ?thesis
  proof (cases "missing = []")
    case True
    then obtain st2 out2 where s: "schedule_func_call cfg now (rv_session_id msg) (rv_app_name msg) ?f (sized_args (ls_store st1) ?args) ?flag ?cpu ?mem st1
        = Inr (st2, out2)" "st' = st2\<lparr>ls_call_id := ls_call_id st2 + 1\<rparr>" "out = out1 @ out2"
      using r by (auto simp: bindE_Inr_iff)
    have fr: "ls_inflight st' = ls_inflight st" "ls_key_calls st' = ls_key_calls st1" "ls_call_id st' = ls_call_id st + 1"
      using schedule_effect(2) [OF s(1)] s(2) e by (auto simp: sched_frame_def)
    have "waiting_inv st'" using assms(2) e fr True by (simp add: waiting_inv_def)
    moreover have "\<exists>cpu mem st1 st2 o1. schedule_func_call cfg now (rv_session_id msg) (rv_app_name msg) ?f
        (sized_args (ls_store st) ?args) ?flag cpu mem st1 = Inr (st2, o1) \<and> set o1 \<subseteq> set out"
      using s(1,3) e by (intro exI [of _ ?cpu] exI [of _ ?mem] exI [of _ st1] exI [of _ st2] exI [of _ out2]) simp
    ultimately show ?thesis using e fr True by simp
  next
    case False
    let ?ia = "\<lparr>ia_func_name = ?f, ia_session = rv_session_id msg, ia_key_args = ?args, ia_inflight = missing, ia_flag = ?flag, ia_cpu = ?cpu, ia_mem = ?mem\<rparr>"
    have st': "st' = st1\<lparr>ls_inflight := tput (ls_call_id st) ?ia (ls_inflight st), ls_call_id := ls_call_id st + 1\<rparr>"
      using r False e by simp
    then have m: "map_of (ls_inflight st') = (map_of (ls_inflight st))(ls_call_id st \<mapsto> ?ia)" by auto
    have "waiting_inv st'"
      using waiting_inv_new_call [OF assms(2,3) False _ _ m] e st' by simp
    then show ?thesis using e False st' m by (auto intro!: exI [of _ ?ia])
  qed
qed

theorem call_waits_for_missing_objects_witness:
  "\<exists>st' out ia. handle_call_item node_config 0 (empty_recv_msg\<lparr>rv_msg_type := Call, rv_session_id := ''s1'', rv_func_name := [''f''],
        rv_func_args := [[''b|k_s1'']], rv_is_func_arg_keys := [1]\<rparr>) 0 idle_node = Inr (st', out)
     \<and> waiting_inv st' \<and> map_of (ls_inflight st') 0 = Some ia \<and> set (ia_inflight ia) = {''b|k_s1''}"
proof -
  let ?msg = "empty_recv_msg\<lparr>rv_msg_type := Call, rv_session_id := ''s1'', rv_func_name := [''f''],
        rv_func_args := [[''b|k_s1'']], rv_is_func_arg_keys := [1]\<rparr>"
  have inv: "waiting_inv idle_node" and cid: "\<not> thas (ls_inflight idle_node) (ls_call_id idle_node)" and z: "ls_call_id idle_node = 0"
    and miss: "missing_args (ls_store idle_node) [''b|k_s1''] = {''b|k_s1''}"
    by (auto simp: waiting_inv_def idle_node_def sched_init_def missing_args_def empty_store_def Let_def)
  obtain st' out where r: "handle_call_item node_config 0 ?msg 0 idle_node = Inr (st', out)"
    by (simp add: handle_call_item_def nth_or_def empty_recv_msg_def idle_node_def sched_init_def with_helper_def send_data_req_def
      dispatch_io_def send_data_req_base_def get_key_address_def node_defs empty_store_def Let_def)
  have flag: "rv_is_func_arg_keys ?msg ! 0 > 0" "rv_func_args ?msg ! 0 = [''b|k_s1'']" by simp_all
  obtain ia where "map_of (ls_inflight st') = (map_of (ls_inflight idle_node))(ls_call_id idle_node \<mapsto> ia)"
      "set (ia_inflight ia) = {''b|k_s1''}"
    using call_waits_for_missing_objects [OF r inv cid flag(1)] unfolding flag(2) miss by auto
  then show ?thesis
    using call_waits_for_missing_objects [OF r inv cid flag(1)] r z by (metis fun_upd_same)
qed

end
