(* ===== verification/Deployment.thy ===== *)
theory Deployment
  imports Coord_State Comm_Recv
begin

text \<open>
  A trigger operation across the cluster: the coordinator changes its own triggers and broadcasts
  an update, and the communication helper of every node applies it to the node's view. An added
  trigger is rebuilt on the nodes with the coordinator's configuration; a deleted periodic trigger
  is looked for on nodes that never had it.
\<close>

section \<open>Generated triggers\<close>

lemma set_option_facts [simp]:
  "get_type (set_trigger_option n t) = get_type t" "get_trigger_name (set_trigger_option n t) = get_trigger_name t"
  "get_trigger_option (set_trigger_option n t) = n" "dump_pritimive c (set_trigger_option n t) = dump_pritimive c t"
  "tagged (set_trigger_option n t) = tagged t" "fresh_copy now (set_trigger_option n t) u = fresh_copy now t u"
  by (cases t; simp add: base_defs dump_defs)+

lemma gen_trigger_facts:
  "gen_trigger_pointer c now ty nm w = Some t \<Longrightarrow> get_type t = ty \<and> get_trigger_name t = nm"
  by (cases ty) (auto simp: base_defs Let_def immediate_init_def by_name_init_def by_batch_size_init_def by_set_init_def
      dynamic_group_init_def redundant_init_def by_time_init_def)

section \<open>Views\<close>

definition view_ok :: "node_view \<Rightarrow> bool" where
  "view_ok v \<longleftrightarrow> (\<forall>b. \<forall>r \<in> set (bucket_refs v b). r < length (nv_heap v))"

lemma fold_add_timeout_view [simp]:
  "nv_heap (fold (add_timeout r) hs v) = nv_heap v" "nv_bucket_triggers (fold (add_timeout r) hs v) = nv_bucket_triggers v"
  "nv_bucket_app (fold (add_timeout r) hs v) = nv_bucket_app v"
  by (induction hs arbitrary: v) (simp_all add: add_timeout_def)

lemma build_trigger_appends:
  assumes "view_ok v" and "te_trigger_name e \<noteq> []"
    and "gen_trigger_pointer c now (te_primitive_type e) (te_trigger_name e) (te_primitive e) = Some u"
  shows "bucket_trigger_list (build_trigger c now e v) (te_bucket_name e) = bucket_trigger_list v (te_bucket_name e)
      @ [set_rerun_metadata (map rerun_of_hint (te_hints e)) (set_trigger_option (sint (te_trigger_option e)) u)]"
    and "view_ok (build_trigger c now e v)"
    and "b \<noteq> te_bucket_name e \<Longrightarrow> bucket_trigger_list (build_trigger c now e v) b = bucket_trigger_list v b"
proof -
  have old: "map (\<lambda>r. (nv_heap v @ [x]) ! r) (bucket_refs v b) = map (\<lambda>r. nv_heap v ! r) (bucket_refs v b)" for x b
    using assms(1) by (auto simp: view_ok_def nth_append)
  show "bucket_trigger_list (build_trigger c now e v) (te_bucket_name e) = bucket_trigger_list v (te_bucket_name e)
      @ [set_rerun_metadata (map rerun_of_hint (te_hints e)) (set_trigger_option (sint (te_trigger_option e)) u)]"
    using assms(2,3) by (simp add: bucket_trigger_list_def build_trigger_def Let_def old)
  show "view_ok (build_trigger c now e v)"
    using assms by (auto simp: view_ok_def build_trigger_def Let_def less_Suc_eq)
  show "bucket_trigger_list (build_trigger c now e v) b = bucket_trigger_list v b" if "b \<noteq> te_bucket_name e"
    using assms(2,3) that by (simp add: bucket_trigger_list_def build_trigger_def Let_def old)
qed

lemma add_bucket_view [simp]:
  "nv_heap (add_bucket app b v) = nv_heap v" "nv_bucket_triggers (add_bucket app b v) = nv_bucket_triggers v"
  by (simp_all add: add_bucket_def)

lemma add_bucket_lists [simp]:
  "view_ok (add_bucket app b v) = view_ok v" "bucket_trigger_list (add_bucket app b v) = bucket_trigger_list v"
  by (simp_all add: view_ok_def bucket_trigger_list_def fun_eq_iff)

section \<open>Adding a trigger\<close>

lemma broadcast_reaches:
  "ip \<in> fst ` set (node_status_map st) \<Longrightarrow> (tcp_address ip TriggerUpdatePort, OutUpdate m) \<in> set (broadcast_update st m)"
  by (force simp: broadcast_update_def)

lemma add_trigger_message:
  assumes "to_operation_type req = ADD_TRIGGER" and "thas (bucket_app_map st) (to_bucket_name req)"
    and "trigger_op_handler c cfg now req st = Inr (st1, out)"
  obtains t m where "gen_trigger_pointer c now (to_primitive_type req) (to_trigger_name req) (to_primitive req) = Some t"
    and "tget [] (bucket_triggers_map st1) (to_bucket_name req)
        = tget [] (bucket_triggers_map st) (to_bucket_name req) @ [set_trigger_option (sint (to_trigger_option req)) t]"
    and "\<forall>ip \<in> fst ` set (node_status_map st). (tcp_address ip TriggerUpdatePort, OutUpdate m) \<in> set out"
    and "m = empty_coord_msg\<lparr>uc_ip := cc_private_ip cfg, uc_thread_id := cc_thread_id cfg, uc_app_name := to_app_name req,
        uc_triggers := if to_primitive_type req = BY_TIME then [] else
          [(empty_entity c)\<lparr>te_bucket_name := to_bucket_name req, te_trigger_name := to_trigger_name req,
             te_trigger_option := to_trigger_option req, te_primitive_type := to_primitive_type req,
             te_primitive := dump_pritimive c t, te_hints := to_hints req\<rparr>]\<rparr>"
proof -
  obtain t where g: "gen_trigger_pointer c now (to_primitive_type req) (to_trigger_name req) (to_primitive req) = Some t"
    using assms by (auto simp: trigger_op_handler_def add_trigger_def Let_def bindE_Inr_iff split: option.splits)
  let ?t = "set_trigger_option (sint (to_trigger_option req)) t"
  let ?st = "st\<lparr>bucket_triggers_map := tmod [] (\<lambda>ts. ts @ [?t]) (to_bucket_name req) (bucket_triggers_map st)\<rparr>"
  let ?m = "empty_coord_msg\<lparr>uc_ip := cc_private_ip cfg, uc_thread_id := cc_thread_id cfg, uc_app_name := to_app_name req,
        uc_triggers := if to_primitive_type req = BY_TIME then [] else
          [(empty_entity c)\<lparr>te_bucket_name := to_bucket_name req, te_trigger_name := to_trigger_name req,
             te_trigger_option := to_trigger_option req, te_primitive_type := to_primitive_type req,
             te_primitive := dump_pritimive c t, te_hints := to_hints req\<rparr>]\<rparr>"
  have ty: "get_type t = to_primitive_type req" using gen_trigger_facts [OF g] by simp
  have "st1 = ?st" "\<exists>x. out = x # broadcast_update ?st ?m"
    using assms g ty by (auto simp: trigger_op_handler_def add_trigger_def Let_def empty_coord_msg_def)
  then show thesis
    using that [OF g _ _ refl] broadcast_reaches [of _ ?st ?m] by auto
qed

lemma build_trigger_unnamed: "te_trigger_name e = [] \<Longrightarrow> build_trigger c now e v = v"
  by (simp add: build_trigger_def)

text \<open>
  C6. Adding a trigger arms the cluster. When the coordinator accepts a trigger for a bucket it
  has, it appends the trigger to its own list of the bucket, and every node it knows is sent one and
  the same update. A node that applies it keeps all triggers it has and appends, for a trigger that
  has a name and is not periodic, a fresh copy of the coordinator's trigger: the same type,
  function, name and parameters, the same option, the re-execution hints of the request. Nothing
  is appended on the nodes for a periodic trigger, which stays with the coordinator, or for a trigger
  without a name. Unless the trigger is periodic the node notifies this coordinator thread about
  objects of the bucket from then on.
\<close>

theorem added_trigger_replicated:
  assumes "codec_ok c" and "to_operation_type req = ADD_TRIGGER" and "thas (bucket_app_map st) (to_bucket_name req)"
    and "trigger_op_handler c cfg now req st = Inr (st1, out)" and "view_ok v"
  shows "\<exists>m t u h' v'.
      (\<forall>ip \<in> fst ` set (node_status_map st). (tcp_address ip TriggerUpdatePort, OutUpdate m) \<in> set out)
    \<and> tget [] (bucket_triggers_map st1) (to_bucket_name req) = tget [] (bucket_triggers_map st) (to_bucket_name req) @ [t]
    \<and> apply_update c now' m (h, v) = Inr (h', v') \<and> view_ok v' \<and> fresh_copy now' t u
    \<and> bucket_trigger_list v' (to_bucket_name req) = bucket_trigger_list v (to_bucket_name req)
        @ (if to_primitive_type req = BY_TIME \<or> to_trigger_name req = [] then []
           else [set_rerun_metadata (map rerun_of_hint (to_hints req)) (set_trigger_option (get_trigger_option t) u)])
    \<and> (\<forall>b. b \<noteq> to_bucket_name req \<longrightarrow> bucket_trigger_list v' b = bucket_trigger_list v b)
    \<and> get_notifying_thread (to_bucket_name req) h' = (if to_primitive_type req = BY_TIME then get_notifying_thread (to_bucket_name req) h
        else notify_handler_connect_address (mk_endpoint (cc_private_ip cfg) (cc_thread_id cfg)))"
proof -
  obtain t m where t: "gen_trigger_pointer c now (to_primitive_type req) (to_trigger_name req) (to_primitive req) = Some t"
      "tget [] (bucket_triggers_map st1) (to_bucket_name req)
        = tget [] (bucket_triggers_map st) (to_bucket_name req) @ [set_trigger_option (sint (to_trigger_option req)) t]"
      "\<forall>ip \<in> fst ` set (node_status_map st). (tcp_address ip TriggerUpdatePort, OutUpdate m) \<in> set out"
      and m: "m = empty_coord_msg\<lparr>uc_ip := cc_private_ip cfg, uc_thread_id := cc_thread_id cfg, uc_app_name := to_app_name req,
        uc_triggers := if to_primitive_type req = BY_TIME then [] else
          [(empty_entity c)\<lparr>te_bucket_name := to_bucket_name req, te_trigger_name := to_trigger_name req,
             te_trigger_option := to_trigger_option req, te_primitive_type := to_primitive_type req,
             te_primitive := dump_pritimive c t, te_hints := to_hints req\<rparr>]\<rparr>"
    by (rule add_trigger_message [OF assms(2,3,4)])
  let ?e = "(empty_entity c)\<lparr>te_bucket_name := to_bucket_name req, te_trigger_name := to_trigger_name req,
             te_trigger_option := to_trigger_option req, te_primitive_type := to_primitive_type req,
             te_primitive := dump_pritimive c t, te_hints := to_hints req\<rparr>"
  let ?coord = "mk_endpoint (cc_private_ip cfg) (cc_thread_id cfg)" and ?b = "to_bucket_name req" and ?app = "to_app_name req"
  let ?per = "to_primitive_type req = BY_TIME" and ?h1 = "h\<lparr>ch_app_coord := tput ?app ?coord (ch_app_coord h)\<rparr>"
  let ?v' = "if ?per then v else build_trigger c now' ?e (add_bucket ?app ?b v)"
  let ?h' = "if ?per then ?h1 else ?h1\<lparr>ch_bucket_coord := tput ?b ?coord (ch_bucket_coord h)\<rparr>"
  obtain u where u: "gen_trigger_pointer c now' (to_primitive_type req) (to_trigger_name req) (dump_pritimive c t) = Some u" "fresh_copy now' t u"
    using trigger_dump_roundtrip [OF assms(1) gen_trigger_pointer_tagged [OF t(1)], of now'] gen_trigger_facts [OF t(1)] by auto
  have ap: "apply_update c now' m (h, v) = Inr (?h', ?v')"
    by (simp add: m apply_update_def apply_registration_def install_entity_def empty_coord_msg_def Let_def)
  have n: "get_notifying_thread ?b ?h' = (if ?per then get_notifying_thread ?b h else notify_handler_connect_address ?coord)"
    by (simp add: get_notifying_thread_def)
  note b = build_trigger_appends [of "add_bucket ?app ?b v" ?e c now' u]
  have b': "bucket_trigger_list ?v' ?b = bucket_trigger_list v ?b @ (if ?per \<or> to_trigger_name req = [] then []
        else [set_rerun_metadata (map rerun_of_hint (to_hints req)) (set_trigger_option (sint (to_trigger_option req)) u)])"
      "view_ok ?v'" "\<And>b. b \<noteq> ?b \<Longrightarrow> bucket_trigger_list ?v' b = bucket_trigger_list v b"
    using b(1,2) b(3) assms(5) u(1) by (cases "to_trigger_name req = []"; simp add: build_trigger_unnamed)+
  show ?thesis
    by (intro exI [of _ m] exI [of _ "set_trigger_option (sint (to_trigger_option req)) t"] exI [of _ u] exI [of _ ?h'] exI [of _ ?v'])
      (intro conjI t(3) ap b'(2) allI impI b'(3); (use t(2) n b'(1) u(2) in simp))
qed

section \<open>Deleting a periodic trigger\<close>

lemma find_ref_absent: "\<forall>r \<in> set rs. get_trigger_name (hp ! r) \<noteq> nm \<Longrightarrow> find_ref hp nm rs = Inl EndDereference"
  by (induction rs) simp_all

text \<open>
  C35. Deleting a periodic trigger crashes the nodes. A periodic trigger is kept by the coordinator
  only: the update for its addition carries no trigger. Its deletion is broadcast to every node all
  the same, and a node that has no other trigger of this name in the bucket searches past the end
  of its vector when it applies the update.
\<close>

theorem delete_periodic_trigger_crashes_nodes:
  assumes "to_operation_type add = ADD_TRIGGER" and "to_primitive_type add = BY_TIME"
    and "thas (bucket_app_map st) (to_bucket_name add)" and "trigger_op_handler c cfg now add st = Inr (st1, out1)"
    and "to_operation_type del = DELETE_TRIGGER" and "to_bucket_name del = to_bucket_name add" and "to_trigger_name del = to_trigger_name add"
    and "\<forall>t \<in> set (bucket_trigger_list v (to_bucket_name add)). get_trigger_name t \<noteq> to_trigger_name add"
  shows "\<exists>m1 m2 s1 st2 out2. trigger_op_handler c cfg now2 del st1 = Inr (st2, out2)
    \<and> (\<forall>ip \<in> fst ` set (node_status_map st). (tcp_address ip TriggerUpdatePort, OutUpdate m1) \<in> set out1
         \<and> (tcp_address ip TriggerUpdatePort, OutUpdate m2) \<in> set out2)
    \<and> apply_update c now3 m1 (h, v) = Inr s1 \<and> apply_update c now4 m2 s1 = Inl EndDereference"
proof -
  let ?b = "to_bucket_name add" and ?nm = "to_trigger_name add"
  obtain t m1 where t: "gen_trigger_pointer c now (to_primitive_type add) ?nm (to_primitive add) = Some t"
      "tget [] (bucket_triggers_map st1) ?b = tget [] (bucket_triggers_map st) ?b @ [set_trigger_option (sint (to_trigger_option add)) t]"
      "\<forall>ip \<in> fst ` set (node_status_map st). (tcp_address ip TriggerUpdatePort, OutUpdate m1) \<in> set out1"
      and m1: "m1 = empty_coord_msg\<lparr>uc_ip := cc_private_ip cfg, uc_thread_id := cc_thread_id cfg, uc_app_name := to_app_name add,
        uc_triggers := if to_primitive_type add = BY_TIME then [] else
          [(empty_entity c)\<lparr>te_bucket_name := ?b, te_trigger_name := ?nm,
             te_trigger_option := to_trigger_option add, te_primitive_type := to_primitive_type add,
             te_primitive := dump_pritimive c t, te_hints := to_hints add\<rparr>]\<rparr>"
    by (rule add_trigger_message [OF assms(1,3,4)])
  have same: "bucket_app_map st1 = bucket_app_map st" "node_status_map st1 = node_status_map st"
    using assms(1,3,4) by (auto simp: trigger_op_handler_def add_trigger_def Let_def bindE_Inr_iff split: option.splits)
  let ?s1 = "(h\<lparr>ch_app_coord := tput (to_app_name add) (mk_endpoint (cc_private_ip cfg) (cc_thread_id cfg)) (ch_app_coord h)\<rparr>, v)"
  have a1: "apply_update c now3 m1 (h, v) = Inr ?s1"
    using assms(2) by (simp add: m1 apply_update_def apply_registration_def empty_coord_msg_def Let_def)
  let ?m2 = "empty_coord_msg\<lparr>uc_ip := cc_private_ip cfg, uc_thread_id := cc_thread_id cfg, uc_app_name := to_app_name del,
        uc_msg_type := 2, uc_triggers := [(empty_entity c)\<lparr>te_bucket_name := ?b, te_trigger_name := ?nm\<rparr>]\<rparr>"
  have "get_trigger_name t = ?nm" using gen_trigger_facts [OF t(1)] by simp
  then have ex: "\<exists>u \<in> set (tget [] (bucket_triggers_map st1) ?b). get_trigger_name u = ?nm"
    using t(2) by simp
  obtain st2 x out2 where d: "trigger_op_handler c cfg now2 del st1 = Inr (st2, out2)" "out2 = x # broadcast_update st2 ?m2"
      "node_status_map st2 = node_status_map st1"
    using assms(3,5,6,7) same(1) ex by (simp add: trigger_op_handler_def delete_trigger_def Let_def empty_coord_msg_def)
  have "apply_update c now4 ?m2 ?s1 = Inl EndDereference"
    using assms(8) find_ref_absent [of "bucket_refs v ?b" "nv_heap v" ?nm]
    by (simp add: apply_update_def delete_entity_def bucket_trigger_list_def empty_coord_msg_def)
  then show ?thesis
    using a1 t(3) d same(2) broadcast_reaches [of _ st2 ?m2]
    by (intro exI [of _ m1] exI [of _ ?m2] exI [of _ ?s1] exI [of _ st2] exI [of _ out2]) auto
qed

section \<open>A small cluster\<close>

definition shop_coord :: coord_state where
  "shop_coord = (coord_init 0)\<lparr>bucket_app_map := [(''orders'', ''shop'')], node_status_map := [(''10.0.0.2'', empty_node_status)]\<rparr>"

definition shop_config :: coord_config where
  "shop_config = \<lparr>cc_private_ip = ''10.0.0.9'', cc_thread_id = 0, cc_io_thread_num = 1\<rparr>"

definition shop_request :: "trigger_operation_type \<Rightarrow> primitive_type \<Rightarrow> prim_wire \<Rightarrow> prim_wire trigger_operation_request" where
  "shop_request op ty w = \<lparr>to_operation_type = op, to_app_name = ''shop'', to_bucket_name = ''orders'', to_trigger_name = ''t'',
     to_trigger_option = 1, to_primitive_type = ty, to_primitive = w, to_request_id = ''r'', to_response_address = [], to_hints = []\<rparr>"

definition shop_helper :: comm_helper where
  "shop_helper = comm_helper_init [] ''10.0.0.2'' 1 []"

lemmas shop_defs = shop_coord_def shop_config_def shop_request_def shop_helper_def

lemma shop_add:
  assumes "\<And>n. ty \<noteq> UnrecognizedPrimitive n"
  shows "\<exists>st1 out. trigger_op_handler wire_codec shop_config 0 (shop_request ADD_TRIGGER ty w) shop_coord = Inr (st1, out)"
  using assms by (cases ty) (auto simp: trigger_op_handler_def add_trigger_def shop_defs thas_def Let_def)

theorem added_trigger_replicated_witness:
  "\<exists>m h' v'. apply_update wire_codec 5 m (shop_helper, empty_view) = Inr (h', v')
     \<and> bucket_trigger_list v' ''orders'' = [ByBatchSizeTrigger ((by_batch_size_init ''pack'' ''t'' 10)\<lparr>tr_option := 1\<rparr>)]"
proof -
  let ?req = "shop_request ADD_TRIGGER BY_BATCH_SIZE (WByBatchSize (ByBatchSizePrimitive ''pack'' 10))"
  obtain st1 out where r: "trigger_op_handler wire_codec shop_config 0 ?req shop_coord = Inr (st1, out)"
    using shop_add [of BY_BATCH_SIZE "WByBatchSize (ByBatchSizePrimitive ''pack'' 10)"] by blast
  have t: "tget [] (bucket_triggers_map st1) ''orders'' = [set_trigger_option 1 (ByBatchSizeTrigger (by_batch_size_init ''pack'' ''t'' 10))]"
    using r by (auto simp: trigger_op_handler_def add_trigger_def shop_defs thas_def Let_def wire_codec_def coord_init_def)
  have "to_operation_type ?req = ADD_TRIGGER" "thas (bucket_app_map shop_coord) (to_bucket_name ?req)" "view_ok empty_view"
    by (simp_all add: shop_defs thas_def view_ok_def empty_view_def)
  from added_trigger_replicated [OF wire_codec_ok this(1,2) r this(3), of 5 shop_helper] t show ?thesis
    by (auto simp: shop_defs coord_init_def bucket_trigger_list_def empty_view_def base_defs by_batch_size_init_def) force
qed

theorem delete_periodic_trigger_crashes_nodes_witness:
  "\<exists>m1 m2 s1. apply_update wire_codec 0 m1 (shop_helper, empty_view) = Inr s1
     \<and> apply_update wire_codec 0 m2 s1 = Inl EndDereference"
proof -
  let ?add = "shop_request ADD_TRIGGER BY_TIME (WByTime (ByTimePrimitive ''tick'' 100))" and ?del = "shop_request DELETE_TRIGGER BY_TIME WNoBytes"
  obtain st1 out where r: "trigger_op_handler wire_codec shop_config 0 ?add shop_coord = Inr (st1, out)"
    using shop_add [of BY_TIME "WByTime (ByTimePrimitive ''tick'' 100)"] by blast
  have "to_operation_type ?add = ADD_TRIGGER" "to_primitive_type ?add = BY_TIME" "thas (bucket_app_map shop_coord) (to_bucket_name ?add)"
      "to_operation_type ?del = DELETE_TRIGGER" "to_bucket_name ?del = to_bucket_name ?add" "to_trigger_name ?del = to_trigger_name ?add"
      "\<forall>t \<in> set (bucket_trigger_list empty_view (to_bucket_name ?add)). get_trigger_name t \<noteq> to_trigger_name ?add"
    by (simp_all add: shop_defs thas_def bucket_trigger_list_def empty_view_def)
  from delete_periodic_trigger_crashes_nodes [OF this(1-3) r this(4-7), of 0 0 shop_helper 0] show ?thesis by blast
qed

end
