(* ===== verification/Node_System.thy ===== *)
theory Node_System
  imports Sched_Trace
begin

text \<open>
  A node as a whole: the local scheduler and its executors as one transition system. The scheduler
  reads the shared channel \<^verbatim>\<open>ipc-kvs\<close> and writes to one channel per executor (\<^verbatim>\<open>ipc-0\<close>, \<^verbatim>\<open>ipc-1\<close>, ...); an
  executor reads its own channel and writes to the shared one. Iterations of the two loops
  interleave in any order. What is counted is how many calls an executor can have outstanding.
\<close>

section \<open>The system\<close>

record node_system =
  sy_sched :: sched_state
  sy_exec :: "u8 \<Rightarrow> executor_state \<times> time_point"
  sy_inbox :: "u8 \<Rightarrow> string list"
  sy_shared :: "string list"

definition node_start :: "nat \<Rightarrow> comm_helper \<Rightarrow> u32 \<Rightarrow> string \<Rightarrow> time_point \<Rightarrow> node_system" where
  "node_start executors h seed ip now =
     \<lparr>sy_sched = sched_init executors h seed now, sy_exec = (\<lambda>e. (executor_init ip (ucast e), now)),
      sy_inbox = (\<lambda>e. []), sy_shared = []\<rparr>"

definition received :: "string list \<Rightarrow> string option" where
  "received q = (case q of [] \<Rightarrow> None | m # _ \<Rightarrow> Some m)"

fun sent_to :: "u8 \<Rightarrow> sched_out list \<Rightarrow> string list" where
  "sent_to e [] = []"
| "sent_to e (ToExecutor e' m # out) = (if e' = e then m # sent_to e out else sent_to e out)"
| "sent_to e (ToNet a m # out) = sent_to e out"

definition after_sched :: "sched_state \<Rightarrow> sched_out list \<Rightarrow> node_system \<Rightarrow> node_system" where
  "after_sched st out s = s\<lparr>sy_sched := st, sy_shared := tl (sy_shared s), sy_inbox := (\<lambda>e. sy_inbox s e @ sent_to e out)\<rparr>"

definition after_exec :: "u8 \<Rightarrow> executor_state \<times> time_point \<Rightarrow> string list \<Rightarrow> node_system \<Rightarrow> node_system" where
  "after_exec e ex sent s = s\<lparr>sy_exec := (sy_exec s)(e := ex), sy_inbox := (sy_inbox s)(e := tl (sy_inbox s e)),
     sy_shared := sy_shared s @ sent\<rparr>"

text \<open>
  Reachable states, with the number of times the one-second timer of each executor has announced it
  (an iteration in which the timer fires moves the start of the reporting period).
\<close>

inductive node_reach ::
  "'w sched_config \<Rightarrow> (string \<Rightarrow> bool) \<Rightarrow> user_fn \<Rightarrow> node_system \<Rightarrow> node_system \<Rightarrow> (u8 \<Rightarrow> nat) \<Rightarrow> bool"
  for cfg :: "'w sched_config" and loadable :: "string \<Rightarrow> bool" and user_fn :: user_fn and s0 :: node_system where
  start: "node_reach cfg loadable user_fn s0 s0 (\<lambda>e. 0)"
| sched: "node_reach cfg loadable user_fn s0 s k \<Longrightarrow>
    sched_round cfg ck (received (sy_shared s)) p (sy_sched s) = Inr (st, out) \<Longrightarrow>
    node_reach cfg loadable user_fn s0 (after_sched st out s) k"
| exec: "node_reach cfg loadable user_fn s0 s k \<Longrightarrow>
    executor_iteration loadable user_fn (os_shm (ls_store (sy_sched s))) (ucast e) now (received (sy_inbox s e)) (sy_exec s e)
      = Inr (ex, sent) \<Longrightarrow>
    node_reach cfg loadable user_fn s0 (after_exec e ex sent s)
      (k(e := k e + (if snd ex = snd (sy_exec s e) then 0 else 1)))"

section \<open>What is outstanding\<close>

abbreviation announces :: "u8 \<Rightarrow> string \<Rightarrow> bool" where
  "announces e m \<equiv> says 7 e (Some m)"

text \<open>The permissions to call an executor: it is idle, or has a call in its channel, or an announcement is on its way.\<close>

definition outstanding :: "u8 \<Rightarrow> node_system \<Rightarrow> nat" where
  "outstanding e s =
     (if idle (exec_status (sy_sched s) e) then 1 else 0)
     + length (filter is_call (sy_inbox s e)) + length (filter (announces e) (sy_shared s))"

lemma status_request_says:
  "announces e (status_request (ucast e') busy) \<longleftrightarrow> e = e' \<and> \<not> busy"
proof -
  have "(ucast (ucast e' + 1 :: u32) :: u8) = e' + 1"
    by transfer (simp add: take_bit_eq_mod mod_simps mod_mod_cancel)
  then show ?thesis
    by (auto simp: says_def status_request_def)
qed

lemma calls_sent_to: "length (filter is_call (sent_to e out)) = calls_to e out"
  by (induction e out rule: sent_to.induct) (auto simp: calls_to_def)

lemma outstanding_sched:
  assumes "sched_round cfg ck (received (sy_shared s)) p (sy_sched s) = Inr (st, out)" and "tbl_ok (ls_status (sy_sched s))"
  shows "outstanding e (after_sched st out s) \<le> outstanding e s" and "tbl_ok (ls_status st)"
proof -
  note r = round_calls [OF assms] 
  show "tbl_ok (ls_status st)" by (rule r(1))
  have c: "calls_to e out \<le> 1" "calls_to e out > 0 \<Longrightarrow> \<not> idle (exec_status st e)" by (rule r(2), rule r(3))
  show "outstanding e (after_sched st out s) \<le> outstanding e s"
  proof (cases "says 7 e (received (sy_shared s))")
    case True
    then obtain m q where "sy_shared s = m # q" "announces e m"
      by (auto simp: received_def says_def split: list.splits)
    then show ?thesis
      using c by (auto simp: outstanding_def after_sched_def calls_sent_to)
  next
    case False
    then have q: "length (filter (announces e) (tl (sy_shared s))) = length (filter (announces e) (sy_shared s))"
      by (cases "sy_shared s") (auto simp: received_def)
    then show ?thesis
      using round_without_available [OF assms(1) False assms(2)] q
      by (auto simp: outstanding_def after_sched_def calls_sent_to)
  qed
qed

section \<open>Iterations of an executor\<close>

text \<open>
  User functions talk to the scheduler through the function library only, whose requests have the
  types 1 to 4: they do not announce executors.
\<close>

definition library_only :: "user_fn \<Rightarrow> bool" where
  "library_only user_fn \<longleftrightarrow> (\<forall>f u args m e. m \<in> set (fst (snd (user_fn f u args))) \<longrightarrow> \<not> announces e m)"

lemma exec_call_sent:
  assumes "exec_call loadable user_fn shm tid msg ex = Inr (ex', sent, fin)"
  obtains inner where "sent = status_request tid True # inner @ [status_request tid False]"
    and "inner = [] \<or> (\<exists>f u args. inner = fst (snd (user_fn f u args)))"
proof -
  obtain flag persist meta parts session f where p: "parse_call msg = Inr (flag, persist, meta, parts)"
      "nth_or VectorIndex parts 0 = Inr session" "nth_or VectorIndex parts 1 = Inr f"
    using assms by (auto simp: exec_call_def bindE_Inr_iff)
  have run: "\<exists>u. snd (run_function user_fn f args x) = fst (snd (user_fn f u (fst args)))" for args x
    by (simp add: run_function_def case_prod_unfold Let_def) blast
  obtain ok loaded where l: "(if f \<in> set (ex_loaded ex) then (True, ex_loaded ex)
      else load_function loadable f (ex_loaded ex)) = (ok, loaded)" by fastforce
  note e = assms [unfolded exec_call_def, simplified p l bindE_simps Let_def prod.case]
  show thesis
  proof (cases "ok \<and> (\<exists>args. decode_args flag shm (drop 2 parts) = Inr (Some args))")
    case True
    then obtain args x where "sent = status_request tid True # snd (run_function user_fn f args x) @ [status_request tid False]"
      using e by (auto simp: case_prod_unfold)
    then show thesis using that run by blast
  next
    case False
    then show thesis using that e by (auto simp: bindE_Inr_iff split: if_splits option.splits)
  qed
qed

lemma byte_unbyte [simp]: "byte (unbyte c) = c"
proof -
  have "unat (of_nat (of_char c) :: u8) = of_char c"
    by (simp only: unat_of_nat) (simp add: take_bit_nat_eq_self)
  then show ?thesis by (simp add: byte_def unbyte_def)
qed

lemma is_call_byte: "is_call m \<longleftrightarrow> byte_at m 0 = Inr 1"
proof (cases m)
  case Nil
  then show ?thesis by (simp add: is_call_def byte_at_def raw_def nth_or_def unbyte_def)
next
  case (Cons c cs)
  have "unbyte c = 1 \<longleftrightarrow> c = byte 1" using byte_unbyte [of c] unbyte_byte [of 1] by metis
  then show ?thesis using Cons by (simp add: is_call_def)
qed

lemma iteration_announces:
  assumes "executor_iteration loadable user_fn shm (ucast e) now msg ex = Inr (ex', sent)" and "library_only user_fn"
  shows "length (filter (announces e') sent) =
    (if e' = e then (case msg of None \<Rightarrow> 0 | Some m \<Rightarrow> if is_call m then 1 else 0) + (if snd ex' = snd ex then 0 else 1) else 0)"
proof -
  obtain st rs where ex: "ex = (st, rs)" by fastforce
  let ?fire = "millis (now - rs) \<ge> ExecutorTimerThreshold"
  have moved: "now \<noteq> rs" if ?fire
    using that by (auto simp: ExecutorTimerThreshold_def millis_def tdiv_def)
  have timer: "length (filter (announces e') sent) = length (filter (announces e') sent0)
      + (if e' = e \<and> snd ex' \<noteq> snd ex then 1 else 0)"
    if "(if ?fire then Inr ((st', now), sent0 @ [status_request (ucast e) False]) else Inr ((st', rs), sent0)) = Inr (ex', sent)" for st' sent0
    using that moved ex by (auto simp: status_request_says split: if_splits)
  show ?thesis
  proof (cases "\<exists>m. msg = Some m \<and> is_call m")
    case False
    then have "(if ?fire then Inr ((st, now), [] @ [status_request (ucast e) False]) else Inr ((st, rs), [])) = Inr (ex', sent)"
      using assms(1) ex by (auto simp: executor_iteration_def Let_def is_call_byte bindE_Inr_iff split: option.splits if_splits)
    from timer [OF this] show ?thesis using False by (auto split: option.splits)
  next
    case True
    then obtain m where m: "msg = Some m" "is_call m" by blast
    obtain st1 sent1 fin where c: "exec_call loadable user_fn shm (ucast e) m st = Inr (st1, sent1, fin)"
      using assms(1) ex m by (cases "exec_call loadable user_fn shm (ucast e) m st") (auto simp: executor_iteration_def is_call_byte)
    have r: "(if fin then (if ?fire then Inr ((st1, now), sent1 @ [status_request (ucast e) False]) else Inr ((st1, rs), sent1))
             else Inr ((st1, rs), sent1)) = Inr (ex', sent)"
      using assms(1) ex m c by (auto simp: executor_iteration_def is_call_byte split: if_splits)
    obtain inner where i: "sent1 = status_request (ucast e) True # inner @ [status_request (ucast e) False]"
        "inner = [] \<or> (\<exists>f u args. inner = fst (snd (user_fn f u args)))"
      by (rule exec_call_sent [OF c])
    have "\<not> announces e' x" if "x \<in> set inner" for x
      using i(2) that assms(2) unfolding library_only_def by (metis empty_iff empty_set)
    then have "filter (announces e') inner = []" by (simp add: filter_empty_conv)
    then have s1: "length (filter (announces e') sent1) = (if e' = e then 1 else 0)"
      using i(1) by (auto simp: status_request_says)
    show ?thesis
    proof (cases fin)
      case True
      then have "length (filter (announces e') sent) = length (filter (announces e') sent1) + (if e' = e \<and> snd ex' \<noteq> snd ex then 1 else 0)"
        using r by (intro timer [of st1 sent1]) (simp only: if_True)
      then show ?thesis using s1 m by (simp split: if_splits)
    next
      case False
      then show ?thesis using r s1 m ex by auto
    qed
  qed
qed

lemma outstanding_exec:
  assumes "executor_iteration loadable user_fn shm (ucast e) now (received (sy_inbox s e)) (sy_exec s e) = Inr (ex, sent)"
    and "library_only user_fn"
  shows "outstanding e' (after_exec e ex sent s)
    = outstanding e' s + (if e' = e \<and> snd ex \<noteq> snd (sy_exec s e) then 1 else 0)"
  using iteration_announces [OF assms, of e']
  by (cases "sy_inbox s e") (auto simp: outstanding_def after_exec_def received_def)

section \<open>Outstanding calls\<close>

lemma at_most_one:
  fixes a b c k :: nat
  assumes "c \<le> k" and "a + b \<le> c" and "i \<Longrightarrow> a + 1 \<le> c"
  shows "c \<le> k \<and> (k \<le> 1 \<longrightarrow> a \<le> 1 \<and> (a \<noteq> 0 \<longrightarrow> \<not> i \<and> b = 0))"
  using assms by (cases i) auto

text \<open>
  C27. A node never has more calls on their way to an executor than its timer has announced it. In
  every interleaving of the scheduler and the executors, with up to 256 executors and user
  functions that use the library only, the calls that wait in the channel of an executor, the
  announcements of it that the scheduler has not read, and its being idle in the scheduler's table
  are together at most the number of times its timer has fired. So an executor whose timer has
  fired once has at most one call waiting and is not called again before it has finished; a timer
  that fires while a call is on its way lets a second call through.
\<close>

theorem outstanding_calls_bounded:
  assumes "node_reach cfg loadable user_fn (node_start n h seed ip now0) s k" and "library_only user_fn" and "n \<le> 256"
  shows "outstanding e s \<le> k e
    \<and> (k e \<le> 1 \<longrightarrow> length (filter is_call (sy_inbox s e)) \<le> 1
        \<and> (filter is_call (sy_inbox s e) \<noteq> [] \<longrightarrow> \<not> idle (exec_status (sy_sched s) e) \<and> filter (announces e) (sy_shared s) = []))"
proof -
  have "tbl_ok (ls_status (sy_sched s)) \<and> (\<forall>e. outstanding e s \<le> k e)"
    using assms(1)
  proof (induction rule: node_reach.induct)
    case start
    then show ?case
      using init_status [OF assms(3), of h seed now0] by (simp add: node_start_def outstanding_def)
  next
    case (sched s k ck p st out)
    note t = outstanding_sched [OF sched.hyps(2)]
    have "outstanding e (after_sched st out s) \<le> k e" for e
      using t(1) [of e] sched.IH le_trans by blast
    moreover have "tbl_ok (ls_status (sy_sched (after_sched st out s)))"
      using t(2) sched.IH by (simp add: after_sched_def)
    ultimately show ?case by blast
  next
    case (exec s k e now ex sent)
    then show ?case
      using outstanding_exec [OF exec.hyps(2) assms(2)] by (auto simp: after_exec_def)
  qed
  then have o: "outstanding e s \<le> k e" by blast
  moreover have "length (filter is_call (sy_inbox s e)) + length (filter (announces e) (sy_shared s)) \<le> outstanding e s"
      "idle (exec_status (sy_sched s) e) \<Longrightarrow> length (filter is_call (sy_inbox s e)) + 1 \<le> outstanding e s"
    by (simp_all add: outstanding_def)
  ultimately show ?thesis
    unfolding length_0_conv [symmetric] by (rule at_most_one)
qed

text \<open>
  The bound is reached. The timer of the only executor fires at two seconds and again at four,
  before the scheduler has run: the second announcement is stale when it is read, and two calls
  wait in the channel of the executor.
\<close>

definition no_functions :: user_fn where
  "no_functions f u args = (u, [], None)"

lemma timer_iteration:
  assumes "sy_inbox s 0 = []" and "snd (sy_exec s 0) + 2000000000 = now"
  shows "executor_iteration loadable user_fn shm (ucast (0 :: u8)) now (received (sy_inbox s 0)) (sy_exec s 0)
    = Inr ((fst (sy_exec s 0), now), [[byte 1, byte 7]])"
  using assms by (auto simp: executor_iteration_def received_def ExecutorTimerThreshold_def millis_def tdiv_def
    status_request_def case_prod_unfold Let_def)

theorem outstanding_calls_bounded_witness:
  "\<exists>s k. node_reach node_config (\<lambda>f. False) no_functions (node_start 1 node_helper 0 ''10.0.0.2'' 0) s k
     \<and> library_only no_functions \<and> k 0 = 2
     \<and> length (filter is_call (sy_inbox s 0)) = 2 \<and> outstanding 0 s \<le> k 0"
proof -
  let ?reach = "node_reach node_config (\<lambda>f. False) no_functions (node_start 1 node_helper 0 ''10.0.0.2'' 0)"
  let ?s0 = "node_start 1 node_helper 0 ''10.0.0.2'' 0" and ?avail = "[byte 1, byte 7]"
  let ?e1 = "(fst (sy_exec ?s0 0), 2000000000)" and ?e2 = "(fst (sy_exec ?s0 0), 4000000000)"
  define s1 where "s1 = after_exec 0 ?e1 [?avail] ?s0"
  define s2 where "s2 = after_exec 0 ?e2 [?avail] s1"
  have e: "executor_iteration (\<lambda>f. False) no_functions (os_shm (ls_store (sy_sched ?s0))) (ucast (0 :: u8)) 2000000000
      (received (sy_inbox ?s0 0)) (sy_exec ?s0 0) = Inr (?e1, [?avail])"
    by (rule timer_iteration) (simp_all add: node_start_def)
  have e': "executor_iteration (\<lambda>f. False) no_functions (os_shm (ls_store (sy_sched s1))) (ucast (0 :: u8)) 4000000000
      (received (sy_inbox s1 0)) (sy_exec s1 0) = Inr (?e2, [?avail])"
    using timer_iteration [of s1] by (simp add: node_start_def s1_def after_exec_def)
  have "\<exists>k. ?reach s1 k \<and> k 0 = 1"
    using node_reach.exec [OF node_reach.start e] unfolding s1_def [symmetric]
    by (intro exI conjI) (assumption, simp add: node_start_def)
  then have "\<exists>k. ?reach s2 k \<and> k 0 = 2"
    using node_reach.exec [OF _ e'] unfolding s2_def [symmetric]
    by (fastforce simp: s1_def after_exec_def)
  then obtain k where k: "?reach s2 k" "k 0 = 2" by blast
  have s2: "sy_sched s2 = sched_init 1 node_helper 0 0" "sy_inbox s2 0 = []" "sy_shared s2 = [?avail, ?avail]"
    by (simp_all add: s2_def s1_def after_exec_def node_start_def)
  obtain st3 o3 where 3: "sched_round node_config early (Some ?avail) call_poll (sched_init 1 node_helper 0 0) = Inr (st3, o3)"
      "calls_to 0 o3 = 1" "ready_node st3"
    by (rule ready_round [OF ready_node_init])
  obtain st4 o4 where 4: "sched_round node_config early (Some ?avail) call_poll st3 = Inr (st4, o4)" "calls_to 0 o4 = 1"
    by (rule ready_round [OF 3(3)])
  define s3 where "s3 = after_sched st3 o3 s2"
  have s3: "sy_sched s3 = st3" "sy_inbox s3 0 = sent_to 0 o3" "sy_shared s3 = [?avail]"
    by (simp_all add: s3_def after_sched_def s2)
  have "?reach s3 k" unfolding s3_def by (rule node_reach.sched [OF k(1), where ck = early and p = call_poll]) (use 3(1) in \<open>simp add: s2 received_def\<close>)
  then have r: "?reach (after_sched st4 o4 s3) k" by (rule node_reach.sched [where ck = early and p = call_poll]) (use 4(1) in \<open>simp add: s3 received_def\<close>)
  have "length (filter is_call (sy_inbox (after_sched st4 o4 s3) 0)) = 2"
    using 3(2) 4(2) by (simp add: after_sched_def s3 calls_sent_to)
  moreover have l: "library_only no_functions" by (simp add: library_only_def no_functions_def)
  moreover have "outstanding 0 (after_sched st4 o4 s3) \<le> k 0"
    using outstanding_calls_bounded [OF r l, of 0] by simp
  ultimately show ?thesis
    using r k(2) by blast
qed

end
