(* ===== verification/Ipc_Ring.thy ===== *)
theory Ipc_Ring
  imports Prelude
begin

text \<open>
  The ring buffer under every channel between the local scheduler and its executors:
  \<^verbatim>\<open>common/shm-ipc/src/libipc/prod_cons.h\<close>, the policy for several producers, several consumers and
  unicast, which is the one the program instantiates (\<open>shm_chan_t\<close>). It is lock free: producers
  claim a slot by a compare-and-exchange of the commit index, write it, set its commit flag and
  move the write index over the committed slots; consumers copy the slot at the read index and
  claim it by a compare-and-exchange.

  The model interleaves any number of threads. One step of a thread is one atomic access to the
  shared memory together with the local computation up to the next one; a compare-and-exchange of
  the weak form may fail spuriously, and while an element is being written a reader may see anything
  in it. Accesses are sequentially consistent. The state carries two auxiliary lists that no step
  reads: the values whose slot has been claimed, and the values that have been taken.
\<close>

unbundle bit_operations_syntax

section \<open>The ring\<close>

text \<open>\<open>circ::index_of\<close>: the ring has 256 slots, and indices are 32-bit counters.\<close>

definition index_of :: "u32 \<Rightarrow> u8" where
  "index_of c = ucast c"

record 'a ring =
  rg_rd :: u32
  rg_wt :: u32
  rg_ct :: u32
  rg_data :: "u8 \<Rightarrow> 'a"
  rg_flag :: "u8 \<Rightarrow> u64"
  rg_claimed :: "'a list"
  rg_taken :: "'a list"

text \<open>The commit flag of a slot: the complement of its counter, never zero.\<close>

definition commit_flag :: "u32 \<Rightarrow> u64" where
  "commit_flag c = NOT (ucast c)"

definition ring_init :: "'a \<Rightarrow> 'a ring" where
  "ring_init zero = \<lparr>rg_rd = 0, rg_wt = 0, rg_ct = 0, rg_data = (\<lambda>i. zero), rg_flag = (\<lambda>i. 0), rg_claimed = [], rg_taken = []\<rparr>"

datatype 'a ring_result = Pushed bool | Popped "'a option"

datatype 'a ring_op = Push 'a | Pop

text \<open>Where a thread stands: the access it does next, with its local variables.\<close>

datatype 'a pc =
    Ret "'a ring_result"
  | PushLoadCt 'a
  | PushLoadRd 'a u32
  | PushCas 'a u32
  | PushBegin 'a u32
  | PushData 'a u32
  | PushFlag 'a u32
  | PushCheck u32
  | PushWt u32 u64
  | PushTake u32 u64
  | PushStore u32
  | PopLoadRd
  | PopLoadWt u32
  | PopFlag u32
  | PopTake u32 u64
  | PopStore u32
  | PopCopy u32
  | PopCas u32 'a

text \<open>\<open>push\<close>: \<open>weak\<close> makes a weak compare-and-exchange fail, \<open>torn\<close> is what a half-written element looks like.\<close>

fun push_step :: "bool \<Rightarrow> 'a \<Rightarrow> 'a pc \<Rightarrow> 'a ring \<Rightarrow> 'a pc \<times> 'a ring" where
  "push_step weak torn (PushLoadCt x) s = (PushLoadRd x (rg_ct s), s)"
| "push_step weak torn (PushLoadRd x cur_ct) s =
     (if index_of (cur_ct + 1) = index_of (rg_rd s) then Ret (Pushed False) else PushCas x cur_ct, s)"
| "push_step weak torn (PushCas x cur_ct) s =
     (if rg_ct s = cur_ct \<and> \<not> weak
      then (PushBegin x cur_ct, s\<lparr>rg_ct := cur_ct + 1, rg_claimed := rg_claimed s @ [x]\<rparr>)
      else (PushLoadCt x, s))"
| "push_step weak torn (PushBegin x cur_ct) s = (PushData x cur_ct, s\<lparr>rg_data := (rg_data s)(index_of cur_ct := torn)\<rparr>)"
| "push_step weak torn (PushData x cur_ct) s = (PushFlag x cur_ct, s\<lparr>rg_data := (rg_data s)(index_of cur_ct := x)\<rparr>)"
| "push_step weak torn (PushFlag x cur_ct) s =
     (PushCheck cur_ct, s\<lparr>rg_flag := (rg_flag s)(index_of cur_ct := commit_flag cur_ct)\<rparr>)"
| "push_step weak torn (PushCheck cur_ct) s = (PushWt cur_ct (rg_flag s (index_of cur_ct)), s)"
| "push_step weak torn (PushWt cur_ct cac_ct) s =
     (if cur_ct \<noteq> rg_wt s then Ret (Pushed True)
      else if NOT cac_ct \<noteq> ucast cur_ct then Ret (Pushed True)
      else PushTake cur_ct cac_ct, s)"
| "push_step weak torn (PushTake cur_ct cac_ct) s =
     (if rg_flag s (index_of cur_ct) = cac_ct
      then (PushStore cur_ct, s\<lparr>rg_flag := (rg_flag s)(index_of cur_ct := 0)\<rparr>)
      else (Ret (Pushed True), s))"
| "push_step weak torn (PushStore cur_ct) s = (PushCheck (cur_ct + 1), s\<lparr>rg_wt := cur_ct + 1\<rparr>)"
| "push_step weak torn p s = (p, s)"

fun pop_step :: "bool \<Rightarrow> 'a pc \<Rightarrow> 'a ring \<Rightarrow> 'a pc \<times> 'a ring" where
  "pop_step weak PopLoadRd s = (PopLoadWt (rg_rd s), s)"
| "pop_step weak (PopLoadWt cur_rd) s =
     (if index_of cur_rd = index_of (rg_wt s) then PopFlag (rg_wt s) else PopCopy cur_rd, s)"
| "pop_step weak (PopFlag cur_wt) s =
     (let cac_ct = rg_flag s (index_of cur_wt)
      in if NOT cac_ct \<noteq> ucast cur_wt then Ret (Popped None) else PopTake cur_wt cac_ct, s)"
| "pop_step weak (PopTake cur_wt cac_ct) s =
     (if rg_flag s (index_of cur_wt) = cac_ct \<and> \<not> weak
      then (PopStore cur_wt, s\<lparr>rg_flag := (rg_flag s)(index_of cur_wt := 0)\<rparr>)
      else (PopLoadRd, s))"
| "pop_step weak (PopStore cur_wt) s = (PopLoadRd, s\<lparr>rg_wt := cur_wt + 1\<rparr>)"
| "pop_step weak (PopCopy cur_rd) s = (PopCas cur_rd (rg_data s (index_of cur_rd)), s)"
| "pop_step weak (PopCas cur_rd buff) s =
     (if rg_rd s = cur_rd \<and> \<not> weak
      then (Ret (Popped (Some buff)), s\<lparr>rg_rd := cur_rd + 1, rg_taken := rg_taken s @ [buff]\<rparr>)
      else (PopLoadRd, s))"
| "pop_step weak p s = (p, s)"

section \<open>Threads\<close>

fun is_pop :: "'a pc \<Rightarrow> bool" where
  "is_pop PopLoadRd = True"
| "is_pop (PopLoadWt c) = True"
| "is_pop (PopFlag c) = True"
| "is_pop (PopTake c f) = True"
| "is_pop (PopStore c) = True"
| "is_pop (PopCopy c) = True"
| "is_pop (PopCas c x) = True"
| "is_pop p = False"

definition ring_step :: "bool \<Rightarrow> 'a \<Rightarrow> 'a pc \<Rightarrow> 'a ring \<Rightarrow> 'a pc \<times> 'a ring" where
  "ring_step weak torn p s = (if is_pop p then pop_step weak p s else push_step weak torn p s)"

fun start :: "'a ring_op \<Rightarrow> 'a pc" where
  "start (Push x) = PushLoadCt x"
| "start Pop = PopLoadRd"

text \<open>A thread begins an operation when it has returned from the last one, or does its next access.\<close>

datatype 'a event = Begin nat "'a ring_op" | Access nat bool 'a

type_synonym 'a threads = "nat \<Rightarrow> 'a pc"

fun ring_event :: "'a event \<Rightarrow> 'a threads \<times> 'a ring \<Rightarrow> 'a threads \<times> 'a ring" where
  "ring_event (Begin t oper) (th, s) = (case th t of Ret r \<Rightarrow> (th(t := start oper), s) | _ \<Rightarrow> (th, s))"
| "ring_event (Access t weak torn) (th, s) = (let (p, s') = ring_step weak torn (th t) s in (th(t := p), s'))"

definition ring_run :: "'a event list \<Rightarrow> 'a threads \<times> 'a ring \<Rightarrow> 'a threads \<times> 'a ring" where
  "ring_run evs ts = fold ring_event evs ts"

definition ring_start :: "'a \<Rightarrow> 'a threads \<times> 'a ring" where
  "ring_start zero = (\<lambda>t. Ret (Popped None), ring_init zero)"

section \<open>Counters and slots\<close>

lemma unat_ucast_narrow: "unat (ucast (a :: u32) :: u8) = unat a mod 256"
  by (simp add: unsigned_ucast_eq take_bit_eq_mod)

lemma unat_ucast_wide [simp]: "unat (ucast (a :: u32) :: u64) = unat a"
  by transfer (simp add: take_bit_take_bit)

lemma index_of_eq_iff: "index_of a = index_of b \<longleftrightarrow> unat a mod 256 = unat b mod 256"
  by (simp add: index_of_def word_unat_eq_iff unat_ucast_narrow)

lemma mod_window_inj:
  fixes a b k :: nat
  assumes "a mod 256 = b mod 256" and "k \<le> a" "a < k + 256" and "k \<le> b" "b < k + 256"
  shows "a = b"
proof (rule ccontr)
  assume "a \<noteq> b"
  then have "0 < max a b - min a b" "max a b - min a b < 256" using assms(2-5) by (auto simp: max_def min_def)
  moreover have "256 dvd max a b - min a b"
    using mod_eq_dvd_iff_nat [of a b 256] mod_eq_dvd_iff_nat [of b a 256] assms(1) by (simp add: max_def min_def)
  ultimately show False by (auto dest: dvd_imp_le)
qed

lemma index_of_inj:
  assumes "index_of a = index_of b" and "k \<le> unat a" "unat a < k + 256" and "k \<le> unat b" "unat b < k + 256"
  shows "a = b"
  unfolding word_unat_eq_iff by (rule mod_window_inj [OF assms(1) [unfolded index_of_eq_iff] assms(2-5)])

lemma wide_inj: "ucast a = (ucast b :: u64) \<longleftrightarrow> a = (b :: u32)"
  by (metis unat_ucast_wide word_unat_eq_iff)

lemma commit_flag_inj [simp]: "commit_flag a = commit_flag b \<longleftrightarrow> a = b"
  by (simp add: commit_flag_def wide_inj)

lemma commit_flag_nonzero [simp]: "commit_flag a \<noteq> 0" "0 \<noteq> commit_flag a"
proof -
  have "unat a < 2 ^ LENGTH(32)" by (rule unsigned_less)
  then have "unat (ucast a :: u64) \<noteq> unat (- 1 :: u64)"
    by (simp add: unsigned_minus_1_eq_mask mask_eq_exp_minus_1)
  then have "ucast a \<noteq> (- 1 :: u64)" by metis
  then show "commit_flag a \<noteq> 0" "0 \<noteq> commit_flag a"
    unfolding commit_flag_def by (metis bit.compl_zero bit.double_compl)+
qed

lemma committed_iff: "NOT f = ucast c \<longleftrightarrow> f = commit_flag c"
  unfolding commit_flag_def by (metis bit.double_compl)

section \<open>The invariant\<close>

text \<open>A slot is owned from its claim until its flag is set, and again while its flag is being turned into a move of the write index.\<close>

fun owned :: "'a pc \<Rightarrow> u32 option" where
  "owned (PushBegin x c) = Some c"
| "owned (PushData x c) = Some c"
| "owned (PushFlag x c) = Some c"
| "owned (PushStore c) = Some c"
| "owned (PopStore c) = Some c"
| "owned p = None"

fun writing :: "'a pc \<Rightarrow> u32 option" where
  "writing (PushBegin x c) = Some c"
| "writing (PushData x c) = Some c"
| "writing p = None"

text \<open>What a thread knows about the shared state.\<close>

fun knows :: "'a ring \<Rightarrow> 'a pc \<Rightarrow> bool" where
  "knows s (PushLoadRd x c) = (c \<le> rg_ct s)"
| "knows s (PushCas x c) = (c \<le> rg_ct s \<and> (c = rg_ct s \<longrightarrow> unat c < unat (rg_rd s) + 255))"
| "knows s (PushBegin x c) = (rg_wt s \<le> c \<and> c < rg_ct s \<and> rg_claimed s ! unat c = x)"
| "knows s (PushData x c) = (rg_wt s \<le> c \<and> c < rg_ct s \<and> rg_claimed s ! unat c = x)"
| "knows s (PushFlag x c) = (rg_wt s \<le> c \<and> c < rg_ct s)"
| "knows s (PushTake c f) = (f = commit_flag c \<and> c \<le> rg_wt s)"
| "knows s (PushStore c) = (c = rg_wt s \<and> c < rg_ct s)"
| "knows s (PopLoadWt c) = (c \<le> rg_rd s)"
| "knows s (PopTake c f) = (f = commit_flag c \<and> c \<le> rg_wt s)"
| "knows s (PopFlag c) = (c \<le> rg_wt s)"
| "knows s (PopStore c) = (c = rg_wt s \<and> c < rg_ct s)"
| "knows s (PopCopy c) = (c \<le> rg_rd s \<and> (c = rg_rd s \<longrightarrow> c < rg_wt s))"
| "knows s (PopCas c x) = (c \<le> rg_rd s \<and> (c = rg_rd s \<longrightarrow> c < rg_wt s \<and> x = rg_claimed s ! unat c))"
| "knows s p = True"

definition counters_ok :: "'a ring \<Rightarrow> bool" where
  "counters_ok s \<longleftrightarrow> rg_rd s \<le> rg_wt s \<and> rg_wt s \<le> rg_ct s \<and> unat (rg_ct s) \<le> unat (rg_rd s) + 255
     \<and> length (rg_claimed s) = unat (rg_ct s) \<and> rg_taken s = take (unat (rg_rd s)) (rg_claimed s)"

definition flags_ok :: "'a ring \<Rightarrow> bool" where
  "flags_ok s \<longleftrightarrow> (\<forall>i. rg_flag s i \<noteq> 0 \<longrightarrow> (\<exists>n. rg_flag s i = commit_flag n \<and> index_of n = i \<and> rg_wt s \<le> n \<and> n < rg_ct s))"

definition data_ok :: "'a threads \<Rightarrow> 'a ring \<Rightarrow> bool" where
  "data_ok th s \<longleftrightarrow> (\<forall>n. rg_rd s \<le> n \<longrightarrow> n < rg_ct s \<longrightarrow> (\<forall>t. writing (th t) \<noteq> Some n) \<longrightarrow> rg_data s (index_of n) = rg_claimed s ! unat n)"

text \<open>An owned slot has one owner and no flag; a claimed slot that the write index has not passed is owned or flagged.\<close>

definition owners_ok :: "'a threads \<Rightarrow> 'a ring \<Rightarrow> bool" where
  "owners_ok th s \<longleftrightarrow> (\<forall>t u n. owned (th t) = Some n \<longrightarrow> owned (th u) = Some n \<longrightarrow> t = u)
     \<and> (\<forall>t n. owned (th t) = Some n \<longrightarrow> rg_flag s (index_of n) = 0)
     \<and> (\<forall>n. rg_wt s \<le> n \<longrightarrow> n < rg_ct s \<longrightarrow> rg_flag s (index_of n) = commit_flag n \<or> (\<exists>t. owned (th t) = Some n))"

definition ring_ok :: "'a threads \<times> 'a ring \<Rightarrow> bool" where
  "ring_ok = (\<lambda>(th, s). counters_ok s \<and> flags_ok s \<and> data_ok th s \<and> owners_ok th s \<and> (\<forall>t. knows s (th t)))"

lemma unat_inc: "c < (d :: u32) \<Longrightarrow> unat (c + 1) = unat c + 1"
proof -
  assume "c < d"
  then have "unat c < unat d" by (simp add: word_less_nat_alt)
  moreover have "unat d < 2 ^ LENGTH(32)" by (rule unsigned_less)
  ultimately show ?thesis by (simp add: unat_word_ariths)
qed

lemma writing_owned: "writing p = Some n \<Longrightarrow> owned p = Some n"
  by (cases p) auto

lemma owned_range: "knows s p \<Longrightarrow> owned p = Some n \<Longrightarrow> rg_wt s \<le> n \<and> n < rg_ct s"
  by (cases p) auto

lemma ring_okD:
  assumes "ring_ok (th, s)"
  shows "counters_ok s" and "flags_ok s" and "data_ok th s" and "owners_ok th s" and "knows s (th t)"
  using assms by (simp_all add: ring_ok_def)

text \<open>Two slots in use with the same index are the same.\<close>

lemma slot_inj:
  assumes "counters_ok s" and "index_of m = index_of n" and "rg_rd s \<le> m" "m \<le> rg_ct s" and "rg_rd s \<le> n" "n \<le> rg_ct s"
  shows "m = n"
  using assms by (intro index_of_inj [of m n "unat (rg_rd s)"]) (auto simp: counters_ok_def word_le_nat_alt)

lemma slot_distinct:
  assumes "counters_ok s" and "m \<noteq> n" and "rg_rd s \<le> m" "m < rg_ct s" and "rg_rd s \<le> n" "n < rg_ct s"
  shows "index_of m \<noteq> index_of n"
  using slot_inj [OF assms(1) _ assms(3) less_imp_le [OF assms(4)] assms(5) less_imp_le [OF assms(6)]] assms(2) by blast

lemma data_okI:
  assumes "\<And>n. rg_rd s \<le> n \<Longrightarrow> n < rg_ct s \<Longrightarrow> (\<And>u. u \<noteq> t \<Longrightarrow> writing (th u) \<noteq> Some n) \<Longrightarrow> writing p \<noteq> Some n
    \<Longrightarrow> rg_data s (index_of n) = rg_claimed s ! unat n"
  shows "data_ok (th(t := p)) s"
  unfolding data_ok_def using assms by (metis fun_upd_apply)

lemma data_okD:
  assumes "data_ok th s" and "rg_rd s \<le> n" and "n < rg_ct s" and "\<And>u. writing (th u) \<noteq> Some n"
  shows "rg_data s (index_of n) = rg_claimed s ! unat n"
  using assms by (simp add: data_ok_def)

lemma owners_okI:
  assumes "\<And>u v n. u \<noteq> t \<Longrightarrow> v \<noteq> t \<Longrightarrow> owned (th u) = Some n \<Longrightarrow> owned (th v) = Some n \<Longrightarrow> u = v"
    and "\<And>u n. u \<noteq> t \<Longrightarrow> owned p = Some n \<Longrightarrow> owned (th u) \<noteq> Some n"
    and "\<And>u n. u \<noteq> t \<Longrightarrow> owned (th u) = Some n \<Longrightarrow> rg_flag s (index_of n) = 0"
    and "\<And>n. owned p = Some n \<Longrightarrow> rg_flag s (index_of n) = 0"
    and "\<And>n. rg_wt s \<le> n \<Longrightarrow> n < rg_ct s
      \<Longrightarrow> rg_flag s (index_of n) = commit_flag n \<or> owned p = Some n \<or> (\<exists>u. u \<noteq> t \<and> owned (th u) = Some n)"
  shows "owners_ok (th(t := p)) s"
  unfolding owners_ok_def
proof (intro conjI allI impI)
  show "u = v" if "owned ((th(t := p)) u) = Some n" "owned ((th(t := p)) v) = Some n" for u v n
    using assms(1) [of u v n] assms(2) [of u n] assms(2) [of v n] that by (auto split: if_splits)
  show "rg_flag s (index_of n) = 0" if "owned ((th(t := p)) u) = Some n" for u n
    using assms(3) [of u n] assms(4) [of n] that by (auto split: if_splits)
  show "rg_flag s (index_of n) = commit_flag n \<or> (\<exists>u. owned ((th(t := p)) u) = Some n)" if "rg_wt s \<le> n" "n < rg_ct s" for n
    using assms(5) [OF that] by (auto intro: exI [of _ t])
qed

lemma owners_okD:
  assumes "owners_ok th s"
  shows "owned (th u) = Some n \<Longrightarrow> owned (th v) = Some n \<Longrightarrow> u = v"
    and "owned (th u) = Some n \<Longrightarrow> rg_flag s (index_of n) = 0"
    and "rg_wt s \<le> n \<Longrightarrow> n < rg_ct s \<Longrightarrow> owned (th t) \<noteq> Some n
      \<Longrightarrow> rg_flag s (index_of n) = commit_flag n \<or> (\<exists>u. u \<noteq> t \<and> owned (th u) = Some n)"
proof -
  note d = assms [unfolded owners_ok_def]
  show "owned (th u) = Some n \<Longrightarrow> owned (th v) = Some n \<Longrightarrow> u = v" using d by blast
  show "owned (th u) = Some n \<Longrightarrow> rg_flag s (index_of n) = 0" using d by blast
  assume n: "rg_wt s \<le> n" "n < rg_ct s" "owned (th t) \<noteq> Some n"
  then show "rg_flag s (index_of n) = commit_flag n \<or> (\<exists>u. u \<noteq> t \<and> owned (th u) = Some n)"
    using conjunct2 [OF conjunct2 [OF d], THEN spec, of n] by auto
qed

lemma owner_slot:
  assumes "ring_ok (th, s)" and "owned (th t) = Some c"
  shows "rg_rd s \<le> c" "rg_wt s \<le> c" "c < rg_ct s" "rg_flag s (index_of c) = 0"
  using assms owned_range [OF ring_okD(5) [OF assms(1)] assms(2)] by (auto simp: ring_ok_def counters_ok_def owners_ok_def)

lemma flagged_slot:
  assumes "ring_ok (th, s)" and "rg_flag s (index_of c) = commit_flag c"
  shows "rg_wt s \<le> c" "c < rg_ct s"
  using assms by (auto simp: ring_ok_def flags_ok_def dest!: spec [of _ "index_of c"])

section \<open>Every step keeps it\<close>

lemma keep_local:
  assumes "ring_ok (th, s)" and "owned (th t) = None" and "owned p = None" and "knows s p"
  shows "ring_ok (th(t := p), s)"
proof -
  have w: "writing (th t) = None" "writing p = None"
    using assms(2,3) writing_owned [of "th t"] writing_owned [of p] by fastforce+
  have o: "owned ((th(t := p)) u) = owned (th u)" and w': "writing ((th(t := p)) u) = writing (th u)" for u
    using assms(2,3) w by simp_all
  show ?thesis
    using assms(1,4) by (simp add: ring_ok_def data_ok_def owners_ok_def o w' del: fun_upd_apply) simp
qed

lemma ring_okI:
  assumes "counters_ok s" and "flags_ok s" and "data_ok (th(t := p)) s" and "owners_ok (th(t := p)) s"
    and "knows s p" and "\<And>u. u \<noteq> t \<Longrightarrow> knows s (th u)"
  shows "ring_ok (th(t := p), s)"
  using assms by (simp add: ring_ok_def)

lemma keep_claim:
  assumes ok: "ring_ok (th, s)" and p: "th t = PushCas x c" "rg_ct s = c" and bound: "unat c + 1 < 2 ^ 32"
  shows "ring_ok (th(t := PushBegin x c), s\<lparr>rg_ct := c + 1, rg_claimed := rg_claimed s @ [x]\<rparr>)"
proof (rule ring_okI)
  let ?s = "s\<lparr>rg_ct := c + 1, rg_claimed := rg_claimed s @ [x]\<rparr>"
  note ok' = ring_okD [OF ok]
  have inc: "unat (c + 1) = unat c + 1" using bound by (simp add: unat_word_ariths)
  then have lt: "c < c + 1" "n < c + 1 \<longleftrightarrow> n < c \<or> n = c" "n \<le> c \<Longrightarrow> n \<le> c + 1" "n \<le> c \<Longrightarrow> n \<noteq> c + 1" for n
    by (auto simp: word_less_nat_alt word_le_nat_alt word_unat_eq_iff)
  have room: "unat c < unat (rg_rd s) + 255" using ok'(5) [of t] p by simp
  have len: "length (rg_claimed s) = unat c" and rw: "rg_rd s \<le> rg_wt s" "rg_wt s \<le> c"
    using ok'(1) p(2) by (simp_all add: counters_ok_def)
  show "counters_ok ?s"
    using ok'(1) p(2) room inc lt(3) by (simp add: counters_ok_def word_le_nat_alt)
  show "flags_ok ?s"
    using ok'(2) p(2) by (simp add: flags_ok_def lt(2)) blast
  show "data_ok (th(t := PushBegin x c)) ?s"
  proof (rule data_okI)
    fix n assume n: "rg_rd ?s \<le> n" "n < rg_ct ?s" "\<And>u. u \<noteq> t \<Longrightarrow> writing (th u) \<noteq> Some n" "writing (PushBegin x c) \<noteq> Some n"
    have "writing (th u) \<noteq> Some n" for u using n(3) p(1) by (cases "u = t") auto
    then show "rg_data ?s (index_of n) = rg_claimed ?s ! unat n"
      using data_okD [OF ok'(3), of n] n p(2) len by (auto simp: lt(2) nth_append word_less_nat_alt [of n c])
  qed
  have free: "owned (th u) \<noteq> Some c" for u
    using owner_slot(3) [OF ok, of u c] p(2) by auto
  have "rg_flag s (index_of c) = 0"
  proof (rule ccontr)
    assume "rg_flag s (index_of c) \<noteq> 0"
    then obtain n where n: "index_of n = index_of c" "rg_wt s \<le> n" "n < rg_ct s"
      using ok'(2) by (auto simp: flags_ok_def)
    then have "n = c" using slot_inj [OF ok'(1) n(1)] rw p(2) by auto
    then show False using n p(2) by simp
  qed
  then show "owners_ok (th(t := PushBegin x c)) ?s"
    using owners_okD(1,2) [OF ok'(4)] owners_okD(3) [OF ok'(4), of _ t] free p by (intro owners_okI) (auto simp: lt(2), blast)
  show "knows ?s (PushBegin x c)" using rw lt len by (simp add: nth_append)
  show "knows ?s (th u)" if "u \<noteq> t" for u
    using ok'(5) [of u] p(2) lt(4) inc len rw by (cases "th u") (auto simp: nth_append word_less_nat_alt word_le_nat_alt)
qed

lemma keep_data:
  assumes ok: "ring_ok (th, s)" and p: "writing (th t) = Some c" and p': "owned p' = Some c"
    and k: "knows s p'" and w: "writing p' = Some c \<or> writing p' = None \<and> x = rg_claimed s ! unat c"
  shows "ring_ok (th(t := p'), s\<lparr>rg_data := (rg_data s)(index_of c := x)\<rparr>)"
proof (rule ring_okI)
  let ?s = "s\<lparr>rg_data := (rg_data s)(index_of c := x)\<rparr>"
  note ok' = ring_okD [OF ok]
  have o: "owned (th t) = Some c" by (rule writing_owned [OF p])
  show "counters_ok ?s" "flags_ok ?s" using ok'(1,2) by (simp_all add: counters_ok_def flags_ok_def)
  show "data_ok (th(t := p')) ?s"
  proof (rule data_okI)
    fix n assume n: "rg_rd ?s \<le> n" "n < rg_ct ?s" "\<And>u. u \<noteq> t \<Longrightarrow> writing (th u) \<noteq> Some n" "writing p' \<noteq> Some n"
    show "rg_data ?s (index_of n) = rg_claimed ?s ! unat n"
    proof (cases "n = c")
      case True
      then show ?thesis using n(4) w by auto
    next
      case False
      moreover from this have "writing (th u) \<noteq> Some n" for u using n(3) p by (cases "u = t") auto
      ultimately show ?thesis
        using data_okD [OF ok'(3)] slot_distinct [OF ok'(1) False] owner_slot [OF ok o] n(1,2) by simp
    qed
  qed
  show "owners_ok (th(t := p')) ?s"
  proof -
    have "owned ((th(t := p')) u) = owned (th u)" for u using o p' by simp
    then show ?thesis using ok'(4) by (simp add: owners_ok_def del: fun_upd_apply)
  qed
  show "knows ?s p'" using k by (cases p') auto
  show "knows ?s (th u)" for u using ok'(5) [of u] by (cases "th u") auto
qed

lemma keep_flag:
  assumes ok: "ring_ok (th, s)" and p: "th t = PushFlag x c"
  shows "ring_ok (th(t := PushCheck c), s\<lparr>rg_flag := (rg_flag s)(index_of c := commit_flag c)\<rparr>)"
proof (rule ring_okI)
  let ?s = "s\<lparr>rg_flag := (rg_flag s)(index_of c := commit_flag c)\<rparr>"
  note ok' = ring_okD [OF ok]
  have o: "owned (th t) = Some c" using p by simp
  note c = owner_slot [OF ok o]
  show "counters_ok ?s" "flags_ok ?s" using ok'(1,2) c by (auto simp: counters_ok_def flags_ok_def)
  show "data_ok (th(t := PushCheck c)) ?s"
  proof (rule data_okI)
    fix n assume n: "rg_rd ?s \<le> n" "n < rg_ct ?s" "\<And>u. u \<noteq> t \<Longrightarrow> writing (th u) \<noteq> Some n"
    have "writing (th u) \<noteq> Some n" for u using n(3) p by (cases "u = t") auto
    then show "rg_data ?s (index_of n) = rg_claimed ?s ! unat n" using data_okD [OF ok'(3)] n(1,2) by simp
  qed
  have other: "index_of n \<noteq> index_of c" if "rg_wt s \<le> n" "n < rg_ct s" "n \<noteq> c" for n
    by (rule slot_distinct [OF ok'(1)]) (use that c ok'(1) in \<open>auto simp: counters_ok_def\<close>)
  show "owners_ok (th(t := PushCheck c)) ?s"
  proof (rule owners_okI)
    show "rg_flag ?s (index_of n) = 0" if "u \<noteq> t" "owned (th u) = Some n" for u n
    proof -
      have "n \<noteq> c" using owners_okD(1) [OF ok'(4) that(2), of t] o that(1) by auto
      then show ?thesis using other owner_slot(2-4) [OF ok that(2)] by simp
    qed
    show "rg_flag ?s (index_of n) = commit_flag n \<or> owned (PushCheck c) = Some n \<or> (\<exists>u. u \<noteq> t \<and> owned (th u) = Some n)"
      if "rg_wt ?s \<le> n" "n < rg_ct ?s" for n
      using owners_okD(3) [OF ok'(4), of n t] that o other [of n] by (cases "n = c") auto
  qed (use owners_okD(1) [OF ok'(4)] in auto)
  show "knows ?s (PushCheck c)" by simp
  show "knows ?s (th u)" for u using ok'(5) [of u] by (cases "th u") auto
qed

lemma keep_take:
  assumes ok: "ring_ok (th, s)" and p: "owned (th t) = None" and c: "rg_flag s (index_of c) = commit_flag c" "c \<le> rg_wt s"
    and p': "owned p' = Some c" "writing p' = None" and k: "c = rg_wt s \<Longrightarrow> c < rg_ct s \<Longrightarrow> knows s p'"
  shows "ring_ok (th(t := p'), s\<lparr>rg_flag := (rg_flag s)(index_of c := 0)\<rparr>)"
proof (rule ring_okI)
  let ?s = "s\<lparr>rg_flag := (rg_flag s)(index_of c := 0)\<rparr>"
  note ok' = ring_okD [OF ok]
  have r: "rg_wt s \<le> c" "c < rg_ct s" by (rule flagged_slot [OF ok c(1)])+
  have wt: "c = rg_wt s" using r c(2) by simp
  have rd: "rg_rd s \<le> rg_wt s" using ok'(1) by (simp add: counters_ok_def)
  show "counters_ok ?s" "flags_ok ?s" using ok'(1,2) by (auto simp: counters_ok_def flags_ok_def)
  show "data_ok (th(t := p')) ?s"
  proof (rule data_okI)
    fix n assume n: "rg_rd ?s \<le> n" "n < rg_ct ?s" "\<And>u. u \<noteq> t \<Longrightarrow> writing (th u) \<noteq> Some n"
    have "writing (th u) \<noteq> Some n" for u using n(3) p writing_owned [of "th u" n] by (cases "u = t") auto
    then show "rg_data ?s (index_of n) = rg_claimed ?s ! unat n" using data_okD [OF ok'(3)] n(1,2) by simp
  qed
  have free: "owned (th u) \<noteq> Some c" for u using owner_slot(4) [OF ok, of u c] c(1) by auto
  show "owners_ok (th(t := p')) ?s"
  proof (rule owners_okI)
    show "rg_flag ?s (index_of n) = commit_flag n \<or> owned p' = Some n \<or> (\<exists>u. u \<noteq> t \<and> owned (th u) = Some n)"
      if n: "rg_wt ?s \<le> n" "n < rg_ct ?s" for n
    proof (cases "n = c")
      case False
      have "index_of n \<noteq> index_of c"
        by (rule slot_distinct [OF ok'(1) False]) (use n rd r in auto)
      then show ?thesis using owners_okD(3) [OF ok'(4), of n t] n p by auto
    qed (use p' in simp)
  qed (use owners_okD(1,2) [OF ok'(4)] p' free in auto)
  show "knows ?s p'" using k [OF wt r(2)] by (cases p') auto
  show "knows ?s (th u)" for u using ok'(5) [of u] by (cases "th u") auto
qed

lemma keep_store:
  assumes ok: "ring_ok (th, s)" and p: "owned (th t) = Some c" "writing (th t) = None" and c: "c = rg_wt s"
    and p': "owned p' = None" and k: "\<And>s. knows s p'"
  shows "ring_ok (th(t := p'), s\<lparr>rg_wt := c + 1\<rparr>)"
proof (rule ring_okI)
  let ?s = "s\<lparr>rg_wt := c + 1\<rparr>"
  note ok' = ring_okD [OF ok] and slot = owner_slot [OF ok p(1)]
  have inc: "unat (c + 1) = unat c + 1" by (rule unat_inc [OF slot(3)])
  have ge: "c + 1 \<le> n \<longleftrightarrow> c \<le> n \<and> n \<noteq> c" for n using inc by (auto simp: word_le_nat_alt word_unat_eq_iff)
  have lt: "c + 1 \<le> rg_ct s" "n \<le> c \<Longrightarrow> n \<le> c + 1" "n < c \<Longrightarrow> n < c + 1" for n
    using inc slot(3) by (auto simp: word_le_nat_alt word_less_nat_alt)
  show "counters_ok ?s" using ok'(1) lt c by (simp add: counters_ok_def)
  show "flags_ok ?s"
    using ok'(2) slot(4) unfolding flags_ok_def by (simp add: ge c [symmetric]) (metis commit_flag_nonzero(1))
  show "data_ok (th(t := p')) ?s"
  proof (rule data_okI)
    fix n assume n: "rg_rd ?s \<le> n" "n < rg_ct ?s" "\<And>u. u \<noteq> t \<Longrightarrow> writing (th u) \<noteq> Some n"
    have "writing (th u) \<noteq> Some n" for u using n(3) p(2) by (cases "u = t") auto
    then show "rg_data ?s (index_of n) = rg_claimed ?s ! unat n" using data_okD [OF ok'(3)] n(1,2) by simp
  qed
  show "owners_ok (th(t := p')) ?s"
  proof (rule owners_okI)
    show "rg_flag ?s (index_of n) = commit_flag n \<or> owned p' = Some n \<or> (\<exists>u. u \<noteq> t \<and> owned (th u) = Some n)"
      if n: "rg_wt ?s \<le> n" "n < rg_ct ?s" for n
      using owners_okD(3) [OF ok'(4), of n t] n p c by (auto simp: ge [unfolded c])
  qed (use owners_okD(1,2) [OF ok'(4)] p' in auto)
  show "knows ?s p'" by (rule k)
  show "knows ?s (th u)" if "u \<noteq> t" for u
  proof -
    have "owned (th u) \<noteq> Some c" using owners_okD(1) [OF ok'(4) p(1), of u] that by auto
    then show ?thesis using ok'(5) [of u] c lt by (cases "th u") (auto simp: ge [unfolded c])
  qed
qed

lemma keep_pop:
  assumes ok: "ring_ok (th, s)" and p: "th t = PopCas c x" "rg_rd s = c"
  shows "ring_ok (th(t := Ret r), s\<lparr>rg_rd := c + 1, rg_taken := rg_taken s @ [x]\<rparr>)"
proof (rule ring_okI)
  let ?s = "s\<lparr>rg_rd := c + 1, rg_taken := rg_taken s @ [x]\<rparr>"
  note ok' = ring_okD [OF ok]
  have x: "c < rg_wt s" "x = rg_claimed s ! unat c" using ok'(5) [of t] p by auto
  have inc: "unat (c + 1) = unat c + 1" by (rule unat_inc [OF x(1)])
  have lt: "c + 1 \<le> rg_wt s" "n \<le> c \<Longrightarrow> n \<le> c + 1" "c + 1 \<le> n \<Longrightarrow> c \<le> n" "n \<le> c \<Longrightarrow> n \<noteq> c + 1" for n
    using inc x(1) by (auto simp: word_le_nat_alt word_less_nat_alt word_unat_eq_iff)
  show "counters_ok ?s"
    using ok'(1) p(2) x lt(1) inc by (simp add: counters_ok_def take_Suc_conv_app_nth word_le_nat_alt word_less_nat_alt)
  show "flags_ok ?s" using ok'(2) by (simp add: flags_ok_def)
  show "data_ok (th(t := Ret r)) ?s"
  proof (rule data_okI)
    fix n assume n: "rg_rd ?s \<le> n" "n < rg_ct ?s" "\<And>u. u \<noteq> t \<Longrightarrow> writing (th u) \<noteq> Some n"
    have "writing (th u) \<noteq> Some n" for u using n(3) p by (cases "u = t") auto
    then show "rg_data ?s (index_of n) = rg_claimed ?s ! unat n" using data_okD [OF ok'(3)] n(1,2) lt p by simp
  qed
  show "owners_ok (th(t := Ret r)) ?s"
    using owners_okD(1,2) [OF ok'(4)] owners_okD(3) [OF ok'(4), of _ t] p by (intro owners_okI) auto
  show "knows ?s (Ret r)" by simp
  show "knows ?s (th u)" for u
    using ok'(5) [of u] p lt inc by (cases "th u") auto
qed

lemma keep_push_step:
  assumes ok: "ring_ok (th, s)" and st: "push_step weak torn (th t) s = (p, s')" and bound: "length (rg_claimed s') < 2 ^ 32"
  shows "ring_ok (th(t := p), s')"
proof (cases "th t")
  case (PushLoadRd x c)
  have c: "c \<le> rg_ct s" using ring_okD(5) [OF ok, of t] PushLoadRd by simp
  have "unat c < unat (rg_rd s) + 255" if "c = rg_ct s" "index_of (c + 1) \<noteq> index_of (rg_rd s)"
  proof (rule ccontr)
    assume "\<not> ?thesis"
    then have "unat c = unat (rg_rd s) + 255" using ring_okD(1) [OF ok] that(1) by (simp add: counters_ok_def)
    then have "unat (c + 1) mod 256 = unat (rg_rd s) mod 256" by (simp add: unat_word_ariths mod_mod_cancel)
    then show False using that(2) by (simp add: index_of_eq_iff)
  qed
  then have "knows s p" "owned p = None" "s' = s" using PushLoadRd st c by (auto split: if_splits)
  then show ?thesis using keep_local [OF ok, of t p] PushLoadRd by simp
next
  case (PushCas x c)
  show ?thesis
  proof (cases "rg_ct s = c \<and> \<not> weak")
    case True
    then have "unat c + 1 < 2 ^ 32" using st PushCas bound ring_okD(1) [OF ok] by (auto simp: counters_ok_def)
    then show ?thesis using keep_claim [OF ok PushCas] True st PushCas by auto
  qed (use keep_local [OF ok, of t] PushCas st in auto)
next
  case (PushBegin x c)
  then show ?thesis using keep_data [OF ok, of t c p torn] ring_okD(5) [OF ok, of t] st by auto
next
  case (PushData x c)
  then show ?thesis using keep_data [OF ok, of t c p x] ring_okD(5) [OF ok, of t] st by auto
next
  case (PushFlag x c)
  then show ?thesis using keep_flag [OF ok] st by auto
next
  case (PushWt c f)
  then show ?thesis using keep_local [OF ok, of t] st by (auto simp: committed_iff split: if_splits)
next
  case (PushTake c f)
  then show ?thesis
    using keep_take [OF ok, of t c p] keep_local [OF ok, of t p] ring_okD(5) [OF ok, of t] st by (auto split: if_splits)
next
  case (PushStore c)
  then show ?thesis using keep_store [OF ok, of t c p] ring_okD(5) [OF ok, of t] st by auto
qed (use ok keep_local [OF ok, of t] st in \<open>auto simp: fun_upd_idem\<close>)

lemma keep_pop_step:
  assumes ok: "ring_ok (th, s)" and st: "pop_step weak (th t) s = (p, s')"
  shows "ring_ok (th(t := p), s')"
proof (cases "th t")
  case (PopLoadWt c)
  have c: "c \<le> rg_rd s" "rg_rd s \<le> rg_wt s"
    using ring_okD(1) [OF ok] ring_okD(5) [OF ok, of t] PopLoadWt by (simp_all add: counters_ok_def)
  then have "c < rg_wt s" if "c = rg_rd s" "index_of c \<noteq> index_of (rg_wt s)" using that by (auto simp: order_less_le)
  then have "knows s p" "owned p = None" "s' = s" using PopLoadWt st c by (auto split: if_splits)
  then show ?thesis using keep_local [OF ok, of t p] PopLoadWt by simp
next
  case (PopFlag c)
  then show ?thesis using keep_local [OF ok, of t] ring_okD(5) [OF ok, of t] st by (auto simp: committed_iff Let_def split: if_splits)
next
  case (PopTake c f)
  then show ?thesis
    using keep_take [OF ok, of t c p] keep_local [OF ok, of t p] ring_okD(5) [OF ok, of t] st by (auto split: if_splits)
next
  case (PopStore c)
  then show ?thesis using keep_store [OF ok, of t c p] ring_okD(5) [OF ok, of t] st by auto
next
  case (PopCopy c)
  have "writing (th u) \<noteq> Some c" if "c < rg_wt s" for u
    using owner_slot(2) [OF ok writing_owned, of u c] that by auto
  then have "rg_data s (index_of c) = rg_claimed s ! unat c" if "c = rg_rd s" "c < rg_wt s"
    using data_okD [OF ring_okD(3) [OF ok], of c] that ring_okD(1) [OF ok] by (auto simp: counters_ok_def)
  then show ?thesis using keep_local [OF ok, of t] ring_okD(5) [OF ok, of t] PopCopy st by auto
next
  case (PopCas c x)
  then show ?thesis using keep_pop [OF ok] keep_local [OF ok, of t p] st by (auto split: if_splits)
qed (use ok keep_local [OF ok, of t] st in \<open>auto simp: fun_upd_idem\<close>)

lemma keep_event:
  assumes "ring_ok ts" and "length (rg_claimed (snd (ring_event e ts))) < 2 ^ 32"
  shows "ring_ok (ring_event e ts)"
proof -
  obtain th s where ts: "ts = (th, s)" by fastforce
  show ?thesis
  proof (cases e)
    case (Begin t oper)
    have "knows s (start oper)" "owned (start oper) = None" by (cases oper; simp)+
    then show ?thesis using assms(1) ts Begin keep_local [of th s t "start oper"] by (auto split: pc.splits)
  next
    case (Access t weak torn)
    obtain p s' where r: "ring_step weak torn (th t) s = (p, s')" by fastforce
    then show ?thesis
      using assms ts Access keep_pop_step [of th s weak t p s'] keep_push_step [of th s weak torn t p s']
      by (auto simp: ring_step_def split: if_splits)
  qed
qed

end
