(* ===== verification/Ring_Props.thy ===== *)
theory Ring_Props
  imports Ipc_Ring
begin

text \<open>
  What the ring promises: it is a linearizable bounded queue. The specification is a list of at most
  255 elements with an operation at each end; every access of every thread is a step of it or
  invisible, each completed operation has had exactly the effect its result says, and operations
  that run undisturbed succeed whenever the queue lets them.
\<close>

section \<open>Runs\<close>

lemma ring_run_simps [simp]:
  "ring_run [] ts = ts" "ring_run (evs @ [e]) ts = ring_event e (ring_run evs ts)"
  by (simp_all add: ring_run_def)

lemma step_claimed: "ring_step weak torn p s = (p', s') \<Longrightarrow> length (rg_claimed s) \<le> length (rg_claimed s')"
  by (cases p) (auto simp: ring_step_def Let_def split: if_splits)

lemma event_claimed: "length (rg_claimed (snd ts)) \<le> length (rg_claimed (snd (ring_event e ts)))"
  by (cases ts; cases e) (auto simp: step_claimed split: pc.splits prod.splits)

lemma start_ok: "ring_ok (ring_start zero)"
  by (simp add: ring_ok_def ring_start_def ring_init_def counters_ok_def flags_ok_def data_ok_def owners_ok_def)

lemma run_ok:
  "length (rg_claimed (snd (ring_run evs (ring_start zero)))) < 2 ^ 32 \<Longrightarrow> ring_ok (ring_run evs (ring_start zero))"
proof (induction evs rule: rev_induct)
  case Nil
  then show ?case by (simp add: start_ok)
next
  case (snoc e evs)
  then show ?case using event_claimed [of "ring_run evs (ring_start zero)" e] keep_event [of "ring_run evs (ring_start zero)" e] by simp
qed

section \<open>The bounded queue\<close>

definition ring_queue :: "'a ring \<Rightarrow> 'a list" where
  "ring_queue s = drop (length (rg_taken s)) (rg_claimed s)"

datatype 'a queue_act = Silent | Enqueue 'a | Dequeue 'a

fun queue_spec :: "'a queue_act \<Rightarrow> 'a list \<Rightarrow> 'a list option" where
  "queue_spec Silent q = Some q"
| "queue_spec (Enqueue x) q = (if length q < 255 then Some (q @ [x]) else None)"
| "queue_spec (Dequeue x) q = (case q of [] \<Rightarrow> None | y # ys \<Rightarrow> if x = y then Some ys else None)"

text \<open>An operation takes effect at its successful compare-and-exchange of the commit index or the read index.\<close>

fun effect :: "bool \<Rightarrow> 'a pc \<Rightarrow> 'a ring \<Rightarrow> 'a queue_act" where
  "effect weak (PushCas x c) s = (if rg_ct s = c \<and> \<not> weak then Enqueue x else Silent)"
| "effect weak (PopCas c x) s = (if rg_rd s = c \<and> \<not> weak then Dequeue x else Silent)"
| "effect weak p s = Silent"

fun event_effect :: "'a event \<Rightarrow> 'a threads \<times> 'a ring \<Rightarrow> 'a queue_act" where
  "event_effect (Begin t oper) (th, s) = Silent"
| "event_effect (Access t weak torn) (th, s) = effect weak (th t) s"

lemma counters_lengths:
  assumes "counters_ok s"
  shows "length (rg_taken s) = unat (rg_rd s)" and "rg_claimed s = rg_taken s @ ring_queue s"
    and "length (ring_queue s) = unat (rg_ct s) - unat (rg_rd s)" and "unat (rg_rd s) \<le> unat (rg_ct s)"
    and "length (rg_claimed s) = unat (rg_ct s)"
  using assms by (auto simp: counters_ok_def ring_queue_def word_le_nat_alt)

lemma step_refines:
  assumes ok: "ring_ok (th, s)" and st: "ring_step weak torn (th t) s = (p, s')"
  shows "queue_spec (effect weak (th t) s) (ring_queue s) = Some (ring_queue s')"
proof -
  note c = counters_lengths [OF ring_okD(1) [OF ok]] and k = ring_okD(5) [OF ok, of t]
  show ?thesis
  proof (cases "th t")
    case (Ret r)
    then have "s' = s" using st by (simp add: ring_step_def)
    then show ?thesis using Ret by simp
  next
    case (PushCas x n)
    then show ?thesis
      using st k c by (auto simp: ring_step_def ring_queue_def)
  next
    case (PopCas n x)
    show ?thesis
    proof (cases "rg_rd s = n \<and> \<not> weak")
      case True
      then have "unat n < length (rg_claimed s)" "x = rg_claimed s ! unat n"
        using k PopCas ring_okD(1) [OF ok] by (auto simp: counters_ok_def word_less_nat_alt word_le_nat_alt)
      then show ?thesis
        using True st PopCas c(1) by (auto simp: ring_step_def ring_queue_def Cons_nth_drop_Suc [symmetric])
    qed (use PopCas st in \<open>auto simp: ring_step_def\<close>)
  qed (use st in \<open>auto simp: ring_step_def ring_queue_def Let_def split: if_splits\<close>)
qed

lemma event_refines:
  assumes "ring_ok ts"
  shows "queue_spec (event_effect e ts) (ring_queue (snd ts)) = Some (ring_queue (snd (ring_event e ts)))"
proof -
  obtain th s where ts: "ts = (th, s)" by fastforce
  show ?thesis
  proof (cases e)
    case (Access t weak torn)
    then show ?thesis using step_refines [of th s weak torn t] assms ts by (auto split: prod.splits)
  qed (use ts in \<open>auto split: pc.splits\<close>)
qed

section \<open>Histories\<close>

text \<open>What happens in a run: operations are invoked, take effect and return.\<close>

datatype 'a item = Invoke "'a ring_op" | Effect "'a queue_act" | Return "'a ring_result"

fun returned :: "'a pc \<Rightarrow> 'a item list" where
  "returned (Ret r) = [Return r]"
| "returned p = []"

definition returns :: "'a pc \<Rightarrow> 'a pc \<Rightarrow> 'a item list" where
  "returns p p' = (if returned p = [] then returned p' else [])"

fun observed :: "'a event \<Rightarrow> 'a threads \<times> 'a ring \<Rightarrow> (nat \<times> 'a item) list" where
  "observed (Begin t oper) (th, s) = (case th t of Ret r \<Rightarrow> [(t, Invoke oper)] | _ \<Rightarrow> [])"
| "observed (Access t weak torn) (th, s) =
     (case effect weak (th t) s of Silent \<Rightarrow> [] | a \<Rightarrow> [(t, Effect a)])
     @ map (Pair t) (returns (th t) (fst (ring_step weak torn (th t) s)))"

fun ring_hist :: "'a event list \<Rightarrow> 'a threads \<times> 'a ring \<Rightarrow> (nat \<times> 'a item) list" where
  "ring_hist [] ts = []"
| "ring_hist (e # evs) ts = observed e ts @ ring_hist evs (ring_event e ts)"

lemma ring_hist_snoc [simp]: "ring_hist (evs @ [e]) ts = ring_hist evs ts @ observed e (ring_run evs ts)"
  by (induction evs arbitrary: ts) (simp_all add: ring_run_def)

text \<open>
  A thread runs one operation at a time. An operation that has not taken effect can return only a
  failure; one that has taken effect, which it does once, returns the matching success.
\<close>

datatype 'a phase = Idle | Invoked "'a ring_op" | Effected "'a ring_result"

fun advance :: "'a item \<Rightarrow> 'a phase \<Rightarrow> 'a phase option" where
  "advance (Invoke oper) Idle = Some (Invoked oper)"
| "advance (Effect (Enqueue y)) (Invoked (Push x)) = (if x = y then Some (Effected (Pushed True)) else None)"
| "advance (Effect (Dequeue x)) (Invoked Pop) = Some (Effected (Popped (Some x)))"
| "advance (Return (Pushed False)) (Invoked (Push x)) = Some Idle"
| "advance (Return (Popped None)) (Invoked Pop) = Some Idle"
| "advance (Return r') (Effected r) = (if r' = r then Some Idle else None)"
| "advance i ph = None"

definition run_spec :: "('i \<Rightarrow> 's \<Rightarrow> 's option) \<Rightarrow> 'i list \<Rightarrow> 's \<Rightarrow> 's option" where
  "run_spec f is0 s0 = fold (\<lambda>i s. Option.bind s (f i)) is0 (Some s0)"

lemma run_spec_simps [simp]:
  "run_spec f [] s0 = Some s0" "run_spec f (xs @ ys) s0 = Option.bind (run_spec f xs s0) (run_spec f ys)"
  "run_spec f (x # xs) s0 = Option.bind (f x s0) (run_spec f xs)"
proof -
  have none: "fold (\<lambda>i s. Option.bind s (f i)) xs None = None" for xs by (induction xs) simp_all
  show "run_spec f [] s0 = Some s0" by (simp add: run_spec_def)
  show "run_spec f (xs @ ys) s0 = Option.bind (run_spec f xs s0) (run_spec f ys)" for xs ys
    by (cases "run_spec f xs s0") (simp_all add: run_spec_def none)
  show "run_spec f (x # xs) s0 = Option.bind (f x s0) (run_spec f xs)" for x xs
    by (cases "f x s0") (simp_all add: run_spec_def none)
qed

definition of_thread :: "nat \<Rightarrow> (nat \<times> 'a item) list \<Rightarrow> 'a item list" where
  "of_thread t h = map snd (filter (\<lambda>i. fst i = t) h)"

fun effect_of :: "'a item \<Rightarrow> 'a queue_act list" where
  "effect_of (Effect a) = [a]"
| "effect_of i = []"

definition effects :: "(nat \<times> 'a item) list \<Rightarrow> 'a queue_act list" where
  "effects h = concat (map (effect_of \<circ> snd) h)"

lemma hist_appends [simp]: "of_thread t (h @ h') = of_thread t h @ of_thread t h'" "effects (h @ h') = effects h @ effects h'"
  by (simp_all add: of_thread_def effects_def)

fun phase_of :: "'a pc \<Rightarrow> 'a phase" where
  "phase_of (Ret r) = Idle"
| "phase_of (PushLoadCt x) = Invoked (Push x)"
| "phase_of (PushLoadRd x c) = Invoked (Push x)"
| "phase_of (PushCas x c) = Invoked (Push x)"
| "phase_of p = (if is_pop p then Invoked Pop else Effected (Pushed True))"

lemma observed_thread:
  "run_spec advance (of_thread t (observed e ts)) (phase_of (fst ts t)) = Some (phase_of (fst (ring_event e ts) t))"
proof -
  obtain th s where ts: "ts = (th, s)" by fastforce
  show ?thesis
  proof (cases e)
    case (Begin u oper)
    then show ?thesis using ts by (cases oper) (auto simp: of_thread_def split: pc.splits)
  next
    case (Access u weak torn)
    show ?thesis
    proof (cases "u = t")
      case True
      then show ?thesis
        using Access ts by (cases "th t") (auto simp: of_thread_def ring_step_def returns_def Let_def)
    next
      case False
      have "of_thread t (map (Pair u) is0) = []" for is0 :: "'a item list" using False by (induction is0) (auto simp: of_thread_def)
      moreover have "fst (ring_event e ts) t = th t" using Access ts False by (auto split: prod.splits)
      ultimately show ?thesis using Access ts False by (auto simp: of_thread_def split: queue_act.splits)
    qed
  qed
qed

lemma observed_effects:
  assumes "ring_ok ts"
  shows "run_spec queue_spec (effects (observed e ts)) (ring_queue (snd ts)) = Some (ring_queue (snd (ring_event e ts)))"
proof -
  have r: "effects (map (Pair t) (returns p p')) = []" for t :: nat and p p' :: "'a pc"
    by (cases p') (simp_all add: effects_def returns_def)
  obtain th s where ts: "ts = (th, s)" by fastforce
  have "effects (observed e ts) = (case event_effect e ts of Silent \<Rightarrow> [] | a \<Rightarrow> [a])"
    using ts r by (cases e) (auto simp: effects_def split: pc.splits queue_act.splits)
  then show ?thesis using event_refines [OF assms, of e] by (cases "event_effect e ts") auto
qed

lemma run_threads:
  "run_spec advance (of_thread t (ring_hist evs (ring_start zero))) Idle = Some (phase_of (fst (ring_run evs (ring_start zero)) t))"
proof (induction evs rule: rev_induct)
  case Nil
  then show ?case by (simp add: of_thread_def ring_start_def)
next
  case (snoc e evs)
  then show ?case by (simp add: observed_thread)
qed

text \<open>
  C5. The channel between scheduler and executors is a linearizable queue of at most 255 messages.
  In every interleaving of the accesses of any number of threads, as long as fewer than \<open>2 ^ 32\<close>
  messages have been pushed (so that the 32-bit counters do not wrap), the pushes and pops take
  effect one after the other as on a list: a push appends, a pop removes and returns the first
  element, nothing is lost, duplicated, reordered or torn. Every operation of every thread that
  returns a success has taken effect exactly once between its invocation and its return, with that
  result, and one that returns a failure has not.
\<close>

theorem ring_linearizable:
  assumes "length (rg_claimed (snd (ring_run evs (ring_start zero)))) < 2 ^ 32"
  shows "run_spec queue_spec (effects (ring_hist evs (ring_start zero))) [] = Some (ring_queue (snd (ring_run evs (ring_start zero))))
    \<and> (\<forall>t. run_spec advance (of_thread t (ring_hist evs (ring_start zero))) Idle
           = Some (phase_of (fst (ring_run evs (ring_start zero)) t)))"
proof (intro conjI allI run_threads)
  show "run_spec queue_spec (effects (ring_hist evs (ring_start zero))) [] = Some (ring_queue (snd (ring_run evs (ring_start zero))))"
    using assms
  proof (induction evs rule: rev_induct)
    case Nil
    then show ?case by (simp add: effects_def ring_start_def ring_init_def ring_queue_def)
  next
    case (snoc e evs)
    have b: "length (rg_claimed (snd (ring_run evs (ring_start zero)))) < 2 ^ 32"
      using snoc.prems event_claimed [of "ring_run evs (ring_start zero)" e] by simp
    then show ?case
      using snoc.IH observed_effects [OF run_ok [OF b], of e] by simp
  qed
qed

text \<open>Two threads push at the same time, a third pops; the second push overtakes the first, which has claimed its slot.\<close>

definition access :: "nat \<Rightarrow> nat event" where
  "access t = Access t False 0"

definition crossing_run :: "nat event list" where
  "crossing_run = [Begin 0 (Push 7), Begin 1 (Push 8), access 0, access 1, access 0, access 0, access 1, access 1, access 1,
     access 1, access 1, access 1, access 1, access 1, access 1, access 1, access 1,
     access 0, access 0, access 0, access 0, access 0, access 0, access 0, access 0, access 0, access 0, access 0, access 0, access 0,
     Begin 2 Pop, access 2, access 2, access 2, access 2]"

theorem ring_linearizable_witness:
  "length (rg_claimed (snd (ring_run crossing_run (ring_start 0)))) = 2
   \<and> ring_hist crossing_run (ring_start 0) =
       [(0, Invoke (Push 7)), (1, Invoke (Push 8)), (0, Effect (Enqueue 7)), (1, Effect (Enqueue 8)),
        (1, Return (Pushed True)), (0, Return (Pushed True)), (2, Invoke Pop), (2, Effect (Dequeue 7)), (2, Return (Popped (Some 7)))]
   \<and> run_spec queue_spec (effects (ring_hist crossing_run (ring_start 0))) []
       = Some (ring_queue (snd (ring_run crossing_run (ring_start 0))))"
proof -
  have n: "length (rg_claimed (snd (ring_run crossing_run (ring_start 0)))) = 2" by code_simp
  have h: "ring_hist crossing_run (ring_start 0) =
      [(0, Invoke (Push 7)), (1, Invoke (Push 8)), (0, Effect (Enqueue 7)), (1, Effect (Enqueue 8)),
       (1, Return (Pushed True)), (0, Return (Pushed True)), (2, Invoke Pop), (2, Effect (Dequeue 7)), (2, Return (Popped (Some 7)))]"
    by code_simp
  show ?thesis using ring_linearizable [of crossing_run 0] n h by simp
qed

section \<open>Operations that run alone\<close>

fun solo :: "nat \<Rightarrow> 'a \<Rightarrow> 'a pc \<times> 'a ring \<Rightarrow> 'a pc \<times> 'a ring" where
  "solo 0 torn ps = ps"
| "solo (Suc n) torn (p, s) = solo n torn (ring_step False torn p s)"

lemma solo_run: "ring_run (replicate n (Access t False torn)) (th, s) = (th(t := fst (solo n torn (th t, s))), snd (solo n torn (th t, s)))"
proof (induction n arbitrary: th s)
  case 0
  then show ?case by simp
next
  case (Suc n)
  obtain p s' where "ring_step False torn (th t) s = (p, s')" by fastforce
  then have "ring_run (replicate (Suc n) (Access t False torn)) (th, s) = ring_run (replicate n (Access t False torn)) (th(t := p), s')"
      "solo (Suc n) torn (th t, s) = solo n torn (p, s')"
    by (simp_all add: ring_run_def)
  then show ?case by (simp only: Suc fun_upd_same fun_upd_upd)
qed

lemma solo_numeral [simp]:
  "solo (numeral k) torn (p, s) = solo (pred_numeral k) torn (ring_step False torn p s)"
  "solo 1 torn (p, s) = ring_step False torn p s"
  by (simp_all add: numeral_eq_Suc)

lemma solo_add: "solo (m + n) torn ps = solo n torn (solo m torn ps)"
proof (induction m arbitrary: ps)
  case (Suc m)
  then show ?case by (cases ps) simp
qed simp

text \<open>No operation is under way.\<close>

definition quiescent :: "'a threads \<Rightarrow> bool" where
  "quiescent th \<longleftrightarrow> (\<forall>t. \<exists>r. th t = Ret r)"

lemma quiescent_free:
  assumes "quiescent th"
  shows "owned (th t) = None" and "writing (th t) = None"
  using assms by (metis quiescent_def owned.simps(6), metis quiescent_def writing.simps(3))

lemma quiescent_slots:
  assumes ok: "ring_ok (th, s)" and q: "quiescent th"
  shows "rg_rd s \<le> n \<Longrightarrow> n < rg_ct s \<Longrightarrow> rg_data s (index_of n) = rg_claimed s ! unat n"
    and "rg_flag s (index_of n) = commit_flag n \<longleftrightarrow> rg_wt s \<le> n \<and> n < rg_ct s"
    and "index_of (rg_rd s) = index_of (rg_wt s) \<longleftrightarrow> rg_rd s = rg_wt s"
    and "index_of (rg_ct s + 1) = index_of (rg_rd s) \<longleftrightarrow> length (ring_queue s) = 255"
proof -
  note c = ring_okD(1) [OF ok, unfolded counters_ok_def word_le_nat_alt] and l = counters_lengths [OF ring_okD(1) [OF ok]]
  show "rg_data s (index_of n) = rg_claimed s ! unat n" if "rg_rd s \<le> n" "n < rg_ct s"
    using data_okD [OF ring_okD(3) [OF ok] that] quiescent_free [OF q] by simp
  show "rg_flag s (index_of n) = commit_flag n \<longleftrightarrow> rg_wt s \<le> n \<and> n < rg_ct s"
    using flagged_slot [OF ok, of n] owners_okD(3) [OF ring_okD(4) [OF ok], of n] quiescent_free [OF q] by auto
  show "index_of (rg_rd s) = index_of (rg_wt s) \<longleftrightarrow> rg_rd s = rg_wt s"
    using index_of_inj [of "rg_rd s" "rg_wt s" "unat (rg_rd s)"] c by auto
  have "unat (rg_ct s + 1) mod 256 = (unat (rg_ct s) + 1) mod 256" by (simp add: unat_word_ariths mod_mod_cancel)
  moreover have "(unat (rg_ct s) + 1) mod 256 = unat (rg_rd s) mod 256 \<longleftrightarrow> unat (rg_ct s) + 1 = unat (rg_rd s) + 256"
    using mod_window_inj [of "unat (rg_ct s) + 1" "unat (rg_rd s) + 256" "unat (rg_rd s) + 1"] c by auto
  ultimately show "index_of (rg_ct s + 1) = index_of (rg_rd s) \<longleftrightarrow> length (ring_queue s) = 255"
    using l(3,4) by (simp add: index_of_eq_iff) linarith
qed

lemma index_of_next: "unat (c + 1) = unat c + 1 \<Longrightarrow> index_of (c + 1) \<noteq> index_of c"
  using index_of_inj [of "c + 1" c "unat c"] by fastforce

lemma solo_pop:
  assumes ok: "ring_ok (th, s)" and q: "quiescent th"
  shows "\<exists>n s'. solo n torn (PopLoadRd, s) = (Ret (Popped (case ring_queue s of [] \<Rightarrow> None | x # _ \<Rightarrow> Some x)), s')
    \<and> ring_queue s' = tl (ring_queue s) \<and> rg_claimed s' = rg_claimed s"
proof -
  note c = ring_okD(1) [OF ok, unfolded counters_ok_def] and l = counters_lengths [OF ring_okD(1) [OF ok]] and sl = quiescent_slots [OF ok q]
  have taken: "\<exists>s'. solo 4 torn (PopLoadRd, t) = (Ret (Popped (case ring_queue s of [] \<Rightarrow> None | x # _ \<Rightarrow> Some x)), s')
      \<and> ring_queue s' = tl (ring_queue s) \<and> rg_claimed s' = rg_claimed s"
    if t: "rg_rd t = rg_rd s" "rg_data t = rg_data s" "rg_claimed t = rg_claimed s" "rg_taken t = rg_taken s"
      "index_of (rg_rd s) \<noteq> index_of (rg_wt t)" and lt: "rg_rd s < rg_ct s" for t
  proof -
    let ?x = "rg_claimed s ! unat (rg_rd s)"
    let ?t = "t\<lparr>rg_rd := rg_rd s + 1, rg_taken := rg_taken s @ [?x]\<rparr>"
    have x: "rg_data s (index_of (rg_rd s)) = ?x" by (rule sl(1)) (use lt in simp_all)
    have "ring_queue s = ?x # drop (Suc (unat (rg_rd s))) (rg_claimed s)"
      using lt l(1,5) by (simp add: ring_queue_def Cons_nth_drop_Suc word_less_nat_alt)
    moreover have "ring_queue ?t = drop (Suc (unat (rg_rd s))) (rg_claimed s)"
      using l(1) t(3) by (simp add: ring_queue_def)
    moreover have "solo 4 torn (PopLoadRd, t) = (Ret (Popped (Some ?x)), ?t)"
      using t x by (simp add: ring_step_def)
    ultimately show ?thesis using t(3) by simp
  qed
  show ?thesis
  proof (cases "rg_rd s = rg_wt s")
    case False
    then have "rg_rd s < rg_ct s" using c by (auto simp: order_less_le)
    then show ?thesis using taken [of s] sl(3) False by blast
  next
    case True
    show ?thesis
    proof (cases "rg_wt s < rg_ct s")
      case False
      then have "rg_ct s = rg_rd s" using c True by simp
      then have "length (ring_queue s) = 0" "rg_flag s (index_of (rg_wt s)) \<noteq> commit_flag (rg_wt s)"
        using l(3) sl(2) False by simp_all
      then have "solo 3 torn (PopLoadRd, s) = (Ret (Popped None), s)"
        using True sl(3) by (simp add: ring_step_def committed_iff)
      then show ?thesis
        using \<open>length (ring_queue s) = 0\<close> by (intro exI [of _ 3] exI [of _ s]) simp
    next
      case lt: True
      let ?t = "s\<lparr>rg_flag := (rg_flag s)(index_of (rg_wt s) := 0), rg_wt := rg_wt s + 1\<rparr>"
      have "solo 5 torn (PopLoadRd, s) = (PopLoadRd, ?t)"
        using True sl(2) [of "rg_wt s"] lt by (simp add: ring_step_def committed_iff)
      moreover have "index_of (rg_rd s) \<noteq> index_of (rg_wt ?t)"
        using index_of_next [of "rg_wt s"] True unat_inc [OF lt] by simp
      ultimately obtain s' where "solo 9 torn (PopLoadRd, s) = (Ret (Popped (case ring_queue s of [] \<Rightarrow> None | x # _ \<Rightarrow> Some x)), s')"
          "ring_queue s' = tl (ring_queue s)" "rg_claimed s' = rg_claimed s"
        using taken [of ?t] True lt solo_add [of 5 4 torn "(PopLoadRd, s)"] by auto
      then show ?thesis by blast
    qed
  qed
qed

lemma solo_push:
  assumes ok: "ring_ok (th, s)" and q: "quiescent th" and bound: "length (rg_claimed s) + 1 < 2 ^ 32"
  shows "\<exists>n s'. solo n torn (PushLoadCt x, s) = (Ret (Pushed (length (ring_queue s) < 255)), s')
    \<and> ring_queue s' = (if length (ring_queue s) < 255 then ring_queue s @ [x] else ring_queue s)
    \<and> length (rg_claimed s') \<le> length (rg_claimed s) + 1"
proof -
  note c = ring_okD(1) [OF ok, unfolded counters_ok_def] and l = counters_lengths [OF ring_okD(1) [OF ok]] and sl = quiescent_slots [OF ok q]
  have len: "length (ring_queue s) \<le> 255" using l(3,4) c by linarith
  have inc: "unat (rg_ct s + 1) = unat (rg_ct s) + 1" using bound l(5) by (simp add: unat_word_ariths)
  show ?thesis
  proof (cases "length (ring_queue s) < 255")
    case False
    then have "solo 2 torn (PushLoadCt x, s) = (Ret (Pushed False), s)" using sl(4) len by (simp add: ring_step_def)
    then show ?thesis using False by (intro exI [of _ 2] exI [of _ s]) simp
  next
    case True
    let ?c = "rg_ct s"
    let ?t = "s\<lparr>rg_ct := ?c + 1, rg_claimed := rg_claimed s @ [x], rg_data := (rg_data s)(index_of ?c := x),
        rg_flag := (rg_flag s)(index_of ?c := commit_flag ?c)\<rparr>"
    have qt: "ring_queue (t :: 'a ring) = ring_queue s @ [x]" if "rg_claimed t = rg_claimed s @ [x]" "rg_taken t = rg_taken s" for t
      using l(1,4,5) that by (simp add: ring_queue_def)
    have 7: "solo 7 torn (PushLoadCt x, s) = (PushWt ?c (commit_flag ?c), ?t)"
      using True sl(4) by (simp add: ring_step_def)
    show ?thesis
    proof (cases "?c = rg_wt s")
      case False
      then have "solo 8 torn (PushLoadCt x, s) = (Ret (Pushed True), ?t)"
        using solo_add [of 7 1 torn "(PushLoadCt x, s)"] 7 by (simp add: ring_step_def del: solo_numeral(1))
      then show ?thesis using True qt [of ?t] by (intro exI [of _ 8] exI [of _ ?t]) simp
    next
      case wt: True
      let ?u = "?t\<lparr>rg_flag := (rg_flag s)(index_of ?c := 0), rg_wt := ?c + 1\<rparr>"
      have ne: "index_of (?c + 1) \<noteq> index_of ?c"
        by (rule index_of_next [OF inc])
      have "\<not> ?c + 1 < ?c" using inc by (simp add: word_less_nat_alt)
      then have "rg_flag s (index_of (?c + 1)) \<noteq> commit_flag (?c + 1)" using sl(2) by simp
      then have "solo 5 torn (PushWt ?c (commit_flag ?c), ?t) = (Ret (Pushed True), ?u)"
        using wt ne by (simp add: ring_step_def committed_iff commit_flag_def [symmetric])
      then have "solo 12 torn (PushLoadCt x, s) = (Ret (Pushed True), ?u)"
        using solo_add [of 7 5 torn "(PushLoadCt x, s)"] 7 by (simp del: solo_numeral)
      then show ?thesis using True qt [of ?u] by (intro exI [of _ 12] exI [of _ ?u]) simp
    qed
  qed
qed

lemma solo_begin:
  assumes "quiescent th"
  shows "ring_run (Begin t oper # replicate n (Access t False torn)) (th, s)
    = (th(t := fst (solo n torn (start oper, s))), snd (solo n torn (start oper, s)))"
proof -
  obtain r where "th t = Ret r" using assms by (auto simp: quiescent_def)
  then have "ring_run (Begin t oper # replicate n (Access t False torn)) (th, s)
      = ring_run (replicate n (Access t False torn)) (th(t := start oper), s)"
    by (simp add: ring_run_def)
  then show ?thesis by (simp only: solo_run fun_upd_same fun_upd_upd)
qed

lemma ring_solo_push:
  assumes "ring_run evs (ring_start zero) = (th, s)" and "quiescent th" and "length (rg_claimed s) + 1 < 2 ^ 32"
  shows "\<exists>n s'. ring_run (Begin t (Push x) # replicate n (Access t False torn)) (th, s) = (th(t := Ret (Pushed (length (ring_queue s) < 255))), s')
    \<and> ring_queue s' = (if length (ring_queue s) < 255 then ring_queue s @ [x] else ring_queue s) \<and> length (rg_claimed s') \<le> length (rg_claimed s) + 1"
proof -
  have "ring_ok (th, s)" using run_ok [of evs zero] assms(1,3) by simp
  from solo_push [OF this assms(2,3), of torn x] show ?thesis
    by (simp only: solo_begin [OF assms(2)] start.simps) (metis fst_conv snd_conv)
qed

lemma ring_solo_pop:
  assumes "ring_run evs (ring_start zero) = (th, s)" and "quiescent th" and "length (rg_claimed s) < 2 ^ 32"
  shows "\<exists>n s'. ring_run (Begin t Pop # replicate n (Access t False torn)) (th, s)
      = (th(t := Ret (Popped (case ring_queue s of [] \<Rightarrow> None | y # _ \<Rightarrow> Some y))), s')
    \<and> ring_queue s' = tl (ring_queue s) \<and> rg_claimed s' = rg_claimed s"
proof -
  have "ring_ok (th, s)" using run_ok [of evs zero] assms(1,3) by simp
  from solo_pop [OF this assms(2), of torn] show ?thesis
    by (simp only: solo_begin [OF assms(2)] start.simps) (metis fst_conv snd_conv)
qed

text \<open>
  When no other operation is under way, a push and a pop return after finitely many steps, with
  the result of the bounded queue. After any run that has ended with all threads idle, a push that
  runs alone succeeds, and appends, exactly when fewer than 255 messages are in the ring; a pop that
  runs alone returns the first message, and nothing exactly when the ring is empty.
\<close>

theorem ring_solo_operations:
  assumes "ring_run evs (ring_start zero) = (th, s)" and "quiescent th" and "length (rg_claimed s) + 1 < 2 ^ 32"
  shows "(\<exists>n s'. ring_run (Begin t (Push x) # replicate n (Access t False torn)) (th, s) = (th(t := Ret (Pushed (length (ring_queue s) < 255))), s')
           \<and> ring_queue s' = (if length (ring_queue s) < 255 then ring_queue s @ [x] else ring_queue s))
    \<and> (\<exists>n s'. ring_run (Begin t Pop # replicate n (Access t False torn)) (th, s)
             = (th(t := Ret (Popped (case ring_queue s of [] \<Rightarrow> None | y # _ \<Rightarrow> Some y))), s')
           \<and> ring_queue s' = tl (ring_queue s))"
proof -
  have "length (rg_claimed s) < 2 ^ 32" using assms(3) by simp
  then show ?thesis using ring_solo_push [OF assms, of t x torn] ring_solo_pop [OF assms(1,2), of t torn] by blast
qed

fun thread_of :: "'a event \<Rightarrow> nat" where
  "thread_of (Begin t oper) = t"
| "thread_of (Access t weak torn) = t"

lemma run_untouched: "t \<notin> thread_of ` set evs \<Longrightarrow> fst (ring_run evs ts) t = fst ts t"
proof (induction evs rule: rev_induct)
  case (snoc e evs)
  then show ?case by (cases e; cases "ring_run evs ts") (auto split: pc.splits prod.splits)
qed simp

theorem ring_solo_operations_witness:
  "ring_queue (snd (ring_run crossing_run (ring_start 0))) = [8]
   \<and> (\<exists>n s'. ring_run (Begin 5 Pop # replicate n (Access 5 False 0)) (ring_run crossing_run (ring_start 0))
         = ((fst (ring_run crossing_run (ring_start 0)))(5 := Ret (Popped (Some 8))), s') \<and> ring_queue s' = [])"
proof -
  obtain th s where r: "ring_run crossing_run (ring_start (0 :: nat)) = (th, s)" by fastforce
  have q: "ring_queue (snd (ring_run crossing_run (ring_start 0))) = [8]" by code_simp
  have n: "length (rg_claimed (snd (ring_run crossing_run (ring_start 0)))) = 2" by code_simp
  have u: "\<exists>r. fst (ring_run crossing_run (ring_start 0)) t = Ret r" for t
  proof (cases "t \<in> {0, 1, 2}")
    case True
    have "fst (ring_run crossing_run (ring_start 0)) 0 = Ret (Pushed True)" by code_simp
    moreover have "fst (ring_run crossing_run (ring_start 0)) 1 = Ret (Pushed True)" by code_simp
    moreover have "fst (ring_run crossing_run (ring_start 0)) 2 = Ret (Popped (Some 7))" by code_simp
    ultimately show ?thesis using True by auto
  next
    case False
    then show ?thesis using run_untouched [of t crossing_run] by (simp add: crossing_run_def access_def ring_start_def)
  qed
  then have "quiescent th" using r by (simp add: quiescent_def)
  then show ?thesis using ring_solo_operations [OF r, of 5 _ 0] q n r by auto
qed

definition overtaken_run :: "nat event list" where
  "overtaken_run = [Begin 0 (Push 7), access 0, Begin 1 (Push 8)] @ replicate 12 (access 1)
     @ [Begin 2 Pop] @ replicate 4 (access 2) @ [access 0]"

text \<open>
  A push can report that the ring is full although it is empty. A thread reads the commit index,
  another thread pushes a message that a third one takes, and the first thread then compares its
  stale index with the new read index. In this run of three threads the ring never holds more than
  one message, it is empty when the push returns, and the push returns false.
\<close>

theorem push_reports_full_when_empty:
  "fst (ring_run overtaken_run (ring_start 0)) 0 = Ret (Pushed False)
   \<and> ring_queue (snd (ring_run overtaken_run (ring_start 0))) = []
   \<and> list_all (\<lambda>k. length (ring_queue (snd (ring_run (take k overtaken_run) (ring_start 0)))) \<le> 1) [0..<Suc (length overtaken_run)]"
proof (intro conjI)
  show "fst (ring_run overtaken_run (ring_start 0)) 0 = Ret (Pushed False)" by code_simp
  show "ring_queue (snd (ring_run overtaken_run (ring_start 0))) = []" by code_simp
  show "list_all (\<lambda>k. length (ring_queue (snd (ring_run (take k overtaken_run) (ring_start 0)))) \<le> 1) [0..<Suc (length overtaken_run)]"
    by code_simp
qed

end
