(* ===== verification/Ipc_Pool.thy ===== *)
theory Ipc_Pool
  imports Prelude
begin

text \<open>
  The pool of block numbers from which large messages take a block of shared memory:
  \<^verbatim>\<open>common/shm-ipc/src/libipc/utility/id_pool.h\<close>. The free numbers form a linked list inside an array
  of bytes, and the pool recognises that it is new by being all zero, as fresh shared memory is.
\<close>

section \<open>The pool\<close>

definition max_count :: nat where
  "max_count = 32"

record id_pool =
  ip_next :: "u8 list"
  ip_cursor :: u8
  ip_prepared :: bool

definition zero_pool :: id_pool where
  "zero_pool = \<lparr>ip_next = replicate max_count 0, ip_cursor = 0, ip_prepared = False\<rparr>"

definition pool_init :: "id_pool \<Rightarrow> id_pool" where
  "pool_init p = p\<lparr>ip_next := map (\<lambda>i. of_nat (i + 1)) [0..<max_count]\<rparr>"

definition pool_invalid :: "id_pool \<Rightarrow> bool" where
  "pool_invalid p = (p = zero_pool)"

definition prepare :: "id_pool \<Rightarrow> id_pool" where
  "prepare p = (if \<not> ip_prepared p \<and> pool_invalid p then pool_init p else p)\<lparr>ip_prepared := True\<rparr>"

definition pool_empty :: "id_pool \<Rightarrow> bool" where
  "pool_empty p = (unat (ip_cursor p) = max_count)"

text \<open>\<open>acquire\<close>: \<open>None\<close> is \<open>invalid_value\<close>.\<close>

definition acquire :: "id_pool \<Rightarrow> nat option \<times> id_pool" where
  "acquire p =
     (if pool_empty p then (None, p)
      else (let i = unat (ip_cursor p) in (Some i, p\<lparr>ip_cursor := ip_next p ! i\<rparr>)))"

definition release :: "nat option \<Rightarrow> id_pool \<Rightarrow> bool \<times> id_pool" where
  "release i0 p =
     (case i0 of None \<Rightarrow> (False, p)
      | Some i \<Rightarrow> (True, p\<lparr>ip_next := (ip_next p)[i := ip_cursor p], ip_cursor := of_nat i\<rparr>))"

section \<open>The free list\<close>

fun chained :: "u8 list \<Rightarrow> u8 \<Rightarrow> nat list \<Rightarrow> bool" where
  "chained nx c [] = (unat c = max_count)"
| "chained nx c (i # is0) = (unat c = i \<and> i < max_count \<and> chained nx (nx ! i) is0)"

text \<open>The free numbers in list order; the numbers in \<open>held\<close> are out, and every number is one or the other.\<close>

definition pool_ok :: "nat list \<Rightarrow> nat set \<Rightarrow> id_pool \<Rightarrow> bool" where
  "pool_ok free held p \<longleftrightarrow> length (ip_next p) = max_count \<and> chained (ip_next p) (ip_cursor p) free
     \<and> distinct free \<and> set free \<inter> held = {} \<and> set free \<union> held = {..<max_count}"

lemma chained_update: "chained nx c free \<Longrightarrow> i \<notin> set free \<Longrightarrow> i < length nx \<Longrightarrow> chained (nx[i := x]) c free"
  by (induction nx c free rule: chained.induct) auto

lemma prepare_ok: "pool_ok [0..<32] {} (prepare zero_pool)"
  by (simp add: pool_ok_def) code_simp

lemma acquire_ok:
  assumes "pool_ok free held p"
  shows "free = [] \<Longrightarrow> acquire p = (None, p)"
    and "free = i # rest \<Longrightarrow> \<exists>p'. acquire p = (Some i, p') \<and> pool_ok rest (insert i held) p' \<and> i \<notin> held"
  using assms by (auto simp: pool_ok_def acquire_def pool_empty_def Let_def)

lemma release_ok:
  assumes "pool_ok free held p" and "i \<in> held"
  shows "\<exists>p'. release (Some i) p = (True, p') \<and> pool_ok (i # free) (held - {i}) p'"
proof -
  have i: "i \<notin> set free" "i < max_count" using assms by (auto simp: pool_ok_def)
  then have "unat (of_nat i :: u8) = i" by (simp add: unat_of_nat max_count_def take_bit_nat_eq_self)
  then show ?thesis
    using assms i chained_update [of "ip_next p" "ip_cursor p" free i "ip_cursor p"]
    by (auto simp: pool_ok_def release_def)
qed

text \<open>Taking a number and putting it back leaves the pool as it was.\<close>

lemma release_acquired:
  assumes "pool_ok free held p" and "acquire p = (Some i, p')"
  shows "release (Some i) p' = (True, p)"
proof -
  have "i = unat (ip_cursor p)" "p' = p\<lparr>ip_cursor := ip_next p ! i\<rparr>"
    using assms(2) by (auto simp: acquire_def Let_def split: if_splits)
  then show ?thesis by (simp add: release_def)
qed

section \<open>Runs of the pool\<close>

text \<open>The users of the pool: one takes a number, or one of those out is put back.\<close>

datatype pool_use = Take | Put nat

fun pool_step :: "pool_use \<Rightarrow> nat list \<times> id_pool \<Rightarrow> nat list \<times> id_pool" where
  "pool_step Take (out, p) = (case acquire (prepare p) of (None, p') \<Rightarrow> (out, p') | (Some i, p') \<Rightarrow> (i # out, p'))"
| "pool_step (Put i) (out, p) = (if i \<in> set out then (removeAll i out, snd (release (Some i) p)) else (out, p))"

definition pool_run :: "pool_use list \<Rightarrow> nat list \<times> id_pool" where
  "pool_run evs = fold pool_step evs ([], zero_pool)"

lemma prepare_prepared: "ip_prepared p \<Longrightarrow> prepare p = p"
  by (simp add: prepare_def)

lemma pool_run_ok:
  "case pool_run evs of (out, p) \<Rightarrow> distinct out \<and>
     (out = [] \<and> p = zero_pool \<or> ip_prepared p \<and> (\<exists>free. pool_ok free (set out) p))"
proof (induction evs rule: rev_induct)
  case Nil
  then show ?case by (simp add: pool_run_def)
next
  case (snoc e evs)
  obtain out p where r: "pool_run evs = (out, p)" by fastforce
  then have d: "distinct out" and s: "out = [] \<and> p = zero_pool \<or> ip_prepared p \<and> (\<exists>free. pool_ok free (set out) p)"
    using snoc by auto
  have prep: "ip_prepared (prepare p)" by (simp add: prepare_def)
  obtain free where f: "pool_ok free (set out) (prepare p)"
    using s prepare_ok prepare_prepared by auto
  have keeps: "ip_prepared (snd (acquire p)) = ip_prepared p" "ip_prepared (snd (release i p)) = ip_prepared p" for i p
    by (auto simp: acquire_def release_def Let_def split: option.splits)
  show ?case
  proof (cases e)
    case Take
    show ?thesis
    proof (cases free)
      case Nil
      then show ?thesis using acquire_ok(1) [OF f] Take r d f prep by (auto simp: pool_run_def)
    next
      case (Cons i rest)
      then obtain p' where "acquire (prepare p) = (Some i, p')" "pool_ok rest (insert i (set out)) p'" "i \<notin> set out"
        using acquire_ok(2) [OF f] by blast
      then show ?thesis using Take r d prep keeps(1) [of "prepare p"] by (auto simp: pool_run_def)
    qed
  next
    case (Put i)
    show ?thesis
    proof (cases "i \<in> set out")
      case True
      then have "p \<noteq> zero_pool \<or> out \<noteq> []" by auto
      then obtain free where g: "ip_prepared p" "pool_ok free (set out) p" using s True by auto
      then obtain p' where "release (Some i) p = (True, p')" "pool_ok (i # free) (set out - {i}) p'"
        using release_ok True by blast
      then show ?thesis using Put r d True g keeps(2) [of "Some i" p] by (auto simp: pool_run_def distinct_removeAll)
    next
      case False
      then show ?thesis using Put r d s by (auto simp: pool_run_def)
    qed
  qed
qed

lemma pool_run_free:
  assumes "pool_run evs = (out, p)"
  obtains free where "distinct out" and "pool_ok free (set out) (prepare p)"
proof -
  have "distinct out" and "out = [] \<and> p = zero_pool \<or> ip_prepared p \<and> (\<exists>free. pool_ok free (set out) p)"
    using pool_run_ok [of evs] assms by auto
  then show thesis using that prepare_ok prepare_prepared by auto
qed

lemma pool_run_fresh:
  assumes "pool_run evs = (out, p)" and "fst (acquire (prepare p)) = Some i"
  shows "i \<notin> set out" and "i < max_count"
proof -
  obtain free where f: "pool_ok free (set out) (prepare p)" using pool_run_free [OF assms(1)] by blast
  have "\<exists>rest. free = i # rest" using assms(2) acquire_ok(1) [OF f] acquire_ok(2) [OF f] by (cases free) auto
  then show "i \<notin> set out" "i < max_count" using f by (auto simp: pool_ok_def)
qed

text \<open>
  Block numbers for large messages are never handed out twice. In every sequence of takes and
  returns that starts from zeroed shared memory, the numbers that are out are distinct and below 32;
  a take yields a number that is not out as long as fewer than 32 are, and nothing otherwise.
\<close>

theorem pool_numbers_exclusive:
  assumes "pool_run evs = (out, p)"
  shows "distinct out \<and> set out \<subseteq> {..<max_count}
    \<and> (if length out < max_count then \<exists>i < max_count. i \<notin> set out \<and> fst (acquire (prepare p)) = Some i
       else fst (acquire (prepare p)) = None)"
proof -
  obtain free where d: "distinct out" and f: "pool_ok free (set out) (prepare p)" using pool_run_free [OF assms] by blast
  then have c: "length free + length out = max_count" "set out \<subseteq> {..<max_count}"
  proof -
    have "card (set free \<union> set out) = card (set free) + card (set out)" using f by (intro card_Un_disjoint) (auto simp: pool_ok_def)
    then show "length free + length out = max_count" using f d by (simp add: pool_ok_def distinct_card)
    show "set out \<subseteq> {..<max_count}" using f by (auto simp: pool_ok_def)
  qed
  show ?thesis
  proof (cases free)
    case Nil
    then show ?thesis using c d acquire_ok(1) [OF f] by simp
  next
    case (Cons i rest)
    then show ?thesis using c d acquire_ok(2) [OF f Cons] f by (auto simp: pool_ok_def)
  qed
qed

theorem pool_numbers_exclusive_witness:
  "fst (pool_run [Take, Take, Put 0, Take, Take]) = [2, 0, 1]
   \<and> (\<exists>i < max_count. i \<notin> {0, 1, 2} \<and> fst (acquire (prepare (snd (pool_run [Take, Take, Put 0, Take, Take])))) = Some i)"
proof -
  have r: "fst (pool_run [Take, Take, Put 0, Take, Take]) = [2, 0, 1]" by code_simp
  then obtain p where p: "pool_run [Take, Take, Put 0, Take, Take] = ([2, 0, 1], p)" by (metis prod.collapse)
  show ?thesis using pool_numbers_exclusive [OF p] p by (auto simp: max_count_def)
qed

end
