(* ===== verification/Ipc_Chan.thy ===== *)
theory Ipc_Chan
  imports Ipc_Pool Ring_Props
begin

text \<open>
  Messages on a channel: \<open>send\<close> and \<open>recv\<close> of \<^verbatim>\<open>common/shm-ipc/src/ipc.cpp\<close>. The elements of the ring carry
  64 bytes; a longer message is put into a block of shared memory when one can be had, and is split
  into fragments otherwise, which the receiver collects in a cache by message number. The content of
  the ring is a list of at most 255 elements (\<open>ring_linearizable\<close>). Whether the operating system gives
  the shared memory of a block is a parameter.
\<close>

section \<open>Elements\<close>

definition data_length :: nat where
  "data_length = 64"

definition large_msg_limit :: nat where
  "large_msg_limit = data_length"

text \<open>\<open>msg_t\<close>: \<open>mt_remain\<close> is an \<open>int32_t\<close>, \<open>mt_data\<close> the 64 bytes.\<close>

record msg_t =
  mt_conn :: u32
  mt_id :: u32
  mt_remain :: u32
  mt_storage :: bool
  mt_data :: string

datatype payload = Bytes string | Block nat

definition nul_pad :: "string \<Rightarrow> string" where
  "nul_pad d = d @ replicate (data_length - length d) (CHR 0x00)"

text \<open>A \<open>size_t\<close> in memory, lowest byte first.\<close>

definition size_bytes :: "nat \<Rightarrow> string" where
  "size_bytes n = map (\<lambda>k. char_of (n div 256 ^ k mod 256)) [0..<8]"

definition bytes_size :: "string \<Rightarrow> nat" where
  "bytes_size s = sum_list (map (\<lambda>k. of_char (s ! k) * 256 ^ k) [0..<8])"

fun make_msg :: "u32 \<Rightarrow> u32 \<Rightarrow> int \<Rightarrow> payload \<Rightarrow> msg_t" where
  "make_msg c i r (Bytes d) = \<lparr>mt_conn = c, mt_id = i, mt_remain = of_int r, mt_storage = False, mt_data = nul_pad d\<rparr>"
| "make_msg c i r (Block b) = \<lparr>mt_conn = c, mt_id = i, mt_remain = of_int r, mt_storage = True, mt_data = nul_pad (size_bytes b)\<rparr>"

section \<open>Blocks of shared memory\<close>

record ipc_os =
  io_info :: "nat \<Rightarrow> bool"
  io_block :: "nat \<Rightarrow> nat \<Rightarrow> bool"

text \<open>Per class of sizes: the pool of block numbers, the blocks and the counts of receivers that still have to read them.\<close>

record ipc_store =
  is_pool :: "nat \<Rightarrow> id_pool"
  is_mem :: "nat \<Rightarrow> nat \<Rightarrow> string"
  is_count :: "nat \<Rightarrow> nat \<Rightarrow> u32"

definition calc_cls_size :: "nat \<Rightarrow> nat" where
  "calc_cls_size sz = ((sz - 1) div large_msg_limit + 1) * large_msg_limit"

definition set_count :: "nat \<Rightarrow> nat \<Rightarrow> u32 \<Rightarrow> ipc_store \<Rightarrow> ipc_store" where
  "set_count cls b n st = st\<lparr>is_count := (is_count st)(cls := (is_count st cls)(b := n))\<rparr>"

definition set_pool :: "nat \<Rightarrow> id_pool \<Rightarrow> ipc_store \<Rightarrow> ipc_store" where
  "set_pool cls p st = st\<lparr>is_pool := (is_pool st)(cls := p)\<rparr>"

definition write_block :: "nat \<Rightarrow> nat \<Rightarrow> string \<Rightarrow> ipc_store \<Rightarrow> ipc_store" where
  "write_block cls b d st = st\<lparr>is_mem := (is_mem st)(cls := (is_mem st cls)(b := d @ drop (length d) (is_mem st cls b)))\<rparr>"

definition apply_storage :: "ipc_os \<Rightarrow> nat \<Rightarrow> nat \<Rightarrow> ipc_store \<Rightarrow> nat option \<times> ipc_store" where
  "apply_storage os conn_count sz st =
     (if conn_count = 0 then (None, st)
      else let cls = calc_cls_size sz
           in if \<not> io_info os cls then (None, st)
              else let (b0, p) = acquire (prepare (is_pool st cls)); st1 = set_pool cls p st
                   in case b0 of None \<Rightarrow> (None, st1)
                      | Some b \<Rightarrow> if io_block os cls b then (Some b, set_count cls b (of_nat conn_count) st1) else (None, st1))"

definition find_storage :: "ipc_os \<Rightarrow> nat \<Rightarrow> nat \<Rightarrow> ipc_store \<Rightarrow> string option" where
  "find_storage os b sz st =
     (let cls = calc_cls_size sz
      in if \<not> io_block os cls b then None
         else if is_count st cls b = 0 then None
         else Some (take sz (is_mem st cls b)))"

definition give_back :: "ipc_os \<Rightarrow> nat \<Rightarrow> nat \<Rightarrow> ipc_store \<Rightarrow> ipc_store" where
  "give_back os cls b st = (if io_info os cls then set_pool cls (snd (release (Some b) (is_pool st cls))) st else st)"

definition recycle_storage :: "ipc_os \<Rightarrow> nat \<Rightarrow> nat \<Rightarrow> ipc_store \<Rightarrow> ipc_store" where
  "recycle_storage os b sz st =
     (let cls = calc_cls_size sz; old = is_count st cls b; st1 = set_count cls b (old - 1) st
      in if old > 1 then st1 else give_back os cls b st1)"

definition clear_storage :: "ipc_os \<Rightarrow> nat \<Rightarrow> nat \<Rightarrow> ipc_store \<Rightarrow> ipc_store" where
  "clear_storage os b sz st =
     (let cls = calc_cls_size sz
      in if \<not> io_block os cls b \<or> is_count st cls b = 0 then st else give_back os cls b (set_count cls b 0 st))"

section \<open>Sending\<close>

text \<open>The ring of the channel, the number of receivers connected to it and the counter of message numbers.\<close>

record ipc_chan =
  ic_queue :: "msg_t list"
  ic_cc :: u32
  ic_acc :: u32

definition fragments :: "u32 \<Rightarrow> u32 \<Rightarrow> string \<Rightarrow> msg_t list" where
  "fragments c i d =
     (let sz = length d; n = sz div data_length; offset = n * data_length
      in map (\<lambda>k. make_msg c i (int sz - int (k * data_length) - int data_length) (Bytes (take data_length (drop (k * data_length) d)))) [0..<n]
         @ (if sz - offset > 0 then [make_msg c i (int (sz - offset) - int data_length) (Bytes (drop offset d))] else []))"

definition send_plan :: "ipc_os \<Rightarrow> nat \<Rightarrow> u32 \<Rightarrow> u32 \<Rightarrow> string \<Rightarrow> ipc_store \<Rightarrow> msg_t list \<times> ipc_store" where
  "send_plan os conn_count c i d st =
     (if length d > large_msg_limit
      then case apply_storage os conn_count (length d) st of
             (Some b, st1) \<Rightarrow> ([make_msg c i (int (length d) - int data_length) (Block b)], write_block (calc_cls_size (length d)) b d st1)
           | (None, st1) \<Rightarrow> (fragments c i d, st1)
      else (fragments c i d, st))"

text \<open>
  \<open>try_push\<close> of \<open>send\<close>: an element that finds the ring full until the timeout makes \<open>force_push\<close> drop a
  receiver and the send fail.
\<close>

fun push_all :: "msg_t list \<Rightarrow> ipc_chan \<Rightarrow> bool \<times> ipc_chan" where
  "push_all [] ch = (True, ch)"
| "push_all (m # ms) ch =
     (if length (ic_queue ch) < 255 then push_all ms (ch\<lparr>ic_queue := ic_queue ch @ [m]\<rparr>)
      else (False, ch\<lparr>ic_cc := ic_cc ch - 1\<rparr>))"

definition chan_send :: "ipc_os \<Rightarrow> u32 \<Rightarrow> string \<Rightarrow> ipc_chan \<Rightarrow> ipc_store \<Rightarrow> bool \<times> ipc_chan \<times> ipc_store" where
  "chan_send os cc_id d ch st =
     (if d = [] then (False, ch, st)
      else if ic_cc ch = 0 then (False, ch, st)
      else let msg_id = ic_acc ch; ch1 = ch\<lparr>ic_acc := msg_id + 1\<rparr>;
               (ms, st1) = send_plan os (unat (ic_cc ch)) cc_id msg_id d st;
               (ok, ch2) = push_all ms ch1
           in (ok, ch2, st1))"

text \<open>\<open>send(std::string)\<close> sends the terminating NUL too.\<close>

definition send_string :: "ipc_os \<Rightarrow> u32 \<Rightarrow> string \<Rightarrow> ipc_chan \<Rightarrow> ipc_store \<Rightarrow> bool \<times> ipc_chan \<times> ipc_store" where
  "send_string os cc_id s ch st = chan_send os cc_id (s @ [CHR 0x00]) ch st"

section \<open>Receiving\<close>

record cache_t =
  ca_fill :: nat
  ca_buff :: string

record receiver =
  ri_cc_id :: u32
  ri_cache :: "(u32, cache_t) table"

text \<open>A \<open>buff_t\<close>: memory of its own, or a block that its destructor gives back.\<close>

datatype buff_t = Own string | Lent nat string

fun buff_data :: "buff_t \<Rightarrow> string" where
  "buff_data (Own s) = s"
| "buff_data (Lent b s) = s"

fun buff_free :: "ipc_os \<Rightarrow> buff_t \<Rightarrow> ipc_store \<Rightarrow> ipc_store" where
  "buff_free os (Own s) st = st"
| "buff_free os (Lent b s) st = recycle_storage os b (length s) st"

text \<open>\<open>make_cache\<close>: what is not copied is whatever the allocation holds.\<close>

definition make_cache :: "char \<Rightarrow> string \<Rightarrow> nat \<Rightarrow> string" where
  "make_cache junk data sz = take (min data_length sz) data @ replicate (sz - data_length) junk"

definition cache_append :: "string \<Rightarrow> nat \<Rightarrow> cache_t \<Rightarrow> cache_t" where
  "cache_append data sz c =
     (if ca_fill c \<ge> length (ca_buff c) \<or> sz = 0 then c
      else let new_fill = min (ca_fill c + sz) (length (ca_buff c))
           in \<lparr>ca_fill = new_fill,
               ca_buff = take (ca_fill c) (ca_buff c) @ take (new_fill - ca_fill c) data @ drop new_fill (ca_buff c)\<rparr>)"

definition cache_gc :: "u32 \<Rightarrow> (u32, cache_t) table \<Rightarrow> (u32, cache_t) table" where
  "cache_gc i rc = (if length rc > 1024 then filter (\<lambda>(k, c). \<not> max i k - min i k > 8192) rc else rc)"

text \<open>\<open>std::size_t remain = static_cast<int32_t>(data_length) + msg.remain_\<close>.\<close>

definition msg_remain :: "msg_t \<Rightarrow> nat" where
  "msg_remain m = unat (of_int (int data_length + sint (mt_remain m)) :: u64)"

definition recv_one :: "ipc_os \<Rightarrow> char \<Rightarrow> msg_t \<Rightarrow> receiver \<Rightarrow> ipc_store \<Rightarrow> buff_t option \<times> receiver" where
  "recv_one os junk m r st =
     (if mt_conn m = ri_cc_id r then (None, r)
      else let remain = msg_remain m; i = mt_id m; rc = ri_cache r
           in case map_of rc i of
                None \<Rightarrow>
                  if remain \<le> data_length then (Some (Own (make_cache junk (mt_data m) remain)), r)
                  else (case (if mt_storage m then find_storage os (bytes_size (mt_data m)) remain st else None) of
                          Some bytes \<Rightarrow> (Some (Lent (bytes_size (mt_data m)) bytes), r)
                        | None \<Rightarrow> (None, r\<lparr>ri_cache := (i, \<lparr>ca_fill = data_length, ca_buff = make_cache junk (mt_data m) remain\<rparr>) # cache_gc i rc\<rparr>))
              | Some c \<Rightarrow>
                  if sint (mt_remain m) \<le> 0
                  then (Some (Own (ca_buff (cache_append (mt_data m) remain c))), r\<lparr>ri_cache := AList.delete i rc\<rparr>)
                  else (None, r\<lparr>ri_cache := AList.update i (cache_append (mt_data m) data_length c) rc\<rparr>))"

text \<open>\<open>recv\<close> with the elements in the ring: \<open>None\<close> when it runs empty before a message is complete.\<close>

fun chan_recv :: "ipc_os \<Rightarrow> char \<Rightarrow> msg_t list \<Rightarrow> receiver \<Rightarrow> ipc_store \<Rightarrow> buff_t option \<times> receiver \<times> msg_t list" where
  "chan_recv os junk [] r st = (None, r, [])"
| "chan_recv os junk (m # q) r st =
     (case recv_one os junk m r st of
        (Some b, r1) \<Rightarrow> (Some b, r1, q)
      | (None, r1) \<Rightarrow> chan_recv os junk q r1 st)"

end
