(* ===== verification/Chan_Props.thy ===== *)
theory Chan_Props
  imports Ipc_Chan "HOL-Library.Multiset"
begin

text \<open>
  What a channel promises: a message that was sent is received as it is, whether it travelled in one
  element, in a block of shared memory or in fragments, and however the elements of several messages
  are interleaved in the ring.
\<close>

section \<open>Fragments\<close>

lemma sint_remain: "- (2 ^ 31) \<le> v \<Longrightarrow> v < 2 ^ 31 \<Longrightarrow> sint (of_int v :: u32) = v"
  by (simp add: signed_of_int signed_take_bit_int_eq_self)

lemma unat_remain: "0 \<le> v \<Longrightarrow> v < 2 ^ 32 \<Longrightarrow> unat (of_int v :: u64) = nat v"
  by (simp add: unsigned_of_int take_bit_int_eq_self)

definition frag :: "u32 \<Rightarrow> u32 \<Rightarrow> string \<Rightarrow> nat \<Rightarrow> msg_t" where
  "frag c i d k = make_msg c i (int (length d) - int (64 * k) - 64) (Bytes (take 64 (drop (64 * k) d)))"

definition frag_count :: "string \<Rightarrow> nat" where
  "frag_count d = (length d + 63) div 64"

lemma frag_count_less: "k < frag_count d \<longleftrightarrow> 64 * k < length d"
  unfolding frag_count_def by linarith

lemma frag_count_split:
  assumes "length d = 64 * q + r" and "r < 64"
  shows "frag_count d = (if r = 0 then q else Suc q)" and "length d div 64 = q"
  using assms by (auto simp: frag_count_def intro!: div_nat_eqI)

lemma fragments_alt: "fragments c i d = map (frag c i d) [0..<frag_count d]"
proof -
  obtain q r where qr: "length d = 64 * q + r" "r < 64" by (metis mult_div_mod_eq mod_less_divisor zero_less_numeral)
  note n = frag_count_split [OF qr]
  have base: "map (\<lambda>k. make_msg c i (int (length d) - int (k * 64) - 64) (Bytes (take 64 (drop (k * 64) d)))) [0..<q] = map (frag c i d) [0..<q]"
    by (simp add: frag_def mult.commute)
  have last: "frag c i d q = make_msg c i (int r - 64) (Bytes (drop (q * 64) d))"
    using qr by (simp add: frag_def mult.commute)
  have "fragments c i d = map (frag c i d) [0..<q] @ (if r > 0 then [frag c i d q] else [])"
    unfolding fragments_def data_length_def Let_def n(2) using base last qr(1) by simp
  then show ?thesis using n(1) by simp
qed

lemma frag_simps [simp]: "mt_conn (frag c i d k) = c" "mt_id (frag c i d k) = i" "\<not> mt_storage (frag c i d k)"
    "mt_data (frag c i d k) = nul_pad (take 64 (drop (64 * k) d))"
  by (simp_all add: frag_def)

lemma frag_remain:
  assumes "length d < 2 ^ 31" and "64 * k < length d"
  shows "sint (mt_remain (frag c i d k)) = int (length d) - int (64 * k) - 64"
    and "msg_remain (frag c i d k) = length d - 64 * k"
proof -
  show s: "sint (mt_remain (frag c i d k)) = int (length d) - int (64 * k) - 64"
    using assms sint_remain [of "int (length d) - int (64 * k) - 64"] by (simp add: frag_def)
  show "msg_remain (frag c i d k) = length d - 64 * k"
    unfolding s msg_remain_def data_length_def using assms unat_remain [of "int (length d) - int (64 * k)"] by (simp add: nat_diff_distrib)
qed

section \<open>Collecting the fragments\<close>

text \<open>The cache entry of a message of which \<open>k\<close> fragments have arrived.\<close>

definition collected :: "string \<Rightarrow> nat \<Rightarrow> cache_t \<Rightarrow> bool" where
  "collected d k e \<longleftrightarrow> ca_fill e = 64 * k \<and> length (ca_buff e) = length d \<and> take (64 * k) (ca_buff e) = take (64 * k) d"

lemma append_fragment:
  assumes "collected d k e" and "64 * k < length d" and "sz = 64 \<and> 64 * Suc k < length d \<or> sz = length d - 64 * k \<and> length d \<le> 64 * Suc k"
  shows "ca_fill (cache_append (nul_pad (take 64 (drop (64 * k) d))) sz e) = min (64 * Suc k) (length d)"
    and "length (ca_buff (cache_append (nul_pad (take 64 (drop (64 * k) d))) sz e)) = length d"
    and "take (64 * Suc k) (ca_buff (cache_append (nul_pad (take 64 (drop (64 * k) d))) sz e)) = take (64 * Suc k) d"
proof -
  let ?n = "min (64 * Suc k) (length d)" and ?data = "nul_pad (take 64 (drop (64 * k) d))"
  have n: "min (64 * k + sz) (length d) = ?n" "sz \<noteq> 0" "?n - 64 * k = sz" "sz \<le> 64" using assms(2,3) by auto
  have part: "take sz ?data = take sz (drop (64 * k) d)" 
  proof -
    have "sz \<le> length (take 64 (drop (64 * k) d))" using assms(2,3) by auto
    then show ?thesis by (simp add: nul_pad_def min_absorb1)
  qed
  have e: "cache_append ?data sz e = \<lparr>ca_fill = ?n, ca_buff = take (64 * k) d @ take sz (drop (64 * k) d) @ drop ?n (ca_buff e)\<rparr>"
    using assms(1,2) n part by (simp add: cache_append_def collected_def Let_def)
  have d: "take (64 * k) d @ take sz (drop (64 * k) d) = take ?n d"
  proof -
    have "?n = 64 * k + sz" using n(3) assms(2) by auto
    then show ?thesis by (simp only: take_add)
  qed
  show "ca_fill (cache_append ?data sz e) = ?n" by (simp add: e)
  show "length (ca_buff (cache_append ?data sz e)) = length d"
    unfolding e using assms(1) d by (simp add: collected_def flip: append_assoc)
  show "take (64 * Suc k) (ca_buff (cache_append ?data sz e)) = take (64 * Suc k) d"
    unfolding e using assms(1) d by (auto simp: collected_def min_def simp flip: append_assoc)
qed

lemma recv_small:
  assumes "length d \<le> 64" and "mt_conn m \<noteq> ri_cc_id r" and "m = frag c i d 0" and "d \<noteq> []" and "map_of (ri_cache r) i = None"
  shows "recv_one os junk m r st = (Some (Own d), r)"
  using assms frag_remain [of d 0 c i] by (simp add: recv_one_def Let_def data_length_def make_cache_def nul_pad_def)

lemma recv_first:
  assumes "64 < length d" "length d < 2 ^ 31" and "mt_conn m \<noteq> ri_cc_id r" and "m = frag c i d 0" and "map_of (ri_cache r) i = None"
  obtains e where "recv_one os junk m r st = (None, r\<lparr>ri_cache := (i, e) # cache_gc i (ri_cache r)\<rparr>)" and "collected d 1 e"
proof -
  let ?e = "\<lparr>ca_fill = data_length, ca_buff = make_cache junk (mt_data m) (length d)\<rparr>"
  have "recv_one os junk m r st = (None, r\<lparr>ri_cache := (i, ?e) # cache_gc i (ri_cache r)\<rparr>)"
    using assms frag_remain(2) [of d 0 c i] by (simp add: recv_one_def Let_def data_length_def del: length_greater_0_conv)
  moreover have "collected d 1 ?e"
    using assms(1,4) by (simp add: collected_def data_length_def make_cache_def nul_pad_def)
  ultimately show thesis by (rule that)
qed

lemma recv_middle:
  assumes "64 * Suc k < length d" "length d < 2 ^ 31" and "mt_conn m \<noteq> ri_cc_id r" and "m = frag c i d k"
    and "map_of (ri_cache r) i = Some e" and "collected d k e"
  obtains e' where "recv_one os junk m r st = (None, r\<lparr>ri_cache := AList.update i e' (ri_cache r)\<rparr>)" and "collected d (Suc k) e'"
proof -
  let ?e = "cache_append (mt_data m) data_length e"
  have "recv_one os junk m r st = (None, r\<lparr>ri_cache := AList.update i ?e (ri_cache r)\<rparr>)"
    using assms frag_remain [of d k c i] by (simp add: recv_one_def Let_def)
  moreover have "collected d (Suc k) ?e"
    using append_fragment [OF assms(6), of 64] assms(1,4) by (simp add: collected_def data_length_def)
  ultimately show thesis by (rule that)
qed

lemma recv_last:
  assumes "64 * k < length d" "length d \<le> 64 * Suc k" "length d < 2 ^ 31" and "mt_conn m \<noteq> ri_cc_id r" and "m = frag c i d k"
    and "map_of (ri_cache r) i = Some e" and "collected d k e"
  shows "recv_one os junk m r st = (Some (Own d), r\<lparr>ri_cache := AList.delete i (ri_cache r)\<rparr>)"
proof -
  have "ca_buff (cache_append (mt_data m) (length d - 64 * k) e) = d"
    using append_fragment(2,3) [OF assms(7,1), of "length d - 64 * k"] assms(2,5) by simp
  then show ?thesis
    using assms frag_remain [of d k c i] by (simp add: recv_one_def Let_def data_length_def)
qed

lemma bytes_size_block: "b < 256 \<Longrightarrow> bytes_size (nul_pad (size_bytes b)) = b"
  by (simp add: bytes_size_def nul_pad_def size_bytes_def upt_rec data_length_def)

lemma recv_block:
  assumes "64 < length d" "length d < 2 ^ 31" and "c \<noteq> ri_cc_id r" and "m = make_msg c i (int (length d) - 64) (Block b)" and "b < 256"
    and "map_of (ri_cache r) i = None" and "find_storage os b (length d) st = Some d"
  shows "recv_one os junk m r st = (Some (Lent b d), r)"
proof -
  have "msg_remain m = length d"
    using assms(1,2,4) sint_remain [of "int (length d) - 64"] unat_remain [of "int (length d)"]
    unfolding msg_remain_def data_length_def by simp
  then show ?thesis
    using assms bytes_size_block [of b] by (simp add: recv_one_def Let_def data_length_def)
qed

section \<open>Elements of one message\<close>

text \<open>
  The elements \<open>ms\<close> carry the message \<open>d\<close> of connection \<open>c\<close> under the number \<open>i\<close>: its fragments, or
  one element with the number of a block that holds it.
\<close>

definition carries :: "ipc_os \<Rightarrow> ipc_store \<Rightarrow> u32 \<Rightarrow> u32 \<Rightarrow> string \<Rightarrow> msg_t list \<Rightarrow> bool" where
  "carries os st c i d ms \<longleftrightarrow> d \<noteq> [] \<and> length d < 2 ^ 31 \<and> (ms = fragments c i d \<or>
     64 < length d \<and> (\<exists>b < 256. ms = [make_msg c i (int (length d) - 64) (Block b)] \<and> find_storage os b (length d) st = Some d))"

lemma carries_ids: "carries os st c i d ms \<Longrightarrow> m \<in> set ms \<Longrightarrow> mt_id m = i \<and> mt_conn m = c"
  by (auto simp: carries_def fragments_alt)

lemma fragments_not_block: "[make_msg c i v (Block x)] \<noteq> fragments c' i' d"
proof
  assume "[make_msg c i v (Block x)] = fragments c' i' d"
  then have "make_msg c i v (Block x) \<in> set (fragments c' i' d)" by (metis list.set_intros(1))
  then show False by (auto simp: fragments_alt frag_def)
qed

text \<open>What the cache holds of a message of which \<open>k\<close> of \<open>n\<close> elements have arrived.\<close>

definition pending_in :: "(u32, cache_t) table \<Rightarrow> u32 \<Rightarrow> string \<Rightarrow> nat \<Rightarrow> nat \<Rightarrow> bool" where
  "pending_in rc i d n k \<longleftrightarrow> (if 0 < k \<and> k < n then \<exists>e. map_of rc i = Some e \<and> collected d k e else map_of rc i = None)"

lemma carries_step:
  assumes "carries os st c i d ms" and "c \<noteq> ri_cc_id r" and "k < length ms" and "pending_in (ri_cache r) i d (length ms) k"
    and "k = 0 \<longrightarrow> length (ri_cache r) \<le> 1024" and "distinct (map fst (ri_cache r))"
  obtains b r' where "recv_one os junk (ms ! k) r st = (if Suc k = length ms then Some b else None, r')" and "buff_data b = d"
    and "pending_in (ri_cache r') i d (length ms) (Suc k)" and "\<forall>j. j \<noteq> i \<longrightarrow> map_of (ri_cache r') j = map_of (ri_cache r) j"
    and "distinct (map fst (ri_cache r'))" and "ri_cc_id r' = ri_cc_id r"
    and "length (ri_cache r') \<le> length (ri_cache r) + (if k = 0 then 1 else 0)"
    and "ms = fragments c i d \<and> b = Own d \<or> (\<exists>x < 256. ms = [make_msg c i (int (length d) - 64) (Block x)] \<and> b = Lent x d)"
proof (cases "ms = fragments c i d")
  case frs: True
  then have n: "length ms = frag_count d" and m: "ms ! k = frag c i d k" using assms(3) by (simp_all add: fragments_alt)
  have d: "d \<noteq> []" "length d < 2 ^ 31" using assms(1) by (simp_all add: carries_def)
  have k: "64 * k < length d" "Suc k = length ms \<longleftrightarrow> length d \<le> 64 * Suc k"
    using assms(3) n frag_count_less [of k d] frag_count_less [of "Suc k" d] by auto
  show thesis
  proof (cases "k = 0")
    case z: True
    then have none: "map_of (ri_cache r) i = None" using assms(4) by (simp add: pending_in_def)
    show thesis
    proof (cases "length d \<le> 64")
      case True
      then have "recv_one os junk (ms ! k) r st = (Some (Own d), r)"
        using recv_small [OF True, of "ms ! k" r c i] m z d none assms(2) by simp
      then show thesis using that [of "Own d" r] True k z none assms frs by (simp add: pending_in_def)
    next
      case False
      obtain e where "recv_one os junk (ms ! k) r st = (None, r\<lparr>ri_cache := (i, e) # cache_gc i (ri_cache r)\<rparr>)" "collected d 1 e"
        using recv_first [of d "ms ! k" r c i] m z d none assms(2) False by (metis frag_simps(1) not_le)
      moreover have "cache_gc i (ri_cache r) = ri_cache r" using assms(5) z by (simp add: cache_gc_def)
      moreover have "i \<notin> fst ` set (ri_cache r)" using none by (simp add: map_of_eq_None_iff)
      moreover have "Suc 0 < length ms" using False k(2) z assms(3) by (simp add: Suc_lessI)
      ultimately show thesis
        using that [of "Own d" "r\<lparr>ri_cache := (i, e) # cache_gc i (ri_cache r)\<rparr>"] False k z assms(3,6) frs by (simp add: pending_in_def)
    qed
  next
    case False
    then obtain e where e: "map_of (ri_cache r) i = Some e" "collected d k e" using assms(3,4) by (auto simp: pending_in_def)
    then have mem: "i \<in> fst ` set (ri_cache r)" by (metis map_of_eq_None_iff option.distinct(1))
    show thesis
    proof (cases "Suc k = length ms")
      case True
      then have "recv_one os junk (ms ! k) r st = (Some (Own d), r\<lparr>ri_cache := AList.delete i (ri_cache r)\<rparr>)"
        using recv_last [OF k(1) _ d(2), of "ms ! k" r c i e] k m e assms(2) by simp
      then show thesis
        using that [of "Own d" "r\<lparr>ri_cache := AList.delete i (ri_cache r)\<rparr>"] True False assms(6) frs length_delete_le [of i "ri_cache r"]
        by (simp add: pending_in_def delete_conv distinct_delete)
    next
      case more: False
      obtain e' where "recv_one os junk (ms ! k) r st = (None, r\<lparr>ri_cache := AList.update i e' (ri_cache r)\<rparr>)" "collected d (Suc k) e'"
        using recv_middle [of k d "ms ! k" r c i e] k m e d assms(2) more by (metis frag_simps(1) not_le)
      moreover have "length (AList.update i e' (ri_cache r)) = length (ri_cache r)"
        using update_keys [of i e' "ri_cache r"] mem by (metis length_map list.set_map)
      ultimately show thesis
        using that [of "Own d" "r\<lparr>ri_cache := AList.update i e' (ri_cache r)\<rparr>"] more False assms(3,6) mem frs
        by (simp add: pending_in_def update_conv distinct_update update_keys)
    qed
  qed
next
  case False
  then obtain b where b: "64 < length d" "length d < 2 ^ 31" "b < 256" "ms = [make_msg c i (int (length d) - 64) (Block b)]"
      "find_storage os b (length d) st = Some d"
    using assms(1) by (auto simp: carries_def)
  then have "k = 0" "map_of (ri_cache r) i = None" using assms(3,4) by (auto simp: pending_in_def)
  then show thesis
    using that [of "Lent b d" r] recv_block [OF b(1,2) assms(2) refl b(3) _ b(5)] b assms by (simp add: pending_in_def)
qed

section \<open>Elements of several messages\<close>

text \<open>What a receiver gets that calls \<open>recv\<close> as long as it returns something.\<close>

fun messages :: "ipc_os \<Rightarrow> char \<Rightarrow> msg_t list \<Rightarrow> receiver \<Rightarrow> ipc_store \<Rightarrow> buff_t list" where
  "messages os junk [] r st = []"
| "messages os junk (m # q) r st =
     (case recv_one os junk m r st of
        (Some b, r1) \<Rightarrow> b # messages os junk q r1 st
      | (None, r1) \<Rightarrow> messages os junk q r1 st)"

lemma messages_recv:
  "messages os junk q r st =
     (case chan_recv os junk q r st of (None, r1, q1) \<Rightarrow> [] | (Some b, r1, q1) \<Rightarrow> b # messages os junk q1 r1 st)"
  by (induction q arbitrary: r) (auto split: prod.splits option.splits)

text \<open>The numbers of the messages in the order of their last elements.\<close>

fun completed :: "msg_t list \<Rightarrow> u32 list" where
  "completed [] = []"
| "completed (m # q) = (if mt_id m \<in> mt_id ` set q then completed q else mt_id m # completed q)"

lemma completed_set: "set (completed q) = mt_id ` set q" "distinct (completed q)"
  by (induction q) auto

definition carried :: "ipc_os \<Rightarrow> ipc_store \<Rightarrow> u32 set \<Rightarrow> (u32 \<Rightarrow> u32) \<Rightarrow> (u32 \<Rightarrow> string) \<Rightarrow> (u32 \<Rightarrow> msg_t list) \<Rightarrow> bool" where
  "carried os st I C D M \<longleftrightarrow> finite I \<and> (\<forall>i \<in> I. carries os st (C i) i (D i) (M i))"

lemma messages_interleaved:
  assumes "carried os st I C D M" and "\<And>i. i \<in> I \<Longrightarrow> C i \<noteq> ri_cc_id r" and "mt_id ` set q \<subseteq> I"
    and "\<And>i. i \<in> I \<Longrightarrow> filter (\<lambda>m. mt_id m = i) q = drop (k i) (M i)"
    and "\<And>i. i \<in> I \<Longrightarrow> pending_in (ri_cache r) i (D i) (length (M i)) (k i)"
    and "length (ri_cache r) + card {i \<in> I. k i = 0} \<le> 1025" and "distinct (map fst (ri_cache r))"
  shows "map buff_data (messages os junk q r st) = map D (completed q)"
  using assms(2-)
proof (induction q arbitrary: r k)
  case Nil
  then show ?case by simp
next
  case (Cons m q)
  let ?i = "mt_id m" and ?k = "k(mt_id m := Suc (k (mt_id m)))"
  have i: "?i \<in> I" using Cons.prems(2) by simp
  have car: "carries os st (C ?i) ?i (D ?i) (M ?i)" using assms(1) i by (simp add: carried_def)
  have dr: "drop (k ?i) (M ?i) = m # filter (\<lambda>m'. mt_id m' = ?i) q" using Cons.prems(3) [OF i] by simp
  then have k: "k ?i < length (M ?i)" by (metis drop_all list.distinct(1) not_le)
  then have m: "M ?i ! k ?i = m" "drop (Suc (k ?i)) (M ?i) = filter (\<lambda>m'. mt_id m' = ?i) q"
    using dr by (simp_all add: Cons_nth_drop_Suc [symmetric])
  have small: "k ?i = 0 \<longrightarrow> length (ri_cache r) \<le> 1024 \<and> card {i \<in> I. k i = 0} = Suc (card {i \<in> I. ?k i = 0})"
  proof
    assume z: "k ?i = 0"
    have "{j \<in> I. k j = 0} = insert ?i {j \<in> I. ?k j = 0}" using z i by auto
    then have "card {j \<in> I. k j = 0} = Suc (card {j \<in> I. ?k j = 0})" using assms(1) by (simp add: carried_def)
    then show "length (ri_cache r) \<le> 1024 \<and> card {i \<in> I. k i = 0} = Suc (card {i \<in> I. ?k i = 0})" using Cons.prems(5) by simp
  qed
  then have room: "k ?i = 0 \<longrightarrow> length (ri_cache r) \<le> 1024" by blast
  obtain b r' where s: "recv_one os junk m r st = (if Suc (k ?i) = length (M ?i) then Some b else None, r')" "buff_data b = D ?i"
      "pending_in (ri_cache r') ?i (D ?i) (length (M ?i)) (Suc (k ?i))" "\<forall>j. j \<noteq> ?i \<longrightarrow> map_of (ri_cache r') j = map_of (ri_cache r) j"
      "distinct (map fst (ri_cache r'))" "ri_cc_id r' = ri_cc_id r" "length (ri_cache r') \<le> length (ri_cache r) + (if k ?i = 0 then 1 else 0)"
    by (rule carries_step [OF car Cons.prems(1) [OF i] k Cons.prems(4) [OF i] room Cons.prems(6), of junk, unfolded m(1)])
  have "map buff_data (messages os junk q r' st) = map D (completed q)"
  proof (rule Cons.IH [where k = ?k])
    show "filter (\<lambda>m. mt_id m = j) q = drop (?k j) (M j)" if "j \<in> I" for j
      using Cons.prems(3) [OF that] m(2) by (cases "j = ?i") auto
    show "pending_in (ri_cache r') j (D j) (length (M j)) (?k j)" if "j \<in> I" for j
      using Cons.prems(4) [OF that] s(3) s(4) by (cases "j = ?i") (auto simp: pending_in_def)
    show "length (ri_cache r') + card {i \<in> I. ?k i = 0} \<le> 1025"
    proof (cases "k ?i = 0")
      case False
      then have "{i \<in> I. ?k i = 0} = {i \<in> I. k i = 0}" by auto
      then show ?thesis using Cons.prems(5) s(7) False by simp
    qed (use Cons.prems(5) s(7) small in simp)
  qed (use Cons.prems(1,2) s(5,6) in auto)
  moreover have "?i \<in> mt_id ` set q \<longleftrightarrow> Suc (k ?i) \<noteq> length (M ?i)"
  proof -
    have "filter (\<lambda>m'. mt_id m' = ?i) q = [] \<longleftrightarrow> Suc (k ?i) = length (M ?i)" using m(2) k by (metis drop_eq_Nil Suc_leI le_antisym order_refl)
    moreover have "filter (\<lambda>m'. mt_id m' = ?i) q = [] \<longleftrightarrow> ?i \<notin> mt_id ` set q"
      unfolding filter_empty_conv image_iff by metis
    ultimately show ?thesis by blast
  qed
  ultimately show ?case using s(1,2) by simp
qed

text \<open>An operating system that gives every segment, zeroed shared memory, and a receiver that has just connected.\<close>

definition willing_os :: ipc_os where
  "willing_os = \<lparr>io_info = (\<lambda>cls. True), io_block = (\<lambda>cls b. True)\<rparr>"

definition fresh_store :: ipc_store where
  "fresh_store = \<lparr>is_pool = (\<lambda>cls. zero_pool), is_mem = (\<lambda>cls b. []), is_count = (\<lambda>cls b. 0)\<rparr>"

definition fresh_receiver :: "u32 \<Rightarrow> receiver" where
  "fresh_receiver c = \<lparr>ri_cc_id = c, ri_cache = []\<rparr>"

text \<open>
  C13. Messages whose elements are interleaved in the ring arrive whole. Let the ring hold the elements
  of any messages of less than 2 GiB under distinct numbers, each message as fragments or as a block
  of shared memory, in an order that keeps the elements of each message in sequence, and let the
  receiver have no older fragments under these numbers and at most 1024 open messages. Then calling
  \<open>recv\<close> until it returns nothing yields each message exactly once and as it was sent, in the order of
  their last elements.
\<close>

theorem interleaved_messages_arrive:
  assumes "carried os st I C D M" and "\<forall>i \<in> I. C i \<noteq> ri_cc_id r" and "mt_id ` set q = I"
    and "\<forall>i \<in> I. filter (\<lambda>m. mt_id m = i) q = M i" and "\<forall>i \<in> I. map_of (ri_cache r) i = None"
    and "length (ri_cache r) + card I \<le> 1025" and "distinct (map fst (ri_cache r))"
  shows "map buff_data (messages os junk q r st) = map D (completed q) \<and> distinct (completed q) \<and> set (completed q) = I"
proof -
  have "map buff_data (messages os junk q r st) = map D (completed q)"
    by (rule messages_interleaved [OF assms(1), where k = "\<lambda>i. 0"]) (use assms in \<open>auto simp: pending_in_def\<close>)
  then show ?thesis using completed_set [of q] assms(3) by simp
qed

theorem interleaved_messages_arrive_witness:
  "\<exists>q. map mt_id q = [1, 2, 1] \<and> map buff_data (messages willing_os (CHR 0x00) q (fresh_receiver 9) fresh_store)
     = [''hello'', replicate 100 (CHR ''x'')]"
proof -
  let ?x = "replicate 100 (CHR ''x'')" and ?st = fresh_store and ?r = "fresh_receiver 9"
  let ?D = "\<lambda>i :: u32. if i = 1 then ?x else ''hello''"
  let ?M = "\<lambda>i. fragments 5 i (?D i)"
  let ?q = "[frag 5 1 ?x 0, frag 5 2 ''hello'' 0, frag 5 1 ?x 1]"
  have f: "fragments 5 1 ?x = [frag 5 1 ?x 0, frag 5 1 ?x 1]" "fragments 5 2 ''hello'' = [frag 5 2 ''hello'' 0]"
    by (simp_all add: fragments_alt frag_count_def upt_rec)
  have "map buff_data (messages willing_os (CHR 0x00) ?q ?r ?st) = map ?D (completed ?q)"
    using interleaved_messages_arrive [where os = willing_os and st = ?st and I = "{1, 2}" and C = "\<lambda>i. 5" and D = ?D and M = ?M
        and r = ?r and q = ?q and junk = "CHR 0x00"] f
    by (auto simp: carried_def carries_def fresh_receiver_def)
  then show ?thesis by (intro exI [of _ ?q]) simp
qed

section \<open>Sending and receiving\<close>

lemma push_all_room:
  "length (ic_queue ch) + length ms \<le> 255 \<Longrightarrow> push_all ms ch = (True, ch\<lparr>ic_queue := ic_queue ch @ ms\<rparr>)"
  by (induction ms arbitrary: ch) simp_all

definition store_ok :: "ipc_store \<Rightarrow> bool" where
  "store_ok st \<longleftrightarrow> (\<forall>cls. is_pool st cls = zero_pool \<or> ip_prepared (is_pool st cls) \<and> (\<exists>free held. pool_ok free held (is_pool st cls)))"

lemma store_prepared: "store_ok st \<Longrightarrow> \<exists>free held. pool_ok free held (prepare (is_pool st cls))"
  using prepare_ok prepare_prepared unfolding store_ok_def by metis

lemma apply_storage_block:
  assumes "store_ok st" and "apply_storage os n sz st = (Some b, st1)"
  shows "b < 256"
proof -
  obtain free held where "pool_ok free held (prepare (is_pool st (calc_cls_size sz)))" using store_prepared [OF assms(1)] by blast
  then show ?thesis
    using acquire_ok [of free held "prepare (is_pool st (calc_cls_size sz))"] assms(2)
    by (cases free) (auto simp: apply_storage_def Let_def pool_ok_def max_count_def split: if_splits option.splits prod.splits)
qed

text \<open>The plan of a send carries the message, and the buffer that is received gives back what the plan took.\<close>

lemma send_plan_carries:
  assumes "d \<noteq> []" and "length d < 2 ^ 31" and "0 < n" "n < 2 ^ 32" and "store_ok st" and "send_plan os n c i d st = (ms, st')"
  shows "carries os st' c i d ms" and "length ms \<le> frag_count d"
proof -
  let ?cls = "calc_cls_size (length d)"
  show "carries os st' c i d ms"
  proof (cases "\<exists>b st1. 64 < length d \<and> apply_storage os n (length d) st = (Some b, st1)")
    case False
    then have "ms = fragments c i d"
      using assms(6) by (auto simp: send_plan_def large_msg_limit_def data_length_def split: if_splits option.splits prod.splits)
    then show ?thesis using assms(1,2) by (simp add: carries_def)
  next
    case True
    then obtain b st1 where b: "64 < length d" "apply_storage os n (length d) st = (Some b, st1)" by blast
    then have ms: "ms = [make_msg c i (int (length d) - 64) (Block b)]" "st' = write_block ?cls b d st1"
      using assms(6) by (simp_all add: send_plan_def large_msg_limit_def data_length_def)
    obtain p where p: "acquire (prepare (is_pool st ?cls)) = (Some b, p)" "io_block os ?cls b"
        "st1 = set_count ?cls b (of_nat n) (set_pool ?cls p st)"
      using b(2) assms(3) by (auto simp: apply_storage_def Let_def split: if_splits option.splits prod.splits)
    have "b < 256" by (rule apply_storage_block [OF assms(5) b(2)])
    moreover have "of_nat n \<noteq> (0 :: u32)" using assms(3,4) by (simp add: word_of_nat_eq_0_iff) (auto dest: dvd_imp_le)
    ultimately show ?thesis
      using ms p b assms(1,2) by (auto simp: carries_def find_storage_def write_block_def set_count_def Let_def intro!: exI [of _ b])
  qed
  then show "length ms \<le> frag_count d"
    using assms(1) frag_count_less [of 0 d] by (auto simp: carries_def fragments_alt Suc_leI)
qed

lemma recv_carried:
  assumes "carries os st c i d ms" and "c \<noteq> ri_cc_id r" and "k < length ms" and "pending_in (ri_cache r) i d (length ms) k"
    and "k = 0 \<longrightarrow> length (ri_cache r) \<le> 1024" and "distinct (map fst (ri_cache r))"
  shows "\<exists>b r'. chan_recv os junk (drop k ms) r st = (Some b, r', []) \<and> map_of (ri_cache r') i = None
    \<and> (\<forall>j. j \<noteq> i \<longrightarrow> map_of (ri_cache r') j = map_of (ri_cache r) j)
    \<and> (ms = fragments c i d \<and> b = Own d \<or> (\<exists>x < 256. ms = [make_msg c i (int (length d) - 64) (Block x)] \<and> b = Lent x d))"
  using assms(2-)
proof (induction "length ms - k" arbitrary: k r)
  case (Suc n)
  obtain b r' where s: "recv_one os junk (ms ! k) r st = (if Suc k = length ms then Some b else None, r')"
      "pending_in (ri_cache r') i d (length ms) (Suc k)" "\<forall>j. j \<noteq> i \<longrightarrow> map_of (ri_cache r') j = map_of (ri_cache r) j"
      "distinct (map fst (ri_cache r'))" "ri_cc_id r' = ri_cc_id r"
      "ms = fragments c i d \<and> b = Own d \<or> (\<exists>x < 256. ms = [make_msg c i (int (length d) - 64) (Block x)] \<and> b = Lent x d)"
    by (rule carries_step [OF assms(1) Suc.prems, of junk])
  have d: "drop k ms = ms ! k # drop (Suc k) ms" using Suc.prems(2) by (simp add: Cons_nth_drop_Suc)
  show ?case
  proof (cases "Suc k = length ms")
    case True
    then have "chan_recv os junk (drop k ms) r st = (Some b, r', [])" "map_of (ri_cache r') i = None"
      using s(1,2) d by (simp_all add: pending_in_def)
    then show ?thesis using s(3,6) by blast
  next
    case False
    have "\<exists>b' r''. chan_recv os junk (drop (Suc k) ms) r' st = (Some b', r'', []) \<and> map_of (ri_cache r'') i = None
        \<and> (\<forall>j. j \<noteq> i \<longrightarrow> map_of (ri_cache r'') j = map_of (ri_cache r') j)
        \<and> (ms = fragments c i d \<and> b' = Own d \<or> (\<exists>x < 256. ms = [make_msg c i (int (length d) - 64) (Block x)] \<and> b' = Lent x d))"
      by (rule Suc.hyps(1)) (use Suc.hyps(2) Suc.prems s False in auto)
    then show ?thesis using s(1,3) d False by auto
  qed
qed simp

text \<open>The pools of block numbers, whether or not they have been set up.\<close>

definition pools :: "ipc_store \<Rightarrow> nat \<Rightarrow> id_pool" where
  "pools st cls = prepare (is_pool st cls)"

lemma prepare_idem [simp]: "prepare (prepare p) = prepare p"
  by (simp add: prepare_def)

lemma free_restores:
  assumes "apply_storage os 1 (length d) st = (Some x, st1)" and "store_ok st"
  shows "pools (buff_free os (Lent x d) (write_block (calc_cls_size (length d)) x d st1)) = pools st"
proof -
  let ?cls = "calc_cls_size (length d)"
  obtain p where p: "acquire (prepare (is_pool st ?cls)) = (Some x, p)" "io_info os ?cls" "st1 = set_count ?cls x 1 (set_pool ?cls p st)"
    using assms(1) by (auto simp: apply_storage_def Let_def split: if_splits option.splits prod.splits)
  obtain free held where "pool_ok free held (prepare (is_pool st ?cls))" using store_prepared [OF assms(2)] by blast
  then have "release (Some x) p = (True, prepare (is_pool st ?cls))" by (rule release_acquired [OF _ p(1)])
  then show ?thesis
    using p by (auto simp: pools_def recycle_storage_def give_back_def set_count_def set_pool_def write_block_def Let_def fun_eq_iff)
qed

lemma no_block_keeps:
  assumes "apply_storage os n sz st = (None, st1)" and "store_ok st" and "\<forall>cls x. io_block os cls x"
  shows "pools st1 = pools st"
proof -
  obtain free held where "pool_ok free held (prepare (is_pool st (calc_cls_size sz)))" using store_prepared [OF assms(2)] by blast
  then have "p = prepare (is_pool st (calc_cls_size sz))" if "acquire (prepare (is_pool st (calc_cls_size sz))) = (None, p)" for p
    using that by (auto simp: acquire_def Let_def split: if_splits)
  then show ?thesis
    using assms(1,3) by (auto simp: apply_storage_def pools_def set_pool_def Let_def fun_eq_iff split: if_splits option.splits prod.splits)
qed

text \<open>
  C7. A message that is sent on a channel is received as it was sent. On a channel with one receiver
  and room in the ring for the fragments of the message, \<open>send\<close> of a message of less than 2 GiB
  succeeds and appends its elements to the ring; \<open>recv\<close> consumes exactly these elements and returns
  the same bytes, leaves the fragments of other messages in the cache alone, and when the buffer
  is freed the pools of block numbers are as they were.
\<close>

theorem sent_message_received:
  assumes "d \<noteq> []" and "length d < 2 ^ 31" and "ic_cc ch = 1" and "length (ic_queue ch) + frag_count d \<le> 255"
    and "store_ok st" and "\<forall>cls x. io_block os cls x"
    and "c \<noteq> ri_cc_id r" and "map_of (ri_cache r) (ic_acc ch) = None" and "length (ri_cache r) \<le> 1024" and "distinct (map fst (ri_cache r))"
  shows "\<exists>new st' b r'. chan_send os c d ch st = (True, ch\<lparr>ic_acc := ic_acc ch + 1, ic_queue := ic_queue ch @ new\<rparr>, st')
    \<and> chan_recv os junk new r st' = (Some b, r', []) \<and> buff_data b = d
    \<and> map_of (ri_cache r') = map_of (ri_cache r) \<and> pools (buff_free os b st') = pools st"
proof -
  obtain ms st' where plan: "send_plan os 1 c (ic_acc ch) d st = (ms, st')" by fastforce
  have c: "carries os st' c (ic_acc ch) d ms" "length ms \<le> frag_count d"
    using send_plan_carries [OF assms(1,2) _ _ assms(5) plan] by simp_all
  have ms: "ms \<noteq> []" using c(1) frag_count_less [of 0 d] by (auto simp: carries_def fragments_alt)
  obtain b r' where b: "chan_recv os junk ms r st' = (Some b, r', [])" "map_of (ri_cache r') (ic_acc ch) = None"
      "\<forall>j. j \<noteq> ic_acc ch \<longrightarrow> map_of (ri_cache r') j = map_of (ri_cache r) j"
      "ms = fragments c (ic_acc ch) d \<and> b = Own d \<or> (\<exists>x < 256. ms = [make_msg c (ic_acc ch) (int (length d) - 64) (Block x)] \<and> b = Lent x d)"
    using recv_carried [OF c(1) assms(7), of 0 junk] ms assms(8-10) by (auto simp: pending_in_def)
  have "chan_send os c d ch st = (True, ch\<lparr>ic_acc := ic_acc ch + 1, ic_queue := ic_queue ch @ ms\<rparr>, st')"
    using assms(1,3,4) plan c(2) by (simp add: chan_send_def push_all_room)
  moreover have "map_of (ri_cache r') = map_of (ri_cache r)"
    using b(2,3) assms(8) by (auto simp: fun_eq_iff) metis
  moreover have "pools (buff_free os b st') = pools st"
  proof (cases "64 < length d \<and> (\<exists>x st1. apply_storage os 1 (length d) st = (Some x, st1))")
    case True
    then obtain x st1 where x: "64 < length d" "apply_storage os 1 (length d) st = (Some x, st1)" by blast
    then have p: "ms = [make_msg c (ic_acc ch) (int (length d) - 64) (Block x)]" "st' = write_block (calc_cls_size (length d)) x d st1"
      using plan by (simp_all add: send_plan_def large_msg_limit_def data_length_def)
    obtain y where y: "y < 256" "ms = [make_msg c (ic_acc ch) (int (length d) - 64) (Block y)]" "b = Lent y d"
      using b(4) p(1) fragments_not_block by metis
    have "bytes_size (nul_pad (size_bytes y)) = bytes_size (nul_pad (size_bytes x))" using y(2) p(1) by simp
    then have "b = Lent x d" using y bytes_size_block apply_storage_block [OF assms(5) x(2)] by simp
    then show ?thesis using free_restores [OF x(2) assms(5)] p(2) by simp
  next
    case False
    then have "ms = fragments c (ic_acc ch) d" "pools st' = pools st"
      using plan no_block_keeps [OF _ assms(5,6)]
      by (auto simp: send_plan_def large_msg_limit_def data_length_def split: if_splits option.splits prod.splits)
    moreover from this have "b = Own d" using b(4) fragments_not_block by metis
    ultimately show ?thesis by simp
  qed
  ultimately show ?thesis using b(1,4) by (intro exI [of _ ms] exI [of _ st'] exI [of _ b] exI [of _ r']) auto
qed

theorem sent_message_received_witness:
  "\<exists>ch st b r'. chan_send willing_os 5 (replicate 100 (CHR ''x'')) \<lparr>ic_queue = [], ic_cc = 1, ic_acc = 0\<rparr> fresh_store = (True, ch, st)
     \<and> chan_recv willing_os (CHR 0x00) (ic_queue ch) (fresh_receiver 9) st = (Some b, r', []) \<and> buff_data b = replicate 100 (CHR ''x'')"
  using sent_message_received [of "replicate 100 (CHR ''x'')" "\<lparr>ic_queue = [], ic_cc = 1, ic_acc = 0\<rparr>" fresh_store willing_os 5
      "fresh_receiver 9" "CHR 0x00"]
  by (auto simp: frag_count_def store_ok_def fresh_store_def fresh_receiver_def willing_os_def)

end
