(* ===== verification/Chan_Ring.thy ===== *)
theory Chan_Ring
  imports Ring_Props Chan_Props
begin

text \<open>
  Channels over the ring. \<open>Ipc_Chan\<close> models the ring of a channel as a list of at most 255 elements. The
  locale \<open>bounded_queue\<close> states what sending and receiving need of the ring; it is interpreted for
  the accesses of \<open>Ipc_Ring\<close>, so that a message sent through the ring is received from it.
\<close>

section \<open>The interface\<close>

text \<open>Elements one after the other, until a push fails; and pops until nothing comes.\<close>

fun pushes :: "('a \<Rightarrow> 's \<Rightarrow> bool \<Rightarrow> 's \<Rightarrow> bool) \<Rightarrow> 'a list \<Rightarrow> 's \<Rightarrow> bool \<Rightarrow> 's \<Rightarrow> bool" where
  "pushes push [] s ok s' \<longleftrightarrow> ok \<and> s' = s"
| "pushes push (x # xs) s ok s' \<longleftrightarrow> (\<exists>ok1 s1. push x s ok1 s1 \<and> (if ok1 then pushes push xs s1 ok s' else \<not> ok \<and> s' = s1))"

fun pops :: "('s \<Rightarrow> 'a option \<Rightarrow> 's \<Rightarrow> bool) \<Rightarrow> 'a list \<Rightarrow> 's \<Rightarrow> 's \<Rightarrow> bool" where
  "pops pop [] s s' \<longleftrightarrow> pop s None s'"
| "pops pop (x # xs) s s' \<longleftrightarrow> (\<exists>s1. pop s (Some x) s1 \<and> pops pop xs s1 s')"

text \<open>A queue that lets at least \<open>n\<close> more pushes be done.\<close>

locale bounded_queue =
  fixes good :: "nat \<Rightarrow> 's \<Rightarrow> bool"
    and contents :: "'s \<Rightarrow> 'a list"
    and push :: "'a \<Rightarrow> 's \<Rightarrow> bool \<Rightarrow> 's \<Rightarrow> bool"
    and pop :: "'s \<Rightarrow> 'a option \<Rightarrow> 's \<Rightarrow> bool"
  assumes push_returns: "good (Suc n) s \<Longrightarrow> \<exists>s'. push x s (length (contents s) < 255) s' \<and> good n s'
      \<and> contents s' = (if length (contents s) < 255 then contents s @ [x] else contents s)"
    and pop_returns: "good n s \<Longrightarrow> \<exists>s'. pop s (case contents s of [] \<Rightarrow> None | x # _ \<Rightarrow> Some x) s' \<and> good n s' \<and> contents s' = tl (contents s)"
begin

lemma pushes_all:
  "good (length xs + n) s \<Longrightarrow> length (contents s) + length xs \<le> 255 \<Longrightarrow> \<exists>s'. pushes push xs s True s' \<and> good n s' \<and> contents s' = contents s @ xs"
proof (induction xs arbitrary: s)
  case (Cons x xs)
  then obtain s1 where s1: "push x s True s1" "good (length xs + n) s1" "contents s1 = contents s @ [x]"
    using push_returns [of "length xs + n" s x] by (auto simp: less_eq_Suc_le)
  then show ?case using Cons.IH [of s1] Cons.prems(2) by auto
qed simp

lemma pops_all: "good n s \<Longrightarrow> \<exists>s'. pops pop (contents s) s s' \<and> good n s' \<and> contents s' = []"
proof (induction "contents s" arbitrary: s)
  case Nil
  then show ?case using pop_returns [OF Nil.prems] by (auto simp flip: Nil.hyps)
next
  case (Cons x xs)
  obtain s1 where s1: "pop s (Some x) s1" "good n s1" "contents s1 = xs" using pop_returns [OF Cons.prems] by (auto simp flip: Cons.hyps(2))
  then show ?case using Cons.hyps(1) [of s1] by (auto simp flip: Cons.hyps(2))
qed

end

section \<open>The ring as such a queue\<close>

text \<open>Runs from the beginning that have come to rest, with room in the counters.\<close>

definition ring_rests :: "'a \<Rightarrow> nat \<Rightarrow> 'a threads \<times> 'a ring \<Rightarrow> bool" where
  "ring_rests zero n ts \<longleftrightarrow> (\<exists>evs. ring_run evs (ring_start zero) = ts) \<and> quiescent (fst ts) \<and> length (rg_claimed (snd ts)) + n < 2 ^ 32"

text \<open>An operation of thread \<open>t\<close> from its start to its return.\<close>

definition ring_does :: "nat \<Rightarrow> 'a \<Rightarrow> 'a ring_op \<Rightarrow> 'a threads \<times> 'a ring \<Rightarrow> 'a ring_result \<Rightarrow> 'a threads \<times> 'a ring \<Rightarrow> bool" where
  "ring_does t torn oper ts r ts' \<longleftrightarrow>
     (\<exists>n. ring_run (Begin t oper # replicate n (Access t False torn)) ts = ts') \<and> fst ts' t = Ret r"

lemma ring_rests_after:
  assumes "ring_rests zero n (th, s)" and "ring_run evs (th, s) = (th(t := Ret r), s')" and "length (rg_claimed s') + m < 2 ^ 32"
  shows "ring_rests zero m (th(t := Ret r), s')"
proof -
  obtain evs0 where "ring_run evs0 (ring_start zero) = (th, s)" using assms(1) by (auto simp: ring_rests_def)
  then have "ring_run (evs0 @ evs) (ring_start zero) = (th(t := Ret r), s')" using assms(2) by (simp add: ring_run_def)
  then show ?thesis using assms(1,3) by (auto simp: ring_rests_def quiescent_def)
qed

interpretation rq: bounded_queue "ring_rests zero" "\<lambda>ts. ring_queue (snd ts)"
    "\<lambda>x ts ok. ring_does t torn (Push x) ts (Pushed ok)" "\<lambda>ts r. ring_does u torn Pop ts (Popped r)"
  for zero torn :: 'a and t u :: nat
proof
  fix n x and ts :: "'a threads \<times> 'a ring"
  obtain th s where ts: "ts = (th, s)" by fastforce
  show "\<exists>ts'. ring_does t torn (Push x) ts (Pushed (length (ring_queue (snd ts)) < 255)) ts' \<and> ring_rests zero n ts'
      \<and> ring_queue (snd ts') = (if length (ring_queue (snd ts)) < 255 then ring_queue (snd ts) @ [x] else ring_queue (snd ts))"
    if r: "ring_rests zero (Suc n) ts"
  proof -
    obtain evs where e: "ring_run evs (ring_start zero) = (th, s)" "quiescent th" "length (rg_claimed s) + 1 < 2 ^ 32"
      using r ts by (auto simp: ring_rests_def)
    obtain k s' where s': "ring_run (Begin t (Push x) # replicate k (Access t False torn)) (th, s) = (th(t := Ret (Pushed (length (ring_queue s) < 255))), s')"
        "ring_queue s' = (if length (ring_queue s) < 255 then ring_queue s @ [x] else ring_queue s)"
        "length (rg_claimed s') \<le> length (rg_claimed s) + 1"
      using ring_solo_push [OF e] by blast
    have "ring_rests zero n (th(t := Ret (Pushed (length (ring_queue s) < 255))), s')"
      by (rule ring_rests_after [OF r [unfolded ts] s'(1)]) (use r s'(3) in \<open>simp add: ts ring_rests_def\<close>)
    then show ?thesis using s'(1,2) by (intro exI) (auto simp: ts ring_does_def)
  qed
  show "\<exists>ts'. ring_does u torn Pop ts (Popped (case ring_queue (snd ts) of [] \<Rightarrow> None | x # _ \<Rightarrow> Some x)) ts' \<and> ring_rests zero n ts'
      \<and> ring_queue (snd ts') = tl (ring_queue (snd ts))"
    if r: "ring_rests zero n ts"
  proof -
    obtain evs where e: "ring_run evs (ring_start zero) = (th, s)" "quiescent th" "length (rg_claimed s) < 2 ^ 32"
      using r ts by (auto simp: ring_rests_def)
    obtain k s' where s': "ring_run (Begin u Pop # replicate k (Access u False torn)) (th, s)
          = (th(u := Ret (Popped (case ring_queue s of [] \<Rightarrow> None | y # _ \<Rightarrow> Some y))), s')"
        "ring_queue s' = tl (ring_queue s)" "rg_claimed s' = rg_claimed s"
      using ring_solo_pop [OF e] by blast
    have "ring_rests zero n (th(u := Ret (Popped (case ring_queue s of [] \<Rightarrow> None | y # _ \<Rightarrow> Some y))), s')"
      by (rule ring_rests_after [OF r [unfolded ts] s'(1)]) (use r s'(3) in \<open>simp add: ts ring_rests_def\<close>)
    then show ?thesis using s'(1,2) by (intro exI) (auto simp: ts ring_does_def)
  qed
qed

text \<open>
  C8. A message sent through the lock-free ring is received from it. Let any run of any threads on the
  ring have come to rest with an empty ring, let the message have between one byte and 2 GiB and fit
  into the ring, and let the receiver have no fragments under its number. Then the elements that \<open>send\<close>
  plans can be pushed by a thread with its accesses to the ring, every push succeeds, another thread can
  pop them until the ring is empty, and \<open>recv\<close> makes the message of what it has popped.
\<close>

theorem message_through_ring:
  assumes "ring_rests zero (frag_count d) (th, s)" and "ring_queue s = []" and "frag_count d \<le> 255"
    and "d \<noteq> []" and "length d < 2 ^ 31" and "store_ok st"
    and "c \<noteq> ri_cc_id r" and "map_of (ri_cache r) i = None" and "length (ri_cache r) \<le> 1024" and "distinct (map fst (ri_cache r))"
  shows "\<exists>ms st' ts1 ts2 b r'. send_plan os 1 c i d st = (ms, st')
    \<and> pushes (\<lambda>x ts ok. ring_does t torn (Push x) ts (Pushed ok)) ms (th, s) True ts1 \<and> ring_queue (snd ts1) = ms
    \<and> pops (\<lambda>ts res. ring_does u torn Pop ts (Popped res)) ms ts1 ts2 \<and> ring_queue (snd ts2) = []
    \<and> chan_recv os junk ms r st' = (Some b, r', []) \<and> buff_data b = d"
proof -
  obtain ms st' where plan: "send_plan os 1 c i d st = (ms, st')" by fastforce
  have c: "carries os st' c i d ms" "length ms \<le> frag_count d"
    using send_plan_carries [OF assms(4,5) _ _ assms(6) plan] by simp_all
  have ms: "ms \<noteq> []" using c(1) frag_count_less [of 0 d] by (auto simp: carries_def fragments_alt)
  obtain b r' where b: "chan_recv os junk ms r st' = (Some b, r', [])" "buff_data b = d"
    using recv_carried [OF c(1) assms(7), of 0 junk] ms assms(8-10) by (auto simp: pending_in_def)
  have g: "ring_rests zero (length ms + (frag_count d - length ms)) (th, s)" using assms(1) c(2) by simp
  obtain ts1 where p: "pushes (\<lambda>x ts ok. ring_does t torn (Push x) ts (Pushed ok)) ms (th, s) True ts1"
      "ring_rests zero (frag_count d - length ms) ts1" "ring_queue (snd ts1) = ms"
    using rq.pushes_all [OF g, of t torn] assms(2,3) c(2) by auto
  obtain ts2 where q: "pops (\<lambda>ts res. ring_does u torn Pop ts (Popped res)) ms ts1 ts2" "ring_queue (snd ts2) = []"
    using rq.pops_all [OF p(2), of u torn] p(3) by auto
  show ?thesis using plan p(1,3) q b by blast
qed

definition blank_msg :: msg_t where
  "blank_msg = make_msg 0 0 0 (Bytes [])"

theorem message_through_ring_witness:
  "\<exists>ms st' ts1 ts2 b r'. send_plan willing_os 1 5 0 (replicate 100 (CHR ''x'')) fresh_store = (ms, st')
    \<and> pushes (\<lambda>x ts ok. ring_does 1 blank_msg (Push x) ts (Pushed ok)) ms (ring_start blank_msg) True ts1
    \<and> pops (\<lambda>ts res. ring_does 2 blank_msg Pop ts (Popped res)) ms ts1 ts2
    \<and> chan_recv willing_os (CHR 0x00) ms (fresh_receiver 9) st' = (Some b, r', []) \<and> buff_data b = replicate 100 (CHR ''x'')"
proof -
  obtain th s where s: "ring_start blank_msg = (th, s)" by fastforce
  have "ring_run [] (ring_start blank_msg) = ring_start blank_msg" by simp
  then have "\<exists>evs. ring_run evs (ring_start blank_msg) = (th, s)" using s by metis
  moreover have "quiescent th" "rg_claimed s = []" "ring_queue s = []"
    using s by (auto simp: quiescent_def ring_start_def ring_init_def ring_queue_def)
  ultimately have "ring_rests blank_msg (frag_count (replicate 100 (CHR ''x''))) (th, s)" "ring_queue s = []"
    by (simp_all add: ring_rests_def frag_count_def)
  moreover have "frag_count (replicate 100 (CHR ''x'')) \<le> 255" "store_ok fresh_store" "ri_cache (fresh_receiver 9) = []"
    "ri_cc_id (fresh_receiver 9) = 9"
    by (simp_all add: frag_count_def store_ok_def fresh_store_def fresh_receiver_def)
  ultimately have "\<exists>ms st' ts1 ts2 b r'. send_plan willing_os 1 5 0 (replicate 100 (CHR ''x'')) fresh_store = (ms, st')
    \<and> pushes (\<lambda>x ts ok. ring_does 1 blank_msg (Push x) ts (Pushed ok)) ms (th, s) True ts1 \<and> ring_queue (snd ts1) = ms
    \<and> pops (\<lambda>ts res. ring_does 2 blank_msg Pop ts (Popped res)) ms ts1 ts2 \<and> ring_queue (snd ts2) = []
    \<and> chan_recv willing_os (CHR 0x00) ms (fresh_receiver 9) st' = (Some b, r', []) \<and> buff_data b = replicate 100 (CHR ''x'')"
    by (intro message_through_ring) simp_all
  then show ?thesis unfolding s by blast
qed

end
