(* ===== verification/Ipc_Conn.thy ===== *)
theory Ipc_Conn
  imports Ipc_Chan
begin

text \<open>
  Connections of a channel: \<open>chan_wrapper\<close> of \<^verbatim>\<open>include/libipc/ipc.h\<close>, \<open>connect\<close>, \<open>reconnect\<close> and
  \<open>disconnect\<close> of \<^verbatim>\<open>src/ipc.cpp\<close>, the connection state of a queue (\<^verbatim>\<open>queue.h\<close>) and the shared count of
  receivers (\<^verbatim>\<open>circ/elem_def.h\<close>, the form for unicast). A sender refuses to send when the count is zero.
\<close>

section \<open>The count of receivers\<close>

definition conn_connect :: "u32 \<Rightarrow> u32 \<times> u32" where
  "conn_connect cc = (cc + 1, cc + 1)"

definition conn_disconnect :: "u32 \<Rightarrow> u32 \<Rightarrow> u32" where
  "conn_disconnect cc_id cc = (if cc_id = - 1 then 0 else cc - 1)"

section \<open>Handles\<close>

text \<open>The state of a queue in a process: its connection number, zero when it does not receive, and whether it sends.\<close>

record queue_conn =
  qc_connected :: u32
  qc_sender :: bool

definition queue_init :: queue_conn where
  "queue_init = \<lparr>qc_connected = 0, qc_sender = False\<rparr>"

definition queue_connect :: "queue_conn \<Rightarrow> u32 \<Rightarrow> bool \<times> queue_conn \<times> u32" where
  "queue_connect q cc =
     (if qc_connected q \<noteq> 0 then (True, q, cc)
      else let (i, cc1) = conn_connect cc in (i \<noteq> 0, q\<lparr>qc_connected := i\<rparr>, cc1))"

definition queue_disconnect :: "queue_conn \<Rightarrow> u32 \<Rightarrow> bool \<times> queue_conn \<times> u32" where
  "queue_disconnect q cc =
     (if qc_connected q = 0 then (False, q, cc)
      else (True, q\<lparr>qc_connected := 0\<rparr>, conn_disconnect (qc_connected q) cc))"

text \<open>Several senders are allowed, so becoming a sender always succeeds.\<close>

definition ready_sending :: "queue_conn \<Rightarrow> bool \<times> queue_conn" where
  "ready_sending q = (True, q\<lparr>qc_sender := True\<rparr>)"

definition impl_disconnect :: "queue_conn \<Rightarrow> u32 \<Rightarrow> queue_conn \<times> u32" where
  "impl_disconnect q cc = snd (queue_disconnect q cc)"

definition impl_reconnect :: "bool \<Rightarrow> queue_conn \<Rightarrow> u32 \<Rightarrow> bool \<times> queue_conn \<times> u32" where
  "impl_reconnect start_to_recv q cc =
     (if start_to_recv then queue_connect q cc
      else let (q1, cc1) = (if qc_connected q \<noteq> 0 then impl_disconnect q cc else (q, cc));
               (ok, q2) = ready_sending q1
           in (ok, q2, cc1))"

text \<open>\<open>recv\<close>: a handle that is not connected receives nothing.\<close>

definition impl_recv :: "ipc_os \<Rightarrow> char \<Rightarrow> queue_conn \<Rightarrow> msg_t list \<Rightarrow> receiver \<Rightarrow> ipc_store \<Rightarrow> buff_t option \<times> receiver \<times> msg_t list" where
  "impl_recv os junk q ms r st = (if qc_connected q = 0 then (None, r, ms) else chan_recv os junk ms r st)"

section \<open>\<open>chan_wrapper\<close>\<close>

text \<open>\<open>cw_handle\<close> is \<open>None\<close> for the null handle; \<open>cw_mode\<close> is true for \<open>ipc::receiver\<close>.\<close>

record chan_wrapper =
  cw_handle :: "queue_conn option"
  cw_mode :: bool
  cw_connected :: bool

definition wrapper_init :: chan_wrapper where
  "wrapper_init = \<lparr>cw_handle = None, cw_mode = False, cw_connected = False\<rparr>"

definition wrapper_connect :: "string \<Rightarrow> bool \<Rightarrow> chan_wrapper \<Rightarrow> u32 \<Rightarrow> bool \<times> chan_wrapper \<times> u32" where
  "wrapper_connect nm mode w cc =
     (if nm = [] then (False, w, cc)
      else let (q, cc1) = (case cw_handle w of None \<Rightarrow> (queue_init, cc) | Some q \<Rightarrow> impl_disconnect q cc);
               (ok, q1, cc2) = impl_reconnect mode q cc1
           in (ok, \<lparr>cw_handle = Some q1, cw_mode = mode, cw_connected = ok\<rparr>, cc2))"

definition wrapper_reconnect :: "bool \<Rightarrow> chan_wrapper \<Rightarrow> u32 \<Rightarrow> bool \<times> chan_wrapper \<times> u32" where
  "wrapper_reconnect mode w cc =
     (case cw_handle w of None \<Rightarrow> (False, w, cc)
      | Some q \<Rightarrow>
          if cw_connected w \<and> cw_mode w = mode then (True, w, cc)
          else let (ok, q1, cc1) = impl_reconnect mode q cc
               in (ok, \<lparr>cw_handle = Some q1, cw_mode = mode, cw_connected = ok\<rparr>, cc1))"

definition wrapper_disconnect :: "chan_wrapper \<Rightarrow> u32 \<Rightarrow> chan_wrapper \<times> u32" where
  "wrapper_disconnect w cc =
     (case cw_handle w of None \<Rightarrow> (w, cc)
      | Some q \<Rightarrow> let (q1, cc1) = impl_disconnect q cc in (w\<lparr>cw_handle := Some q1, cw_connected := False\<rparr>, cc1))"

section \<open>Runs\<close>

datatype conn_use = Connect nat bool | Reconnect nat bool | Disconnect nat

text \<open>The wrappers of one channel, in all processes, and the shared count.\<close>

fun conn_event :: "conn_use \<Rightarrow> chan_wrapper list \<times> u32 \<Rightarrow> chan_wrapper list \<times> u32" where
  "conn_event (Connect i mode) (ws, cc) =
     (if i < length ws then let (ok, w, cc1) = wrapper_connect ''ipc'' mode (ws ! i) cc in (ws[i := w], cc1) else (ws, cc))"
| "conn_event (Reconnect i mode) (ws, cc) =
     (if i < length ws then let (ok, w, cc1) = wrapper_reconnect mode (ws ! i) cc in (ws[i := w], cc1) else (ws, cc))"
| "conn_event (Disconnect i) (ws, cc) =
     (if i < length ws then let (w, cc1) = wrapper_disconnect (ws ! i) cc in (ws[i := w], cc1) else (ws, cc))"

definition receives :: "chan_wrapper \<Rightarrow> bool" where
  "receives w = (case cw_handle w of None \<Rightarrow> False | Some q \<Rightarrow> qc_connected q \<noteq> 0)"

definition receivers :: "chan_wrapper list \<Rightarrow> nat" where
  "receivers ws = length (filter receives ws)"

section \<open>The count is right\<close>

definition wrapper_ok :: "nat \<Rightarrow> chan_wrapper \<Rightarrow> bool" where
  "wrapper_ok n w \<longleftrightarrow> (\<forall>q. cw_handle w = Some q \<longrightarrow> unat (qc_connected q) \<le> n) \<and> (cw_connected w \<longrightarrow> receives w = cw_mode w)
     \<and> (receives w \<longrightarrow> cw_mode w)"

abbreviation receiving :: "chan_wrapper \<Rightarrow> u32" where
  "receiving w \<equiv> of_bool (receives w)"

text \<open>An operation on a wrapper moves the count by what it changes of the wrapper.\<close>

definition moves :: "nat \<Rightarrow> chan_wrapper \<Rightarrow> u32 \<Rightarrow> chan_wrapper \<Rightarrow> u32 \<Rightarrow> bool" where
  "moves n w cc w' cc' \<longleftrightarrow> wrapper_ok n w' \<and> cc' = cc - receiving w + receiving w'"

lemma id_not_minus1: "n < 2 ^ 32 - 1 \<Longrightarrow> unat (i :: u32) \<le> n \<Longrightarrow> i \<noteq> - 1"
  by (auto simp: unsigned_minus_1_eq_mask mask_eq_exp_minus_1)

lemma connect_id:
  fixes cc :: u32
  assumes "unat cc < n" and "n < 2 ^ 32 - 1"
  shows "unat (cc + 1) \<le> n" and "cc + 1 \<noteq> 0"
proof -
  have "unat (cc + 1) = unat cc + 1" using assms by (simp add: unat_word_ariths)
  then show "unat (cc + 1) \<le> n" "cc + 1 \<noteq> 0" using assms(1) by (auto simp flip: unat_eq_0)
qed

lemma connect_moves:
  assumes "wrapper_ok n w" and "n < 2 ^ 32 - 1" and "unat (cc - receiving w) < n" and "nm \<noteq> []"
  shows "case wrapper_connect nm mode w cc of (ok, w', cc') \<Rightarrow> ok \<and> moves n w cc w' cc'"
proof -
  have "qc_connected q \<noteq> - 1" if "cw_handle w = Some q" for q
    using assms(1,2) that id_not_minus1 by (auto simp: wrapper_ok_def)
  then show ?thesis
    using assms connect_id [OF assms(3,2)]
    by (auto simp: wrapper_connect_def impl_disconnect_def impl_reconnect_def queue_disconnect_def queue_connect_def conn_disconnect_def
      conn_connect_def ready_sending_def moves_def receives_def wrapper_ok_def queue_init_def Let_def split: option.splits)
qed

lemma reconnect_moves:
  assumes "wrapper_ok n w" and "n < 2 ^ 32 - 1" and "unat (cc - receiving w) < n"
  shows "case wrapper_reconnect mode w cc of (ok, w', cc') \<Rightarrow> moves n w cc w' cc'"
proof -
  have "qc_connected q \<noteq> - 1" if "cw_handle w = Some q" for q
    using assms(1,2) that id_not_minus1 by (auto simp: wrapper_ok_def)
  then show ?thesis
    using assms connect_id [OF assms(3,2)]
    by (auto simp: wrapper_reconnect_def impl_disconnect_def impl_reconnect_def queue_disconnect_def queue_connect_def conn_disconnect_def
      conn_connect_def ready_sending_def moves_def receives_def wrapper_ok_def Let_def split: option.splits)
qed

lemma disconnect_moves:
  assumes "wrapper_ok n w" and "n < 2 ^ 32 - 1"
  shows "case wrapper_disconnect w cc of (w', cc') \<Rightarrow> moves n w cc w' cc'"
proof -
  have "qc_connected q \<noteq> - 1" if "cw_handle w = Some q" for q
    using assms that id_not_minus1 by (auto simp: wrapper_ok_def)
  then show ?thesis
    using assms
    by (auto simp: wrapper_disconnect_def impl_disconnect_def queue_disconnect_def conn_disconnect_def
      moves_def receives_def wrapper_ok_def Let_def split: option.splits)
qed

definition conn_ok :: "nat \<Rightarrow> chan_wrapper list \<times> u32 \<Rightarrow> bool" where
  "conn_ok n = (\<lambda>(ws, cc). length ws = n \<and> (\<forall>w \<in> set ws. wrapper_ok n w) \<and> cc = of_nat (receivers ws))"

lemma receivers_update:
  assumes "i < length ws"
  shows "receivers (ws[i := w]) + of_bool (receives (ws ! i)) = receivers ws + of_bool (receives w)"
proof -
  have "receivers ws = length (filter receives (take i ws @ ws ! i # drop (Suc i) ws))"
    by (metis assms id_take_nth_drop receivers_def)
  then show ?thesis using assms by (simp add: receivers_def upd_conv_take_nth_drop)
qed

lemma receivers_others:
  assumes "conn_ok n (ws, cc)" and "i < length ws" and "n < 2 ^ 32 - 1"
  shows "unat (cc - receiving (ws ! i)) < n"
proof -
  have r: "receivers ws \<le> n" "receives (ws ! i) \<Longrightarrow> 0 < receivers ws"
    using assms by (auto simp: conn_ok_def receivers_def filter_empty_conv)
  moreover have "receivers ws < n" if "\<not> receives (ws ! i)"
  proof -
    have "length (filter receives ws) < length ws" by (rule length_filter_less [of "ws ! i"]) (use assms(2) that in auto)
    then show ?thesis using assms(1) by (simp add: conn_ok_def receivers_def)
  qed
  moreover have "(of_nat (receivers ws) :: u32) - receiving (ws ! i) = of_nat (receivers ws - of_bool (receives (ws ! i)))"
    using r(2) by (simp add: of_nat_diff Suc_leI)
  ultimately show ?thesis using assms(1,3) by (auto simp: conn_ok_def unat_of_nat take_bit_nat_eq_self)
qed

lemma moved_ok:
  assumes "conn_ok n (ws, cc)" and "i < length ws" and "moves n (ws ! i) cc w' cc'"
  shows "conn_ok n (ws[i := w'], cc')"
proof -
  have "of_nat (receivers (ws[i := w']) + of_bool (receives (ws ! i))) = (of_nat (receivers ws + of_bool (receives w')) :: u32)"
    by (simp only: receivers_update [OF assms(2)])
  then have "of_nat (receivers (ws[i := w'])) = of_nat (receivers ws) - receiving (ws ! i) + receiving w'"
    by (simp add: diff_add_eq eq_diff_eq)
  then have "cc' = of_nat (receivers (ws[i := w']))"
    using assms by (simp add: conn_ok_def moves_def)
  then show ?thesis
    using assms set_update_subset_insert [of ws i w'] by (auto simp: conn_ok_def moves_def)
qed

lemma conn_event_ok:
  assumes "conn_ok n s" and "n < 2 ^ 32 - 1"
  shows "conn_ok n (conn_event e s)"
proof -
  obtain ws cc where s: "s = (ws, cc)" by fastforce
  have w: "wrapper_ok n (ws ! i)" if "i < length ws" for i using assms(1) s that by (simp add: conn_ok_def)
  note o = receivers_others [OF assms(1) [unfolded s] _ assms(2)] and m = moved_ok [OF assms(1) [unfolded s]]
  show ?thesis
  proof (cases e)
    case (Connect i mode)
    then show ?thesis using connect_moves [OF w assms(2) o, of i "''ipc''" mode] m [of i] assms(1) s by (auto split: prod.splits)
  next
    case (Reconnect i mode)
    then show ?thesis using reconnect_moves [OF w assms(2) o, of i mode] m [of i] assms(1) s by (auto split: prod.splits)
  next
    case (Disconnect i)
    then show ?thesis using disconnect_moves [OF w assms(2), of i cc] m [of i] assms(1) s by (auto split: prod.splits)
  qed
qed

text \<open>
  C25. The count of receivers that senders consult is right as long as no ring has been full. In every
  sequence of connecting, reconnecting and disconnecting by up to \<open>2 ^ 32 - 2\<close> wrappers of a channel,
  the shared count is the number of wrappers that receive, and a wrapper that is connected receives
  exactly when its mode is that of a receiver.
\<close>

theorem receiver_count_right:
  assumes "n < 2 ^ 32 - 1" and "fold conn_event evs (replicate n wrapper_init, 0) = (ws, cc)"
  shows "unat cc = receivers ws \<and> (\<forall>w \<in> set ws. cw_connected w \<longrightarrow> receives w = cw_mode w)"
proof -
  have "conn_ok n (fold conn_event evs s)" if "conn_ok n s" for s
    using that by (induction evs arbitrary: s) (simp_all add: conn_event_ok [OF _ assms(1)])
  moreover have "conn_ok n (replicate n wrapper_init, 0)"
    by (simp add: conn_ok_def wrapper_ok_def wrapper_init_def receives_def receivers_def)
  ultimately have c: "conn_ok n (ws, cc)" using assms(2) by metis
  moreover have "receivers ws \<le> n" using c by (auto simp: conn_ok_def receivers_def)
  ultimately show ?thesis using assms(1) by (auto simp: conn_ok_def wrapper_ok_def unat_of_nat take_bit_nat_eq_self)
qed

theorem receiver_count_right_witness:
  "\<exists>ws cc. fold conn_event [Connect 0 True, Connect 1 False, Connect 2 True, Reconnect 0 False] (replicate 3 wrapper_init, 0) = (ws, cc)
     \<and> unat cc = receivers ws \<and> receivers ws = 1"
proof -
  let ?evs = "[Connect 0 True, Connect 1 False, Connect 2 True, Reconnect 0 False]"
  obtain ws cc where r: "fold conn_event ?evs (replicate 3 wrapper_init, 0) = (ws, cc)" by fastforce
  have "receivers (fst (fold conn_event ?evs (replicate 3 wrapper_init, 0))) = 1" by code_simp
  then show ?thesis using receiver_count_right [OF _ r] r by simp
qed

section \<open>A full ring\<close>

text \<open>
  C24. A receiver that is slow once is cut off for good. When the ring of a channel with one receiver
  stays full for the timeout of a send, the send fails and takes the receiver off the count, although
  it is connected. From then on every send fails at once, whatever the receiver takes out of the
  ring; reconnecting the receiver reports success and does not change the count; and when
  it disconnects, the count wraps around to \<open>2 ^ 32 - 1\<close> receivers.
\<close>

theorem full_ring_cuts_receiver:
  assumes "length (ic_queue ch) = 255" and "ic_cc ch = 1" and "d \<noteq> []"
    and "cw_handle w = Some q" and "qc_connected q = 1" and "cw_connected w" and "cw_mode w"
  shows "\<exists>ch' st'. chan_send os c d ch st = (False, ch', st') \<and> ic_queue ch' = ic_queue ch \<and> ic_cc ch' = 0
    \<and> (\<forall>d2 ms st2. chan_send os c d2 (ch'\<lparr>ic_queue := ms\<rparr>) st2 = (False, ch'\<lparr>ic_queue := ms\<rparr>, st2))
    \<and> wrapper_reconnect True w (ic_cc ch') = (True, w, 0) \<and> unat (snd (wrapper_disconnect w (ic_cc ch'))) = 2 ^ 32 - 1"
proof -
  obtain ms st' where p: "send_plan os 1 c (ic_acc ch) d st = (ms, st')" by fastforce
  have "0 < length d div 64" if "length d \<le> length d div 64 * 64" using that assms(3) by (cases "length d div 64") auto
  then have "fragments c (ic_acc ch) d \<noteq> []" by (auto simp: fragments_def Let_def data_length_def)
  then have "ms \<noteq> []"
    using p by (auto simp: send_plan_def split: if_splits prod.splits option.splits)
  then obtain m rest where "ms = m # rest" by (cases ms) auto
  then have "chan_send os c d ch st = (False, ch\<lparr>ic_acc := ic_acc ch + 1, ic_cc := 0\<rparr>, st')"
    using assms(1-3) p by (simp add: chan_send_def)
  then show ?thesis
    using assms(4-7)
    by (auto simp: chan_send_def wrapper_reconnect_def wrapper_disconnect_def impl_disconnect_def queue_disconnect_def conn_disconnect_def
      unsigned_minus_1_eq_mask mask_eq_exp_minus_1)
qed

theorem full_ring_cuts_receiver_witness:
  "\<exists>ch' st'. chan_send \<lparr>io_info = (\<lambda>cls. True), io_block = (\<lambda>cls b. True)\<rparr> 5 ''x''
       \<lparr>ic_queue = replicate 255 (make_msg 5 0 (- 63) (Bytes ''y'')), ic_cc = 1, ic_acc = 0\<rparr>
       \<lparr>is_pool = (\<lambda>cls. zero_pool), is_mem = (\<lambda>cls b. []), is_count = (\<lambda>cls b. 0)\<rparr> = (False, ch', st') \<and> ic_cc ch' = 0"
  using full_ring_cuts_receiver [of "\<lparr>ic_queue = replicate 255 (make_msg 5 0 (- 63) (Bytes ''y'')), ic_cc = 1, ic_acc = 0\<rparr>" "''x''"
      "\<lparr>cw_handle = Some \<lparr>qc_connected = 1, qc_sender = False\<rparr>, cw_mode = True, cw_connected = True\<rparr>"]
  by force

end
