(* ===== verification/Shm_Segments.thy ===== *)
theory Shm_Segments
  imports Ipc_Chan Object_Store
begin

text \<open>
  Named segments of shared memory, in which the objects of a node live:
  \<^verbatim>\<open>common/shm-ipc/src/libipc/platform/shm_linux.cpp\<close>. A segment is a file of shared memory whose last eight
  bytes count its mappings. The state is that of the operating system: files by number, and names of
  files. Removing a name leaves the file to those who have it mapped. The functions of the operating
  system succeed.
\<close>

section \<open>Files\<close>

record shm_fs =
  fs_names :: "(string, nat) table"
  fs_bytes :: "nat \<Rightarrow> string"
  fs_next :: nat

definition fs_init :: shm_fs where
  "fs_init = \<lparr>fs_names = [], fs_bytes = (\<lambda>i. []), fs_next = 0\<rparr>"

datatype shm_mode = OpenOrCreate | CreateNew | OpenOld

text \<open>\<open>id_info_t\<close>: the file, the size, the name, and whether the file is mapped.\<close>

record shm_id =
  si_file :: nat
  si_mapped :: bool
  si_size :: nat
  si_name :: string

definition calc_size :: "nat \<Rightarrow> nat" where
  "calc_size sz = ((sz - 1) div 8 + 1) * 8 + 8"

text \<open>\<open>acc_of\<close>: the count in the last eight bytes of the mapping.\<close>

definition count_of :: "nat \<Rightarrow> string \<Rightarrow> nat" where
  "count_of sz bytes = bytes_size (drop (sz - 8) bytes)"

definition set_count_of :: "nat \<Rightarrow> nat \<Rightarrow> string \<Rightarrow> string" where
  "set_count_of sz n bytes = take (sz - 8) bytes @ size_bytes n @ drop sz bytes"

definition op_name :: "string \<Rightarrow> string" where
  "op_name nm = ''__IPC_SHM__'' @ nm"

definition shm_id_acquire :: "string \<Rightarrow> nat \<Rightarrow> shm_mode \<Rightarrow> shm_fs \<Rightarrow> shm_id option \<times> shm_fs" where
  "shm_id_acquire nm sz mode fs =
     (if nm = [] then (None, fs)
      else let new_id = (\<lambda>i s. \<lparr>si_file = i, si_mapped = False, si_size = s, si_name = op_name nm\<rparr>);
               created = fs\<lparr>fs_names := tput (op_name nm) (fs_next fs) (fs_names fs), fs_bytes := (fs_bytes fs)(fs_next fs := []), fs_next := fs_next fs + 1\<rparr>
           in case map_of (fs_names fs) (op_name nm) of
                Some i \<Rightarrow>
                  (case mode of
                     OpenOld \<Rightarrow> (Some (new_id i 0), fs)
                   | CreateNew \<Rightarrow> (None, fs)
                   | OpenOrCreate \<Rightarrow> (Some (new_id i sz), fs))
              | None \<Rightarrow> if mode = OpenOld then (None, fs) else (Some (new_id (fs_next fs) sz), created))"

definition get_mem :: "shm_id option \<Rightarrow> shm_fs \<Rightarrow> bool \<times> shm_id option \<times> shm_fs" where
  "get_mem h0 fs =
     (case h0 of None \<Rightarrow> (False, None, fs)
      | Some h \<Rightarrow>
          if si_mapped h then (True, h0, fs)
          else let old = fs_bytes fs (si_file h); map_it = (\<lambda>s bytes.
                     (True, Some (h\<lparr>si_size := s, si_mapped := True\<rparr>),
                      fs\<lparr>fs_bytes := (fs_bytes fs)(si_file h := set_count_of s ((count_of s bytes + 1) mod 2 ^ 64) bytes)\<rparr>))
               in if si_size h = 0
                  then if length old \<le> 8 \<or> length old mod 8 \<noteq> 0 then (False, Some (h\<lparr>si_size := length old\<rparr>), fs)
                       else map_it (length old) old
                  else map_it (calc_size (si_size h)) (shm_resize (calc_size (si_size h)) old))"

text \<open>\<open>release\<close>: the last one that unmaps a file removes its name.\<close>

definition shm_id_release :: "shm_id option \<Rightarrow> shm_fs \<Rightarrow> shm_fs" where
  "shm_id_release h0 fs =
     (case h0 of None \<Rightarrow> fs
      | Some h \<Rightarrow>
          if \<not> si_mapped h \<or> si_size h = 0 then fs
          else let bytes = fs_bytes fs (si_file h); old = count_of (si_size h) bytes;
                   fs1 = fs\<lparr>fs_bytes := (fs_bytes fs)(si_file h := set_count_of (si_size h) ((old + (2 ^ 64 - 1)) mod 2 ^ 64) bytes)\<rparr>
               in if old = 1 \<and> si_name h \<noteq> [] then fs1\<lparr>fs_names := terase (si_name h) (fs_names fs1)\<rparr> else fs1)"

text \<open>\<open>remove\<close>: by handle and by name.\<close>

definition shm_id_remove :: "shm_id option \<Rightarrow> shm_fs \<Rightarrow> shm_fs" where
  "shm_id_remove h0 fs =
     (case h0 of None \<Rightarrow> fs
      | Some h \<Rightarrow> let fs1 = shm_id_release (Some (h\<lparr>si_name := []\<rparr>)) fs
                 in if si_name h \<noteq> [] then fs1\<lparr>fs_names := terase (si_name h) (fs_names fs1)\<rparr> else fs1)"

definition shm_remove_name :: "string \<Rightarrow> shm_fs \<Rightarrow> shm_fs" where
  "shm_remove_name nm fs = (if nm = [] then fs else fs\<lparr>fs_names := terase (op_name nm) (fs_names fs)\<rparr>)"

definition shm_map :: "string \<Rightarrow> nat \<Rightarrow> shm_mode \<Rightarrow> shm_fs \<Rightarrow> bool \<times> shm_id option \<times> shm_fs" where
  "shm_map nm sz mode fs = (let (h, fs1) = shm_id_acquire nm sz mode fs in get_mem h fs1)"

section \<open>Counts\<close>

lemma digits_sum: "sum_list (map (\<lambda>k. n div 256 ^ k mod 256 * 256 ^ k) [0..<m]) = (n :: nat) mod 256 ^ m"
proof (induction m)
  case (Suc m)
  have "n mod (256 ^ m * 256) = 256 ^ m * (n div 256 ^ m mod 256) + n mod 256 ^ m" by (rule mod_mult2_eq)
  then show ?case using Suc by (simp add: mult.commute)
qed simp

lemma length_size_bytes [simp]: "length (size_bytes n) = 8"
  by (simp add: size_bytes_def)

lemma bytes_size_bytes [simp]: "n < 2 ^ 64 \<Longrightarrow> bytes_size (size_bytes n @ rest) = n"
proof -
  assume n: "n < 2 ^ 64"
  have "bytes_size (size_bytes n @ rest) = sum_list (map (\<lambda>k. n div 256 ^ k mod 256 * 256 ^ k) [0..<8])"
    unfolding bytes_size_def size_bytes_def
    by (intro arg_cong [where f = sum_list] map_cong) (simp_all add: nth_append)
  also have "\<dots> = n" unfolding digits_sum using n by (simp add: mod_less)
  finally show ?thesis .
qed

lemma count_set_count:
  assumes "8 \<le> sz" and "length bytes = sz" and "n < 2 ^ 64"
  shows "count_of sz (set_count_of sz n bytes) = n" and "length (set_count_of sz n bytes) = sz"
    and "take (sz - 8) (set_count_of sz n bytes) = take (sz - 8) bytes"
  using assms bytes_size_bytes [of n "[]"] by (simp_all add: count_of_def set_count_of_def)

lemma calc_size_props: "0 < n \<Longrightarrow> n + 8 \<le> calc_size n" "8 < calc_size n" "calc_size n mod 8 = 0"
proof -
  show "0 < n \<Longrightarrow> n + 8 \<le> calc_size n"
    using div_mult_mod_eq [of "n - 1" 8] mod_less_divisor [of 8 "n - 1"] unfolding calc_size_def by simp
  show "8 < calc_size n" "calc_size n mod 8 = 0" by (simp_all add: calc_size_def)
qed

lemma calc_size_mono: "m \<le> n \<Longrightarrow> calc_size m \<le> calc_size n"
  by (auto simp: calc_size_def intro!: div_le_mono)

section \<open>Segments as a table\<close>

text \<open>The table of \<open>Exec_Lib\<close> describes the files: each entry is the beginning of the file of that name and size.\<close>

lemma op_name_inj [simp]: "op_name nm = op_name nm' \<longleftrightarrow> nm = nm'" "op_name nm \<noteq> []"
  by (simp_all add: op_name_def)

definition names_ok :: "shm_fs \<Rightarrow> bool" where
  "names_ok fs \<longleftrightarrow> (\<forall>nm i. map_of (fs_names fs) nm = Some i \<longrightarrow> i < fs_next fs)
     \<and> (\<forall>nm nm' i. map_of (fs_names fs) nm = Some i \<longrightarrow> map_of (fs_names fs) nm' = Some i \<longrightarrow> nm = nm')"

definition entry_ok :: "shm_fs \<Rightarrow> string \<Rightarrow> string option \<Rightarrow> bool" where
  "entry_ok fs nm d0 = (case d0 of
       None \<Rightarrow> map_of (fs_names fs) (op_name nm) = None
     | Some d \<Rightarrow> d \<noteq> [] \<and> (case map_of (fs_names fs) (op_name nm) of None \<Rightarrow> False
         | Some i \<Rightarrow> length (fs_bytes fs i) = calc_size (length d) \<and> take (length d) (fs_bytes fs i) = d))"

definition represents :: "shm_fs \<Rightarrow> shm \<Rightarrow> bool" where
  "represents fs m \<longleftrightarrow> names_ok fs \<and> (\<forall>nm. entry_ok fs nm (map_of m nm))"

lemma entry_ok_Some:
  "entry_ok fs nm (Some d) \<longleftrightarrow> d \<noteq> [] \<and> (\<exists>i. map_of (fs_names fs) (op_name nm) = Some i
     \<and> length (fs_bytes fs i) = calc_size (length d) \<and> take (length d) (fs_bytes fs i) = d)"
  by (auto simp: entry_ok_def split: option.splits)

text \<open>Rewriting the bytes of the file of one name, and creating a file.\<close>

lemma represents_bytes:
  assumes "represents fs m" and "map_of (fs_names fs) (op_name nm) = Some i" and "entry_ok (fs\<lparr>fs_bytes := (fs_bytes fs)(i := bytes)\<rparr>) nm (Some d)"
  shows "represents (fs\<lparr>fs_bytes := (fs_bytes fs)(i := bytes)\<rparr>) (tput nm d m)"
proof -
  have "entry_ok (fs\<lparr>fs_bytes := (fs_bytes fs)(i := bytes)\<rparr>) nm' (map_of m nm')" if "nm' \<noteq> nm" for nm'
  proof -
    have "map_of (fs_names fs) (op_name nm') \<noteq> Some i"
      using assms(1,2) that unfolding represents_def names_ok_def by (metis op_name_inj(1))
    moreover have "entry_ok fs nm' (map_of m nm')" using assms(1) by (simp add: represents_def)
    ultimately show ?thesis by (auto simp: entry_ok_def split: option.splits)
  qed
  then show ?thesis using assms(1,3) by (auto simp: represents_def names_ok_def update_conv')
qed

lemma represents_new:
  assumes "represents fs m" and "map_of m nm = None" and "d \<noteq> []" and "length bytes = calc_size (length d)" and "take (length d) bytes = d"
  shows "represents (fs\<lparr>fs_names := tput (op_name nm) (fs_next fs) (fs_names fs), fs_next := fs_next fs + 1,
      fs_bytes := (fs_bytes fs)(fs_next fs := bytes)\<rparr>) (tput nm d m)" (is "represents ?fs _")
proof -
  have lt: "map_of (fs_names fs) nm' = Some i \<Longrightarrow> i < fs_next fs" for nm' i using assms(1) by (simp add: represents_def names_ok_def)
  have "names_ok ?fs"
    using assms(1) unfolding represents_def names_ok_def by (auto simp: update_conv' less_Suc_eq split: if_splits dest: lt)
  moreover have "entry_ok ?fs nm' (map_of m nm')" if "nm' \<noteq> nm" for nm'
  proof -
    have "entry_ok fs nm' (map_of m nm')" using assms(1) by (simp add: represents_def)
    then show ?thesis using that lt [of "op_name nm'"] by (auto simp: entry_ok_def update_conv' split: option.splits)
  qed
  moreover have "entry_ok ?fs nm (Some d)" using assms by (simp add: entry_ok_Some update_conv')
  ultimately show ?thesis by (auto simp: represents_def update_conv')
qed

text \<open>A file that is mapped with another size keeps its bytes; those that come into reach are its old padding and count, then zeros.\<close>

definition grown :: "nat \<Rightarrow> string \<Rightarrow> string \<Rightarrow> string" where
  "grown n d file = take n d @ shm_resize (n - length d) (drop (length d) file)"

lemma take_shm_resize: "n \<le> k \<Longrightarrow> take n (shm_resize k d) = shm_resize n d"
  by (auto simp: shm_resize_def min_def)

lemma grown_resize: "take (length d) file = d \<Longrightarrow> grown n d file = shm_resize n file"
proof -
  assume d: "take (length d) file = d"
  then have "file = d @ drop (length d) file" by (metis append_take_drop_id)
  then obtain r where "file = d @ r" by blast
  then show ?thesis by (auto simp: grown_def shm_resize_def)
qed

lemma length_grown [simp]: "length (grown n d file) = n"
  by (simp add: grown_def)

lemma grown_within: "n \<le> length d \<Longrightarrow> grown n d file = shm_resize n d"
  by (simp add: grown_def shm_resize_def)

lemma represents_existing:
  assumes "represents fs m" and "map_of m nm = Some d" and "map_of (fs_names fs) (op_name nm) = Some i" and "0 < n"
  shows "represents (fs\<lparr>fs_bytes := (fs_bytes fs)(i := set_count_of (calc_size n) (c mod 2 ^ 64) (shm_resize (calc_size n) (fs_bytes fs i)))\<rparr>)
    (tput nm (grown n d (fs_bytes fs i)) m)"
proof (rule represents_bytes [OF assms(1,3)])
  let ?b = "shm_resize (calc_size n) (fs_bytes fs i)" and ?d = "grown n d (fs_bytes fs i)"
  have e: "take (length d) (fs_bytes fs i) = d"
    using assms(1-3) unfolding represents_def by (metis entry_ok_Some option.inject)
  have "n \<le> calc_size n - 8" "n \<le> calc_size n"
    using calc_size_props(1) [OF assms(4)] by simp_all
  then have "take n (set_count_of (calc_size n) (c mod 2 ^ 64) ?b) = ?d"
    by (simp add: set_count_of_def take_shm_resize grown_resize [OF e])
  moreover have "length (set_count_of (calc_size n) (c mod 2 ^ 64) ?b) = calc_size n"
    using count_set_count(2) [of "calc_size n" ?b "c mod 2 ^ 64"] calc_size_props(2) [of n] by simp
  moreover have "?d \<noteq> []" using assms(4) length_grown [of n d "fs_bytes fs i"] by (metis less_numeral_extra(3) list.size(3))
  ultimately show "entry_ok (fs\<lparr>fs_bytes := (fs_bytes fs)(i := set_count_of (calc_size n) (c mod 2 ^ 64) ?b)\<rparr>) nm (Some ?d)"
    using assms(3) by (simp add: entry_ok_Some)
qed

lemma represents_opened:
  assumes "represents fs m" and "map_of m nm = Some d" and "map_of (fs_names fs) (op_name nm) = Some i"
  shows "represents (fs\<lparr>fs_bytes := (fs_bytes fs)(i := set_count_of (length (fs_bytes fs i)) (c mod 2 ^ 64) (fs_bytes fs i))\<rparr>) m"
    and "8 < length (fs_bytes fs i)" and "length (fs_bytes fs i) mod 8 = 0"
    and "take (length d) (set_count_of (length (fs_bytes fs i)) (c mod 2 ^ 64) (fs_bytes fs i)) = d"
proof -
  have e: "d \<noteq> []" "length (fs_bytes fs i) = calc_size (length d)" "take (length d) (fs_bytes fs i) = d"
    using assms unfolding represents_def by (metis entry_ok_Some option.inject)+
  have "represents (fs\<lparr>fs_bytes := (fs_bytes fs)(i := set_count_of (calc_size (length d)) (c mod 2 ^ 64)
      (shm_resize (calc_size (length d)) (fs_bytes fs i)))\<rparr>) (tput nm d m)"
    using e(1) represents_existing [OF assms, of "length d" c] grown_within [of "length d" d] by simp
  moreover have "map_of (tput nm d m) x = map_of m x" for x using assms(2) by (simp add: update_conv')
  ultimately show "represents (fs\<lparr>fs_bytes := (fs_bytes fs)(i := set_count_of (length (fs_bytes fs i)) (c mod 2 ^ 64) (fs_bytes fs i))\<rparr>) m"
    using e(2) by (metis e(2) length_shm_resize(2) represents_def take_all_iff order_refl)
  have "0 < length d" using e(1) by simp
  then have "length d + 8 \<le> length (fs_bytes fs i)" using calc_size_props(1) [of "length d"] e(2) by simp
  then show "take (length d) (set_count_of (length (fs_bytes fs i)) (c mod 2 ^ 64) (fs_bytes fs i)) = d"
    using e(3) by (auto simp: set_count_of_def)
  show "8 < length (fs_bytes fs i)" using e(2) calc_size_props(2) by simp
  show "length (fs_bytes fs i) mod 8 = 0" using e(2) calc_size_props(3) by simp
qed

lemma represents_None: "represents fs m \<Longrightarrow> map_of m nm = None \<longleftrightarrow> map_of (fs_names fs) (op_name nm) = None"
  unfolding represents_def by (cases "map_of m nm") (auto simp: entry_ok_Some entry_ok_def dest: spec [of _ nm] split: option.splits)

text \<open>A segment of this name and size is found or made.\<close>

lemma map_refines:
  assumes "represents fs m" and "nm \<noteq> []" and "0 < n"
  shows "\<exists>h fs'. shm_map nm n OpenOrCreate fs = (True, Some h, fs') \<and> represents fs' (tput nm
    (case map_of m nm of None \<Rightarrow> replicate n (CHR 0x00) | Some d \<Rightarrow> grown n d (fs_bytes fs (si_file h))) m)"
proof (cases "map_of m nm")
  case None
  let ?b = "set_count_of (calc_size n) ((count_of (calc_size n) (shm_resize (calc_size n) []) + 1) mod 2 ^ 64) (shm_resize (calc_size n) [])"
  have n: "n \<le> calc_size n - 8" "8 \<le> calc_size n" using calc_size_props(1) [OF assms(3)] calc_size_props(2) [of n] by simp_all
  have "length ?b = calc_size n" by (rule count_set_count(2)) (use n in simp_all)
  moreover have "take n ?b = replicate n (CHR 0x00)" using n by (simp add: set_count_of_def shm_resize_def)
  ultimately have "represents (fs\<lparr>fs_names := tput (op_name nm) (fs_next fs) (fs_names fs), fs_next := fs_next fs + 1,
      fs_bytes := (fs_bytes fs)(fs_next fs := ?b)\<rparr>) (tput nm (replicate n (CHR 0x00)) m)"
    using assms(3) by (intro represents_new [OF assms(1) None]) simp_all
  then show ?thesis using assms(2,3) None represents_None [OF assms(1), of nm]
    by (simp add: shm_map_def shm_id_acquire_def get_mem_def Let_def)
next
  case (Some d)
  then obtain i where i: "map_of (fs_names fs) (op_name nm) = Some i" using represents_None [OF assms(1), of nm] by auto
  show ?thesis using represents_existing [OF assms(1) Some i assms(3)] assms(2,3) Some i
    by (simp add: shm_map_def shm_id_acquire_def get_mem_def Let_def)
qed

lemma open_refines:
  assumes "represents fs m" and "nm \<noteq> []"
  shows "case shm_open nm m of
      None \<Rightarrow> shm_map nm k OpenOld fs = (False, None, fs)
    | Some d \<Rightarrow> \<exists>h fs'. shm_map nm k OpenOld fs = (True, Some h, fs') \<and> take (length d) (fs_bytes fs' (si_file h)) = d \<and> represents fs' m"
proof (cases "map_of m nm")
  case None
  then show ?thesis using assms represents_None [OF assms(1), of nm]
    by (simp add: shm_open_def shm_map_def shm_id_acquire_def get_mem_def)
next
  case (Some d)
  then obtain i where i: "map_of (fs_names fs) (op_name nm) = Some i" using represents_None [OF assms(1), of nm] by auto
  show ?thesis using represents_opened [OF assms(1) Some i] assms(2) Some i
    by (auto simp: shm_open_def shm_map_def shm_id_acquire_def get_mem_def Let_def simp flip: not_less)
qed

text \<open>
  C15. What the objects of a node see of the segments is a table. Where the files represent a table,
  acquiring a segment of any positive size gives a mapping and leaves files that represent the table with
  this entry changed: for a new name it is filled with zeros, for an old one it has the new size and begins
  with the bytes it had. Unless an existing segment is enlarged this is the table that \<open>shm_acquire\<close> gives; an
  enlarged one has gained the padding and the count of its file, and zeros only after them. Opening an old
  name gives a mapping that starts with the bytes of the entry and leaves the table unchanged, and opening
  a name the table lacks gives the null pointer.
\<close>

theorem segments_refine_table:
  assumes "represents fs m" and "nm \<noteq> []" and "0 < n"
  shows "(\<exists>h fs' d'. shm_map nm n OpenOrCreate fs = (True, Some h, fs') \<and> represents fs' (tput nm d' m)
        \<and> (case map_of m nm of
             None \<Rightarrow> tput nm d' m = shm_acquire nm n m
           | Some d \<Rightarrow> if n \<le> length d then tput nm d' m = shm_acquire nm n m
                       else d' = d @ shm_resize (n - length d) (drop (length d) (fs_bytes fs (si_file h)))))
    \<and> (case shm_open nm m of
         None \<Rightarrow> shm_map nm n OpenOld fs = (False, None, fs)
       | Some d \<Rightarrow> \<exists>h fs'. shm_map nm n OpenOld fs = (True, Some h, fs')
           \<and> take (length d) (fs_bytes fs' (si_file h)) = d \<and> represents fs' m)"
proof -
  obtain h fs' where m: "shm_map nm n OpenOrCreate fs = (True, Some h, fs')" and r: "represents fs' (tput nm
      (case map_of m nm of None \<Rightarrow> replicate n (CHR 0x00) | Some d \<Rightarrow> grown n d (fs_bytes fs (si_file h))) m)" (is "represents _ (tput _ ?d _)")
    using map_refines [OF assms] by blast
  have "case map_of m nm of
        None \<Rightarrow> tput nm ?d m = shm_acquire nm n m
      | Some d \<Rightarrow> if n \<le> length d then tput nm ?d m = shm_acquire nm n m
                  else ?d = d @ shm_resize (n - length d) (drop (length d) (fs_bytes fs (si_file h)))"
    using assms(3) grown_within by (cases "map_of m nm") (auto simp: shm_acquire_def grown_def [of n _ "fs_bytes fs (si_file h)"] shm_resize_def)
  then show ?thesis using m r open_refines [OF assms(1,2), of n] by blast
qed

lemma represents_init: "represents fs_init []"
  by (simp add: represents_def names_ok_def fs_init_def entry_ok_def)

text \<open>A segment of five bytes is made, and then made smaller or larger.\<close>

theorem segments_refine_table_witness:
  "\<exists>h fs1. shm_map ''b'' 5 OpenOrCreate fs_init = (True, Some h, fs1) \<and> represents fs1 (shm_acquire ''b'' 5 [])
     \<and> (\<exists>h2 fs2. shm_map ''b'' 3 OpenOrCreate fs1 = (True, Some h2, fs2) \<and> represents fs2 (shm_acquire ''b'' 3 (shm_acquire ''b'' 5 [])))
     \<and> (\<exists>h3 fs3 d. shm_map ''b'' 20 OpenOrCreate fs1 = (True, Some h3, fs3) \<and> represents fs3 (tput ''b'' d (shm_acquire ''b'' 5 []))
          \<and> length d = 20 \<and> take 5 d = replicate 5 (CHR 0x00))"
proof -
  let ?m = "shm_acquire ''b'' 5 []"
  obtain h fs1 where f: "shm_map ''b'' 5 OpenOrCreate fs_init = (True, Some h, fs1)" "represents fs1 ?m"
    using segments_refine_table [OF represents_init, of "''b''" 5] by auto
  have m: "map_of ?m ''b'' = Some (replicate 5 (CHR 0x00))" by (simp add: shm_acquire_def)
  obtain h2 fs2 where s: "shm_map ''b'' 3 OpenOrCreate fs1 = (True, Some h2, fs2)" "represents fs2 (shm_acquire ''b'' 3 ?m)"
    using segments_refine_table [OF f(2), of "''b''" 3] by (auto simp: m)
  obtain h3 fs3 d where "shm_map ''b'' 20 OpenOrCreate fs1 = (True, Some h3, fs3)" "represents fs3 (tput ''b'' d ?m)"
      "d = replicate 5 (CHR 0x00) @ shm_resize 15 (drop 5 (fs_bytes fs1 (si_file h3)))"
    using segments_refine_table [OF f(2), of "''b''" 20] by (auto simp: m)
  moreover from this(3) have "length d = 20" "take 5 d = replicate 5 (CHR 0x00)" by simp_all
  ultimately show ?thesis using f s by blast
qed

end
