(* ===== verification/Shm_Handles.thy ===== *)
theory Shm_Handles
  imports Shm_Segments
begin

text \<open>
  The handles on segments, \<^verbatim>\<open>common/shm-ipc/src/shm.cpp\<close>, and how long a segment lives while several
  processes acquire and release it.
\<close>

section \<open>Handles\<close>

text \<open>\<open>handle_\<close>: \<open>id_\<close>, whether \<open>m_\<close> is not null, \<open>n_\<close> and \<open>s_\<close>.\<close>

record shm_handle =
  hd_id :: "shm_id option"
  hd_mem :: bool
  hd_name :: string
  hd_size :: nat

definition handle_new :: shm_handle where
  "handle_new = \<lparr>hd_id = None, hd_mem = False, hd_name = [], hd_size = 0\<rparr>"

definition handle_detach :: "shm_handle \<Rightarrow> shm_id option \<times> shm_handle" where
  "handle_detach h = (hd_id h, h\<lparr>hd_id := None, hd_mem := False, hd_size := 0, hd_name := []\<rparr>)"

definition handle_release :: "shm_handle \<Rightarrow> shm_fs \<Rightarrow> shm_handle \<times> shm_fs" where
  "handle_release h fs =
     (if hd_id h = None then (h, fs)
      else let (old, h') = handle_detach h in (h', shm_id_release old fs))"

text \<open>\<open>get_mem\<close> writes the size only where it returns a mapping.\<close>

definition handle_map :: "shm_id option \<Rightarrow> shm_handle \<Rightarrow> shm_fs \<Rightarrow> shm_handle \<times> shm_fs" where
  "handle_map i h fs =
     (let (ok, i', fs') = get_mem i fs
      in (h\<lparr>hd_id := i', hd_mem := ok, hd_size := (if ok then (case i' of Some j \<Rightarrow> si_size j | None \<Rightarrow> hd_size h) else hd_size h)\<rparr>, fs'))"

definition handle_acquire :: "string \<Rightarrow> nat \<Rightarrow> shm_mode \<Rightarrow> shm_handle \<Rightarrow> shm_fs \<Rightarrow> bool \<times> shm_handle \<times> shm_fs" where
  "handle_acquire nm n mode h fs =
     (let (h1, fs1) = handle_release h fs; (i, fs2) = shm_id_acquire nm n mode fs1;
          (h2, fs3) = handle_map i (h1\<lparr>hd_name := nm\<rparr>) fs2
      in (hd_mem h2, h2, fs3))"

definition handle_attach :: "shm_id option \<Rightarrow> shm_handle \<Rightarrow> shm_fs \<Rightarrow> shm_handle \<times> shm_fs" where
  "handle_attach i h fs = (if i = None then (h, fs) else let (h1, fs1) = handle_release h fs in handle_map i h1 fs1)"

section \<open>Runs\<close>

text \<open>
  The handles of all processes, and what the processes do with them: acquire with the size of the name,
  release, and write at the beginning of the data.
\<close>

datatype seg_event = SegAcquire nat string shm_mode | SegRelease nat | SegWrite nat string

fun seg_step :: "(string \<Rightarrow> nat) \<Rightarrow> seg_event \<Rightarrow> shm_fs \<times> shm_handle list \<Rightarrow> shm_fs \<times> shm_handle list" where
  "seg_step sz (SegAcquire k nm mode) (fs, hs) =
     (if k < length hs then let (ok, h, fs') = handle_acquire nm (sz nm) mode (hs ! k) fs in (fs', hs[k := h]) else (fs, hs))"
| "seg_step sz (SegRelease k) (fs, hs) =
     (if k < length hs then let (h, fs') = handle_release (hs ! k) fs in (fs', hs[k := h]) else (fs, hs))"
| "seg_step sz (SegWrite k d) (fs, hs) =
     (if k < length hs then
        (case hd_id (hs ! k) of
           Some i \<Rightarrow> if length d + 8 \<le> si_size i
                     then (fs\<lparr>fs_bytes := (fs_bytes fs)(si_file i := d @ drop (length d) (fs_bytes fs (si_file i)))\<rparr>, hs)
                     else (fs, hs)
         | None \<Rightarrow> (fs, hs))
      else (fs, hs))"

definition seg_run :: "(string \<Rightarrow> nat) \<Rightarrow> nat \<Rightarrow> seg_event list \<Rightarrow> shm_fs \<times> shm_handle list" where
  "seg_run sz n evs = foldl (\<lambda>s e. seg_step sz e s) (fs_init, replicate n handle_new) evs"

definition handle_on :: "string \<Rightarrow> shm_handle \<Rightarrow> bool" where
  "handle_on nm h = (case hd_id h of Some i \<Rightarrow> si_name i = op_name nm | None \<Rightarrow> False)"

section \<open>The invariant of a run\<close>

definition handle_ok :: "(string \<Rightarrow> nat) \<Rightarrow> shm_fs \<Rightarrow> shm_handle \<Rightarrow> bool" where
  "handle_ok sz fs h \<longleftrightarrow> (\<forall>i. hd_id h = Some i \<longrightarrow> si_mapped i
     \<and> (\<exists>nm. si_name i = op_name nm \<and> si_size i = calc_size (sz nm) \<and> map_of (fs_names fs) (op_name nm) = Some (si_file i)))"

definition file_ok :: "(string \<Rightarrow> nat) \<Rightarrow> shm_fs \<Rightarrow> string \<Rightarrow> nat \<Rightarrow> bool" where
  "file_ok sz fs nm c \<longleftrightarrow> (\<forall>i. map_of (fs_names fs) (op_name nm) = Some i \<longrightarrow>
     0 < c \<and> length (fs_bytes fs i) = calc_size (sz nm) \<and> count_of (calc_size (sz nm)) (fs_bytes fs i) = c)"

definition on_count :: "string \<Rightarrow> shm_handle list \<Rightarrow> nat" where
  "on_count nm hs = length (filter (handle_on nm) hs)"

definition seg_ok :: "(string \<Rightarrow> nat) \<Rightarrow> shm_fs \<times> shm_handle list \<Rightarrow> bool" where
  "seg_ok sz s \<longleftrightarrow> names_ok (fst s) \<and> (\<forall>h \<in> set (snd s). handle_ok sz (fst s) h) \<and> (\<forall>nm. file_ok sz (fst s) nm (on_count nm (snd s)))"

lemma on_count_split: "on_count nm (xs @ h # ys) = on_count nm xs + of_bool (handle_on nm h) + on_count nm ys"
  by (simp add: on_count_def)

lemma on_count_update:
  assumes "k < length hs"
  shows "on_count nm (hs[k := h]) + of_bool (handle_on nm (hs ! k)) = on_count nm hs + of_bool (handle_on nm h)"
proof -
  have "hs = take k hs @ hs ! k # drop (Suc k) hs" using assms by (rule id_take_nth_drop)
  moreover have "hs[k := h] = take k hs @ h # drop (Suc k) hs" using assms by (rule upd_conv_take_nth_drop)
  ultimately have "on_count nm hs = on_count nm (take k hs) + of_bool (handle_on nm (hs ! k)) + on_count nm (drop (Suc k) hs)"
    "on_count nm (hs[k := h]) = on_count nm (take k hs) + of_bool (handle_on nm h) + on_count nm (drop (Suc k) hs)"
    by (metis on_count_split)+
  then show ?thesis by simp
qed

lemma on_count_le: "on_count nm hs \<le> length hs"
  by (simp add: on_count_def)

lemma on_count_pos: "k < length hs \<Longrightarrow> handle_on nm (hs ! k) \<Longrightarrow> 0 < on_count nm hs"
  unfolding on_count_def by (metis filter_empty_conv length_greater_0_conv nth_mem)

text \<open>Rewriting the file of one name keeps what is known of the others.\<close>

lemma names_distinct: "names_ok fs \<Longrightarrow> map_of (fs_names fs) (op_name nm) = Some i \<Longrightarrow> map_of (fs_names fs) (op_name nm') = Some i \<Longrightarrow> nm' = nm"
  unfolding names_ok_def by (metis op_name_inj(1))

lemma file_ok_other:
  assumes "names_ok fs" and "file_ok sz fs nm' c" and "map_of (fs_names fs) (op_name nm) = Some i" and "nm' \<noteq> nm"
  shows "file_ok sz (fs\<lparr>fs_bytes := (fs_bytes fs)(i := b)\<rparr>) nm' c"
  using assms names_distinct [OF assms(1,3), of nm'] by (auto simp: file_ok_def)

lemma seg_ok_bytes:
  assumes ok: "seg_ok sz (fs, hs)" and nm: "map_of (fs_names fs) (op_name nm) = Some i"
    and hs': "set hs' \<subseteq> insert h (set hs)" "handle_ok sz fs h" "\<And>nm'. nm' \<noteq> nm \<Longrightarrow> on_count nm' hs' = on_count nm' hs"
    and b: "0 < on_count nm hs'" "length b = calc_size (sz nm)" "count_of (calc_size (sz nm)) b = on_count nm hs'"
  shows "seg_ok sz (fs\<lparr>fs_bytes := (fs_bytes fs)(i := b)\<rparr>, hs')"
proof -
  have "file_ok sz (fs\<lparr>fs_bytes := (fs_bytes fs)(i := b)\<rparr>) nm' (on_count nm' hs')" for nm'
    using ok nm hs'(3) [of nm'] b file_ok_other [of fs sz nm' "on_count nm' hs" nm i b]
    by (cases "nm' = nm") (auto simp: seg_ok_def file_ok_def)
  moreover have "\<forall>x \<in> set hs'. handle_ok sz fs x" using ok hs'(1,2) by (auto simp: seg_ok_def)
  ultimately show ?thesis using ok by (auto simp: seg_ok_def names_ok_def handle_ok_def)
qed

lemma handle_on_other: "hd_id h = Some i \<Longrightarrow> si_name i = op_name nm \<Longrightarrow> handle_on nm' h \<longleftrightarrow> nm' = nm"
  by (auto simp: handle_on_def)

lemma handle_on_None: "hd_id h = None \<Longrightarrow> \<not> handle_on nm h"
  by (simp add: handle_on_def)

lemma seg_ok_erase:
  assumes ok: "seg_ok sz (fs, hs)" and nm: "map_of (fs_names fs) (op_name nm) = Some i"
    and hs': "\<forall>x \<in> set hs'. hd_id x = None \<or> x \<in> set hs" "\<And>nm'. nm' \<noteq> nm \<Longrightarrow> on_count nm' hs' = on_count nm' hs" "on_count nm hs' = 0"
  shows "seg_ok sz (fs\<lparr>fs_bytes := (fs_bytes fs)(i := b), fs_names := terase (op_name nm) (fs_names fs)\<rparr>, hs')" (is "seg_ok sz (?fs, hs')")
proof -
  have names: "map_of (fs_names ?fs) x = (if x = op_name nm then None else map_of (fs_names fs) x)" for x
    by simp
  have "file_ok sz ?fs nm' (on_count nm' hs')" for nm'
  proof (cases "nm' = nm")
    case False
    have "names_ok fs" "file_ok sz fs nm' (on_count nm' hs')" using ok hs'(2) [OF False] by (simp_all add: seg_ok_def)
    then show ?thesis using False names_distinct [OF _ nm, of nm'] by (auto simp: file_ok_def)
  qed (simp add: file_ok_def)
  moreover have "handle_ok sz ?fs x" if "x \<in> set hs'" for x
  proof (cases "hd_id x")
    case (Some j)
    then have x: "handle_ok sz fs x" using hs'(1) that ok by (auto simp: seg_ok_def)
    have "\<not> handle_on nm x" using hs'(3) that by (auto simp: on_count_def filter_empty_conv)
    then have "si_name j \<noteq> op_name nm" using Some by (simp add: handle_on_def)
    then show ?thesis using x Some names by (auto simp: handle_ok_def)
  qed (simp add: handle_ok_def)
  moreover have "names_ok ?fs" using ok names unfolding seg_ok_def names_ok_def by (auto split: if_splits)
  ultimately show ?thesis by (simp add: seg_ok_def)
qed

lemma handle_release_ok:
  assumes ok: "seg_ok sz (fs, hs)" and k: "k < length hs" and n: "length hs < 2 ^ 64" and r: "handle_release (hs ! k) fs = (h', fs')"
  shows "seg_ok sz (fs', hs[k := h']) \<and> hd_id h' = None"
proof (cases "hd_id (hs ! k)")
  case None
  then have "h' = hs ! k" "fs' = fs" using r by (simp_all add: handle_release_def)
  then show ?thesis using ok None by simp
next
  case (Some i)
  have "handle_ok sz fs (hs ! k)" using ok k by (simp add: seg_ok_def)
  then obtain nm where i: "si_mapped i" "si_name i = op_name nm" "si_size i = calc_size (sz nm)" "map_of (fs_names fs) (op_name nm) = Some (si_file i)"
    using Some by (auto simp: handle_ok_def)
  have "file_ok sz fs nm (on_count nm hs)" using ok by (simp add: seg_ok_def)
  then have f: "0 < on_count nm hs" "length (fs_bytes fs (si_file i)) = calc_size (sz nm)" "count_of (calc_size (sz nm)) (fs_bytes fs (si_file i)) = on_count nm hs"
    using i(4) by (auto simp: file_ok_def)
  have h': "hd_id h' = None" using r Some by (auto simp: handle_release_def handle_detach_def)
  have c: "on_count nm' (hs[k := h']) + of_bool (nm' = nm) = on_count nm' hs" for nm'
    using on_count_update [OF k, of nm' h'] handle_on_other [OF Some i(2), of nm'] handle_on_None [OF h', of nm'] by simp
  define b where "b = set_count_of (calc_size (sz nm)) ((on_count nm hs + (2 ^ 64 - 1)) mod 2 ^ 64) (fs_bytes fs (si_file i))"
  have "(on_count nm hs + (2 ^ 64 - 1)) mod 2 ^ 64 = on_count nm (hs[k := h'])"
  proof -
    have "on_count nm hs + (2 ^ 64 - 1) = on_count nm (hs[k := h']) + 2 ^ 64" using c [of nm] by simp
    moreover have "on_count nm (hs[k := h']) < 2 ^ 64" using on_count_le [of nm "hs[k := h']"] n by simp
    ultimately show ?thesis by simp
  qed
  then have b: "length b = calc_size (sz nm)" "count_of (calc_size (sz nm)) b = on_count nm (hs[k := h'])"
    using count_set_count(1,2) [OF _ f(2), of "on_count nm (hs[k := h'])"] calc_size_props(2) [of "sz nm"] on_count_le [of nm "hs[k := h']"] n
    unfolding b_def by simp_all
  have fs': "fs' = (if on_count nm hs = 1 then fs\<lparr>fs_bytes := (fs_bytes fs)(si_file i := b), fs_names := terase (op_name nm) (fs_names fs)\<rparr>
      else fs\<lparr>fs_bytes := (fs_bytes fs)(si_file i := b)\<rparr>)"
    using r Some i calc_size_props(2) [of "sz nm"] f(3) by (auto simp: handle_release_def handle_detach_def shm_id_release_def Let_def b_def)
  have others: "nm' \<noteq> nm \<Longrightarrow> on_count nm' (hs[k := h']) = on_count nm' hs" for nm' using c [of nm'] by simp
  have sub: "set (hs[k := h']) \<subseteq> insert h' (set hs)" by (rule set_update_subset_insert)
  have "seg_ok sz (fs', hs[k := h'])"
  proof (cases "on_count nm hs = 1")
    case True
    then show ?thesis unfolding fs' using seg_ok_erase [OF ok i(4) _ others, where b = b] sub h' c [of nm] by auto
  next
    case False
    then show ?thesis unfolding fs' using seg_ok_bytes [OF ok i(4) sub _ others] b h' c [of nm] f(1) by (simp add: handle_ok_def)
  qed
  then show ?thesis using h' by simp
qed

text \<open>Acquiring: no mapping, a mapping of an existing file, a mapping of a new one.\<close>

lemma count_new: "count_of (calc_size n) (shm_resize (calc_size n) []) = 0"
proof -
  have "shm_resize (calc_size n) [] = replicate (calc_size n - 8) (CHR 0x00) @ replicate 8 (CHR 0x00)"
    using calc_size_props(2) [of n] by (simp add: shm_resize_def flip: replicate_add)
  then show ?thesis by (simp add: count_of_def bytes_size_def)
qed

lemma idle_ok:
  assumes ok: "seg_ok sz (fs, hs)" and k: "k < length hs" and "hd_id (hs ! k) = None" and "hd_id h = None"
  shows "seg_ok sz (fs, hs[k := h])"
proof -
  have "on_count nm (hs[k := h]) = on_count nm hs" for nm
    using on_count_update [OF k, of nm h] assms(3,4) by (simp add: handle_on_None)
  moreover have "\<forall>x \<in> set (hs[k := h]). handle_ok sz fs x"
    using ok set_update_subset_insert [of hs k h] assms(4) by (auto simp: seg_ok_def handle_ok_def)
  ultimately show ?thesis using ok by (simp add: seg_ok_def)
qed

lemma mapped_old_ok:
  assumes ok: "seg_ok sz (fs, hs)" and k: "k < length hs" and n: "length hs < 2 ^ 64" and idle: "hd_id (hs ! k) = None"
    and i: "map_of (fs_names fs) (op_name nm) = Some i"
    and h: "hd_id h = Some \<lparr>si_file = i, si_mapped = True, si_size = calc_size (sz nm), si_name = op_name nm\<rparr>"
  shows "seg_ok sz (fs\<lparr>fs_bytes := (fs_bytes fs)(i := set_count_of (calc_size (sz nm))
      ((count_of (calc_size (sz nm)) (fs_bytes fs i) + 1) mod 2 ^ 64) (fs_bytes fs i))\<rparr>, hs[k := h])"
proof -
  have f: "length (fs_bytes fs i) = calc_size (sz nm)" "count_of (calc_size (sz nm)) (fs_bytes fs i) = on_count nm hs"
    using ok i by (simp_all add: seg_ok_def file_ok_def)
  have on: "handle_on nm' h \<longleftrightarrow> nm' = nm" for nm' using handle_on_other [OF h] by simp
  have c: "on_count nm' (hs[k := h]) = on_count nm' hs + of_bool (nm' = nm)" for nm'
    using on_count_update [OF k, of nm' h] idle by (simp add: handle_on_None on)
  have "on_count nm hs + 1 < 2 ^ 64" using on_count_le [of nm "hs[k := h]"] n c [of nm] by simp
  then have m: "(on_count nm hs + 1) mod 2 ^ 64 = on_count nm (hs[k := h])" "on_count nm (hs[k := h]) < 2 ^ 64" using c [of nm] by simp_all
  show ?thesis
  proof (rule seg_ok_bytes [OF ok i set_update_subset_insert])
    show "handle_ok sz fs h" using h i by (auto simp: handle_ok_def)
    show "nm' \<noteq> nm \<Longrightarrow> on_count nm' (hs[k := h]) = on_count nm' hs" for nm' using c [of nm'] by simp
    show "0 < on_count nm (hs[k := h])" using c [of nm] by simp
  qed (use count_set_count(1,2) [OF _ f(1) m(2)] calc_size_props(2) [of "sz nm"] m(1) f(2) in simp_all)
qed

lemma mapped_new_ok:
  assumes ok: "seg_ok sz (fs, hs)" and k: "k < length hs" and idle: "hd_id (hs ! k) = None"
    and i: "map_of (fs_names fs) (op_name nm) = None"
    and h: "hd_id h = Some \<lparr>si_file = fs_next fs, si_mapped = True, si_size = calc_size (sz nm), si_name = op_name nm\<rparr>"
    and b: "length b = calc_size (sz nm)" "count_of (calc_size (sz nm)) b = 1"
  shows "seg_ok sz (fs\<lparr>fs_names := tput (op_name nm) (fs_next fs) (fs_names fs), fs_next := fs_next fs + 1,
      fs_bytes := (fs_bytes fs)(fs_next fs := b)\<rparr>, hs[k := h])" (is "seg_ok sz (?fs, _)")
proof -
  have lt: "map_of (fs_names fs) x = Some j \<Longrightarrow> j < fs_next fs" for x j using ok by (simp add: seg_ok_def names_ok_def)
  have on: "handle_on nm' h \<longleftrightarrow> nm' = nm" for nm' using handle_on_other [OF h] by simp
  have c: "on_count nm' (hs[k := h]) = on_count nm' hs + of_bool (nm' = nm)" for nm'
    using on_count_update [OF k, of nm' h] idle by (simp add: handle_on_None on)
  have hok: "handle_ok sz ?fs x" if "x \<in> set hs" for x
    using ok that i by (fastforce simp: seg_ok_def handle_ok_def)
  have none: "on_count nm hs = 0"
  proof -
    have "\<not> handle_on nm x" if "x \<in> set hs" for x
      using ok that i by (auto simp: seg_ok_def handle_ok_def handle_on_def split: option.splits)
    then show ?thesis by (simp add: on_count_def filter_empty_conv)
  qed
  have "names_ok ?fs" using ok unfolding seg_ok_def names_ok_def by (auto simp: less_Suc_eq split: if_splits dest: lt)
  moreover have "handle_ok sz ?fs h" using h by (simp add: handle_ok_def)
  then have "\<forall>x \<in> set (hs[k := h]). handle_ok sz ?fs x" using hok set_update_subset_insert [of hs k h] by blast
  moreover have "file_ok sz ?fs nm' (on_count nm' (hs[k := h]))" for nm'
  proof (cases "nm' = nm")
    case False
    then show ?thesis using ok c [of nm'] lt [of "op_name nm'"] by (auto simp: seg_ok_def file_ok_def)
  qed (use b c none in \<open>simp add: file_ok_def\<close>)
  ultimately show ?thesis by (simp add: seg_ok_def)
qed

lemma acquire_idle_ok:
  assumes ok: "seg_ok sz (fs, hs)" and k: "k < length hs" and n: "length hs < 2 ^ 64" and idle: "hd_id (hs ! k) = None" and pos: "0 < sz nm"
    and r: "shm_id_acquire nm (sz nm) mode fs = (i0, fs1)" "handle_map i0 h fs1 = (h', fs')"
  shows "seg_ok sz (fs', hs[k := h'])"
proof (cases i0)
  case None
  then have "fs1 = fs" using r(1) by (auto simp: shm_id_acquire_def Let_def split: if_splits option.splits shm_mode.splits)
  then show ?thesis using None r(2) idle_ok [OF ok k idle, of h'] by (auto simp: handle_map_def get_mem_def)
next
  case (Some i)
  show ?thesis
  proof (cases "map_of (fs_names fs) (op_name nm)")
    case None
    let ?b = "shm_resize (calc_size (sz nm)) []"
    let ?b' = "set_count_of (calc_size (sz nm)) 1 ?b"
    have i: "i = \<lparr>si_file = fs_next fs, si_mapped = False, si_size = sz nm, si_name = op_name nm\<rparr>"
      and fs1: "fs1 = fs\<lparr>fs_names := tput (op_name nm) (fs_next fs) (fs_names fs), fs_bytes := (fs_bytes fs)(fs_next fs := []), fs_next := fs_next fs + 1\<rparr>"
      using r(1) None Some by (auto simp: shm_id_acquire_def Let_def split: if_splits)
    have h': "hd_id h' = Some \<lparr>si_file = fs_next fs, si_mapped = True, si_size = calc_size (sz nm), si_name = op_name nm\<rparr>"
      and fs': "fs' = fs\<lparr>fs_names := tput (op_name nm) (fs_next fs) (fs_names fs), fs_next := fs_next fs + 1, fs_bytes := (fs_bytes fs)(fs_next fs := ?b')\<rparr>"
      using r(2) pos unfolding Some i fs1 by (auto simp: handle_map_def get_mem_def count_new)
    have "length ?b' = calc_size (sz nm)" "count_of (calc_size (sz nm)) ?b' = 1"
      using count_set_count(1,2) [of "calc_size (sz nm)" ?b 1] calc_size_props(2) [of "sz nm"] by simp_all
    then show ?thesis unfolding fs' by (rule mapped_new_ok [OF ok k idle None h'])
  next
    case (Some j)
    have len: "length (fs_bytes fs j) = calc_size (sz nm)" using ok Some by (simp add: seg_ok_def file_ok_def)
    have i: "i = \<lparr>si_file = j, si_mapped = False, si_size = (if mode = OpenOld then 0 else sz nm), si_name = op_name nm\<rparr>" and fs1: "fs1 = fs"
      using r(1) \<open>i0 = Some i\<close> Some by (auto simp: shm_id_acquire_def Let_def split: if_splits shm_mode.splits)
    have h': "hd_id h' = Some \<lparr>si_file = j, si_mapped = True, si_size = calc_size (sz nm), si_name = op_name nm\<rparr>"
      and fs': "fs' = fs\<lparr>fs_bytes := (fs_bytes fs)(j := set_count_of (calc_size (sz nm)) ((count_of (calc_size (sz nm)) (fs_bytes fs j) + 1) mod 2 ^ 64) (fs_bytes fs j))\<rparr>"
      using r(2) pos len calc_size_props(2,3) [of "sz nm"] length_shm_resize(2) [of "fs_bytes fs j"] unfolding \<open>i0 = Some i\<close> i fs1
      by (auto simp: handle_map_def get_mem_def Let_def split: if_splits)
    show ?thesis unfolding fs' by (rule mapped_old_ok [where h = h', OF ok k n idle Some h'])
  qed
qed

lemma write_ok:
  assumes ok: "seg_ok sz (fs, hs)" and k: "k < length hs" and i: "hd_id (hs ! k) = Some i" and d: "length d + 8 \<le> si_size i"
  shows "seg_ok sz (fs\<lparr>fs_bytes := (fs_bytes fs)(si_file i := d @ drop (length d) (fs_bytes fs (si_file i)))\<rparr>, hs)"
proof -
  have "handle_ok sz fs (hs ! k)" using ok k by (simp add: seg_ok_def)
  then obtain nm where nm: "si_size i = calc_size (sz nm)" "map_of (fs_names fs) (op_name nm) = Some (si_file i)"
    using i by (auto simp: handle_ok_def)
  then have f: "0 < on_count nm hs" "length (fs_bytes fs (si_file i)) = calc_size (sz nm)" "count_of (calc_size (sz nm)) (fs_bytes fs (si_file i)) = on_count nm hs"
    using ok by (simp_all add: seg_ok_def file_ok_def)
  show ?thesis
    using f d nm(1) \<open>handle_ok sz fs (hs ! k)\<close> by (intro seg_ok_bytes [OF ok nm(2), of _ "hs ! k"]) (auto simp: count_of_def)
qed

lemma seg_step_length [simp]: "length (snd (seg_step sz e s)) = length (snd s)"
  by (cases s; cases e) (auto split: prod.splits option.splits)

lemma seg_step_ok:
  assumes pos: "\<And>nm. 0 < sz nm" and ok: "seg_ok sz s" and n: "length (snd s) < 2 ^ 64"
  shows "seg_ok sz (seg_step sz e s)"
proof (cases s)
  case [simp]: (Pair fs hs)
  show ?thesis
  proof (cases e)
    case (SegAcquire k nm mode)
    show ?thesis
    proof (cases "k < length hs")
      case k: True
      obtain h1 fs1 where r1: "handle_release (hs ! k) fs = (h1, fs1)" by fastforce
      obtain i fs2 where r2: "shm_id_acquire nm (sz nm) mode fs1 = (i, fs2)" by fastforce
      obtain h2 fs3 where r3: "handle_map i (h1\<lparr>hd_name := nm\<rparr>) fs2 = (h2, fs3)" by fastforce
      have "seg_ok sz (fs1, hs[k := h1])" "hd_id h1 = None" using handle_release_ok [OF _ k _ r1] ok n by auto
      then have "seg_ok sz (fs3, hs[k := h2])" using acquire_idle_ok [where sz = sz and hs = "hs[k := h1]" and k = k, OF _ _ _ _ pos [of nm] r2 r3] k n by simp
      then show ?thesis using SegAcquire k r1 r2 r3 by (simp add: handle_acquire_def)
    qed (use SegAcquire ok in simp)
  next
    case (SegRelease k)
    show ?thesis using SegRelease ok n handle_release_ok [of sz fs hs k] by (auto split: prod.splits)
  next
    case (SegWrite k d)
    then show ?thesis using ok write_ok [of sz fs hs k] by (auto split: option.splits)
  qed
qed

lemma seg_run_ok:
  assumes "\<And>nm. 0 < sz nm" and "n < 2 ^ 64"
  shows "seg_ok sz (seg_run sz n evs) \<and> length (snd (seg_run sz n evs)) = n"
proof (induction evs rule: rev_induct)
  case Nil
  show ?case by (auto simp: seg_run_def seg_ok_def fs_init_def names_ok_def handle_ok_def handle_new_def file_ok_def)
next
  case (snoc e evs)
  then show ?case using seg_step_ok [where s = "seg_run sz n evs" and e = e, OF assms(1)] assms(2) by (simp add: seg_run_def)
qed

text \<open>
  C10. a segment lives exactly as long as a handle is on it. Processes acquire, open, create and release
  handles in any order, each name always with the same positive size, and write to the data. At every
  moment a name exists if and only if some handle is on it, all handles on it map the same file, and the
  count at the end of the file is their number, so that the last release, and no other, removes the name.
\<close>

theorem segment_lives_while_mapped:
  assumes "\<forall>nm. 0 < sz nm" and "n < 2 ^ 64" and "seg_run sz n evs = (fs, hs)"
  shows "(map_of (fs_names fs) (op_name nm) \<noteq> None \<longleftrightarrow> (\<exists>h \<in> set hs. handle_on nm h))
    \<and> (\<forall>i. map_of (fs_names fs) (op_name nm) = Some i \<longrightarrow>
         count_of (calc_size (sz nm)) (fs_bytes fs i) = length (filter (handle_on nm) hs)
         \<and> (\<forall>h \<in> set hs. handle_on nm h \<longrightarrow> map_option si_file (hd_id h) = Some i))"
proof -
  have ok: "seg_ok sz (fs, hs)" using seg_run_ok [of sz n evs] assms by simp
  have on: "\<exists>i. hd_id h = Some i \<and> map_of (fs_names fs) (op_name nm) = Some (si_file i)" if "h \<in> set hs" "handle_on nm h" for h
    using ok that by (auto simp: seg_ok_def handle_ok_def handle_on_def split: option.splits)
  have "file_ok sz fs nm (length (filter (handle_on nm) hs))" using ok by (simp add: seg_ok_def on_count_def)
  then show ?thesis using on by (fastforce simp: file_ok_def filter_empty_conv)
qed

theorem segment_lives_while_mapped_witness:
  "let s = seg_run (\<lambda>nm. 5) 3 [SegAcquire 0 ''k'' OpenOrCreate, SegAcquire 2 ''k'' OpenOld, SegWrite 2 ''hello'', SegRelease 0]
   in map_of (fs_names (fst s)) (op_name ''k'') \<noteq> None \<longleftrightarrow> (\<exists>h \<in> set (snd s). handle_on ''k'' h)"
  using segment_lives_while_mapped [of "\<lambda>nm. 5" 3 "[SegAcquire 0 ''k'' OpenOrCreate, SegAcquire 2 ''k'' OpenOld, SegWrite 2 ''hello'', SegRelease 0]"]
  by (auto simp: Let_def prod_eq_iff)

section \<open>A segment acquired with two sizes\<close>

text \<open>
  a segment that is acquired with a smaller size loses its count. Where a segment exists, with any
  number of handles on it, and the eight bytes of data in front of the end of the smaller size are zero,
  a process that acquires it with the smaller size and releases it removes the name: the bytes it
  takes for the count are data. Whoever then opens the name finds nothing.
\<close>

theorem resized_segment_vanishes:
  assumes "nm \<noteq> []" and "0 < m" and "map_of (fs_names fs) (op_name nm) = Some i"
    and "calc_size m < length (fs_bytes fs i)" and "count_of (calc_size m) (fs_bytes fs i) = 0"
    and "handle_acquire nm m OpenOrCreate handle_new fs = (ok, h, fs1)" and "handle_release h fs1 = (h', fs2)"
  shows "ok \<and> map_of (fs_names fs2) (op_name nm) = None \<and> \<not> fst (handle_acquire nm k OpenOld handle_new fs2)"
proof -
  let ?b = "shm_resize (calc_size m) (fs_bytes fs i)"
  have len: "8 < calc_size m" "length ?b = calc_size m" using calc_size_props(2) by simp_all
  have "count_of (calc_size m) ?b = 0"
    using assms(4,5) len(1) by (simp add: count_of_def shm_resize_def bytes_size_def)
  then have h: "ok" "hd_id h = Some \<lparr>si_file = i, si_mapped = True, si_size = calc_size m, si_name = op_name nm\<rparr>"
    "fs1 = fs\<lparr>fs_bytes := (fs_bytes fs)(i := set_count_of (calc_size m) 1 ?b)\<rparr>"
    using assms(1-3,6) by (auto simp: handle_acquire_def handle_release_def handle_new_def shm_id_acquire_def handle_map_def get_mem_def)
  have "count_of (calc_size m) (set_count_of (calc_size m) 1 ?b) = 1" using count_set_count(1) [of "calc_size m" ?b 1] len by simp
  then have "map_of (fs_names fs2) (op_name nm) = None"
    using assms(7) h len(1) by (auto simp: handle_release_def handle_detach_def shm_id_release_def Let_def)
  then show ?thesis using h(1) assms(1)
    by (simp add: handle_acquire_def handle_release_def handle_new_def shm_id_acquire_def handle_map_def get_mem_def)
qed

definition mapped_twice :: shm_fs where
  "mapped_twice = \<lparr>fs_names = [(op_name ''k'', 0)], fs_bytes = (\<lambda>i. replicate 24 (CHR 0x00) @ size_bytes 2), fs_next = 1\<rparr>"

theorem resized_segment_vanishes_witness:
  "let (ok, h, fs1) = handle_acquire ''k'' 8 OpenOrCreate handle_new mapped_twice; (h', fs2) = handle_release h fs1
   in count_of (calc_size 24) (fs_bytes mapped_twice 0) = 2 \<and> ok \<and> map_of (fs_names fs2) (op_name ''k'') = None"
proof -
  have "count_of (calc_size 8) (fs_bytes mapped_twice 0) = 0"
    by (simp add: mapped_twice_def count_of_def calc_size_def bytes_size_def nth_append)
  moreover obtain ok h fs1 where a: "handle_acquire ''k'' 8 OpenOrCreate handle_new mapped_twice = (ok, h, fs1)" by (cases "handle_acquire ''k'' 8 OpenOrCreate handle_new mapped_twice")
  moreover obtain h' fs2 where r: "handle_release h fs1 = (h', fs2)" by fastforce
  ultimately have "ok \<and> map_of (fs_names fs2) (op_name ''k'') = None"
    using resized_segment_vanishes [of "''k''" 8 mapped_twice 0 ok h fs1 h' fs2] by (simp add: mapped_twice_def calc_size_def)
  then show ?thesis unfolding a using r bytes_size_bytes [of 2 "[]"] by (simp add: mapped_twice_def count_of_def calc_size_def)
qed

end
