(* ===== verification/Critical_Section.thy ===== *)
theory Critical_Section
  imports Prelude
begin

text \<open>
  Threads that use a shared object under a lock, for any lock. A thread executes expressions, each of
  which takes the lock, accesses the object in several steps and gives the lock back; threads interleave
  at every step. The locale \<open>lock_impl\<close> is the contract of a lock; from it follows that expressions
  are atomic. It is interpreted for the recursive mutex in \<open>Safe_Ptr\<close> and for the spin lock of the
  channels in \<open>Ipc_Locks\<close>.
\<close>

section \<open>Expressions\<close>

text \<open>What a thread does in one expression: an access reads and writes the object and the variables of the thread.\<close>

datatype ('o, 'l) act = Lock | Do "'o \<times> 'l \<Rightarrow> 'o \<times> 'l" | Unlock

text \<open>
  What remains of an expression while its lock is held \<open>d\<close> times; it ends when the last is released. A lock
  that is not recursive must not be taken again.
\<close>

fun rest_ok :: "bool \<Rightarrow> nat \<Rightarrow> ('o, 'l) act list \<Rightarrow> bool" where
  "rest_ok deep d [] \<longleftrightarrow> d = 0"
| "rest_ok deep d (Lock # r) \<longleftrightarrow> deep \<and> 0 < d \<and> rest_ok deep (d + 1) r"
| "rest_ok deep d (Do f # r) \<longleftrightarrow> 0 < d \<and> rest_ok deep d r"
| "rest_ok deep d (Unlock # r) \<longleftrightarrow> 0 < d \<and> rest_ok deep (d - 1) r"

fun bracketed :: "bool \<Rightarrow> ('o, 'l) act list \<Rightarrow> bool" where
  "bracketed deep (Lock # r) \<longleftrightarrow> rest_ok deep 1 r"
| "bracketed deep _ \<longleftrightarrow> False"

lemma bracketed_Lock: "bracketed deep acts \<Longrightarrow> \<exists>r. acts = Lock # r \<and> rest_ok deep 1 r"
  by (induction deep acts rule: bracketed.induct) auto

lemma rest_ok_map_Do: "0 < d \<Longrightarrow> rest_ok deep d (map Do fs @ r) \<longleftrightarrow> rest_ok deep d r"
  by (induction fs) auto

lemma rest_ok_0: "rest_ok deep 0 r \<longleftrightarrow> r = []"
proof (cases r)
  case (Cons a r')
  then show ?thesis by (cases a) auto
qed simp

section \<open>Interleaved threads\<close>

text \<open>
  A lock: taking it (\<open>None\<close> when the thread has to wait or to try again), giving it back, and who has it
  how many times, which only the specification uses.
\<close>

record 'm lock_ops =
  lo_lock :: "nat \<Rightarrow> 'm \<Rightarrow> 'm option"
  lo_unlock :: "'m \<Rightarrow> 'm"
  lo_holder :: "'m \<Rightarrow> (nat \<times> nat) option"

record ('o, 'l, 'm) shared_obj =
  so_obj :: 'o
  so_vars :: "nat \<Rightarrow> 'l"
  so_mutex :: 'm
  so_todo :: "nat \<Rightarrow> ('o, 'l) act list"
  so_log :: "(nat \<times> ('o, 'l) act list) list"

text \<open>The last field is auxiliary: the expressions in the order in which they got the lock.\<close>

definition shared_init :: "'m \<Rightarrow> 'o \<Rightarrow> (nat \<Rightarrow> 'l) \<Rightarrow> ('o, 'l, 'm) shared_obj" where
  "shared_init m x vs = \<lparr>so_obj = x, so_vars = vs, so_mutex = m, so_todo = (\<lambda>t. []), so_log = []\<rparr>"

definition do_act :: "nat \<Rightarrow> ('o, 'l) act \<Rightarrow> 'o \<times> (nat \<Rightarrow> 'l) \<Rightarrow> 'o \<times> (nat \<Rightarrow> 'l)" where
  "do_act t a s = (case a of Do f \<Rightarrow> (let (x, l) = f (fst s, snd s t) in (x, (snd s)(t := l))) | _ \<Rightarrow> s)"

definition do_acts :: "nat \<Rightarrow> ('o, 'l) act list \<Rightarrow> 'o \<times> (nat \<Rightarrow> 'l) \<Rightarrow> 'o \<times> (nat \<Rightarrow> 'l)" where
  "do_acts t acts s = fold (do_act t) acts s"

datatype ('o, 'l) thread_event = Enter nat "('o, 'l) act list" | Run nat

definition run_act :: "'m lock_ops \<Rightarrow> nat \<Rightarrow> ('o, 'l) act \<Rightarrow> ('o, 'l) act list \<Rightarrow> ('o, 'l, 'm) shared_obj \<Rightarrow> ('o, 'l, 'm) shared_obj" where
  "run_act L t a r s =
     (case a of
        Lock \<Rightarrow> (case lo_lock L t (so_mutex s) of None \<Rightarrow> s
                | Some m \<Rightarrow> s\<lparr>so_mutex := m, so_todo := (so_todo s)(t := r),
                             so_log := (if lo_holder L (so_mutex s) = None then so_log s @ [(t, r)] else so_log s)\<rparr>)
      | Do f \<Rightarrow> (let (x, vs) = do_act t a (so_obj s, so_vars s) in s\<lparr>so_obj := x, so_vars := vs, so_todo := (so_todo s)(t := r)\<rparr>)
      | Unlock \<Rightarrow> s\<lparr>so_mutex := lo_unlock L (so_mutex s), so_todo := (so_todo s)(t := r)\<rparr>)"

text \<open>A thread that has finished an expression enters another; a thread inside one does its next action or waits.\<close>

fun thread_step :: "'m lock_ops \<Rightarrow> bool \<Rightarrow> ('o, 'l) thread_event \<Rightarrow> ('o, 'l, 'm) shared_obj \<Rightarrow> ('o, 'l, 'm) shared_obj" where
  "thread_step L deep (Enter t acts) s = (if so_todo s t = [] \<and> bracketed deep acts then s\<lparr>so_todo := (so_todo s)(t := acts)\<rparr> else s)"
| "thread_step L deep (Run t) s = (case so_todo s t of [] \<Rightarrow> s | a # r \<Rightarrow> run_act L t a r s)"

definition thread_run :: "'m lock_ops \<Rightarrow> bool \<Rightarrow> ('o, 'l) thread_event list \<Rightarrow> ('o, 'l, 'm) shared_obj \<Rightarrow> ('o, 'l, 'm) shared_obj" where
  "thread_run L deep evs s = fold (thread_step L deep) evs s"

text \<open>The expressions of the log, one after the other.\<close>

definition serial :: "(nat \<times> ('o, 'l) act list) list \<Rightarrow> 'o \<times> (nat \<Rightarrow> 'l) \<Rightarrow> 'o \<times> (nat \<Rightarrow> 'l)" where
  "serial hist s = fold (\<lambda>(t, acts). do_acts t acts) hist s"

lemma serial_snoc [simp]: "serial (hist @ [(t, acts)]) s = do_acts t acts (serial hist s)"
  by (simp add: serial_def)

lemma do_acts_simps [simp]: "do_acts t [] s = s" "do_acts t (a # r) s = do_acts t r (do_act t a s)"
  by (simp_all add: do_acts_def)

lemma do_act_locks [simp]: "do_act t Lock s = s" "do_act t Unlock s = s"
  by (simp_all add: do_act_def)

text \<open>Threads that execute given expressions, which take the lock once: the log lists them.\<close>

definition enters :: "('o, 'l) act list set \<Rightarrow> ('o, 'l) thread_event \<Rightarrow> bool" where
  "enters A e = (case e of Enter t acts \<Rightarrow> acts \<in> A | Run t \<Rightarrow> True)"

definition entered :: "('o, 'l) act list set \<Rightarrow> ('o, 'l, 'm) shared_obj \<Rightarrow> bool" where
  "entered A s \<longleftrightarrow> (\<forall>t. so_todo s t \<in> A \<or> Lock \<notin> set (so_todo s t)) \<and> (\<forall>(t, r) \<in> set (so_log s). Lock # r \<in> A)"

lemma entered_step:
  assumes once: "\<forall>acts \<in> A. \<exists>r. acts = Lock # r \<and> Lock \<notin> set r" and "entered A s" and "enters A e"
  shows "entered A (thread_step L deep e s)"
proof (cases e)
  case (Enter t acts)
  then show ?thesis using assms(2,3) by (auto simp: entered_def enters_def)
next
  case (Run t)
  show ?thesis
  proof (cases "so_todo s t")
    case (Cons a r)
    have "a # r \<in> A \<or> Lock \<notin> set (a # r)" using assms(2) Cons unfolding entered_def by metis
    then have "Lock \<notin> set r" and "a = Lock \<Longrightarrow> Lock # r \<in> A" using bspec [OF once, of "a # r"] by auto
    then show ?thesis
      using assms(2) Run Cons by (cases a) (auto simp: entered_def run_act_def split: option.splits prod.splits)
  qed (use assms(2) Run in simp)
qed

lemma entered_run:
  assumes "\<forall>acts \<in> A. \<exists>r. acts = Lock # r \<and> Lock \<notin> set r" and "list_all (enters A) evs"
  shows "entered A (thread_run L deep evs (shared_init m x vs))"
  using assms(2)
proof (induction evs rule: rev_induct)
  case Nil
  then show ?case by (simp add: thread_run_def entered_def shared_init_def)
next
  case (snoc e evs)
  then show ?case using entered_step [OF assms(1), of _ e] by (simp add: thread_run_def)
qed

section \<open>The contract of a lock\<close>

locale lock_impl =
  fixes L :: "'m lock_ops"
    and valid :: "'m \<Rightarrow> bool"
    and deep :: bool
  assumes lock_free: "valid m \<Longrightarrow> lo_holder L m = None \<Longrightarrow> \<exists>m'. lo_lock L t m = Some m' \<and> valid m' \<and> lo_holder L m' = Some (t, 1)"
    and lock_other: "valid m \<Longrightarrow> lo_holder L m = Some (u, d) \<Longrightarrow> u \<noteq> t \<Longrightarrow> lo_lock L t m = None"
    and lock_again: "valid m \<Longrightarrow> lo_holder L m = Some (t, d) \<Longrightarrow> deep \<Longrightarrow>
      \<exists>m'. lo_lock L t m = Some m' \<and> valid m' \<and> lo_holder L m' = Some (t, d + 1)"
    and unlock_held: "valid m \<Longrightarrow> lo_holder L m = Some (t, Suc d) \<Longrightarrow>
      valid (lo_unlock L m) \<and> lo_holder L (lo_unlock L m) = (if d = 0 then None else Some (t, d))"
begin

text \<open>At most one thread is inside; when it has done the rest of its expression, the state is that of the log.\<close>

definition lock_inv :: "'o \<times> (nat \<Rightarrow> 'l) \<Rightarrow> ('o, 'l, 'm) shared_obj \<Rightarrow> bool" where
  "lock_inv s0 s \<longleftrightarrow> valid (so_mutex s) \<and>
     (case lo_holder L (so_mutex s) of
        None \<Rightarrow> (so_obj s, so_vars s) = serial (so_log s) s0
      | Some (t, d) \<Rightarrow> 0 < d \<and> rest_ok deep d (so_todo s t) \<and> do_acts t (so_todo s t) (so_obj s, so_vars s) = serial (so_log s) s0)
   \<and> (\<forall>t. (\<forall>d. lo_holder L (so_mutex s) \<noteq> Some (t, d)) \<longrightarrow> so_todo s t = [] \<or> bracketed deep (so_todo s t))"

lemma lock_inv_enter:
  assumes "lock_inv s0 s" and "so_todo s t = []" and "bracketed deep acts"
  shows "lock_inv s0 (s\<lparr>so_todo := (so_todo s)(t := acts)\<rparr>)"
proof -
  have "lo_holder L (so_mutex s) \<noteq> Some (t, d)" for d using assms(1,2) by (auto simp: lock_inv_def)
  then show ?thesis using assms by (auto simp: lock_inv_def split: option.splits)
qed

lemma lock_inv_inside:
  assumes inv: "lock_inv s0 s" and t: "lo_holder L (so_mutex s) = Some (t, d)" and a: "so_todo s t = a # r"
  shows "lock_inv s0 (run_act L t a r s)"
proof -
  have d: "valid (so_mutex s)" "0 < d" "rest_ok deep d (a # r)" "do_acts t (a # r) (so_obj s, so_vars s) = serial (so_log s) s0"
    using inv t a by (simp_all add: lock_inv_def)
  have others: "so_todo s u = [] \<or> bracketed deep (so_todo s u)" if "u \<noteq> t" for u using inv t that by (auto simp: lock_inv_def)
  show ?thesis
  proof (cases a)
    case Lock
    then obtain m where "lo_lock L t (so_mutex s) = Some m" "valid m" "lo_holder L m = Some (t, d + 1)"
      using lock_again [OF d(1) t] d(3) by auto
    moreover have "rest_ok deep (d + 1) r" using d(3) unfolding Lock rest_ok.simps by blast
    ultimately show ?thesis unfolding run_act_def lock_inv_def using Lock d(1,2,4) t others by simp
  next
    case (Do f)
    obtain x vs where s: "do_act t a (so_obj s, so_vars s) = (x, vs)" by fastforce
    then show ?thesis using d t others Do by (simp add: run_act_def lock_inv_def)
  next
    case Unlock
    obtain d' where d': "d = Suc d'" using d(2) by (cases d) auto
    then show ?thesis using Unlock d others unlock_held [OF d(1), of t d'] t
      by (auto simp: run_act_def lock_inv_def rest_ok_0)
  qed
qed

lemma lock_inv_outside:
  assumes inv: "lock_inv s0 s" and t: "\<And>d. lo_holder L (so_mutex s) \<noteq> Some (t, d)" and a: "so_todo s t = a # r"
  shows "lock_inv s0 (run_act L t a r s)"
proof -
  have v: "valid (so_mutex s)" and "bracketed deep (a # r)" using inv t a by (fastforce simp: lock_inv_def)+
  then have l: "a = Lock" "rest_ok deep 1 r" using bracketed_Lock by blast+
  show ?thesis
  proof (cases "lo_holder L (so_mutex s)")
    case None
    then obtain m where "lo_lock L t (so_mutex s) = Some m" "valid m" "lo_holder L m = Some (t, 1)" using lock_free [OF v] by blast
    then show ?thesis using inv l None by (auto simp: run_act_def lock_inv_def)
  next
    case (Some ud)
    then have "lo_lock L t (so_mutex s) = None" using lock_other [OF v, of "fst ud" "snd ud" t] t by (cases ud) auto
    then show ?thesis using inv l by (simp add: run_act_def)
  qed
qed

lemma lock_inv_act: "lock_inv s0 s \<Longrightarrow> so_todo s t = a # r \<Longrightarrow> lock_inv s0 (run_act L t a r s)"
  using lock_inv_inside lock_inv_outside by blast

lemma lock_inv_step: "lock_inv s0 s \<Longrightarrow> lock_inv s0 (thread_step L deep e s)"
  using lock_inv_enter [of s0 s] lock_inv_act [of s0 s] by (cases e) (auto split: list.splits)

lemma lock_inv_run:
  assumes "valid m" and "lo_holder L m = None"
  shows "lock_inv (x, vs) (thread_run L deep evs (shared_init m x vs))"
proof -
  have "lock_inv (x, vs) (shared_init m x vs)" using assms by (simp add: lock_inv_def shared_init_def serial_def)
  then show ?thesis unfolding thread_run_def
    by (induction evs rule: rev_induct) (simp_all add: lock_inv_step)
qed

text \<open>What a free lock guards is the result of the expressions of the log.\<close>

lemma inv_serial: "lock_inv s0 s \<Longrightarrow> lo_holder L (so_mutex s) = None \<Longrightarrow> (so_obj s, so_vars s) = serial (so_log s) s0"
  by (simp add: lock_inv_def)

lemma inv_partial: "lock_inv s0 s \<Longrightarrow> lo_holder L (so_mutex s) = Some (t, d) \<Longrightarrow>
    do_acts t (so_todo s t) (so_obj s, so_vars s) = serial (so_log s) s0"
  by (simp add: lock_inv_def)

text \<open>No deadlock: while a thread is inside an expression or waits for one, some thread can take a step.\<close>

lemma some_thread_runs:
  assumes inv: "lock_inv s0 s" and "so_todo s t \<noteq> []"
  shows "\<exists>u. thread_step L deep (Run u) s \<noteq> s"
proof (cases "lo_holder L (so_mutex s)")
  case None
  have v: "valid (so_mutex s)" and "bracketed deep (so_todo s t)" using assms None by (fastforce simp: lock_inv_def)+
  then obtain r where r: "so_todo s t = Lock # r" using bracketed_Lock by blast
  obtain m where "lo_lock L t (so_mutex s) = Some m" using lock_free [OF v None] by blast
  then have "so_todo (thread_step L deep (Run t) s) t \<noteq> so_todo s t" using r by (simp add: run_act_def)
  then show ?thesis by metis
next
  case (Some ud)
  obtain u d where ud: "ud = (u, d)" by fastforce
  have v: "valid (so_mutex s)" and r: "0 < d" "rest_ok deep d (so_todo s u)" using inv Some ud by (simp_all add: lock_inv_def)
  then obtain a r where a: "so_todo s u = a # r" by (cases "so_todo s u") auto
  have "lo_lock L u (so_mutex s) \<noteq> None" if "a = Lock" using lock_again [OF v, of u d] Some ud r(2) a that by auto
  then have "so_todo (thread_step L deep (Run u) s) u \<noteq> so_todo s u"
    using a by (cases a) (auto simp: run_act_def split: prod.splits option.splits)
  then show ?thesis by metis
qed

end

end
