(* ===== verification/Ipc_Locks.thy ===== *)
theory Ipc_Locks
  imports Ipc_Pool Critical_Section
begin

text \<open>
  The spin lock of the channels, \<^verbatim>\<open>common/shm-ipc/include/libipc/rw_lock.h\<close>, and the pool of block numbers that
  it guards: processes that take and return block numbers at the same time never get the same one.
\<close>

section \<open>The spin lock\<close>

text \<open>
  \<open>lc_.exchange(1)\<close>: the loop goes on while it returns something else than 0; then the exchange has
  written 1 over 1. Who has the lock is auxiliary.
\<close>

record spin_lock =
  sl_lc :: u32
  sl_by :: "nat option"

definition spin_exchange :: "nat \<Rightarrow> spin_lock \<Rightarrow> spin_lock option" where
  "spin_exchange t m = (if sl_lc m \<noteq> 0 then None else Some \<lparr>sl_lc = 1, sl_by = Some t\<rparr>)"

definition spin_unlock :: "spin_lock \<Rightarrow> spin_lock" where
  "spin_unlock m = \<lparr>sl_lc = 0, sl_by = None\<rparr>"

definition spin_ops :: "spin_lock lock_ops" where
  "spin_ops = \<lparr>lo_lock = spin_exchange, lo_unlock = spin_unlock, lo_holder = (\<lambda>m. map_option (\<lambda>t. (t, 1)) (sl_by m))\<rparr>"

definition spin_free :: spin_lock where
  "spin_free = \<lparr>sl_lc = 0, sl_by = None\<rparr>"

interpretation spin: lock_impl spin_ops "\<lambda>m. sl_lc m = (if sl_by m = None then 0 else 1)" False
  by unfold_locales (auto simp: spin_ops_def spin_exchange_def spin_unlock_def)

section \<open>Block numbers\<close>

text \<open>The critical section of \<open>apply_storage\<close>, and that of \<open>recycle_storage\<close>; a thread keeps the numbers it has.\<close>

definition take_number :: "(id_pool, nat list) act list" where
  "take_number =
     [Lock, Do (\<lambda>(p, v). (prepare p, v)),
      Do (\<lambda>(p, v). case acquire p of (None, p') \<Rightarrow> (p', v) | (Some i, p') \<Rightarrow> (p', i # v)), Unlock]"

definition give_number :: "(id_pool, nat list) act list" where
  "give_number = [Lock, Do (\<lambda>(p, v). case v of [] \<Rightarrow> (p, v) | i # v' \<Rightarrow> (snd (release (Some i) p), v')), Unlock]"

abbreviation pool_exprs :: "(id_pool, nat list) act list set" where
  "pool_exprs \<equiv> {take_number, give_number}"

abbreviation pool_shared :: "(id_pool, nat list) thread_event list \<Rightarrow> (id_pool, nat list, spin_lock) shared_obj" where
  "pool_shared evs \<equiv> thread_run spin_ops False evs (shared_init spin_free zero_pool (\<lambda>t. []))"

text \<open>The numbers of the threads are those that are out in a run of the pool alone.\<close>

definition shares :: "nat list \<Rightarrow> (nat \<Rightarrow> nat list) \<Rightarrow> bool" where
  "shares out vs \<longleftrightarrow> (\<forall>t. distinct (vs t) \<and> set (vs t) \<subseteq> set out) \<and> (\<forall>t u. t \<noteq> u \<longrightarrow> set (vs t) \<inter> set (vs u) = {})"

lemma sharesI:
  assumes "\<And>t. distinct (vs t)" and "\<And>t. set (vs t) \<subseteq> set out" and "\<And>t u x. x \<in> set (vs t) \<Longrightarrow> x \<in> set (vs u) \<Longrightarrow> t = u"
  shows "shares out vs"
  using assms unfolding shares_def by blast

lemma sharesD:
  assumes "shares out vs"
  shows "distinct (vs t)" and "x \<in> set (vs t) \<Longrightarrow> x \<in> set out" and "x \<in> set (vs t) \<Longrightarrow> x \<in> set (vs u) \<Longrightarrow> t = u"
  using assms unfolding shares_def by blast+

lemma shares_take:
  assumes "shares out vs" and "i \<notin> set out"
  shows "shares (i # out) (vs(t := i # vs t))"
  using sharesD [OF assms(1)] assms(2) by (intro sharesI) (auto split: if_splits)

lemma shares_give:
  assumes "shares out vs" and "vs t = i # v"
  shows "shares (removeAll i out) (vs(t := v))"
proof (rule sharesI)
  note d = sharesD [OF assms(1)]
  have v: "x \<in> set v \<Longrightarrow> x \<in> set (vs t)" "i \<in> set (vs t)" "i \<notin> set v" "distinct v" for x using d(1) [of t] assms(2) by auto
  show "distinct ((vs(t := v)) u)" for u using v(4) d(1) by simp
  show "set ((vs(t := v)) u) \<subseteq> set (removeAll i out)" for u
    using d(2) [of _ u] d(3) [of i t u] v by (cases "u = t") auto
  show "x \<in> set ((vs(t := v)) u) \<Longrightarrow> x \<in> set ((vs(t := v)) w) \<Longrightarrow> u = w" for x u w
    using d(3) [of x u w] v(1) [of x] by (auto split: if_splits)
qed

lemma serial_take:
  assumes "pool_run uses = (out, p)" and "shares out vs" and "do_acts t (tl take_number) (p, vs) = (p', vs')"
  shows "\<exists>out'. pool_run (uses @ [Take]) = (out', p') \<and> shares out' vs'"
proof (cases "acquire (prepare p)")
  case (Pair i0 q)
  then show ?thesis
    using assms pool_run_fresh(1) [OF assms(1)] shares_take [OF assms(2), of _ t]
    by (cases i0) (auto simp: pool_run_def take_number_def do_act_def)
qed

lemma serial_give:
  assumes "pool_run uses = (out, p)" and "shares out vs" and "do_acts t (tl give_number) (p, vs) = (p', vs')"
  shows "\<exists>uses' out'. pool_run uses' = (out', p') \<and> shares out' vs'"
proof (cases "vs t")
  case Nil
  then have "p' = p" "vs' = vs" using assms(3) by (auto simp: give_number_def do_act_def)
  then show ?thesis using assms(1,2) by blast
next
  case (Cons i v)
  then have r: "p' = snd (release (Some i) p)" "vs' = vs(t := v)" using assms(3) by (auto simp: give_number_def do_act_def)
  have "set (vs t) \<subseteq> set out" using assms(2) by (simp add: shares_def)
  then have "i \<in> set out" using Cons by simp
  then have "pool_run (uses @ [Put i]) = (removeAll i out, p')" using assms(1) r by (simp add: pool_run_def)
  then show ?thesis using shares_give [OF assms(2) Cons] r(2) by blast
qed

lemma serial_pool:
  "\<forall>(t, r) \<in> set hist. Lock # r \<in> pool_exprs \<Longrightarrow>
   \<exists>uses out. pool_run uses = (out, fst (serial hist (zero_pool, \<lambda>t. []))) \<and> shares out (snd (serial hist (zero_pool, \<lambda>t. [])))"
proof (induction hist rule: rev_induct)
  case Nil
  have "pool_run [] = ([], zero_pool)" by (simp add: pool_run_def)
  then show ?case by (auto simp: serial_def shares_def)
next
  case (snoc tr hist)
  obtain t r where tr: "tr = (t, r)" by fastforce
  obtain p vs where s: "serial hist (zero_pool, \<lambda>t. []) = (p, vs)" by fastforce
  obtain uses out where u: "pool_run uses = (out, p)" "shares out vs" using snoc s by auto
  obtain p' vs' where s': "do_acts t r (p, vs) = (p', vs')" by fastforce
  have "r = tl take_number \<or> r = tl give_number" using snoc.prems tr by (auto simp: take_number_def give_number_def)
  then have "\<exists>uses out. pool_run uses = (out, p') \<and> shares out vs'"
    using serial_take [OF u] serial_give [OF u] s' by blast
  then show ?case using s s' tr by simp
qed

text \<open>
  C19. Processes that share the pool get different block numbers. Any number of processes take block
  numbers and return numbers they have (a number that is passed on in a message counts as its taker's) at the same time, each step of their critical sections interleaved with the
  others. Whenever the spin lock is free, each process has distinct numbers below 32 and no two processes
  have a number in common.
\<close>

theorem block_numbers_not_shared:
  assumes "list_all (enters pool_exprs) evs" and "pool_shared evs = s" and "sl_lc (so_mutex s) = 0"
  shows "distinct (so_vars s t) \<and> set (so_vars s t) \<subseteq> {..<max_count} \<and> (u \<noteq> t \<longrightarrow> set (so_vars s t) \<inter> set (so_vars s u) = {})"
proof -
  have i: "spin.lock_inv (zero_pool, \<lambda>t. []) s"
    using spin.lock_inv_run [of spin_free zero_pool "\<lambda>t. []" evs] assms(2) by (simp add: spin_ops_def spin_free_def)
  then have "sl_by (so_mutex s) = None" using assms(3) by (auto simp: spin.lock_inv_def split: if_splits)
  then have s: "(so_obj s, so_vars s) = serial (so_log s) (zero_pool, \<lambda>t. [])"
    using spin.inv_serial [OF i] by (simp add: spin_ops_def)
  have "entered pool_exprs s" using entered_run [OF _ assms(1)] assms(2) by (auto simp: take_number_def give_number_def)
  then obtain uses out where r: "pool_run uses = (out, so_obj s)" "shares out (so_vars s)"
    using serial_pool [of "so_log s"] s [symmetric] by (auto simp: entered_def)
  obtain free where "pool_ok free (set out) (prepare (so_obj s))" using pool_run_free [OF r(1)] by blast
  then have "set out \<subseteq> {..<max_count}" by (auto simp: pool_ok_def)
  then show ?thesis using r(2) by (fastforce simp: shares_def)
qed

definition two_takers :: "(id_pool, nat list) thread_event list" where
  "two_takers = [Enter 0 take_number, Enter 1 take_number, Run 0, Run 1, Run 0, Run 0, Run 1, Run 0, Run 1, Run 1, Run 1, Run 1]"

theorem block_numbers_not_shared_witness:
  "so_vars (pool_shared two_takers) 0 = [0] \<and> so_vars (pool_shared two_takers) 1 = [1]
   \<and> set (so_vars (pool_shared two_takers) 0) \<inter> set (so_vars (pool_shared two_takers) 1) = {}"
proof -
  have v: "so_vars (pool_shared two_takers) 0 = [0]" by code_simp
  have w: "so_vars (pool_shared two_takers) 1 = [1]" by code_simp
  have l: "sl_lc (so_mutex (pool_shared two_takers)) = 0" by code_simp
  show ?thesis using block_numbers_not_shared [OF _ refl l, of 0 1] v w by (simp add: two_takers_def enters_def)
qed

end
