(* ===== verification/Safe_Ptr.thy ===== *)
theory Safe_Ptr
  imports Comm_Recv Critical_Section
begin

text \<open>
  The locking pointer \<open>safe_ptr\<close> (\<^verbatim>\<open>common/include/safe_ptr.hpp\<close>), through which the scheduler and the
  secondary I/O threads share queues and the address cache. Every use of the pointer takes its recursive
  mutex and gives it back at the end of the full expression, so full expressions are atomic.
\<close>

section \<open>The mutex\<close>

text \<open>\<open>std::recursive_mutex\<close>: \<open>None\<close> when the thread has to wait.\<close>

record rec_mutex =
  mx_owner :: "nat option"
  mx_depth :: nat

definition mutex_lock :: "nat \<Rightarrow> rec_mutex \<Rightarrow> rec_mutex option" where
  "mutex_lock t m =
     (case mx_owner m of
        None \<Rightarrow> Some \<lparr>mx_owner = Some t, mx_depth = 1\<rparr>
      | Some u \<Rightarrow> if u = t then Some (m\<lparr>mx_depth := mx_depth m + 1\<rparr>) else None)"

definition mutex_unlock :: "rec_mutex \<Rightarrow> rec_mutex" where
  "mutex_unlock m = (if mx_depth m = 1 then \<lparr>mx_owner = None, mx_depth = 0\<rparr> else m\<lparr>mx_depth := mx_depth m - 1\<rparr>)"

definition mutex_free :: rec_mutex where
  "mutex_free = \<lparr>mx_owner = None, mx_depth = 0\<rparr>"

definition mutex_ops :: "rec_mutex lock_ops" where
  "mutex_ops = \<lparr>lo_lock = mutex_lock, lo_unlock = mutex_unlock, lo_holder = (\<lambda>m. map_option (\<lambda>t. (t, mx_depth m)) (mx_owner m))\<rparr>"

section \<open>Full expressions\<close>

text \<open>\<open>p->f()\<close>: the temporary \<open>auto_lock_t\<close> holds the lock to the end of the full expression.\<close>

definition arrow :: "('o \<times> 'l \<Rightarrow> 'o \<times> 'l) list \<Rightarrow> ('o, 'l) act list" where
  "arrow accesses = Lock # map Do accesses @ [Unlock]"

lemma arrow_not_Nil [simp]: "arrow fs \<noteq> []" "[] \<noteq> arrow fs"
  by (simp_all add: arrow_def)

text \<open>\<open>p->f() == p->g()\<close>: two temporaries.\<close>

definition two_arrows :: "('o \<times> 'l \<Rightarrow> 'o \<times> 'l) list \<Rightarrow> ('o \<times> 'l \<Rightarrow> 'o \<times> 'l) list \<Rightarrow> ('o, 'l) act list" where
  "two_arrows fs gs = Lock # map Do fs @ Lock # map Do gs @ [Unlock, Unlock]"

lemma arrows_bracketed: "bracketed deep (arrow fs)" "bracketed True (two_arrows fs gs)"
  by (simp_all add: arrow_def two_arrows_def rest_ok_map_Do)

interpretation mutex: lock_impl mutex_ops "\<lambda>m. True" True
  by unfold_locales (auto simp: mutex_ops_def mutex_lock_def mutex_unlock_def split: option.splits)

section \<open>Threads that use the pointer\<close>

text \<open>
  A thread that is between two expressions starts to use the pointer with given accesses, and a thread inside
  an expression does its next action; nothing is demanded of the actions that \<open>arrow\<close> makes of a use.
\<close>

datatype ('o, 'l) pointer_event = Use nat "('o \<times> 'l \<Rightarrow> 'o \<times> 'l) list" | Go nat

fun pointer_step :: "('o, 'l) pointer_event \<Rightarrow> ('o, 'l, rec_mutex) shared_obj \<Rightarrow> ('o, 'l, rec_mutex) shared_obj" where
  "pointer_step (Use t fs) s = (if so_todo s t = [] then s\<lparr>so_todo := (so_todo s)(t := arrow fs)\<rparr> else s)"
| "pointer_step (Go t) s = (case so_todo s t of [] \<Rightarrow> s | a # r \<Rightarrow> run_act mutex_ops t a r s)"

definition pointer_run :: "('o, 'l) pointer_event list \<Rightarrow> ('o, 'l, rec_mutex) shared_obj \<Rightarrow> ('o, 'l, rec_mutex) shared_obj" where
  "pointer_run evs s = fold pointer_step evs s"

text \<open>The uses that are started, in this order.\<close>

definition use_starts :: "('o, 'l) pointer_event \<Rightarrow> ('o, 'l, rec_mutex) shared_obj \<Rightarrow> (nat \<times> ('o \<times> 'l \<Rightarrow> 'o \<times> 'l) list) list" where
  "use_starts e s = (case e of Use t fs \<Rightarrow> if so_todo s t = [] then [(t, fs)] else [] | Go t \<Rightarrow> [])"

fun started_uses :: "('o, 'l) pointer_event list \<Rightarrow> ('o, 'l, rec_mutex) shared_obj \<Rightarrow> (nat \<times> ('o \<times> 'l \<Rightarrow> 'o \<times> 'l) list) list" where
  "started_uses [] s = []"
| "started_uses (e # evs) s = use_starts e s @ started_uses evs (pointer_step e s)"

text \<open>The specification knows no lock: the accesses of a use are done without anything in between.\<close>

definition use_effect :: "nat \<times> ('o \<times> 'l \<Rightarrow> 'o \<times> 'l) list \<Rightarrow> 'o \<times> (nat \<Rightarrow> 'l) \<Rightarrow> 'o \<times> (nat \<Rightarrow> 'l)" where
  "use_effect u s = (let (x, l) = fold (\<lambda>f. f) (snd u) (fst s, snd s (fst u)) in (x, (snd s)(fst u := l)))"

lemma started_uses_snoc: "started_uses (evs @ [e]) s = started_uses evs s @ use_starts e (pointer_run evs s)"
  by (induction evs arbitrary: s) (simp_all add: pointer_run_def)

lemma do_acts_use: "do_acts t (map Do fs @ [Unlock]) s = use_effect (t, fs) s"
  by (induction fs arbitrary: s) (simp_all add: use_effect_def do_act_def case_prod_unfold Let_def)

lemma pointer_step_thread: "\<exists>e'. pointer_step e s = thread_step mutex_ops True e' s"
proof (cases e)
  case (Use t fs)
  then show ?thesis by (intro exI [of _ "Enter t (arrow fs)"]) (simp add: arrows_bracketed)
next
  case (Go t)
  then show ?thesis by (intro exI [of _ "Run t"]) simp
qed

lemma pointer_inv: "mutex.lock_inv (x, vs) (pointer_run evs (shared_init mutex_free x vs))"
proof (induction evs rule: rev_induct)
  case Nil
  then show ?case
    using mutex.lock_inv_run [of mutex_free x vs "[]"] by (simp add: mutex_ops_def mutex_free_def pointer_run_def thread_run_def)
next
  case (snoc e evs)
  then show ?case
    using pointer_step_thread [of e "pointer_run evs (shared_init mutex_free x vs)"] mutex.lock_inv_step by (auto simp: pointer_run_def)
qed

text \<open>The log lists started uses, each thread's in its order; what a thread has started and is not in the log waits for the lock.\<close>

abbreviation uses_of :: "nat \<Rightarrow> (nat \<times> 'a) list \<Rightarrow> (nat \<times> 'a) list" where
  "uses_of t us \<equiv> filter (\<lambda>u. fst u = t) us"

definition logged ::
  "(nat \<times> ('o \<times> 'l \<Rightarrow> 'o \<times> 'l) list) list \<Rightarrow> (nat \<times> ('o \<times> 'l \<Rightarrow> 'o \<times> 'l) list) list \<Rightarrow> ('o, 'l, rec_mutex) shared_obj \<Rightarrow> bool" where
  "logged us ord s \<longleftrightarrow> so_log s = map (\<lambda>(t, fs). (t, map Do fs @ [Unlock])) ord
     \<and> (\<forall>t. Lock \<notin> set (so_todo s t) \<and> uses_of t us = uses_of t ord
          \<or> (\<exists>fs. so_todo s t = arrow fs \<and> uses_of t us = uses_of t ord @ [(t, fs)]))"

lemma serial_uses: "serial (map (\<lambda>(t, fs). (t, map Do fs @ [Unlock])) ord) s0 = fold use_effect ord s0"
  by (induction ord arbitrary: s0) (auto simp: serial_def do_acts_use)

lemma logged_serial: "logged us ord s \<Longrightarrow> serial (so_log s) s0 = fold use_effect ord s0"
  by (simp add: logged_def serial_uses)

lemma waiting_not_inside:
  assumes "mutex.lock_inv s0 s" and "so_todo s t = arrow fs"
  shows "mx_owner (so_mutex s) \<noteq> Some t"
  using assms unfolding mutex.lock_inv_def by (auto simp: mutex_ops_def arrow_def rest_ok_map_Do)

lemma logged_step:
  assumes inv: "mutex.lock_inv s0 s" and l: "logged us ord s"
  shows "\<exists>ord'. logged (us @ use_starts e s) ord' (pointer_step e s)"
proof (cases e)
  case (Use t fs)
  then show ?thesis using l by (intro exI [of _ ord]) (auto simp: logged_def use_starts_def)
next
  case (Go t)
  show ?thesis
  proof (cases "so_todo s t")
    case Nil
    then show ?thesis using l Go by (auto simp: use_starts_def)
  next
    case (Cons a r)
    consider "Lock \<notin> set (a # r)" "uses_of t us = uses_of t ord" | fs where "a = Lock" "r = map Do fs @ [Unlock]" "uses_of t us = uses_of t ord @ [(t, fs)]"
    proof -
      have "Lock \<notin> set (a # r) \<and> uses_of t us = uses_of t ord \<or> (\<exists>fs. a # r = arrow fs \<and> uses_of t us = uses_of t ord @ [(t, fs)])"
        using l unfolding logged_def Cons [symmetric] by blast
      then show thesis using that unfolding arrow_def list.inject by blast
    qed
    then show ?thesis
    proof cases
      case 1
      then have "logged us ord (run_act mutex_ops t a r s)"
        using l Cons by (cases a) (auto simp: logged_def run_act_def split: prod.splits)
      then show ?thesis using Go Cons by (auto simp: use_starts_def)
    next
      case 2
      have w: "mx_owner (so_mutex s) \<noteq> Some t"
        using waiting_not_inside [OF inv, of t fs] Cons 2 by (simp add: arrow_def)
      show ?thesis
      proof (cases "mx_owner (so_mutex s)")
        case None
        then have "logged us (ord @ [(t, fs)]) (run_act mutex_ops t a r s)"
          using l 2 by (auto simp: logged_def run_act_def mutex_ops_def mutex_lock_def)
        then show ?thesis using Go Cons by (auto simp: use_starts_def)
      next
        case (Some u)
        then have "run_act mutex_ops t a r s = s" using w 2 by (auto simp: run_act_def mutex_ops_def mutex_lock_def)
        then show ?thesis using l Go Cons by (auto simp: use_starts_def)
      qed
    qed
  qed
qed

lemma logged_run:
  "\<exists>ord. logged (started_uses evs (shared_init mutex_free x vs)) ord (pointer_run evs (shared_init mutex_free x vs))"
proof (induction evs rule: rev_induct)
  case Nil
  then show ?case by (intro exI [of _ "[]"]) (simp add: logged_def pointer_run_def shared_init_def)
next
  case (snoc e evs)
  then obtain ord where "logged (started_uses evs (shared_init mutex_free x vs)) ord (pointer_run evs (shared_init mutex_free x vs))" by blast
  from logged_step [OF pointer_inv this, of e] show ?case by (simp add: started_uses_snoc pointer_run_def)
qed

text \<open>
  C14. Expressions on a locking pointer are atomic and do not block each other for ever. Threads start uses
  of the pointer, which \<open>arrow\<close> turns into actions, and interleave at every action. In every run there is an order of
  uses, in which every thread's uses are in the order in which it started them, such that whenever the
  lock is free the object and the variables of the threads are what the accesses of these uses give when
  nothing comes between them; the rest of a use under way completes that state. Each started use is in the
  order exactly once, but for one per thread that still waits for the lock; and while any thread is inside
  a use or waits for one, some thread can take a step.
\<close>

theorem locked_expressions_atomic:
  assumes "pointer_run evs (shared_init mutex_free x vs) = s"
  shows "\<exists>ord. (case mx_owner (so_mutex s) of
         None \<Rightarrow> (so_obj s, so_vars s) = fold use_effect ord (x, vs)
       | Some t \<Rightarrow> do_acts t (so_todo s t) (so_obj s, so_vars s) = fold use_effect ord (x, vs))
    \<and> (\<forall>t. uses_of t (started_uses evs (shared_init mutex_free x vs)) = uses_of t ord
         \<or> (\<exists>fs. so_todo s t = arrow fs \<and> uses_of t (started_uses evs (shared_init mutex_free x vs)) = uses_of t ord @ [(t, fs)]))
    \<and> ((\<exists>t. so_todo s t \<noteq> []) \<longrightarrow> (\<exists>u. pointer_step (Go u) s \<noteq> s))"
proof -
  obtain ord where l: "logged (started_uses evs (shared_init mutex_free x vs)) ord s"
    using logged_run [of evs x vs] assms by blast
  have i: "mutex.lock_inv (x, vs) s"
    using pointer_inv [of x vs evs] assms by simp
  have "case mx_owner (so_mutex s) of
         None \<Rightarrow> (so_obj s, so_vars s) = serial (so_log s) (x, vs)
       | Some t \<Rightarrow> do_acts t (so_todo s t) (so_obj s, so_vars s) = serial (so_log s) (x, vs)"
    using mutex.inv_serial [OF i] mutex.inv_partial [OF i] by (auto simp: mutex_ops_def split: option.splits)
  moreover have "(\<exists>t. so_todo s t \<noteq> []) \<longrightarrow> (\<exists>u. pointer_step (Go u) s \<noteq> s)"
    using mutex.some_thread_runs [OF i] by auto
  ultimately show ?thesis
    using l unfolding logged_serial [OF l] logged_def by (intro exI [of _ ord]) blast
qed

text \<open>Two threads push to a queue at the same time; the second has to wait.\<close>

definition push_access :: "nat \<Rightarrow> nat list \<times> unit \<Rightarrow> nat list \<times> unit" where
  "push_access n = (\<lambda>(q, l). (q @ [n], l))"

definition two_pushes :: "(nat list, unit) pointer_event list" where
  "two_pushes = [Use 0 [push_access 7], Use 1 [push_access 8], Go 0, Go 1, Go 0, Go 1, Go 0, Go 1, Go 1, Go 1]"

theorem locked_expressions_atomic_witness:
  "let s = pointer_run two_pushes (shared_init mutex_free [] (\<lambda>t. ())) in so_obj s = [7, 8]
     \<and> (\<exists>ord. (so_obj s, so_vars s) = fold use_effect ord ([], \<lambda>t. ()) \<and> uses_of 0 ord = [(0, [push_access 7])] \<and> uses_of 1 ord = [(1, [push_access 8])])"
proof -
  let ?s = "pointer_run two_pushes (shared_init mutex_free [] (\<lambda>t. ()))"
  have r: "so_obj ?s = [7, 8]" "mx_owner (so_mutex ?s) = None" "so_todo ?s 0 = []" "so_todo ?s 1 = []"
      "started_uses two_pushes (shared_init mutex_free [] (\<lambda>t. ())) = [(0, [push_access 7]), (1, [push_access 8])]"
    by (simp_all add: two_pushes_def push_access_def arrow_def pointer_run_def use_starts_def shared_init_def run_act_def mutex_ops_def mutex_free_def
      mutex_lock_def mutex_unlock_def do_act_def)
  obtain ord where o: "(so_obj ?s, so_vars ?s) = fold use_effect ord ([], \<lambda>t. ())"
      "\<And>t. uses_of t (started_uses two_pushes (shared_init mutex_free [] (\<lambda>t. ()))) = uses_of t ord \<or> (\<exists>fs. so_todo ?s t = arrow fs)"
    using locked_expressions_atomic [OF refl, of two_pushes "[]" "\<lambda>t. ()"] unfolding r(2) option.case by blast
  have "uses_of 0 ord = [(0, [push_access 7])]" "uses_of 1 ord = [(1, [push_access 8])]"
    using o(2) [of 0] o(2) [of 1] r(3,4,5) by auto
  then show ?thesis using r(1) o(1) unfolding Let_def by blast
qed

end
