(* ===== verification/Queue_Drain.thy ===== *)
theory Queue_Drain
  imports Safe_Ptr
begin

text \<open>
  The loop at the end of \<open>try_recv_msg\<close> (\<^verbatim>\<open>include/scheduler/comm_helper.hpp\<close>) empties the queues of
  the secondary I/O threads. Each of its tests, reads and pops is an expression on a locking pointer,
  atomic by \<open>Safe_Ptr\<close>; the I/O threads push in between. The atomic \<open>drain_resp_queues\<close> of \<open>Comm_Recv\<close> is
  shown to describe it.
\<close>

section \<open>The loop\<close>

text \<open>The queue index and the expression that comes next.\<close>

datatype drain_pc = AtEmpty nat | AtFront nat | AtPop nat | Drained

record drain_state =
  dr_queues :: "recv_msg list list"
  dr_resps :: "recv_msg list"
  dr_pc :: drain_pc

text \<open>\<open>front\<close> and \<open>pop\<close> of an empty queue are errors.\<close>

definition drain_step :: "drain_state \<Rightarrow> cpp_error + drain_state" where
  "drain_step s =
     (case dr_pc s of
        AtEmpty k \<Rightarrow>
          Inr (s\<lparr>dr_pc := (if length (dr_queues s) \<le> k then Drained else if dr_queues s ! k = [] then AtEmpty (k + 1) else AtFront k)\<rparr>)
      | AtFront k \<Rightarrow>
          (case dr_queues s ! k of [] \<Rightarrow> Inl EndDereference | m # _ \<Rightarrow> Inr (s\<lparr>dr_resps := dr_resps s @ [m], dr_pc := AtPop k\<rparr>))
      | AtPop k \<Rightarrow>
          (case dr_queues s ! k of [] \<Rightarrow> Inl EndDereference | _ # q \<Rightarrow> Inr (s\<lparr>dr_queues := (dr_queues s)[k := q], dr_pc := AtEmpty k\<rparr>))
      | Drained \<Rightarrow> Inr s)"

datatype drain_event = IoPush nat recv_msg | SchedStep

fun drain_event_step :: "drain_event \<Rightarrow> drain_state \<Rightarrow> cpp_error + drain_state" where
  "drain_event_step (IoPush i m) s =
     Inr (if i < length (dr_queues s) then s\<lparr>dr_queues := (dr_queues s)[i := dr_queues s ! i @ [m]]\<rparr> else s)"
| "drain_event_step SchedStep s = drain_step s"

definition drain_start :: "recv_msg list list \<Rightarrow> recv_msg list \<Rightarrow> drain_state" where
  "drain_start qs rs = \<lparr>dr_queues = qs, dr_resps = rs, dr_pc = AtEmpty 0\<rparr>"

fun pushed_to :: "nat \<Rightarrow> drain_event list \<Rightarrow> recv_msg list" where
  "pushed_to i [] = []"
| "pushed_to i (IoPush j m # evs) = (if j = i then m # pushed_to i evs else pushed_to i evs)"
| "pushed_to i (SchedStep # evs) = pushed_to i evs"

lemma pushed_to_append [simp]: "pushed_to i (xs @ ys) = pushed_to i xs @ pushed_to i ys"
  by (induction i xs rule: pushed_to.induct) auto

section \<open>What has been collected\<close>

fun drain_at :: "nat \<Rightarrow> drain_pc \<Rightarrow> nat" where
  "drain_at n (AtEmpty k) = k"
| "drain_at n (AtFront k) = k"
| "drain_at n (AtPop k) = k"
| "drain_at n Drained = n"

text \<open>The message that has been read and not yet popped counts as collected.\<close>

definition left_in :: "drain_state \<Rightarrow> nat \<Rightarrow> recv_msg list" where
  "left_in s i = (if dr_pc s = AtPop i then tl (dr_queues s ! i) else dr_queues s ! i)"

definition pc_ok :: "drain_state \<Rightarrow> bool" where
  "pc_ok s = (case dr_pc s of AtEmpty k \<Rightarrow> k \<le> length (dr_queues s) | Drained \<Rightarrow> True
     | AtFront k \<Rightarrow> k < length (dr_queues s) \<and> dr_queues s ! k \<noteq> [] | AtPop k \<Rightarrow> k < length (dr_queues s) \<and> dr_queues s ! k \<noteq> [])"

definition collects :: "recv_msg list list \<Rightarrow> recv_msg list \<Rightarrow> (nat \<Rightarrow> recv_msg list) \<Rightarrow> (nat \<Rightarrow> recv_msg list) \<Rightarrow> drain_state \<Rightarrow> bool" where
  "collects qs rs pushed got s \<longleftrightarrow> length (dr_queues s) = length qs \<and> pc_ok s
     \<and> (\<forall>i < length qs. got i @ left_in s i = qs ! i @ pushed i)
     \<and> (\<forall>i. drain_at (length qs) (dr_pc s) < i \<longrightarrow> got i = [])
     \<and> (\<forall>i < length qs. i < drain_at (length qs) (dr_pc s) \<longrightarrow> (\<exists>b. got i = qs ! i @ b))
     \<and> dr_resps s = rs @ concat (map got [0..<length qs])"

lemma concat_got:
  assumes "k < n" and "\<forall>i. k < i \<longrightarrow> got i = []"
  shows "concat (map (got(k := got k @ [m])) [0..<n]) = concat (map got [0..<n]) @ [m]"
proof -
  have "[0..<n] = [0..<k] @ k # [Suc k..<n]" using assms(1) upt_add_eq_append [of 0 k "n - k"] by (simp add: upt_conv_Cons)
  moreover have "concat (map got [Suc k..<n]) = []" using assms(2) by simp
  ultimately show ?thesis by (simp del: concat_eq_Nil_conv)
qed

lemma collects_push:
  assumes "collects qs rs pushed got s" and "i < length qs"
  shows "collects qs rs (pushed(i := pushed i @ [m])) got (s\<lparr>dr_queues := (dr_queues s)[i := dr_queues s ! i @ [m]]\<rparr>)"
proof -
  let ?s = "s\<lparr>dr_queues := (dr_queues s)[i := dr_queues s ! i @ [m]]\<rparr>"
  have l: "length (dr_queues s) = length qs" using assms(1) by (simp add: collects_def)
  have "dr_queues s ! i \<noteq> []" if "dr_pc s = AtPop i" using assms(1) that by (simp add: collects_def pc_ok_def)
  then have "left_in ?s j = (if j = i then left_in s i @ [m] else left_in s j)" if "j < length qs" for j
    using that assms(2) l by (auto simp: left_in_def nth_list_update)
  moreover have "pc_ok ?s" using assms l by (auto simp: collects_def pc_ok_def nth_list_update split: drain_pc.splits)
  ultimately show ?thesis using assms l by (auto simp: collects_def simp flip: append_assoc)
qed

lemma collects_step:
  assumes "collects qs rs pushed got s"
  shows "\<exists>s' got'. drain_step s = Inr s' \<and> collects qs rs pushed got' s'"
proof (cases "dr_pc s")
  case (AtEmpty k)
  have c: "k \<le> length qs" "k < length qs \<Longrightarrow> got k @ dr_queues s ! k = qs ! k @ pushed k" "length (dr_queues s) = length qs"
    using assms AtEmpty by (auto simp: collects_def pc_ok_def left_in_def)
  have e: "k < length qs \<Longrightarrow> dr_queues s ! k = [] \<Longrightarrow> \<exists>b. got k = qs ! k @ b" using c(2) by auto
  have "collects qs rs pushed got (s\<lparr>dr_pc := (if length qs \<le> k then Drained else if dr_queues s ! k = [] then AtEmpty (k + 1) else AtFront k)\<rparr>)"
    using assms AtEmpty c e by (auto simp: collects_def pc_ok_def left_in_def less_Suc_eq)
  then show ?thesis using AtEmpty c(3) by (auto simp: drain_step_def)
next
  case (AtFront k)
  then obtain m q where q: "k < length qs" "dr_queues s ! k = m # q"
    using assms by (auto simp: collects_def pc_ok_def neq_Nil_conv)
  have "collects qs rs pushed (got(k := got k @ [m])) (s\<lparr>dr_resps := dr_resps s @ [m], dr_pc := AtPop k\<rparr>)"
    using assms AtFront q by (auto simp: collects_def pc_ok_def left_in_def concat_got)
  then show ?thesis using AtFront q by (auto simp: drain_step_def)
next
  case (AtPop k)
  then obtain m q where q: "k < length qs" "dr_queues s ! k = m # q"
    using assms by (auto simp: collects_def pc_ok_def neq_Nil_conv)
  have "collects qs rs pushed got (s\<lparr>dr_queues := (dr_queues s)[k := q], dr_pc := AtEmpty k\<rparr>)"
    using assms AtPop q by (auto simp: collects_def pc_ok_def left_in_def nth_list_update)
  then show ?thesis using AtPop q by (auto simp: drain_step_def)
qed (use assms in \<open>auto simp: drain_step_def\<close>)

lemma collects_event:
  assumes "collects qs rs pushed got s"
  shows "\<exists>s' got'. drain_event_step e s = Inr s' \<and> collects qs rs (\<lambda>i. pushed i @ pushed_to i [e]) got' s'"
proof (cases e)
  case (IoPush j m)
  have l: "length (dr_queues s) = length qs" using assms by (simp add: collects_def)
  show ?thesis
  proof (cases "j < length qs")
    case True
    have "(\<lambda>i. pushed i @ pushed_to i [e]) = pushed(j := pushed j @ [m])" using IoPush by auto
    then show ?thesis using collects_push [OF assms True, of m] IoPush True l by auto
  next
    case False
    then have "collects qs rs (\<lambda>i. pushed i @ pushed_to i [e]) got s" using assms IoPush by (auto simp: collects_def)
    then show ?thesis using IoPush False l by auto
  qed
next
  case SchedStep
  then show ?thesis using collects_step [OF assms] by auto
qed

lemma collects_run:
  "\<exists>s got. foldE drain_event_step evs (drain_start qs rs) = Inr s \<and> collects qs rs (\<lambda>i. pushed_to i evs) got s"
proof (induction evs rule: rev_induct)
  case Nil
  have "concat (map (\<lambda>i. []) [0..<n]) = ([] :: recv_msg list)" for n :: nat by simp
  then have "collects qs rs (\<lambda>i. pushed_to i []) (\<lambda>i. []) (drain_start qs rs)"
    by (auto simp: collects_def drain_start_def pc_ok_def left_in_def)
  then show ?case by auto
next
  case (snoc e evs)
  then obtain s got where s: "foldE drain_event_step evs (drain_start qs rs) = Inr s" "collects qs rs (\<lambda>i. pushed_to i evs) got s" by blast
  then show ?case using collects_event [OF s(2), of e] by (auto simp: foldE_append)
qed

text \<open>
  C16. Draining the queues of the I/O threads acts like one atomic step. However the pushes of the I/O
  threads and the expressions of the loop interleave, no \<open>front\<close> or \<open>pop\<close> meets an empty queue; and
  when the loop has ended, the pushes to each queue split into earlier and later ones such
  that the loop has collected, and left behind, what the atomic drain does when it runs after the
  earlier and before the later ones.
\<close>

theorem drain_acts_atomically:
  assumes "foldE drain_event_step evs (drain_start (ch_resp_queues h) rs) = r"
  shows "\<exists>s. r = Inr s \<and> (dr_pc s = Drained \<longrightarrow>
     (\<exists>earlier later. (\<forall>i < length (ch_resp_queues h). pushed_to i evs = earlier i @ later i)
       \<and> (let h1 = h\<lparr>ch_resp_queues := map (\<lambda>i. ch_resp_queues h ! i @ earlier i) [0..<length (ch_resp_queues h)]\<rparr>;
              (h2, os2, rs2, sent2) = drain_resp_queues (h1, os, rs, sent)
          in dr_resps s = rs2 \<and> dr_queues s = map (\<lambda>i. ch_resp_queues h2 ! i @ later i) [0..<length (ch_resp_queues h)])))"
    (is "\<exists>s. _ \<and> (_ \<longrightarrow> (\<exists>earlier later. ?Q s earlier later))")
proof -
  let ?qs = "ch_resp_queues h"
  obtain s got where s: "r = Inr s" and c: "collects ?qs rs (\<lambda>i. pushed_to i evs) got s"
    using collects_run [of evs ?qs rs] assms by auto
  have "\<exists>earlier later. ?Q s earlier later" if d: "dr_pc s = Drained"
  proof -
    define earlier where "earlier i = drop (length (?qs ! i)) (got i)" for i
    have split: "pushed_to i evs = earlier i @ dr_queues s ! i \<and> got i = ?qs ! i @ earlier i" if i: "i < length ?qs" for i
    proof -
      obtain b where "got i = ?qs ! i @ b" using c d i by (auto simp: collects_def)
      moreover have "got i @ dr_queues s ! i = ?qs ! i @ pushed_to i evs" using c d i by (simp add: collects_def left_in_def)
      ultimately show ?thesis by (simp add: earlier_def)
    qed
    have "map got [0..<length ?qs] = map (\<lambda>i. ?qs ! i @ earlier i) [0..<length ?qs]" using split by simp
    then have "dr_resps s = rs @ concat (map (\<lambda>i. ?qs ! i @ earlier i) [0..<length ?qs])" using c unfolding collects_def by metis
    moreover have "length (dr_queues s) = length ?qs" using c by (simp add: collects_def)
    ultimately have "?Q s earlier (\<lambda>i. dr_queues s ! i)"
      using split by (auto simp: drain_resp_queues_def Let_def intro!: nth_equalityI)
    then show ?thesis by blast
  qed
  then show ?thesis using s by blast
qed

section \<open>The loop ends\<close>

definition drain_measure :: "drain_state \<Rightarrow> nat" where
  "drain_measure s = (let w = 3 * sum_list (map length (dr_queues s)); n = length (dr_queues s) in
     case dr_pc s of AtEmpty k \<Rightarrow> w + (n - k) + 1 | AtFront k \<Rightarrow> w + (n - k) | AtPop k \<Rightarrow> w + (n - k) - 1 | Drained \<Rightarrow> 0)"

fun push_count :: "drain_event \<Rightarrow> nat" where
  "push_count (IoPush i m) = 1"
| "push_count SchedStep = 0"

lemma sum_length_update:
  "k < length qs \<Longrightarrow> sum_list (map length (qs[k := q])) + length (qs ! k) = sum_list (map length qs) + length q"
  by (induction qs arbitrary: k) (auto split: nat.splits)

lemma drain_step_measure:
  assumes "pc_ok s" and "drain_step s = Inr s'"
  shows "dr_pc s' = Drained \<or> drain_measure s' + 1 \<le> drain_measure s"
proof (cases "dr_pc s")
  case (AtPop k)
  then obtain m q where q: "k < length (dr_queues s)" "dr_queues s ! k = m # q" using assms(1) by (auto simp: pc_ok_def neq_Nil_conv)
  then show ?thesis
    using assms(2) AtPop sum_length_update [OF q(1), of q] by (auto simp: drain_step_def drain_measure_def Let_def)
next
  case (AtFront k)
  then show ?thesis using assms by (auto simp: pc_ok_def drain_step_def drain_measure_def Let_def split: list.splits)
next
  case (AtEmpty k)
  have "s' = s\<lparr>dr_pc := (if length (dr_queues s) \<le> k then Drained else if dr_queues s ! k = [] then AtEmpty (k + 1) else AtFront k)\<rparr>"
    using assms(2) AtEmpty by (simp add: drain_step_def)
  then show ?thesis using AtEmpty by (auto simp: drain_measure_def Let_def)
qed (use assms in \<open>simp add: drain_step_def\<close>)

lemma drain_push_measure:
  assumes "drain_event_step (IoPush i m) s = Inr s'"
  shows "dr_pc s' = dr_pc s \<and> drain_measure s' \<le> drain_measure s + 3"
  using assms sum_length_update [of i "dr_queues s" "dr_queues s ! i @ [m]"] by (auto simp: drain_measure_def Let_def split: drain_pc.splits if_splits)

lemma drain_run_measure:
  assumes "foldE drain_event_step evs (drain_start qs rs) = Inr s" and "dr_pc s \<noteq> Drained"
  shows "drain_measure s + length (filter (\<lambda>e. e = SchedStep) evs)
    \<le> drain_measure (drain_start qs rs) + 3 * sum_list (map push_count evs)"
  using assms
proof (induction evs arbitrary: s rule: rev_induct)
  case (snoc e evs)
  obtain s1 got where s1: "foldE drain_event_step evs (drain_start qs rs) = Inr s1" "collects qs rs (\<lambda>i. pushed_to i evs) got s1"
    using collects_run by blast
  have e: "drain_event_step e s1 = Inr s" using snoc.prems(1) s1(1) by (auto simp: foldE_append bindE_Inr_iff)
  have nd: "dr_pc s1 \<noteq> Drained" using e snoc.prems(2) by (cases e) (auto simp: drain_step_def split: if_splits)
  have "pc_ok s1" using s1(2) by (simp add: collects_def)
  then show ?case
    using snoc.IH [OF s1(1) nd] e snoc.prems(2) drain_step_measure [of s1 s] drain_push_measure [of _ _ s1 s] by (cases e) force+
qed simp

text \<open>
  The draining loop ends when the I/O threads stop pushing. If the queues held a number of messages
  and the I/O threads push some more during the loop, three steps of the scheduler per message, one
  per queue and two more bring the loop to its end.
\<close>

theorem drain_ends:
  assumes "foldE drain_event_step evs (drain_start qs rs) = Inr s"
    and "3 * (sum_list (map length qs) + sum_list (map push_count evs)) + length qs + 2 \<le> length (filter (\<lambda>e. e = SchedStep) evs)"
  shows "dr_pc s = Drained"
  using drain_run_measure [OF assms(1)] assms(2) by (fastforce simp: drain_start_def drain_measure_def Let_def)

definition io_msg :: "string \<Rightarrow> recv_msg" where
  "io_msg k = empty_recv_msg\<lparr>rv_data_key := k\<rparr>"

theorem drain_ends_witness:
  "\<exists>s. foldE drain_event_step ([SchedStep, IoPush 0 (io_msg ''b'')] @ replicate 8 SchedStep) (drain_start [[io_msg ''a'']] []) = Inr s
     \<and> dr_pc s = Drained"
proof -
  obtain s where r: "foldE drain_event_step ([SchedStep, IoPush 0 (io_msg ''b'')] @ replicate 8 SchedStep) (drain_start [[io_msg ''a'']] []) = Inr s"
    using collects_run by blast
  then show ?thesis using drain_ends [OF r] by simp
qed

text \<open>One queue; the message is pushed before the loop tests it, a second one after the last test.\<close>

definition late_push :: "drain_event list" where
  "late_push = [IoPush 0 (io_msg ''b''), SchedStep, SchedStep, SchedStep, SchedStep, IoPush 0 (io_msg ''c''), SchedStep]"

theorem drain_acts_atomically_witness:
  "\<exists>s. foldE drain_event_step late_push (drain_start (ch_resp_queues (comm_helper_init [] ''10.0.0.2'' 2 [])) []) = Inr s
     \<and> dr_pc s = Drained \<and> dr_resps s = [io_msg ''b''] \<and> dr_queues s = [[io_msg ''c'']]
     \<and> (\<exists>earlier later. pushed_to 0 late_push = earlier @ later \<and> dr_resps s = earlier \<and> dr_queues s = [later])"
proof -
  have q: "ch_resp_queues (comm_helper_init [] ''10.0.0.2'' 2 []) = [[]]" by (simp add: comm_helper_init_def)
  have r: "foldE drain_event_step late_push (drain_start [[]] [])
      = Inr \<lparr>dr_queues = [[io_msg ''c'']], dr_resps = [io_msg ''b''], dr_pc = Drained\<rparr>"
    by (simp add: late_push_def drain_start_def drain_step_def bindE_def)
  show ?thesis
    using drain_acts_atomically [OF refl, of late_push "comm_helper_init [] ''10.0.0.2'' 2 []" "[]"] unfolding q r
    by (auto simp: drain_resp_queues_def Let_def)
qed

end
