(* ===== verification/Requests.thy ===== *)
theory Requests
  imports Prelude
begin

text \<open>
  Sockets by address and requests that wait for their answers: \<^verbatim>\<open>common/include/zmq/socket_cache.cpp\<close>
  and \<^verbatim>\<open>common/include/requests.hpp\<close>. The sockets of ZeroMQ are numbers, given out by the context; what
  \<open>recv\<close> returns is a sequence of messages and timeouts.
\<close>

section \<open>Sockets by address\<close>

text \<open>The sockets the context has made, each with the address it is connected to.\<close>

type_synonym zmq_context = "string list"

definition socket_connect :: "string \<Rightarrow> zmq_context \<Rightarrow> nat \<times> zmq_context" where
  "socket_connect addr ctx = (length ctx, ctx @ [addr])"

type_synonym socket_cache = "(string, nat) table"

definition socket_at :: "string \<Rightarrow> socket_cache \<times> zmq_context \<Rightarrow> nat \<times> socket_cache \<times> zmq_context" where
  "socket_at addr s =
     (let (cache, ctx) = s
      in case map_of cache addr of
           Some sock \<Rightarrow> (sock, cache, ctx)
         | None \<Rightarrow> let (sock, ctx1) = socket_connect addr ctx in (sock, tput addr sock cache, ctx1))"

definition socket_clear :: "socket_cache \<times> zmq_context \<Rightarrow> socket_cache \<times> zmq_context" where
  "socket_clear s = ([], snd s)"

datatype socket_use = SocketAt string | SocketClear

fun socket_step :: "socket_use \<Rightarrow> socket_cache \<times> zmq_context \<Rightarrow> socket_cache \<times> zmq_context" where
  "socket_step (SocketAt addr) s = snd (socket_at addr s)"
| "socket_step SocketClear s = socket_clear s"

definition cache_ok :: "socket_cache \<times> zmq_context \<Rightarrow> bool" where
  "cache_ok s \<longleftrightarrow> (\<forall>addr sock. map_of (fst s) addr = Some sock \<longrightarrow> sock < length (snd s) \<and> snd s ! sock = addr)"

lemma socket_at_ok:
  assumes "cache_ok s" and "socket_at addr s = (sock, s')"
  shows "cache_ok s'" and "sock < length (snd s')" and "snd s' ! sock = addr" and "map_of (fst s') addr = Some sock"
    and "\<exists>more_socks. snd s' = snd s @ more_socks"
  using assms by (auto simp: cache_ok_def socket_at_def socket_connect_def nth_append less_SucI split: prod.splits option.splits if_splits)

definition clears :: "socket_use list \<Rightarrow> nat" where
  "clears evs = length (filter (\<lambda>e. e = SocketClear) evs)"

lemma socket_at_count:
  assumes "socket_at a s = (sock, s')" and "count_list (snd s) addr \<le> c + of_bool (thas (fst s) addr)"
  shows "count_list (snd s') addr \<le> c + of_bool (thas (fst s') addr)"
  using assms by (cases s) (auto simp: socket_at_def socket_connect_def thas_def split: option.splits if_splits)

lemma socket_run_ok:
  "cache_ok (fold socket_step evs ([], []))
   \<and> count_list (snd (fold socket_step evs ([], []))) addr \<le> clears evs + of_bool (thas (fst (fold socket_step evs ([], []))) addr)"
proof (induction evs rule: rev_induct)
  case Nil
  then show ?case by (simp add: cache_ok_def clears_def)
next
  case (snoc e evs)
  let ?s = "fold socket_step evs ([], [])"
  show ?case
  proof (cases e)
    case (SocketAt a)
    obtain sock s' where r: "socket_at a ?s = (sock, s')" by (cases "socket_at a ?s")
    have "count_list (snd s') addr \<le> clears evs + of_bool (thas (fst s') addr)"
      using snoc by (intro socket_at_count [OF r]) simp
    then show ?thesis using socket_at_ok(1) [OF _ r] snoc r SocketAt by (simp add: clears_def)
  next
    case SocketClear
    have "count_list (snd ?s) addr \<le> clears evs + 1" using snoc by (cases "thas (fst ?s) addr") auto
    then show ?thesis using SocketClear by (simp add: socket_clear_def cache_ok_def clears_def)
  qed
qed

text \<open>
  The cache of sockets keeps one connection per address. After any sequence of uses and clearings, the
  socket that is returned for an address is connected to this address, asking again returns the same
  socket and makes no new one, and the sockets ever connected to an address are at most one more
  than the times the cache was cleared.
\<close>

theorem socket_cache_one_connection:
  assumes "fold socket_step evs ([], []) = s" and "socket_at addr s = (sock, s')"
  shows "sock < length (snd s') \<and> snd s' ! sock = addr \<and> socket_at addr s' = (sock, s')
    \<and> count_list (snd s') addr \<le> length (filter (\<lambda>e. e = SocketClear) evs) + 1"
proof -
  have ok: "cache_ok s" using socket_run_ok [of evs addr] assms(1) by simp
  note r = socket_at_ok [OF ok assms(2)]
  have "socket_at addr s' = (sock, s')" using r(4) by (cases s') (simp add: socket_at_def)
  moreover have "count_list (snd s') addr \<le> clears evs + 1"
    using socket_run_ok [of "evs @ [SocketAt addr]" addr] assms by (auto simp: clears_def of_bool_def split: if_splits)
  ultimately show ?thesis using r(2,3) by (simp add: clears_def)
qed

theorem socket_cache_one_connection_witness:
  "\<exists>sock s'. socket_at ''tcp://a'' (fold socket_step [SocketAt ''tcp://a'', SocketAt ''tcp://b'', SocketClear, SocketAt ''tcp://b''] ([], []))
       = (sock, s') \<and> snd s' ! sock = ''tcp://a''"
proof -
  let ?s = "fold socket_step [SocketAt ''tcp://a'', SocketAt ''tcp://b'', SocketClear, SocketAt ''tcp://b''] ([], [])"
  obtain sock s' where "socket_at ''tcp://a'' ?s = (sock, s')" by (cases "socket_at ''tcp://a'' ?s")
  then show ?thesis using socket_cache_one_connection [OF refl, of "''tcp://a''" _ sock s'] by blast
qed

section \<open>Requests and answers\<close>

text \<open>
  The loop of \<open>receive\<close>: \<open>None\<close> in the input is a timeout of the socket. \<open>timeout_limit\<close> is unsigned and
  is decremented before it is compared with zero. Where the input ends the loop is still waiting.
\<close>

fun receive_loop :: "('r \<Rightarrow> string) \<Rightarrow> 'r option list \<Rightarrow> u32 \<Rightarrow> string list \<Rightarrow> 'r list \<Rightarrow> (bool \<times> string list \<times> 'r list) option" where
  "receive_loop rid [] limit ids rs = None"
| "receive_loop rid (Some r # xs) limit ids rs =
     (let hit = rid r \<in> set ids; ids' = (if hit then removeAll (rid r) ids else ids); rs' = (if hit then rs @ [r] else rs)
      in if ids' = [] then Some (True, ids', rs') else receive_loop rid xs limit ids' rs')"
| "receive_loop rid (None # xs) limit ids rs =
     (if limit - 1 = 0 then Some (False, ids, []) else receive_loop rid xs (limit - 1) ids rs)"

definition receive :: "('r \<Rightarrow> string) \<Rightarrow> 'r option list \<Rightarrow> string list \<Rightarrow> (bool \<times> string list \<times> 'r list) option" where
  "receive rid xs ids = receive_loop rid xs (of_nat (length ids)) ids []"

text \<open>\<open>make_request\<close>, with the answer that \<open>RES()\<close> makes when the request failed.\<close>

definition make_request :: "('r \<Rightarrow> string) \<Rightarrow> 'r \<Rightarrow> string \<Rightarrow> 'r option list \<Rightarrow> (cpp_error + 'r \<times> bool) option" where
  "make_request rid dflt req_id xs =
     (case receive rid xs [req_id] of
        None \<Rightarrow> None
      | Some (ok, ids, rs) \<Rightarrow>
          Some (if ok then bindE (nth_or VectorIndex rs 0) (\<lambda>r. Inr (r, True)) else Inr (dflt, False)))"

definition timeouts :: "'r option list \<Rightarrow> nat" where
  "timeouts xs = length (filter (\<lambda>x. x = None) xs)"

definition answers :: "'r option list \<Rightarrow> 'r list" where
  "answers xs = List.map_filter id xs"

lemma timeouts_simps [simp]: "timeouts [] = 0" "timeouts (None # xs) = Suc (timeouts xs)" "timeouts (Some r # xs) = timeouts xs"
  by (simp_all add: timeouts_def)

lemma answers_simps [simp]: "answers [] = []" "answers (None # xs) = answers xs" "answers (Some r # xs) = r # answers xs"
  by (simp_all add: answers_def map_filter_simps)

text \<open>The first answer to each number that is asked for.\<close>

fun first_answers :: "('r \<Rightarrow> string) \<Rightarrow> string list \<Rightarrow> 'r list \<Rightarrow> 'r list" where
  "first_answers rid ids [] = []"
| "first_answers rid ids (r # rs) =
     (if rid r \<in> set ids then r # first_answers rid (removeAll (rid r) ids) rs else first_answers rid ids rs)"

lemma first_answers_ids:
  "distinct (map rid (first_answers rid ids rs))" "set (map rid (first_answers rid ids rs)) = set ids \<inter> rid ` set rs"
  by (induction rs arbitrary: ids) auto

lemma unat_pred: "0 < (w :: u32) \<Longrightarrow> unat w = Suc (unat (w - 1))"
  using unat_gt_0 [of w] by (cases "w = 0") (auto simp: unat_sub_if_size Suc_le_eq)

text \<open>With \<open>limit\<close> timeouts left and answers \<open>rs\<close> so far, after the part \<open>seen\<close> of the input.\<close>

definition receive_end :: "('r \<Rightarrow> string) \<Rightarrow> nat \<Rightarrow> string list \<Rightarrow> 'r list \<Rightarrow> 'r option list \<Rightarrow> bool \<times> string list \<times> 'r list \<Rightarrow> bool" where
  "receive_end rid limit ids rs seen res \<longleftrightarrow>
     (if fst res then fst (snd res) = [] \<and> timeouts seen < limit \<and> snd (snd res) = rs @ first_answers rid ids (answers seen)
        \<and> set ids \<subseteq> rid ` set (answers seen)
      else snd (snd res) = [] \<and> timeouts seen = limit \<and> \<not> set ids \<subseteq> rid ` set (answers seen))"

lemma receive_end_hit:
  assumes "rid r \<in> set ids" and "receive_end rid limit (removeAll (rid r) ids) (rs @ [r]) seen res"
  shows "receive_end rid limit ids rs (Some r # seen) res"
proof -
  have "set ids \<subseteq> rid ` set (answers (Some r # seen)) \<longleftrightarrow> set (removeAll (rid r) ids) \<subseteq> rid ` set (answers seen)" by auto
  moreover have "rs @ first_answers rid ids (answers (Some r # seen)) = (rs @ [r]) @ first_answers rid (removeAll (rid r) ids) (answers seen)"
    using assms(1) by simp
  ultimately show ?thesis using assms(2) unfolding receive_end_def by (simp only: timeouts_simps)
qed

lemma receive_end_miss:
  assumes "rid r \<notin> set ids" and "receive_end rid limit ids rs seen res"
  shows "receive_end rid limit ids rs (Some r # seen) res"
proof -
  have "set ids \<subseteq> rid ` set (answers (Some r # seen)) \<longleftrightarrow> set ids \<subseteq> rid ` set (answers seen)" using assms(1) by auto
  moreover have "first_answers rid ids (answers (Some r # seen)) = first_answers rid ids (answers seen)" using assms(1) by simp
  ultimately show ?thesis using assms(2) unfolding receive_end_def by (simp only: timeouts_simps)
qed

lemma receive_loop_end:
  assumes "receive_loop rid xs limit ids rs = Some res" and "0 < limit" and "ids \<noteq> []"
  shows "\<exists>seen later. xs = seen @ later \<and> receive_end rid (unat limit) ids rs seen res"
  using assms
proof (induction xs arbitrary: limit ids rs)
  case (Cons x xs)
  show ?case
  proof (cases x)
    case None
    have u: "unat limit = Suc (unat (limit - 1))" using Cons.prems(2) by (rule unat_pred)
    show ?thesis
    proof (cases "limit - 1 = 0")
      case True
      then have "receive_end rid (unat limit) ids rs [None] res"
        using Cons.prems(1,3) None u by (auto simp: receive_end_def)
      then show ?thesis using None by (metis append_Cons append_Nil)
    next
      case False
      then have "0 < limit - 1" by (simp only: word_neq_0_conv)
      then obtain seen later where s: "xs = seen @ later" "receive_end rid (unat (limit - 1)) ids rs seen res"
        using Cons.IH [of "limit - 1" ids rs] Cons.prems None False by auto
      then have "receive_end rid (unat limit) ids rs (None # seen) res" using u by (auto simp: receive_end_def)
      then show ?thesis using s(1) None by (metis append_Cons)
    qed
  next
    case (Some r)
    show ?thesis
    proof (cases "rid r \<in> set ids \<and> removeAll (rid r) ids = []")
      case True
      have "receive_end rid (unat limit) (removeAll (rid r) ids) (rs @ [r]) [] res"
        using True Cons.prems(1,2) Some by (auto simp: receive_end_def unat_gt_0)
      then have "receive_end rid (unat limit) ids rs [Some r] res" using receive_end_hit True by metis
      then show ?thesis using Some by (metis append_Cons append_Nil)
    next
      case False
      then have "receive_loop rid xs limit (if rid r \<in> set ids then removeAll (rid r) ids else ids) (if rid r \<in> set ids then rs @ [r] else rs) = Some res"
        using Cons.prems(1,3) Some by (simp add: Let_def split: if_splits)
      moreover have "(if rid r \<in> set ids then removeAll (rid r) ids else ids) \<noteq> []" using False Cons.prems(3) by simp
      ultimately obtain seen later where s: "xs = seen @ later"
        "receive_end rid (unat limit) (if rid r \<in> set ids then removeAll (rid r) ids else ids) (if rid r \<in> set ids then rs @ [r] else rs) seen res"
        using Cons.IH Cons.prems(2) by blast
      then have "receive_end rid (unat limit) ids rs (Some r # seen) res"
        using receive_end_hit [of rid r ids] receive_end_miss [of rid r ids] by (cases "rid r \<in> set ids") simp_all
      then show ?thesis using s(1) Some by (metis append_Cons)
    qed
  qed
qed simp

lemma receive_loop_returns:
  "0 < limit \<Longrightarrow> ids \<noteq> [] \<Longrightarrow> unat limit \<le> timeouts xs \<or> set ids \<subseteq> rid ` set (answers xs) \<Longrightarrow> \<exists>res. receive_loop rid xs limit ids rs = Some res"
proof (induction xs arbitrary: limit ids rs)
  case (Cons x xs)
  show ?case
  proof (cases x)
    case None
    have "unat limit = Suc (unat (limit - 1))" using Cons.prems(1) by (rule unat_pred)
    moreover have "limit - 1 \<noteq> 0 \<Longrightarrow> 0 < limit - 1" by (simp only: word_neq_0_conv)
    ultimately show ?thesis using Cons.IH [of "limit - 1" ids rs] Cons.prems(2,3) None by (cases "limit - 1 = 0") auto
  next
    case (Some r)
    let ?ids = "if rid r \<in> set ids then removeAll (rid r) ids else ids"
    have "unat limit \<le> timeouts xs \<or> set ?ids \<subseteq> rid ` set (answers xs)" using Cons.prems(3) Some by auto
    then have "?ids \<noteq> [] \<Longrightarrow> \<exists>res. receive_loop rid xs limit ?ids (if rid r \<in> set ids then rs @ [r] else rs) = Some res"
      using Cons.IH Cons.prems(1) by blast
    then show ?thesis using Some by (cases "?ids = []") (simp_all only: receive_loop.simps Let_def if_True if_False HOL.simp_thms, blast+)
  qed
qed (auto simp: unat_eq_0)

text \<open>
  Waiting for answers ends as it should. Let a nonempty set of fewer than \<open>2 ^ 32\<close> requests be open.
  \<open>receive\<close> returns as soon as every request is answered or as many timeouts as requests have
  happened, whichever comes first in the input. When it succeeds, it returns the first answer to each
  request, in the order of arrival and nothing else; when it fails, it returns no answers and some
  request is unanswered.
\<close>

theorem receive_returns_answers:
  assumes "ids \<noteq> []" and "distinct ids" and "length ids < 2 ^ 32"
  shows "(length ids \<le> timeouts xs \<or> set ids \<subseteq> rid ` set (answers xs) \<longrightarrow> (\<exists>res. receive rid xs ids = Some res))
    \<and> (\<forall>ok left rs. receive rid xs ids = Some (ok, left, rs) \<longrightarrow> (\<exists>seen later. xs = seen @ later \<and>
         (if ok then timeouts seen < length ids \<and> rs = first_answers rid ids (answers seen)
            \<and> distinct (map rid rs) \<and> set (map rid rs) = set ids
          else timeouts seen = length ids \<and> rs = [] \<and> \<not> set ids \<subseteq> rid ` set (answers seen))))"
    (is "_ \<and> (\<forall>ok left rs. _ \<longrightarrow> (\<exists>seen later. _ \<and> ?E ok rs seen))")
proof -
  have u: "unat (of_nat (length ids) :: u32) = length ids" using assms(3) by (simp add: unat_of_nat take_bit_nat_eq_self)
  moreover have "length ids \<noteq> 0" using assms(1) by simp
  ultimately have l: "0 < (of_nat (length ids) :: u32)" by (metis unat_0 word_neq_0_conv)
  have "\<exists>seen later. xs = seen @ later \<and> ?E ok rs seen"
    if r: "receive rid xs ids = Some (ok, left, rs)" for ok left rs
  proof -
    obtain seen later where s: "xs = seen @ later" "receive_end rid (length ids) ids [] seen (ok, left, rs)"
      using receive_loop_end [OF r [unfolded receive_def] l assms(1)] unfolding u by blast
    moreover have "distinct (map rid rs) \<and> set (map rid rs) = set ids" if "ok"
      using s(2) that first_answers_ids [of rid ids "answers seen"] by (auto simp: receive_end_def)
    ultimately have "xs = seen @ later \<and> ?E ok rs seen" by (auto simp: receive_end_def)
    then show ?thesis by blast
  qed
  moreover have "\<exists>res. receive rid xs ids = Some res" if "length ids \<le> timeouts xs \<or> set ids \<subseteq> rid ` set (answers xs)"
    using receive_loop_returns [OF l assms(1), of xs rid "[]"] that u by (simp add: receive_def)
  ultimately show ?thesis by blast
qed

theorem receive_returns_answers_witness:
  "\<exists>res. receive id [Some ''2'', None, Some ''7'', Some ''2'', Some ''1''] [''1'', ''2''] = Some res"
  using receive_returns_answers [of "[''1'', ''2'']" "[Some ''2'', None, Some ''7'', Some ''2'', Some ''1'']" id] by simp

end
