(* ===== verification/Mem_Alloc.thy ===== *)
theory Mem_Alloc
  imports Prelude
begin

text \<open>
  The allocators of the inter-process communication library, \<^verbatim>\<open>common/shm-ipc/src/libipc/memory/alloc.h\<close>, in the
  instance the library uses: blocks of one size (\<open>fixed_alloc\<close>) cut from larger pieces (\<open>variable_alloc\<close>), which
  are cut from chunks of \<open>std::malloc\<close> that are linked by a header (\<open>scope_alloc\<close>).

  Memory is explicit. An address is a number below $2^{64}$ and 0 is the null pointer; the links that
  the allocators keep inside free blocks and chunk headers are cells of memory, eight bytes each.
  What \<open>std::malloc\<close> returns is a parameter: from what is allocated and the size asked for, the address
  of the new block, or 0. Sizes wrap at $2^{64}$ where the code adds, subtracts or multiplies them.
\<close>

unbundle bit_operations_syntax

section \<open>Memory\<close>

type_synonym addr = nat
type_synonym malloc_fn = "(addr \<times> nat) list \<Rightarrow> nat \<Rightarrow> addr"

record memory =
  cells :: "addr \<Rightarrow> nat"
  mallocs :: "(addr \<times> nat) list"

definition put_cell :: "addr \<Rightarrow> nat \<Rightarrow> memory \<Rightarrow> memory" where
  "put_cell a v m = m\<lparr>cells := (cells m)(a := v)\<rparr>"

definition wrap64 :: "nat \<Rightarrow> nat" where
  "wrap64 n = n mod 2 ^ 64"

definition minus64 :: "nat \<Rightarrow> nat \<Rightarrow> nat" where
  "minus64 a b = wrap64 (a + 2 ^ 64 - b)"

text \<open>\<open>std::malloc\<close> and \<open>std::free\<close>; to free what is not allocated is undefined.\<close>

definition std_malloc :: "malloc_fn \<Rightarrow> nat \<Rightarrow> memory \<Rightarrow> addr \<times> memory" where
  "std_malloc mal n m = (let p = mal (mallocs m) n in (p, if p = 0 then m else m\<lparr>mallocs := (p, n) # mallocs m\<rparr>))"

definition std_free :: "addr \<Rightarrow> memory \<Rightarrow> cpp_error + memory" where
  "std_free p m =
     (if p = 0 then Inr m
      else if p \<in> fst ` set (mallocs m) then Inr (m\<lparr>mallocs := filter (\<lambda>b. fst b \<noteq> p) (mallocs m)\<rparr>)
      else Inl InvalidFree)"

section \<open>\<open>static_alloc\<close>\<close>

definition static_alloc_alloc :: "malloc_fn \<Rightarrow> nat \<Rightarrow> memory \<Rightarrow> addr \<times> memory" where
  "static_alloc_alloc mal sz m = (if sz \<noteq> 0 then std_malloc mal sz m else (0, m))"

definition static_alloc_free :: "addr \<Rightarrow> nat \<Rightarrow> memory \<Rightarrow> cpp_error + memory" where
  "static_alloc_free p sz m = std_free p m"

section \<open>\<open>scope_alloc\<close>\<close>

definition aligned :: "nat \<Rightarrow> nat \<Rightarrow> nat" where
  "aligned sz alignment = unat (((of_nat sz - 1) AND NOT (of_nat alignment - 1)) + of_nat alignment :: u64)"

text \<open>\<open>alignof(std::max_align_t)\<close>, and a header of two words: \<open>size_\<close> at its address and \<open>next_\<close> eight bytes on.\<close>

definition max_align :: nat where
  "max_align = 16"

definition aligned_block_size :: nat where
  "aligned_block_size = aligned 16 max_align"

record scope_alloc =
  sc_head :: addr
  sc_tail :: addr

definition scope_empty :: "scope_alloc \<Rightarrow> bool" where
  "scope_empty sc \<longleftrightarrow> sc_head sc = 0"

definition block_next :: "memory \<Rightarrow> addr \<Rightarrow> addr" where
  "block_next m b = cells m (b + 8)"

definition scope_take :: "scope_alloc \<Rightarrow> scope_alloc \<Rightarrow> memory \<Rightarrow> cpp_error + scope_alloc \<times> scope_alloc \<times> memory" where
  "scope_take sc rhs m =
     (if scope_empty rhs then Inr (sc, rhs, m)
      else if scope_empty sc then Inr (rhs, sc, m)
      else if sc_tail sc = 0 then Inl NullDereference
      else Inr (sc\<lparr>sc_tail := sc_tail rhs\<rparr>, \<lparr>sc_head = block_next m (sc_tail sc), sc_tail = 0\<rparr>,
                put_cell (sc_tail sc + 8) (sc_head rhs) m))"

definition scope_alloc_alloc :: "malloc_fn \<Rightarrow> nat \<Rightarrow> scope_alloc \<Rightarrow> memory \<Rightarrow> cpp_error + addr \<times> scope_alloc \<times> memory" where
  "scope_alloc_alloc mal sz sc m =
     (let real_size = wrap64 (aligned_block_size + sz);
          (cur, m1) = static_alloc_alloc mal real_size m
      in if cur = 0 then Inl NullDereference
         else Inr (cur + aligned_block_size,
                   \<lparr>sc_head = cur, sc_tail = (if sc_tail sc = 0 then cur else sc_tail sc)\<rparr>,
                   put_cell (cur + 8) (sc_head sc) (put_cell cur real_size m1)))"

text \<open>
  \<open>free_all\<close>, the destructor: the loop reads the link of a chunk and frees the chunk, until the link is
  null. Each round gives a chunk back or frees what is not allocated, so the loop ends.
\<close>

function free_all :: "addr \<Rightarrow> memory \<Rightarrow> cpp_error + memory" where
  "free_all head m =
     (if head = 0 then Inr m
      else case static_alloc_free head (cells m head) m of
             Inl e \<Rightarrow> Inl e
           | Inr m' \<Rightarrow> free_all (block_next m head) m')"
  by pat_completeness auto
termination
proof (relation "measure (\<lambda>(head, m). length (mallocs m))")
  show "wf (measure (\<lambda>(head :: addr, m). length (mallocs m)))" by simp
  fix head m m'
  assume "head \<noteq> 0" "static_alloc_free head (cells m head) m = Inr m'"
  then have "head \<in> fst ` set (mallocs m)" "mallocs m' = filter (\<lambda>b. fst b \<noteq> head) (mallocs m)"
    by (auto simp: static_alloc_free_def std_free_def split: if_splits)
  then show "((block_next m head, m'), (head, m)) \<in> measure (\<lambda>(head, m). length (mallocs m))"
    by (auto intro: length_filter_less)
qed

declare free_all.simps [simp del]

section \<open>\<open>variable_alloc\<close>\<close>

definition aligned_chunk_size :: nat where
  "aligned_chunk_size = aligned (8 * 1024 * 256) max_align"

record variable_alloc =
  va_head :: addr
  va_tail :: addr
  va_scope :: scope_alloc

definition va_remain :: "variable_alloc \<Rightarrow> nat" where
  "va_remain va = minus64 (va_tail va) (va_head va)"

definition variable_take :: "variable_alloc \<Rightarrow> variable_alloc \<Rightarrow> memory \<Rightarrow> cpp_error + variable_alloc \<times> variable_alloc \<times> memory" where
  "variable_take va rhs m =
     (let va1 = (if va_remain va < va_remain rhs then va\<lparr>va_head := va_head rhs, va_tail := va_tail rhs\<rparr> else va);
          rhs1 = rhs\<lparr>va_head := 0, va_tail := 0\<rparr>
      in bindE (scope_take (va_scope va1) (va_scope rhs1) m)
           (\<lambda>(sc, sc', m'). Inr (va1\<lparr>va_scope := sc\<rparr>, rhs1\<lparr>va_scope := sc'\<rparr>, m')))"

definition variable_alloc_alloc :: "malloc_fn \<Rightarrow> nat \<Rightarrow> variable_alloc \<Rightarrow> memory \<Rightarrow> cpp_error + addr \<times> variable_alloc \<times> memory" where
  "variable_alloc_alloc mal size0 va m =
     (let sz = aligned size0 max_align
      in if va_remain va < sz then
           (let chunk_size = max aligned_chunk_size sz
            in bindE (scope_alloc_alloc mal chunk_size (va_scope va) m)
                 (\<lambda>(ptr, sc, m').
                    let tail = ptr + chunk_size
                    in Inr (ptr, \<lparr>va_head = tail - (chunk_size - sz), va_tail = tail, va_scope = sc\<rparr>, m')))
         else Inr (va_head va, va\<lparr>va_head := va_head va + sz\<rparr>, m))"

section \<open>\<open>fixed_alloc\<close>\<close>

record fixed_alloc =
  fa_block_size :: nat
  fa_init_expand :: nat
  fa_cursor :: addr
  fa_alloc :: variable_alloc

definition empty_variable :: variable_alloc where
  "empty_variable = \<lparr>va_head = 0, va_tail = 0, va_scope = \<lparr>sc_head = 0, sc_tail = 0\<rparr>\<rparr>"

definition new_fixed :: "nat \<Rightarrow> nat \<Rightarrow> fixed_alloc" where
  "new_fixed block_size init_expand =
     \<lparr>fa_block_size = block_size, fa_init_expand = init_expand, fa_cursor = 0, fa_alloc = empty_variable\<rparr>"

definition fixed_empty :: "fixed_alloc \<Rightarrow> bool" where
  "fixed_empty fa \<longleftrightarrow> fa_cursor fa = 0"

text \<open>\<open>while (1)\<close> of \<open>take\<close>: the last block of a free list.\<close>

partial_function (option) last_block :: "memory \<Rightarrow> addr \<Rightarrow> addr option" where
  "last_block m cur = (if cells m cur = 0 then Some cur else last_block m (cells m cur))"

text \<open>\<open>fixed_alloc_base::take\<close>: the free list of \<open>rhs\<close> goes behind the own one.\<close>

definition fixed_base_take :: "fixed_alloc \<Rightarrow> fixed_alloc \<Rightarrow> memory \<Rightarrow> cpp_error + fixed_alloc \<times> fixed_alloc \<times> memory" where
  "fixed_base_take fa rhs m =
     (if fa_block_size fa \<noteq> fa_block_size rhs then Inl AssertFailed
      else let fa1 = fa\<lparr>fa_init_expand := max (fa_init_expand fa) (fa_init_expand rhs)\<rparr>
           in if fixed_empty rhs then Inr (fa1, rhs, m)
              else if fa_cursor fa \<noteq> 0 then
                (case last_block m (fa_cursor fa) of
                   None \<Rightarrow> Inl NoReturn
                 | Some l \<Rightarrow> Inr (fa1, rhs\<lparr>fa_cursor := cells m l\<rparr>, put_cell l (fa_cursor rhs) m))
              else Inr (fa1\<lparr>fa_cursor := fa_cursor rhs\<rparr>, rhs\<lparr>fa_cursor := fa_cursor fa\<rparr>, m))"

definition fixed_take :: "fixed_alloc \<Rightarrow> fixed_alloc \<Rightarrow> memory \<Rightarrow> cpp_error + fixed_alloc \<times> fixed_alloc \<times> memory" where
  "fixed_take fa rhs m =
     bindE (fixed_base_take fa rhs m)
       (\<lambda>(fa1, rhs1, m1). bindE (variable_take (fa_alloc fa1) (fa_alloc rhs1) m1)
          (\<lambda>(va, va', m2). Inr (fa1\<lparr>fa_alloc := va\<rparr>, rhs1\<lparr>fa_alloc := va'\<rparr>, m2)))"

definition fixed_free :: "addr \<Rightarrow> fixed_alloc \<Rightarrow> memory \<Rightarrow> fixed_alloc \<times> memory" where
  "fixed_free p fa m = (if p = 0 then (fa, m) else (fa\<lparr>fa_cursor := p\<rparr>, put_cell p (fa_cursor fa) m))"

text \<open>\<open>fixed_expand_policy\<close>: the size to ask for now, and the factor for the next time.\<close>

definition expand_base :: nat where
  "expand_base = 8 * 1024"

definition expand_limit :: nat where
  "expand_limit = 8 * 1024 * 256"

definition expand_next :: "nat \<Rightarrow> nat \<Rightarrow> nat \<times> nat" where
  "expand_next block_size e = (wrap64 (max block_size expand_base * e), min expand_limit (wrap64 (e * 2)))"

text \<open>The loop of \<open>try_expand\<close>: \<open>n\<close> blocks are linked to their successors, the last one to nothing.\<close>

fun link_blocks :: "nat \<Rightarrow> nat \<Rightarrow> addr \<Rightarrow> memory \<Rightarrow> memory" where
  "link_blocks 0 block_size p m = put_cell p 0 m"
| "link_blocks (Suc n) block_size p m = link_blocks n block_size (p + block_size) (put_cell p (p + block_size) m)"

definition try_expand :: "malloc_fn \<Rightarrow> fixed_alloc \<Rightarrow> memory \<Rightarrow> cpp_error + fixed_alloc \<times> memory" where
  "try_expand mal fa m =
     (if fixed_empty fa then
        (let (sz, e) = expand_next (fa_block_size fa) (fa_init_expand fa)
         in bindE (variable_alloc_alloc mal sz (fa_alloc fa) m)
              (\<lambda>(p, va, m'). if fa_block_size fa = 0 then Inl DivisionByZero
                 else Inr (fa\<lparr>fa_init_expand := e, fa_cursor := p, fa_alloc := va\<rparr>,
                           link_blocks (minus64 (sz div fa_block_size fa) 1) (fa_block_size fa) p m')))
      else Inr (fa, m))"

definition fixed_alloc_alloc :: "malloc_fn \<Rightarrow> fixed_alloc \<Rightarrow> memory \<Rightarrow> cpp_error + addr \<times> fixed_alloc \<times> memory" where
  "fixed_alloc_alloc mal fa m =
     bindE (try_expand mal fa m)
       (\<lambda>(fa1, m1). if fa_cursor fa1 = 0 then Inl NullDereference
                    else Inr (fa_cursor fa1, fa1\<lparr>fa_cursor := cells m1 (fa_cursor fa1)\<rparr>, m1))"

text \<open>\<open>~fixed_alloc\<close>: only the chunks are given back.\<close>

definition destroy_fixed :: "fixed_alloc \<Rightarrow> memory \<Rightarrow> cpp_error + memory" where
  "destroy_fixed fa m = free_all (sc_head (va_scope (fa_alloc fa))) m"

end
