(* ===== verification/Mem_Pool.thy ===== *)
theory Mem_Pool
  imports Mem_Alloc
begin

text \<open>
  The pool behind \<open>ipc::mem::alloc\<close> and \<open>ipc::mem::free\<close>, \<^verbatim>\<open>common/shm-ipc/src/libipc/memory/wrapper.h\<close>,
  \<^verbatim>\<open>memory/resource.h\<close> and \<^verbatim>\<open>src/pool_alloc.cpp\<close>: 64 size classes (\<open>variable_wrapper\<close>), in each of them an
  allocator per thread (\<open>async_wrapper\<close>) and the allocators that ended threads have left behind
  (\<open>default_recycler\<close>). An operation of a thread is one step: its own allocator is private to
  the thread and the allocators left behind are used under \<open>master_lock_\<close>. That the operating system
  has no room for a thread-local pointer is not modelled.
\<close>

section \<open>Allocators per thread\<close>

record async_wrapper =
  aw_block_size :: nat
  aw_master :: "fixed_alloc list"
  aw_tls :: "(nat, fixed_alloc) table"

text \<open>\<open>limited_recycler\<close> and \<open>default_recycler\<close>. The allocator that is erased from the queue is destroyed.\<close>

definition try_recover :: "fixed_alloc \<Rightarrow> async_wrapper \<Rightarrow> memory \<Rightarrow> cpp_error + fixed_alloc \<times> async_wrapper \<times> memory" where
  "try_recover alc w m =
     (case aw_master w of
        [] \<Rightarrow> Inr (alc, w, m)
      | first # others \<Rightarrow> bindE (destroy_fixed alc m) (\<lambda>m'. Inr (first, w\<lparr>aw_master := others\<rparr>, m')))"

definition recycler_limit :: nat where
  "recycler_limit = 32"

definition collect :: "fixed_alloc \<Rightarrow> async_wrapper \<Rightarrow> memory \<Rightarrow> cpp_error + async_wrapper \<times> memory" where
  "collect alc w m =
     (if length (aw_master w) \<ge> recycler_limit then
        bindE (destroy_fixed (hd (aw_master w)) m) (\<lambda>m'. Inr (w\<lparr>aw_master := tl (aw_master w) @ [alc]\<rparr>, m'))
      else Inr (w\<lparr>aw_master := aw_master w @ [alc]\<rparr>, m))"

definition try_fill :: "fixed_alloc \<Rightarrow> async_wrapper \<Rightarrow> memory \<Rightarrow> cpp_error + fixed_alloc \<times> async_wrapper \<times> memory" where
  "try_fill alc w m =
     (case aw_master w of
        [] \<Rightarrow> Inr (alc, w, m)
      | first # others \<Rightarrow>
          bindE (fixed_take alc first m)
            (\<lambda>(alc', first', m1). bindE (destroy_fixed first' m1) (\<lambda>m2. Inr (alc', w\<lparr>aw_master := others\<rparr>, m2))))"

definition try_replenish :: "fixed_alloc \<Rightarrow> async_wrapper \<Rightarrow> memory \<Rightarrow> cpp_error + fixed_alloc \<times> async_wrapper \<times> memory" where
  "try_replenish alc w m = (if \<not> fixed_empty alc then Inr (alc, w, m) else try_fill alc w m)"

text \<open>\<open>async_wrapper\<close>. The allocator of a thread is made when the thread first needs it (\<open>create_once\<close>).\<close>

definition get_alloc :: "nat \<Rightarrow> async_wrapper \<Rightarrow> memory \<Rightarrow> cpp_error + fixed_alloc \<times> async_wrapper \<times> memory" where
  "get_alloc t w m =
     (case map_of (aw_tls w) t of
        Some alc \<Rightarrow> Inr (alc, w, m)
      | None \<Rightarrow> bindE (try_recover (new_fixed (aw_block_size w) 1) w m)
                  (\<lambda>(alc, w', m'). Inr (alc, w'\<lparr>aw_tls := tput t alc (aw_tls w')\<rparr>, m')))"

definition async_alloc :: "malloc_fn \<Rightarrow> nat \<Rightarrow> async_wrapper \<Rightarrow> memory \<Rightarrow> cpp_error + addr \<times> async_wrapper \<times> memory" where
  "async_alloc mal t w m =
     bindE (get_alloc t w m) (\<lambda>(alc, w1, m1).
     bindE (try_replenish alc w1 m1) (\<lambda>(alc2, w2, m2).
     bindE (fixed_alloc_alloc mal alc2 m2) (\<lambda>(p, alc3, m3).
       Inr (p, w2\<lparr>aw_tls := tput t alc3 (aw_tls w2)\<rparr>, m3))))"

definition async_free :: "nat \<Rightarrow> addr \<Rightarrow> async_wrapper \<Rightarrow> memory \<Rightarrow> cpp_error + async_wrapper \<times> memory" where
  "async_free t p w m =
     bindE (get_alloc t w m) (\<lambda>(alc, w1, m1).
       let (alc2, m2) = fixed_free p alc m1 in Inr (w1\<lparr>aw_tls := tput t alc2 (aw_tls w1)\<rparr>, m2))"

text \<open>The end of a thread: \<open>~alloc_proxy\<close> is run for its thread-local pointer.\<close>

definition async_exit :: "nat \<Rightarrow> async_wrapper \<Rightarrow> memory \<Rightarrow> cpp_error + async_wrapper \<times> memory" where
  "async_exit t w m =
     (case map_of (aw_tls w) t of
        None \<Rightarrow> Inr (w, m)
      | Some alc \<Rightarrow> collect alc (w\<lparr>aw_tls := terase t (aw_tls w)\<rparr>) m)"

section \<open>Size classes\<close>

definition base_size :: nat where
  "base_size = 0"

definition iter_size :: nat where
  "iter_size = 8"

definition classes_size :: nat where
  "classes_size = 64"

definition class_block_size :: "nat \<Rightarrow> nat" where
  "class_block_size i = (if i < classes_size then base_size + (i + 1) * iter_size else 0)"

definition classify :: "nat \<Rightarrow> nat option" where
  "classify sz =
     (let i = minus64 (minus64 sz base_size) 1 div iter_size in if i < classes_size then Some i else None)"

text \<open>\<open>variable_wrapper::initiator\<close>: an \<open>async_wrapper\<close> for every class.\<close>

definition new_pool :: "async_wrapper list" where
  "new_pool = map (\<lambda>i. \<lparr>aw_block_size = class_block_size i, aw_master = [], aw_tls = []\<rparr>) [0..<classes_size]"

definition pool_alloc :: "malloc_fn \<Rightarrow> nat \<Rightarrow> nat \<Rightarrow> async_wrapper list \<Rightarrow> memory \<Rightarrow> cpp_error + addr \<times> async_wrapper list \<times> memory" where
  "pool_alloc mal t sz ws m =
     (case classify sz of
        Some i \<Rightarrow> bindE (async_alloc mal t (ws ! i) m) (\<lambda>(p, w, m'). Inr (p, ws[i := w], m'))
      | None \<Rightarrow> (let (p, m') = static_alloc_alloc mal sz m in Inr (p, ws, m')))"

definition pool_free :: "nat \<Rightarrow> addr \<Rightarrow> nat \<Rightarrow> async_wrapper list \<Rightarrow> memory \<Rightarrow> cpp_error + async_wrapper list \<times> memory" where
  "pool_free t p sz ws m =
     (case classify sz of
        Some i \<Rightarrow> bindE (async_free t p (ws ! i) m) (\<lambda>(w, m'). Inr (ws[i := w], m'))
      | None \<Rightarrow> bindE (static_alloc_free p sz m) (\<lambda>m'. Inr (ws, m')))"

definition pool_exit :: "nat \<Rightarrow> async_wrapper list \<Rightarrow> memory \<Rightarrow> cpp_error + async_wrapper list \<times> memory" where
  "pool_exit t ws m =
     foldE (\<lambda>i (ws, m). bindE (async_exit t (ws ! i) m) (\<lambda>(w, m'). Inr (ws[i := w], m'))) [0..<length ws] (ws, m)"

section \<open>Programs that use the pool\<close>

text \<open>
  Threads ask for blocks, write into blocks they have, give blocks back with the size they asked for, and
  end. Auxiliary is the list of the blocks that are in use, with the sizes asked for.
\<close>

datatype block_event = Ask nat nat | Give nat addr nat | Fill addr nat | Exit nat

type_synonym blocks_state = "async_wrapper list \<times> memory \<times> (addr \<times> nat) list"

definition in_use :: "(addr \<times> nat) list \<Rightarrow> addr \<Rightarrow> bool" where
  "in_use live a \<longleftrightarrow> 8 dvd a \<and> (\<exists>(p, n) \<in> set live. p \<le> a \<and> a < p + n)"

fun blocks_step :: "malloc_fn \<Rightarrow> block_event \<Rightarrow> blocks_state \<Rightarrow> cpp_error + blocks_state" where
  "blocks_step mal (Ask t n) (ws, m, live) =
     bindE (pool_alloc mal t n ws m) (\<lambda>(p, ws', m'). Inr (ws', m', if p = 0 then live else (p, n) # live))"
| "blocks_step mal (Give t p n) (ws, m, live) =
     (if (p, n) \<in> set live then bindE (pool_free t p n ws m) (\<lambda>(ws', m'). Inr (ws', m', remove1 (p, n) live))
      else Inr (ws, m, live))"
| "blocks_step mal (Fill a v) (ws, m, live) = Inr (ws, if in_use live a then put_cell a v m else m, live)"
| "blocks_step mal (Exit t) (ws, m, live) = bindE (pool_exit t ws m) (\<lambda>(ws', m'). Inr (ws', m', live))"

definition blocks_run :: "malloc_fn \<Rightarrow> block_event list \<Rightarrow> (addr \<Rightarrow> nat) \<Rightarrow> cpp_error + blocks_state" where
  "blocks_run mal evs junk = foldE (blocks_step mal) evs (new_pool, \<lparr>cells = junk, mallocs = []\<rparr>, [])"

end
