(* ===== verification/Mem_Regions.thy ===== *)
theory Mem_Regions
  imports Mem_Alloc
begin

text \<open>
  Regions of memory. What the allocators hold and what they have handed out is a multiset of regions,
  each a start address and a length; the operations move, cut and drop regions. A list that is linked
  through cells of memory is described by \<open>chain\<close>, which other cells do not affect.
\<close>

named_theorems regs \<open>regions that do not overlap\<close>

section \<open>Arithmetic of sizes\<close>

lemma wrap64_less [simp]: "n < 2 ^ 64 \<Longrightarrow> wrap64 n = n"
  by (simp add: wrap64_def)

lemma minus64_le: "b \<le> a \<Longrightarrow> a < 2 ^ 64 \<Longrightarrow> minus64 a b = a - b"
proof -
  assume "b \<le> a" "a < 2 ^ 64"
  then have "a + 2 ^ 64 - b = (a - b) + 2 ^ 64" "a - b < 2 ^ 64" by simp_all
  then show "minus64 a b = a - b" unfolding minus64_def wrap64_def by (simp only: mod_add_self2 mod_less)
qed

lemma and_not_mask: "(x :: u64) AND NOT (mask k) = x - take_bit k x"
proof -
  have "x AND NOT (mask k) = push_bit k (drop_bit k x)" by (rule bit_word_eqI) (auto simp: bit_simps)
  then show ?thesis using bits_ident [of k x] by (simp add: algebra_simps)
qed

lemma unat_of_nat64: "k < 2 ^ 64 \<Longrightarrow> unat (of_nat k :: u64) = k"
  by (simp add: unat_of_nat)

lemma aligned_alt:
  assumes "0 < n" and "n + 16 \<le> 2 ^ 64"
  shows "aligned n 16 = (n - 1) div 16 * 16 + 16"
proof -
  have m: "(n - 1) div 16 * 16 = (n - 1) - (n - 1) mod 16" by (simp add: minus_mod_eq_div_mult)
  have "(of_nat n - 1 :: u64) = of_nat (n - 1)" using assms(1) by (simp add: of_nat_diff)
  moreover have "(of_nat 16 - 1 :: u64) = mask 4" by (simp add: mask_eq_exp_minus_1)
  moreover have "take_bit 4 (of_nat (n - 1) :: u64) = of_nat ((n - 1) mod 16)"
    by (simp only: take_bit_of_nat, simp only: take_bit_eq_mod, simp)
  ultimately have u: "((of_nat n - 1 :: u64) AND NOT (of_nat 16 - 1)) = of_nat ((n - 1) div 16 * 16)"
    unfolding m by (simp only: and_not_mask of_nat_diff mod_less_eq_dividend)
  have "(n - 1) div 16 * 16 + 16 < 2 ^ 64" using assms m by linarith
  then have "unat (of_nat ((n - 1) div 16 * 16 + 16) :: u64) = (n - 1) div 16 * 16 + 16"
    by (rule unat_of_nat64)
  then show ?thesis unfolding aligned_def u by (simp only: of_nat_add)
qed

lemma aligned_bounds:
  assumes "0 < n" and "n + 16 \<le> 2 ^ 64"
  shows "n \<le> aligned n 16" and "aligned n 16 < n + 16" and "16 dvd aligned n 16"
  using assms(1) by (simp_all add: aligned_alt [OF assms])

lemma sizes_eval [simp]: "aligned_block_size = 16" "aligned_chunk_size = 2097152"
  by (simp_all add: aligned_block_size_def aligned_chunk_size_def max_align_def aligned_alt)

section \<open>Regions\<close>

type_synonym region = "addr \<times> nat"

fun apart :: "region \<Rightarrow> region \<Rightarrow> bool" where
  "apart (a, n) (b, k) \<longleftrightarrow> n = 0 \<or> k = 0 \<or> a + n \<le> b \<or> b + k \<le> a"

fun part_of :: "region \<Rightarrow> region \<Rightarrow> bool" where
  "part_of (a, n) (b, k) \<longleftrightarrow> n = 0 \<or> b \<le> a \<and> a + n \<le> b + k"

lemma apart_sym: "apart r s \<longleftrightarrow> apart s r"
  by (cases r; cases s) auto

lemma apart_part: "apart r s \<Longrightarrow> part_of r' r \<Longrightarrow> apart r' s"
  by (cases r; cases s; cases r') auto

lemma part_of_refl [simp, intro]: "part_of r r"
  by (cases r) simp

lemma part_of_trans: "part_of r s \<Longrightarrow> part_of s t \<Longrightarrow> part_of r t"
  by (cases r; cases s; cases t) auto

definition all_apart :: "region multiset \<Rightarrow> bool" where
  "all_apart M \<longleftrightarrow> (\<forall>r s. {#r, s#} \<subseteq># M \<longrightarrow> apart r s)"

lemma all_apart_empty [simp, regs]: "all_apart {#}"
  by (simp add: all_apart_def)

lemma all_apart_add [simp, regs]: "all_apart (add_mset r M) \<longleftrightarrow> (\<forall>s \<in># M. apart r s) \<and> all_apart M"
proof
  assume a: "all_apart (add_mset r M)"
  have "apart r s" if "s \<in># M" for s
  proof -
    have "{#r, s#} \<subseteq># add_mset r M" using that by simp
    then show ?thesis using a unfolding all_apart_def by blast
  qed
  moreover have "all_apart M" using a unfolding all_apart_def by (meson subset_mset.order_trans multi_psub_of_add_self subset_mset.less_imp_le)
  ultimately show "(\<forall>s \<in># M. apart r s) \<and> all_apart M" by blast
next
  assume a: "(\<forall>s \<in># M. apart r s) \<and> all_apart M"
  show "all_apart (add_mset r M)" unfolding all_apart_def
  proof (intro allI impI)
    fix x y assume s: "{#x, y#} \<subseteq># add_mset r M"
    show "apart x y"
    proof (cases "x = r \<or> y = r")
      case True
      then have "y = r \<and> x \<in># M \<or> x = r \<and> y \<in># M" using s by (auto simp: insert_subset_eq_iff add_mset_commute)
      then show ?thesis using a by (auto simp: apart_sym)
    next
      case False
      have "count {#x, y#} z \<le> count M z" for z
        using mset_subset_eq_count [OF s, of z] False by (cases "z = r") simp_all
      then have "{#x, y#} \<subseteq># M" by (rule mset_subset_eqI)
      then show ?thesis using a unfolding all_apart_def by blast
    qed
  qed
qed

lemma all_apart_union [regs]: "all_apart (A + B) \<longleftrightarrow> all_apart A \<and> all_apart B \<and> (\<forall>a \<in># A. \<forall>b \<in># B. apart a b)"
  by (induction A) (auto simp: apart_sym)

lemma all_apart_mono: "all_apart B \<Longrightarrow> A \<subseteq># B \<Longrightarrow> all_apart A"
  by (auto simp: all_apart_def intro: subset_mset.order_trans)

text \<open>A region may be cut into pieces.\<close>

lemma all_apart_cut:
  assumes "all_apart (add_mset r M)" and "all_apart P" and "\<forall>s \<in># P. part_of s r"
  shows "all_apart (P + M)"
  using assms by (auto simp: all_apart_union intro: apart_part)

text \<open>\<open>n\<close> blocks one after the other.\<close>

fun row :: "nat \<Rightarrow> addr \<Rightarrow> nat \<Rightarrow> addr list" where
  "row bs p 0 = []"
| "row bs p (Suc n) = p # row bs (p + bs) n"

definition blocks :: "nat \<Rightarrow> addr list \<Rightarrow> region multiset" where
  "blocks bs ps = mset (map (\<lambda>p. (p, bs)) ps)"

lemma blocks_simps [simp]: "blocks bs [] = {#}" "blocks bs (p # ps) = add_mset (p, bs) (blocks bs ps)"
    "blocks bs (ps @ qs) = blocks bs ps + blocks bs qs"
  by (simp_all add: blocks_def)

lemma in_blocks [simp]: "r \<in># blocks bs ps \<longleftrightarrow> (\<exists>p \<in> set ps. r = (p, bs))"
  by (auto simp: blocks_def)

lemma row_set: "q \<in> set (row bs p n) \<Longrightarrow> p \<le> q \<and> q + bs \<le> p + n * bs \<and> (\<exists>i. q = p + i * bs)"
proof (induction n arbitrary: p)
  case (Suc n)
  show ?case
  proof (cases "q = p")
    case True
    then show ?thesis by (auto intro: exI [of _ 0])
  next
    case False
    then have "p + bs \<le> q" "q + bs \<le> p + bs + n * bs" "\<exists>i. q = p + bs + i * bs" using Suc.IH [of "p + bs"] Suc.prems by simp_all
    then obtain i where "p + bs \<le> q" "q + bs \<le> p + bs + n * bs" "q = p + Suc i * bs" by (metis add.assoc mult_Suc)
    then show ?thesis by (metis add.assoc add_leD1 mult_Suc)
  qed
qed simp

lemma row_part: "n * bs \<le> k \<Longrightarrow> r \<in># blocks bs (row bs p n) \<Longrightarrow> part_of r (p, k)"
  by (auto dest!: row_set)

lemma row_apart: "all_apart (blocks bs (row bs p n))"
proof (induction n arbitrary: p)
  case (Suc n)
  have "p + bs \<le> q" if "q \<in> set (row bs (p + bs) n)" for q using row_set [OF that] by simp
  then show ?case using Suc by auto
qed simp

lemma blocks_distinct: "all_apart (blocks bs ps) \<Longrightarrow> 0 < bs \<Longrightarrow> distinct ps"
proof (induction ps)
  case (Cons p ps)
  have "\<not> apart (p, bs) (p, bs)" "\<forall>s \<in># blocks bs ps. apart (p, bs) s" using Cons.prems by simp_all
  then have "(p, bs) \<notin># blocks bs ps" by blast
  then show ?case using Cons by simp
qed simp

section \<open>Linked lists in memory\<close>

fun chain :: "(addr \<Rightarrow> addr) \<Rightarrow> addr \<Rightarrow> addr list \<Rightarrow> bool" where
  "chain nx x [] \<longleftrightarrow> x = 0"
| "chain nx x (a # as) \<longleftrightarrow> x = a \<and> a \<noteq> 0 \<and> chain nx (nx a) as"

lemma chain_0 [simp]: "chain nx 0 as \<longleftrightarrow> as = []"
  by (cases as) auto

lemma chain_nonzero: "x \<noteq> 0 \<Longrightarrow> chain nx x as \<Longrightarrow> \<exists>bs. as = x # bs \<and> chain nx (nx x) bs"
  by (cases as) auto

lemma chain_nonnull: "chain nx x as \<Longrightarrow> 0 \<notin> set as"
  by (induction as arbitrary: x) auto

lemma chain_null: "chain nx x as \<Longrightarrow> x = 0 \<longleftrightarrow> as = []"
  by (cases as) auto

lemma chain_cong: "(\<And>a. a \<in> set as \<Longrightarrow> nx' a = nx a) \<Longrightarrow> chain nx' x as = chain nx x as"
  by (induction as arbitrary: x) auto

lemma chain_append:
  assumes "chain nx x (as @ [l])" and "chain nx y bs" and "l \<notin> set as" and "l \<notin> set bs"
  shows "chain (nx(l := y)) x (as @ [l] @ bs)"
  using assms(1,3)
proof (induction as arbitrary: x)
  case Nil
  have "chain (nx(l := y)) y bs" using assms(2,4) by (subst chain_cong [of bs _ nx]) auto
  then show ?case using Nil by (simp add: fun_upd_def)
qed auto

lemma chain_last: "chain nx x (as @ [l]) \<Longrightarrow> nx l = 0"
  by (induction as arbitrary: x) auto

lemma last_block_chain: "chain (cells m) x (as @ [l]) \<Longrightarrow> last_block m x = Some l"
proof (induction as arbitrary: x)
  case Nil
  then show ?case by (subst last_block.simps) simp
next
  case (Cons a as)
  have "cells m a \<noteq> 0" using Cons.prems by (cases as) auto
  then show ?case using Cons by (subst last_block.simps) simp
qed

text \<open>What \<open>try_expand\<close> writes is a list of all blocks.\<close>

lemma link_blocks_frame [simp]: "mallocs (link_blocks n bs p m) = mallocs m"
  by (induction n arbitrary: p m) (simp_all add: put_cell_def)

lemma link_blocks_other: "a \<notin> set (row bs p (Suc n)) \<Longrightarrow> cells (link_blocks n bs p m) a = cells m a"
  by (induction n arbitrary: p m) (auto simp: put_cell_def)

lemma link_blocks_chain: "0 < bs \<Longrightarrow> 0 < p \<Longrightarrow> chain (cells (link_blocks n bs p m)) p (row bs p (Suc n))"
proof (induction n arbitrary: p m)
  case (Suc n)
  have "p \<notin> set (row bs (p + bs) (Suc n))" using row_set [of p bs "p + bs" "Suc n"] Suc.prems by auto
  then have "cells (link_blocks (Suc n) bs p m) p = p + bs"
    by (simp add: link_blocks_other del: row.simps) (simp add: put_cell_def)
  then show ?case using Suc.IH [of "p + bs"] Suc.prems by simp
qed (simp add: put_cell_def)

end
