(* ===== verification/Mem_Inv.thy ===== *)
theory Mem_Inv
  imports Mem_Regions
begin

text \<open>
  The invariant of one allocator of \<open>Mem_Alloc\<close> and its preservation. The blocks on the free list, the headers of
  the chunks and what is left of the last chunk are regions of memory that do not overlap; the rest of the world,
  other allocators and blocks in use, is a multiset of regions \<open>F\<close> that an operation leaves alone.
\<close>

section \<open>What the code relies on\<close>

text \<open>
  \<open>std::malloc\<close> returns null or a block that is aligned for every type and apart from all others. It may return
  null at any time: \<open>refuses\<close> says that it would do so for some size that an allocator may ask for as a chunk.
  The allocators do not test for null and dereference it.
\<close>

definition malloc_ok :: "malloc_fn \<Rightarrow> bool" where
  "malloc_ok mal \<longleftrightarrow>
     (\<forall>ms n. 0 < n \<longrightarrow> mal ms n = 0 \<or>
        mal ms n + n < 2 ^ 64 \<and> 16 dvd mal ms n \<and> (\<forall>b \<in> set ms. apart (mal ms n, n) b))"

definition refuses :: "malloc_fn \<Rightarrow> (addr \<times> nat) list \<Rightarrow> bool" where
  "refuses mal ms \<longleftrightarrow> (\<exists>n. 0 < n \<and> n \<le> 2 ^ 35 \<and> mal ms n = 0)"

text \<open>An allocator asks for one chunk at most at a time, of at most 32 GiB.\<close>

definition one_more :: "(addr \<times> nat) list \<Rightarrow> (addr \<times> nat) list \<Rightarrow> bool" where
  "one_more ms ms' \<longleftrightarrow> ms' = ms \<or> (\<exists>p n. n \<le> 2 ^ 35 \<and> ms' = (p, n) # ms)"

lemma one_more_refl [simp]: "one_more ms ms"
  by (simp add: one_more_def)

lemma one_more_set: "one_more ms ms' \<Longrightarrow> set ms \<subseteq> set ms'"
  by (auto simp: one_more_def)

section \<open>Regions in memory\<close>

definition malloced :: "(addr \<times> nat) list \<Rightarrow> bool" where
  "malloced ms \<longleftrightarrow> all_apart (mset ms)
     \<and> (\<forall>(p, n) \<in> set ms. 0 < p \<and> 0 < n \<and> p + n < 2 ^ 64 \<and> 16 dvd p)"

definition lies_in :: "(addr \<times> nat) list \<Rightarrow> region \<Rightarrow> bool" where
  "lies_in ms r \<longleftrightarrow> 8 dvd fst r \<and> (snd r = 0 \<or> (\<exists>b \<in> set ms. part_of r b))"

definition mem_ok :: "(addr \<times> nat) list \<Rightarrow> region multiset \<Rightarrow> bool" where
  "mem_ok ms R \<longleftrightarrow> malloced ms \<and> all_apart R \<and> (\<forall>r \<in># R. lies_in ms r)"

text \<open>A cell of a region, and memory that has not changed on regions.\<close>

definition cell_of :: "region \<Rightarrow> addr \<Rightarrow> bool" where
  "cell_of r a \<longleftrightarrow> fst r \<le> a \<and> a < fst r + snd r"

definition same_on :: "region multiset \<Rightarrow> memory \<Rightarrow> memory \<Rightarrow> bool" where
  "same_on M m m' \<longleftrightarrow> (\<forall>r \<in># M. \<forall>a. cell_of r a \<longrightarrow> cells m' a = cells m a)"

lemma same_on_refl [simp, intro]: "same_on M m m"
  by (simp add: same_on_def)

lemma same_on_trans: "same_on M m m1 \<Longrightarrow> same_on M m1 m2 \<Longrightarrow> same_on M m m2"
  by (simp add: same_on_def)

lemma same_on_union [simp]: "same_on (A + B) m m' \<longleftrightarrow> same_on A m m' \<and> same_on B m m'"
  "same_on (add_mset r A) m m' \<longleftrightarrow> (\<forall>a. cell_of r a \<longrightarrow> cells m' a = cells m a) \<and> same_on A m m'"
  by (auto simp: same_on_def)

lemma apart_cell: "apart r s \<Longrightarrow> cell_of r a \<Longrightarrow> \<not> cell_of s a"
  by (cases r; cases s) (auto simp: cell_of_def)

lemma put_cell_simps [simp]: "mallocs (put_cell a v m) = mallocs m" "cells (put_cell a v m) = (cells m)(a := v)"
  by (simp_all add: put_cell_def)

lemma same_on_put:
  assumes "\<forall>s \<in># M. apart r s" and "cell_of r a"
  shows "same_on M m (put_cell a v m)"
proof -
  have "\<not> cell_of s a" if "s \<in># M" for s using apart_cell [OF bspec [OF assms(1) that] assms(2)] .
  then show ?thesis by (auto simp: same_on_def)
qed

lemma mem_ok_mono: "mem_ok ms R \<Longrightarrow> R' \<subseteq># R \<Longrightarrow> mem_ok ms R'"
  by (auto simp: mem_ok_def intro: all_apart_mono dest: mset_subset_eqD)

lemma mem_ok_cut:
  assumes "mem_ok ms (add_mset r M)" and "all_apart P" and "\<forall>s \<in># P. part_of s r \<and> 8 dvd fst s"
  shows "mem_ok ms (P + M)"
proof -
  have "lies_in ms s" if "s \<in># P" for s
  proof (cases "snd s = 0")
    case False
    then have "snd r \<noteq> 0" using assms(3) that by (cases r; cases s) auto
    then obtain b where "b \<in> set ms" "part_of r b" using assms(1) by (auto simp: mem_ok_def lies_in_def)
    then show ?thesis using assms(3) that part_of_trans unfolding lies_in_def by blast
  qed (use assms(3) that in \<open>auto simp: lies_in_def\<close>)
  then show ?thesis using assms all_apart_cut [of r M P] by (auto simp: mem_ok_def)
qed

text \<open>A new block of \<open>malloc\<close> is apart from everything.\<close>

lemma mem_ok_malloc:
  assumes "mem_ok ms R" and "malloc_ok mal" and "mal ms n = p" and "p \<noteq> 0" and "0 < n"
  shows "mem_ok ((p, n) # ms) (add_mset (p, n) R)"
proof -
  have p: "p + n < 2 ^ 64" "16 dvd p" "\<forall>b \<in> set ms. apart (p, n) b"
    using assms(2-5) unfolding malloc_ok_def by metis+
  have "apart (p, n) r" if r: "r \<in># R" for r
  proof (cases "snd r = 0")
    case True
    then show ?thesis by (cases r) simp
  next
    case False
    then obtain b where "b \<in> set ms" "part_of r b" using assms(1) r by (auto simp: mem_ok_def lies_in_def)
    then show ?thesis using p(3) apart_part apart_sym by metis
  qed
  moreover have "8 dvd p" using p(2) by (rule dvd_trans [rotated]) simp
  ultimately show ?thesis using assms(1,4,5) p by (auto simp: mem_ok_def malloced_def lies_in_def)
qed

lemma mem_ok_pos: "mem_ok ms (add_mset (p, n) R) \<Longrightarrow> 0 < n \<Longrightarrow> 0 < p \<and> p + n < 2 ^ 64 \<and> 8 dvd p"
  by (fastforce simp: mem_ok_def malloced_def lies_in_def)


section \<open>Chunks and what is left of the last one\<close>

definition va_ok :: "memory \<Rightarrow> variable_alloc \<Rightarrow> addr list \<Rightarrow> bool" where
  "va_ok m va hs \<longleftrightarrow> chain (block_next m) (sc_head (va_scope va)) hs \<and> sc_tail (va_scope va) = (if hs = [] then 0 else last hs)
     \<and> set hs \<subseteq> fst ` set (mallocs m) \<and> va_head va \<le> va_tail va \<and> va_tail va < 2 ^ 64"

definition va_regs :: "variable_alloc \<Rightarrow> addr list \<Rightarrow> region multiset" where
  "va_regs va hs = add_mset (va_head va, va_tail va - va_head va) (blocks 16 hs)"

lemma header_cells: "cell_of (b, 16) b" "cell_of (b, 16) (b + 8)"
  by (simp_all add: cell_of_def)

lemma chain_headers_frame:
  assumes "same_on (blocks 16 hs) m m'"
  shows "chain (block_next m') x hs = chain (block_next m) x hs"
proof (rule chain_cong)
  fix b assume "b \<in> set hs"
  then have "(b, 16) \<in># blocks 16 hs" by simp
  then show "block_next m' b = block_next m b" using assms header_cells(2) unfolding same_on_def block_next_def by blast
qed

lemma va_ok_frame:
  "va_ok m va hs \<Longrightarrow> same_on (blocks 16 hs) m m' \<Longrightarrow> set (mallocs m) \<subseteq> set (mallocs m') \<Longrightarrow> va_ok m' va hs"
  unfolding va_ok_def by (simp add: chain_headers_frame) blast

lemma va_remain_alt: "va_ok m va hs \<Longrightarrow> va_remain va = va_tail va - va_head va"
  by (simp add: va_ok_def va_remain_def minus64_le)

text \<open>A piece of what is left.\<close>

lemma variable_cut_ok:
  assumes ok: "va_ok m va hs" and mem: "mem_ok ms (va_regs va hs + F)" and al: "16 dvd al" "sz \<le> al" and room: "al \<le> va_tail va - va_head va"
  shows "va_ok m (va\<lparr>va_head := va_head va + al\<rparr>) hs \<and> mem_ok ms (add_mset (va_head va, sz) (va_regs (va\<lparr>va_head := va_head va + al\<rparr>) hs + F))"
proof -
  let ?P = "{#(va_head va, sz), (va_head va + al, va_tail va - (va_head va + al))#}"
  have h: "va_head va \<le> va_tail va" using ok by (simp add: va_ok_def)
  have "8 dvd va_head va" using mem by (auto simp: mem_ok_def va_regs_def lies_in_def)
  moreover have "8 dvd al" using al(1) by (rule dvd_trans [rotated]) simp
  ultimately have "mem_ok ms (?P + (blocks 16 hs + F))"
    using mem al(2) room h by (intro mem_ok_cut) (auto simp: va_regs_def)
  then show ?thesis using ok room h by (simp add: va_ok_def va_regs_def)
qed

text \<open>A new chunk; what was left of the last one is given up.\<close>

lemma scope_chunk_ok:
  assumes ok: "va_ok m va hs" and mem: "mem_ok (mallocs m) (va_regs va hs + F)" and mal: "malloc_ok mal"
    and n: "0 < sz" "sz + 16 \<le> 2 ^ 35" and served: "\<not> (scope_alloc_alloc mal sz (va_scope va) m = Inl NullDereference \<and> refuses mal (mallocs m))"
  shows "\<exists>p sc m'. scope_alloc_alloc mal sz (va_scope va) m = Inr (p + 16, sc, m')
    \<and> va_ok m' \<lparr>va_head = p + 16, va_tail = p + 16 + sz, va_scope = sc\<rparr> (p # hs)
    \<and> mem_ok (mallocs m') (va_regs \<lparr>va_head = p + 16, va_tail = p + 16 + sz, va_scope = sc\<rparr> (p # hs) + F)
    \<and> same_on F m m' \<and> mallocs m' = (p, sz + 16) # mallocs m"
proof -
  define p where p: "p = mal (mallocs m) (16 + sz)"
  have w: "wrap64 (16 + sz) = 16 + sz" using n(2) by simp
  have p0: "p \<noteq> 0"
  proof
    assume "p = 0"
    then have "scope_alloc_alloc mal sz (va_scope va) m = Inl NullDereference"
      using w by (simp add: scope_alloc_alloc_def static_alloc_alloc_def std_malloc_def Let_def p [symmetric])
    moreover have "refuses mal (mallocs m)" using \<open>p = 0\<close> n unfolding refuses_def p by (intro exI [of _ "16 + sz"]) simp
    ultimately show False using served by blast
  qed
  have mem1: "mem_ok ((p, 16 + sz) # mallocs m) (add_mset (p, 16 + sz) (blocks 16 hs + F))"
    by (rule mem_ok_malloc [OF mem_ok_mono [OF mem] mal p [symmetric] p0]) (use n in \<open>simp_all add: va_regs_def\<close>)
  then have ap: "\<forall>s \<in># blocks 16 hs + F. apart (p, 16 + sz) s" by (simp add: mem_ok_def)
  define m1 where m1: "m1 = m\<lparr>mallocs := (p, 16 + sz) # mallocs m\<rparr>"
  define m' where m': "m' = put_cell (p + 8) (sc_head (va_scope va)) (put_cell p (16 + sz) m1)"
  define sc where sc: "sc = \<lparr>sc_head = p, sc_tail = (if sc_tail (va_scope va) = 0 then p else sc_tail (va_scope va))\<rparr>"
  let ?va = "\<lparr>va_head = p + 16, va_tail = p + 16 + sz, va_scope = sc\<rparr>"
  have e: "scope_alloc_alloc mal sz (va_scope va) m = Inr (p + 16, sc, m')"
    using p0 w by (simp add: scope_alloc_alloc_def static_alloc_alloc_def std_malloc_def Let_def p [symmetric] m1 m' sc)
  have s: "same_on (blocks 16 hs + F) m m'"
  proof (rule same_on_trans)
    show "same_on (blocks 16 hs + F) m (put_cell p (16 + sz) m1)"
      using same_on_put [OF ap, of p m1 "16 + sz"] by (simp add: cell_of_def m1 same_on_def)
    show "same_on (blocks 16 hs + F) (put_cell p (16 + sz) m1) m'"
      unfolding m' by (rule same_on_put [OF ap]) (simp add: cell_of_def)
  qed
  have c: "chain (block_next m') (sc_head (va_scope va)) hs" using ok s chain_headers_frame [of hs m m'] by (simp add: va_ok_def)
  have bn: "block_next m' p = sc_head (va_scope va)" by (simp add: m' block_next_def)
  have "0 \<notin> set hs" using ok chain_nonnull by (auto simp: va_ok_def)
  then have "hs \<noteq> [] \<Longrightarrow> last hs \<noteq> 0" using last_in_set by metis
  then have t: "sc_tail sc = last (p # hs)" using ok by (auto simp: sc va_ok_def)
  have lim: "p + 16 + sz < 2 ^ 64" using mem_ok_pos [OF mem1] by simp
  have v: "va_ok m' ?va (p # hs)" using ok c bn t lim p0 by (auto simp: va_ok_def sc m' m1)
  have "8 dvd p" using mem_ok_pos [OF mem1] by simp
  then have "mem_ok ((p, 16 + sz) # mallocs m) ({#(p, 16), (p + 16, sz)#} + (blocks 16 hs + F))"
    by (intro mem_ok_cut [OF mem1]) auto
  then have "mem_ok (mallocs m') (va_regs ?va (p # hs) + F)" by (simp add: m' m1 va_regs_def add_mset_commute)
  then show ?thesis using e v s by (intro exI [of _ p] exI [of _ sc] exI [of _ m']) (simp add: m' m1)
qed

lemma variable_alloc_ok:
  assumes ok: "va_ok m va hs" and mem: "mem_ok (mallocs m) (va_regs va hs + F)" and mal: "malloc_ok mal"
    and n: "0 < sz" "sz \<le> 2 ^ 34" and served: "\<not> (variable_alloc_alloc mal sz va m = Inl NullDereference \<and> refuses mal (mallocs m))"
  shows "\<exists>p va' m' hs'. variable_alloc_alloc mal sz va m = Inr (p, va', m') \<and> va_ok m' va' hs'
    \<and> mem_ok (mallocs m') (add_mset (p, sz) (va_regs va' hs' + F)) \<and> same_on F m m'
    \<and> one_more (mallocs m) (mallocs m')"
proof -
  define al where al: "al = aligned sz 16"
  have al': "sz \<le> al" "al < sz + 16" "16 dvd al" using aligned_bounds [of sz] n unfolding al by simp_all
  show ?thesis
  proof (cases "va_remain va < al")
    case False
    then have "al \<le> va_tail va - va_head va" using va_remain_alt [OF ok] by simp
    note cut = variable_cut_ok [OF ok mem al'(3,1) this]
    have "variable_alloc_alloc mal sz va m = Inr (va_head va, va\<lparr>va_head := va_head va + al\<rparr>, m)"
      using False by (simp add: variable_alloc_alloc_def max_align_def al)
    then show ?thesis using cut by auto
  next
    case True
    define ck where ck: "ck = max 2097152 al"
    have ck': "0 < ck" "ck + 16 \<le> 2 ^ 35" "al \<le> ck" using al'(2) n(2) by (simp_all add: ck)
    have "\<not> (scope_alloc_alloc mal ck (va_scope va) m = Inl NullDereference \<and> refuses mal (mallocs m))"
      using served True by (auto simp: variable_alloc_alloc_def max_align_def Let_def al ck)
    then obtain p sc m' where c: "scope_alloc_alloc mal ck (va_scope va) m = Inr (p + 16, sc, m')"
        "va_ok m' \<lparr>va_head = p + 16, va_tail = p + 16 + ck, va_scope = sc\<rparr> (p # hs)"
        "mem_ok (mallocs m') (va_regs \<lparr>va_head = p + 16, va_tail = p + 16 + ck, va_scope = sc\<rparr> (p # hs) + F)"
        "same_on F m m'" "mallocs m' = (p, ck + 16) # mallocs m"
      using scope_chunk_ok [OF ok mem mal ck'(1,2)] by blast
    have "variable_alloc_alloc mal sz va m = Inr (p + 16, \<lparr>va_head = p + 16 + al, va_tail = p + 16 + ck, va_scope = sc\<rparr>, m')"
      using True c(1) ck'(3) by (simp add: variable_alloc_alloc_def max_align_def Let_def al ck)
    then show ?thesis using variable_cut_ok [OF c(2,3) al'(3,1)] ck'(2,3) c(4,5) by (auto simp: one_more_def)
  qed
qed


section \<open>Free lists\<close>

definition fa_ok :: "memory \<Rightarrow> fixed_alloc \<Rightarrow> addr list \<Rightarrow> addr list \<Rightarrow> bool" where
  "fa_ok m fa fs hs \<longleftrightarrow> 8 dvd fa_block_size fa \<and> 0 < fa_block_size fa \<and> fa_block_size fa \<le> 512
     \<and> 0 < fa_init_expand fa \<and> fa_init_expand fa \<le> 2 ^ 21 \<and> chain (cells m) (fa_cursor fa) fs \<and> va_ok m (fa_alloc fa) hs"

definition fa_regs :: "fixed_alloc \<Rightarrow> addr list \<Rightarrow> addr list \<Rightarrow> region multiset" where
  "fa_regs fa fs hs = blocks (fa_block_size fa) fs + va_regs (fa_alloc fa) hs"

lemma chain_free_frame:
  assumes "same_on (blocks bs fs) m m'" and "0 < bs"
  shows "chain (cells m') x fs = chain (cells m) x fs"
proof (rule chain_cong)
  fix b assume "b \<in> set fs"
  then have "(b, bs) \<in># blocks bs fs" "cell_of (b, bs) b" using assms(2) by (simp_all add: cell_of_def)
  then show "cells m' b = cells m b" using assms(1) unfolding same_on_def by blast
qed

lemma fa_ok_frame:
  assumes "fa_ok m fa fs hs" and "same_on (fa_regs fa fs hs) m m'" and "set (mallocs m) \<subseteq> set (mallocs m')"
  shows "fa_ok m' fa fs hs"
proof -
  have "va_ok m' (fa_alloc fa) hs"
    by (rule va_ok_frame [OF _ _ assms(3)]) (use assms(1,2) in \<open>simp_all add: fa_ok_def fa_regs_def va_regs_def\<close>)
  moreover have "chain (cells m') (fa_cursor fa) fs"
    using chain_free_frame [of "fa_block_size fa" fs m m'] assms(1,2) by (simp add: fa_ok_def fa_regs_def)
  ultimately show ?thesis using assms(1) by (simp add: fa_ok_def)
qed

lemma new_fixed_ok:
  "8 dvd bs \<Longrightarrow> 0 < bs \<Longrightarrow> bs \<le> 512 \<Longrightarrow> fa_ok m (new_fixed bs 1) [] []"
  "fa_regs (new_fixed bs e) [] [] = {#(0, 0)#}"
  by (simp_all add: fa_ok_def new_fixed_def va_ok_def empty_variable_def fa_regs_def va_regs_def)

lemma mem_ok_null: "mem_ok ms (add_mset (0, 0) R) \<longleftrightarrow> mem_ok ms R"
  by (auto simp: mem_ok_def lies_in_def)

text \<open>A block that comes back.\<close>

lemma fixed_free_ok:
  assumes ok: "fa_ok m fa fs hs" and mem: "mem_ok (mallocs m) (add_mset (p, fa_block_size fa) (fa_regs fa fs hs + F))"
    and f: "fixed_free p fa m = (fa', m')"
  shows "fa_ok m' fa' (p # fs) hs \<and> fa_regs fa' (p # fs) hs + F = add_mset (p, fa_block_size fa) (fa_regs fa fs hs + F)
    \<and> same_on F m m' \<and> mallocs m' = mallocs m \<and> fa_block_size fa' = fa_block_size fa"
proof -
  have bs: "0 < fa_block_size fa" using ok by (simp add: fa_ok_def)
  then have p: "p \<noteq> 0" "8 dvd p" using mem_ok_pos [OF mem] by simp_all
  then have e: "fa' = fa\<lparr>fa_cursor := p\<rparr>" "m' = put_cell p (fa_cursor fa) m" using f by (simp_all add: fixed_free_def)
  have "\<forall>s \<in># fa_regs fa fs hs + F. apart (p, fa_block_size fa) s" using mem by (simp add: mem_ok_def)
  then have s: "same_on (fa_regs fa fs hs + F) m m'" unfolding e(2) by (rule same_on_put) (use bs in \<open>simp add: cell_of_def\<close>)
  then have "fa_ok m' fa fs hs" using fa_ok_frame [OF ok, of m'] e(2) by simp
  then have "fa_ok m' fa' (p # fs) hs" using p(1) by (simp add: fa_ok_def e)
  then show ?thesis using s by (simp add: e fa_regs_def)
qed

text \<open>The free list is filled when it is empty.\<close>

lemma expand_next_ok:
  assumes "bs \<le> 512" and "0 < e" and "e \<le> 2 ^ 21"
  shows "expand_next bs e = (8192 * e, min (2 ^ 21) (2 * e))"
proof -
  have "8192 * e < 2 ^ 64" "e * 2 < 2 ^ 64" using assms(3) by simp_all
  then show ?thesis using assms(1) by (simp add: expand_next_def expand_base_def expand_limit_def)
qed

lemma try_expand_ok:
  assumes ok: "fa_ok m fa fs hs" and mem: "mem_ok (mallocs m) (fa_regs fa fs hs + F)" and mal: "malloc_ok mal"
    and served: "\<not> (try_expand mal fa m = Inl NullDereference \<and> refuses mal (mallocs m))"
  shows "\<exists>fa' m' p fs' hs'. try_expand mal fa m = Inr (fa', m') \<and> fa_ok m' fa' (p # fs') hs' \<and> mem_ok (mallocs m') (fa_regs fa' (p # fs') hs' + F)
    \<and> same_on F m m' \<and> one_more (mallocs m) (mallocs m') \<and> fa_block_size fa' = fa_block_size fa"
proof (cases "fixed_empty fa")
  case False
  then have "fa_cursor fa \<noteq> 0" "chain (cells m) (fa_cursor fa) fs" using ok by (simp_all add: fixed_empty_def fa_ok_def)
  then obtain fs' where "fs = fa_cursor fa # fs'" using chain_nonzero by blast
  then show ?thesis using False ok mem by (auto simp: try_expand_def)
next
  case True
  define bs where bs: "bs = fa_block_size fa"
  define sz where sz: "sz = 8192 * fa_init_expand fa"
  define k where k: "k = sz div bs - 1"
  have b: "0 < bs" "8 dvd bs" "bs \<le> 512" and i: "0 < fa_init_expand fa" "fa_init_expand fa \<le> 2 ^ 21" using ok by (simp_all add: fa_ok_def bs)
  have z: "0 < sz" "sz \<le> 2 ^ 34" "bs \<le> sz" using i b(3) by (simp_all add: sz)
  have "fs = []" using True ok by (simp add: fixed_empty_def fa_ok_def)
  then have va: "va_ok m (fa_alloc fa) hs" "mem_ok (mallocs m) (va_regs (fa_alloc fa) hs + F)"
    using ok mem by (simp_all add: fa_ok_def fa_regs_def)
  have "\<not> (variable_alloc_alloc mal sz (fa_alloc fa) m = Inl NullDereference \<and> refuses mal (mallocs m))"
    using served True expand_next_ok [OF b(3) i] by (auto simp: try_expand_def bs [symmetric] sz [symmetric])
  then obtain p va' m1 hs' where v: "variable_alloc_alloc mal sz (fa_alloc fa) m = Inr (p, va', m1)" "va_ok m1 va' hs'"
      "mem_ok (mallocs m1) (add_mset (p, sz) (va_regs va' hs' + F))" "same_on F m m1" "one_more (mallocs m) (mallocs m1)"
    using variable_alloc_ok [OF va mal z(1,2)] by blast
  have p: "0 < p" "8 dvd p" using mem_ok_pos [OF v(3) z(1)] by simp_all
  have "0 < sz div bs" using z(3) b(1) by (simp add: div_greater_zero_iff)
  then have k1: "minus64 (sz div bs) 1 = k" "Suc k = sz div bs"
  proof -
    have "sz < 2 ^ 64" using z(2) by simp
    then have "sz div bs < 2 ^ 64" by (rule le_less_trans [OF div_le_dividend])
    then show "minus64 (sz div bs) 1 = k" "Suc k = sz div bs" using \<open>0 < sz div bs\<close> by (simp_all add: minus64_le k)
  qed
  define fa' where fa': "fa' = fa\<lparr>fa_init_expand := min (2 ^ 21) (2 * fa_init_expand fa), fa_cursor := p, fa_alloc := va'\<rparr>"
  define m' where m': "m' = link_blocks k bs p m1"
  have e: "try_expand mal fa m = Inr (fa', m')"
    using True v(1) b(1) expand_next_ok [OF b(3) i]
    by (simp add: try_expand_def bs [symmetric] sz [symmetric] k1(1) [simplified] fa' m')
  have "Suc k * bs \<le> sz" unfolding k1(2) by simp
  then have inside: "part_of s (p, sz)" if "s \<in># blocks bs (row bs p (Suc k))" for s using that by (rule row_part)
  have "8 dvd q" if q: "q \<in> set (row bs p (Suc k))" for q
  proof -
    obtain i where "q = p + i * bs" using row_set [OF q] by blast
    then show ?thesis using p(2) b(2) by simp
  qed
  then have parts: "\<forall>s \<in># blocks bs (row bs p (Suc k)). part_of s (p, sz) \<and> 8 dvd fst s" using inside by fastforce
  have mem': "mem_ok (mallocs m') (blocks bs (row bs p (Suc k)) + (va_regs va' hs' + F))"
    using mem_ok_cut [OF v(3) row_apart parts] by (simp add: m')
  have "cells m' a = cells m1 a" if "r \<in># va_regs va' hs' + F" "cell_of r a" for r a
  proof -
    have "a \<notin> set (row bs p (Suc k))"
    proof
      assume "a \<in> set (row bs p (Suc k))"
      then have "(a, bs) \<in># blocks bs (row bs p (Suc k))" by simp
      then have "apart (a, bs) r" using mem' that(1) unfolding mem_ok_def all_apart_union by blast
      then show False using apart_cell [of "(a, bs)" r a] that(2) b(1) by (simp add: cell_of_def)
    qed
    then show ?thesis unfolding m' by (rule link_blocks_other)
  qed
  then have s: "same_on (va_regs va' hs' + F) m1 m'" unfolding same_on_def by blast
  have "va_ok m' va' hs'" using va_ok_frame [OF v(2), of m'] s by (simp add: va_regs_def m')
  then have ok': "fa_ok m' fa' (row bs p (Suc k)) hs'"
    using ok link_blocks_chain [OF b(1) p(1), of k m1] by (simp add: fa_ok_def fa' m' bs del: row.simps)
  have "fa_regs fa' (row bs p (Suc k)) hs' + F = blocks bs (row bs p (Suc k)) + (va_regs va' hs' + F)"
    by (simp add: fa_regs_def fa' bs)
  then have "mem_ok (mallocs m') (fa_regs fa' (row bs p (Suc k)) hs' + F)" using mem' by metis
  then show ?thesis using e ok' same_on_trans [OF v(4), of m'] s v(5)
    by (intro exI [of _ fa'] exI [of _ m'] exI [of _ p] exI [of _ "row bs (p + bs) k"] exI [of _ hs']) (simp add: m' fa')
qed

lemma fixed_alloc_ok:
  assumes "fa_ok m fa fs hs" and "mem_ok (mallocs m) (fa_regs fa fs hs + F)" and "malloc_ok mal"
    and "\<not> (fixed_alloc_alloc mal fa m = Inl NullDereference \<and> refuses mal (mallocs m))"
  shows "\<exists>p fa' m' fs' hs'. fixed_alloc_alloc mal fa m = Inr (p, fa', m') \<and> fa_ok m' fa' fs' hs' \<and> p \<noteq> 0
    \<and> mem_ok (mallocs m') (add_mset (p, fa_block_size fa) (fa_regs fa' fs' hs' + F)) \<and> same_on F m m'
    \<and> one_more (mallocs m) (mallocs m') \<and> fa_block_size fa' = fa_block_size fa"
proof -
  have "\<not> (try_expand mal fa m = Inl NullDereference \<and> refuses mal (mallocs m))"
    using assms(4) by (auto simp: fixed_alloc_alloc_def)
  then obtain fa1 m' p fs' hs' where e: "try_expand mal fa m = Inr (fa1, m')" "fa_ok m' fa1 (p # fs') hs'" "mem_ok (mallocs m') (fa_regs fa1 (p # fs') hs' + F)"
      "same_on F m m'" "one_more (mallocs m) (mallocs m')" "fa_block_size fa1 = fa_block_size fa"
    using try_expand_ok [OF assms(1-3)] by blast
  have c: "fa_cursor fa1 = p" "p \<noteq> 0" using e(2) by (auto simp: fa_ok_def)
  define fa' where "fa' = fa1\<lparr>fa_cursor := cells m' p\<rparr>"
  have "fixed_alloc_alloc mal fa m = Inr (p, fa', m')" using e(1) c by (simp add: fixed_alloc_alloc_def fa'_def)
  moreover have "fa_ok m' fa' fs' hs'" using e(2) c by (simp add: fa_ok_def fa'_def)
  moreover have "mem_ok (mallocs m') (add_mset (p, fa_block_size fa) (fa_regs fa' fs' hs' + F))"
    using e(3,6) by (simp add: fa_regs_def fa'_def)
  ultimately show ?thesis using e(4-6) c(2) by (auto simp: fa'_def)
qed


section \<open>Allocators that are joined or destroyed\<close>

lemma free_all_null [simp]: "free_all 0 m = Inr m"
  by (simp add: free_all.simps)

lemma scope_take_ok:
  assumes "chain (block_next m) (sc_head sc) hs" and "sc_tail sc = (if hs = [] then 0 else last hs)"
    and "chain (block_next m) (sc_head rhs) hs'" and "sc_tail rhs = (if hs' = [] then 0 else last hs')" and "distinct (hs @ hs')"
  shows "\<exists>sc' rhs' m'. scope_take sc rhs m = Inr (sc', rhs', m') \<and> sc_head rhs' = 0 \<and> mallocs m' = mallocs m
    \<and> chain (block_next m') (sc_head sc') (hs @ hs') \<and> sc_tail sc' = (if hs @ hs' = [] then 0 else last (hs @ hs'))
    \<and> (\<forall>a. (\<forall>h \<in> set hs. a \<noteq> h + 8) \<longrightarrow> cells m' a = cells m a)"
proof (cases "hs = [] \<or> hs' = []")
  case True
  then have "sc_head sc = 0 \<or> sc_head rhs = 0" and "hs' = [] \<longleftrightarrow> sc_head rhs = 0" using chain_null [OF assms(1)] chain_null [OF assms(3)] by auto
  then show ?thesis using True assms by (auto simp: scope_take_def scope_empty_def)
next
  case False
  then obtain as l where h: "hs = as @ [l]" by (cases hs rule: rev_cases) auto
  have n0: "sc_head sc \<noteq> 0" "sc_head rhs \<noteq> 0" using False chain_null [OF assms(1)] chain_null [OF assms(3)] by auto
  have l0: "sc_tail sc = l" "l \<noteq> 0" using assms(1,2) chain_nonnull [OF assms(1)] h by auto
  define m' where m': "m' = put_cell (l + 8) (sc_head rhs) m"
  have e: "scope_take sc rhs m = Inr (sc\<lparr>sc_tail := sc_tail rhs\<rparr>, \<lparr>sc_head = block_next m l, sc_tail = 0\<rparr>, m')"
    using n0 l0 by (simp add: scope_take_def scope_empty_def m')
  have "block_next m l = 0" using chain_last assms(1) h by blast
  moreover have "block_next m' = (block_next m)(l := sc_head rhs)" by (auto simp: m' block_next_def)
  ultimately show ?thesis
    using e assms(3-5) False chain_append [of "block_next m" "sc_head sc" as l "sc_head rhs" hs'] assms(1) h by (auto simp: m')
qed


lemma variable_take_ok:
  assumes ok: "va_ok m va hs" "va_ok m rhs hs'" and mem: "mem_ok (mallocs m) (va_regs va hs + va_regs rhs hs' + F)"
  shows "\<exists>va' rhs' m'. variable_take va rhs m = Inr (va', rhs', m') \<and> va_ok m' va' (hs @ hs') \<and> sc_head (va_scope rhs') = 0
    \<and> mem_ok (mallocs m') (va_regs va' (hs @ hs') + F) \<and> same_on F m m' \<and> mallocs m' = mallocs m"
proof -
  define va1 where va1: "va1 = (if va_remain va < va_remain rhs then va\<lparr>va_head := va_head rhs, va_tail := va_tail rhs\<rparr> else va)"
  have ap: "all_apart (blocks 16 (hs @ hs') + F)"
    using mem by (auto simp: mem_ok_def va_regs_def intro: all_apart_mono)
  then have d: "distinct (hs @ hs')" by (intro blocks_distinct [of 16]) (auto simp: all_apart_union)
  have [simp]: "va_scope va1 = va_scope va" by (simp add: va1)
  obtain sc' sr m' where t: "scope_take (va_scope va1) (va_scope rhs) m = Inr (sc', sr, m')" "sc_head sr = 0" "mallocs m' = mallocs m"
      "chain (block_next m') (sc_head sc') (hs @ hs')" "sc_tail sc' = (if hs @ hs' = [] then 0 else last (hs @ hs'))"
      "\<forall>a. (\<forall>h \<in> set hs. a \<noteq> h + 8) \<longrightarrow> cells m' a = cells m a"
    using scope_take_ok [of m "va_scope va1" hs "va_scope rhs" hs'] ok d unfolding va_ok_def by force
  have e: "variable_take va rhs m = Inr (va1\<lparr>va_scope := sc'\<rparr>, rhs\<lparr>va_head := 0, va_tail := 0, va_scope := sr\<rparr>, m')"
    using t(1) by (simp add: variable_take_def Let_def va1 [symmetric])
  have "va_regs (va1\<lparr>va_scope := sc'\<rparr>) (hs @ hs') + F \<subseteq># va_regs va hs + va_regs rhs hs' + F" by (simp add: va_regs_def va1)
  then have m: "mem_ok (mallocs m') (va_regs (va1\<lparr>va_scope := sc'\<rparr>) (hs @ hs') + F)" using mem mem_ok_mono t(3) by metis
  have "cells m' a = cells m a" if "r \<in># F" "cell_of r a" for r a
  proof -
    have "a \<noteq> h + 8" if "h \<in> set hs" for h
    proof -
      have "apart (h, 16) r" using ap \<open>r \<in># F\<close> that unfolding all_apart_union by auto
      then show ?thesis using apart_cell header_cells(2) \<open>cell_of r a\<close> by blast
    qed
    then show ?thesis using t(6) by blast
  qed
  then have "same_on F m m'" by (simp add: same_on_def)
  moreover have "va_ok m' (va1\<lparr>va_scope := sc'\<rparr>) (hs @ hs')" using t(3-5) ok by (auto simp: va_ok_def va1)
  ultimately show ?thesis using e t(2,3) m by auto
qed

lemma fixed_base_take_ok:
  assumes ok: "fa_ok m fa fs hs" "fa_ok m rhs fs' hs'" and bs: "fa_block_size rhs = fa_block_size fa"
    and mem: "mem_ok (mallocs m) (fa_regs fa fs hs + fa_regs rhs fs' hs' + F)"
  shows "\<exists>fa' rhs' m'. fixed_base_take fa rhs m = Inr (fa', rhs', m') \<and> fa_ok m' fa' (fs @ fs') hs \<and> va_ok m' (fa_alloc rhs) hs'
    \<and> fa_alloc fa' = fa_alloc fa \<and> fa_alloc rhs' = fa_alloc rhs \<and> fa_block_size fa' = fa_block_size fa
    \<and> same_on (va_regs (fa_alloc fa) hs + va_regs (fa_alloc rhs) hs' + F) m m' \<and> mallocs m' = mallocs m"
proof -
  define G where G: "G = va_regs (fa_alloc fa) hs + va_regs (fa_alloc rhs) hs' + F"
  define fa1 where fa1: "fa1 = fa\<lparr>fa_init_expand := max (fa_init_expand fa) (fa_init_expand rhs)\<rparr>"
  have c: "chain (cells m) (fa_cursor fa) fs" "chain (cells m) (fa_cursor rhs) fs'" using ok by (simp_all add: fa_ok_def)
  have b: "0 < fa_block_size fa" using ok by (simp add: fa_ok_def)
  have R: "fa_regs fa fs hs + fa_regs rhs fs' hs' + F = blocks (fa_block_size fa) (fs @ fs') + G" by (simp add: fa_regs_def bs G)
  have ap: "all_apart (blocks (fa_block_size fa) (fs @ fs') + G)" using mem unfolding R by (simp add: mem_ok_def)
  then have d: "distinct (fs @ fs')" using b by (intro blocks_distinct) (auto simp: all_apart_union)
  have ok1: "fa_ok m fa1 fs hs" using ok by (auto simp: fa_ok_def fa1 max_def)
  show ?thesis
  proof (cases "fs = [] \<or> fs' = []")
    case True
    then show ?thesis using c bs ok ok1 chain_null [OF c(1)] chain_null [OF c(2)]
      by (auto simp: fixed_base_take_def fixed_empty_def Let_def fa1 [symmetric] fa_ok_def) (simp_all add: fa1)
  next
    case False
    then obtain as l where h: "fs = as @ [l]" by (cases fs rule: rev_cases) auto
    have n0: "fa_cursor fa \<noteq> 0" "fa_cursor rhs \<noteq> 0" using False chain_null [OF c(1)] chain_null [OF c(2)] by auto
    define m' where m': "m' = put_cell l (fa_cursor rhs) m"
    have e: "fixed_base_take fa rhs m = Inr (fa1, rhs\<lparr>fa_cursor := cells m l\<rparr>, m')"
      using n0 bs last_block_chain [of m "fa_cursor fa" as l] c(1) h by (simp add: fixed_base_take_def fixed_empty_def fa1 m')
    have "(l, fa_block_size fa) \<in># blocks (fa_block_size fa) (fs @ fs')" by (simp add: h)
    then have "\<forall>s \<in># G. apart (l, fa_block_size fa) s" using ap unfolding all_apart_union by blast
    then have s: "same_on G m m'" unfolding m' by (rule same_on_put) (use b in \<open>simp add: cell_of_def\<close>)
    have "va_ok m' (fa_alloc fa) hs" "va_ok m' (fa_alloc rhs) hs'"
      using ok s va_ok_frame [of m _ _ m'] by (auto simp: fa_ok_def G va_regs_def m')
    moreover have "chain (cells m') (fa_cursor fa) (fs @ fs')"
      using chain_append [of "cells m" "fa_cursor fa" as l "fa_cursor rhs" fs'] c d h by (simp add: m')
    ultimately show ?thesis using e ok1 s by (auto simp: fa_ok_def fa1 G m')
  qed
qed

lemma fixed_take_ok:
  assumes ok: "fa_ok m fa fs hs" "fa_ok m rhs fs' hs'" and bs: "fa_block_size rhs = fa_block_size fa"
    and mem: "mem_ok (mallocs m) (fa_regs fa fs hs + fa_regs rhs fs' hs' + F)"
  shows "\<exists>fa' rhs' m'. fixed_take fa rhs m = Inr (fa', rhs', m') \<and> fa_ok m' fa' (fs @ fs') (hs @ hs') \<and> destroy_fixed rhs' m' = Inr m'
    \<and> mem_ok (mallocs m') (fa_regs fa' (fs @ fs') (hs @ hs') + F) \<and> same_on F m m' \<and> mallocs m' = mallocs m \<and> fa_block_size fa' = fa_block_size fa"
proof -
  obtain fa1 rhs1 m1 where t: "fixed_base_take fa rhs m = Inr (fa1, rhs1, m1)" "fa_ok m1 fa1 (fs @ fs') hs" "va_ok m1 (fa_alloc rhs) hs'"
      "fa_alloc fa1 = fa_alloc fa" "fa_alloc rhs1 = fa_alloc rhs" "fa_block_size fa1 = fa_block_size fa"
      "same_on (va_regs (fa_alloc fa) hs + va_regs (fa_alloc rhs) hs' + F) m m1" "mallocs m1 = mallocs m"
    using fixed_base_take_ok [OF assms] by blast
  let ?B = "blocks (fa_block_size fa) (fs @ fs')"
  have v: "va_ok m1 (fa_alloc fa1) hs" "va_ok m1 (fa_alloc rhs1) hs'" using t(2-5) by (simp_all add: fa_ok_def)
  have "fa_regs fa fs hs + fa_regs rhs fs' hs' + F = va_regs (fa_alloc fa1) hs + va_regs (fa_alloc rhs1) hs' + (?B + F)"
    by (simp add: fa_regs_def bs t(4,5))
  then have mem1: "mem_ok (mallocs m1) (va_regs (fa_alloc fa1) hs + va_regs (fa_alloc rhs1) hs' + (?B + F))" using mem t(8) by metis
  obtain va' rv m' where w: "variable_take (fa_alloc fa1) (fa_alloc rhs1) m1 = Inr (va', rv, m')" "va_ok m' va' (hs @ hs')" "sc_head (va_scope rv) = 0"
      "mem_ok (mallocs m') (va_regs va' (hs @ hs') + (?B + F))" "same_on (?B + F) m1 m'" "mallocs m' = mallocs m1"
    using variable_take_ok [OF v mem1] by blast
  define fa' where fa': "fa' = fa1\<lparr>fa_alloc := va'\<rparr>"
  have "fixed_take fa rhs m = Inr (fa', rhs1\<lparr>fa_alloc := rv\<rparr>, m')" using t(1) w(1) by (simp add: fixed_take_def fa')
  moreover have "fa_ok m' fa' (fs @ fs') (hs @ hs')"
    using t(2,6) w(2,5) chain_free_frame [of "fa_block_size fa" "fs @ fs'" m1 m'] by (simp add: fa_ok_def fa')
  moreover have "mem_ok (mallocs m') (fa_regs fa' (fs @ fs') (hs @ hs') + F)"
    using w(4) t(6) by (simp add: fa_regs_def fa' add_ac)
  moreover have "same_on F m m'" using t(7) w(5) same_on_trans [of F m m1 m'] by simp
  ultimately show ?thesis using w(3,6) t(6,8) by (auto simp: fa' destroy_fixed_def)
qed


text \<open>\<open>free_all\<close> gives back the chunks of the list and nothing else.\<close>

lemma free_all_chain:
  assumes "chain (block_next m) x hs" and "distinct hs" and "set hs \<subseteq> fst ` set (mallocs m)"
  shows "free_all x m = Inr (m\<lparr>mallocs := filter (\<lambda>b. fst b \<notin> set hs) (mallocs m)\<rparr>)"
  using assms
proof (induction hs arbitrary: x m)
  case Nil
  then show ?case by simp
next
  case (Cons h hs)
  define m1 where m1: "m1 = m\<lparr>mallocs := filter (\<lambda>b. fst b \<noteq> h) (mallocs m)\<rparr>"
  have x: "x = h" "h \<noteq> 0" "chain (block_next m) (block_next m h) hs" using Cons.prems(1) by simp_all
  have "h \<in> fst ` set (mallocs m)" using Cons.prems(3) by simp
  then have "static_alloc_free h (cells m h) m = Inr m1" using x(2) by (simp add: static_alloc_free_def std_free_def m1)
  then have "free_all x m = free_all (block_next m h) m1" using x(1,2) by (simp add: free_all.simps [of h m])
  moreover have "free_all (block_next m h) m1 = Inr (m1\<lparr>mallocs := filter (\<lambda>b. fst b \<notin> set hs) (mallocs m1)\<rparr>)"
  proof (rule Cons.IH)
    have "block_next m1 = block_next m" by (auto simp: block_next_def m1)
    then show "chain (block_next m1) (block_next m h) hs" using x(3) by simp
    show "distinct hs" using Cons.prems(2) by simp
    have "y \<in> fst ` set (mallocs m1)" if "y \<in> set hs" for y
    proof -
      have "y \<in> fst ` set (mallocs m)" "y \<noteq> h" using Cons.prems(2,3) that by auto
      then show ?thesis by (auto simp: m1)
    qed
    then show "set hs \<subseteq> fst ` set (mallocs m1)" by blast
  qed
  moreover have "filter (\<lambda>b. fst b \<notin> set hs) (mallocs m1) = filter (\<lambda>b. fst b \<notin> set (h # hs)) (mallocs m)"
    by (auto simp: m1 intro: filter_cong)
  ultimately show ?case by (simp add: m1)
qed

end
