(* ===== verification/Mem_World.thy ===== *)
theory Mem_World
  imports Mem_Inv
begin

text \<open>
  Memory that many allocators share. \<open>world m A F\<close> says that the allocators \<open>A\<close> and the regions \<open>F\<close> that are
  in use divide the memory among them; every operation on one of the allocators keeps it.
\<close>

type_synonym held = "fixed_alloc \<times> addr list \<times> addr list"

definition held_regs :: "held multiset \<Rightarrow> region multiset" where
  "held_regs G = sum_mset (image_mset (\<lambda>(fa, fs, hs). fa_regs fa fs hs) G)"

definition held_ok :: "memory \<Rightarrow> held multiset \<Rightarrow> bool" where
  "held_ok m G \<longleftrightarrow> (\<forall>(fa, fs, hs) \<in># G. fa_ok m fa fs hs)"

definition world :: "memory \<Rightarrow> fixed_alloc multiset \<Rightarrow> region multiset \<Rightarrow> bool" where
  "world m A F \<longleftrightarrow> (\<exists>G. image_mset fst G = A \<and> held_ok m G \<and> mem_ok (mallocs m) (held_regs G + F))"

lemma held_regs_simps [simp]: "held_regs {#} = {#}" "held_regs (add_mset (fa, fs, hs) G) = fa_regs fa fs hs + held_regs G"
  by (simp_all add: held_regs_def)

lemma held_ok_simps [simp]: "held_ok m {#}" "held_ok m (add_mset (fa, fs, hs) G) \<longleftrightarrow> fa_ok m fa fs hs \<and> held_ok m G"
  by (auto simp: held_ok_def)

lemma held_regs_member: "(fa, fs, hs) \<in># G \<Longrightarrow> fa_regs fa fs hs \<subseteq># held_regs G"
  by (metis held_regs_simps(2) insert_DiffM mset_subset_eq_add_left)

lemma same_on_mono: "same_on M m m' \<Longrightarrow> N \<subseteq># M \<Longrightarrow> same_on N m m'"
  by (auto simp: same_on_def dest: mset_subset_eqD)

lemma held_ok_frame:
  assumes "held_ok m G" and "same_on (held_regs G) m m'" and "set (mallocs m) \<subseteq> set (mallocs m')"
  shows "held_ok m' G"
  using assms held_regs_member same_on_mono fa_ok_frame unfolding held_ok_def by fast

lemma world_empty: "world \<lparr>cells = c, mallocs = []\<rparr> {#} {#}"
  by (auto simp: world_def mem_ok_def malloced_def intro: exI [of _ "{#}"])

text \<open>One of the allocators, with what it holds.\<close>

lemma worldE:
  assumes "world m (add_mset fa A) F"
  obtains fs hs G where "image_mset fst G = A" "fa_ok m fa fs hs" "held_ok m G" "mem_ok (mallocs m) (fa_regs fa fs hs + (held_regs G + F))"
proof -
  obtain G0 where G0: "image_mset fst G0 = add_mset fa A" "held_ok m G0" "mem_ok (mallocs m) (held_regs G0 + F)" using assms by (auto simp: world_def)
  then obtain g G where g: "G0 = add_mset g G" "fst g = fa" "image_mset fst G = A" using msed_map_invR [OF G0(1)] by auto
  then obtain fs hs where "g = (fa, fs, hs)" by (cases g) auto
  then show ?thesis using that [of G fs hs] G0 g by (simp add: add_ac)
qed

lemma worldI:
  assumes "image_mset fst G = A" and "fa_ok m fa fs hs" and "held_ok m G" and "mem_ok (mallocs m) (fa_regs fa fs hs + (held_regs G + F))"
  shows "world m (add_mset fa A) F"
  unfolding world_def by (rule exI [of _ "add_mset (fa, fs, hs) G"]) (use assms in \<open>simp add: add_ac\<close>)

lemma world_new:
  assumes "world m A F" and "8 dvd bs" and "0 < bs" and "bs \<le> 512"
  shows "world m (add_mset (new_fixed bs 1) A) F"
proof -
  obtain G where G: "image_mset fst G = A" "held_ok m G" "mem_ok (mallocs m) (held_regs G + F)" using assms(1) by (auto simp: world_def)
  show ?thesis
  proof (rule worldI [OF G(1) _ G(2)])
    show "fa_ok m (new_fixed bs 1) [] []" using assms(2-4) by (rule new_fixed_ok)
    show "mem_ok (mallocs m) (fa_regs (new_fixed bs 1) [] [] + (held_regs G + F))" using G(3) by (simp add: new_fixed_ok(2) mem_ok_null)
  qed
qed

lemma world_free:
  assumes "world m (add_mset fa A) (add_mset (p, fa_block_size fa) F)" and "fixed_free p fa m = (fa', m')"
  shows "world m' (add_mset fa' A) F \<and> mallocs m' = mallocs m \<and> fa_block_size fa' = fa_block_size fa"
proof -
  obtain fs hs G where G: "image_mset fst G = A" "fa_ok m fa fs hs" "held_ok m G"
      "mem_ok (mallocs m) (fa_regs fa fs hs + (held_regs G + add_mset (p, fa_block_size fa) F))"
    using worldE [OF assms(1)] .
  then have mem: "mem_ok (mallocs m) (add_mset (p, fa_block_size fa) (fa_regs fa fs hs + (held_regs G + F)))" by simp
  note f = fixed_free_ok [OF G(2) mem assms(2)]
  have "held_ok m' G" using held_ok_frame [OF G(3), of m'] f by simp
  then have "world m' (add_mset fa' A) F" using f mem by (intro worldI [OF G(1), of m' fa' "p # fs" hs]) simp_all
  then show ?thesis using f by simp
qed

lemma world_alloc:
  assumes "world m (add_mset fa A) F" and "malloc_ok mal"
    and "\<not> (fixed_alloc_alloc mal fa m = Inl NullDereference \<and> refuses mal (mallocs m))"
  shows "\<exists>p fa' m'. fixed_alloc_alloc mal fa m = Inr (p, fa', m') \<and> p \<noteq> 0 \<and> world m' (add_mset fa' A) (add_mset (p, fa_block_size fa) F)
    \<and> one_more (mallocs m) (mallocs m') \<and> fa_block_size fa' = fa_block_size fa"
proof -
  obtain fs hs G where G: "image_mset fst G = A" "fa_ok m fa fs hs" "held_ok m G" "mem_ok (mallocs m) (fa_regs fa fs hs + (held_regs G + F))"
    using worldE [OF assms(1)] .
  obtain p fa' m' fs' hs' where a: "fixed_alloc_alloc mal fa m = Inr (p, fa', m')" "fa_ok m' fa' fs' hs'" "p \<noteq> 0"
      "mem_ok (mallocs m') (add_mset (p, fa_block_size fa) (fa_regs fa' fs' hs' + (held_regs G + F)))" "same_on (held_regs G + F) m m'"
      "one_more (mallocs m) (mallocs m')" "fa_block_size fa' = fa_block_size fa"
    using fixed_alloc_ok [OF G(2,4) assms(2,3)] by blast
  have "held_ok m' G" using held_ok_frame [OF G(3), of m'] one_more_set [OF a(6)] a(5) by simp
  then have "world m' (add_mset fa' A) (add_mset (p, fa_block_size fa) F)" using a(2,4) by (intro worldI [OF G(1), of m' fa' fs' hs']) simp_all
  then show ?thesis using a by blast
qed

lemma world_take:
  assumes "world m (add_mset fa (add_mset rhs A)) F" and bs: "fa_block_size rhs = fa_block_size fa"
  shows "\<exists>fa' rhs' m'. fixed_take fa rhs m = Inr (fa', rhs', m') \<and> destroy_fixed rhs' m' = Inr m' \<and> world m' (add_mset fa' A) F
    \<and> mallocs m' = mallocs m \<and> fa_block_size fa' = fa_block_size fa"
proof -
  obtain fs hs G1 where G1: "image_mset fst G1 = add_mset rhs A" "fa_ok m fa fs hs" "held_ok m G1" "mem_ok (mallocs m) (fa_regs fa fs hs + (held_regs G1 + F))"
    using worldE [OF assms(1)] .
  obtain g G where g: "G1 = add_mset g G" "fst g = rhs" "image_mset fst G = A" using msed_map_invR [OF G1(1)] by auto
  obtain fs' hs' where g': "g = (rhs, fs', hs')" using g(2) by (cases g) auto
  have G: "fa_ok m rhs fs' hs'" "held_ok m G" "mem_ok (mallocs m) (fa_regs fa fs hs + fa_regs rhs fs' hs' + (held_regs G + F))"
    using G1(3,4) g(1) g' by (simp_all add: add_ac)
  obtain fa' rhs' m' where t: "fixed_take fa rhs m = Inr (fa', rhs', m')" "fa_ok m' fa' (fs @ fs') (hs @ hs')" "destroy_fixed rhs' m' = Inr m'"
      "mem_ok (mallocs m') (fa_regs fa' (fs @ fs') (hs @ hs') + (held_regs G + F))" "same_on (held_regs G + F) m m'"
      "mallocs m' = mallocs m" "fa_block_size fa' = fa_block_size fa"
    using fixed_take_ok [OF G1(2) G(1) bs G(3)] by blast
  have "held_ok m' G" using held_ok_frame [OF G(2), of m'] t(5,6) by simp
  then have "world m' (add_mset fa' A) F" using t(2,4) by (intro worldI [OF g(3)])
  then show ?thesis using t by blast
qed

text \<open>The holders of blocks write into them.\<close>

lemma world_fill:
  assumes "world m A F" and "r \<in># F" and "cell_of r a"
  shows "world (put_cell a v m) A F"
proof -
  obtain G where G: "image_mset fst G = A" "held_ok m G" "mem_ok (mallocs m) (held_regs G + F)" using assms(1) by (auto simp: world_def)
  have "\<forall>s \<in># held_regs G. apart r s" using G(3) assms(2) unfolding mem_ok_def all_apart_union by (metis apart_sym)
  then have "held_ok (put_cell a v m) G" using held_ok_frame [OF G(2), of "put_cell a v m"] same_on_put assms(3) by simp
  then show ?thesis using G unfolding world_def by (intro exI [of _ G]) simp
qed

text \<open>Blocks that come directly from \<open>malloc\<close>.\<close>

lemma world_malloc:
  assumes "world m A F" and "malloc_ok mal" and "mal (mallocs m) n \<noteq> 0" and "0 < n"
  shows "\<exists>p. std_malloc mal n m = (p, m\<lparr>mallocs := (p, n) # mallocs m\<rparr>) \<and> p \<noteq> 0 \<and> world (m\<lparr>mallocs := (p, n) # mallocs m\<rparr>) A (add_mset (p, n) F)"
proof -
  obtain G where G: "image_mset fst G = A" "held_ok m G" "mem_ok (mallocs m) (held_regs G + F)" using assms(1) by (auto simp: world_def)
  define p where p: "p = mal (mallocs m) n"
  have p0: "p \<noteq> 0" using assms(3) by (simp add: p)
  have "held_ok (m\<lparr>mallocs := (p, n) # mallocs m\<rparr>) G" by (rule held_ok_frame [OF G(2)]) (auto simp: same_on_def)
  moreover have "mem_ok ((p, n) # mallocs m) (add_mset (p, n) (held_regs G + F))"
    by (rule mem_ok_malloc [OF G(3) assms(2) p [symmetric] p0 assms(4)])
  ultimately have "world (m\<lparr>mallocs := (p, n) # mallocs m\<rparr>) A (add_mset (p, n) F)" using G(1) unfolding world_def by (intro exI [of _ G]) simp
  then show ?thesis using p0 by (simp add: std_malloc_def Let_def p)
qed

lemma mem_ok_release:
  assumes mem: "mem_ok ms (add_mset (p, n) R)" and "(p, n) \<in> set ms"
  shows "mem_ok (filter (\<lambda>b. fst b \<noteq> p) ms) R" and "\<And>q k. (q, k) \<in># R \<Longrightarrow> 0 < k \<Longrightarrow> q \<noteq> p"
proof -
  have n: "0 < n" using assms by (auto simp: mem_ok_def malloced_def)
  have ap: "apart (p, n) r" if "r \<in># R" for r using mem that by (simp add: mem_ok_def)
  have only: "b = (p, n)" if "b \<in> set ms" "fst b = p" for b
  proof (rule ccontr)
    assume "b \<noteq> (p, n)"
    then have "{#b, (p, n)#} \<subseteq># mset ms" using that(1) assms(2) by (simp add: insert_subset_eq_iff in_diff_count)
    then have "apart b (p, n)" using mem unfolding mem_ok_def malloced_def all_apart_def by blast
    moreover have "0 < snd b" using mem that(1) by (cases b) (auto simp: mem_ok_def malloced_def)
    ultimately show False using that(2) n by (cases b) auto
  qed
  have "lies_in (filter (\<lambda>b. fst b \<noteq> p) ms) r" if r: "r \<in># R" for r
  proof (cases "snd r = 0")
    case True
    then show ?thesis using mem r by (auto simp: mem_ok_def lies_in_def)
  next
    case False
    then obtain b where b: "b \<in> set ms" "part_of r b" using mem r by (auto simp: mem_ok_def lies_in_def)
    have "fst b \<noteq> p"
    proof
      assume "fst b = p"
      then have "part_of r (p, n)" using only b by metis
      then show False using ap [OF r] False n by (cases r) auto
    qed
    then have "b \<in> set (filter (\<lambda>b. fst b \<noteq> p) ms)" using b(1) by simp
    moreover have "8 dvd fst r" using mem r by (simp add: mem_ok_def lies_in_def)
    ultimately show ?thesis using b(2) unfolding lies_in_def by blast
  qed
  moreover have "malloced (filter (\<lambda>b. fst b \<noteq> p) ms)"
    using mem by (auto simp: mem_ok_def malloced_def intro: all_apart_mono [OF _ multiset_filter_subset])
  ultimately show "mem_ok (filter (\<lambda>b. fst b \<noteq> p) ms) R" using mem by (simp add: mem_ok_def)
  show "q \<noteq> p" if "(q, k) \<in># R" "0 < k" for q k using ap [OF that(1)] that(2) n by auto
qed

lemma world_release:
  assumes "world m A (add_mset (p, n) F)" and p: "(p, n) \<in> set (mallocs m)"
  shows "world (m\<lparr>mallocs := filter (\<lambda>b. fst b \<noteq> p) (mallocs m)\<rparr>) A F" (is "world ?m A F")
proof -
  obtain G where G: "image_mset fst G = A" "held_ok m G" "mem_ok (mallocs m) (held_regs G + add_mset (p, n) F)" using assms(1) by (auto simp: world_def)
  then have mem: "mem_ok (mallocs m) (add_mset (p, n) (held_regs G + F))" by simp
  note r = mem_ok_release [OF mem p]
  have "fa_ok ?m fa fs hs" if g: "(fa, fs, hs) \<in># G" for fa fs hs
  proof -
    have ok: "fa_ok m fa fs hs" using G(2) g by (auto simp: held_ok_def)
    have "h \<noteq> p" if "h \<in> set hs" for h
    proof -
      have "(h, 16) \<in># fa_regs fa fs hs" using that by (simp add: fa_regs_def va_regs_def)
      then show ?thesis using r(2) [of h 16] held_regs_member [OF g] by (meson mset_subset_eqD union_iff zero_less_numeral)
    qed
    then have "set hs \<subseteq> fst ` set (mallocs ?m)" using ok by (force simp: fa_ok_def va_ok_def)
    moreover have "block_next ?m = block_next m" by (auto simp: block_next_def)
    ultimately show ?thesis using ok by (simp add: fa_ok_def va_ok_def)
  qed
  then have "held_ok ?m G" by (auto simp: held_ok_def)
  then show ?thesis using G(1) r(1) unfolding world_def by (intro exI [of _ G]) simp
qed

text \<open>What is in use does not overlap and lies in memory that \<open>malloc\<close> has given out.\<close>

lemma world_apart: "world m A F \<Longrightarrow> all_apart F \<and> (\<forall>r \<in># F. lies_in (mallocs m) r)"
  by (auto simp: world_def mem_ok_def all_apart_union)

end
