(* ===== verification/Mem_Props.thy ===== *)
theory Mem_Props
  imports Mem_Pool Mem_World
begin

text \<open>
  Correctness of the pool of \<open>Mem_Pool\<close>: blocks in use never overlap and are as large as was asked for; a destroyed
  allocator gives back its chunks; and what goes wrong when more than 32 threads have ended.
\<close>

section \<open>Size classes\<close>

lemma minus64_small: "b \<le> a \<Longrightarrow> a < 2 ^ 64 \<Longrightarrow> minus64 (minus64 a 0) b = a - b"
  by (simp add: minus64_le)

lemma classify_alt: "0 < n \<Longrightarrow> n < 2 ^ 64 \<Longrightarrow> classify n = (if n \<le> 512 then Some ((n - 1) div 8) else None)"
proof -
  assume n: "0 < n" "n < 2 ^ 64"
  then have "minus64 (minus64 n base_size) 1 = n - 1" unfolding base_size_def by (intro minus64_small) simp_all
  moreover have "(n - 1) div 8 < 64 \<longleftrightarrow> n \<le> 512" using n(1) by linarith
  ultimately show "classify n = (if n \<le> 512 then Some ((n - 1) div 8) else None)"
    by (simp add: classify_def iter_size_def classes_size_def)
qed

lemma classify_0 [simp]: "classify 0 = None"
  by (simp add: classify_def base_size_def iter_size_def classes_size_def minus64_def wrap64_def)

lemma classify_Some: "classify n = Some i \<Longrightarrow> i < 64"
  by (auto simp: classify_def classes_size_def Let_def split: if_splits)

lemma class_block_size_alt: "i < 64 \<Longrightarrow> class_block_size i = 8 * (i + 1)"
  by (simp add: class_block_size_def classes_size_def base_size_def iter_size_def)

text \<open>The room of a block for which \<open>n\<close> bytes were asked.\<close>

definition room :: "nat \<Rightarrow> nat" where
  "room n = (case classify n of Some i \<Rightarrow> class_block_size i | None \<Rightarrow> n)"

lemma room_alt: "0 < n \<Longrightarrow> n < 2 ^ 64 \<Longrightarrow> room n = (if n \<le> 512 then 8 * ((n - 1) div 8 + 1) else n)"
  by (simp add: room_def classify_alt class_block_size_alt)

lemma room_bounds: "0 < n \<Longrightarrow> n < 2 ^ 64 \<Longrightarrow> n \<le> room n \<and> room n < n + 8"
  by (simp add: room_alt) presburger

section \<open>The allocators of a class\<close>

definition allocs_of :: "async_wrapper \<Rightarrow> fixed_alloc multiset" where
  "allocs_of w = mset (aw_master w) + mset (map snd (aw_tls w))"

definition wrap_ok :: "nat \<Rightarrow> async_wrapper \<Rightarrow> bool" where
  "wrap_ok bs w \<longleftrightarrow> tbl_ok (aw_tls w) \<and> aw_block_size w = bs \<and> (\<forall>fa \<in># allocs_of w. fa_block_size fa = bs)"

lemma tls_split:
  assumes "tbl_ok tb" and "map_of tb t = Some x"
  shows "\<exists>B. mset (map snd tb) = add_mset x B \<and> (\<forall>y. mset (map snd (tput t y tb)) = add_mset y B) \<and> mset (map snd (terase t tb)) = B"
  using assms
proof (induction tb)
  case (Cons kv tb)
  obtain k v where kv: "kv = (k, v)" by fastforce
  show ?case
  proof (cases "k = t")
    case True
    then have "terase t tb = tb" using Cons.prems(1) kv by (intro AList.delete_id) (auto simp: tbl_ok_def)
    then show ?thesis using True Cons.prems(2) kv by auto
  next
    case False
    then obtain B where "mset (map snd tb) = add_mset x B" "\<forall>y. mset (map snd (tput t y tb)) = add_mset y B" "mset (map snd (terase t tb)) = B"
      using Cons kv by (auto simp: tbl_ok_def)
    then show ?thesis using False kv by (intro exI [of _ "add_mset v B"]) (auto simp: add_mset_commute)
  qed
qed simp

text \<open>The allocator of a thread and the other ones.\<close>

lemma allocs_split:
  assumes "tbl_ok (aw_tls w)" and "map_of (aw_tls w) t = Some alc"
  shows "\<exists>B. allocs_of w = add_mset alc (mset (aw_master w) + B)
    \<and> (\<forall>x ms. allocs_of (w\<lparr>aw_master := ms, aw_tls := tput t x (aw_tls w)\<rparr>) = add_mset x (mset ms + B))"
  using tls_split [OF assms] by (auto simp: allocs_of_def)

abbreviation class_size :: "nat \<Rightarrow> bool" where
  "class_size bs \<equiv> 8 dvd bs \<and> 0 < bs \<and> bs \<le> 512"

lemma get_alloc_ok:
  assumes w: "wrap_ok bs w" "class_size bs" and world: "world m (allocs_of w + A) F"
  shows "\<exists>alc w'. get_alloc t w m = Inr (alc, w', m) \<and> wrap_ok bs w' \<and> map_of (aw_tls w') t = Some alc \<and> world m (allocs_of w' + A) F
    \<and> length (aw_master w') \<le> length (aw_master w)"
proof (cases "map_of (aw_tls w) t")
  case (Some alc)
  then show ?thesis using assms by (auto simp: get_alloc_def)
next
  case None
  then have fresh: "tput t x (aw_tls w) = aw_tls w @ [(t, x)]" for x by (simp add: tput_fresh thas_def)
  show ?thesis
  proof (cases "aw_master w")
    case Nil
    let ?n = "new_fixed bs 1"
    have "allocs_of (w\<lparr>aw_tls := tput t ?n (aw_tls w)\<rparr>) = add_mset ?n (allocs_of w)" by (simp add: allocs_of_def fresh)
    moreover have "fa_block_size ?n = bs" by (simp add: new_fixed_def)
    ultimately have "wrap_ok bs (w\<lparr>aw_tls := tput t ?n (aw_tls w)\<rparr>) \<and> world m (allocs_of (w\<lparr>aw_tls := tput t ?n (aw_tls w)\<rparr>) + A) F"
      using w world_new [OF world] by (simp add: wrap_ok_def)
    then show ?thesis using None Nil w(1) by (auto simp: get_alloc_def try_recover_def wrap_ok_def)
  next
    case (Cons first others)
    let ?w = "w\<lparr>aw_master := others, aw_tls := tput t first (aw_tls w)\<rparr>"
    have "allocs_of ?w = allocs_of w" by (simp add: allocs_of_def fresh Cons)
    moreover have "destroy_fixed (new_fixed b 1) m = Inr m" for b by (simp add: destroy_fixed_def new_fixed_def empty_variable_def)
    ultimately show ?thesis using None Cons w world by (auto simp: get_alloc_def try_recover_def wrap_ok_def)
  qed
qed

lemma async_free_ok:
  assumes w: "wrap_ok bs w" "class_size bs" and world: "world m (allocs_of w + A) (add_mset (p, bs) F)"
  shows "\<exists>w' m'. async_free t p w m = Inr (w', m') \<and> wrap_ok bs w' \<and> world m' (allocs_of w' + A) F \<and> mallocs m' = mallocs m
    \<and> length (aw_master w') \<le> length (aw_master w)"
proof -
  obtain alc w1 where g: "get_alloc t w m = Inr (alc, w1, m)" "wrap_ok bs w1" "map_of (aw_tls w1) t = Some alc"
      "world m (allocs_of w1 + A) (add_mset (p, bs) F)" "length (aw_master w1) \<le> length (aw_master w)"
    using get_alloc_ok [OF assms] by blast
  obtain B where B: "allocs_of w1 = add_mset alc (mset (aw_master w1) + B)"
      "\<forall>x ms. allocs_of (w1\<lparr>aw_master := ms, aw_tls := tput t x (aw_tls w1)\<rparr>) = add_mset x (mset ms + B)"
    using allocs_split [OF _ g(3)] g(2) by (auto simp: wrap_ok_def)
  obtain fa' m' where f: "fixed_free p alc m = (fa', m')" by fastforce
  let ?w = "w1\<lparr>aw_tls := tput t fa' (aw_tls w1)\<rparr>"
  have B': "allocs_of ?w = add_mset fa' (mset (aw_master w1) + B)" using B(2) [rule_format, of fa' "aw_master w1"] by (simp add: allocs_of_def)
  have bs: "fa_block_size alc = bs" using g(2) B(1) by (simp add: wrap_ok_def)
  have "world m' (add_mset fa' (mset (aw_master w1) + B + A)) F \<and> mallocs m' = mallocs m \<and> fa_block_size fa' = bs"
    using world_free [of m alc _ p F fa' m', OF _ f] g(4) B(1) by (simp add: bs)
  moreover from this have "wrap_ok bs ?w" using g(2) B(1) B' by (simp add: wrap_ok_def)
  ultimately show ?thesis using g(1,5) f B' by (auto simp: async_free_def)
qed

lemma try_replenish_ok:
  assumes w: "wrap_ok bs w" and t: "map_of (aw_tls w) t = Some alc" and world: "world m (allocs_of w + A) F"
  shows "\<exists>alc' w' m'. try_replenish alc w m = Inr (alc', w', m') \<and> fa_block_size alc' = bs \<and> mallocs m' = mallocs m \<and> aw_tls w' = aw_tls w \<and> aw_block_size w' = bs
    \<and> (\<forall>x. fa_block_size x = bs \<longrightarrow> wrap_ok bs (w'\<lparr>aw_tls := tput t x (aw_tls w')\<rparr>))
    \<and> (\<exists>C. world m' (add_mset alc' C) F \<and> (\<forall>x. allocs_of (w'\<lparr>aw_tls := tput t x (aw_tls w')\<rparr>) + A = add_mset x C))
    \<and> length (aw_master w') \<le> length (aw_master w)"
proof -
  obtain B where B: "allocs_of w = add_mset alc (mset (aw_master w) + B)"
      "\<forall>x ms. allocs_of (w\<lparr>aw_master := ms, aw_tls := tput t x (aw_tls w)\<rparr>) = add_mset x (mset ms + B)"
    using allocs_split [OF _ t] w by (auto simp: wrap_ok_def)
  have bs: "fa_block_size alc = bs" "\<forall>x \<in> set (aw_master w). fa_block_size x = bs" "\<forall>x \<in># B. fa_block_size x = bs" "tbl_ok (aw_tls w)" "aw_block_size w = bs"
    using w B(1) by (auto simp: wrap_ok_def)
  have ok: "wrap_ok bs (w\<lparr>aw_master := ms, aw_tls := tput t x (aw_tls w)\<rparr>)" if "set ms \<subseteq> set (aw_master w)" "fa_block_size x = bs" for ms x
    using bs that B(2) by (auto simp: wrap_ok_def)
  show ?thesis
  proof (cases "fixed_empty alc \<and> aw_master w \<noteq> []")
    case False
    then have "try_replenish alc w m = Inr (alc, w, m)" by (auto simp: try_replenish_def try_fill_def split: list.splits)
    moreover have "allocs_of (w\<lparr>aw_tls := tput t x (aw_tls w)\<rparr>) + A = add_mset x (mset (aw_master w) + B + A)" for x
      using B(2) [rule_format, of x "aw_master w"] by (simp add: allocs_of_def)
    moreover have "wrap_ok bs (w\<lparr>aw_tls := tput t x (aw_tls w)\<rparr>)" if "fa_block_size x = bs" for x
      using ok [OF subset_refl that] by simp
    moreover have "world m (add_mset alc (mset (aw_master w) + B + A)) F" using world B(1) by simp
    ultimately show ?thesis using bs(1,5) by blast
  next
    case True
    then obtain first others where f: "aw_master w = first # others" by (cases "aw_master w") auto
    have "world m (add_mset alc (add_mset first (mset others + B + A))) F" using world B(1) f by simp
    then obtain alc' first' m' where tk: "fixed_take alc first m = Inr (alc', first', m')" "destroy_fixed first' m' = Inr m'"
        "world m' (add_mset alc' (mset others + B + A)) F" "mallocs m' = mallocs m" "fa_block_size alc' = bs"
      using world_take [of m alc first "mset others + B + A" F] bs f by auto
    have "try_replenish alc w m = Inr (alc', w\<lparr>aw_master := others\<rparr>, m')"
      using True f tk(1,2) by (simp add: try_replenish_def try_fill_def)
    moreover have "wrap_ok bs (w\<lparr>aw_master := others, aw_tls := tput t x (aw_tls w)\<rparr>)" if "fa_block_size x = bs" for x
      using ok [of others x] that f by auto
    ultimately show ?thesis using tk bs B(2) f by auto
  qed
qed

lemma async_alloc_ok:
  assumes w: "wrap_ok bs w" "class_size bs" and world: "world m (allocs_of w + A) F" and mal: "malloc_ok mal"
    and served: "\<not> (async_alloc mal t w m = Inl NullDereference \<and> refuses mal (mallocs m))"
  shows "\<exists>p w' m'. async_alloc mal t w m = Inr (p, w', m') \<and> p \<noteq> 0 \<and> wrap_ok bs w' \<and> world m' (allocs_of w' + A) (add_mset (p, bs) F)
    \<and> one_more (mallocs m) (mallocs m') \<and> length (aw_master w') \<le> length (aw_master w)"
proof -
  obtain alc w1 where g: "get_alloc t w m = Inr (alc, w1, m)" "wrap_ok bs w1" "map_of (aw_tls w1) t = Some alc"
      "world m (allocs_of w1 + A) F" "length (aw_master w1) \<le> length (aw_master w)"
    using get_alloc_ok [OF assms(1-3)] by blast
  obtain alc2 w2 m2 C where r: "try_replenish alc w1 m = Inr (alc2, w2, m2)" "fa_block_size alc2 = bs" "mallocs m2 = mallocs m"
      "\<forall>x. fa_block_size x = bs \<longrightarrow> wrap_ok bs (w2\<lparr>aw_tls := tput t x (aw_tls w2)\<rparr>)" "world m2 (add_mset alc2 C) F"
      "\<forall>x. allocs_of (w2\<lparr>aw_tls := tput t x (aw_tls w2)\<rparr>) + A = add_mset x C" "length (aw_master w2) \<le> length (aw_master w1)"
    using try_replenish_ok [OF g(2-4)] by blast
  have "\<not> (fixed_alloc_alloc mal alc2 m2 = Inl NullDereference \<and> refuses mal (mallocs m2))"
    using served g(1) r(1,3) by (auto simp: async_alloc_def)
  then obtain p alc3 m3 where a: "fixed_alloc_alloc mal alc2 m2 = Inr (p, alc3, m3)" "p \<noteq> 0" "world m3 (add_mset alc3 C) (add_mset (p, bs) F)"
      "one_more (mallocs m2) (mallocs m3)" "fa_block_size alc3 = bs"
    using world_alloc [OF r(5) mal] r(2) by auto
  show ?thesis using g(1,5) r a by (simp add: async_alloc_def)
qed

lemma async_exit_ok:
  assumes w: "wrap_ok bs w" and "length (aw_master w) < 32" and world: "world m (allocs_of w + A) F"
  shows "\<exists>w'. async_exit t w m = Inr (w', m) \<and> wrap_ok bs w' \<and> world m (allocs_of w' + A) F \<and> length (aw_master w') \<le> Suc (length (aw_master w))"
proof (cases "map_of (aw_tls w) t")
  case (Some alc)
  let ?w = "w\<lparr>aw_tls := terase t (aw_tls w), aw_master := aw_master w @ [alc]\<rparr>"
  have "tbl_ok (aw_tls w)" using w by (simp add: wrap_ok_def)
  then have "allocs_of ?w = allocs_of w" using tls_split [OF _ Some] by (auto simp: allocs_of_def)
  then show ?thesis using Some assms by (auto simp: async_exit_def collect_def recycler_limit_def wrap_ok_def)
qed (use assms in \<open>auto simp: async_exit_def\<close>)


section \<open>The pool\<close>

definition pool_allocs :: "async_wrapper list \<Rightarrow> fixed_alloc multiset" where
  "pool_allocs ws = sum_list (map allocs_of ws)"

definition live_regs :: "(addr \<times> nat) list \<Rightarrow> region multiset" where
  "live_regs live = mset (map (\<lambda>(p, n). (p, room n)) live)"

definition classes_ok :: "nat \<Rightarrow> async_wrapper list \<Rightarrow> bool" where
  "classes_ok x ws \<longleftrightarrow> length ws = 64 \<and> (\<forall>i < 64. wrap_ok (8 * (i + 1)) (ws ! i) \<and> length (aw_master (ws ! i)) \<le> x)"

definition live_ok :: "memory \<Rightarrow> (addr \<times> nat) list \<Rightarrow> bool" where
  "live_ok m live \<longleftrightarrow> (\<forall>(p, n) \<in> set live. 0 < n \<and> n < 2 ^ 64 \<and> (512 < n \<longrightarrow> (p, n) \<in> set (mallocs m)))"

text \<open>At most \<open>k\<close> blocks of \<open>malloc\<close>, none of them larger than \<open>B\<close>, and \<open>x\<close> allocators of ended threads in each class.\<close>

definition few :: "nat \<Rightarrow> nat \<Rightarrow> (addr \<times> nat) list \<Rightarrow> bool" where
  "few B k ms \<longleftrightarrow> length ms \<le> k \<and> (\<forall>b \<in> set ms. snd b \<le> B)"

definition blocks_ok :: "nat \<Rightarrow> nat \<Rightarrow> nat \<Rightarrow> blocks_state \<Rightarrow> bool" where
  "blocks_ok B k x s = (case s of (ws, m, live) \<Rightarrow>
     classes_ok x ws \<and> world m (pool_allocs ws) (live_regs live) \<and> few B k (mallocs m) \<and> live_ok m live)"

lemma few_one_more: "few B k ms \<Longrightarrow> one_more ms ms' \<Longrightarrow> 2 ^ 35 \<le> B \<Longrightarrow> few B (Suc k) ms'"
  by (auto simp: few_def one_more_def)

lemma few_filter: "few B k ms \<Longrightarrow> few B k (filter P ms)"
  by (auto simp: few_def intro: le_trans [OF length_filter_le])

lemma pool_split: "i < length ws \<Longrightarrow> \<exists>A. \<forall>w. pool_allocs (ws[i := w]) = allocs_of w + A"
proof (induction ws arbitrary: i)
  case (Cons v ws)
  show ?case
  proof (cases i)
    case 0
    then show ?thesis by (auto simp: pool_allocs_def)
  next
    case (Suc j)
    then obtain A where "\<forall>w. pool_allocs (ws[j := w]) = allocs_of w + A" using Cons by auto
    then show ?thesis using Suc by (intro exI [of _ "allocs_of v + A"]) (simp add: pool_allocs_def add_ac)
  qed
qed simp

lemma class_at:
  assumes "classes_ok x ws" and "world m (pool_allocs ws) F" and "i < 64"
  obtains A where "wrap_ok (8 * (i + 1)) (ws ! i)" "world m (allocs_of (ws ! i) + A) F" "\<And>w. pool_allocs (ws[i := w]) = allocs_of w + A"
proof -
  obtain A where A: "\<forall>w. pool_allocs (ws[i := w]) = allocs_of w + A" using pool_split [of i ws] assms(1,3) by (auto simp: classes_ok_def)
  then have "pool_allocs ws = allocs_of (ws ! i) + A" using assms(1,3) by (metis list_update_id)
  then show ?thesis using that [of A] A assms by (simp add: classes_ok_def)
qed

lemma classes_ok_update: "classes_ok x ws \<Longrightarrow> wrap_ok (8 * (i + 1)) w \<Longrightarrow> length (aw_master w) \<le> x \<Longrightarrow> classes_ok x (ws[i := w])"
  unfolding classes_ok_def by (intro conjI allI impI; cases "i < length ws") (auto simp: nth_list_update)

lemma live_regs_simps [simp]: "live_regs [] = {#}" "live_regs ((p, n) # live) = add_mset (p, room n) (live_regs live)"
  by (simp_all add: live_regs_def)

lemma live_regs_member: "(p, n) \<in> set live \<Longrightarrow> (p, room n) \<in># live_regs live"
  by (induction live) auto

lemma live_regs_remove: "(p, n) \<in> set live \<Longrightarrow> live_regs live = add_mset (p, room n) (live_regs (remove1 (p, n) live))"
  by (induction live) (auto simp: add_mset_commute)

lemma live_ok_mono: "live_ok m live \<Longrightarrow> set (mallocs m) \<subseteq> set (mallocs m') \<Longrightarrow> live_ok m' live"
  by (fastforce simp: live_ok_def)

lemma live_ok_remove: "live_ok m live \<Longrightarrow> live_ok m (remove1 b live)"
  using set_remove1_subset [of b live] by (auto simp: live_ok_def)

lemma class_of: "0 < n \<Longrightarrow> n \<le> 512 \<Longrightarrow> classify n = Some ((n - 1) div 8) \<and> (n - 1) div 8 < 64 \<and> 8 * ((n - 1) div 8 + 1) = room n"
  by (simp add: classify_alt room_alt)

lemma room_large: "512 < n \<Longrightarrow> n < 2 ^ 64 \<Longrightarrow> classify n = None \<and> room n = n"
  by (simp add: classify_alt room_def)

text \<open>
  A request: the pool answers with a block that is in nobody's way. A request for more than 512 bytes goes
  to \<open>malloc\<close> and is answered with null when that is; a smaller one then fails.
\<close>

lemma ask_small_ok:
  assumes ok: "blocks_ok B k x (ws, m, live)" and n: "0 < n" "n \<le> 512" and mal: "malloc_ok mal" and B: "2 ^ 35 \<le> B"
    and served: "\<not> (blocks_step mal (Ask t n) (ws, m, live) = Inl NullDereference \<and> refuses mal (mallocs m))"
  shows "\<exists>p ws' m'. blocks_step mal (Ask t n) (ws, m, live) = Inr (ws', m', (p, n) # live) \<and> blocks_ok B (Suc k) x (ws', m', (p, n) # live)"
proof -
  have inv: "classes_ok x ws" "world m (pool_allocs ws) (live_regs live)" "few B k (mallocs m)" "live_ok m live" using ok by (simp_all add: blocks_ok_def)
  define i where "i = (n - 1) div 8"
  have i: "classify n = Some i" "i < 64" "8 * (i + 1) = room n" using class_of [OF n] by (simp_all add: i_def)
  obtain A where A: "wrap_ok (room n) (ws ! i)" "world m (allocs_of (ws ! i) + A) (live_regs live)" "\<And>w. pool_allocs (ws[i := w]) = allocs_of w + A"
    using class_at [OF inv(1,2) i(2)] i(3) by metis
  have c: "class_size (room n)" unfolding i(3) [symmetric] using i(2) by simp
  have "\<not> (async_alloc mal t (ws ! i) m = Inl NullDereference \<and> refuses mal (mallocs m))"
    using served i(1) by (auto simp: pool_alloc_def)
  then obtain p w' m' where a: "async_alloc mal t (ws ! i) m = Inr (p, w', m')" "p \<noteq> 0" "wrap_ok (room n) w'"
      "world m' (allocs_of w' + A) (add_mset (p, room n) (live_regs live))" "one_more (mallocs m) (mallocs m')"
      "length (aw_master w') \<le> length (aw_master (ws ! i))"
    using async_alloc_ok [OF A(1) c A(2) mal] by blast
  have "classes_ok x (ws[i := w'])" using inv(1) a(3,6) i(2,3) by (intro classes_ok_update) (auto simp: classes_ok_def)
  moreover have "live_ok m' ((p, n) # live)" using live_ok_mono [OF inv(4) one_more_set [OF a(5)]] n by (simp add: live_ok_def)
  moreover have "few B (Suc k) (mallocs m')" by (rule few_one_more [OF inv(3) a(5) B])
  ultimately show ?thesis using a i(1) A(3) by (simp add: pool_alloc_def blocks_ok_def)
qed

lemma ask_large_ok:
  assumes ok: "blocks_ok B k x (ws, m, live)" and n: "512 < n" "n \<le> B" "n < 2 ^ 64" and mal: "malloc_ok mal"
  shows "if mal (mallocs m) n = 0 then blocks_step mal (Ask t n) (ws, m, live) = Inr (ws, m, live)
    else \<exists>p m'. blocks_step mal (Ask t n) (ws, m, live) = Inr (ws, m', (p, n) # live) \<and> blocks_ok B (Suc k) x (ws, m', (p, n) # live)"
proof -
  have inv: "classes_ok x ws" "world m (pool_allocs ws) (live_regs live)" "few B k (mallocs m)" "live_ok m live" using ok by (simp_all add: blocks_ok_def)
  have c: "classify n = None" "room n = n" using room_large [of n] n by simp_all
  show ?thesis
  proof (cases "mal (mallocs m) n = 0")
    case True
    then show ?thesis using c n by (simp add: pool_alloc_def static_alloc_alloc_def std_malloc_def)
  next
    case False
    have "0 < n" using n by simp
    then obtain p where p: "std_malloc mal n m = (p, m\<lparr>mallocs := (p, n) # mallocs m\<rparr>)" "p \<noteq> 0"
        "world (m\<lparr>mallocs := (p, n) # mallocs m\<rparr>) (pool_allocs ws) (add_mset (p, n) (live_regs live))"
      using world_malloc [OF inv(2) mal False] by blast
    moreover have "live_ok (m\<lparr>mallocs := (p, n) # mallocs m\<rparr>) ((p, n) # live)" using inv(4) n by (auto simp: live_ok_def)
    moreover have "few B (Suc k) ((p, n) # mallocs m)" using inv(3) n(2) by (simp add: few_def)
    ultimately show ?thesis using False c n inv(1) by (simp add: pool_alloc_def static_alloc_alloc_def blocks_ok_def)
  qed
qed

lemma give_ok:
  assumes ok: "blocks_ok B k x (ws, m, live)"
  shows "\<exists>s'. blocks_step mal (Give t p n) (ws, m, live) = Inr s' \<and> blocks_ok B k x s'"
proof (cases "(p, n) \<in> set live")
  case True
  let ?live = "remove1 (p, n) live"
  have inv: "classes_ok x ws" "world m (pool_allocs ws) (add_mset (p, room n) (live_regs ?live))" "few B k (mallocs m)" "live_ok m live"
    using ok live_regs_remove [OF True] by (simp_all add: blocks_ok_def)
  have n: "0 < n" "n < 2 ^ 64" using inv(4) True by (auto simp: live_ok_def)
  show ?thesis
  proof (cases "n \<le> 512")
    case small: True
    define i where "i = (n - 1) div 8"
    have i: "classify n = Some i" "i < 64" "8 * (i + 1) = room n" using class_of [OF n(1) small] by (simp_all add: i_def)
    obtain A where A: "wrap_ok (room n) (ws ! i)" "world m (allocs_of (ws ! i) + A) (add_mset (p, room n) (live_regs ?live))" "\<And>w. pool_allocs (ws[i := w]) = allocs_of w + A"
      using class_at [OF inv(1,2) i(2)] i(3) by metis
    have "class_size (room n)" unfolding i(3) [symmetric] using i(2) by simp
    then obtain w' m' where a: "async_free t p (ws ! i) m = Inr (w', m')" "wrap_ok (room n) w'" "world m' (allocs_of w' + A) (live_regs ?live)"
        "mallocs m' = mallocs m" "length (aw_master w') \<le> length (aw_master (ws ! i))"
      using async_free_ok [OF A(1) _ A(2)] by blast
    have "classes_ok x (ws[i := w'])" using inv(1) a(2,5) i(2,3) by (intro classes_ok_update) (auto simp: classes_ok_def)
    moreover have "live_ok m' ?live" using live_ok_mono [OF live_ok_remove [OF inv(4)], of m'] a(4) by simp
    ultimately show ?thesis using True a i(1) A(3) inv(3) by (auto simp: pool_free_def blocks_ok_def)
  next
    case False
    let ?m = "m\<lparr>mallocs := filter (\<lambda>b. fst b \<noteq> p) (mallocs m)\<rparr>"
    have c: "classify n = None" "room n = n" using room_large [of n] False n by simp_all
    have m: "(p, n) \<in> set (mallocs m)" using inv(4) True False by (auto simp: live_ok_def)
    have w: "world ?m (pool_allocs ws) (live_regs ?live)" using world_release [of m _ p n, OF _ m] inv(2) c(2) by simp
    have ap: "apart (p, n) (q, room k)" "0 < k" "k < 2 ^ 64" if "(q, k) \<in> set ?live" for q k
    proof -
      have "(q, room k) \<in># live_regs ?live" using that by (rule live_regs_member)
      moreover have "\<forall>r \<in># live_regs ?live. apart (p, n) r" using world_apart [OF inv(2)] c(2) by simp
      ultimately show "apart (p, n) (q, room k)" by blast
      show "0 < k" "k < 2 ^ 64" using live_ok_remove [OF inv(4)] that by (fastforce simp: live_ok_def)+
    qed
    have q: "q \<noteq> p" if k: "(q, k) \<in> set ?live" for q k
    proof
      assume "q = p"
      then have "apart (p, n) (p, room k)" using ap(1) [OF k] by simp
      moreover have "0 < room k" using room_bounds [of k] ap(2,3) [OF k] by simp
      ultimately show False using n(1) by simp
    qed
    have "live_ok ?m ?live" unfolding live_ok_def
    proof (intro ballI, clarify)
      fix q k' assume b: "(q, k') \<in> set ?live"
      then show "0 < k' \<and> k' < 2 ^ 64 \<and> (512 < k' \<longrightarrow> (q, k') \<in> set (mallocs ?m))"
        using bspec [OF live_ok_remove [OF inv(4), unfolded live_ok_def] b] q [OF b] by simp
    qed
    moreover have "p \<in> fst ` set (mallocs m)" using m by force
    moreover have "p \<noteq> 0" using m inv(2) by (auto simp: world_def mem_ok_def malloced_def)
    moreover have "few B k (mallocs ?m)" using few_filter [OF inv(3)] by simp
    ultimately show ?thesis using True c(1) w inv(1) by (auto simp: pool_free_def static_alloc_free_def std_free_def blocks_ok_def)
  qed
qed (use ok in simp)

lemma fill_ok:
  assumes ok: "blocks_ok B k x (ws, m, live)"
  shows "\<exists>s'. blocks_step mal (Fill a v) (ws, m, live) = Inr s' \<and> blocks_ok B k x s'"
proof (cases "in_use live a")
  case True
  then obtain p n where p: "(p, n) \<in> set live" "p \<le> a" "a < p + n" by (auto simp: in_use_def)
  have "0 < n" "n < 2 ^ 64" using ok p(1) by (fastforce simp: blocks_ok_def live_ok_def)+
  then have "cell_of (p, room n) a" using p(2,3) room_bounds [of n] by (auto simp: cell_of_def)
  moreover have "(p, room n) \<in># live_regs live" using p(1) by (rule live_regs_member)
  ultimately have "world (put_cell a v m) (pool_allocs ws) (live_regs live)" using ok world_fill by (auto simp: blocks_ok_def)
  then show ?thesis using True ok live_ok_mono [of m live "put_cell a v m"] by (auto simp: blocks_ok_def)
qed (use ok in simp)

lemma exit_ok:
  assumes ok: "blocks_ok B k x (ws, m, live)" and "x < 32"
  shows "\<exists>s'. blocks_step mal (Exit t) (ws, m, live) = Inr s' \<and> blocks_ok B k (Suc x) s'"
proof -
  let ?f = "\<lambda>i (ws, m). bindE (async_exit t (ws ! i) m) (\<lambda>(w, m'). Inr (ws[i := w], m'))"
  have inv: "classes_ok x ws" "world m (pool_allocs ws) (live_regs live)" using ok by (simp_all add: blocks_ok_def)
  have "\<exists>ws'. foldE ?f [0..<j] (ws, m) = Inr (ws', m) \<and> classes_ok (Suc x) ws' \<and> world m (pool_allocs ws') (live_regs live) \<and> (\<forall>i \<ge> j. ws' ! i = ws ! i)"
    if "j \<le> 64" for j
    using that
  proof (induction j)
    case 0
    then show ?case using inv by (auto simp: classes_ok_def le_SucI)
  next
    case (Suc j)
    then obtain ws' where w: "foldE ?f [0..<j] (ws, m) = Inr (ws', m)" "classes_ok (Suc x) ws'" "world m (pool_allocs ws') (live_regs live)" "\<forall>i \<ge> j. ws' ! i = ws ! i"
      by auto
    obtain A where A: "wrap_ok (8 * (j + 1)) (ws' ! j)" "world m (allocs_of (ws' ! j) + A) (live_regs live)" "\<And>v. pool_allocs (ws'[j := v]) = allocs_of v + A"
      using class_at [OF w(2,3), of j] Suc.prems by auto
    have l: "length (aw_master (ws' ! j)) \<le> x" using w(4) inv(1) Suc.prems by (simp add: classes_ok_def)
    obtain v where v: "async_exit t (ws' ! j) m = Inr (v, m)" "wrap_ok (8 * (j + 1)) v" "world m (allocs_of v + A) (live_regs live)" "length (aw_master v) \<le> Suc x"
      using async_exit_ok [OF A(1) _ A(2)] l assms(2) by (meson Suc_le_mono le_less_trans le_trans)
    have "classes_ok (Suc x) (ws'[j := v])" using classes_ok_update [OF w(2) v(2,4)] by simp
    then show ?case using w v A(3) by (simp add: foldE_append)
  qed
  from this [of 64] obtain ws' where w: "foldE ?f [0..<64] (ws, m) = Inr (ws', m)" "classes_ok (Suc x) ws'" "world m (pool_allocs ws') (live_regs live)" by auto
  have "length ws = 64" using inv(1) by (simp add: classes_ok_def)
  then have "pool_exit t ws m = Inr (ws', m)" using w(1) by (simp only: pool_exit_def)
  then show ?thesis using w ok by (simp add: blocks_ok_def)
qed


lemma new_pool_ok: "blocks_ok B 0 0 (new_pool, \<lparr>cells = junk, mallocs = []\<rparr>, [])"
proof -
  have i: "new_pool ! i = \<lparr>aw_block_size = 8 * (i + 1), aw_master = [], aw_tls = []\<rparr>" if "i < 64" for i
    using that class_block_size_alt [of i] by (simp add: new_pool_def classes_size_def)
  have "length new_pool = 64" by (simp add: new_pool_def classes_size_def)
  then have "classes_ok 0 new_pool" using i by (simp add: classes_ok_def wrap_ok_def allocs_of_def)
  moreover have "pool_allocs new_pool = {#}" by (simp add: pool_allocs_def new_pool_def comp_def allocs_of_def)
  ultimately show ?thesis using world_empty by (simp add: blocks_ok_def live_ok_def few_def)
qed

fun asked :: "block_event \<Rightarrow> nat" where
  "asked (Ask t n) = n"
| "asked _ = 0"

fun ends :: "block_event \<Rightarrow> nat" where
  "ends (Exit t) = 1"
| "ends _ = 0"

lemma blocks_ok_mono: "blocks_ok B k x s \<Longrightarrow> k \<le> k' \<Longrightarrow> blocks_ok B k' x s"
  by (cases s) (auto simp: blocks_ok_def few_def)

text \<open>The only error of a step is that of a small request to which \<open>malloc\<close> gives no chunk.\<close>

definition out_of_memory :: "malloc_fn \<Rightarrow> block_event \<Rightarrow> blocks_state \<Rightarrow> bool" where
  "out_of_memory mal e s \<longleftrightarrow> blocks_step mal e s = Inl NullDereference \<and> 0 < asked e \<and> asked e \<le> 512 \<and> refuses mal (mallocs (fst (snd s)))"

lemma blocks_step_ok:
  assumes ok: "blocks_ok B k x s" and B: "2 ^ 35 \<le> B" "B < 2 ^ 64" and "asked e \<le> B" and "x + ends e \<le> 32" and mal: "malloc_ok mal"
  shows "out_of_memory mal e s \<or> (\<exists>s'. blocks_step mal e s = Inr s' \<and> blocks_ok B (Suc k) (x + ends e) s')"
proof -
  obtain ws m live where s: "s = (ws, m, live)" by (cases s)
  note ok = ok [unfolded s] and ok1 = blocks_ok_mono [OF ok [unfolded s], of "Suc k"]
  show ?thesis unfolding s
  proof (cases e)
    case (Ask t n)
    consider "n = 0" | "0 < n" "n \<le> 512" | "512 < n" by linarith
    then show "out_of_memory mal e (ws, m, live) \<or> (\<exists>s'. blocks_step mal e (ws, m, live) = Inr s' \<and> blocks_ok B (Suc k) (x + ends e) s')"
    proof cases
      case 1
      then show ?thesis using Ask ok1 by (simp add: pool_alloc_def static_alloc_alloc_def)
    next
      case 2
      then show ?thesis using ask_small_ok [OF ok 2 mal B(1), of t] Ask by (auto simp: out_of_memory_def)
    next
      case 3
      then show ?thesis using ask_large_ok [OF ok 3 _ _ mal, of t] assms(4) B(2) ok1 Ask by (auto split: if_splits)
    qed
  next
    case (Give t p n)
    then show "out_of_memory mal e (ws, m, live) \<or> (\<exists>s'. blocks_step mal e (ws, m, live) = Inr s' \<and> blocks_ok B (Suc k) (x + ends e) s')"
      using give_ok [OF ok, of mal t p n] blocks_ok_mono [of B k x _ "Suc k"] by auto
  next
    case (Fill a v)
    then show "out_of_memory mal e (ws, m, live) \<or> (\<exists>s'. blocks_step mal e (ws, m, live) = Inr s' \<and> blocks_ok B (Suc k) (x + ends e) s')"
      using fill_ok [OF ok, of mal a v] blocks_ok_mono [of B k x _ "Suc k"] by auto
  next
    case (Exit t)
    then show "out_of_memory mal e (ws, m, live) \<or> (\<exists>s'. blocks_step mal e (ws, m, live) = Inr s' \<and> blocks_ok B (Suc k) (x + ends e) s')"
      using exit_ok [OF ok, of mal t] assms(5) blocks_ok_mono [of B k "Suc x" _ "Suc k"] by auto
  qed
qed

text \<open>A run ends in a good state, or it stops at a small request in a good state in which \<open>malloc\<close> gives no chunk.\<close>

definition stops_short :: "malloc_fn \<Rightarrow> nat \<Rightarrow> block_event list \<Rightarrow> (addr \<Rightarrow> nat) \<Rightarrow> bool" where
  "stops_short mal B evs junk \<longleftrightarrow> blocks_run mal evs junk = Inl NullDereference \<and> (\<exists>evs1 e evs2 s. evs = evs1 @ e # evs2
     \<and> blocks_run mal evs1 junk = Inr s \<and> out_of_memory mal e s \<and> few B (length evs1) (mallocs (fst (snd s))))"

lemma blocks_run_ok:
  assumes "malloc_ok mal" and B: "2 ^ 35 \<le> B" "B < 2 ^ 64"
  shows "\<forall>e \<in> set evs. asked e \<le> B \<Longrightarrow> sum_list (map ends evs) \<le> 32 \<Longrightarrow>
    stops_short mal B evs junk \<or> (\<exists>s. blocks_run mal evs junk = Inr s \<and> blocks_ok B (length evs) (sum_list (map ends evs)) s)"
proof (induction evs rule: rev_induct)
  case Nil
  then show ?case using new_pool_ok by (simp add: blocks_run_def)
next
  case (snoc e evs)
  have step: "blocks_run mal (evs @ [e]) junk = bindE (blocks_run mal evs junk) (blocks_step mal e)"
  proof (cases "blocks_run mal evs junk")
    case (Inr s)
    then show ?thesis by (cases "blocks_step mal e s") (simp_all add: blocks_run_def foldE_append)
  qed (simp add: blocks_run_def foldE_append)
  have "stops_short mal B evs junk \<or> (\<exists>s. blocks_run mal evs junk = Inr s \<and> blocks_ok B (length evs) (sum_list (map ends evs)) s)"
    using snoc by simp
  then show ?case
  proof (elim disjE exE conjE)
    assume "stops_short mal B evs junk"
    then obtain evs1 e1 evs2 s where "blocks_run mal evs junk = Inl NullDereference" "evs = evs1 @ e1 # evs2"
        "blocks_run mal evs1 junk = Inr s \<and> out_of_memory mal e1 s \<and> few B (length evs1) (mallocs (fst (snd s)))"
      by (auto simp: stops_short_def)
    then have "stops_short mal B (evs @ [e]) junk" unfolding stops_short_def step
      by (intro conjI exI [of _ evs1] exI [of _ e1] exI [of _ "evs2 @ [e]"] exI [of _ s]) simp_all
    then show ?thesis by blast
  next
    fix s assume r: "blocks_run mal evs junk = Inr s" "blocks_ok B (length evs) (sum_list (map ends evs)) s"
    have "few B (length evs) (mallocs (fst (snd s)))" using r(2) by (cases s) (simp add: blocks_ok_def)
    moreover have "out_of_memory mal e s \<or> (\<exists>s'. blocks_step mal e s = Inr s' \<and> blocks_ok B (Suc (length evs)) (sum_list (map ends evs) + ends e) s')"
      using snoc.prems by (intro blocks_step_ok [OF r(2) B _ _ assms(1)]) simp_all
    moreover have "stops_short mal B (evs @ [e]) junk" if "out_of_memory mal e s" "few B (length evs) (mallocs (fst (snd s)))"
      unfolding stops_short_def step using r(1) that
      by (intro conjI exI [of _ evs] exI [of _ e] exI [of _ "[]"] exI [of _ s]) (simp_all add: out_of_memory_def)
    ultimately show ?thesis using r(1) step by auto
  qed
qed

lemma blocks_ok_apart:
  assumes "blocks_ok B k x (ws, m, live)"
  shows "all_apart (live_regs live)" and "(p, n) \<in> set live \<Longrightarrow> n \<le> room n \<and> lies_in (mallocs m) (p, room n)"
proof -
  have w: "all_apart (live_regs live)" "\<forall>r \<in># live_regs live. lies_in (mallocs m) r" and l: "live_ok m live"
    using assms world_apart [of m "pool_allocs ws" "live_regs live"] by (simp_all add: blocks_ok_def)
  show "all_apart (live_regs live)" by (rule w)
  show "n \<le> room n \<and> lies_in (mallocs m) (p, room n)" if b: "(p, n) \<in> set live"
  proof -
    have "0 < n" "n < 2 ^ 64" using l b by (auto simp: live_ok_def)
    then show ?thesis using room_bounds w(2) live_regs_member [OF b] by blast
  qed
qed

lemma next_request:
  assumes ok: "blocks_ok B k x (ws, m, live)" and mal: "malloc_ok mal" and B: "2 ^ 35 \<le> B" "B < 2 ^ 64" and n: "0 < n" "n \<le> B"
  shows "if 512 < n \<and> mal (mallocs m) n = 0 then blocks_step mal (Ask t n) (ws, m, live) = Inr (ws, m, live)
    else n \<le> 512 \<and> refuses mal (mallocs m) \<and> blocks_step mal (Ask t n) (ws, m, live) = Inl NullDereference
      \<or> (\<exists>p ws' m'. blocks_step mal (Ask t n) (ws, m, live) = Inr (ws', m', (p, n) # live)
           \<and> all_apart (live_regs ((p, n) # live)) \<and> lies_in (mallocs m') (p, room n))"
proof -
  have n64: "n < 2 ^ 64" using n(2) B(2) by simp
  consider "512 < n" "mal (mallocs m) n = 0" | "n \<le> 512" "refuses mal (mallocs m)" "blocks_step mal (Ask t n) (ws, m, live) = Inl NullDereference"
    | p ws' m' where "\<not> (512 < n \<and> mal (mallocs m) n = 0)" "blocks_step mal (Ask t n) (ws, m, live) = Inr (ws', m', (p, n) # live)"
        "blocks_ok B (Suc k) x (ws', m', (p, n) # live)"
    using ask_small_ok [OF ok n(1) _ mal B(1), of t] ask_large_ok [OF ok _ n(2) n64 mal, of t] by (cases "n \<le> 512") (auto split: if_splits)
  then show ?thesis
  proof cases
    case 1
    then show ?thesis using ask_large_ok [OF ok 1(1) n(2) n64 mal, of t] by simp
  next
    case 2
    then show ?thesis by simp
  next
    case 3
    then show ?thesis using blocks_ok_apart(1) [OF 3(3)] blocks_ok_apart(2) [OF 3(3), of p n] by auto
  qed
qed

text \<open>
  C17. Blocks of the pool never overlap. Threads ask for blocks of any size, write into the blocks they have, give
  blocks back, also from another thread than the one that got them, and end, at most 32 of them, in any order.
  Of \<open>malloc\<close> only its contract is known: null, or an aligned block apart from all others. Then, as long as the run
  goes on, the blocks in use are aligned to eight bytes, lie in memory that \<open>malloc\<close> has given out, have at least
  the size asked for, and no two of them have a byte in common; and the next request is answered with a block that
  joins them, or, for more than 512 bytes, with null exactly when \<open>malloc\<close> is null. The only error is that of a
  request for at most 512 bytes made in a state in which \<open>malloc\<close> refuses some size of at most 32 GiB: null is dereferenced.
\<close>

theorem pool_blocks_apart:
  assumes "malloc_ok mal" and "\<forall>e \<in> set evs. asked e < 2 ^ 64" and "sum_list (map ends evs) \<le> 32"
  shows "case blocks_run mal evs junk of
      Inr (ws, m, live) \<Rightarrow>
        all_apart (live_regs live) \<and> (\<forall>(p, n) \<in> set live. n \<le> room n \<and> lies_in (mallocs m) (p, room n))
      \<and> (\<forall>t n. 0 < n \<and> n < 2 ^ 64 \<longrightarrow>
           (if 512 < n \<and> mal (mallocs m) n = 0 then blocks_step mal (Ask t n) (ws, m, live) = Inr (ws, m, live)
            else n \<le> 512 \<and> refuses mal (mallocs m) \<and> blocks_step mal (Ask t n) (ws, m, live) = Inl NullDereference
              \<or> (\<exists>p ws' m'. blocks_step mal (Ask t n) (ws, m, live) = Inr (ws', m', (p, n) # live)
                   \<and> all_apart (live_regs ((p, n) # live)) \<and> lies_in (mallocs m') (p, room n))))
    | Inl err \<Rightarrow> err = NullDereference \<and> (\<exists>evs1 t n evs2 ws m live. evs = evs1 @ Ask t n # evs2 \<and> 0 < n \<and> n \<le> 512
        \<and> blocks_run mal evs1 junk = Inr (ws, m, live) \<and> refuses mal (mallocs m))"
proof -
  let ?B = "2 ^ 64 - 1 :: nat"
  have B: "2 ^ 35 \<le> ?B" "?B < 2 ^ 64" by simp_all
  have "\<forall>e \<in> set evs. asked e \<le> ?B" using assms(2) by fastforce
  from blocks_run_ok [OF assms(1) B this assms(3), of junk] show ?thesis
  proof (elim disjE exE conjE)
    assume "stops_short mal ?B evs junk"
    then obtain evs1 e evs2 s where r: "blocks_run mal evs junk = Inl NullDereference" "evs = evs1 @ e # evs2" "blocks_run mal evs1 junk = Inr s" "out_of_memory mal e s"
      by (auto simp: stops_short_def)
    moreover obtain t n where "e = Ask t n" using r(4) by (cases e) (auto simp: out_of_memory_def)
    moreover obtain ws m live where "s = (ws, m, live)" by (cases s)
    ultimately show ?thesis by (fastforce simp: out_of_memory_def)
  next
    fix s assume r: "blocks_run mal evs junk = Inr s" "blocks_ok ?B (length evs) (sum_list (map ends evs)) s"
    obtain ws m live where s: "s = (ws, m, live)" by (cases s)
    note ok = r(2) [unfolded s]
    note nxt = next_request [OF ok assms(1) B]
    show ?thesis unfolding r(1) s sum.case prod.case
    proof (intro conjI ballI allI impI)
      show "all_apart (live_regs live)" by (rule blocks_ok_apart(1) [OF ok])
      fix b assume "b \<in> set live"
      then show "case b of (p, n) \<Rightarrow> n \<le> room n \<and> lies_in (mallocs m) (p, room n)"
        using blocks_ok_apart(2) [OF ok, of "fst b" "snd b"] by (simp add: case_prod_unfold)
    next
      fix t n :: nat assume "0 < n \<and> n < 2 ^ 64"
      then have "0 < n" "n \<le> ?B" by simp_all
      then show "if 512 < n \<and> mal (mallocs m) n = 0 then blocks_step mal (Ask t n) (ws, m, live) = Inr (ws, m, live)
          else n \<le> 512 \<and> refuses mal (mallocs m) \<and> blocks_step mal (Ask t n) (ws, m, live) = Inl NullDereference
            \<or> (\<exists>p ws' m'. blocks_step mal (Ask t n) (ws, m, live) = Inr (ws', m', (p, n) # live)
                 \<and> all_apart (live_regs ((p, n) # live)) \<and> lies_in (mallocs m') (p, room n))"
        by (rule nxt)
    qed
  qed
qed

text \<open>An implementation of \<open>malloc\<close>: blocks start at multiples of 64 GiB, so that a block in use is in the way of one new block at most.\<close>

definition slot_malloc :: malloc_fn where
  "slot_malloc ms n =
     (if n \<le> 2 ^ 35 then (case find (\<lambda>i. \<forall>b \<in> set ms. apart (i * 2 ^ 36, n) b) [1..<2 ^ 20 + 1] of Some i \<Rightarrow> i * 2 ^ 36 | None \<Rightarrow> 0) else 0)"

lemma slot_malloc_ok: "malloc_ok slot_malloc"
  unfolding malloc_ok_def
proof (intro allI impI)
  fix ms n
  show "slot_malloc ms n = 0 \<or> slot_malloc ms n + n < 2 ^ 64 \<and> 16 dvd slot_malloc ms n \<and> (\<forall>b \<in> set ms. apart (slot_malloc ms n, n) b)"
  proof (cases "slot_malloc ms n = 0")
    case False
    then obtain i where i: "find (\<lambda>i. \<forall>b \<in> set ms. apart (i * 2 ^ 36, n) b) [1..<2 ^ 20 + 1] = Some i" "n \<le> 2 ^ 35"
      by (auto simp: slot_malloc_def split: if_splits option.splits)
    then have s: "slot_malloc ms n = i * 2 ^ 36" by (simp add: slot_malloc_def)
    have "i \<in> set [1..<2 ^ 20 + 1]" "\<forall>b \<in> set ms. apart (i * 2 ^ 36, n) b" using i(1) by (auto simp only: find_Some_iff nth_mem)
    then have "i \<le> 2 ^ 20" "\<forall>b \<in> set ms. apart (i * 2 ^ 36, n) b" by simp_all
    moreover have "16 dvd i * 2 ^ 36" by (simp add: dvd_mult)
    ultimately show ?thesis using i(2) by (simp add: s)
  qed simp
qed

lemma slot_malloc_serves: "few (2 ^ 35) k ms \<Longrightarrow> k < 2 ^ 20 \<Longrightarrow> \<not> refuses slot_malloc ms"
proof -
  have "\<forall>ms n. length ms < 2 ^ 20 \<and> (\<forall>b \<in> set ms. snd b \<le> 2 ^ 35) \<and> 0 < n \<and> n \<le> 2 ^ 35 \<longrightarrow> slot_malloc ms n \<noteq> 0"
proof (intro allI impI, elim conjE)
  fix ms :: "(addr \<times> nat) list" and n :: nat
  assume ms: "length ms < 2 ^ 20" "\<forall>b \<in> set ms. snd b \<le> 2 ^ 35" and n: "0 < n" "n \<le> 2 ^ 35"
  show "slot_malloc ms n \<noteq> 0"
  proof
    assume "slot_malloc ms n = 0"
    then have "\<exists>b \<in> set ms. \<not> apart (i * 2 ^ 36, n) b" if "i \<in> {1..2 ^ 20}" for i
    proof (cases "find (\<lambda>i. \<forall>b \<in> set ms. apart (i * 2 ^ 36, n) b) [1..<2 ^ 20 + 1]")
      case None
      then show ?thesis using that by (auto simp: find_None_iff)
    next
      case (Some j)
      then have "j \<in> set [1..<2 ^ 20 + 1]" by (auto simp only: find_Some_iff nth_mem)
      then show ?thesis using Some \<open>slot_malloc ms n = 0\<close> n by (simp add: slot_malloc_def)
    qed
    then obtain f where f: "\<forall>i \<in> {1..2 ^ 20}. f i \<in> set ms \<and> \<not> apart (i * 2 ^ 36, n) (f i)" by metis
    have "inj_on f {1..2 ^ 20}"
    proof (rule inj_onI)
      fix i j :: nat assume ij: "i \<in> {1..2 ^ 20}" "j \<in> {1..2 ^ 20}" "f i = f j"
      obtain q k where q: "f i = (q, k)" by fastforce
      have "\<not> apart (i * 2 ^ 36, n) (q, k)" "\<not> apart (j * 2 ^ 36, n) (q, k)" "(q, k) \<in> set ms" using f ij q by force+
      moreover from this(3) have "k \<le> 2 ^ 35" using bspec [OF ms(2), of "(q, k)"] by simp
      ultimately show "i = j" using n(2) by simp
    qed
    then have "card {1..2 ^ 20 :: nat} \<le> card (set ms)" using f by (intro card_inj_on_le [of f]) auto
    then show False using card_length [of ms] ms(1) by simp
  qed
qed
  then show "few (2 ^ 35) k ms \<Longrightarrow> k < 2 ^ 20 \<Longrightarrow> \<not> refuses slot_malloc ms"
    unfolding refuses_def few_def by (metis le_less_trans)
qed

text \<open>A run that is served to its end.\<close>

definition two_threads :: "block_event list" where
  "two_threads = [Ask 1 24, Ask 2 20, Fill (2 ^ 36 + 40) 7, Exit 1, Ask 2 1000, Give 2 (2 ^ 36 + 32) 24]"

theorem pool_blocks_apart_witness:
  "\<exists>ws m live. blocks_run slot_malloc two_threads (\<lambda>_. 0) = Inr (ws, m, live) \<and> all_apart (live_regs live)
    \<and> (\<exists>p ws' m'. blocks_step slot_malloc (Ask 3 512) (ws, m, live) = Inr (ws', m', (p, 512) # live))"
proof -
  have ev: "\<forall>e \<in> set two_threads. asked e \<le> 2 ^ 35" "\<forall>e \<in> set two_threads. asked e < 2 ^ 64" "sum_list (map ends two_threads) \<le> 32" "length two_threads = 6"
    by (simp_all add: two_threads_def)
  have "\<not> stops_short slot_malloc (2 ^ 35) two_threads (\<lambda>_. 0)"
  proof
    assume "stops_short slot_malloc (2 ^ 35) two_threads (\<lambda>_. 0)"
    then obtain evs1 e evs2 s where s: "two_threads = evs1 @ e # evs2" "out_of_memory slot_malloc e s" "few (2 ^ 35) (length evs1) (mallocs (fst (snd s)))"
      by (auto simp: stops_short_def)
    have "length evs1 < 6" using ev(4) unfolding s(1) by simp
    then show False using slot_malloc_serves [OF s(3)] s(2) by (simp add: out_of_memory_def)
  qed
  then obtain ws m live where r: "blocks_run slot_malloc two_threads (\<lambda>_. 0) = Inr (ws, m, live)" and f: "few (2 ^ 35) 6 (mallocs m)"
    using blocks_run_ok [OF slot_malloc_ok _ _ ev(1,3), of "\<lambda>_. 0"] ev(4) by (auto simp: blocks_ok_def)
  have "\<not> refuses slot_malloc (mallocs m)" using slot_malloc_serves [OF f] by simp
  moreover note th = pool_blocks_apart [OF slot_malloc_ok ev(2,3), of "\<lambda>_. 0", unfolded r sum.case prod.case]
  ultimately have "\<exists>p ws' m'. blocks_step slot_malloc (Ask 3 512) (ws, m, live) = Inr (ws', m', (p, 512) # live)"
    using conjunct2 [OF conjunct2 [OF th], rule_format, of 512 3] by (auto simp del: blocks_step.simps)
  then show ?thesis using th r by blast
qed


section \<open>More than 32 ended threads\<close>

lemma malloced_unique:
  assumes "malloced ms" and "b \<in> set ms" and "c \<in> set ms" and "part_of r b" and "part_of r c" and "0 < snd r"
  shows "b = c"
proof (rule ccontr)
  assume "b \<noteq> c"
  then have "{#b, c#} \<subseteq># mset ms" using assms(2,3) by (simp add: insert_subset_eq_iff in_diff_count)
  then have "apart b c" using assms(1) unfolding malloced_def all_apart_def by blast
  then show False using assms(4-6) by (cases b; cases c; cases r) auto
qed

text \<open>
  C39. The recycler frees memory that is in use. When 32 threads have ended and their allocators wait, the end
  of one more thread destroys the oldest of them, and its chunks are given back to the operating system exactly as
  they are linked, nothing else. A block from such a chunk that a living thread still uses then
  lies in no memory that \<open>malloc\<close> has given out.
\<close>

theorem collect_frees_blocks_in_use:
  assumes "aw_master w = first # others" and "length others \<ge> 31" and "fa_ok m first fs hs"
    and "mem_ok (mallocs m) (add_mset (p, n) (fa_regs first fs hs))" and "0 < n"
    and "h \<in> set hs" and "(h, k) \<in> set (mallocs m)" and "part_of (p, n) (h, k)"
  shows "\<exists>m'. collect alc w m = Inr (w\<lparr>aw_master := others @ [alc]\<rparr>, m') \<and> mallocs m' = filter (\<lambda>b. fst b \<notin> set hs) (mallocs m)
    \<and> \<not> lies_in (mallocs m') (p, n)"
proof -
  define m' where m': "m' = m\<lparr>mallocs := filter (\<lambda>b. fst b \<notin> set hs) (mallocs m)\<rparr>"
  have "distinct hs" using assms(4) by (intro blocks_distinct [of 16]) (auto simp: mem_ok_def fa_regs_def va_regs_def all_apart_union)
  then have "destroy_fixed first m = Inr m'" using assms(3) free_all_chain by (auto simp: destroy_fixed_def fa_ok_def va_ok_def m')
  then have "collect alc w m = Inr (w\<lparr>aw_master := others @ [alc]\<rparr>, m')" using assms(1,2) by (simp add: collect_def recycler_limit_def)
  moreover have "malloced (mallocs m)" using assms(4) by (simp add: mem_ok_def)
  then have "b = (h, k)" if "b \<in> set (mallocs m)" "part_of (p, n) b" for b using malloced_unique [of "mallocs m" b "(h, k)" "(p, n)"] that assms(5,7,8) by simp
  then have "\<not> lies_in (mallocs m') (p, n)" using assms(5,6) by (auto simp: m' lies_in_def)
  ultimately show ?thesis by (auto simp: m')
qed

definition left_behind :: fixed_alloc where
  "left_behind = \<lparr>fa_block_size = 8, fa_init_expand = 2, fa_cursor = 0,
     fa_alloc = \<lparr>va_head = 48, va_tail = 64, va_scope = \<lparr>sc_head = 16, sc_tail = 16\<rparr>\<rparr>\<rparr>"

theorem collect_frees_blocks_in_use_witness:
  "\<exists>m'. collect (new_fixed 8 1) \<lparr>aw_block_size = 8, aw_master = left_behind # replicate 31 (new_fixed 8 1), aw_tls = []\<rparr>
      \<lparr>cells = (\<lambda>_. 0), mallocs = [(16, 48)]\<rparr>
    = Inr (\<lparr>aw_block_size = 8, aw_master = replicate 31 (new_fixed 8 1) @ [new_fixed 8 1], aw_tls = []\<rparr>, m') \<and> \<not> lies_in (mallocs m') (32, 8)"
proof -
  let ?m = "\<lparr>cells = (\<lambda>_. 0), mallocs = [(16, 48)]\<rparr> :: memory"
  have ok: "fa_ok ?m left_behind [] [16]" by (simp add: fa_ok_def left_behind_def va_ok_def block_next_def)
  have mem: "mem_ok (mallocs ?m) (add_mset (32, 8) (fa_regs left_behind [] [16]))"
    by (simp add: mem_ok_def malloced_def lies_in_def fa_regs_def va_regs_def left_behind_def)
  show ?thesis
    using collect_frees_blocks_in_use [of "\<lparr>aw_block_size = 8, aw_master = left_behind # replicate 31 (new_fixed 8 1), aw_tls = []\<rparr>",
        OF _ _ ok mem, of "replicate 31 (new_fixed 8 1)" 16 48 "new_fixed 8 1"] by auto
qed

end
