(* ===== verification/Ipc_Wait.thy ===== *)
theory Ipc_Wait
  imports Prelude
begin

text \<open>
  Waiting for a channel: \<^verbatim>\<open>common/shm-ipc/src/libipc/waiter_helper.h\<close> over the semaphores, the lock and the flags of
  \<^verbatim>\<open>platform/waiter_linux.h\<close> and \<^verbatim>\<open>platform/waiter_wrapper.h\<close>, as interleaved steps of threads. A sender waits until its
  push succeeds, a receiver until its pop succeeds; who has made that possible calls \<open>broadcast\<close>. Every access to a
  shared variable, to the lock and to a semaphore is a step of its own. That a timed wait
  ends is an input of the step; the calls of the operating system do not fail otherwise.
\<close>

section \<open>Deadlines\<close>

text \<open>\<open>calc_wait_time\<close>: from seconds and microseconds of \<open>gettimeofday\<close> and milliseconds, seconds and nanoseconds.\<close>

definition calc_wait_time :: "int \<Rightarrow> int \<Rightarrow> nat \<Rightarrow> int \<times> int" where
  "calc_wait_time tv_sec tv_usec tm =
     (let nsec = (tv_usec + (int tm mod 1000) * 1000) * 1000
      in (tv_sec + int tm div 1000 + nsec div 1000000000, nsec mod 1000000000))"

text \<open>\<open>invalid_value\<close>, the timeout that never comes, and \<open>default_timeout\<close>.\<close>

definition invalid_value :: nat where
  "invalid_value = 2 ^ 64 - 1"

definition default_timeout :: nat where
  "default_timeout = 100"

text \<open>\<open>sem_helper::wait\<close>: nothing while the thread has to wait, otherwise the result and the value of the semaphore.\<close>

definition sem_wait :: "nat \<Rightarrow> bool \<Rightarrow> nat \<Rightarrow> (bool \<times> nat) option" where
  "sem_wait tm late n =
     (if tm = 0 then Some (True, n)
      else if late \<and> tm \<noteq> invalid_value then Some (False, n)
      else if 0 < n then Some (True, n - 1)
      else None)"

section \<open>State\<close>

text \<open>\<open>wait_flags\<close> of one handle.\<close>

record wait_flags =
  is_waiting :: bool
  is_closed :: bool
  need_dest :: bool

datatype wake_kind = One | All | Quitting

text \<open>
  Where a thread is. \<open>Out\<close>: not in a call, with the result of the last one. \<open>W\<dots>\<close>: \<open>wait_if\<close> on a handle with a timeout.
  \<open>X\<dots>\<close>: its end. \<open>N\<dots>\<close>: \<open>notify\<close>, \<open>broadcast\<close> and the second part of \<open>quit_waiting\<close>. \<open>Q\<dots>\<close>: its first part.
\<close>

datatype wait_pc =
    Out bool
  | WClosed nat nat | WEnter nat nat | WFlag nat nat | WLock nat nat | WPred nat nat | WCount nat nat
  | WLoop nat nat | WCheck nat nat bool | WDest nat | WExch nat nat | WQuitSem nat | WSem nat nat | WAgain nat nat bool
  | XSub nat bool bool | XFlag nat bool bool | XHan bool
  | NLoad wake_kind | NLock wake_kind | NPost wake_kind | NDec wake_kind bool | NHan wake_kind bool
  | QClose nat | QDest nat | QExch nat

record wait_sys =
  wt_waiting :: nat
  wt_counter :: int
  wt_lock :: bool
  wt_sem :: nat
  wt_han :: nat
  wt_flags :: "nat \<Rightarrow> wait_flags"
  wt_cond :: bool
  wt_th :: "wait_pc list"

text \<open>\<open>wt_cond\<close> is what the predicate of the waiting threads tells: that there is a reason to wait.\<close>

definition goes :: "nat \<Rightarrow> wait_pc \<Rightarrow> wait_sys \<Rightarrow> wait_sys" where
  "goes t pc s = s\<lparr>wt_th := (wt_th s)[t := pc]\<rparr>"

definition set_flags :: "nat \<Rightarrow> (wait_flags \<Rightarrow> wait_flags) \<Rightarrow> wait_sys \<Rightarrow> wait_sys" where
  "set_flags h f s = s\<lparr>wt_flags := (wt_flags s)(h := f (wt_flags s h))\<rparr>"

section \<open>Steps\<close>

text \<open>\<open>wait_if\<close>\<close>

fun wait_step :: "nat \<Rightarrow> bool \<Rightarrow> wait_pc \<Rightarrow> wait_sys \<Rightarrow> wait_sys" where
  "wait_step t late (WClosed h tm) s = goes t (if is_closed (wt_flags s h) then Out False else WEnter h tm) s"
| "wait_step t late (WEnter h tm) s = goes t (WFlag h tm) (s\<lparr>wt_waiting := wt_waiting s + 1\<rparr>)"
| "wait_step t late (WFlag h tm) s = goes t (WLock h tm) (set_flags h (\<lambda>f. f\<lparr>is_waiting := True\<rparr>) s)"
| "wait_step t late (WLock h tm) s = (if wt_lock s then s else goes t (WPred h tm) (s\<lparr>wt_lock := True\<rparr>))"
| "wait_step t late (WPred h tm) s =
     (if \<not> wt_cond s then goes t (XSub h True False) (s\<lparr>wt_lock := False\<rparr>) else goes t (WCount h tm) s)"
| "wait_step t late (WCount h tm) s = goes t (WLoop h tm) (s\<lparr>wt_counter := wt_counter s + 1, wt_lock := False\<rparr>)"
| "wait_step t late (WLoop h tm) s = goes t (WCheck h tm (is_waiting (wt_flags s h))) s"
| "wait_step t late (WCheck h tm b) s = goes t (if \<not> b \<or> is_closed (wt_flags s h) then WDest h else WExch h tm) s"
| "wait_step t late (WDest h) s = goes t (XSub h False True) (set_flags h (\<lambda>f. f\<lparr>need_dest := False\<rparr>) s)"
| "wait_step t late (WExch h tm) s =
     goes t (if need_dest (wt_flags s h) then WQuitSem h else WSem h tm) (set_flags h (\<lambda>f. f\<lparr>need_dest := False\<rparr>) s)"
| "wait_step t late (WQuitSem h) s =
     (case sem_wait default_timeout late (wt_sem s) of None \<Rightarrow> s | Some (_, n) \<Rightarrow> goes t (XSub h False True) (s\<lparr>wt_sem := n\<rparr>))"
| "wait_step t late (WSem h tm) s =
     (case sem_wait tm late (wt_sem s) of None \<Rightarrow> s | Some (ret, n) \<Rightarrow> goes t (WAgain h tm ret) (s\<lparr>wt_sem := n\<rparr>))"
| "wait_step t late (WAgain h tm ret) s = goes t (if need_dest (wt_flags s h) then WLoop h tm else XSub h ret True) s"
| "wait_step t late (XSub h ret han) s = goes t (XFlag h ret han) (s\<lparr>wt_waiting := wt_waiting s - 1\<rparr>)"
| "wait_step t late (XFlag h ret han) s = goes t (if han then XHan ret else Out ret) (set_flags h (\<lambda>f. f\<lparr>is_waiting := False\<rparr>) s)"
| "wait_step t late (XHan ret) s = goes t (Out ret) (s\<lparr>wt_han := wt_han s + 1\<rparr>)"
| "wait_step t late pc s = s"

text \<open>\<open>notify\<close>, \<open>broadcast\<close> and \<open>quit_waiting\<close>; a handle that is closed is told to quit.\<close>

fun wake_step :: "nat \<Rightarrow> bool \<Rightarrow> wait_pc \<Rightarrow> wait_sys \<Rightarrow> wait_sys" where
  "wake_step t late (NLoad k) s = goes t (if wt_waiting s = 0 then Out True else NLock k) s"
| "wake_step t late (NLock k) s = (if wt_lock s then s else goes t (NPost k) (s\<lparr>wt_lock := True\<rparr>))"
| "wake_step t late (NPost k) s =
     (if wt_counter s > 0
      then goes t (NDec k True) (s\<lparr>wt_sem := wt_sem s + (if k = One then 1 else nat (wt_counter s))\<rparr>)
      else goes t (Out True) (s\<lparr>wt_lock := False\<rparr>))"
| "wake_step t late (NDec k ret) s = goes t (NHan k ret) (s\<lparr>wt_counter := wt_counter s - 1\<rparr>)"
| "wake_step t late (NHan k ret) s =
     (case (if ret then sem_wait default_timeout late (wt_han s) else Some (False, wt_han s)) of
        None \<Rightarrow> s
      | Some (ret', n) \<Rightarrow>
          if k = All \<and> wt_counter s > 0 then goes t (NDec k ret') (s\<lparr>wt_han := n\<rparr>)
          else goes t (Out ret') (s\<lparr>wt_han := n, wt_lock := False\<rparr>))"
| "wake_step t late (QClose h) s = goes t (QDest h) (set_flags h (\<lambda>f. f\<lparr>is_closed := True\<rparr>) s)"
| "wake_step t late (QDest h) s = goes t (QExch h) (set_flags h (\<lambda>f. f\<lparr>need_dest := True\<rparr>) s)"
| "wake_step t late (QExch h) s =
     goes t (if is_waiting (wt_flags s h) then NLoad Quitting else Out True) (set_flags h (\<lambda>f. f\<lparr>is_waiting := False\<rparr>) s)"
| "wake_step t late pc s = s"

text \<open>
  Calls. \<open>Announce\<close>: the thread has pushed or popped, so that the reason to wait is gone, and calls \<open>broadcast\<close>, as
  \<open>send\<close> and \<open>recv\<close> do. \<open>Stop\<close>: the ring is full or empty again.
\<close>

datatype wait_call = Wait nat nat | Announce | Broadcast | Notify | Quit nat | Close nat

fun starts :: "wait_call \<Rightarrow> wait_pc" where
  "starts (Wait h tm) = WClosed h tm"
| "starts Announce = NLoad All"
| "starts Broadcast = NLoad All"
| "starts Notify = NLoad One"
| "starts (Quit h) = QDest h"
| "starts (Close h) = QClose h"

datatype wait_event = Call nat wait_call | Step nat bool | Stop

fun is_out :: "wait_pc \<Rightarrow> bool" where
  "is_out (Out b) \<longleftrightarrow> True"
| "is_out _ \<longleftrightarrow> False"

fun wait_event_step :: "wait_event \<Rightarrow> wait_sys \<Rightarrow> wait_sys" where
  "wait_event_step (Call t c) s =
     (if t < length (wt_th s) \<and> is_out (wt_th s ! t)
      then goes t (starts c) (if c = Announce then s\<lparr>wt_cond := False\<rparr> else s) else s)"
| "wait_event_step (Step t late) s =
     (if t < length (wt_th s) then wake_step t late (wt_th s ! t) (wait_step t late (wt_th s ! t) s) else s)"
| "wait_event_step Stop s = s\<lparr>wt_cond := True\<rparr>"

definition wait_run :: "wait_event list \<Rightarrow> wait_sys \<Rightarrow> wait_sys" where
  "wait_run evs s = fold wait_event_step evs s"

text \<open>The waiter after it has been opened by \<open>n\<close> threads.\<close>

definition wait_start :: "nat \<Rightarrow> wait_sys" where
  "wait_start n = \<lparr>wt_waiting = 0, wt_counter = 0, wt_lock = False, wt_sem = 0, wt_han = 0,
     wt_flags = (\<lambda>_. \<lparr>is_waiting = False, is_closed = False, need_dest = False\<rparr>), wt_cond = True, wt_th = replicate n (Out True)\<rparr>"

section \<open>Counting threads\<close>

fun in_waiting :: "wait_pc \<Rightarrow> bool" where
  "in_waiting (WFlag h tm) = True" | "in_waiting (WLock h tm) = True" | "in_waiting (WPred h tm) = True" | "in_waiting (WCount h tm) = True"
| "in_waiting (WLoop h tm) = True" | "in_waiting (WCheck h tm b) = True" | "in_waiting (WDest h) = True" | "in_waiting (WExch h tm) = True"
| "in_waiting (WQuitSem h) = True" | "in_waiting (WSem h tm) = True" | "in_waiting (WAgain h tm ret) = True" | "in_waiting (XSub h ret han) = True"
| "in_waiting _ = False"

text \<open>Threads that are counted and have not got the semaphore yet.\<close>

fun sleeping :: "wait_pc \<Rightarrow> bool" where
  "sleeping (WLoop h tm) = True" | "sleeping (WCheck h tm b) = True" | "sleeping (WExch h tm) = True"
| "sleeping (WQuitSem h) = True" | "sleeping (WSem h tm) = True"
| "sleeping _ = False"

fun counting :: "wait_pc \<Rightarrow> bool" where
  "counting (WCount h tm) = True"
| "counting _ = False"

fun locking :: "wait_pc \<Rightarrow> bool" where
  "locking (WPred h tm) = True" | "locking (NPost k) = True" | "locking (NHan k ret) = True"
| "locking _ = False"

fun decreasing :: "wait_pc \<Rightarrow> bool" where
  "decreasing (NDec k ret) = True"
| "decreasing _ = False"

text \<open>\<open>notify\<close> between its token and the decrement, and \<open>broadcast\<close> after its tokens.\<close>

fun one_token :: "wait_pc \<Rightarrow> bool" where
  "one_token (NDec k ret) \<longleftrightarrow> k = One"
| "one_token _ \<longleftrightarrow> False"

fun all_tokens :: "wait_pc \<Rightarrow> bool" where
  "all_tokens (NDec k ret) \<longleftrightarrow> k = All" | "all_tokens (NHan k ret) \<longleftrightarrow> k = All"
| "all_tokens _ \<longleftrightarrow> False"

text \<open>Threads on their way to wake all.\<close>

fun announcing :: "wait_pc \<Rightarrow> bool" where
  "announcing (NLoad k) \<longleftrightarrow> k = All" | "announcing (NLock k) \<longleftrightarrow> k = All" | "announcing (NPost k) \<longleftrightarrow> k = All"
| "announcing _ \<longleftrightarrow> False"

fun quits :: "wait_pc \<Rightarrow> bool" where
  "quits (NLoad k) \<longleftrightarrow> k = Quitting" | "quits (NLock k) \<longleftrightarrow> k = Quitting" | "quits (NPost k) \<longleftrightarrow> k = Quitting"
| "quits (NDec k ret) \<longleftrightarrow> k = Quitting" | "quits (NHan k ret) \<longleftrightarrow> k = Quitting"
| "quits (QClose h) \<longleftrightarrow> True" | "quits (QDest h) \<longleftrightarrow> True" | "quits (QExch h) \<longleftrightarrow> True" | "quits (WQuitSem h) \<longleftrightarrow> True"
| "quits _ \<longleftrightarrow> False"


section \<open>No wake-up is lost\<close>

definition wait_inv :: "wait_sys \<Rightarrow> bool" where
  "wait_inv s \<longleftrightarrow>
     int (wt_waiting s) = cnt in_waiting (wt_th s)
   \<and> cnt counting (wt_th s) + cnt locking (wt_th s) + cnt decreasing (wt_th s) = of_bool (wt_lock s)
   \<and> 0 \<le> wt_counter s \<and> cnt decreasing (wt_th s) \<le> wt_counter s
   \<and> cnt sleeping (wt_th s) + cnt one_token (wt_th s) \<le> wt_counter s + int (wt_sem s)
   \<and> (0 < cnt all_tokens (wt_th s) \<longrightarrow> cnt sleeping (wt_th s) \<le> int (wt_sem s))
   \<and> cnt quits (wt_th s) = 0 \<and> (\<forall>h. \<not> need_dest (wt_flags s h))
   \<and> (\<not> wt_cond s \<longrightarrow> 0 < cnt announcing (wt_th s) \<or> cnt sleeping (wt_th s) \<le> int (wt_sem s) \<and> cnt counting (wt_th s) = 0)"

lemmas cnts_nonneg = cnt_nonneg [of in_waiting] cnt_nonneg [of counting] cnt_nonneg [of locking] cnt_nonneg [of decreasing]
  cnt_nonneg [of sleeping] cnt_nonneg [of quits] cnt_nonneg [of announcing] cnt_nonneg [of one_token] cnt_nonneg [of all_tokens]

lemma goes_simps [simp]:
  "wt_th (goes t pc s) = (wt_th s)[t := pc]" "wt_waiting (goes t pc s) = wt_waiting s" "wt_counter (goes t pc s) = wt_counter s"
  "wt_lock (goes t pc s) = wt_lock s" "wt_sem (goes t pc s) = wt_sem s" "wt_flags (goes t pc s) = wt_flags s" "wt_cond (goes t pc s) = wt_cond s"
  by (simp_all add: goes_def)

lemma set_flags_simps [simp]:
  "wt_th (set_flags h f s) = wt_th s" "wt_waiting (set_flags h f s) = wt_waiting s" "wt_counter (set_flags h f s) = wt_counter s"
  "wt_lock (set_flags h f s) = wt_lock s" "wt_sem (set_flags h f s) = wt_sem s" "wt_cond (set_flags h f s) = wt_cond s"
  "wt_flags (set_flags h f s) = (wt_flags s)(h := f (wt_flags s h))"
  by (simp_all add: set_flags_def)

lemma wait_start_inv: "wait_inv (wait_start n)"
proof -
  have "cnt P (replicate n (Out True)) = 0" if "\<not> P (Out True)" for P using that by (simp add: cnt_0)
  then show ?thesis by (simp add: wait_inv_def wait_start_def)
qed

lemma sleeping_waiting: "cnt sleeping xs + cnt counting xs \<le> cnt in_waiting xs"
proof (induction xs)
  case (Cons x xs)
  then show ?case by (cases x) (simp_all add: cnt_def)
qed (simp add: cnt_def)

lemma tokens_locking: "cnt all_tokens xs + cnt one_token xs \<le> cnt locking xs + cnt decreasing xs"
proof (induction xs)
  case (Cons x xs)
  then show ?case by (cases x) (auto simp: cnt_def)
qed (simp add: cnt_def)

lemma wait_step_inv:
  assumes inv: "wait_inv s" and t: "t < length (wt_th s)" and pc: "wt_th s ! t = pc"
  shows "wait_inv (wait_step t late pc s)"
proof -
  note c = cnt_upd [OF t] pc cnts_nonneg [of "wt_th s"] tokens_locking [of "wt_th s"] cnt_pos [OF t, of in_waiting, unfolded pc] cnt_pos [OF t, of sleeping, unfolded pc]
    cnt_pos [OF t, of counting, unfolded pc] cnt_pos [OF t, of locking, unfolded pc] cnt_pos [OF t, of quits, unfolded pc]
  show ?thesis
    using inv c by (cases pc; cases "wt_lock s") (auto simp: wait_inv_def sem_wait_def default_timeout_def split: option.splits)
qed


lemma wake_step_inv:
  assumes inv: "wait_inv s" and t: "t < length (wt_th s)" and pc: "wt_th s ! t = pc"
  shows "wait_inv (wake_step t late pc s)"
proof -
  note c = cnt_upd [OF t] pc cnts_nonneg [of "wt_th s"] sleeping_waiting [of "wt_th s"] tokens_locking [of "wt_th s"]
    cnt_pos [OF t, of decreasing, unfolded pc] cnt_pos [OF t, of all_tokens, unfolded pc] cnt_pos [OF t, of one_token, unfolded pc]
    cnt_pos [OF t, of locking, unfolded pc] cnt_pos [OF t, of quits, unfolded pc] cnt_pos [OF t, of announcing, unfolded pc]
  show ?thesis
  proof (cases pc)
    case (NLoad k)
    then show ?thesis using inv c by (cases k; cases "wt_lock s") (auto simp: wait_inv_def)
  next
    case (NLock k)
    then show ?thesis using inv c by (cases k; cases "wt_lock s") (auto simp: wait_inv_def)
  next
    case (NPost k)
    then show ?thesis using inv c by (cases k; cases "wt_lock s") (auto simp: wait_inv_def)
  next
    case (NDec k ret)
    then show ?thesis using inv c by (cases k; cases "wt_lock s") (auto simp: wait_inv_def)
  next
    case (NHan k ret)
    then show ?thesis using inv c
      by (cases k; cases "wt_lock s") (auto simp: wait_inv_def sem_wait_def default_timeout_def split: option.splits if_splits)
  qed (use inv c in \<open>auto simp: wait_inv_def\<close>)
qed

text \<open>The calls that tell no handle to quit.\<close>

fun keeps_waiting :: "wait_event \<Rightarrow> bool" where
  "keeps_waiting (Call t (Quit h)) \<longleftrightarrow> False"
| "keeps_waiting (Call t (Close h)) \<longleftrightarrow> False"
| "keeps_waiting _ \<longleftrightarrow> True"

lemma wait_call_inv:
  assumes inv: "wait_inv s" and t: "t < length (wt_th s)" "is_out (wt_th s ! t)" and c: "keeps_waiting (Call t c)"
  shows "wait_inv (goes t (starts c) (if c = Announce then s\<lparr>wt_cond := False\<rparr> else s))"
proof -
  obtain b where pc: "wt_th s ! t = Out b" using t(2) by (cases "wt_th s ! t") auto
  note u = cnt_upd [OF t(1)] pc cnts_nonneg [of "wt_th s"]
  show ?thesis using inv c u by (cases c) (auto simp: wait_inv_def)
qed

lemma wait_event_inv:
  assumes inv: "wait_inv s" and e: "keeps_waiting e"
  shows "wait_inv (wait_event_step e s)"
proof (cases e)
  case (Call t c)
  then show ?thesis using wait_call_inv [OF inv] e inv by simp
next
  case (Step t late)
  show ?thesis
  proof (cases "t < length (wt_th s)")
    case True
    have "wait_step t late pc s = s \<or> wake_step t late pc r = r" for pc r by (cases pc) simp_all
    then show ?thesis using True Step wait_step_inv [OF inv True refl] wake_step_inv [OF inv True refl] by simp metis
  qed (use Step inv in simp)
next
  case Stop
  then show ?thesis using inv by (simp add: wait_inv_def)
qed

lemma wait_run_inv: "list_all keeps_waiting evs \<Longrightarrow> wait_inv (wait_run evs (wait_start n))"
  by (induction evs rule: rev_induct) (simp_all add: wait_run_def wait_start_inv wait_event_inv)

text \<open>
  C18. No wake-up is lost. Any number of threads wait for a condition, with or without a timeout, and other threads
  make the condition true and then call \<open>broadcast\<close>, all their accesses interleaved in any order. When
  the condition holds and no thread is on its way to wake the others, the semaphore has at
  least as many tokens as there are threads that sleep or are about to, so that each of them goes
  on: the next step of a thread at the semaphore takes a token. The lock is never held by two threads and the counter never negative.
\<close>

theorem no_wakeup_lost:
  assumes "list_all keeps_waiting evs" and "wait_run evs (wait_start n) = s"
    and "\<not> wt_cond s" and "\<forall>pc \<in> set (wt_th s). \<not> announcing pc"
  shows "cnt sleeping (wt_th s) \<le> int (wt_sem s) \<and> cnt counting (wt_th s) = 0 \<and> 0 \<le> wt_counter s
    \<and> (t < length (wt_th s) \<and> wt_th s ! t = WSem h tm \<and> tm \<noteq> 0
        \<longrightarrow> wait_event_step (Step t False) s = goes t (WAgain h tm True) (s\<lparr>wt_sem := wt_sem s - 1\<rparr>))"
proof -
  have inv: "wait_inv s" using wait_run_inv [OF assms(1), of n] assms(2) by simp
  have "cnt announcing (wt_th s) = 0" using assms(4) by (simp add: cnt_0)
  then have c: "cnt sleeping (wt_th s) \<le> int (wt_sem s)" "cnt counting (wt_th s) = 0" "0 \<le> wt_counter s"
    using inv assms(3) by (simp_all add: wait_inv_def)
  have "0 < wt_sem s" if "t < length (wt_th s)" "wt_th s ! t = WSem h tm" using cnt_pos [OF that(1), of sleeping] that(2) c(1) by simp
  then show ?thesis using c by (auto simp: sem_wait_def)
qed

text \<open>Thread 0 waits without a timeout, thread 1 announces.\<close>

definition sleep_then_wake :: "wait_event list" where
  "sleep_then_wake = Call 0 (Wait 7 invalid_value) # replicate 9 (Step 0 False) @ [Call 1 Announce] @ replicate 3 (Step 1 False)"

theorem no_wakeup_lost_witness:
  "wt_th (wait_run sleep_then_wake (wait_start 2)) ! 0 = WSem 7 invalid_value \<and> wt_sem (wait_run sleep_then_wake (wait_start 2)) = 1
   \<and> wait_event_step (Step 0 False) (wait_run sleep_then_wake (wait_start 2))
     = goes 0 (WAgain 7 invalid_value True) ((wait_run sleep_then_wake (wait_start 2))\<lparr>wt_sem := 0\<rparr>)"
proof -
  let ?s = "wait_run sleep_then_wake (wait_start 2)"
  have r: "?s = \<lparr>wt_waiting = 1, wt_counter = 1, wt_lock = True, wt_sem = 1, wt_han = 0,
     wt_flags = (\<lambda>_. \<lparr>is_waiting = False, is_closed = False, need_dest = False\<rparr>)(7 := \<lparr>is_waiting = True, is_closed = False, need_dest = False\<rparr>),
     wt_cond = False, wt_th = [WSem 7 invalid_value, NDec All True]\<rparr>"
    by (simp add: sleep_then_wake_def wait_run_def wait_start_def numeral_eq_Suc goes_def set_flags_def)
  have "list_all keeps_waiting sleep_then_wake" by (simp add: sleep_then_wake_def list_all_iff)
  moreover have "\<not> wt_cond ?s" "\<forall>pc \<in> set (wt_th ?s). \<not> announcing pc" unfolding r by simp_all
  moreover have "0 < length (wt_th ?s)" "wt_th ?s ! 0 = WSem 7 invalid_value" "wt_sem ?s = 1" unfolding r by simp_all
  moreover have "invalid_value \<noteq> 0" by (simp add: invalid_value_def)
  ultimately show ?thesis using no_wakeup_lost [of sleep_then_wake 2 ?s 0 7 invalid_value] by simp
qed


section \<open>Quitting may cost a wake-up\<close>

text \<open>
  Threads 0 and 1 wait on different handles, thread 2 announces and all see it through; thread 0 has got its token when thread 3
  tells its handle to quit.
\<close>

definition quit_steals :: "wait_event list" where
  "quit_steals = Call 0 (Wait 1 invalid_value) # replicate 9 (Step 0 False) @ Call 1 (Wait 2 invalid_value) # replicate 9 (Step 1 False)
     @ Call 2 Announce # replicate 4 (Step 2 False) @ Step 2 True # replicate 2 (Step 2 False)
     @ [Step 0 False, Call 3 (Quit 1), Step 3 False]
     @ replicate 8 (Step 0 False) @ replicate 4 (Step 3 False)"

text \<open>
  C40. A thread that is told to quit can take the token of another one. After \<open>quit_steals\<close> the condition holds and all other
  calls have returned, but thread 1 still waits, without a timeout, and the semaphore is empty:
  no step of any thread changes the state.
\<close>

theorem quit_loses_wakeup:
  "\<not> wt_cond (wait_run quit_steals (wait_start 4))
   \<and> wt_th (wait_run quit_steals (wait_start 4)) = [Out False, WSem 2 invalid_value, Out False, Out True]
   \<and> wt_sem (wait_run quit_steals (wait_start 4)) = 0
   \<and> (\<forall>t late. wait_event_step (Step t late) (wait_run quit_steals (wait_start 4)) = wait_run quit_steals (wait_start 4))"
proof -
  let ?s = "wait_run quit_steals (wait_start 4)"
  let ?w = "\<lparr>is_waiting = True, is_closed = False, need_dest = False\<rparr>" and ?f = "\<lambda>_ :: nat. \<lparr>is_waiting = False, is_closed = False, need_dest = False\<rparr>"
  have iv: "invalid_value \<noteq> 0" "default_timeout \<noteq> 0" "default_timeout \<noteq> invalid_value" by (simp_all add: invalid_value_def default_timeout_def)
  define s1 where "s1 = \<lparr>wt_waiting = 1, wt_counter = 1, wt_lock = False, wt_sem = 0, wt_han = 0, wt_flags = ?f(1 := ?w), wt_cond = True,
    wt_th = [WSem 1 invalid_value, Out True, Out True, Out True]\<rparr>"
  define s2 where "s2 = s1\<lparr>wt_waiting := 2, wt_counter := 2, wt_flags := ?f(1 := ?w, 2 := ?w), wt_th := [WSem 1 invalid_value, WSem 2 invalid_value, Out True, Out True]\<rparr>"
  define s3 where "s3 = s2\<lparr>wt_counter := 0, wt_sem := 2, wt_cond := False, wt_th := [WSem 1 invalid_value, WSem 2 invalid_value, Out False, Out True]\<rparr>"
  define s4 where "s4 = s3\<lparr>wt_sem := 1, wt_flags := ?f(2 := ?w, 1 := ?w\<lparr>need_dest := True\<rparr>),
    wt_th := [WAgain 1 invalid_value True, WSem 2 invalid_value, Out False, QExch 1]\<rparr>"
  have 1: "wait_run (Call 0 (Wait 1 invalid_value) # replicate 9 (Step 0 False)) (wait_start 4) = s1"
    by (simp add: wait_run_def wait_start_def numeral_eq_Suc goes_def set_flags_def s1_def)
  have 2: "wait_run (Call 1 (Wait 2 invalid_value) # replicate 9 (Step 1 False)) s1 = s2"
    by (simp add: wait_run_def numeral_eq_Suc goes_def set_flags_def s1_def s2_def)
  have 3: "wait_run (Call 2 Announce # replicate 4 (Step 2 False) @ Step 2 True # replicate 2 (Step 2 False)) s2 = s3"
    using iv by (simp add: wait_run_def numeral_eq_Suc goes_def sem_wait_def s1_def s2_def s3_def)
  have 4: "wait_run [Step 0 False, Call 3 (Quit 1), Step 3 False] s3 = s4"
    using iv by (simp add: wait_run_def numeral_eq_Suc goes_def set_flags_def sem_wait_def s1_def s2_def s3_def s4_def)
  have 5: "wt_th s = [Out False, WSem 2 invalid_value, Out False, Out True] \<and> wt_sem s = 0 \<and> \<not> wt_cond s"
    if "wait_run (replicate 8 (Step 0 False) @ replicate 4 (Step 3 False)) s4 = s" for s
    unfolding that [symmetric] using iv
    by (simp add: wait_run_def numeral_eq_Suc goes_def set_flags_def sem_wait_def s1_def s2_def s3_def s4_def)
  have "?s = wait_run (replicate 8 (Step 0 False) @ replicate 4 (Step 3 False)) s4"
    unfolding 1 [symmetric] 2 [symmetric] 3 [symmetric] 4 [symmetric] quit_steals_def by (simp add: wait_run_def)
  then have r: "wt_th ?s = [Out False, WSem 2 invalid_value, Out False, Out True] \<and> wt_sem ?s = 0 \<and> \<not> wt_cond ?s" using 5 by simp
  have "wait_event_step (Step t late) ?s = ?s" for t late
  proof (cases "t < 4")
    case True
    then have "t = 0 \<or> t = 1 \<or> t = 2 \<or> t = 3" by auto
    then show ?thesis using r iv by (auto simp: sem_wait_def)
  qed (use r in simp)
  then show ?thesis using r by blast
qed

section \<open>Deadlines are exact\<close>

text \<open>
  The deadline of a timed wait is the time of the call plus the timeout. \<open>calc_wait_time\<close> makes a normalised \<open>timespec\<close> that is
  exactly \<open>tm\<close> milliseconds after the time it has read, and whose fields and intermediate values fit into 64 bits
  for every timeout there is and every clock below $2^{62}$ seconds.
\<close>

theorem calc_wait_time_exact:
  assumes "0 \<le> tv_sec" and "tv_sec < 2 ^ 62" and "0 \<le> tv_usec" and "tv_usec < 1000000" and "tm < 2 ^ 64"
    and "calc_wait_time tv_sec tv_usec tm = (sec, nsec)"
  shows "sec * 1000000000 + nsec = tv_sec * 1000000000 + tv_usec * 1000 + int tm * 1000000
    \<and> 0 \<le> nsec \<and> nsec < 1000000000 \<and> sec < 2 ^ 63 \<and> (tv_usec + (int tm mod 1000) * 1000) * 1000 < 2 ^ 63"
proof -
  define n where n: "n = (tv_usec + (int tm mod 1000) * 1000) * 1000"
  have s: "sec = tv_sec + int tm div 1000 + n div 1000000000" "nsec = n mod 1000000000" using assms(6) by (auto simp: calc_wait_time_def n Let_def)
  obtain q r where m: "int tm = q * 1000 + r" "r < 1000" "0 \<le> r" "int tm div 1000 = q" "int tm mod 1000 = r"
    by (metis div_mult_mod_eq pos_mod_bound pos_mod_sign zero_less_numeral)
  have d: "n = n div 1000000000 * 1000000000 + n mod 1000000000" by simp
  have "int tm < 2 ^ 64" using assms(5) by (simp add: of_nat_less_iff flip: of_nat_power)
  then have q: "q < 2 ^ 61" using m by simp
  have n': "n < 2000000000" "0 \<le> n" using m assms(3,4) by (simp_all add: n)
  then have "n div 1000000000 \<le> 1" by simp
  then have "sec < 2 ^ 63" using s(1) m(4) q assms(2) by simp
  moreover have "sec * 1000000000 + nsec = tv_sec * 1000000000 + q * 1000000000 + n" using s m(4) d by (simp add: algebra_simps)
  then have "sec * 1000000000 + nsec = tv_sec * 1000000000 + tv_usec * 1000 + int tm * 1000000" using m(1,5) by (simp add: n)
  moreover have "0 \<le> nsec" "nsec < 1000000000" using s(2) by simp_all
  ultimately show ?thesis using n'(1) unfolding n by simp
qed

theorem calc_wait_time_exact_witness:
  "calc_wait_time 1700000000 999999 1500 = (1700000002, 499999000)
   \<and> 1700000002 * 1000000000 + 499999000 = 1700000000 * 1000000000 + 999999 * 1000 + int 1500 * 1000000"
proof -
  have "calc_wait_time 1700000000 999999 1500 = (1700000002, 499999000)" by (simp add: calc_wait_time_def)
  then show ?thesis using calc_wait_time_exact [of 1700000000 999999 1500 1700000002 499999000] by simp
qed

end
