(* ===== verification/Ipc_Send.thy ===== *)
theory Ipc_Send
  imports Chan_Props Ipc_Wait
begin

text \<open>
  The loop that waits for a channel and the operations over it that do not use force, \<^verbatim>\<open>common/shm-ipc/src/ipc.cpp\<close>: \<open>wait_for\<close>,
  \<open>try_send\<close>, \<open>recv_count\<close> and \<open>wait_for_recv\<close>. The predicate of \<open>wait_for\<close> has an effect: it pushes or pops and tells
  whether that has failed.
\<close>

section \<open>\<open>wait_for\<close>\<close>

text \<open>
  What the loop sees: the results of the predicate in the order of its evaluations, and of its calls of \<open>wait_if\<close>
  whether the waiter is closed and, if it sleeps, the result. The loop gives its result and the number of evaluations.
\<close>

datatype waited = Closed | Slept bool

definition spin_limit :: nat where
  "spin_limit = 4096"

partial_function (option) wait_loop :: "(nat \<Rightarrow> bool) \<Rightarrow> (nat \<Rightarrow> waited) \<Rightarrow> nat \<Rightarrow> nat \<Rightarrow> nat \<Rightarrow> (bool \<times> nat) option" where
  "wait_loop pred wt i j k =
     (if \<not> pred i then Some (True, i + 1)
      else if k < spin_limit then wait_loop pred wt (i + 1) j (k + 1)
      else case wt j of
             Closed \<Rightarrow> Some (False, i + 1)
           | Slept ret \<Rightarrow>
               if \<not> pred (i + 1) then Some (True, i + 2)
               else if \<not> ret then Some (False, i + 2)
               else wait_loop pred wt (i + 2) (j + 1) 0)"

definition wait_for :: "(nat \<Rightarrow> bool) \<Rightarrow> (nat \<Rightarrow> waited) \<Rightarrow> nat \<Rightarrow> (bool \<times> nat) option" where
  "wait_for pred wt tm = (if tm = 0 then Some (\<not> pred 0, 1) else wait_loop pred wt 0 0 0)"

text \<open>The loop ends when the predicate tells so, at the latest; and its result is that of the last evaluation.\<close>

definition last_look :: "(nat \<Rightarrow> bool) \<Rightarrow> nat \<Rightarrow> bool \<times> nat \<Rightarrow> bool" where
  "last_look pred i y \<longleftrightarrow> i < snd y \<and> (\<forall>l. i \<le> l \<and> l < snd y - 1 \<longrightarrow> pred l) \<and> (fst y \<longleftrightarrow> \<not> pred (snd y - 1))"

lemma last_look_add: "last_look pred (i + m) y \<Longrightarrow> (\<And>l. i \<le> l \<Longrightarrow> l < i + m \<Longrightarrow> pred l) \<Longrightarrow> last_look pred i y"
  unfolding last_look_def by (meson le_add1 le_less_trans not_less)

lemma wait_loop_result: "wait_loop pred wt i j k = Some y \<Longrightarrow> last_look pred i y"
proof (rule wait_loop.raw_induct [of "\<lambda>pred wt i j k y. last_look pred i y"])
  fix w :: "(nat \<Rightarrow> bool) \<Rightarrow> (nat \<Rightarrow> waited) \<Rightarrow> nat \<Rightarrow> nat \<Rightarrow> nat \<Rightarrow> (bool \<times> nat) option" and pred wt i j k y
  assume IH: "\<And>pred wt i j k y. w pred wt i j k = Some y \<Longrightarrow> last_look pred i y"
  assume body: "(if \<not> pred i then Some (True, i + 1)
      else if k < spin_limit then w pred wt (i + 1) j (k + 1)
      else case wt j of
             Closed \<Rightarrow> Some (False, i + 1)
           | Slept ret \<Rightarrow>
               if \<not> pred (i + 1) then Some (True, i + 2)
               else if \<not> ret then Some (False, i + 2)
               else w pred wt (i + 2) (j + 1) 0) = Some y"
  have one: "last_look pred i y" if "w pred wt (i + 1) j' k' = Some y" "pred i" for j' k'
    using last_look_add [OF IH [OF that(1)]] that(2) by (metis le_antisym less_Suc_eq_le Suc_eq_plus1)
  have two: "last_look pred i y" if "w pred wt (i + 2) j' k' = Some y" "pred i" "pred (i + 1)" for j' k'
  proof (rule last_look_add [OF IH [OF that(1)]])
    fix l assume "i \<le> l" "l < i + 2"
    then have "l = i \<or> l = i + 1" by auto
    then show "pred l" using that(2,3) by auto
  qed
  show "last_look pred i y"
    using body one two by (auto simp: last_look_def less_Suc_eq le_Suc_eq split: if_splits waited.splits)
qed

lemma wait_loop_returns: "\<not> pred l \<Longrightarrow> i \<le> l \<Longrightarrow> \<exists>r n. wait_loop pred wt i j k = Some (r, n) \<and> n \<le> l + 1"
proof (induction "l - i" arbitrary: i j k rule: less_induct)
  case less
  show ?case
  proof (cases "pred i")
    case True
    then have "i < l" using less.prems by (cases "i = l") auto
    note IH = less.hyps [OF _ less.prems(1)]
    show ?thesis
    proof (cases "k < spin_limit")
      case spin: True
      then show ?thesis using True IH [of "i + 1" j "k + 1"] \<open>i < l\<close> by (subst wait_loop.simps) simp
    next
      case sleep: False
      have "\<exists>r n. wait_loop pred wt (i + 2) (j + 1) 0 = Some (r, n) \<and> n \<le> l + 1" if "pred (i + 1)"
      proof (rule IH)
        have "i + 1 \<noteq> l" using that less.prems(1) by auto
        then show "i + 2 \<le> l" using \<open>i < l\<close> by simp
        then show "l - (i + 2) < l - i" by simp
      qed
      then show ?thesis using True sleep \<open>i < l\<close> by (subst wait_loop.simps) (auto split: waited.splits)
    qed
  qed (use less.prems(2) in \<open>subst wait_loop.simps, auto\<close>)
qed

text \<open>
  C22. What \<open>wait_for\<close> waits for is done exactly once or not at all. The predicate that it evaluates pushes or pops and returns false when that
  has succeeded. If \<open>wait_for\<close> returns true, its last evaluation has succeeded and no other one; if it
  returns false, none has. It does return, at the latest with the first evaluation that would succeed.
\<close>

theorem wait_for_once:
  "(\<forall>r n. wait_for pred wt tm = Some (r, n) \<longrightarrow> 0 < n \<and> (\<forall>l < n - 1. pred l) \<and> (r \<longleftrightarrow> \<not> pred (n - 1)))
   \<and> (\<forall>l. \<not> pred l \<longrightarrow> (\<exists>r n. wait_for pred wt tm = Some (r, n) \<and> n \<le> l + 1))"
proof (cases "tm = 0")
  case True
  then show ?thesis by (auto simp: wait_for_def)
next
  case False
  have "last_look pred 0 (r, n)" if "wait_for pred wt tm = Some (r, n)" for r n using wait_loop_result that False by (simp add: wait_for_def)
  then show ?thesis using wait_loop_returns [of pred _ 0 wt 0 0] False by (auto simp: wait_for_def last_look_def)
qed

theorem wait_for_once_witness:
  "wait_for (\<lambda>i. i < 3) (\<lambda>_. Slept False) 5 = Some (True, 4)"
proof -
  obtain r n where w: "wait_for (\<lambda>i. i < 3) (\<lambda>_. Slept False) 5 = Some (r, n)" "n \<le> 3 + 1"
    using conjunct2 [OF wait_for_once [of "\<lambda>i. i < 3" "\<lambda>_. Slept False" 5], rule_format, of 3] by auto
  have "0 < n" "r \<longleftrightarrow> \<not> n - 1 < 3"
    using conjunct1 [OF wait_for_once [of "\<lambda>i. i < 3" "\<lambda>_. Slept False" 5], rule_format, OF w(1)] by simp_all
  moreover have r
    using w(1) by (simp add: wait_for_def wait_loop.simps spin_limit_def)
  ultimately have "n = 4 \<and> r" using w(2) by simp
  then show ?thesis using w(1) by simp
qed

section \<open>\<open>try_send\<close>\<close>

text \<open>\<open>try_push\<close> of \<open>try_send\<close>: an element that finds the ring full until the timeout ends the send.\<close>

fun try_push_all :: "msg_t list \<Rightarrow> ipc_chan \<Rightarrow> bool \<times> ipc_chan" where
  "try_push_all [] ch = (True, ch)"
| "try_push_all (m # ms) ch =
     (if length (ic_queue ch) < 255 then try_push_all ms (ch\<lparr>ic_queue := ic_queue ch @ [m]\<rparr>) else (False, ch))"

definition chan_try_send :: "ipc_os \<Rightarrow> u32 \<Rightarrow> string \<Rightarrow> ipc_chan \<Rightarrow> ipc_store \<Rightarrow> bool \<times> ipc_chan \<times> ipc_store" where
  "chan_try_send os cc_id d ch st =
     (if d = [] then (False, ch, st)
      else if ic_cc ch = 0 then (False, ch, st)
      else let msg_id = ic_acc ch; ch1 = ch\<lparr>ic_acc := msg_id + 1\<rparr>;
               (ms, st1) = send_plan os (unat (ic_cc ch)) cc_id msg_id d st;
               (ok, ch2) = try_push_all ms ch1
           in (ok, ch2, st1))"

text \<open>\<open>recv_count\<close> and \<open>wait_for_recv\<close>: no queue is \<open>None\<close>; the counts that the predicate reads are the observations.\<close>

definition recv_count :: "ipc_chan option \<Rightarrow> nat" where
  "recv_count q = (case q of None \<Rightarrow> invalid_value | Some ch \<Rightarrow> unat (ic_cc ch))"

definition wait_for_recv :: "(nat \<Rightarrow> nat) option \<Rightarrow> (nat \<Rightarrow> waited) \<Rightarrow> nat \<Rightarrow> nat \<Rightarrow> (bool \<times> nat) option" where
  "wait_for_recv q wt r_count tm = (case q of None \<Rightarrow> Some (False, 0) | Some conn_count \<Rightarrow> wait_for (\<lambda>i. conn_count i < r_count) wt tm)"

lemma try_push_all_alt:
  "length (ic_queue ch) \<le> 255 \<Longrightarrow> try_push_all ms ch
     = (length (ic_queue ch) + length ms \<le> 255, ch\<lparr>ic_queue := ic_queue ch @ take (255 - length (ic_queue ch)) ms\<rparr>)"
proof (induction ms arbitrary: ch)
  case (Cons m ms)
  show ?case
  proof (cases "length (ic_queue ch) < 255")
    case True
    then have "255 - length (ic_queue ch) = Suc (255 - Suc (length (ic_queue ch)))" by simp
    then show ?thesis using True Cons.IH [of "ch\<lparr>ic_queue := ic_queue ch @ [m]\<rparr>"] by simp
  qed (use Cons.prems in simp)
qed simp

text \<open>
  \<open>try_send\<close> succeeds exactly when the ring has room for all elements of the message, and never drops a receiver. When it fails the
  elements that did fit stay in the ring, and what \<open>send_plan\<close> took for the message stays taken.
\<close>

theorem try_send_outcome:
  assumes "d \<noteq> []" and "ic_cc ch \<noteq> 0" and "length (ic_queue ch) \<le> 255" and "send_plan os (unat (ic_cc ch)) c (ic_acc ch) d st = (ms, st1)"
  shows "chan_try_send os c d ch st = (length (ic_queue ch) + length ms \<le> 255,
    ch\<lparr>ic_acc := ic_acc ch + 1, ic_queue := ic_queue ch @ take (255 - length (ic_queue ch)) ms\<rparr>, st1)"
  using assms by (simp add: chan_try_send_def try_push_all_alt)

text \<open>A large message on a full ring: the block it was given is not in the pool any more and in no element.\<close>

definition full_chan :: ipc_chan where
  "full_chan = \<lparr>ic_queue = replicate 255 (make_msg 1 0 0 (Bytes [])), ic_cc = 1, ic_acc = 0\<rparr>"

theorem try_send_outcome_witness:
  "chan_try_send willing_os 5 (replicate 65 (CHR ''x'')) full_chan fresh_store
     = (False, full_chan\<lparr>ic_acc := 1\<rparr>, snd (send_plan willing_os 1 5 0 (replicate 65 (CHR ''x'')) fresh_store))
   \<and> fst (send_plan willing_os 1 5 0 (replicate 65 (CHR ''x'')) fresh_store) = [make_msg 5 0 1 (Block 0)]"
proof -
  obtain ms st1 where p: "send_plan willing_os 1 5 0 (replicate 65 (CHR ''x'')) fresh_store = (ms, st1)" by fastforce
  have "fst (acquire (prepare zero_pool)) = Some 0" by code_simp
  then obtain q where "acquire (prepare zero_pool) = (Some 0, q)" by (cases "acquire (prepare zero_pool)") auto
  then have m: "ms = [make_msg 5 0 1 (Block 0)]"
    using p by (simp add: send_plan_def large_msg_limit_def data_length_def apply_storage_def willing_os_def fresh_store_def Let_def)
  show ?thesis using try_send_outcome [of "replicate 65 (CHR ''x'')" full_chan willing_os 5 fresh_store ms st1] p m by (simp add: full_chan_def)
qed

end
