(* ===== verification/Rw_Lock.thy ===== *)
theory Rw_Lock
  imports Prelude
begin

text \<open>
  The lock for readers and writers, \<open>rw_lock\<close> of \<^verbatim>\<open>common/shm-ipc/include/libipc/rw_lock.h\<close>: one word whose highest bit says that
  a writer has or wants the lock and whose other bits count readers. Each atomic access is a step; a failing
  \<open>compare_exchange_weak\<close> without a reason is an input of the step.
\<close>

unbundle bit_operations_syntax

definition w_mask :: u32 where
  "w_mask = 0x7fffffff"

definition w_flag :: u32 where
  "w_flag = w_mask + 1"

text \<open>\<open>lock\<close>: before the \<open>fetch_or\<close>, and waiting for readers. \<open>lock_shared\<close>: before the first load, and in the loop.\<close>

datatype rw_pc = Idle | WTry | WDrain | Writing | RLoad | RLoop u32 | Reading

type_synonym rw_sys = "u32 \<times> rw_pc list"

fun rw_access :: "bool \<Rightarrow> rw_pc \<Rightarrow> u32 \<Rightarrow> rw_pc \<times> u32" where
  "rw_access weak WTry lc = (if lc = 0 then Writing else if lc AND w_flag = 0 then WDrain else WTry, lc OR w_flag)"
| "rw_access weak WDrain lc = (if lc AND w_mask \<noteq> 0 then WDrain else Writing, lc)"
| "rw_access weak RLoad lc = (RLoop lc, lc)"
| "rw_access weak (RLoop old) lc =
     (if old AND w_flag \<noteq> 0 then (RLoop lc, lc)
      else if lc = old \<and> \<not> weak then (Reading, old + 1)
      else (RLoop lc, lc))"
| "rw_access weak pc lc = (pc, lc)"

datatype rw_event = LockCall nat | UnlockCall nat | LockShared nat | UnlockShared nat | Access nat bool

definition rw_goes :: "nat \<Rightarrow> rw_pc \<times> u32 \<Rightarrow> rw_pc list \<Rightarrow> rw_sys" where
  "rw_goes t x th = (snd x, th[t := fst x])"

text \<open>A thread unlocks what it has locked.\<close>

fun rw_step :: "rw_event \<Rightarrow> rw_sys \<Rightarrow> rw_sys" where
  "rw_step (LockCall t) (lc, th) = (if t < length th \<and> th ! t = Idle then rw_goes t (WTry, lc) th else (lc, th))"
| "rw_step (UnlockCall t) (lc, th) = (if t < length th \<and> th ! t = Writing then rw_goes t (Idle, 0) th else (lc, th))"
| "rw_step (LockShared t) (lc, th) = (if t < length th \<and> th ! t = Idle then rw_goes t (RLoad, lc) th else (lc, th))"
| "rw_step (UnlockShared t) (lc, th) = (if t < length th \<and> th ! t = Reading then rw_goes t (Idle, lc - 1) th else (lc, th))"
| "rw_step (Access t weak) (lc, th) = (if t < length th then rw_goes t (rw_access weak (th ! t) lc) th else (lc, th))"

definition rw_run :: "rw_event list \<Rightarrow> nat \<Rightarrow> rw_sys" where
  "rw_run evs n = fold rw_step evs (0, replicate n Idle)"

section \<open>The word\<close>

fun claims :: "rw_pc \<Rightarrow> bool" where
  "claims WDrain \<longleftrightarrow> True" | "claims Writing \<longleftrightarrow> True" | "claims _ \<longleftrightarrow> False"

definition rw_inv :: "rw_sys \<Rightarrow> bool" where
  "rw_inv s \<longleftrightarrow> (case s of (lc, th) \<Rightarrow>
     int (unat lc) = 2 ^ 31 * cnt claims th + cnt (\<lambda>p. p = Reading) th
   \<and> cnt claims th \<le> 1 \<and> (Writing \<in> set th \<longrightarrow> cnt (\<lambda>p. p = Reading) th = 0) \<and> length th < 2 ^ 31)"

lemma w_alt: "w_mask = mask 31" "w_flag = 2 ^ 31"
  by (simp_all add: w_mask_def w_flag_def mask_eq_exp_minus_1)

lemma unat_and_mask: "unat (lc AND w_mask) = unat lc mod 2 ^ 31"
proof -
  have "unat (lc AND w_mask) = take_bit 31 (unat lc)" unfolding w_alt by (simp only: take_bit_eq_mask [symmetric] unsigned_take_bit_eq)
  then show ?thesis by (simp only: take_bit_eq_mod)
qed

lemma bit31: "bit (lc :: u32) 31 \<longleftrightarrow> 2 ^ 31 \<le> unat lc"
proof -
  have "unat lc < 2 ^ 32" using unsigned_less [of lc] by simp
  then have "unat lc div 2 ^ 31 < 2" by (simp add: less_mult_imp_div_less)
  then have "odd (unat lc div 2 ^ 31) \<longleftrightarrow> unat lc div 2 ^ 31 = 1" using less_2_cases [of "unat lc div 2 ^ 31"] by auto
  also have "\<dots> \<longleftrightarrow> 2 ^ 31 \<le> unat lc" using \<open>unat lc div 2 ^ 31 < 2\<close> by auto
  finally have "bit (unat lc) 31 \<longleftrightarrow> 2 ^ 31 \<le> unat lc" by (simp add: bit_iff_odd)
  then show ?thesis by (simp add: bit_unsigned_iff)
qed

lemma flag_bit: "lc AND w_flag = 0 \<longleftrightarrow> unat lc < 2 ^ 31"
proof -
  have "lc AND w_flag = 0 \<longleftrightarrow> \<not> bit lc 31" unfolding w_alt by (rule and_exp_eq_0_iff_not_bit)
  then show ?thesis using bit31 [of lc] by (simp add: not_le)
qed

lemma or_flag: "unat (lc OR w_flag) = (if unat lc < 2 ^ 31 then unat lc + 2 ^ 31 else unat lc)"
proof (cases "bit lc 31")
  case True
  then have "lc OR w_flag = lc" unfolding w_alt by (intro bit_word_eqI) (auto simp only: bit_or_iff bit_exp_iff)
  then show ?thesis using True bit31 [of lc] by simp
next
  case False
  then have "lc + w_flag = lc OR w_flag" unfolding w_alt by (intro disjunctive_add) (auto simp only: bit_exp_iff)
  moreover have "unat (lc + w_flag) = unat lc + unat w_flag"
    using False bit31 [of lc] by (intro unat_add_lem [THEN iffD1]) (simp add: w_alt)
  ultimately show ?thesis using False bit31 [of lc] by (simp add: w_alt)
qed


section \<open>Exclusion\<close>

lemma cnt_le_length: "cnt P xs \<le> int (length xs)"
  by (simp add: cnt_def)

lemma rw_word:
  assumes "rw_inv (lc, th)"
  shows "lc AND w_flag = 0 \<longleftrightarrow> cnt claims th = 0" and "lc AND w_mask = 0 \<longleftrightarrow> cnt (\<lambda>p. p = Reading) th = 0"
    and "lc = 0 \<longleftrightarrow> cnt claims th = 0 \<and> cnt (\<lambda>p. p = Reading) th = 0"
proof -
  let ?r = "cnt (\<lambda>p. p = Reading) th"
  define N where N: "N = unat lc"
  have i: "int N = 2 ^ 31 * cnt claims th + ?r" "cnt claims th \<le> 1" "0 \<le> cnt claims th" "0 \<le> ?r" "?r < 2 ^ 31"
    using assms cnt_le_length [of "\<lambda>p. p = Reading" th] by (auto simp: rw_inv_def cnt_nonneg N)
  then have c: "cnt claims th = 0 \<and> int N = ?r \<or> cnt claims th = 1 \<and> int N = 2 ^ 31 + ?r" by auto
  then show "lc AND w_flag = 0 \<longleftrightarrow> cnt claims th = 0" unfolding flag_bit N [symmetric] using i(4,5) by auto
  have "lc AND w_mask = 0 \<longleftrightarrow> N mod 2 ^ 31 = 0" unfolding N unat_and_mask [symmetric] by (rule unat_0_iff [symmetric])
  also have "\<dots> \<longleftrightarrow> int (N mod 2 ^ 31) = 0" by simp
  also have "\<dots> \<longleftrightarrow> int N mod 2 ^ 31 = 0" by (simp only: of_nat_mod of_nat_power of_nat_numeral)
  also have "\<dots> \<longleftrightarrow> ?r = 0" using i by simp
  finally show "lc AND w_mask = 0 \<longleftrightarrow> ?r = 0" .
  have "lc = 0 \<longleftrightarrow> N = 0" unfolding N by (rule unat_0_iff [symmetric])
  then show "lc = 0 \<longleftrightarrow> cnt claims th = 0 \<and> ?r = 0" using c i(4) by auto
qed

lemma rw_inv_pc:
  assumes "rw_inv (lc, th)" and "t < length th" and "int (unat lc') = 2 ^ 31 * (cnt claims th - of_bool (claims (th ! t)) + of_bool (claims pc))
      + (cnt (\<lambda>p. p = Reading) th - of_bool (th ! t = Reading) + of_bool (pc = Reading))"
    and "cnt claims th - of_bool (claims (th ! t)) + of_bool (claims pc) \<le> 1"
    and "Writing \<in> set (th[t := pc]) \<Longrightarrow> cnt (\<lambda>p. p = Reading) th - of_bool (th ! t = Reading) + of_bool (pc = Reading) = 0"
  shows "rw_inv (lc', th[t := pc])"
  using assms by (simp add: rw_inv_def cnt_upd)


lemma writer_claims: "cnt claims th = 0 \<Longrightarrow> Writing \<notin> set th"
  by (auto simp: cnt_0)

lemma rw_access_inv:
  assumes inv: "rw_inv (lc, th)" and t: "t < length th" and a: "rw_access weak (th ! t) lc = (pc, lc')"
  shows "rw_inv (lc', th[t := pc])"
proof -
  let ?r = "\<lambda>p. p = Reading"
  note w = rw_word [OF inv]
  define N where N: "N = unat lc"
  have i: "int N = 2 ^ 31 * cnt claims th + cnt ?r th" "cnt claims th \<le> 1" "Writing \<in> set th \<Longrightarrow> cnt ?r th = 0" "length th < 2 ^ 31"
    using inv by (auto simp: rw_inv_def N)
  have c: "cnt claims th = 0 \<and> N < 2 ^ 31 \<or> cnt claims th = 1 \<and> \<not> N < 2 ^ 31"
    using i cnt_le_length [of ?r th] cnt_nonneg [of ?r th] cnt_nonneg [of claims th] by auto
  have same: "th[t := th ! t] = th" by simp
  show ?thesis
  proof (cases "th ! t")
    case WTry
    have pc: "pc = (if lc = 0 then Writing else if lc AND w_flag = 0 then WDrain else WTry)" "lc' = lc OR w_flag" using a WTry by auto
    have u: "int (unat lc') = (if N < 2 ^ 31 then int N + 2 ^ 31 else int N)" unfolding pc(2) or_flag N [symmetric] by simp
    show ?thesis
    proof (cases "cnt claims th = 0")
      case True
      then have "pc = (if cnt ?r th = 0 then Writing else WDrain)" using pc(1) w(1,3) by simp
      then show ?thesis using True c i u t WTry writer_claims [OF True]
        by (intro rw_inv_pc [OF inv t]) (auto dest: set_update_subset_insert [THEN subsetD] split: if_splits)
    next
      case False
      then have "pc = WTry" using pc(1) w(1,3) by simp
      then show ?thesis using False c u i inv WTry same by (simp add: rw_inv_def)
    qed
  next
    case WDrain
    have pc: "pc = (if lc AND w_mask \<noteq> 0 then WDrain else Writing)" "lc' = lc" using a WDrain by auto
    then show ?thesis using inv i WDrain w(2) t
      by (intro rw_inv_pc [OF inv t]) (auto simp: rw_inv_def dest: set_update_subset_insert [THEN subsetD] split: if_splits)
  next
    case (RLoop old)
    show ?thesis
    proof (cases "pc = Reading")
      case True
      then have l: "lc = old" "lc AND w_flag = 0" "lc' = lc + 1" using a RLoop by (auto split: if_splits)
      then have c0: "cnt claims th = 0" "N < 2 ^ 31" using w(1) c by auto
      have "unat (lc + 1) = unat lc + unat (1 :: u32)" using c0(2) N by (intro unat_add_lem [THEN iffD1]) simp
      then have "unat (lc + 1) = N + 1" by (simp add: N)
      then show ?thesis using True l c0 i writer_claims [OF c0(1)] RLoop t
        by (intro rw_inv_pc [OF inv t]) (auto dest: set_update_subset_insert [THEN subsetD])
    next
      case False
      then have "pc = RLoop lc" "lc' = lc" using a RLoop by (auto split: if_splits)
      then show ?thesis using inv RLoop i by (intro rw_inv_pc [OF inv t]) (auto simp: rw_inv_def dest: set_update_subset_insert [THEN subsetD])
    qed
  next
    case RLoad
    then have "pc = RLoop lc" "lc' = lc" using a by auto
    then show ?thesis using inv RLoad i by (intro rw_inv_pc [OF inv t]) (auto simp: rw_inv_def dest: set_update_subset_insert [THEN subsetD])
  qed (use a inv same in auto)
qed

lemma rw_step_inv: "rw_inv s \<Longrightarrow> rw_inv (rw_step e s)"
proof -
  assume inv: "rw_inv s"
  obtain lc th where s: "s = (lc, th)" by fastforce
  note inv = inv [unfolded s]
  let ?r = "\<lambda>p. p = Reading"
  note w = rw_word [OF inv]
  have i: "int (unat lc) = 2 ^ 31 * cnt claims th + cnt ?r th" "cnt claims th \<le> 1" "Writing \<in> set th \<Longrightarrow> cnt ?r th = 0"
    using inv by (simp_all add: rw_inv_def)
  note upd = set_update_subset_insert [THEN subsetD]
  show "rw_inv (rw_step e s)"
  proof (cases e)
    case (LockCall t)
    then show ?thesis using inv i by (auto simp: s rw_goes_def intro!: rw_inv_pc [OF inv] dest: upd)
  next
    case (LockShared t)
    then show ?thesis using inv i by (auto simp: s rw_goes_def intro!: rw_inv_pc [OF inv] dest: upd)
  next
    case (UnlockCall t)
    show ?thesis
    proof (cases "t < length th \<and> th ! t = Writing")
      case True
      then have "Writing \<in> set th" by (metis nth_mem)
      then have "cnt ?r th = 0" "cnt claims th = 1" using i(3) cnt_pos [of t th claims] True i(2) by auto
      then show ?thesis using True UnlockCall by (auto simp: s rw_goes_def intro!: rw_inv_pc [OF inv])
    qed (use inv s UnlockCall in auto)
  next
    case (UnlockShared t)
    show ?thesis
    proof (cases "t < length th \<and> th ! t = Reading")
      case True
      then have r: "1 \<le> cnt ?r th" using cnt_pos [of t th ?r] by simp
      then have n: "Writing \<notin> set th" "lc \<noteq> 0" using i(3) w(3) by auto
      then have "unat (lc - 1) = unat lc - 1" by (simp add: unat_minus_one)
      moreover have "0 < unat lc" using n(2) by (simp add: unat_gt_0)
      ultimately have "int (unat (lc - 1)) = int (unat lc) - 1" by simp
      then have "rw_inv (lc - 1, th[t := Idle])" using True i n by (intro rw_inv_pc [OF inv]) (auto dest: upd)
      then show ?thesis using True UnlockShared by (simp add: s rw_goes_def)
    qed (use inv s UnlockShared in auto)
  next
    case (Access t weak)
    then show ?thesis using inv rw_access_inv [OF inv, of t weak "fst (rw_access weak (th ! t) lc)" "snd (rw_access weak (th ! t) lc)"]
      by (auto simp: s rw_goes_def)
  qed
qed

text \<open>
  C21. The lock for readers and writers excludes. Fewer than $2^{31}$ threads lock and unlock it for writing or for reading, all their atomic
  accesses interleaved in any order and \<open>compare_exchange_weak\<close> failing at will. A thread that has the lock for writing is
  the only one that has it in either way, and while threads have it for reading the word counts them.
\<close>

theorem rw_lock_excludes:
  assumes "n < 2 ^ 31" and "rw_run evs n = (lc, th)"
  shows "(t < length th \<and> th ! t = Writing \<longrightarrow> (\<forall>u < length th. u \<noteq> t \<longrightarrow> th ! u \<noteq> Writing \<and> th ! u \<noteq> Reading))
    \<and> int (unat lc mod 2 ^ 31) = cnt (\<lambda>p. p = Reading) th"
proof -
  have "cnt P (replicate n Idle) = 0" if "\<not> P Idle" for P using that by (simp add: cnt_0)
  then have "rw_inv (0, replicate n Idle)" using assms(1) by (simp add: rw_inv_def)
  then have "rw_inv (fold rw_step evs (0, replicate n Idle))" by (induction evs rule: rev_induct) (simp_all add: rw_step_inv)
  then have inv: "rw_inv (lc, th)" using assms(2) by (simp add: rw_run_def)
  define N where N: "N = unat lc"
  have i: "int N = 2 ^ 31 * cnt claims th + cnt (\<lambda>p. p = Reading) th" "cnt claims th \<le> 1" "Writing \<in> set th \<Longrightarrow> cnt (\<lambda>p. p = Reading) th = 0"
      "cnt (\<lambda>p. p = Reading) th < 2 ^ 31" "0 \<le> cnt (\<lambda>p. p = Reading) th"
    using inv cnt_le_length [of "\<lambda>p. p = Reading" th] by (auto simp: rw_inv_def N cnt_nonneg)
  have "int (N mod 2 ^ 31) = int N mod 2 ^ 31" by (simp only: of_nat_mod of_nat_power of_nat_numeral)
  also have "\<dots> = cnt (\<lambda>p. p = Reading) th" using i(1,4,5) by simp
  finally have m: "int (unat lc mod 2 ^ 31) = cnt (\<lambda>p. p = Reading) th" unfolding N .
  have "th ! u \<noteq> Writing \<and> th ! u \<noteq> Reading" if t: "t < length th" "th ! t = Writing" and u: "u < length th" "u \<noteq> t" for u
  proof -
    have "Writing \<in> set th" using t by (metis nth_mem)
    then have r: "cnt (\<lambda>p. p = Reading) th = 0" using i(3) by simp
    have "cnt claims (th[t := Idle]) = cnt claims th - 1" using t by (simp add: cnt_upd)
    then have "cnt claims (th[t := Idle]) = 0" using i(2) cnt_nonneg [of claims "th[t := Idle]"] by simp
    moreover have "th ! u \<in> set (th[t := Idle])" using u by (metis length_list_update nth_list_update_neq nth_mem)
    ultimately have "\<not> claims (th ! u)" by (simp add: cnt_0)
    then show ?thesis using r u(1) by (auto simp: cnt_0 dest: nth_mem)
  qed
  then show ?thesis using m by blast
qed

definition reader_then_writer :: "rw_event list" where
  "reader_then_writer = [LockShared 0, Access 0 False, Access 0 False, LockCall 1, Access 1 False, Access 1 False, LockShared 2, Access 2 False, Access 2 False,
     UnlockShared 0, Access 1 False]"

theorem rw_lock_excludes_witness:
  "rw_run reader_then_writer 3 = (w_flag, [Idle, Writing, RLoop (w_flag + 1)])
   \<and> ([Idle, Writing, RLoop (w_flag + 1)] ! 0 \<noteq> Reading)"
proof -
  have r: "rw_run reader_then_writer 3 = (w_flag, [Idle, Writing, RLoop (w_flag + 1)])" by code_simp
  show ?thesis using rw_lock_excludes [OF _ r, of 1] r by simp
qed

end
