(* ===== verification/Ring_Single.thy ===== *)
theory Ring_Single
  imports Ipc_Ring
begin

text \<open>
  The ring buffers with one producer, \<^verbatim>\<open>common/shm-ipc/src/libipc/prod_cons.h\<close>: the policy with one
  consumer and the one with several consumers, which replaces \<open>pop\<close> by a loop around a
  compare-and-exchange. There is no commit index and there are no commit flags: the producer is
  alone, and the write index is moved after the element is written.

  As in the ring of several producers, one step is one access to the shared memory, accesses are
  sequentially consistent, and the state carries the lists of the values sent and taken, which no
  step reads.
\<close>

section \<open>The two policies\<close>

record 'a sring =
  sr_rd :: u32
  sr_wt :: u32
  sr_data :: "u8 \<Rightarrow> 'a"
  sr_sent :: "'a list"
  sr_taken :: "'a list"

definition sring_init :: "'a \<Rightarrow> 'a sring" where
  "sring_init zero = \<lparr>sr_rd = 0, sr_wt = 0, sr_data = (\<lambda>i. zero), sr_sent = [], sr_taken = []\<rparr>"

text \<open>The producer: the slot is computed once, before the test.\<close>

datatype 'a prod_pc = Sent bool | SendWt 'a | SendRd 'a u8 | SendBegin 'a u8 | SendData 'a u8 | SendAdd 'a

fun single_push :: "'a \<Rightarrow> 'a prod_pc \<Rightarrow> 'a sring \<Rightarrow> 'a prod_pc \<times> 'a sring" where
  "single_push torn (SendWt x) s = (SendRd x (index_of (sr_wt s)), s)"
| "single_push torn (SendRd x cur_wt) s =
     (if cur_wt = index_of (sr_rd s - 1) then Sent False else SendBegin x cur_wt, s)"
| "single_push torn (SendBegin x cur_wt) s = (SendData x cur_wt, s\<lparr>sr_data := (sr_data s)(cur_wt := torn)\<rparr>)"
| "single_push torn (SendData x cur_wt) s = (SendAdd x, s\<lparr>sr_data := (sr_data s)(cur_wt := x)\<rparr>)"
| "single_push torn (SendAdd x) s = (Sent True, s\<lparr>sr_wt := sr_wt s + 1, sr_sent := sr_sent s @ [x]\<rparr>)"
| "single_push torn (Sent r) s = (Sent r, s)"

text \<open>The consumers: \<open>One\<dots>\<close> are the places of the only consumer, \<open>Many\<dots>\<close> of one of several.\<close>

datatype 'a cons_pc =
    Got "'a option"
  | OneRd | OneWt u8 | OneRead u8 | OneAdd 'a
  | ManyRd | ManyWt u32 | ManyCopy u32 | ManyCas u32 'a

fun single_pop :: "'a cons_pc \<Rightarrow> 'a sring \<Rightarrow> 'a cons_pc \<times> 'a sring" where
  "single_pop OneRd s = (OneWt (index_of (sr_rd s)), s)"
| "single_pop (OneWt cur_rd) s = (if cur_rd = index_of (sr_wt s) then Got None else OneRead cur_rd, s)"
| "single_pop (OneRead cur_rd) s = (OneAdd (sr_data s cur_rd), s)"
| "single_pop (OneAdd x) s = (Got (Some x), s\<lparr>sr_rd := sr_rd s + 1, sr_taken := sr_taken s @ [x]\<rparr>)"
| "single_pop p s = (p, s)"

fun many_pop :: "bool \<Rightarrow> 'a cons_pc \<Rightarrow> 'a sring \<Rightarrow> 'a cons_pc \<times> 'a sring" where
  "many_pop weak ManyRd s = (ManyWt (sr_rd s), s)"
| "many_pop weak (ManyWt cur_rd) s =
     (if index_of cur_rd = index_of (sr_wt s) then Got None else ManyCopy cur_rd, s)"
| "many_pop weak (ManyCopy cur_rd) s = (ManyCas cur_rd (sr_data s (index_of cur_rd)), s)"
| "many_pop weak (ManyCas cur_rd buff) s =
     (if sr_rd s = cur_rd \<and> \<not> weak
      then (Got (Some buff), s\<lparr>sr_rd := cur_rd + 1, sr_taken := sr_taken s @ [buff]\<rparr>)
      else (ManyRd, s))"
| "many_pop weak p s = (p, s)"

section \<open>Runs\<close>

text \<open>The number of consumers a policy allows; with one, the receivers are checked and only one connects.\<close>

datatype consumers = One_Consumer | Many_Consumers

fun begin_pop :: "consumers \<Rightarrow> 'a cons_pc" where
  "begin_pop One_Consumer = OneRd"
| "begin_pop Many_Consumers = ManyRd"

fun may_pop :: "consumers \<Rightarrow> nat \<Rightarrow> bool" where
  "may_pop One_Consumer c = (c = 0)"
| "may_pop Many_Consumers c = True"

fun step_pop :: "consumers \<Rightarrow> bool \<Rightarrow> 'a cons_pc \<Rightarrow> 'a sring \<Rightarrow> 'a cons_pc \<times> 'a sring" where
  "step_pop One_Consumer weak = single_pop"
| "step_pop Many_Consumers weak = many_pop weak"

datatype 'a sevent = Send 'a | Produce 'a | Receive nat | Consume nat bool

type_synonym 'a single_sys = "'a prod_pc \<times> (nat \<Rightarrow> 'a cons_pc) \<times> 'a sring"

fun single_event :: "consumers \<Rightarrow> 'a sevent \<Rightarrow> 'a single_sys \<Rightarrow> 'a single_sys" where
  "single_event k (Send x) (p, cs, s) = (case p of Sent r \<Rightarrow> (SendWt x, cs, s) | _ \<Rightarrow> (p, cs, s))"
| "single_event k (Produce torn) (p, cs, s) = (let (p', s') = single_push torn p s in (p', cs, s'))"
| "single_event k (Receive c) (p, cs, s) =
     (case cs c of Got r \<Rightarrow> if may_pop k c then (p, cs(c := begin_pop k), s) else (p, cs, s) | _ \<Rightarrow> (p, cs, s))"
| "single_event k (Consume c weak) (p, cs, s) = (let (q, s') = step_pop k weak (cs c) s in (p, cs(c := q), s'))"

definition single_run :: "consumers \<Rightarrow> 'a sevent list \<Rightarrow> 'a single_sys \<Rightarrow> 'a single_sys" where
  "single_run k evs = fold (single_event k) evs"

definition single_start :: "'a \<Rightarrow> 'a single_sys" where
  "single_start zero = (Sent True, \<lambda>c. Got None, sring_init zero)"

section \<open>Slots of unbounded counters\<close>

definition slot :: "nat \<Rightarrow> u8" where
  "slot n = index_of (of_nat n)"

lemma unat_slot: "unat (slot n) = n mod 256"
  by (simp add: slot_def index_of_def unat_ucast_narrow unat_of_nat mod_mod_cancel)

lemma slot_eq_iff: "slot m = slot n \<longleftrightarrow> m mod 256 = n mod 256"
  by (simp add: word_unat_eq_iff unat_slot)

lemma slot_window: "slot m = slot n \<longleftrightarrow> m = n" if "k \<le> m" "m < k + 256" "k \<le> n" "n < k + 256"
  using mod_window_inj [of m n k] that by (auto simp: slot_eq_iff)

lemma slot_before: "index_of (of_nat r - 1) = slot (r + 255)"
proof -
  have "of_nat (r + 255) - (of_nat r - 1 :: u32) = 256" by simp
  then have e: "(of_nat (r + 255) :: u32) = (of_nat r - 1) + 256" by (simp add: algebra_simps)
  have "(ucast (a + 256 :: u32) :: u8) = ucast a" for a
    by (simp add: word_unat_eq_iff unat_ucast_narrow unat_word_ariths mod_mod_cancel)
  then show ?thesis by (simp only: slot_def index_of_def e)
qed

section \<open>The invariant\<close>

fun producer_knows :: "'a sring \<Rightarrow> 'a prod_pc \<Rightarrow> bool" where
  "producer_knows s (SendRd x i) = (i = slot (length (sr_sent s)))"
| "producer_knows s (SendBegin x i) = (i = slot (length (sr_sent s)) \<and> length (sr_sent s) < length (sr_taken s) + 255)"
| "producer_knows s (SendData x i) = (i = slot (length (sr_sent s)) \<and> length (sr_sent s) < length (sr_taken s) + 255)"
| "producer_knows s (SendAdd x) =
     (sr_data s (slot (length (sr_sent s))) = x \<and> length (sr_sent s) < length (sr_taken s) + 255)"
| "producer_knows s p = True"

text \<open>A consumer has read the read index when it was \<open>n\<close>; it knows something only if it still is.\<close>

definition head_was :: "'a sring \<Rightarrow> u32 \<Rightarrow> ('a \<Rightarrow> bool) \<Rightarrow> bool" where
  "head_was s c P \<longleftrightarrow> (\<exists>n \<le> length (sr_taken s). c = of_nat n
     \<and> (n = length (sr_taken s) \<longrightarrow> n < length (sr_sent s) \<and> P (sr_sent s ! n)))"

fun consumer_knows :: "'a sring \<Rightarrow> consumers \<Rightarrow> nat \<Rightarrow> 'a cons_pc \<Rightarrow> bool" where
  "consumer_knows s k c (Got r) = True"
| "consumer_knows s k c OneRd = (k = One_Consumer \<and> c = 0)"
| "consumer_knows s k c (OneWt i) = (k = One_Consumer \<and> c = 0 \<and> i = slot (length (sr_taken s)))"
| "consumer_knows s k c (OneRead i) =
     (k = One_Consumer \<and> c = 0 \<and> i = slot (length (sr_taken s)) \<and> length (sr_taken s) < length (sr_sent s))"
| "consumer_knows s k c (OneAdd x) =
     (k = One_Consumer \<and> c = 0 \<and> length (sr_taken s) < length (sr_sent s) \<and> x = sr_sent s ! length (sr_taken s))"
| "consumer_knows s k c ManyRd = (k = Many_Consumers)"
| "consumer_knows s k c (ManyWt i) = (k = Many_Consumers \<and> (\<exists>n \<le> length (sr_taken s). i = of_nat n))"
| "consumer_knows s k c (ManyCopy i) = (k = Many_Consumers \<and> head_was s i (\<lambda>x. True))"
| "consumer_knows s k c (ManyCas i x) = (k = Many_Consumers \<and> head_was s i (\<lambda>y. x = y))"

definition sring_ok :: "'a sring \<Rightarrow> bool" where
  "sring_ok s \<longleftrightarrow> sr_rd s = of_nat (length (sr_taken s)) \<and> sr_wt s = of_nat (length (sr_sent s))
     \<and> length (sr_taken s) \<le> length (sr_sent s) \<and> sr_taken s = take (length (sr_taken s)) (sr_sent s)
     \<and> length (sr_sent s) \<le> length (sr_taken s) + 255
     \<and> (\<forall>n < length (sr_sent s). length (sr_taken s) \<le> n \<longrightarrow> sr_data s (slot n) = sr_sent s ! n)"

definition single_ok :: "consumers \<Rightarrow> 'a single_sys \<Rightarrow> bool" where
  "single_ok k = (\<lambda>(p, cs, s). sring_ok s \<and> producer_knows s p \<and> (\<forall>c. consumer_knows s k c (cs c)))"

lemma sring_okD:
  assumes "sring_ok s"
  shows "sr_rd s = of_nat (length (sr_taken s))" and "sr_wt s = of_nat (length (sr_sent s))"
    and "length (sr_taken s) \<le> length (sr_sent s)" and "sr_taken s = take (length (sr_taken s)) (sr_sent s)"
    and "length (sr_sent s) \<le> length (sr_taken s) + 255"
    and "length (sr_taken s) \<le> n \<Longrightarrow> n < length (sr_sent s) \<Longrightarrow> sr_data s (slot n) = sr_sent s ! n"
  using assms by (simp_all add: sring_ok_def)

text \<open>The two tests by slot numbers are exact, at whatever multiple of \<open>2^32\<close> the indices stand.\<close>

lemma full_iff:
  assumes "sring_ok s"
  shows "slot (length (sr_sent s)) = index_of (sr_rd s - 1) \<longleftrightarrow> length (sr_sent s) = length (sr_taken s) + 255"
  using sring_okD(3,5) [OF assms]
  by (simp add: sring_okD(1) [OF assms] slot_before) (rule slot_window [of "length (sr_taken s)"]; simp)

lemma empty_iff:
  assumes "sring_ok s"
  shows "slot (length (sr_taken s)) = index_of (sr_wt s) \<longleftrightarrow> length (sr_taken s) = length (sr_sent s)"
  using sring_okD(3,5) [OF assms]
  by (simp add: sring_okD(2) [OF assms] slot_def [symmetric]) (rule slot_window [of "length (sr_taken s)"]; simp)

text \<open>What the consumers know is kept when the producer writes or sends, and when another consumer takes.\<close>

lemma head_was_sent: "head_was s c P \<Longrightarrow> head_was (s\<lparr>sr_wt := w, sr_sent := sr_sent s @ [x]\<rparr>) c P"
  by (auto simp: head_was_def nth_append)

lemma head_was_data [simp]: "head_was (s\<lparr>sr_data := d\<rparr>) c P = head_was s c P"
  by (simp add: head_was_def)

lemma head_was_taken: "head_was s c P \<Longrightarrow> head_was (s\<lparr>sr_rd := r, sr_taken := sr_taken s @ [x]\<rparr>) c Q"
  unfolding head_was_def by (metis (no_types, lifting) Suc_n_not_le_n le_SucI length_append_singleton sring.ext_inject
      sring.surjective sring.update_convs(1) sring.update_convs(5))

lemma consumer_knows_data: "consumer_knows s k c q \<Longrightarrow> consumer_knows (s\<lparr>sr_data := d\<rparr>) k c q"
  by (cases q) simp_all

lemma consumer_knows_sent: "consumer_knows s k c q \<Longrightarrow> consumer_knows (s\<lparr>sr_wt := w, sr_sent := sr_sent s @ [x]\<rparr>) k c q"
  by (cases q) (auto simp: nth_append head_was_sent)

lemma consumer_knows_taken:
  assumes "consumer_knows s k c q" and "k = One_Consumer \<Longrightarrow> c \<noteq> 0"
  shows "consumer_knows (s\<lparr>sr_rd := r, sr_taken := sr_taken s @ [x]\<rparr>) k c q"
  using assms by (cases q) (auto simp: head_was_taken intro: le_SucI)

lemma producer_knows_taken: "producer_knows s p \<Longrightarrow> producer_knows (s\<lparr>sr_rd := r, sr_taken := sr_taken s @ [x]\<rparr>) p"
  by (cases p) auto

text \<open>Writing the slot of the next element touches no element that is unread.\<close>

lemma sring_ok_data:
  assumes ok: "sring_ok s" and "length (sr_sent s) < length (sr_taken s) + 255"
  shows "sring_ok (s\<lparr>sr_data := (sr_data s)(slot (length (sr_sent s)) := x)\<rparr>)"
proof -
  have "slot n \<noteq> slot (length (sr_sent s))" if "n < length (sr_sent s)" "length (sr_taken s) \<le> n" for n
    using slot_window [of "length (sr_taken s)" n "length (sr_sent s)"] that assms(2) by simp
  then show ?thesis using ok by (simp add: sring_ok_def)
qed

lemma sring_ok_sent:
  assumes ok: "sring_ok s" and "length (sr_sent s) < length (sr_taken s) + 255" and "sr_data s (slot (length (sr_sent s))) = x"
  shows "sring_ok (s\<lparr>sr_wt := sr_wt s + 1, sr_sent := sr_sent s @ [x]\<rparr>)"
  using assms by (auto simp: sring_ok_def nth_append less_Suc_eq)

lemma sring_ok_taken:
  assumes ok: "sring_ok s" and "length (sr_taken s) < length (sr_sent s)"
  shows "sring_ok (s\<lparr>sr_rd := sr_rd s + 1, sr_taken := sr_taken s @ [sr_sent s ! length (sr_taken s)]\<rparr>)"
  using assms by (auto simp: sring_ok_def take_Suc_conv_app_nth)

lemma keep_produce:
  assumes ok: "single_ok k (p, cs, s)" and st: "single_push torn p s = (p', s')"
  shows "single_ok k (p', cs, s')"
proof -
  note s = conjunct1 [OF ok [unfolded single_ok_def prod.case]] and p = ok [unfolded single_ok_def prod.case, THEN conjunct2, THEN conjunct1]
    and c = ok [unfolded single_ok_def prod.case, THEN conjunct2, THEN conjunct2, rule_format]
  show ?thesis
  proof (cases p)
    case (SendRd x i)
    then show ?thesis using st s p c sring_okD(3,5) [OF s] full_iff [OF s] by (auto simp: single_ok_def split: if_splits)
  next
    case (SendBegin x i)
    then show ?thesis using st p c sring_ok_data [OF s, of torn] by (auto simp: single_ok_def consumer_knows_data)
  next
    case (SendData x i)
    then show ?thesis using st p c sring_ok_data [OF s, of x] by (auto simp: single_ok_def consumer_knows_data)
  next
    case (SendAdd x)
    then show ?thesis using st p c sring_ok_sent [OF s, of x] by (auto simp: single_ok_def consumer_knows_sent)
  qed (use st s c sring_okD(2) [OF s] in \<open>auto simp: single_ok_def slot_def\<close>)
qed

lemma keep_taken:
  assumes "single_ok k (p, cs, s)" and "length (sr_taken s) < length (sr_sent s)" and "may_pop k c" and "x = sr_sent s ! length (sr_taken s)"
  shows "single_ok k (p, cs(c := Got r), s\<lparr>sr_rd := sr_rd s + 1, sr_taken := sr_taken s @ [x]\<rparr>)"
proof -
  have "consumer_knows (s\<lparr>sr_rd := sr_rd s + 1, sr_taken := sr_taken s @ [x]\<rparr>) k d (cs d)" if "d \<noteq> c" for d
    by (rule consumer_knows_taken) (use assms(1,3) that in \<open>auto simp: single_ok_def\<close>)
  then show ?thesis using assms sring_ok_taken [of s] by (simp add: single_ok_def producer_knows_taken)
qed

lemma single_okD: "single_ok k (p, cs, s) \<Longrightarrow> sring_ok s" "single_ok k (p, cs, s) \<Longrightarrow> producer_knows s p" "single_ok k (p, cs, s) \<Longrightarrow> consumer_knows s k c (cs c)"
  by (simp_all add: single_ok_def)

lemma keep_local_pop:
  assumes "single_ok k (p, cs, s)" and "consumer_knows s k c q"
  shows "single_ok k (p, cs(c := q), s)"
  using assms by (simp add: single_ok_def)

lemma keep_single_pop:
  assumes ok: "single_ok One_Consumer (p, cs, s)" and st: "single_pop (cs c) s = (q, s')"
  shows "single_ok One_Consumer (p, cs(c := q), s')"
proof -
  note s = single_okD(1) [OF ok] and k = single_okD(3) [OF ok, of c] and lo = keep_local_pop [OF ok, of c q]
  show ?thesis
  proof (cases "cs c")
    case OneRd
    then show ?thesis using st k lo sring_okD(1) [OF s] by (auto simp: slot_def)
  next
    case (OneWt i)
    then show ?thesis using st k lo empty_iff [OF s] sring_okD(3) [OF s] by (auto split: if_splits)
  next
    case (OneRead i)
    then show ?thesis using st k lo sring_okD(6) [OF s] by auto
  next
    case (OneAdd x)
    then show ?thesis using st k keep_taken [OF ok, of c x] by auto
  qed (use st k lo in auto)
qed

lemma head_was_now:
  assumes "head_was s (of_nat (length (sr_taken s))) P" and "length (sr_taken s) < 2 ^ 32"
  shows "length (sr_taken s) < length (sr_sent s) \<and> P (sr_sent s ! length (sr_taken s))"
proof -
  obtain n where n: "n \<le> length (sr_taken s)" "of_nat (length (sr_taken s)) = (of_nat n :: u32)"
      "n = length (sr_taken s) \<longrightarrow> n < length (sr_sent s) \<and> P (sr_sent s ! n)"
    using assms(1) by (auto simp: head_was_def)
  have "length (sr_taken s) = n"
    using n(1) arg_cong [OF n(2), of unat] assms(2) by (simp add: unat_of_nat)
  then show ?thesis using n(3) by simp
qed

lemma keep_many_pop:
  assumes ok: "single_ok Many_Consumers (p, cs, s)" and bound: "length (sr_taken s) < 2 ^ 32" and st: "many_pop weak (cs c) s = (q, s')"
  shows "single_ok Many_Consumers (p, cs(c := q), s')"
proof -
  note s = single_okD(1) [OF ok] and k = single_okD(3) [OF ok, of c] and lo = keep_local_pop [OF ok, of c q]
  show ?thesis
  proof (cases "cs c")
    case ManyRd
    have "\<exists>n \<le> length (sr_taken s). sr_rd s = of_nat n" using sring_okD(1) [OF s] by blast
    then have "consumer_knows s Many_Consumers c q" "s' = s" using ManyRd st by auto
    then show ?thesis using lo by simp
  next
    case (ManyWt i)
    then obtain n where n: "n \<le> length (sr_taken s)" "i = of_nat n" using k by auto
    have "n < length (sr_sent s)" if "n = length (sr_taken s)" "index_of i \<noteq> index_of (sr_wt s)"
      using that n(2) empty_iff [OF s] sring_okD(3) [OF s] by (simp add: slot_def)
    then have "head_was s i (\<lambda>x. True)" if "index_of i \<noteq> index_of (sr_wt s)"
      using that n unfolding head_was_def by blast
    then show ?thesis using ManyWt st lo by (auto split: if_splits)
  next
    case (ManyCopy i)
    then obtain n where n: "n \<le> length (sr_taken s)" "i = of_nat n" "n = length (sr_taken s) \<longrightarrow> n < length (sr_sent s)"
      using k by (auto simp: head_was_def)
    then have "head_was s i (\<lambda>y. sr_data s (index_of i) = y)"
      using sring_okD(6) [OF s, of n] unfolding head_was_def slot_def by blast
    then show ?thesis using ManyCopy st lo by auto
  next
    case (ManyCas i x)
    show ?thesis
    proof (cases "sr_rd s = i \<and> \<not> weak")
      case True
      then have "length (sr_taken s) < length (sr_sent s) \<and> x = sr_sent s ! length (sr_taken s)"
        using k ManyCas bound head_was_now [of s "\<lambda>y. x = y"] sring_okD(1) [OF s] by simp
      then show ?thesis using True ManyCas st keep_taken [OF ok, of c x "Some x"] by auto
    qed (use ManyCas st lo in auto)
  qed (use st k lo in auto)
qed

lemma keep_single_event:
  assumes "single_ok k (p, cs, s)" and "k = Many_Consumers \<Longrightarrow> length (sr_taken s) < 2 ^ 32"
  shows "single_ok k (single_event k e (p, cs, s))"
proof (cases e)
  case (Send x)
  then show ?thesis using assms(1) by (cases p) (auto simp: single_ok_def)
next
  case (Produce torn)
  then show ?thesis using keep_produce [OF assms(1), of torn] by (cases "single_push torn p s") simp
next
  case (Receive c)
  have "consumer_knows s k c (begin_pop k)" if "may_pop k c" using that by (cases k) simp_all
  then show ?thesis using Receive assms(1) keep_local_pop [OF assms(1), of c "begin_pop k"] by (cases "cs c") simp_all
next
  case (Consume c weak)
  obtain q s' where "step_pop k weak (cs c) s = (q, s')" by fastforce
  then show ?thesis
    using Consume assms keep_single_pop [of p cs s c q s'] keep_many_pop [of p cs s weak c q s'] by (cases k) simp_all
qed

lemma step_pop_taken: "step_pop k weak q s = (q', s') \<Longrightarrow> length (sr_taken s) \<le> length (sr_taken s')"
  by (cases k; cases q) (auto split: if_splits)

lemma single_push_taken: "single_push torn p s = (p', s') \<Longrightarrow> sr_taken s' = sr_taken s"
  by (cases p) auto

lemma single_event_taken: "single_event k e (p, cs, s) = (p', cs', s') \<Longrightarrow> length (sr_taken s) \<le> length (sr_taken s')"
  by (cases e) (auto split: prod.splits prod_pc.splits cons_pc.splits if_splits dest: step_pop_taken single_push_taken)

lemma single_run_snoc: "single_run k (evs @ [e]) sys = single_event k e (single_run k evs sys)"
  by (simp add: single_run_def)

lemma single_reachable:
  assumes "single_run k evs (single_start zero) = (p, cs, s)" and "k = Many_Consumers \<Longrightarrow> length (sr_taken s) < 2 ^ 32"
  shows "single_ok k (p, cs, s)"
  using assms
proof (induction evs arbitrary: p cs s rule: rev_induct)
  case Nil
  then show ?case by (auto simp: single_run_def single_start_def sring_init_def single_ok_def sring_ok_def)
next
  case (snoc e evs)
  obtain p0 cs0 s0 where r: "single_run k evs (single_start zero) = (p0, cs0, s0)" by (metis prod_cases3)
  then have st: "single_event k e (p0, cs0, s0) = (p, cs, s)" using snoc.prems(1) by (simp add: single_run_snoc)
  have "length (sr_taken s0) < 2 ^ 32" if "k = Many_Consumers"
    using single_event_taken [OF st] snoc.prems(2) that by simp
  then show ?case using snoc.IH [OF r] keep_single_event [of k p0 cs0 s0 e] st by simp
qed

section \<open>The rings are queues\<close>

text \<open>
  With one consumer no bound on the run is needed: the indices wrap, and the ring does not notice. With
  several, the compare-and-exchange of the read index is exact as long as fewer than \<open>2^32\<close> elements were taken.
  What is taken is what was sent, in order and once; at most 255 elements wait; the producer
  reports a full ring exactly when 255 wait, and the only consumer an empty one exactly when none does.
\<close>

theorem single_ring_fifo:
  assumes "single_run k evs (single_start zero) = (p, cs, s)" and "k = Many_Consumers \<Longrightarrow> length (sr_taken s) < 2 ^ 32"
  shows "sr_taken s = take (length (sr_taken s)) (sr_sent s) \<and> length (sr_sent s) \<le> length (sr_taken s) + 255
    \<and> (p = SendRd x i \<longrightarrow> (fst (single_push torn p s) = Sent False \<longleftrightarrow> length (sr_sent s) = length (sr_taken s) + 255))
    \<and> (cs 0 = OneWt j \<longrightarrow> (fst (single_pop (cs 0) s) = Got None \<longleftrightarrow> sr_sent s = sr_taken s))"
proof -
  note ok = single_reachable [OF assms]
  note s = single_okD(1) [OF ok]
  have "length (sr_taken s) = length (sr_sent s) \<longleftrightarrow> sr_sent s = sr_taken s"
    using sring_okD(4) [OF s] by (metis take_all order_refl)
  then have "fst (single_pop (cs 0) s) = Got None \<longleftrightarrow> sr_sent s = sr_taken s" if "cs 0 = OneWt j"
    using that single_okD(3) [OF ok, of 0] empty_iff [OF s] by simp
  moreover have "fst (single_push torn p s) = Sent False \<longleftrightarrow> length (sr_sent s) = length (sr_taken s) + 255" if "p = SendRd x i"
    using that single_okD(2) [OF ok] full_iff [OF s] by simp
  ultimately show ?thesis using sring_okD(4,5) [OF s] by blast
qed

definition two_sent :: "char sevent list" where
  "two_sent = [Send CHR ''a''] @ replicate 5 (Produce CHR ''?'') @ [Send CHR ''b''] @ replicate 5 (Produce CHR ''?'')
     @ [Receive 0] @ replicate 4 (Consume 0 False)"

theorem single_ring_fifo_witness:
  "\<exists>p cs s. single_run One_Consumer two_sent (single_start CHR ''0'') = (p, cs, s) \<and> sr_sent s = ''ab'' \<and> sr_taken s = ''a''
     \<and> take 1 (sr_sent s) = sr_taken s"
proof -
  obtain p cs s where r: "single_run One_Consumer two_sent (single_start CHR ''0'') = (p, cs, s)" by (metis prod_cases3)
  have "(\<lambda>(p, cs, s). (sr_sent s, sr_taken s)) (single_run One_Consumer two_sent (single_start CHR ''0'')) = (''ab'', ''a'')"
    by code_simp
  then have "sr_sent s = ''ab'' \<and> sr_taken s = ''a''" using r by simp
  then show ?thesis using r single_ring_fifo [OF r] by auto
qed

section \<open>Several consumers: an empty answer from a ring that is not\<close>

text \<open>
  A consumer of several compares the slot of a read index it loaded before with the slot of the
  write index. If others took an element in between and the producer filled the ring, the two slots
  are equal again, and \<open>pop\<close> returns that the ring is empty although 255 elements wait.
\<close>

definition send_one :: "'a \<Rightarrow> 'a sevent list" where
  "send_one x = Send x # replicate 5 (Produce x)"

lemma send_one_run:
  assumes ok: "single_ok k (Sent r, cs, s)" and room: "length (sr_sent s) < length (sr_taken s) + 255"
  shows "\<exists>s'. single_run k (send_one x) (Sent r, cs, s) = (Sent True, cs, s') \<and> sr_sent s' = sr_sent s @ [x]
    \<and> sr_taken s' = sr_taken s \<and> sr_rd s' = sr_rd s \<and> sr_wt s' = sr_wt s + 1 \<and> single_ok k (Sent True, cs, s')"
proof -
  let ?i = "index_of (sr_wt s)" and ?d = "(sr_data s)(index_of (sr_wt s) := x)"
  let ?s = "s\<lparr>sr_data := ?d, sr_wt := sr_wt s + 1, sr_sent := sr_sent s @ [x]\<rparr>"
  note s = single_okD(1) [OF ok]
  have i: "?i = slot (length (sr_sent s))" using sring_okD(2) [OF s] by (simp add: slot_def)
  have "?i \<noteq> index_of (sr_rd s - 1)" using full_iff [OF s] room i by simp
  then have r: "single_run k (send_one x) (Sent r, cs, s) = (Sent True, cs, ?s)"
    by (simp add: single_run_def send_one_def eval_nat_numeral)
  have "sring_ok ?s"
    using sring_ok_sent [OF sring_ok_data [OF s room, of x], of x] room i by simp
  moreover have "consumer_knows ?s k c (cs c)" for c
    using consumer_knows_sent [OF consumer_knows_data [OF single_okD(3) [OF ok, of c], of ?d], of x "sr_wt s + 1"] by simp
  ultimately show ?thesis using r by (simp add: single_ok_def)
qed

lemma send_many_run:
  assumes "single_ok k (Sent r, cs, s)" and "length (sr_sent s) + n \<le> length (sr_taken s) + 255"
  shows "\<exists>r' s'. single_run k (concat (replicate n (send_one x))) (Sent r, cs, s) = (Sent r', cs, s')
    \<and> sr_sent s' = sr_sent s @ replicate n x \<and> sr_taken s' = sr_taken s \<and> sr_wt s' = sr_wt s + of_nat n \<and> single_ok k (Sent r', cs, s')"
  using assms
proof (induction n arbitrary: r s)
  case 0
  then show ?case by (simp add: single_run_def)
next
  case (Suc n)
  obtain s1 where s1: "single_run k (send_one x) (Sent r, cs, s) = (Sent True, cs, s1)" "sr_sent s1 = sr_sent s @ [x]"
      "sr_taken s1 = sr_taken s" "sr_wt s1 = sr_wt s + 1" "single_ok k (Sent True, cs, s1)"
    using send_one_run [OF Suc.prems(1), of x] Suc.prems(2) by auto
  moreover obtain r' s' where "single_run k (concat (replicate n (send_one x))) (Sent True, cs, s1) = (Sent r', cs, s')"
      "sr_sent s' = sr_sent s1 @ replicate n x" "sr_taken s' = sr_taken s1" "sr_wt s' = sr_wt s1 + of_nat n" "single_ok k (Sent r', cs, s')"
    using Suc.IH [OF s1(5)] Suc.prems(2) s1(2,3) by auto
  ultimately show ?case by (auto simp: single_run_def)
qed

definition slow_consumer :: "char sevent list" where
  "slow_consumer = send_one CHR ''a'' @ [Receive 1, Consume 1 False] @ Receive 2 # replicate 4 (Consume 2 False)
     @ concat (replicate 255 (send_one CHR ''b''))"

theorem many_pop_misses_full_ring:
  "\<exists>p cs s. single_run Many_Consumers slow_consumer (single_start CHR ''0'') = (p, cs, s)
     \<and> length (sr_sent s) = length (sr_taken s) + 255 \<and> fst (many_pop False (cs 1) s) = Got None"
proof -
  let ?evs = "send_one CHR ''a'' @ [Receive 1, Consume 1 False] @ Receive 2 # replicate 4 (Consume 2 False)"
  obtain p cs s where r: "single_run Many_Consumers ?evs (single_start CHR ''0'') = (p, cs, s)" by (metis prod_cases3)
  have "(\<lambda>(p, cs, s). (p, cs 1, sr_sent s, sr_taken s, sr_wt s)) (single_run Many_Consumers ?evs (single_start CHR ''0''))
    = (Sent True, ManyWt 0, ''a'', ''a'', 1)"
    by code_simp
  then have v: "p = Sent True" "cs 1 = ManyWt 0" "sr_sent s = ''a''" "sr_taken s = ''a''" "sr_wt s = 1" using r by simp_all
  have "single_ok Many_Consumers (Sent True, cs, s)" using single_reachable [OF r] v by simp
  from send_many_run [OF this, of 255 "CHR ''b''"] v obtain r' s' where
    m: "single_run Many_Consumers (concat (replicate 255 (send_one CHR ''b''))) (Sent True, cs, s) = (Sent r', cs, s')"
      "length (sr_sent s') = 256" "sr_taken s' = ''a''" "sr_wt s' = 256" by auto
  have "single_run Many_Consumers slow_consumer (single_start CHR ''0'') = (Sent r', cs, s')"
    using r m(1) v(1) by (simp add: slow_consumer_def single_run_def)
  then show ?thesis using m(2-4) v(2) by (auto simp: index_of_def)
qed

section \<open>Only one producer\<close>

text \<open>
  The queues of the processes (\<^verbatim>\<open>queue.h\<close>) and the check of the senders (\<^verbatim>\<open>circ/elem_array.h\<close>): an atomic flag in
  the shared memory that the first sender sets, and in each queue a flag that its process may send.
\<close>

definition sender_connect :: "bool \<Rightarrow> bool \<times> bool" where
  "sender_connect taken = (\<not> taken, True)"

definition single_ready_sending :: "bool \<Rightarrow> bool \<Rightarrow> bool \<times> bool \<times> bool" where
  "single_ready_sending sender_flag taken =
     (if sender_flag then (True, sender_flag, taken)
      else let (ok, taken') = sender_connect taken in (ok, ok, taken'))"

definition single_shut_sending :: "bool \<Rightarrow> bool \<Rightarrow> bool" where
  "single_shut_sending sender_flag taken = (if sender_flag then False else taken)"

datatype sender_event = Ready nat | Shut nat

fun sender_do :: "sender_event \<Rightarrow> bool list \<times> bool \<Rightarrow> bool list \<times> bool" where
  "sender_do (Ready t) (fs, taken) =
     (if t < length fs then let (ok, f, taken') = single_ready_sending (fs ! t) taken in (fs[t := f], taken') else (fs, taken))"
| "sender_do (Shut t) (fs, taken) = (if t < length fs then (fs, single_shut_sending (fs ! t) taken) else (fs, taken))"

definition sender_run :: "sender_event list \<Rightarrow> bool list \<times> bool \<Rightarrow> bool list \<times> bool" where
  "sender_run evs = fold sender_do evs"

fun is_ready :: "sender_event \<Rightarrow> bool" where
  "is_ready (Ready t) = True"
| "is_ready (Shut t) = False"

lemma sender_do_count:
  assumes "cnt (\<lambda>f. f) fs = of_bool taken" and "is_ready e" and "sender_do e (fs, taken) = (fs', taken')"
  shows "cnt (\<lambda>f. f) fs' = of_bool taken'"
proof -
  obtain t where e: "e = Ready t" using assms(2) by (cases e) auto
  show ?thesis
    using assms(1,3) cnt_upd [of t fs "\<lambda>f. f"] e by (auto simp: single_ready_sending_def sender_connect_def split: if_splits)
qed

lemma sender_run_count:
  assumes "cnt (\<lambda>f. f) fs = of_bool taken" and "list_all is_ready evs" and "sender_run evs (fs, taken) = (fs', taken')"
  shows "cnt (\<lambda>f. f) fs' = of_bool taken'"
  using assms
proof (induction evs arbitrary: fs taken)
  case (Cons e evs)
  obtain fs1 taken1 where "sender_do e (fs, taken) = (fs1, taken1)" by fastforce
  then show ?case using Cons.IH [of fs1 taken1] Cons.prems sender_do_count [of fs taken e fs1 taken1] by (simp add: sender_run_def)
qed (simp add: sender_run_def)

text \<open>At most one process may send, as long as none stops sending.\<close>

theorem one_sender:
  assumes "sender_run evs (replicate n False, False) = (fs, taken)" and "list_all is_ready evs"
  shows "cnt (\<lambda>f. f) fs \<le> 1"
  using sender_run_count [OF _ assms(2,1)] by (simp add: cnt_def)

theorem one_sender_witness:
  "sender_run [Ready 1, Ready 0, Ready 1] (replicate 2 False, False) = ([False, True], True) \<and> cnt (\<lambda>f. f) [False, True] \<le> 1"
proof -
  have r: "sender_run [Ready 1, Ready 0, Ready 1] (replicate 2 False, False) = ([False, True], True)" by code_simp
  then show ?thesis using one_sender [OF r] by simp
qed

text \<open>A queue that stops sending gives the shared flag back but keeps its own, so it may go on sending beside the next sender.\<close>

theorem two_senders_after_shut:
  "sender_run [Ready 0, Shut 0, Ready 1] (replicate 2 False, False) = ([True, True], True)
   \<and> fst (single_ready_sending True True)"
  by code_simp

end
