(* ===== verification/Conn_Bits.thy ===== *)
theory Conn_Bits
  imports Prelude
begin

text \<open>
  The connections of a broadcast channel, \<^verbatim>\<open>common/shm-ipc/src/libipc/circ/elem_def.h\<close>
  (\<open>conn_head<P, true>\<close>): a word with one bit per receiver. A receiver connects by a
  compare-and-exchange that sets the first bit that is clear, and is known by that bit; it
  disconnects by an atomic \<open>and\<close>. The model interleaves the accesses of any number of receivers.
\<close>

unbundle bit_operations_syntax

section \<open>The operations\<close>

definition next_cc :: "u32 \<Rightarrow> u32" where
  "next_cc cur = cur OR (cur + 1)"

text \<open>Where a receiver stands in \<open>connect\<close>; \<open>Joined 0\<close> is a receiver that found no free bit.\<close>

datatype join_pc = Away | JoinLoad | JoinCas u32 | Joined u32

fun bits_connect :: "bool \<Rightarrow> join_pc \<Rightarrow> u32 \<Rightarrow> join_pc \<times> u32" where
  "bits_connect weak JoinLoad cc = (if next_cc cc = 0 then Joined 0 else JoinCas cc, cc)"
| "bits_connect weak (JoinCas cur) cc =
     (if cc = cur \<and> \<not> weak then (Joined (next_cc cur XOR cur), next_cc cur) else (JoinLoad, cc))"
| "bits_connect weak p cc = (p, cc)"

definition bits_disconnect :: "u32 \<Rightarrow> u32 \<Rightarrow> u32" where
  "bits_disconnect cc_id cc = cc AND NOT cc_id"

section \<open>The first clear bit and the last set bit\<close>

lemma bit_u32: "bit (c :: u32) n \<Longrightarrow> n < 32"
  by (drule bit_imp_le_length) simp

lemma bit_power [simp]: "bit (2 ^ i :: u32) n \<longleftrightarrow> n = i \<and> i < 32"
  by (auto simp: bit_exp_iff)

lemma power_eq_iff [simp]: "i < 32 \<Longrightarrow> (2 ^ i :: u32) = 2 ^ j \<longleftrightarrow> i = j"
  by (metis bit_power)

lemma power_nonzero [simp]: "i < 32 \<Longrightarrow> (2 ^ i :: u32) \<noteq> 0" "i < 32 \<Longrightarrow> 0 \<noteq> (2 ^ i :: u32)"
  by (metis bit_0_eq bit_power bot_apply bot_bool_def)+

lemma split_ones:
  assumes "\<And>j. j < i \<Longrightarrow> bit c j"
  shows "(c :: u32) = (c AND NOT (mask i)) + mask i"
proof -
  have "(c AND NOT (mask i)) + mask i = (c AND NOT (mask i)) OR mask i"
    by (rule disjunctive_add_eq_or) (simp add: bit_eq_iff bit_simps)
  also have "\<dots> = c" by (rule bit_word_eqI) (use assms in \<open>auto simp: bit_simps\<close>)
  finally show ?thesis by simp
qed

lemma mask_succ: "mask i + 1 = (2 ^ i :: u32)"
  by (simp add: mask_eq_exp_minus_1)

text \<open>The bit that \<open>cur | (cur + 1)\<close> adds.\<close>

lemma next_cc_bit:
  assumes "i < 32" and "\<not> bit c i" and ones: "\<forall>j < i. bit c j"
  shows "next_cc c = c OR 2 ^ i" and "next_cc c XOR c = 2 ^ i"
proof -
  have "c + 1 = (c AND NOT (mask i)) + 2 ^ i"
    using split_ones [of i c] ones by (metis add.assoc mask_succ)
  also have "\<dots> = (c AND NOT (mask i)) OR 2 ^ i"
    by (rule disjunctive_add_eq_or, rule bit_word_eqI) (use assms(2) in \<open>auto simp: bit_simps\<close>)
  finally have e: "c + 1 = (c AND NOT (mask i)) OR 2 ^ i" .
  show n: "next_cc c = c OR 2 ^ i" unfolding next_cc_def e by (rule bit_word_eqI) (auto simp: bit_simps)
  show "next_cc c XOR c = 2 ^ i" unfolding n by (rule bit_word_eqI) (use assms(1,2) in \<open>auto simp: bit_simps\<close>)
qed

lemma first_clear:
  assumes "(c :: u32) \<noteq> - 1"
  obtains i where "i < 32" "\<not> bit c i" "\<forall>j < i. bit c j"
proof -
  have "\<exists>i. i < 32 \<and> \<not> bit c i"
  proof (rule ccontr)
    assume "\<not> ?thesis"
    then have "c = - 1" by (intro bit_word_eqI) simp
    then show False using assms by simp
  qed
  then obtain i where "i < 32 \<and> \<not> bit c i" "\<And>j. j < i \<Longrightarrow> \<not> (j < 32 \<and> \<not> bit c j)"
    using exists_least_iff [of "\<lambda>i. i < 32 \<and> \<not> bit c i"] by blast
  then show ?thesis using that [of i] by auto
qed

text \<open>With all 32 bits set \<open>cur + 1\<close> wraps to zero, \<open>next\<close> is \<open>cur\<close> and the identifier is zero; the test for a full word never fires.\<close>

lemma next_cc_full [simp]: "next_cc (- 1) = - 1" "next_cc c \<noteq> 0"
proof -
  show "next_cc (- 1) = - 1" by (simp add: next_cc_def)
  show "next_cc c \<noteq> 0"
  proof (cases "c = - 1")
    case False
    then obtain i where i: "i < 32" "\<not> bit c i" "\<forall>j < i. bit c j" by (rule first_clear)
    have "bit (next_cc c) i" using i(1) by (simp add: next_cc_bit(1) [OF i] bit_simps)
    then show ?thesis by auto
  qed (simp add: next_cc_def)
qed


text \<open>\<open>conn_count\<close> clears the last set bit until none is left.\<close>

lemma clear_last:
  assumes "i < 32" and "bit c i" and zeros: "\<forall>j < i. \<not> bit c j"
  shows "(c :: u32) AND (c - 1) = c AND NOT (2 ^ i)"
proof -
  have "c = (c AND NOT (mask (Suc i))) OR 2 ^ i"
    by (rule bit_word_eqI) (use assms in \<open>auto simp: bit_simps less_Suc_eq\<close>)
  also have "\<dots> = (c AND NOT (mask (Suc i))) + 2 ^ i"
    by (rule disjunctive_add_eq_or [symmetric], rule bit_word_eqI) (auto simp: bit_simps)
  finally have "c - 1 = (c AND NOT (mask (Suc i))) + 2 ^ i - 1" by (rule arg_cong [where f = "\<lambda>x. x - 1"])
  also have "\<dots> = (c AND NOT (mask (Suc i))) + mask i" by (simp only: add_diff_eq mask_eq_exp_minus_1)
  also have "\<dots> = (c AND NOT (mask (Suc i))) OR mask i"
    by (rule disjunctive_add_eq_or, rule bit_word_eqI) (auto simp: bit_simps)
  finally have e: "c - 1 = (c AND NOT (mask (Suc i))) OR mask i" .
  show ?thesis unfolding e by (rule bit_word_eqI) (use zeros in \<open>auto simp: bit_simps less_Suc_eq\<close>)
qed

lemma last_set:
  assumes "(c :: u32) \<noteq> 0"
  obtains i where "i < 32" "bit c i" "\<forall>j < i. \<not> bit c j"
proof -
  have "\<exists>i. bit c i" using assms by (metis bit_0_eq bit_eqI bot_apply bot_bool_def)
  then obtain i where "bit c i" "\<forall>j < i. \<not> bit c j" using exists_least_iff [of "bit c"] by blast
  then show ?thesis using that [of i] bit_imp_le_length [of c i] by simp
qed

definition bits_of :: "u32 \<Rightarrow> nat set" where
  "bits_of c = {n. bit c n}"

lemma bits_of_finite [simp, intro]: "finite (bits_of c)"
  by (rule finite_subset [of _ "{..<32}"]) (auto simp: bits_of_def dest: bit_u32)

lemma bits_of_0 [simp]: "bits_of 0 = {}"
  by (simp add: bits_of_def)

lemma bits_clear_last:
  assumes "c \<noteq> 0"
  shows "card (bits_of c) = Suc (card (bits_of (c AND (c - 1))))"
proof -
  obtain i where i: "i < 32" "bit c i" "\<forall>j < i. \<not> bit c j" using assms by (rule last_set)
  have "bits_of (c AND (c - 1)) = bits_of c - {i}"
    unfolding clear_last [OF i] bits_of_def using i(1) by (auto simp: bit_simps dest: bit_u32)
  moreover have "i \<in> bits_of c" using i(2) by (simp add: bits_of_def)
  ultimately show ?thesis using card.remove [of "bits_of c" i] by simp
qed

function count_loop :: "u32 \<Rightarrow> u32 \<Rightarrow> u32" where
  "count_loop k cur = (if cur = 0 then k else count_loop (k + 1) (cur AND (cur - 1)))"
  by pat_completeness auto

termination count_loop
  by (relation "measure (\<lambda>(k, cur). card (bits_of cur))") (auto dest: bits_clear_last)

definition bits_conn_count :: "u32 \<Rightarrow> nat" where
  "bits_conn_count cc = unat (count_loop 0 cc)"

declare count_loop.simps [simp del]

lemma count_loop_card: "count_loop k cur = k + of_nat (card (bits_of cur))"
proof (induction k cur rule: count_loop.induct)
  case (1 k cur)
  then show ?case using bits_clear_last [of cur] by (subst count_loop.simps) simp
qed

lemma conn_count_card: "bits_conn_count cc = card (bits_of cc)"
proof -
  have "card (bits_of cc) \<le> card {..<32 :: nat}"
    by (rule card_mono) (auto simp: bits_of_def dest: bit_u32)
  then show ?thesis by (simp add: bits_conn_count_def count_loop_card unat_of_nat)
qed

section \<open>Receivers that connect and disconnect at the same time\<close>

datatype join_event = Join nat | JoinStep nat bool | Leave nat

type_synonym joins = "(nat \<Rightarrow> join_pc) \<times> u32"

fun join_do :: "join_event \<Rightarrow> joins \<Rightarrow> joins" where
  "join_do (Join t) (th, cc) = (case th t of Away \<Rightarrow> (th(t := JoinLoad), cc) | _ \<Rightarrow> (th, cc))"
| "join_do (JoinStep t weak) (th, cc) = (let (p, cc') = bits_connect weak (th t) cc in (th(t := p), cc'))"
| "join_do (Leave t) (th, cc) =
     (case th t of Joined cc_id \<Rightarrow> (th(t := Away), if cc_id = 0 then cc else bits_disconnect cc_id cc) | _ \<Rightarrow> (th, cc))"

definition join_run :: "join_event list \<Rightarrow> joins" where
  "join_run evs = fold join_do evs (\<lambda>t. Away, 0)"

text \<open>Who holds a bit.\<close>

definition holder :: "(nat \<Rightarrow> join_pc) \<Rightarrow> nat \<Rightarrow> nat \<Rightarrow> bool" where
  "holder th i t \<longleftrightarrow> i < 32 \<and> th t = Joined (2 ^ i)"

definition joins_ok :: "joins \<Rightarrow> bool" where
  "joins_ok = (\<lambda>(th, cc). (\<forall>t cc_id. th t = Joined cc_id \<longrightarrow> cc_id = 0 \<or> (\<exists>i < 32. cc_id = 2 ^ i))
     \<and> (\<forall>i. bit cc i \<longleftrightarrow> (\<exists>t. holder th i t)) \<and> (\<forall>i t u. holder th i t \<longrightarrow> holder th i u \<longrightarrow> t = u))"

lemma joins_ok_local:
  assumes "joins_ok (th, cc)" and "\<And>i. \<not> holder th i t" and "\<And>c. p = Joined c \<Longrightarrow> c = 0"
  shows "joins_ok (th(t := p), cc)"
proof -
  have "holder (th(t := p)) i u \<longleftrightarrow> holder th i u" for i u
    using assms(2) [of i] assms(3) by (cases "u = t") (auto simp: holder_def)
  then show ?thesis using assms(1,3) by (auto simp: joins_ok_def)
qed

lemma joins_ok_connect:
  assumes ok: "joins_ok (th, cc)" and "\<And>i. \<not> holder th i t"
  shows "joins_ok (th(t := Joined (next_cc cc XOR cc)), next_cc cc)"
proof (cases "cc = - 1")
  case False
  then obtain i where i: "i < 32" "\<not> bit cc i" "\<forall>j < i. bit cc j" by (rule first_clear)
  have h: "holder (th(t := Joined (2 ^ i))) j u \<longleftrightarrow> (j = i \<and> u = t) \<or> holder th j u" for j u
    using i(1) assms(2) [of j] by (auto simp: holder_def)
  have "\<not> holder th i u" for u using ok i(2) by (auto simp: joins_ok_def)
  then show ?thesis
    using ok i(1) unfolding next_cc_bit(2) [OF i] unfolding next_cc_bit(1) [OF i] joins_ok_def prod.case h by (auto simp: bit_simps)
qed (use joins_ok_local [OF assms, of "Joined 0"] in simp)

lemma joins_ok_leave:
  assumes ok: "joins_ok (th, cc)" and "holder th i t"
  shows "joins_ok (th(t := Away), bits_disconnect (2 ^ i) cc)"
proof -
  have h: "holder (th(t := Away)) j u \<longleftrightarrow> j \<noteq> i \<and> holder th j u" for j u
    using ok assms(2) unfolding joins_ok_def by (auto simp: holder_def)
  have "bit (bits_disconnect (2 ^ i) cc) j \<longleftrightarrow> j \<noteq> i \<and> bit cc j" for j
    using assms(2) by (auto simp: bits_disconnect_def holder_def bit_simps dest: bit_u32)
  then show ?thesis using ok unfolding joins_ok_def prod.case h by (auto split: if_splits)
qed

lemma joins_ok_event:
  assumes "joins_ok ts"
  shows "joins_ok (join_do e ts)"
proof -
  obtain th cc where ts: "ts = (th, cc)" by fastforce
  note ok = assms [unfolded ts]
  show ?thesis
  proof (cases e)
    case (Join t)
    then show ?thesis using ok joins_ok_local [OF ok, of t JoinLoad] by (auto simp: ts holder_def split: join_pc.splits)
  next
    case (JoinStep t weak)
    show ?thesis
      by (cases "th t") (use JoinStep ok joins_ok_local [OF ok, of t] joins_ok_connect [OF ok, of t] in
        \<open>auto simp: ts holder_def fun_upd_idem\<close>)
  next
    case (Leave t)
    show ?thesis
    proof (cases "th t")
      case (Joined c)
      then consider "c = 0" | i where "c = 2 ^ i" "holder th i t" using ok by (auto simp: joins_ok_def holder_def)
      then show ?thesis
      proof cases
        case 1
        then show ?thesis using Leave Joined joins_ok_local [OF ok, of t Away] by (auto simp: ts holder_def)
      next
        case 2
        then have "c \<noteq> 0" by (auto simp: holder_def)
        then show ?thesis using 2 Leave Joined joins_ok_leave [OF ok 2(2)] by (simp add: ts)
      qed
    qed (use Leave ok ts in auto)
  qed
qed

lemma join_reachable: "joins_ok (join_run evs)"
proof (induction evs rule: rev_induct)
  case Nil
  show ?case by (simp add: join_run_def joins_ok_def holder_def)
next
  case (snoc e evs)
  then show ?case using joins_ok_event [of "join_run evs" e] by (simp add: join_run_def)
qed

definition connected_now :: "(nat \<Rightarrow> join_pc) \<Rightarrow> nat set" where
  "connected_now th = {t. \<exists>c. th t = Joined c \<and> c \<noteq> 0}"

lemma holder_ex: "joins_ok (th, cc) \<Longrightarrow> th t = Joined c \<Longrightarrow> c \<noteq> 0 \<Longrightarrow> \<exists>i. holder th i t \<and> c = 2 ^ i"
  unfolding joins_ok_def holder_def by fastforce

lemma holder_bit: "holder th i t \<Longrightarrow> holder th j t \<Longrightarrow> i = j"
  by (simp add: holder_def)

lemma connected_holds: "joins_ok (th, cc) \<Longrightarrow> t \<in> connected_now th \<longleftrightarrow> (\<exists>i. holder th i t)"
  using holder_ex [of th cc t] unfolding connected_now_def by (auto simp: holder_def)

lemma card_connected:
  assumes ok: "joins_ok (th, cc)"
  shows "card (connected_now th) = card (bits_of cc)"
proof -
  have ex: "\<exists>t. holder th i t" if "i \<in> bits_of cc" for i using ok that by (simp add: joins_ok_def bits_of_def)
  define g where "g i = (SOME t. holder th i t)" for i
  have g: "holder th i (g i)" if "i \<in> bits_of cc" for i using someI_ex [OF ex [OF that]] by (simp add: g_def)
  have "inj_on g (bits_of cc)" by (rule inj_onI) (metis g holder_bit)
  moreover have "g ` bits_of cc = connected_now th"
  proof (intro set_eqI iffI)
    show "t \<in> connected_now th" if "t \<in> g ` bits_of cc" for t using that g connected_holds [OF ok] by auto
    show "t \<in> g ` bits_of cc" if c: "t \<in> connected_now th" for t
    proof -
      obtain i where i: "holder th i t" using c connected_holds [OF ok] by auto
      then have b: "i \<in> bits_of cc" using ok by (auto simp: joins_ok_def bits_of_def)
      moreover have "g i = t" using g [OF b] i ok unfolding joins_ok_def by blast
      ultimately show ?thesis by blast
    qed
  qed
  ultimately show ?thesis using card_image [of g "bits_of cc"] by simp
qed

lemma all_bits_set: "card (bits_of c) = 32 \<longleftrightarrow> c = - 1"
proof
  assume "card (bits_of c) = 32"
  moreover have "bits_of c \<subseteq> {..<32}" by (auto simp: bits_of_def dest: bit_u32)
  ultimately have "bits_of c = {..<32}" by (intro card_subset_eq) simp_all
  then show "c = - 1" by (intro bit_word_eqI) (auto simp: bits_of_def set_eq_iff)
next
  have "bits_of (- 1) = {..<32}" by (auto simp: bits_of_def)
  then show "c = - 1 \<Longrightarrow> card (bits_of c) = 32" by simp
qed

text \<open>
  Whatever the interleaving, two connected receivers have different bits, \<open>conn_count\<close> is the number
  of connected receivers, and a receiver whose exchange succeeds is turned away exactly when 32 are connected.
\<close>

theorem connected_receivers_exact:
  assumes "join_run evs = (th, cc)"
  shows "bits_conn_count cc = card (connected_now th)
    \<and> (\<forall>a b. th t = Joined a \<and> th u = Joined b \<and> t \<noteq> u \<longrightarrow> a AND b = 0)
    \<and> (th t = JoinCas cc \<longrightarrow> (fst (bits_connect False (th t) cc) = Joined 0 \<longleftrightarrow> card (connected_now th) = 32))"
proof -
  have ok: "joins_ok (th, cc)" using join_reachable [of evs] assms by simp
  have "a AND b = 0" if j: "th t = Joined a" "th u = Joined b" "t \<noteq> u" for a b
  proof (cases "a = 0 \<or> b = 0")
    case False
    then obtain i j where i: "holder th i t" "a = 2 ^ i" "holder th j u" "b = 2 ^ j"
      using holder_ex [OF ok j(1)] holder_ex [OF ok j(2)] by auto
    then have "i \<noteq> j" using ok j(3) by (auto simp: joins_ok_def)
    then show ?thesis unfolding i(2,4) by (intro bit_word_eqI) (simp add: bit_simps)
  qed auto
  moreover have "next_cc cc XOR cc = 0 \<longleftrightarrow> cc = - 1"
  proof (cases "cc = - 1")
    case False
    then obtain i where "i < 32" "\<not> bit cc i" "\<forall>j < i. bit cc j" by (rule first_clear)
    then show ?thesis using next_cc_bit(2) [of i cc] False by simp
  qed simp
  ultimately show ?thesis
    using card_connected [OF ok] all_bits_set [of cc] by (auto simp: conn_count_card)
qed

definition three_join :: "join_event list" where
  "three_join = [Join 0, JoinStep 0 False, Join 1, JoinStep 1 False, JoinStep 1 False, JoinStep 0 False, JoinStep 0 False,
     JoinStep 0 False, Join 2, JoinStep 2 False, JoinStep 2 False, Leave 1]"

theorem connected_receivers_exact_witness:
  "bits_conn_count 6 = card (connected_now (fst (join_run three_join))) \<and> bits_conn_count 6 = 2 \<and> (2 AND 4 :: u32) = 0"
proof -
  obtain th cc where r: "join_run three_join = (th, cc)" by fastforce
  have "(\<lambda>(th, cc). (th 0, th 1, th 2, cc)) (join_run three_join) = (Joined 2, Away, Joined 4, 6)" by code_simp
  then have v: "cc = 6" "th 0 = Joined 2" "th 2 = Joined 4" using r by simp_all
  have "bits_conn_count 6 = 2" by (simp add: bits_conn_count_def count_loop.simps)
  moreover have "bits_conn_count cc = card (connected_now th)" "(2 AND 4 :: u32) = 0"
    using connected_receivers_exact [OF r, of 0 2] v by auto
  ultimately show ?thesis using r v(1) by simp
qed

end
