(* ===== verification/Ring_Broadcast.thy ===== *)
theory Ring_Broadcast
  imports Ring_Single Conn_Bits
begin

text \<open>
  The ring buffer of a broadcast channel with one producer, \<^verbatim>\<open>common/shm-ipc/src/libipc/prod_cons.h\<close>,
  with the receivers of \<^verbatim>\<open>common/shm-ipc/src/libipc/queue.h\<close>. Every receiver has a cursor of its own and a
  bit in the word of the connections; every slot has a read counter whose low half holds the bits
  of the receivers that have still to read it and whose high half holds the epoch in which it was
  written. The producer writes a slot when no connected receiver has still to read it; when it has
  waited too long it starts a new epoch and disconnects the receivers that hold it up.

  As in the other rings, one step is one access to the shared memory and accesses are sequentially
  consistent. The list of what was sent, and per receiver of what it read and since when, are
  auxiliary: no step reads them.
\<close>

section \<open>The producer\<close>

record 'a bring =
  br_cc :: u32
  br_wt :: u32
  br_epoch :: u64
  br_data :: "u8 \<Rightarrow> 'a"
  br_rc :: "u8 \<Rightarrow> u64"
  br_sent :: "'a list"

definition bring_init :: "'a \<Rightarrow> 'a bring" where
  "bring_init zero = \<lparr>br_cc = 0, br_wt = 0, br_epoch = 0, br_data = (\<lambda>i. zero), br_rc = (\<lambda>i. 0), br_sent = []\<rparr>"

definition ep_mask :: u64 where
  "ep_mask = 0xffffffff"

definition ep_incr :: u64 where
  "ep_incr = 0x100000000"

text \<open>The receivers that have still to read a slot.\<close>

definition rem_cc :: "u64 \<Rightarrow> u32" where
  "rem_cc cur_rc = ucast (cur_rc AND ep_mask)"

text \<open>The places of the producer in \<open>push\<close> and, with an \<open>F\<close>, in \<open>force_push\<close>.\<close>

datatype 'a bprod =
    BSent bool
  | BConn 'a | BSlot 'a u32 | BCount 'a u32 u8 | BClaim 'a u32 u8 u64
  | BBegin 'a u8 | BData 'a u8 | BAdd 'a
  | FEpoch 'a | FConn 'a | FSlot 'a u32 | FCount 'a u32 u8 | FDrop 'a u8 u64 | FClaim 'a u32 u8 u64

fun broadcast_push :: "bool \<Rightarrow> 'a \<Rightarrow> 'a bprod \<Rightarrow> 'a bring \<Rightarrow> 'a bprod \<times> 'a bring" where
  "broadcast_push weak torn (BConn x) s = (if br_cc s = 0 then BSent False else BSlot x (br_cc s), s)"
| "broadcast_push weak torn (BSlot x cc) s = (BCount x cc (index_of (br_wt s)), s)"
| "broadcast_push weak torn (BCount x cc i) s =
     (let cur_rc = br_rc s i
      in if cc AND rem_cc cur_rc \<noteq> 0 \<and> cur_rc AND NOT ep_mask = br_epoch s then BSent False else BClaim x cc i cur_rc, s)"
| "broadcast_push weak torn (BClaim x cc i cur_rc) s =
     (if br_rc s i = cur_rc \<and> \<not> weak
      then (BBegin x i, s\<lparr>br_rc := (br_rc s)(i := br_epoch s OR ucast cc)\<rparr>) else (BConn x, s))"
| "broadcast_push weak torn (BBegin x i) s = (BData x i, s\<lparr>br_data := (br_data s)(i := torn)\<rparr>)"
| "broadcast_push weak torn (BData x i) s = (BAdd x, s\<lparr>br_data := (br_data s)(i := x)\<rparr>)"
| "broadcast_push weak torn (BAdd x) s = (BSent True, s\<lparr>br_wt := br_wt s + 1, br_sent := br_sent s @ [x]\<rparr>)"
| "broadcast_push weak torn p s = (p, s)"

fun broadcast_force_push :: "bool \<Rightarrow> 'a bprod \<Rightarrow> 'a bring \<Rightarrow> 'a bprod \<times> 'a bring" where
  "broadcast_force_push weak (FEpoch x) s = (FConn x, s\<lparr>br_epoch := br_epoch s + ep_incr\<rparr>)"
| "broadcast_force_push weak (FConn x) s = (if br_cc s = 0 then BSent False else FSlot x (br_cc s), s)"
| "broadcast_force_push weak (FSlot x cc) s = (FCount x cc (index_of (br_wt s)), s)"
| "broadcast_force_push weak (FCount x cc i) s =
     (let cur_rc = br_rc s i in if cc AND rem_cc cur_rc \<noteq> 0 then FDrop x i cur_rc else FClaim x cc i cur_rc, s)"
| "broadcast_force_push weak (FDrop x i cur_rc) s =
     (let cc = bits_disconnect (rem_cc cur_rc) (br_cc s)
      in (if cc = 0 then BSent False else FClaim x cc i cur_rc, s\<lparr>br_cc := cc\<rparr>))"
| "broadcast_force_push weak (FClaim x cc i cur_rc) s =
     (if br_rc s i = cur_rc \<and> \<not> weak
      then (BBegin x i, s\<lparr>br_rc := (br_rc s)(i := br_epoch s OR ucast cc)\<rparr>) else (FConn x, s))"
| "broadcast_force_push weak p s = (p, s)"

fun in_force :: "'a bprod \<Rightarrow> bool" where
  "in_force (FEpoch x) = True"
| "in_force (FConn x) = True"
| "in_force (FSlot x cc) = True"
| "in_force (FCount x cc i) = True"
| "in_force (FDrop x i c) = True"
| "in_force (FClaim x cc i c) = True"
| "in_force p = False"

definition producer_step :: "bool \<Rightarrow> 'a \<Rightarrow> 'a bprod \<Rightarrow> 'a bring \<Rightarrow> 'a bprod \<times> 'a bring" where
  "producer_step weak torn p s = (if in_force p then broadcast_force_push weak p s else broadcast_push weak torn p s)"

section \<open>The receivers\<close>

text \<open>The places of a receiver: in \<open>connect\<close> up to the cursor, and in \<open>pop\<close>.\<close>

datatype 'a bread_pc = RIdle "'a option" | RJoin join_pc | RCursor | RWt | RRead u8 | RCount u8 'a | RClaim u8 u64 'a

record 'a breader =
  rd_id :: u32
  rd_cur :: u32
  rd_pc :: "'a bread_pc"
  rd_from :: nat
  rd_got :: "'a list"

definition breader_init :: "'a breader" where
  "breader_init = \<lparr>rd_id = 0, rd_cur = 0, rd_pc = RIdle None, rd_from = 0, rd_got = []\<rparr>"

text \<open>\<open>queue_conn::connect\<close>: the bit first, then the cursor; without a bit the cursor is not used.\<close>

fun joined_step :: "'a breader \<Rightarrow> join_pc \<Rightarrow> 'a breader" where
  "joined_step r (Joined c) = r\<lparr>rd_id := c, rd_pc := (if c = 0 then RIdle None else RCursor)\<rparr>"
| "joined_step r p = r\<lparr>rd_pc := RJoin p\<rparr>"

fun reader_connect :: "bool \<Rightarrow> 'a bread_pc \<Rightarrow> 'a breader \<Rightarrow> 'a bring \<Rightarrow> 'a breader \<times> 'a bring" where
  "reader_connect weak (RJoin p) r s = (let (p', cc) = bits_connect weak p (br_cc s) in (joined_step r p', s\<lparr>br_cc := cc\<rparr>))"
| "reader_connect weak RCursor r s =
     (r\<lparr>rd_cur := br_wt s, rd_pc := RIdle None, rd_from := length (br_sent s), rd_got := []\<rparr>, s)"
| "reader_connect weak p r s = (r, s)"

fun broadcast_pop :: "bool \<Rightarrow> 'a bread_pc \<Rightarrow> 'a breader \<Rightarrow> 'a bring \<Rightarrow> 'a breader \<times> 'a bring" where
  "broadcast_pop weak RWt r s =
     (if rd_cur r = br_wt s then r\<lparr>rd_pc := RIdle None\<rparr>
      else r\<lparr>rd_pc := RRead (index_of (rd_cur r)), rd_cur := rd_cur r + 1\<rparr>, s)"
| "broadcast_pop weak (RRead i) r s = (r\<lparr>rd_pc := RCount i (br_data s i), rd_got := rd_got r @ [br_data s i]\<rparr>, s)"
| "broadcast_pop weak (RCount i x) r s =
     (r\<lparr>rd_pc := (if rem_cc (br_rc s i) = 0 then RIdle (Some x) else RClaim i (br_rc s i) x)\<rparr>, s)"
| "broadcast_pop weak (RClaim i cur_rc x) r s =
     (if br_rc s i = cur_rc \<and> \<not> weak
      then (r\<lparr>rd_pc := RIdle (Some x)\<rparr>, s\<lparr>br_rc := (br_rc s)(i := cur_rc AND NOT (ucast (rd_id r)))\<rparr>)
      else (r\<lparr>rd_pc := RCount i x\<rparr>, s))"
| "broadcast_pop weak p r s = (r, s)"

fun in_connect :: "'a bread_pc \<Rightarrow> bool" where
  "in_connect (RJoin p) = True"
| "in_connect RCursor = True"
| "in_connect p = False"

definition reader_step :: "bool \<Rightarrow> 'a breader \<Rightarrow> 'a bring \<Rightarrow> 'a breader \<times> 'a bring" where
  "reader_step weak r s = (if in_connect (rd_pc r) then reader_connect weak (rd_pc r) r s else broadcast_pop weak (rd_pc r) r s)"

text \<open>Starting \<open>connect\<close> and \<open>pop\<close>, and the whole of \<open>disconnect\<close>, which is one access.\<close>

datatype reader_call = Call_Connect | Call_Pop | Call_Disconnect

fun reader_begin :: "reader_call \<Rightarrow> 'a breader \<Rightarrow> 'a bring \<Rightarrow> 'a breader \<times> 'a bring" where
  "reader_begin Call_Connect r s = (if rd_id r = 0 then r\<lparr>rd_pc := RJoin JoinLoad\<rparr> else r, s)"
| "reader_begin Call_Pop r s = (if rd_id r = 0 then r else r\<lparr>rd_pc := RWt\<rparr>, s)"
| "reader_begin Call_Disconnect r s =
     (if rd_id r = 0 then (r, s) else (r\<lparr>rd_id := 0\<rparr>, s\<lparr>br_cc := bits_disconnect (rd_id r) (br_cc s)\<rparr>))"

section \<open>Runs\<close>

datatype 'a bevent = Broadcast 'a | Force 'a | Producer bool 'a | Call nat reader_call | Reader nat bool

type_synonym 'a bsys = "'a bprod \<times> (nat \<Rightarrow> 'a breader) \<times> 'a bring"

fun broadcast_event :: "'a bevent \<Rightarrow> 'a bsys \<Rightarrow> 'a bsys" where
  "broadcast_event (Broadcast x) (p, rs, s) = (case p of BSent r \<Rightarrow> (BConn x, rs, s) | _ \<Rightarrow> (p, rs, s))"
| "broadcast_event (Force x) (p, rs, s) = (case p of BSent r \<Rightarrow> (FEpoch x, rs, s) | _ \<Rightarrow> (p, rs, s))"
| "broadcast_event (Producer weak torn) (p, rs, s) = (let (p', s') = producer_step weak torn p s in (p', rs, s'))"
| "broadcast_event (Call t c) (p, rs, s) =
     (case rd_pc (rs t) of RIdle v \<Rightarrow> let (r, s') = reader_begin c (rs t) s in (p, rs(t := r), s') | _ \<Rightarrow> (p, rs, s))"
| "broadcast_event (Reader t weak) (p, rs, s) = (let (r, s') = reader_step weak (rs t) s in (p, rs(t := r), s'))"

definition bstart :: "'a \<Rightarrow> 'a bsys" where
  "bstart zero = (BSent True, \<lambda>t. breader_init, bring_init zero)"

definition brun :: "'a bevent list \<Rightarrow> 'a bsys \<Rightarrow> 'a bsys" where
  "brun evs = fold broadcast_event evs"

text \<open>
  A run is calm for \<open>n\<close> receivers when \<open>force_push\<close> is not used and no receiver connects while an
  element is being sent.
\<close>

fun calm :: "nat \<Rightarrow> 'a bevent \<Rightarrow> 'a bsys \<Rightarrow> bool" where
  "calm n (Broadcast x) (p, rs, s) = list_all (\<lambda>t. \<not> in_connect (rd_pc (rs t))) [0..<n]"
| "calm n (Force x) (p, rs, s) = False"
| "calm n (Call t c) (p, rs, s) = (t < n \<and> (c = Call_Connect \<longrightarrow> (case p of BSent r \<Rightarrow> True | _ \<Rightarrow> False)))"
| "calm n (Producer weak torn) (p, rs, s) = True"
| "calm n (Reader t weak) (p, rs, s) = (t < n)"

fun calm_run :: "nat \<Rightarrow> 'a bevent list \<Rightarrow> 'a bsys \<Rightarrow> bool" where
  "calm_run n [] sys = True"
| "calm_run n (e # evs) sys = (calm n e sys \<and> calm_run n evs (broadcast_event e sys))"

section \<open>Read counters\<close>

lemma ep_mask_mask: "ep_mask = mask 32"
  by (simp add: ep_mask_def mask_eq_exp_minus_1)

lemma bit_ep_mask [simp]: "bit ep_mask n \<longleftrightarrow> n < 32"
  unfolding ep_mask_mask by (auto simp: bit_simps)

lemma bit_rem_cc [simp]: "bit (rem_cc c) n \<longleftrightarrow> n < 32 \<and> bit c n"
  by (auto simp: rem_cc_def bit_simps)

lemma rem_cc_claim [simp]: "rem_cc (ucast cc) = cc"
  by (rule bit_word_eqI) (auto simp: bit_simps)

lemma rem_cc_clear [simp]: "rem_cc (c AND NOT (ucast i)) = rem_cc c AND NOT i"
  by (rule bit_word_eqI) (auto simp: bit_simps)

lemma high_claim [simp]: "ucast (cc :: u32) AND NOT ep_mask = 0"
  by (rule bit_word_eqI) (auto simp: bit_simps dest: bit_u32)

lemma high_clear: "c AND NOT ep_mask = 0 \<Longrightarrow> (c AND NOT i) AND NOT ep_mask = 0"
  by (metis (no_types) and.assoc and.commute and_zero_eq)

lemma disjoint_keeps: "i AND j = 0 \<Longrightarrow> (c AND NOT j) AND i = 0 \<longleftrightarrow> c AND (i :: u32) = 0"
  by (auto simp: bit_eq_iff bit_simps)

lemma of_nat_window: "(of_nat m :: u32) = of_nat n \<longleftrightarrow> m = n" if "m \<le> n" "n \<le> m + 256"
proof
  assume "(of_nat m :: u32) = of_nat n"
  then have "(of_nat (n - m) :: u32) = 0" using that(1) by (simp add: of_nat_diff)
  moreover have "unat (of_nat k :: u32) = k" if "k \<le> 256" for k using that by (simp add: unat_of_nat)
  ultimately have "n - m = 0" using that(2) by (metis le_diff_conv add.commute unsigned_0)
  then show "m = n" using that(1) by simp
qed simp

section \<open>The invariant\<close>

definition marked :: "'a bring \<Rightarrow> nat \<Rightarrow> u32 \<Rightarrow> bool" where
  "marked s n i \<longleftrightarrow> rem_cc (br_rc s (slot n)) AND i \<noteq> 0"

definition settled :: "'a breader \<Rightarrow> bool" where
  "settled r \<longleftrightarrow> rd_id r \<noteq> 0 \<and> \<not> in_connect (rd_pc r)"

text \<open>The element a receiver has still to tick off: it is one behind its cursor from reading it on.\<close>

fun behind :: "'a bread_pc \<Rightarrow> nat" where
  "behind (RCount i x) = 1"
| "behind (RClaim i c x) = 1"
| "behind p = 0"

definition next_to_tick :: "'a breader \<Rightarrow> nat" where
  "next_to_tick r = rd_from r + length (rd_got r) - behind (rd_pc r)"

fun place_ok :: "'a bring \<Rightarrow> 'a breader \<Rightarrow> 'a bread_pc \<Rightarrow> bool" where
  "place_ok s r (RRead i) = (i = slot (next_to_tick r) \<and> next_to_tick r < length (br_sent s) \<and> rd_cur r = of_nat (next_to_tick r + 1))"
| "place_ok s r (RCount i x) = (i = slot (next_to_tick r) \<and> rd_got r \<noteq> [] \<and> rd_cur r = of_nat (next_to_tick r + 1))"
| "place_ok s r (RClaim i c x) = (i = slot (next_to_tick r) \<and> rd_got r \<noteq> [] \<and> rd_cur r = of_nat (next_to_tick r + 1))"
| "place_ok s r p = (rd_cur r = of_nat (next_to_tick r))"

definition reader_ok :: "'a bring \<Rightarrow> 'a breader \<Rightarrow> bool" where
  "reader_ok s r \<longleftrightarrow> rd_got r = take (length (rd_got r)) (drop (rd_from r) (br_sent s))
     \<and> rd_from r + length (rd_got r) \<le> length (br_sent s) \<and> place_ok s r (rd_pc r)
     \<and> length (br_sent s) \<le> next_to_tick r + 256
     \<and> (\<forall>n < length (br_sent s). next_to_tick r \<le> n \<longrightarrow> marked s n (rd_id r) \<and> br_data s (slot n) = br_sent s ! n)"

definition covers :: "(nat \<Rightarrow> 'a breader) \<Rightarrow> u32 \<Rightarrow> bool" where
  "covers rs cc \<longleftrightarrow> (\<forall>t. settled (rs t) \<longrightarrow> cc AND rd_id (rs t) \<noteq> 0)"

definition claimed :: "(nat \<Rightarrow> 'a breader) \<Rightarrow> 'a bring \<Rightarrow> bool" where
  "claimed rs s \<longleftrightarrow> (\<forall>t. settled (rs t) \<longrightarrow>
     marked s (length (br_sent s)) (rd_id (rs t)) \<and> length (br_sent s) < next_to_tick (rs t) + 256)"

fun prod_ok :: "(nat \<Rightarrow> 'a breader) \<Rightarrow> 'a bring \<Rightarrow> 'a bprod \<Rightarrow> bool" where
  "prod_ok rs s (BSent v) = True"
| "prod_ok rs s (BConn x) = True"
| "prod_ok rs s (BSlot x cc) = covers rs cc"
| "prod_ok rs s (BCount x cc i) = (covers rs cc \<and> i = slot (length (br_sent s)))"
| "prod_ok rs s (BClaim x cc i c) = (covers rs cc \<and> i = slot (length (br_sent s)) \<and> cc AND rem_cc c = 0)"
| "prod_ok rs s (BBegin x i) = (claimed rs s \<and> i = slot (length (br_sent s)))"
| "prod_ok rs s (BData x i) = (claimed rs s \<and> i = slot (length (br_sent s)))"
| "prod_ok rs s (BAdd x) = (claimed rs s \<and> br_data s (slot (length (br_sent s))) = x)"
| "prod_ok rs s p = False"

fun join_view :: "'a bread_pc \<Rightarrow> u32 \<Rightarrow> join_pc" where
  "join_view (RJoin p) i = p"
| "join_view p i = (if i = 0 then Away else Joined i)"

definition views :: "(nat \<Rightarrow> 'a breader) \<Rightarrow> nat \<Rightarrow> join_pc" where
  "views rs t = join_view (rd_pc (rs t)) (rd_id (rs t))"

definition idle_prod :: "'a bprod \<Rightarrow> bool" where
  "idle_prod p \<longleftrightarrow> (case p of BSent v \<Rightarrow> True | _ \<Rightarrow> False)"

definition epoch_ok :: "'a bring \<Rightarrow> bool" where
  "epoch_ok s \<longleftrightarrow> br_epoch s = 0 \<and> br_wt s = of_nat (length (br_sent s)) \<and> (\<forall>i. br_rc s i AND NOT ep_mask = 0)"

definition conns_ok :: "nat \<Rightarrow> 'a bprod \<Rightarrow> (nat \<Rightarrow> 'a breader) \<Rightarrow> u32 \<Rightarrow> bool" where
  "conns_ok n p rs cc \<longleftrightarrow> joins_ok (views rs, cc) \<and> (\<forall>t q. rd_pc (rs t) = RJoin q \<longrightarrow> rd_id (rs t) = 0 \<and> (\<forall>c. q \<noteq> Joined c))
     \<and> (\<forall>t. in_connect (rd_pc (rs t)) \<longrightarrow> idle_prod p) \<and> (\<forall>t \<ge> n. rs t = breader_init)
     \<and> (\<forall>t. rd_id (rs t) = 0 \<longrightarrow> in_connect (rd_pc (rs t)) \<or> (\<exists>v. rd_pc (rs t) = RIdle v))"

definition bsys_ok :: "nat \<Rightarrow> 'a bsys \<Rightarrow> bool" where
  "bsys_ok n = (\<lambda>(p, rs, s). epoch_ok s \<and> conns_ok n p rs (br_cc s) \<and> (\<forall>t. settled (rs t) \<longrightarrow> reader_ok s (rs t)) \<and> prod_ok rs s p)"

lemma bsys_okD:
  assumes "bsys_ok n (p, rs, s)"
  shows "epoch_ok s" and "conns_ok n p rs (br_cc s)" and "settled (rs t) \<Longrightarrow> reader_ok s (rs t)" and "prod_ok rs s p"
  using assms by (simp_all add: bsys_ok_def)

lemma bsys_okI:
  assumes "epoch_ok s" and "conns_ok n p rs (br_cc s)" and "\<And>t. settled (rs t) \<Longrightarrow> reader_ok s (rs t)" and "prod_ok rs s p"
  shows "bsys_ok n (p, rs, s)"
  using assms by (simp add: bsys_ok_def)

lemma reader_okD:
  assumes "reader_ok s r"
  shows "rd_got r = take (length (rd_got r)) (drop (rd_from r) (br_sent s))" and "rd_from r + length (rd_got r) \<le> length (br_sent s)"
    and "place_ok s r (rd_pc r)" and "length (br_sent s) \<le> next_to_tick r + 256"
    and "next_to_tick r \<le> n \<Longrightarrow> n < length (br_sent s) \<Longrightarrow> marked s n (rd_id r)"
    and "next_to_tick r \<le> n \<Longrightarrow> n < length (br_sent s) \<Longrightarrow> br_data s (slot n) = br_sent s ! n"
  using assms by (simp_all add: reader_ok_def)

lemma next_to_tick_le: "reader_ok s r \<Longrightarrow> next_to_tick r \<le> length (br_sent s)"
  using reader_okD(2) [of s r] by (simp add: next_to_tick_def)

text \<open>The bit of a connected receiver is set in the word of the connections, and no other receiver has it.\<close>

lemma settled_view: "settled r \<Longrightarrow> join_view (rd_pc r) (rd_id r) = Joined (rd_id r)"
  by (cases "rd_pc r") (auto simp: settled_def)

lemma settled_holder:
  assumes "conns_ok n p rs cc" and "settled (rs t)"
  shows "\<exists>i. holder (views rs) i t \<and> rd_id (rs t) = 2 ^ i"
  using assms settled_view [OF assms(2)]
  by (intro holder_ex [of "views rs" cc]) (auto simp: conns_ok_def views_def settled_def)

lemma covers_connected:
  assumes "conns_ok n p rs cc"
  shows "covers rs cc"
  unfolding covers_def
proof (intro allI impI)
  fix t assume "settled (rs t)"
  then obtain i where i: "holder (views rs) i t" "rd_id (rs t) = 2 ^ i" using settled_holder [OF assms] by blast
  then have "bit cc i" "i < 32" using assms by (auto simp: conns_ok_def joins_ok_def holder_def)
  then have "bit (cc AND rd_id (rs t)) i" by (simp add: i(2) bit_simps)
  then show "cc AND rd_id (rs t) \<noteq> 0" by auto
qed

lemma settled_disjoint:
  assumes "conns_ok n p rs cc" and "settled (rs t)" "settled (rs u)" "t \<noteq> u"
  shows "rd_id (rs u) AND rd_id (rs t) = 0"
proof -
  obtain i j where i: "holder (views rs) i t" "rd_id (rs t) = 2 ^ i" "holder (views rs) j u" "rd_id (rs u) = 2 ^ j"
    using settled_holder [OF assms(1,2)] settled_holder [OF assms(1,3)] by auto
  then have "i \<noteq> j" using assms(1,4) by (auto simp: conns_ok_def joins_ok_def)
  then show ?thesis unfolding i(2,4) by (intro bit_word_eqI) (simp add: bit_simps)
qed

section \<open>The producer keeps the invariant\<close>

text \<open>Slots of unread elements are not the slot of the next element when there is room.\<close>

lemma other_slot:
  assumes "next_to_tick r \<le> n" "n < length xs" "length xs < next_to_tick r + 256"
  shows "slot n \<noteq> slot (length xs)"
  using slot_window [of "next_to_tick r" n "length xs"] assms by simp

lemma place_ok_upd [simp]:
  "place_ok (s\<lparr>br_data := d\<rparr>) r q = place_ok s r q" "place_ok (s\<lparr>br_rc := c\<rparr>) r q = place_ok s r q"
  "place_ok (s\<lparr>br_cc := cc\<rparr>) r q = place_ok s r q"
  by (cases q; simp)+

lemma marked_upd [simp]:
  "marked (s\<lparr>br_data := d\<rparr>) m i = marked s m i" "marked (s\<lparr>br_cc := cc\<rparr>) m i = marked s m i"
  "marked (s\<lparr>br_wt := w, br_sent := ss\<rparr>) m i = marked s m i"
  by (simp_all add: marked_def)

lemma reader_ok_cc [simp]: "reader_ok (s\<lparr>br_cc := cc\<rparr>) r = reader_ok s r"
  by (simp add: reader_ok_def)

lemma reader_ok_data:
  assumes "reader_ok s r" and "length (br_sent s) < next_to_tick r + 256"
  shows "reader_ok (s\<lparr>br_data := (br_data s)(slot (length (br_sent s)) := x)\<rparr>) r"
  using assms other_slot [of r _ "br_sent s"] by (auto simp: reader_ok_def)

lemma reader_ok_claim:
  assumes "reader_ok s r" and "length (br_sent s) < next_to_tick r + 256"
  shows "reader_ok (s\<lparr>br_rc := (br_rc s)(slot (length (br_sent s)) := c)\<rparr>) r"
  using assms other_slot [of r _ "br_sent s"] by (auto simp: reader_ok_def marked_def)

lemma place_ok_sent: "place_ok s r q \<Longrightarrow> place_ok (s\<lparr>br_wt := w, br_sent := br_sent s @ [x]\<rparr>) r q"
  by (cases q) auto

lemma reader_ok_sent:
  assumes "reader_ok s r" and "length (br_sent s) < next_to_tick r + 256" and "marked s (length (br_sent s)) (rd_id r)"
    and "br_data s (slot (length (br_sent s))) = x"
  shows "reader_ok (s\<lparr>br_wt := w, br_sent := br_sent s @ [x]\<rparr>) r"
  using assms by (auto simp: reader_ok_def place_ok_sent nth_append less_Suc_eq)

text \<open>A claim succeeds only when every connected receiver has ticked off what the slot held before.\<close>

lemma claim_room:
  assumes ok: "reader_ok s r" and "\<not> marked s (length (br_sent s)) (rd_id r)"
  shows "length (br_sent s) < next_to_tick r + 256"
proof (rule ccontr)
  assume "\<not> ?thesis"
  then have e: "length (br_sent s) = next_to_tick r + 256" using reader_okD(4) [OF ok] by simp
  then have "slot (length (br_sent s)) = slot (next_to_tick r)" by (simp add: slot_eq_iff)
  then show False using reader_okD(5) [OF ok, of "next_to_tick r"] e assms(2) by (simp add: marked_def)
qed

lemma conns_ok_busy:
  assumes "conns_ok n p rs cc" and "\<not> idle_prod p"
  shows "conns_ok n q rs cc"
  using assms by (auto simp: conns_ok_def)

lemma conns_ok_idle: "conns_ok n p rs cc \<Longrightarrow> idle_prod q \<Longrightarrow> conns_ok n q rs cc"
  by (auto simp: conns_ok_def)

lemma no_common_bit: "cc AND c = 0 \<Longrightarrow> covers rs cc \<Longrightarrow> conns_ok n p rs k \<Longrightarrow> settled (rs t) \<Longrightarrow> c AND rd_id (rs t) = 0"
proof -
  assume a: "cc AND c = 0" "covers rs cc" "conns_ok n p rs k" "settled (rs t)"
  obtain i where i: "holder (views rs) i t" "rd_id (rs t) = 2 ^ i" using settled_holder [OF a(3,4)] by blast
  have "cc AND 2 ^ i \<noteq> 0" using a(2,4) i(2) by (auto simp: covers_def)
  then have "bit cc i" by (simp add: and_exp_eq_0_iff_not_bit)
  moreover have "i < 32" using i(1) by (simp add: holder_def)
  ultimately have "\<not> bit c i" using a(1) by (auto simp: bit_eq_iff bit_simps)
  then show "c AND rd_id (rs t) = 0" by (simp add: i(2) and_exp_eq_0_iff_not_bit)
qed

lemma keep_claim_slot:
  assumes ok: "bsys_ok n (BClaim x cc i c, rs, s)" and c: "br_rc s i = c"
  shows "bsys_ok n (BBegin x i, rs, s\<lparr>br_rc := (br_rc s)(i := br_epoch s OR ucast cc)\<rparr>)"
proof (rule bsys_okI)
  let ?s = "s\<lparr>br_rc := (br_rc s)(i := br_epoch s OR ucast cc)\<rparr>"
  note d = bsys_okD [OF ok]
  have p: "covers rs cc" "i = slot (length (br_sent s))" "cc AND rem_cc c = 0" "br_epoch s = 0" using d(1,4) by (simp_all add: epoch_ok_def)
  show "epoch_ok ?s" using d(1) by (auto simp: epoch_ok_def)
  show "conns_ok n (BBegin x i) rs (br_cc ?s)" using conns_ok_busy [OF d(2)] by (simp add: idle_prod_def)
  have room: "length (br_sent s) < next_to_tick (rs t) + 256" if "settled (rs t)" for t
    using claim_room [OF d(3) [OF that]] no_common_bit [OF p(3,1) d(2) that] c p(2) by (simp add: marked_def)
  show "reader_ok ?s (rs t)" if "settled (rs t)" for t
    using reader_ok_claim [OF d(3) [OF that] room [OF that]] p(2) by simp
  show "prod_ok rs ?s (BBegin x i)"
    using room p by (simp add: claimed_def covers_def marked_def)
qed

lemma keep_write:
  assumes ok: "epoch_ok s" "conns_ok n p rs (br_cc s)" "\<not> idle_prod p" "\<And>t. settled (rs t) \<Longrightarrow> reader_ok s (rs t)" "claimed rs s"
    and p': "q = BAdd x \<or> q = BData y (slot (length (br_sent s)))"
  shows "bsys_ok n (q, rs, s\<lparr>br_data := (br_data s)(slot (length (br_sent s)) := x)\<rparr>)"
proof (rule bsys_okI)
  let ?s = "s\<lparr>br_data := (br_data s)(slot (length (br_sent s)) := x)\<rparr>"
  show "epoch_ok ?s" using ok(1) by (simp add: epoch_ok_def)
  show "conns_ok n q rs (br_cc ?s)" using conns_ok_busy [OF ok(2,3)] by simp
  show "reader_ok ?s (rs t)" if "settled (rs t)" for t
    using reader_ok_data [OF ok(4) [OF that]] ok(5) that by (simp add: claimed_def)
  show "prod_ok rs ?s q" using p' ok(5) by (auto simp: claimed_def)
qed

lemma keep_add:
  assumes ok: "bsys_ok n (BAdd x, rs, s)"
  shows "bsys_ok n (BSent True, rs, s\<lparr>br_wt := br_wt s + 1, br_sent := br_sent s @ [x]\<rparr>)"
proof (rule bsys_okI)
  note d = bsys_okD [OF ok]
  show "epoch_ok (s\<lparr>br_wt := br_wt s + 1, br_sent := br_sent s @ [x]\<rparr>)" using d(1) by (simp add: epoch_ok_def)
  show "conns_ok n (BSent True) rs (br_cc (s\<lparr>br_wt := br_wt s + 1, br_sent := br_sent s @ [x]\<rparr>))"
    using conns_ok_idle [OF d(2)] by (simp add: idle_prod_def)
  show "reader_ok (s\<lparr>br_wt := br_wt s + 1, br_sent := br_sent s @ [x]\<rparr>) (rs t)" if "settled (rs t)" for t
    using reader_ok_sent [OF d(3) [OF that], of x] d(4) that by (auto simp: claimed_def)
qed simp

lemma keep_producer:
  assumes ok: "bsys_ok n (p, rs, s)" and st: "producer_step weak torn p s = (p', s')"
  shows "bsys_ok n (p', rs, s')"
proof -
  note d = bsys_okD [OF ok]
  have lo: "bsys_ok n (q, rs, s)" if "prod_ok rs s q" "idle_prod p \<Longrightarrow> idle_prod q" for q
    using bsys_okI [OF d(1) _ d(3) that(1)] conns_ok_busy [OF d(2), of q] conns_ok_idle [OF d(2), of q] that(2) by blast
  show ?thesis
  proof (cases p)
    case (BConn x)
    then show ?thesis using st lo covers_connected [OF d(2)] by (auto simp: producer_step_def idle_prod_def)
  next
    case (BSlot x cc)
    then show ?thesis using st lo d(1,4) by (auto simp: producer_step_def idle_prod_def epoch_ok_def slot_def)
  next
    case (BCount x cc i)
    then show ?thesis using st lo d(1,4) by (auto simp: producer_step_def idle_prod_def epoch_ok_def Let_def split: if_splits)
  next
    case (BClaim x cc i c)
    then show ?thesis using st lo ok keep_claim_slot [of n x cc i c rs s] by (auto simp: producer_step_def idle_prod_def split: if_splits)
  next
    case (BBegin x i)
    then show ?thesis using st d keep_write [OF d(1,2) _ d(3)] by (auto simp: producer_step_def idle_prod_def)
  next
    case (BData x i)
    then show ?thesis using st d keep_write [OF d(1,2) _ d(3)] by (auto simp: producer_step_def idle_prod_def)
  next
    case (BAdd x)
    then show ?thesis using st ok keep_add by (auto simp: producer_step_def)
  qed (use st ok d(4) in \<open>auto simp: producer_step_def\<close>)
qed

section \<open>The receivers keep the invariant\<close>

lemma views_upd: "views (rs(t := r)) = (views rs)(t := join_view (rd_pc r) (rd_id r))"
  by (auto simp: views_def)

text \<open>A step of a connected receiver that stays connected.\<close>

lemma conns_ok_pop:
  assumes "conns_ok n p rs cc" and "settled (rs t)" "settled r" "rd_id r = rd_id (rs t)" and "t < n"
  shows "conns_ok n p (rs(t := r)) cc"
proof -
  have "views (rs(t := r)) = views rs"
    unfolding views_upd using settled_view [OF assms(2)] settled_view [OF assms(3)] assms(4) by (auto simp: views_def)
  then show ?thesis using assms by (auto simp: conns_ok_def settled_def)
qed

lemma covers_pop: "covers rs cc \<Longrightarrow> settled (rs t) \<Longrightarrow> rd_id r = rd_id (rs t) \<Longrightarrow> covers (rs(t := r)) cc"
  by (simp add: covers_def)

lemma claimed_pop:
  assumes "claimed rs s" and "settled (rs t)" "rd_id r = rd_id (rs t)" "next_to_tick (rs t) \<le> next_to_tick r"
  shows "claimed (rs(t := r)) s"
  using assms by (auto simp: claimed_def)

lemma prod_ok_pop:
  assumes "prod_ok rs s p" and "settled (rs t)" "rd_id r = rd_id (rs t)" "next_to_tick (rs t) \<le> next_to_tick r"
  shows "prod_ok (rs(t := r)) s p"
  using assms covers_pop [of rs _ t r] claimed_pop [of rs s t r] by (cases p) simp_all

lemma keep_pop_local:
  assumes ok: "bsys_ok n (p, rs, s)" and "t < n" "settled (rs t)" "settled r" "rd_id r = rd_id (rs t)" "next_to_tick (rs t) \<le> next_to_tick r"
    and "reader_ok s r"
  shows "bsys_ok n (p, rs(t := r), s)"
  using bsys_okD [OF ok] conns_ok_pop [OF bsys_okD(2) [OF ok] assms(3-5,2)] prod_ok_pop [OF bsys_okD(4) [OF ok] assms(3,5,6)] assms(7)
  by (intro bsys_okI) auto

text \<open>Ticking off an element touches the bit of no other receiver, and no slot that is being written.\<close>

lemma marked_tick:
  assumes "i AND j = 0"
  shows "marked (s\<lparr>br_rc := (br_rc s)(k := br_rc s k AND NOT (ucast j))\<rparr>) m i \<longleftrightarrow> marked s m i"
  using assms by (simp add: marked_def disjoint_keeps)

lemma marked_other:
  assumes "slot m \<noteq> k"
  shows "marked (s\<lparr>br_rc := (br_rc s)(k := c)\<rparr>) m i \<longleftrightarrow> marked s m i"
  using assms by (simp add: marked_def)

lemma prod_ok_tick:
  assumes "prod_ok rs s p" and "\<And>t. settled (rs t) \<Longrightarrow> claimed rs s \<Longrightarrow>
      marked (s\<lparr>br_rc := c\<rparr>) (length (br_sent s)) (rd_id (rs t)) \<longleftrightarrow> marked s (length (br_sent s)) (rd_id (rs t))"
  shows "prod_ok rs (s\<lparr>br_rc := c\<rparr>) p"
proof -
  have "claimed rs s \<Longrightarrow> claimed rs (s\<lparr>br_rc := c\<rparr>)" using assms(2) by (simp add: claimed_def)
  then show ?thesis using assms(1) by (cases p) simp_all
qed

lemma keep_tick:
  assumes ok: "bsys_ok n (p, rs, s)" and t: "t < n" "settled (rs t)" "rd_pc (rs t) = RClaim i (br_rc s i) x"
  shows "bsys_ok n (p, rs(t := (rs t)\<lparr>rd_pc := RIdle (Some x)\<rparr>), s\<lparr>br_rc := (br_rc s)(i := br_rc s i AND NOT (ucast (rd_id (rs t))))\<rparr>)"
proof (rule bsys_okI)
  let ?r = "(rs t)\<lparr>rd_pc := RIdle (Some x)\<rparr>" and ?s = "s\<lparr>br_rc := (br_rc s)(i := br_rc s i AND NOT (ucast (rd_id (rs t))))\<rparr>"
  note d = bsys_okD [OF ok]
  note r = d(3) [OF t(2)]
  have i: "i = slot (next_to_tick (rs t))" "rd_got (rs t) \<noteq> []" "rd_cur (rs t) = of_nat (next_to_tick (rs t) + 1)"
    using reader_okD(3) [OF r] t(3) by simp_all
  have nx: "next_to_tick ?r = next_to_tick (rs t) + 1" using i(2) t(3) by (cases "rd_got (rs t)") (simp_all add: next_to_tick_def)
  have st: "settled ?r" using t(2) by (simp add: settled_def)
  have other: "marked ?s m (rd_id (rs u)) \<longleftrightarrow> marked s m (rd_id (rs u))" if "settled (rs u)" "u \<noteq> t" for u m
    using marked_tick [OF settled_disjoint [OF d(2) t(2) that(1)]] that(2) by blast
  have own: "marked ?s m j \<longleftrightarrow> marked s m j" if "next_to_tick (rs t) < m" "m < next_to_tick (rs t) + 256" for m j
    by (rule marked_other) (use slot_window [of "next_to_tick (rs t)" m "next_to_tick (rs t)"] that i(1) in simp)
  have lt: "next_to_tick (rs t) < length (br_sent s)"
    using reader_okD(2) [OF r] nx by (simp add: next_to_tick_def)
  show "epoch_ok ?s" using d(1) high_clear by (auto simp: epoch_ok_def)
  show "conns_ok n p (rs(t := ?r)) (br_cc ?s)" using conns_ok_pop [OF d(2) t(2) st _ t(1)] by simp
  show "reader_ok ?s ((rs(t := ?r)) u)" if "settled ((rs(t := ?r)) u)" for u
  proof (cases "u = t")
    case True
    have "marked ?s m (rd_id (rs t))" if "next_to_tick (rs t) + 1 \<le> m" "m < length (br_sent s)" for m
      using own [of m "rd_id (rs t)"] reader_okD(4) [OF r] reader_okD(5) [OF r, of m] that by simp
    then show ?thesis using True r lt nx i(3) by (simp add: reader_ok_def next_to_tick_def)
  next
    case False
    then show ?thesis using d(3) [of u] that other [of u] by (simp add: reader_ok_def)
  qed
  have "marked ?s (length (br_sent s)) (rd_id (rs u)) \<longleftrightarrow> marked s (length (br_sent s)) (rd_id (rs u))"
    if "settled (rs u)" "claimed rs s" for u
    using other [OF that(1)] own [of "length (br_sent s)"] lt that(2) t(2) by (cases "u = t") (auto simp: claimed_def)
  then have "prod_ok rs ?s p" using prod_ok_tick [OF d(4)] by blast
  then show "prod_ok (rs(t := ?r)) ?s p" using prod_ok_pop [of rs ?s p t ?r] t(2) nx by simp
qed

lemma next_to_tick_pc: "behind q = behind (rd_pc r) \<Longrightarrow> next_to_tick (r\<lparr>rd_pc := q\<rparr>) = next_to_tick r"
  by (simp add: next_to_tick_def)

lemma cursor_at_end:
  assumes ok: "epoch_ok s" and r: "reader_ok s r" and pc: "rd_pc r = RWt"
  shows "rd_cur r = br_wt s \<longleftrightarrow> rd_from r + length (rd_got r) = length (br_sent s)"
proof -
  have "rd_cur r = of_nat (rd_from r + length (rd_got r))" using reader_okD(3) [OF r] pc by (simp add: next_to_tick_def)
  moreover have "rd_from r + length (rd_got r) \<le> length (br_sent s)" "length (br_sent s) \<le> rd_from r + length (rd_got r) + 256"
    using reader_okD(2,4) [OF r] pc by (simp_all add: next_to_tick_def)
  ultimately show ?thesis using of_nat_window [of "rd_from r + length (rd_got r)" "length (br_sent s)"] ok by (simp add: epoch_ok_def)
qed

lemma got_next:
  assumes "reader_ok s r" and "rd_from r + length (rd_got r) < length (br_sent s)"
  shows "rd_got r @ [br_sent s ! (rd_from r + length (rd_got r))] = take (length (rd_got r) + 1) (drop (rd_from r) (br_sent s))"
  using assms(2) reader_okD(1) [OF assms(1)] by (simp add: take_Suc_conv_app_nth)

lemma keep_broadcast_pop:
  assumes ok: "bsys_ok n (p, rs, s)" and t: "t < n" "settled (rs t)" and st: "broadcast_pop weak (rd_pc (rs t)) (rs t) s = (r, s')"
  shows "bsys_ok n (p, rs(t := r), s')"
proof -
  note d = bsys_okD [OF ok]
  note r = d(3) [OF t(2)] and lo = keep_pop_local [OF ok t]
  show ?thesis
  proof (cases "rd_pc (rs t)")
    case RWt
    have "rd_cur (rs t) = of_nat (rd_from (rs t) + length (rd_got (rs t)))" using reader_okD(3) [OF r] RWt by (simp add: next_to_tick_def)
    then have "reader_ok s r" "settled r" "rd_id r = rd_id (rs t)" "next_to_tick (rs t) \<le> next_to_tick r" "s' = s"
      using st RWt r t(2) cursor_at_end [OF d(1) r RWt]
      by (auto simp: reader_ok_def next_to_tick_def settled_def slot_def split: if_splits)
    then show ?thesis using lo by simp
  next
    case (RRead i)
    let ?m = "rd_from (rs t) + length (rd_got (rs t))"
    have i: "i = slot ?m" "?m < length (br_sent s)" "rd_cur (rs t) = of_nat (?m + 1)"
      using reader_okD(3) [OF r] RRead by (simp_all add: next_to_tick_def)
    have x: "br_data s i = br_sent s ! ?m" using reader_okD(6) [OF r, of ?m] i RRead by (simp add: next_to_tick_def)
    have e: "r = (rs t)\<lparr>rd_pc := RCount i (br_sent s ! ?m), rd_got := rd_got (rs t) @ [br_sent s ! ?m]\<rparr>" "s' = s"
      using st RRead x by auto
    have "next_to_tick r = next_to_tick (rs t)" using RRead by (simp add: e(1) next_to_tick_def)
    moreover have "reader_ok s r"
      using r i got_next [OF r i(2)] RRead by (simp add: e(1) reader_ok_def next_to_tick_def)
    moreover have "settled r" using t(2) by (simp add: e(1) settled_def)
    ultimately show ?thesis using lo [of r] by (simp add: e)
  next
    case (RCount i x)
    have i: "i = slot (next_to_tick (rs t))" "0 < length (rd_got (rs t))" using reader_okD(3) [OF r] RCount by simp_all
    have "next_to_tick (rs t) < length (br_sent s)" using reader_okD(2) [OF r] i(2) RCount by (simp add: next_to_tick_def del: length_greater_0_conv)
    then have "rem_cc (br_rc s i) \<noteq> 0" using reader_okD(5) [OF r, of "next_to_tick (rs t)"] i(1) by (auto simp: marked_def)
    then have "r = (rs t)\<lparr>rd_pc := RClaim i (br_rc s i) x\<rparr>" "s' = s" using st RCount by auto
    moreover have "reader_ok s ((rs t)\<lparr>rd_pc := RClaim i (br_rc s i) x\<rparr>)" using r RCount by (simp add: reader_ok_def next_to_tick_pc)
    ultimately show ?thesis using lo [of r] RCount t(2) by (simp add: settled_def next_to_tick_pc)
  next
    case (RClaim i c x)
    show ?thesis
    proof (cases "br_rc s i = c \<and> \<not> weak")
      case True
      then show ?thesis using keep_tick [OF ok t, of i x] RClaim st by auto
    next
      case False
      then have "r = (rs t)\<lparr>rd_pc := RCount i x\<rparr>" "s' = s" using st RClaim by auto
      moreover have "reader_ok s ((rs t)\<lparr>rd_pc := RCount i x\<rparr>)" using r RClaim by (simp add: reader_ok_def next_to_tick_pc)
      ultimately show ?thesis using lo [of r] RClaim t(2) by (simp add: settled_def next_to_tick_pc)
    qed
  qed (use st ok t(2) in \<open>auto simp: settled_def\<close>)
qed

section \<open>Connecting and disconnecting keep the invariant\<close>

lemma prod_ok_fewer:
  assumes "prod_ok rs s p" and "\<not> settled r"
  shows "prod_ok (rs(t := r)) s p"
  using assms by (cases p) (auto simp: covers_def claimed_def)

lemma prod_ok_cc [simp]: "prod_ok rs (s\<lparr>br_cc := cc\<rparr>) p = prod_ok rs s p"
  by (cases p) (simp_all add: claimed_def)

lemma keep_unsettled:
  assumes ok: "bsys_ok n (p, rs, s)" and "\<not> settled r" and "conns_ok n p (rs(t := r)) cc"
  shows "bsys_ok n (p, rs(t := r), s\<lparr>br_cc := cc\<rparr>)"
proof (rule bsys_okI)
  note d = bsys_okD [OF ok]
  show "epoch_ok (s\<lparr>br_cc := cc\<rparr>)" using d(1) by (simp add: epoch_ok_def)
  show "conns_ok n p (rs(t := r)) (br_cc (s\<lparr>br_cc := cc\<rparr>))" using assms(3) by simp
  show "reader_ok (s\<lparr>br_cc := cc\<rparr>) ((rs(t := r)) u)" if "settled ((rs(t := r)) u)" for u
    using d(3) [of u] that assms(2) by (cases "u = t") simp_all
  show "prod_ok (rs(t := r)) (s\<lparr>br_cc := cc\<rparr>) p" using prod_ok_fewer [OF d(4) assms(2)] by simp
qed

lemma conns_ok_upd:
  assumes "conns_ok n p rs cc" and "joins_ok ((views rs)(t := join_view (rd_pc r) (rd_id r)), cc')" and "t < n"
    and "\<And>q. rd_pc r = RJoin q \<Longrightarrow> rd_id r = 0 \<and> (\<forall>c. q \<noteq> Joined c)" and "in_connect (rd_pc r) \<Longrightarrow> idle_prod p"
    and "rd_id r = 0 \<Longrightarrow> in_connect (rd_pc r) \<or> (\<exists>v. rd_pc r = RIdle v)"
  shows "conns_ok n p (rs(t := r)) cc'"
  using assms unfolding conns_ok_def views_upd by auto

lemma keep_join:
  assumes ok: "bsys_ok n (p, rs, s)" and t: "t < n" "rd_pc (rs t) = RJoin q" and st: "reader_connect weak (RJoin q) (rs t) s = (r, s')"
  shows "bsys_ok n (p, rs(t := r), s')"
proof -
  note d = bsys_okD [OF ok]
  have q: "rd_id (rs t) = 0" "\<And>c. q \<noteq> Joined c" "idle_prod p" "views rs t = q" "joins_ok (views rs, br_cc s)"
    using d(2) t(2) unfolding conns_ok_def views_def by (auto, metis in_connect.simps(1))
  have free: "\<not> holder (views rs) i t" for i using q(2,4) by (auto simp: holder_def)
  obtain q' cc where b: "bits_connect weak q (br_cc s) = (q', cc)" by fastforce
  then have e: "r = joined_step (rs t) q'" "s' = s\<lparr>br_cc := cc\<rparr>" using st by auto
  have loc: "joins_ok ((views rs)(t := q'), br_cc s)" if "\<forall>c. q' \<noteq> Joined c"
    using joins_ok_local [OF q(5) free, of q'] that by blast
  have j: "joins_ok ((views rs)(t := q'), cc)"
  proof (cases "q = JoinCas (br_cc s) \<and> \<not> weak")
    case True
    then show ?thesis using b joins_ok_connect [OF q(5) free] by auto
  next
    case False
    then have "(q', cc) = (q, br_cc s) \<or> (q', cc) = (JoinLoad, br_cc s) \<or> (q', cc) = (JoinCas (br_cc s), br_cc s)"
      using b by (cases q) (auto split: if_splits)
    then have "cc = br_cc s" "\<forall>c. q' \<noteq> Joined c" using q(2) by blast+
    then show ?thesis using loc by simp
  qed
  have "joins_ok ((views rs)(t := Away), cc)" if "q' = Joined 0"
    using joins_ok_local [OF j, of t Away] that by (simp add: holder_def)
  then have "joins_ok ((views rs)(t := join_view (rd_pc r) (rd_id r)), cc)"
    using j by (cases q') (auto simp: e(1))
  moreover have "rd_id r = 0 \<and> (\<forall>c. w \<noteq> Joined c)" if "rd_pc r = RJoin w" for w
    using that q(1) by (cases q') (auto simp: e(1) split: if_splits)
  moreover have "in_connect (rd_pc r) \<or> (\<exists>v. rd_pc r = RIdle v)" by (cases q') (auto simp: e(1))
  ultimately have "conns_ok n p (rs(t := r)) cc" using conns_ok_upd [OF d(2) _ t(1), of r cc] q(3) by blast
  moreover have "\<not> settled r" using q(1) by (cases q') (auto simp: e(1) settled_def)
  ultimately show ?thesis using keep_unsettled [OF ok] e(2) by simp
qed

lemma keep_cursor:
  assumes ok: "bsys_ok n (p, rs, s)" and t: "t < n" "rd_pc (rs t) = RCursor"
  shows "bsys_ok n (p, rs(t := (rs t)\<lparr>rd_cur := br_wt s, rd_pc := RIdle None, rd_from := length (br_sent s), rd_got := []\<rparr>), s)"
proof (rule bsys_okI)
  let ?r = "(rs t)\<lparr>rd_cur := br_wt s, rd_pc := RIdle None, rd_from := length (br_sent s), rd_got := []\<rparr>"
  note d = bsys_okD [OF ok]
  have idle: "idle_prod p" using d(2) t(2) unfolding conns_ok_def by (metis in_connect.simps(2))
  show "epoch_ok s" by (rule d(1))
  have "(views rs)(t := join_view (rd_pc ?r) (rd_id ?r)) = views rs" using t(2) by (auto simp: views_def)
  then show "conns_ok n p (rs(t := ?r)) (br_cc s)"
    using conns_ok_upd [OF d(2) _ t(1), of ?r "br_cc s"] d(2) by (simp add: conns_ok_def)
  show "reader_ok s ((rs(t := ?r)) u)" if "settled ((rs(t := ?r)) u)" for u
    using d(1) d(3) [of u] that by (cases "u = t") (simp_all add: reader_ok_def next_to_tick_def epoch_ok_def)
  show "prod_ok (rs(t := ?r)) s p" using idle by (cases p) (simp_all add: idle_prod_def)
qed

lemma keep_leave:
  assumes ok: "bsys_ok n (p, rs, s)" and t: "t < n" "rd_pc (rs t) = RIdle v" "rd_id (rs t) \<noteq> 0"
  shows "bsys_ok n (p, rs(t := (rs t)\<lparr>rd_id := 0\<rparr>), s\<lparr>br_cc := bits_disconnect (rd_id (rs t)) (br_cc s)\<rparr>)"
proof (rule keep_unsettled [OF ok])
  note d = bsys_okD [OF ok]
  obtain i where i: "holder (views rs) i t" "rd_id (rs t) = 2 ^ i" using settled_holder [OF d(2), of t] t(2,3) by (auto simp: settled_def)
  have "joins_ok ((views rs)(t := Away), bits_disconnect (rd_id (rs t)) (br_cc s))"
    using joins_ok_leave [OF _ i(1)] d(2) i(2) by (simp add: conns_ok_def)
  then show "conns_ok n p (rs(t := (rs t)\<lparr>rd_id := 0\<rparr>)) (bits_disconnect (rd_id (rs t)) (br_cc s))"
    using conns_ok_upd [OF d(2) _ t(1), of "(rs t)\<lparr>rd_id := 0\<rparr>"] t(2) by simp
qed (simp add: settled_def)

lemma keep_begin_connect:
  assumes ok: "bsys_ok n (p, rs, s)" and t: "t < n" "rd_pc (rs t) = RIdle v" "rd_id (rs t) = 0" "idle_prod p"
  shows "bsys_ok n (p, rs(t := (rs t)\<lparr>rd_pc := RJoin JoinLoad\<rparr>), s)"
proof -
  note d = bsys_okD [OF ok]
  have "\<not> holder (views rs) i t" for i using t(2,3) by (simp add: holder_def views_def)
  then have "joins_ok ((views rs)(t := JoinLoad), br_cc s)"
    using joins_ok_local [of "views rs" "br_cc s" t JoinLoad] d(2) by (simp add: conns_ok_def)
  then have "conns_ok n p (rs(t := (rs t)\<lparr>rd_pc := RJoin JoinLoad\<rparr>)) (br_cc s)"
    using conns_ok_upd [OF d(2) _ t(1), of "(rs t)\<lparr>rd_pc := RJoin JoinLoad\<rparr>"] t(3,4) by simp
  then show ?thesis using keep_unsettled [OF ok, of "(rs t)\<lparr>rd_pc := RJoin JoinLoad\<rparr>" t "br_cc s"] by (simp add: settled_def)
qed

lemma keep_begin_pop:
  assumes ok: "bsys_ok n (p, rs, s)" and t: "t < n" "rd_pc (rs t) = RIdle v" "rd_id (rs t) \<noteq> 0"
  shows "bsys_ok n (p, rs(t := (rs t)\<lparr>rd_pc := RWt\<rparr>), s)"
proof -
  have st: "settled (rs t)" using t(2,3) by (simp add: settled_def)
  have "reader_ok s ((rs t)\<lparr>rd_pc := RWt\<rparr>)" using bsys_okD(3) [OF ok st] t(2) by (simp add: reader_ok_def next_to_tick_pc)
  then show ?thesis using keep_pop_local [OF ok t(1) st, of "(rs t)\<lparr>rd_pc := RWt\<rparr>"] t(2,3) by (simp add: settled_def next_to_tick_pc)
qed

lemma keep_broadcast_event:
  assumes ok: "bsys_ok n (p, rs, s)" and calm: "calm n e (p, rs, s)"
  shows "bsys_ok n (broadcast_event e (p, rs, s))"
proof (cases e)
  case (Broadcast x)
  note d = bsys_okD [OF ok]
  have "\<not> in_connect (rd_pc (rs t))" for t
    using calm d(2) Broadcast by (cases "t < n") (auto simp: conns_ok_def breader_init_def list_all_iff)
  then have "conns_ok n (BConn x) rs (br_cc s)" using d(2) by (simp add: conns_ok_def)
  then have "bsys_ok n (BConn x, rs, s)" using bsys_okI [OF d(1) _ d(3)] by simp
  then show ?thesis using Broadcast ok by (cases p) simp_all
next
  case (Force x)
  then show ?thesis using calm by simp
next
  case (Producer weak torn)
  then show ?thesis using keep_producer [OF ok, of weak torn] by (cases "producer_step weak torn p s") simp
next
  case (Call t c)
  show ?thesis
  proof (cases "rd_pc (rs t)")
    case (RIdle v)
    then show ?thesis
      using Call ok calm keep_begin_connect [OF ok _ RIdle] keep_begin_pop [OF ok _ RIdle] keep_leave [OF ok _ RIdle]
      by (cases c) (auto simp: idle_prod_def fun_upd_idem)
  qed (use Call ok in simp_all)
next
  case (Reader t weak)
  then have t: "t < n" using calm by simp
  show ?thesis
  proof (cases "in_connect (rd_pc (rs t))")
    case True
    then show ?thesis
      using Reader keep_join [OF ok t] keep_cursor [OF ok t] by (cases "rd_pc (rs t)") (auto simp: reader_step_def split: prod.splits)
  next
    case False
    show ?thesis
    proof (cases "rd_id (rs t) = 0")
      case False
      then show ?thesis
        using Reader \<open>\<not> in_connect (rd_pc (rs t))\<close> keep_broadcast_pop [OF ok t, of weak]
        by (cases "broadcast_pop weak (rd_pc (rs t)) (rs t) s") (simp add: reader_step_def settled_def)
    next
      case True
      then obtain v where "rd_pc (rs t) = RIdle v" using bsys_okD(2) [OF ok] False by (auto simp: conns_ok_def)
      then show ?thesis using Reader ok by (simp add: reader_step_def fun_upd_idem)
    qed
  qed
qed

end
