(* ===== verification/Broadcast_Props.thy ===== *)
theory Broadcast_Props
  imports Ring_Broadcast
begin

text \<open>
  What the broadcast ring gives its receivers: nothing is lost, reordered or read twice as long as
  \<open>force_push\<close> is not used and receivers connect between two sends; and what goes wrong otherwise.
\<close>

section \<open>Every receiver reads everything sent since it connected\<close>

lemma calm_reachable:
  assumes "bsys_ok n sys" and "calm_run n evs sys"
  shows "bsys_ok n (brun evs sys)"
  using assms
proof (induction evs arbitrary: sys)
  case Nil
  then show ?case by (simp add: brun_def)
next
  case (Cons e evs)
  then show ?case using keep_broadcast_event [of n "fst sys" "fst (snd sys)" "snd (snd sys)" e] by (simp add: brun_def)
qed

lemma bstart_ok: "bsys_ok n (bstart zero)"
  by (auto simp: bstart_def bsys_ok_def epoch_ok_def bring_init_def conns_ok_def joins_ok_def views_def holder_def
      breader_init_def settled_def)

text \<open>
  C20. In a calm run what a connected receiver has read is what was sent since it connected, in order,
  up to where it is; it is at most 256 elements behind, and \<open>pop\<close> reports that there is nothing exactly when it
  has read everything. The indices may wrap any number of times.
\<close>

theorem broadcast_readers_miss_nothing:
  assumes "calm_run n evs (bstart zero)" and "brun evs (bstart zero) = (p, rs, s)"
    and "rd_id (rs t) \<noteq> 0" and "\<not> in_connect (rd_pc (rs t))"
  shows "rd_got (rs t) = take (length (rd_got (rs t))) (drop (rd_from (rs t)) (br_sent s))
    \<and> length (br_sent s) \<le> rd_from (rs t) + length (rd_got (rs t)) + 256
    \<and> (rd_pc (rs t) = RWt \<longrightarrow>
        (rd_pc (fst (reader_step weak (rs t) s)) = RIdle None \<longleftrightarrow> rd_got (rs t) = drop (rd_from (rs t)) (br_sent s)))"
proof -
  have ok: "bsys_ok n (p, rs, s)" using calm_reachable [OF bstart_ok assms(1)] assms(2) by simp
  have r: "reader_ok s (rs t)" using bsys_okD(3) [OF ok] assms(3,4) by (simp add: settled_def)
  note g = reader_okD(1,2) [OF r]
  have "rd_from (rs t) + length (rd_got (rs t)) = length (br_sent s) \<longleftrightarrow> rd_got (rs t) = drop (rd_from (rs t)) (br_sent s)"
    using g by (metis add_diff_cancel_left' le_add1 le_add_diff_inverse length_drop order_refl order_trans take_all)
  then have "rd_pc (fst (reader_step weak (rs t) s)) = RIdle None \<longleftrightarrow> rd_got (rs t) = drop (rd_from (rs t)) (br_sent s)"
    if "rd_pc (rs t) = RWt"
    using that cursor_at_end [OF bsys_okD(1) [OF ok] r that] by (simp add: reader_step_def)
  then show ?thesis using g(1) reader_okD(4) [OF r] by (auto simp: next_to_tick_def)
qed

lemma replicate_few:
  "replicate 3 e = [e, e, e]" "replicate 7 e = [e, e, e, e, e, e, e]"
  by (simp_all add: eval_nat_numeral)

definition connect_evs :: "nat \<Rightarrow> 'a bevent list" where
  "connect_evs t = Call t Call_Connect # replicate 3 (Reader t False)"

definition send_evs :: "'a \<Rightarrow> 'a bevent list" where
  "send_evs x = Broadcast x # replicate 7 (Producer False x)"

definition pop_evs :: "nat \<Rightarrow> 'a bevent list" where
  "pop_evs t = Call t Call_Pop # replicate 4 (Reader t False)"

definition two_receivers :: "nat bevent list" where
  "two_receivers = connect_evs 0 @ send_evs 7 @ connect_evs 1 @ send_evs 8 @ pop_evs 0 @ pop_evs 0 @ pop_evs 1"

theorem broadcast_readers_miss_nothing_witness:
  "\<exists>p rs s. brun two_receivers (bstart 0) = (p, rs, s) \<and> rd_got (rs 0) = [7, 8] \<and> rd_got (rs 1) = [8]
     \<and> take 1 (drop (rd_from (rs 1)) (br_sent s)) = [8]"
proof -
  obtain p rs s where r: "brun two_receivers (bstart 0) = (p, rs, s)" by (metis prod_cases3)
  have c: "calm_run 2 two_receivers (bstart 0)" by code_simp
  have "(\<lambda>(p, rs, s). (rd_id (rs 1), in_connect (rd_pc (rs 1)), rd_got (rs 0), rd_got (rs 1))) (brun two_receivers (bstart 0))
    = (2, False, [7, 8], [8])"
    by code_simp
  then have v: "rd_id (rs 1) = 2" "\<not> in_connect (rd_pc (rs 1))" "rd_got (rs 0) = [7, 8]" "rd_got (rs 1) = [8]" using r by simp_all
  show ?thesis using broadcast_readers_miss_nothing [OF c r, of 1] r v by auto
qed

section \<open>A ring that is filled\<close>

text \<open>The ring after \<open>n\<close> sends, with the connections \<open>cc\<close> and no receiver that has read anything.\<close>

definition filled :: "u32 \<Rightarrow> nat \<Rightarrow> nat bring" where
  "filled cc n = \<lparr>br_cc = cc, br_wt = of_nat n, br_epoch = 0, br_data = (\<lambda>i. if unat i < n then unat i else 0),
     br_rc = (\<lambda>i. if unat i < n then ucast cc else 0), br_sent = [0..<n]\<rparr>"

lemma filled_send:
  assumes "n < 256" and "cc \<noteq> 0"
  shows "brun (send_evs n) (BSent b, rs, filled cc n) = (BSent True, rs, filled cc (Suc n))"
proof -
  have i: "index_of (of_nat n) = (of_nat n :: u8)" "unat (of_nat n :: u8) = n"
    using assms(1) unat_slot [of n] by (simp_all add: slot_def word_unat_eq_iff unat_of_nat)
  have lt: "unat j < Suc n \<longleftrightarrow> unat j < n \<or> j = of_nat n" for j :: u8
    using i(2) by (auto simp: less_Suc_eq word_unat_eq_iff)
  show ?thesis
    using assms i by (auto simp: brun_def send_evs_def eval_nat_numeral producer_step_def filled_def lt fun_eq_iff Let_def rem_cc_def)
qed

lemma filled_sends:
  assumes "n \<le> 256" and "cc \<noteq> 0"
  shows "brun (concat (map send_evs [0..<n])) (BSent True, rs, filled cc 0) = (BSent True, rs, filled cc n)"
  using assms(1)
proof (induction n)
  case (Suc n)
  then show ?case using filled_send [of n cc True rs] assms(2) by (simp add: brun_def)
qed (simp add: brun_def)

definition joined_reader :: "u32 \<Rightarrow> nat breader" where
  "joined_reader c = breader_init\<lparr>rd_id := c\<rparr>"

lemma connect_one: "brun (connect_evs 0) (bstart 0) = (BSent True, (\<lambda>t. breader_init)(0 := joined_reader 1), filled 1 0)"
  by (simp add: brun_def connect_evs_def replicate_few bstart_def bring_init_def reader_step_def breader_init_def joined_reader_def
      filled_def next_cc_def)

lemma connect_two:
  "brun (connect_evs 0 @ connect_evs 1) (bstart 0)
    = (BSent True, (\<lambda>t. breader_init)(0 := joined_reader 1, 1 := joined_reader 2), filled 3 0)"
  by (simp add: brun_def connect_evs_def replicate_few bstart_def bring_init_def reader_step_def breader_init_def joined_reader_def
      filled_def next_cc_def)

lemma brun_append: "brun (as @ bs) sys = brun bs (brun as sys)"
  by (simp add: brun_def)

section \<open>The bits a receiver leaves behind\<close>

text \<open>
  A receiver that disconnects does not clear its bit in the elements it has not read, and the bit is
  given to the next receiver that connects. In this run a receiver disconnects from a full
  ring and another one connects: it has nothing to read, and yet every further \<open>push\<close> finds its bit
  in the slot and fails, leaving everything as it is.
\<close>

definition leave_full :: "nat bevent list" where
  "leave_full = connect_evs 0 @ concat (map send_evs [0..<256]) @ [Call 0 Call_Disconnect] @ connect_evs 1"

theorem left_bits_block_sender:
  "\<exists>b rs s. brun leave_full (bstart 0) = (BSent b, rs, s) \<and> br_cc s = 1 \<and> rd_id (rs 0) = 0
     \<and> rd_id (rs 1) = 1 \<and> rd_from (rs 1) = length (br_sent s) \<and> rd_cur (rs 1) = br_wt s
     \<and> (\<forall>x v. brun (send_evs x) (BSent v, rs, s) = (BSent False, rs, s))"
proof -
  let ?s = "filled 1 256" and ?r = "joined_reader 1" and ?i = "breader_init :: nat breader"
  let ?n = "(joined_reader 1)\<lparr>rd_cur := 256, rd_from := 256\<rparr>"
  have "brun ([Call 0 Call_Disconnect] @ connect_evs 1) (BSent True, (\<lambda>t. ?i)(0 := ?r), ?s)
    = (BSent True, (\<lambda>t. ?i)(0 := ?i, 1 := ?n), ?s)"
    by (simp add: brun_def connect_evs_def replicate_few reader_step_def breader_init_def joined_reader_def filled_def
        next_cc_def bits_disconnect_def del: upt_Suc)
  then have "brun leave_full (bstart 0) = (BSent True, (\<lambda>t. ?i)(0 := ?i, 1 := ?n), ?s)"
    using filled_sends [of 256 1] unfolding leave_full_def brun_append connect_one by (simp add: brun_append [symmetric])
  moreover have "brun (send_evs x) (BSent v, rs, ?s) = (BSent False, rs, ?s)" for x v rs
    by (simp add: brun_def send_evs_def replicate_few producer_step_def filled_def index_of_def Let_def rem_cc_def ep_mask_def del: upt_Suc)
  moreover have "br_cc ?s = 1" "length (br_sent ?s) = 256" "br_wt ?s = 256" by (simp_all add: filled_def)
  ultimately show ?thesis by (auto simp: breader_init_def joined_reader_def)
qed

section \<open>After a forced push\<close>

text \<open>
  \<open>force_push\<close> starts a new epoch, and \<open>push\<close> takes an element of an older epoch for one that all have
  read. Two receivers are connected, the ring is full, the second has read one element; the send
  that is forced disconnects only the first, but the next \<open>push\<close> overwrites an element that the
  second has still to read: after the element 0 it is given 257.
\<close>

definition forced :: "nat bevent list" where
  "forced = connect_evs 0 @ connect_evs 1 @ concat (map send_evs [0..<256]) @ pop_evs 1 @ send_evs 256
     @ Force 256 # replicate 9 (Producer False 256) @ send_evs 257 @ pop_evs 1"

theorem forced_push_loses_unread:
  "\<exists>p rs s. brun forced (bstart 0) = (p, rs, s) \<and> rd_id (rs 1) AND br_cc s \<noteq> 0 \<and> rd_from (rs 1) = 0
     \<and> take 2 (br_sent s) = [0, 1] \<and> rd_got (rs 1) = [0, 257]"
proof -
  let ?rs = "(\<lambda>t. breader_init)(0 := joined_reader 1, 1 := joined_reader 2)"
  let ?evs = "pop_evs 1 @ send_evs 256 @ Force 256 # replicate 9 (Producer False 256) @ send_evs 257 @ pop_evs 1"
  obtain p rs s where r: "brun ?evs (BSent True, ?rs, filled 3 256) = (p, rs, s)" by (metis prod_cases3)
  have "(\<lambda>(p, rs, s). (rd_id (rs 1) AND br_cc s, rd_from (rs 1), take 2 (br_sent s), rd_got (rs 1)))
      (brun ?evs (BSent True, ?rs, filled 3 256)) = (2, 0, [0, 1], [0, 257])"
    by code_simp
  moreover have "brun forced (bstart 0) = (p, rs, s)"
    using r filled_sends [of 256 3 ?rs] connect_two unfolding forced_def by (simp add: brun_append del: append_assoc add: append_assoc [symmetric])
  ultimately show ?thesis using r by auto
qed

end
