(* ===== verification/Conn_Init.thy ===== *)
theory Conn_Init
  imports Ipc_Conn Ipc_Locks
begin

text \<open>
  The first use of the head of a channel, \<open>conn_head_base::init\<close> of \<^verbatim>\<open>circ/elem_def.h\<close>, which every process runs
  when it opens the queue of a channel: a test, a spin lock, a second test, the construction of the
  head in place and a flag. The head that is constructed includes the lock that is held and the flag.
  Processes are interleaved; the memory is zero at first.
\<close>

section \<open>The steps of \<open>init\<close>\<close>

record conn_head =
  ch_cc :: u32
  ch_lc :: spin_lock
  ch_made :: bool

definition zero_head :: conn_head where
  "zero_head = \<lparr>ch_cc = 0, ch_lc = spin_free, ch_made = False\<rparr>"

datatype init_pc = IOut | ILoad | ILock | ITest | INewCc | INewLock | INewMade | IStore | IUnlock | IOpen | IConnected u32

fun init_step :: "nat \<Rightarrow> init_pc \<Rightarrow> conn_head \<Rightarrow> init_pc \<times> conn_head" where
  "init_step t ILoad h = (if ch_made h then IOpen else ILock, h)"
| "init_step t ILock h = (case spin_exchange t (ch_lc h) of None \<Rightarrow> (ILock, h) | Some m \<Rightarrow> (ITest, h\<lparr>ch_lc := m\<rparr>))"
| "init_step t ITest h = (if ch_made h then IUnlock else INewCc, h)"
| "init_step t INewCc h = (INewLock, h\<lparr>ch_cc := 0\<rparr>)"
| "init_step t INewLock h = (INewMade, h\<lparr>ch_lc := spin_free\<rparr>)"
| "init_step t INewMade h = (IStore, h\<lparr>ch_made := False\<rparr>)"
| "init_step t IStore h = (IUnlock, h\<lparr>ch_made := True\<rparr>)"
| "init_step t IUnlock h = (IOpen, h\<lparr>ch_lc := spin_unlock (ch_lc h)\<rparr>)"
| "init_step t p h = (p, h)"

datatype init_event = Open nat | Init nat | Receive_From nat

type_synonym openers = "init_pc list \<times> conn_head"

fun init_do :: "init_event \<Rightarrow> openers \<Rightarrow> openers" where
  "init_do (Open t) (th, h) = (if t < length th \<and> th ! t = IOut then (th[t := ILoad], h) else (th, h))"
| "init_do (Init t) (th, h) = (if t < length th then let (p, h') = init_step t (th ! t) h in (th[t := p], h') else (th, h))"
| "init_do (Receive_From t) (th, h) =
     (if t < length th \<and> th ! t = IOpen
      then let (c, cc) = conn_connect (ch_cc h) in (th[t := IConnected c], h\<lparr>ch_cc := cc\<rparr>) else (th, h))"

definition init_run :: "init_event list \<Rightarrow> openers \<Rightarrow> openers" where
  "init_run evs = fold init_do evs"


section \<open>When the first process is alone\<close>
















section \<open>When two processes open at the same time\<close>

definition both_open :: "init_event list" where
  "both_open = Open 0 # replicate 5 (Init 0) @ Open 1 # replicate 3 (Init 1) @ replicate 3 (Init 0) @ Receive_From 0
     # replicate 5 (Init 1) @ [Receive_From 1]"

text \<open>
  The construction in place resets the lock that is held and the flag, so a second process enters
  while the first is still inside, finds the flag clear and constructs the head again. Here the
  first process has connected in between: both are connected and the count is 1.
\<close>

theorem init_loses_connection:
  "init_run both_open (replicate 2 IOut, zero_head) = ([IConnected 1, IConnected 1], zero_head\<lparr>ch_cc := 1, ch_made := True\<rparr>)"
  by code_simp

end
