(* ===== verification/Spec2Isabelle.thy ===== *)
theory Spec2Isabelle
  imports Trigger_Props Coord_Server Coord_Call Manager Kvs_Props Sched_Rerun Data_Plane Deployment Node_System Chan_Ring Ipc_Conn Shm_Handles
    Ipc_Locks Queue_Drain Requests Mem_Props Ipc_Send Rw_Lock Broadcast_Props Conn_Init
begin

text \<open>
  Demeter runs serverless workflows on the Pheromone runtime. This development models the C++
  servers under \<^verbatim>\<open>src/pheromone\<close> as Isabelle functions and proves what makes them correct.

  \<^bold>\<open>The program.\<close> A \<^emph>\<open>manager\<close> assigns applications to \<^emph>\<open>coordinators\<close>. A coordinator keeps buckets,
  triggers and the directory of objects, and routes function calls to the nodes, either in batches
  or by the Demeter scheduler, which chooses CPU and memory allocations. Each node runs a \<^emph>\<open>local
  scheduler\<close> with a \<^emph>\<open>communication helper\<close> (its network side, with secondary I/O threads) and
  several \<^emph>\<open>executors\<close>, which load and run user functions. A function puts objects into shared memory
  through the \<^emph>\<open>function library\<close>; an object makes the triggers of its bucket fire, on the node and
  at the coordinator, and a fired trigger calls functions. Durable output goes to the Anna
  key-value store through an asynchronous \<^emph>\<open>client\<close>.

  \<^bold>\<open>Conventions\<close> (\<open>Prelude\<close>). Fallible code returns \<open>cpp_error + 'a\<close>: every exception, out-of-range
  index, null dereference, use of an uninitialised value and division by zero of the source is an
  error value. Machine integers are words. \<open>std::unordered_map\<close> is an association list (\<open>tput\<close>, \<open>tget\<close>,
  \<open>tmod\<close>, \<open>terase\<close>), a set a list without duplicates; their iteration order, which C++ leaves open, is
  list order. Handlers take the state and the clock readings they use and give the new state and
  the messages they send, with their addresses. \<open>rand_r\<close> is a parameter \<open>rand_fn\<close>. Doubles are real
  numbers. The protobuf serializers are generated and not part of the repository: a socket
  carries the message record, and where the code nests serialized bytes (trigger primitives,
  lattices) the codec is a parameter with its round-trip law as a hypothesis (\<open>codec_ok\<close>), which
  \<open>wire_codec\<close> satisfies.

  \<^bold>\<open>Theories.\<close>
  \<^item> \<open>Common\<close>, \<open>Threads\<close>: \<^verbatim>\<open>common/include/common.hpp\<close>, \<^verbatim>\<open>anna_threads.hpp\<close>, \<^verbatim>\<open>kvs_threads.hpp\<close>,
    \<^verbatim>\<open>op_threads.hpp\<close>: object names, tokens, session ids, timestamps, addresses and ports. Names and
    timestamps can be taken apart again; coordinator threads bind different ports up to 20.
  \<^item> \<open>Anna_Lattices\<close>, \<open>Lattice_Codec\<close>: \<^verbatim>\<open>common/include/lattices\<close> and the codecs of \<^verbatim>\<open>common.hpp\<close>:
    merging converges and commutes where it does, values survive serialization.
  \<^item> \<open>Trigger\<close>, \<open>Trigger_Gen\<close>, \<open>Trigger_Props\<close>: \<^verbatim>\<open>common/include/trigger.hpp\<close>, its seven trigger classes.
    Each class against its specification over runs: sets, batches, groups, redundancy,
    re-execution; dumping and rebuilding.
  \<^item> \<open>Messages\<close>: the messages of \<^verbatim>\<open>common/proto\<close>.
  \<^item> \<open>Coord_State\<close>, \<open>Coord_Notify\<close>, \<open>Coord_Inv\<close>, \<open>Coord_Server\<close>: \<^verbatim>\<open>src/coordinator\<close>: the state of
    \<^verbatim>\<open>coordinator.cpp\<close> as the record \<open>coord_state\<close>, one definition per handler, the poll loop
    \<open>coord_round\<close>, and the step relation \<open>coord_step\<close> with its invariant over reachable states.
  \<^item> \<open>Demeter_Sched\<close>, \<open>Coord_Call\<close>: \<^verbatim>\<open>demeter_scheduler.cpp\<close>, \<^verbatim>\<open>func_call_handler.cpp\<close>: allocations,
    routing within capacity, and that the searches end.
  \<^item> \<open>Manager\<close>: \<^verbatim>\<open>src/manager/manager_server.cpp\<close>.
  \<^item> \<open>Exec_Lib\<close>, \<open>Executor\<close>: \<^verbatim>\<open>include/executor/function_lib.hpp\<close>, \<^verbatim>\<open>src/executor/executor_server.cpp\<close>.
    User functions and the dynamic loader are parameters.
  \<^item> \<open>Kvs_Client\<close>, \<open>Kvs_Props\<close>: \<^verbatim>\<open>common/include/anna_client/kvs_client.hpp\<close>: pending requests, retries,
    timeouts. The locale \<open>async_requests\<close> is the contract of a client that forgets no request.
  \<^item> \<open>Object_Store\<close>, \<open>Comm_Helper\<close>, \<open>Comm_Recv\<close>: \<^verbatim>\<open>src/scheduler/object_handlers.cpp\<close> and
    \<^verbatim>\<open>include/scheduler/comm_helper.hpp\<close>, its sending and receiving side. Triggers of a node live in a
    heap, since one trigger is reached from the bucket, the timeout table and the check queue.
  \<^item> \<open>Local_Sched\<close>, \<open>Sched_Loop\<close>: \<^verbatim>\<open>src/scheduler/scheduler_server.cpp\<close>: the record \<open>sched_state\<close> holds the
    globals and the locals of \<open>run\<close>, \<open>sched_round\<close> is one iteration of its loop.
  \<^item> \<open>Sched_Props\<close>, \<open>Sched_Trace\<close>: the locale \<open>step_effect\<close> carries an effect through the sequencing
    operators; with it every handler is shown to book an executor at most once and only when it is
    idle, and a run sends an executor no second call before it has announced itself again; the table of
    executors stays well typed.
  \<^item> \<open>Sched_Rerun\<close>: the loop over re-execution checks (\<open>partial_function\<close>, not returning is \<open>None\<close>)
    returns whenever the clock has passed the reporting period.
  \<^item> \<open>Node_Protocol\<close>: the byte protocol between scheduler and executors in both directions: what of any call or object
    arrives at the other side, and exactly when all of it does.
  \<^item> \<open>Data_Plane\<close>: objects fetched from other nodes, and the calls that wait for them.
  \<^item> \<open>Deployment\<close>: trigger operations from the coordinator to the views of the nodes; periodic triggers stay at the coordinator.
  \<^item> \<open>Node_System\<close>: scheduler and executors of a node as one transition system (\<open>node_reach\<close>), in which
    iterations of the loops interleave; the calls outstanding for an executor are bounded by the
    firings of its timer.
  \<^item> \<open>Ipc_Ring\<close>, \<open>Ring_Props\<close>: \<^verbatim>\<open>common/shm-ipc/src/libipc/prod_cons.h\<close>, the lock-free ring under every channel
    of a node, for several producers and consumers. A step is one atomic access of one thread. The ring
    is a linearizable queue of at most 255 messages, and an operation that runs alone returns.
  \<^item> \<open>Critical_Section\<close>: threads that share an object under a lock. The locale \<open>lock_impl\<close> is the contract of a
    lock, from which it follows that critical sections are atomic and that no deadlock arises.
  \<^item> \<open>Safe_Ptr\<close>, \<open>Queue_Drain\<close>: \<^verbatim>\<open>common/include/safe_ptr.hpp\<close> and the loop of \<open>try_recv_msg\<close> that drains the queues
    of the I/O threads: expressions on a locking pointer are atomic, and the interleaved loop is the
    atomic \<open>drain_resp_queues\<close> of \<open>Comm_Recv\<close>.
  \<^item> \<open>Requests\<close>: \<^verbatim>\<open>zmq/socket_cache.cpp\<close>, \<^verbatim>\<open>requests.hpp\<close>: one socket per address, and waiting for answers.
  \<^item> \<open>Ipc_Pool\<close>, \<open>Ipc_Locks\<close>: \<^verbatim>\<open>utility/id_pool.h\<close>, \<^verbatim>\<open>include/libipc/rw_lock.h\<close>: block numbers are handed out once, also
    to processes that ask at the same time.
  \<^item> \<open>Ipc_Chan\<close>, \<open>Chan_Props\<close>: \<^verbatim>\<open>shm-ipc/src/ipc.cpp\<close>: sending and receiving over the queue of elements that the
    ring is: fragments, blocks of shared memory, reassembly. Messages arrive as they were sent, also
    when their fragments are interleaved.
  \<^item> \<open>Chan_Ring\<close>: what a channel needs of its ring, as the locale \<open>bounded_queue\<close>, interpreted for the accesses of
    \<open>Ipc_Ring\<close>: a message pushed through the ring is received from it.
  \<^item> \<open>Ipc_Conn\<close>: \<^verbatim>\<open>libipc/queue.h\<close>, \<^verbatim>\<open>circ/elem_def.h\<close>, \<^verbatim>\<open>include/libipc/ipc.h\<close>: who receives on a channel, and
    what a full ring does to the receiver.
  \<^item> \<open>Conn_Init\<close>: \<open>conn_head_base::init\<close> of \<^verbatim>\<open>circ/elem_def.h\<close>: processes that open a channel; the head is constructed once when
    the first process is alone, and twice when two are not.
  \<^item> \<open>Ring_Single\<close>, \<open>Conn_Bits\<close>, \<open>Ring_Broadcast\<close>, \<open>Broadcast_Props\<close>: the other channel kinds of \<^verbatim>\<open>prod_cons.h\<close> with one producer:
    one or several consumers, and broadcast with its connection bits. The rings are queues, however often their indices
    wrap, and a receiver of a broadcast reads all that was sent since it connected.
  \<^item> \<open>Mem_Alloc\<close>, \<open>Mem_Pool\<close>: \<^verbatim>\<open>libipc/memory/alloc.h\<close>, \<^verbatim>\<open>memory/wrapper.h\<close>: the allocators behind every buffer and handle of
    the library, with their links in explicit memory (the record \<open>memory\<close>), the allocators of the threads and those that
    ended threads leave behind. \<open>std::malloc\<close> is a parameter; its contract is \<open>malloc_ok\<close>, null or an aligned block
    apart from all others, which \<open>slot_malloc\<close> satisfies. It may be null at any time, and the theorems say what happens then.
  \<^item> \<open>Mem_Regions\<close>, \<open>Mem_Inv\<close>, \<open>Mem_World\<close>, \<open>Mem_Props\<close>: what is free and what is in use is a multiset of regions that do not
    overlap; each operation of an allocator moves, cuts or drops regions of its own and leaves the others alone.
  \<^item> \<open>Ipc_Wait\<close>, \<open>Ipc_Send\<close>: \<^verbatim>\<open>libipc/waiter_helper.h\<close>, \<^verbatim>\<open>platform/waiter_linux.h\<close> and \<open>wait_for\<close> of \<^verbatim>\<open>ipc.cpp\<close>: threads that wait for a channel,
    as interleaved accesses to counters, flags and semaphores; no wake-up is lost as long as nobody is told to quit.
  \<^item> \<open>Rw_Lock\<close>: the lock for readers and writers of \<^verbatim>\<open>include/libipc/rw_lock.h\<close>.
  \<^item> \<open>Shm_Segments\<close>, \<open>Shm_Handles\<close>: \<^verbatim>\<open>platform/shm_linux.cpp\<close>, \<^verbatim>\<open>shm-ipc/src/shm.cpp\<close>: files of shared memory with
    their reference counts. They implement the table of segments that \<open>Exec_Lib\<close> and \<open>Object_Store\<close> use
    (up to what an existing segment gains when it is enlarged), and a segment lives as long as a handle is on it.

  \<^bold>\<open>Loops.\<close> Loops over data are structural recursion. Loops that may run forever (\<open>generate_timestamp\<close>,
  \<open>skip_full\<close>, \<open>rerun_loop\<close>, \<open>last_block\<close>, \<open>wait_loop\<close>) are \<open>partial_function (option)\<close> or return \<open>None\<close>, and a theorem states when
  they return. No fuel is used.

  \<^bold>\<open>Not modelled.\<close> \<open>main\<close> functions, which read YAML and create threads; the ZeroMQ wrappers and the
  logger, which add no logic; the parts of \<^verbatim>\<open>safe_ptr.hpp\<close> that the program does not use; of \<^verbatim>\<open>shm-ipc\<close> the broadcast from several producers,
  which the program does not instantiate, the creation and removal of named semaphores and process-shared mutexes, the
  timing of waits (a send on a full ring is modelled by its outcome after the timeout, the end of a timed wait is an
  input), and effects of weak memory: atomic accesses are sequentially consistent. \<^verbatim>\<open>gtest\<close> and the other vendored libraries; example functions,
  the Python client and the MARL policy. The objects of a node live in a table from names to bytes
  whose segments never vanish: how long they live is the subject of \<open>Shm_Handles\<close>. Within an iteration all
  handlers see one clock reading, and the secondary I/O threads run between the iterations of the
  scheduler, not inside a handler. \<open>MapLattice::intersect\<close> is left out: it cannot be instantiated.
\<close>

end
